(* ===== verification/Refk_Prelude.thy ===== *)
theory Refk_Prelude
  imports Main "HOL-Library.Word"
begin

text \<open>
  What the components share.  The machine is the x86-64 of the code: an address and a
  \<^verbatim>\<open>uint64_t\<close> are both a 64-bit word whose arithmetic wraps, memory is a
  function from addresses to bytes, and a multi-byte access is little endian.  The second
  half holds the arithmetic of page alignment that the memory managers rest on, and the
  result type of the operations that can hit undefined behaviour (a NULL pointer, a freed
  block, an array bound): such an operation returns \<open>Fault\<close> with the reason, never a made-up
  value.
\<close>

unbundle bit_operations_syntax

named_theorems frame "operations leave the parts of the state they do not write alone"
named_theorems pure_word "facts that move word arithmetic to natural numbers"

type_synonym u8 = "8 word"
type_synonym u16 = "16 word"
type_synonym u32 = "32 word"
type_synonym u64 = "64 word"
type_synonym ptr = u64
type_synonym bytes = "u64 \<Rightarrow> u8"

section \<open>Byte memory, little endian\<close>

text \<open>
  \<open>load_le n m a\<close> reads the \<open>n\<close> bytes at \<open>a\<close> as one little-endian number, \<open>store_le n m a v\<close>
  writes the low \<open>n\<close> bytes of \<open>v\<close> there.
\<close>

fun load_le :: "nat \<Rightarrow> bytes \<Rightarrow> u64 \<Rightarrow> 'a::len word" where
  "load_le 0 m a = 0"
| "load_le (Suc n) m a = ucast (m a) OR push_bit 8 (load_le n m (a + 1))"

definition store_le :: "nat \<Rightarrow> bytes \<Rightarrow> u64 \<Rightarrow> 'a::len word \<Rightarrow> bytes" where
  "store_le n m a v = (\<lambda>x. if unat (x - a) < n then ucast (drop_bit (8 * unat (x - a)) v) else m x)"

lemma unat_lt64: "unat (w :: u64) < 2 ^ 64"
  using unsigned_less [of w] by simp

lemma word_eq_unat: "x = (y :: 'a::len word) \<longleftrightarrow> unat x = unat y"
  by (auto dest: unsigned_word_eqI)

lemma bit_load_le:
  "bit (load_le n m a :: 'a::len word) k \<longleftrightarrow>
     k < LENGTH('a) \<and> k < 8 * n \<and> bit (m (a + of_nat (k div 8))) (k mod 8)"
proof (induction n arbitrary: a k)
  case 0
  then show ?case by simp
next
  case (Suc n)
  show ?case
  proof (cases "k < 8")
    case True
    then show ?thesis by (auto simp: bit_simps)
  next
    case False
    then obtain j where k: "k = 8 + j" using le_Suc_ex not_less by blast
    have "k div 8 = Suc (j div 8)" by (simp add: k)
    then have e: "a + of_nat (k div 8) = a + 1 + (of_nat (j div 8) :: u64)"
      by (simp only: of_nat_Suc add.assoc)
    have "k mod 8 = j mod 8" by (simp add: k)
    have "\<not> bit (m a) k" using False bit_imp_le_length [of "m a" k] by auto
    then have "bit (load_le (Suc n) m a :: 'a word) k \<longleftrightarrow>
        k < LENGTH('a) \<and> bit (load_le n m (a + 1) :: 'a word) j"
      by (auto simp: bit_simps k)
    also have "\<dots> \<longleftrightarrow> k < LENGTH('a) \<and> j < 8 * n \<and> bit (m (a + 1 + of_nat (j div 8))) (j mod 8)"
      using Suc.IH [of "a + 1" j] by (auto simp: k)
    finally show ?thesis
      unfolding e \<open>k mod 8 = j mod 8\<close> by (simp add: k)
  qed
qed

lemma unat_diff_offset: "j < 2 ^ 64 \<Longrightarrow> unat (a + of_nat j - a :: u64) = j"
  by (simp add: unat_of_nat)

lemma load_store_same:
  assumes "LENGTH('a::len) \<le> 8 * n" "n < 2 ^ 64"
  shows "load_le n (store_le n m a v) a = (v :: 'a word)"
proof (rule bit_word_eqI)
  fix k assume k: "k < LENGTH('a)"
  with assms have d: "k div 8 < n" by auto
  with assms have "unat (of_nat (k div 8) :: u64) = k div 8"
    by (simp add: unat_of_nat)
  moreover have "8 * (k div 8) + k mod 8 = k" by simp
  ultimately show "bit (load_le n (store_le n m a v) a :: 'a word) k = bit v k"
    using assms d k by (simp add: bit_load_le store_le_def bit_simps)
qed

lemma load_le_cong:
  "(\<And>j. j < n \<Longrightarrow> m (a + of_nat j) = m' (a + of_nat j)) \<Longrightarrow> load_le n m a = (load_le n m' a :: 'a::len word)"
proof (rule bit_word_eqI)
  fix k assume *: "\<And>j. j < n \<Longrightarrow> m (a + of_nat j) = m' (a + of_nat j)"
  show "bit (load_le n m a :: 'a word) k = bit (load_le n m' a :: 'a word) k"
    using *[of "k div 8"] by (auto simp: bit_load_le)
qed

lemma load_store_disjoint:
  assumes "n' \<le> unat (b - a)" "n \<le> unat (a - b)"
  shows "load_le n (store_le n' m a v) b = (load_le n m b :: 'a::len word)"
proof (rule load_le_cong)
  fix j assume j: "j < n"
  have "a \<noteq> b" using assms j by auto
  then have "unat (a - b) = 2 ^ 64 - unat (b - a)"
    using unat_lt64 [of a] unat_lt64 [of b] unat_sub_if' [of a b] unat_sub_if' [of b a]
    by (auto split: if_splits dest: unsigned_word_eqI)
  have "unat (b + of_nat j - a) = unat (b - a) + j"
  proof -
    have "unat (b - a) + j < 2 ^ 64" using j assms \<open>unat (a - b) = _\<close> by auto
    then have "unat (b - a + of_nat j) = unat (b - a) + j"
      by (simp add: unat_word_ariths unat_of_nat)
    then show ?thesis by (simp add: algebra_simps)
  qed
  then show "store_le n' m a v (b + of_nat j) = m (b + of_nat j)"
    using assms by (simp add: store_le_def)
qed

lemma and_mask_unat: "unat (w AND mask n :: 'a::len word) = unat w mod 2 ^ n"
proof -
  have "unat (take_bit n w) = take_bit n (unat w)" by (rule unsigned_take_bit_eq)
  then show ?thesis by (simp only: take_bit_eq_mask [symmetric] take_bit_eq_mod)
qed

text \<open>The same encoding on byte lists, for values that travel through buffers.\<close>

definition le_bytes :: "nat \<Rightarrow> 'a::len word \<Rightarrow> u8 list" where
  "le_bytes n w = map (\<lambda>i. ucast (drop_bit (8 * i) w)) [0..<n]"

fun le_value :: "u8 list \<Rightarrow> 'a::len word" where
  "le_value [] = 0"
| "le_value (x # xs) = ucast x OR push_bit 8 (le_value xs)"

lemma length_le_bytes [simp]: "length (le_bytes n w) = n"
  by (simp add: le_bytes_def)

lemma load_le_value: "load_le n m a = le_value (map (\<lambda>i. m (a + of_nat i)) [0..<n])"
proof (induction n arbitrary: a)
  case 0
  then show ?case by simp
next
  case (Suc n)
  have "map (\<lambda>i. m (a + of_nat i)) [0..<Suc n] = m a # map (\<lambda>i. m (a + 1 + of_nat i)) [0..<n]"
    unfolding map_upt_Suc by (simp add: algebra_simps)
  with Suc show ?case by simp
qed

lemma le_value_bytes:
  assumes "LENGTH('a::len) \<le> 8 * n" "n < 2 ^ 64"
  shows "le_value (le_bytes n w) = (w :: 'a word)"
proof -
  have "map (\<lambda>i. store_le n (\<lambda>_. 0) 0 w (0 + of_nat i)) [0..<n] = le_bytes n w"
    using assms(2) by (simp add: le_bytes_def store_le_def unat_of_nat)
  with load_store_same [OF assms, of "\<lambda>_. 0" 0 w] show ?thesis by (simp only: load_le_value)
qed

section \<open>Alignment and pages\<close>

lemma align8_diff:
  assumes "unat a mod 8 = 0" "unat b mod 8 = 0" "a \<noteq> (b :: u64)"
  shows "8 \<le> unat (a - b)"
proof -
  from assms(1,2) have "8 dvd unat a" "8 dvd unat b" by (simp_all add: mod_0_imp_dvd)
  then obtain k l where k: "unat a = 8 * k" "unat b = 8 * l" by (metis dvdE)
  then have "l < 2 ^ 61" using unat_lt64 [of b] by simp
  with k have "unat (a - b) = (if l \<le> k then 8 * (k - l) else 8 * (k + 2 ^ 61 - l))"
    by (auto simp: unat_sub_if')
  moreover have "unat (a - b) \<noteq> 0" using assms(3) by (simp add: unat_0_iff)
  ultimately show ?thesis by (auto split: if_splits)
qed

definition page_aligned :: "u64 \<Rightarrow> bool" where
  "page_aligned a \<longleftrightarrow> a AND 0xfff = 0"

lemma low12_unat: "unat (a AND 0xfff :: u64) = unat a mod 4096"
  using and_mask_unat [of a 12] by (simp add: mask_eq_exp_minus_1)

lemma page_aligned_iff: "page_aligned a \<longleftrightarrow> unat a mod 4096 = 0"
  by (metis low12_unat page_aligned_def unat_0 unat_0_iff)

lemma low9_unat: "unat (a AND 0x1ff :: u64) = unat a mod 512"
  using and_mask_unat [of a 9] by (simp add: mask_eq_exp_minus_1)

lemma unat_clear12: "unat (a AND NOT 0xfff :: u64) = unat a - unat a mod 4096"
proof -
  have "(a AND 0xfff) + (a AND NOT 0xfff) = (a AND 0xfff) OR (a AND NOT 0xfff)"
    by (rule disjunctive_add_eq_or) (rule bit_eqI, simp only: bit_simps, auto)
  also have "\<dots> = a" by (rule bit_eqI) (auto simp: bit_simps)
  finally have "a = (a AND 0xfff) + (a AND NOT 0xfff)" by simp
  then have "a - (a AND 0xfff) = a AND NOT 0xfff" by (metis add_diff_cancel_left')
  moreover have "a AND 0xfff \<le> a" by (rule word_and_le2)
  ultimately have "unat (a AND NOT 0xfff) = unat a - unat (a AND 0xfff)" by (metis unat_sub)
  then show ?thesis by (simp add: low12_unat)
qed

lemma page_aligned_clear12 [simp]: "page_aligned (a AND NOT 0xfff)"
  by (simp add: page_aligned_def and.assoc)

lemma page_aligned_clear12_numeral [simp]: "page_aligned (a AND - 4096)"
  using page_aligned_clear12 [of a] by simp

lemma page_alignedE:
  assumes "page_aligned a"
  obtains k where "unat a = 4096 * k" "k < 2 ^ 52"
proof -
  from assms obtain k where k: "unat a = 4096 * k"
    by (auto simp: page_aligned_iff)
  moreover have "k < 2 ^ 52" using k unat_lt64 [of a] by simp
  ultimately show thesis using that by blast
qed

lemma unat_entry:
  assumes "page_aligned b" "unat i < 512"
  shows "unat (b + i * 8) = unat b + 8 * unat i"
proof -
  have i: "unat (i * 8) = 8 * unat i" using assms(2) by (simp add: unat_word_ariths)
  obtain k where "unat b = 4096 * k" "k < 2 ^ 52" using assms(1) by (rule page_alignedE)
  then have "unat b + 8 * unat i < 2 ^ 64" using assms(2) by simp
  then show ?thesis using i by (simp add: unat_word_ariths)
qed

lemma entry_align8:
  assumes "page_aligned b" "unat i < 512"
  shows "unat (b + i * 8) mod 8 = 0"
proof -
  obtain k where "unat b = 4096 * k" using assms(1) by (rule page_alignedE)
  then have "unat (b + i * 8) = 8 * (512 * k + unat i)" using assms by (simp add: unat_entry)
  then show ?thesis by simp
qed

lemma entry_inj:
  assumes "page_aligned b" "unat i < 512" "page_aligned b'" "unat i' < 512"
    and "b + i * 8 = b' + i' * 8"
  shows "b = b' \<and> i = i'"
proof -
  obtain k where k: "unat b = 4096 * k" using assms(1) by (rule page_alignedE)
  obtain k' where k': "unat b' = 4096 * k'" using assms(3) by (rule page_alignedE)
  have "unat b + 8 * unat i = unat b' + 8 * unat i'"
    using assms by (metis unat_entry)
  then have e: "512 * k + unat i = 512 * k' + unat i'" by (simp add: k k')
  then have "(512 * k + unat i) div 512 = (512 * k' + unat i') div 512" by simp
  then have "k = k'" using assms(2,4) by simp
  with e k k' have "unat b = unat b' \<and> unat i = unat i'" by simp
  then show ?thesis by (auto dest: unsigned_word_eqI)
qed

section \<open>Faults\<close>

text \<open>
  Undefined behaviour the C program can run into.  The first reason met is kept.
\<close>

datatype fault = NullDeref | UseAfterFree | DoubleFree | OutOfBounds | PageFault

datatype 'a res = Fault fault | Ok 'a

definition bindF :: "'a res \<Rightarrow> ('a \<Rightarrow> 'b res) \<Rightarrow> 'b res" where
  "bindF r f = (case r of Fault e \<Rightarrow> Fault e | Ok x \<Rightarrow> f x)"

lemma bindF_simps [simp]:
  "bindF (Ok x) f = f x" "bindF (Fault e) f = Fault e"
  by (simp_all add: bindF_def)

lemma bindF_Ok_iff: "bindF r f = Ok y \<longleftrightarrow> (\<exists>x. r = Ok x \<and> f x = Ok y)"
  by (cases r) auto

lemma bindF_assoc: "bindF (bindF r f) g = bindF r (\<lambda>x. bindF (f x) g)"
  by (cases r) auto

lemma bindF_cong [fundef_cong]:
  "r = r' \<Longrightarrow> (\<And>x. r' = Ok x \<Longrightarrow> f x = g x) \<Longrightarrow> bindF r f = bindF r' g"
  by (cases r') auto

text \<open>
  A run that may also not return: \<open>None\<close> is an endless loop.
\<close>

type_synonym 'a run = "'a res option"

abbreviation returns :: "'a \<Rightarrow> 'a run" where "returns x \<equiv> Some (Ok x)"
abbreviation crash :: "fault \<Rightarrow> 'a run" where "crash e \<equiv> Some (Fault e)"

definition bindR :: "'a run \<Rightarrow> ('a \<Rightarrow> 'b run) \<Rightarrow> 'b run" where
  "bindR r f = (case r of None \<Rightarrow> None | Some (Fault e) \<Rightarrow> Some (Fault e) | Some (Ok x) \<Rightarrow> f x)"

lemma bindR_simps [simp]:
  "bindR (returns x) f = f x" "bindR (crash e) f = crash e" "bindR None f = None"
  by (simp_all add: bindR_def)

lemma bindR_returns_iff: "bindR r f = returns y \<longleftrightarrow> (\<exists>x. r = returns x \<and> f x = returns y)"
  by (auto simp: bindR_def split: option.splits res.splits)

lemma bindR_assoc: "bindR (bindR r f) g = bindR r (\<lambda>x. bindR (f x) g)"
  by (auto simp: bindR_def split: option.splits res.splits)

section \<open>Objects\<close>

text \<open>Dereferencing: NULL and addresses of no live object are faults.\<close>

definition deref :: "(ptr \<Rightarrow> 'o option) \<Rightarrow> ptr \<Rightarrow> 'o run" where
  "deref h p =
     (if p = 0 then crash NullDeref
      else case h p of None \<Rightarrow> crash UseAfterFree | Some x \<Rightarrow> returns x)"

text \<open>Releasing an object: freeing NULL does nothing.\<close>

definition freed :: "(ptr \<Rightarrow> 'o option) \<Rightarrow> ptr \<Rightarrow> (ptr \<Rightarrow> 'o option) run" where
  "freed h p =
     (if p = 0 then returns h
      else case h p of None \<Rightarrow> crash DoubleFree | Some x \<Rightarrow> returns (h(p := None)))"

lemma deref_simps [simp]:
  "deref h 0 = crash NullDeref"
  "p \<noteq> 0 \<Longrightarrow> h p = Some x \<Longrightarrow> deref h p = returns x"
  "p \<noteq> 0 \<Longrightarrow> h p = None \<Longrightarrow> deref h p = crash UseAfterFree"
  by (simp_all add: deref_def)

lemma freed_simps [simp]:
  "freed h 0 = returns h"
  "p \<noteq> 0 \<Longrightarrow> h p = Some x \<Longrightarrow> freed h p = returns (h(p := None))"
  "p \<noteq> 0 \<Longrightarrow> h p = None \<Longrightarrow> freed h p = crash DoubleFree"
  by (simp_all add: freed_def)

lemma deref_returns: "deref h p = returns x \<longleftrightarrow> p \<noteq> 0 \<and> h p = Some x"
  by (auto simp: deref_def split: option.split)

end
