(* ===== verification/Clib_Mem.thy ===== *)
theory Clib_Mem
  imports Refk_Prelude
begin

text \<open>
  \<^verbatim>\<open>clib/mem.c\<close> and \<^verbatim>\<open>clib/str.c\<close>: the byte copies every other component is built from,
  and the C strings that name tasks.  Memory is the byte map of the prelude; each function
  returns the memory it leaves (their C results are just the destination pointer).  The
  copying loops count down a \<^verbatim>\<open>uint64_t\<close>, so the recursion is on that count.
\<close>

section \<open>Filling and copying\<close>

fun set_loop :: "bytes \<Rightarrow> ptr \<Rightarrow> u8 \<Rightarrow> nat \<Rightarrow> bytes" where
  "set_loop m m8 v 0 = m"
| "set_loop m m8 v (Suc count) = set_loop (m(m8 := v)) (m8 + 1) v count"

definition mem_set :: "bytes \<Rightarrow> ptr \<Rightarrow> u8 \<Rightarrow> u64 \<Rightarrow> bytes" where
  "mem_set m memory v count = set_loop m memory v (unat count)"

fun copy_up :: "bytes \<Rightarrow> ptr \<Rightarrow> ptr \<Rightarrow> nat \<Rightarrow> bytes" where
  "copy_up m d8 s8 0 = m"
| "copy_up m d8 s8 (Suc count) = copy_up (m(d8 := m s8)) (d8 + 1) (s8 + 1) count"

fun copy_down :: "bytes \<Rightarrow> ptr \<Rightarrow> ptr \<Rightarrow> nat \<Rightarrow> bytes" where
  "copy_down m d8 s8 0 = m"
| "copy_down m d8 s8 (Suc count) = copy_down (m(d8 := m s8)) (d8 - 1) (s8 - 1) count"

definition mem_move :: "bytes \<Rightarrow> ptr \<Rightarrow> ptr \<Rightarrow> u64 \<Rightarrow> bytes" where
  "mem_move m dest src count =
     (if dest < src then copy_up m dest src (unat count)
      else copy_down m (dest + count - 1) (src + count - 1) (unat count))"

definition mem_copy :: "bytes \<Rightarrow> ptr \<Rightarrow> ptr \<Rightarrow> u64 \<Rightarrow> bytes" where
  "mem_copy m dest src count = mem_move m dest src count"

text \<open>A block of \<open>n\<close> bytes at \<open>a\<close> that does not run past the end of the address space.\<close>

definition fits :: "ptr \<Rightarrow> nat \<Rightarrow> bool" where
  "fits a n \<longleftrightarrow> unat a + n \<le> 2 ^ 64"

text \<open>What a copy promises: the destination block holds the old bytes of the source block.\<close>

definition block_copied :: "bytes \<Rightarrow> ptr \<Rightarrow> ptr \<Rightarrow> nat \<Rightarrow> bytes" where
  "block_copied m dest src n =
     (\<lambda>x. if unat (x - dest) < n then m (src + (x - dest)) else m x)"

lemma fits_offset [pure_word]:
  "fits a n \<Longrightarrow> k < n \<Longrightarrow> unat (a + of_nat k) = unat a + k"
  using unat_lt64 [of a] by (simp add: fits_def unat_word_ariths unat_of_nat)

lemma in_block_iff:
  assumes "fits a n"
  shows "unat (x - a) < n \<longleftrightarrow> unat a \<le> unat x \<and> unat x < unat a + n"
  using assms unat_lt64 [of a] unat_lt64 [of x] by (auto simp: fits_def unat_sub_if')

lemma set_loop_block:
  "fits m8 n \<Longrightarrow> set_loop m m8 v n x = (if unat (x - m8) < n then v else m x)"
proof (induction m m8 v n rule: set_loop.induct)
  case (1 m m8 v)
  then show ?case by simp
next
  case (2 m m8 v n)
  show ?case
  proof (cases n)
    case 0
    then show ?thesis by (auto simp: unat_0_iff)
  next
    case (Suc n')
    have s: "unat (m8 + 1) = unat m8 + 1"
      using fits_offset [OF "2.prems", of 1] Suc by simp
    then have f: "fits (m8 + 1) n" using "2.prems" by (simp add: fits_def)
    show ?thesis
      unfolding set_loop.simps "2.IH" [OF f] fun_upd_apply
        in_block_iff [OF f] in_block_iff [OF "2.prems"] s
      by (auto simp: word_eq_unat [of x m8])
  qed
qed

lemma mem_set_block:
  "fits a (unat n) \<Longrightarrow> mem_set m a v n x = (if unat (x - a) < unat n then v else m x)"
  by (simp add: mem_set_def set_loop_block)

lemma copy_up_block:
  "unat d8 < unat s8 \<Longrightarrow> fits s8 n \<Longrightarrow> copy_up m d8 s8 n = block_copied m d8 s8 n"
proof (induction m d8 s8 n rule: copy_up.induct)
  case (1 m d8 s8)
  then show ?case by (simp add: block_copied_def)
next
  case (2 m d8 s8 n)
  show ?case
  proof (cases n)
    case 0
    then show ?thesis by (auto simp: block_copied_def unat_0_iff)
  next
    case (Suc n')
    have s: "unat (s8 + 1) = unat s8 + 1" using fits_offset [OF "2.prems"(2), of 1] Suc by simp
    have d: "unat (d8 + 1) = unat d8 + 1"
      using "2.prems" by (simp add: fits_def unat_word_ariths)
    have fs: "fits (s8 + 1) n" using "2.prems" s by (simp add: fits_def)
    have fd: "fits d8 (Suc n)" "fits (d8 + 1) n" using "2.prems" d by (simp_all add: fits_def)
    have IH: "copy_up (m(d8 := m s8)) (d8 + 1) (s8 + 1) n
        = block_copied (m(d8 := m s8)) (d8 + 1) (s8 + 1) n"
      using "2.prems" s d fs by (intro "2.IH") simp_all
    show ?thesis
    proof (rule ext)
      fix x
      have k: "unat (x - d8) = k \<Longrightarrow> k < Suc n \<Longrightarrow> s8 + (x - d8) \<noteq> d8" for k
      proof
        assume k: "unat (x - d8) = k" "k < Suc n" and e: "s8 + (x - d8) = d8"
        have "x - d8 = of_nat k" unfolding k(1) [symmetric] by simp
        with e fits_offset [OF "2.prems"(2) k(2)] have "unat d8 = unat s8 + k" by simp
        with "2.prems"(1) show False by simp
      qed
      have "s8 + 1 + (x - (d8 + 1)) = s8 + (x - d8)" by simp
      then show "copy_up m d8 s8 (Suc n) x = block_copied m d8 s8 (Suc n) x"
        unfolding copy_up.simps IH block_copied_def fun_upd_apply
          in_block_iff [OF fd(1)] in_block_iff [OF fd(2)] d
        using k in_block_iff [OF fd(1), of x] word_eq_unat [of x d8] by (cases "x = d8") auto
    qed
  qed
qed

lemma copy_down_block:
  assumes "unat s8 \<le> unat d8" "fits s8 n" "fits d8 n"
  shows "copy_down m (d8 + of_nat n - 1) (s8 + of_nat n - 1) n = block_copied m d8 s8 n"
  using assms
proof (induction n arbitrary: m)
  case 0
  then show ?case by (simp add: block_copied_def)
next
  case (Suc n)
  have f: "fits s8 n" "fits d8 n" using Suc.prems by (simp_all add: fits_def)
  have d: "unat (d8 + of_nat n) = unat d8 + n" and s: "unat (s8 + of_nat n) = unat s8 + n"
    using Suc.prems by (simp_all add: fits_offset)
  let ?m = "m(d8 + of_nat n := m (s8 + of_nat n))"
  have "copy_down m (d8 + of_nat (Suc n) - 1) (s8 + of_nat (Suc n) - 1) (Suc n)
      = copy_down ?m (d8 + of_nat n - 1) (s8 + of_nat n - 1) n"
    by (simp add: algebra_simps)
  also have "\<dots> = block_copied ?m d8 s8 n" using Suc.IH Suc.prems(1) f .
  also have "\<dots> = block_copied m d8 s8 (Suc n)"
  proof (rule ext)
    fix x
    have k: "unat (x - d8) < n \<Longrightarrow> s8 + (x - d8) \<noteq> d8 + of_nat n"
    proof
      assume lt: "unat (x - d8) < n" and e: "s8 + (x - d8) = d8 + of_nat n"
      have "unat (s8 + of_nat (unat (x - d8))) = unat s8 + unat (x - d8)"
        using fits_offset [OF f(1) lt] .
      then have "unat (d8 + of_nat n) = unat s8 + unat (x - d8)" by (simp add: e)
      with d lt Suc.prems(1) show False by simp
    qed
    have l: "unat (x - d8) = n \<longleftrightarrow> x = d8 + of_nat n"
    proof
      assume "unat (x - d8) = n"
      then have "x - d8 = of_nat n" by auto
      then show "x = d8 + of_nat n" by (simp add: algebra_simps)
    next
      assume "x = d8 + of_nat n"
      then show "unat (x - d8) = n" using Suc.prems(3) by (simp add: fits_def unat_of_nat)
    qed
    show "block_copied ?m d8 s8 n x = block_copied m d8 s8 (Suc n) x"
      using k l by (auto simp: block_copied_def less_Suc_eq)
  qed
  finally show ?case .
qed

lemma mem_move_block:
  assumes "fits src (unat n)" "fits dest (unat n)"
  shows "mem_move m dest src n = block_copied m dest src (unat n)"
proof (cases "dest < src")
  case True
  then show ?thesis using assms by (simp add: mem_move_def copy_up_block word_less_nat_alt)
next
  case False
  then show ?thesis
    using assms copy_down_block [of src dest "unat n" m]
    by (simp add: mem_move_def word_less_nat_alt)
qed

text \<open>\<^verbatim>\<open>mem_copy\<close> is \<^verbatim>\<open>mem_move\<close>.\<close>

lemmas mem_copy_block = mem_move_block [folded mem_copy_def]

lemma block_copied_in:
  "k < n \<Longrightarrow> n \<le> 2 ^ 64 \<Longrightarrow> block_copied m dest src n (dest + of_nat k) = m (src + of_nat k)"
  by (simp add: block_copied_def unat_of_nat)

section \<open>C strings\<close>

text \<open>
  \<^verbatim>\<open>char\<close> is signed on x86-64, so the comparisons of \<^verbatim>\<open>str_ncmp\<close> are on the signed values.
  \<^verbatim>\<open>str_len\<close> runs until it finds a zero byte: it may not return, and its result is an
  option.  \<^verbatim>\<open>str_cmp\<close> passes \<^verbatim>\<open>-1u\<close>, the largest 32-bit number, as the 64-bit bound.
\<close>

partial_function (option) str_len_from :: "bytes \<Rightarrow> ptr \<Rightarrow> u64 \<Rightarrow> u64 option" where
  "str_len_from m s ret = (if m s \<noteq> 0 then str_len_from m (s + 1) (ret + 1) else Some ret)"

definition str_len :: "bytes \<Rightarrow> ptr \<Rightarrow> u64 option" where
  "str_len m s = str_len_from m s 0"

fun str_ncmp :: "bytes \<Rightarrow> ptr \<Rightarrow> ptr \<Rightarrow> nat \<Rightarrow> int" where
  "str_ncmp m s1 s2 0 = 0"
| "str_ncmp m s1 s2 (Suc maxlen) =
     (if m s1 = 0 \<and> m s2 = 0 then 0
      else if sint (m s1) < sint (m s2) then -1
      else if sint (m s1) > sint (m s2) then 1
      else str_ncmp m (s1 + 1) (s2 + 1) maxlen)"

definition str_cmp :: "bytes \<Rightarrow> ptr \<Rightarrow> ptr \<Rightarrow> int" where
  "str_cmp m s1 s2 = str_ncmp m s1 s2 (unat (0xffffffff :: u64))"

text \<open>
  \<open>cstring m a xs\<close>: the C string at \<open>a\<close> has the bytes \<open>xs\<close>, none of them zero, and the
  terminator after them.
\<close>

fun cstring :: "bytes \<Rightarrow> ptr \<Rightarrow> u8 list \<Rightarrow> bool" where
  "cstring m a [] \<longleftrightarrow> m a = 0"
| "cstring m a (x # xs) \<longleftrightarrow> m a = x \<and> x \<noteq> 0 \<and> cstring m (a + 1) xs"

lemma str_len_from_cstring:
  "cstring m a xs \<Longrightarrow> str_len_from m a ret = Some (ret + of_nat (length xs))"
proof (induction xs arbitrary: a ret)
  case Nil
  then show ?case by (subst str_len_from.simps) simp
next
  case (Cons x xs)
  then show ?case by (subst str_len_from.simps) (simp add: algebra_simps)
qed

lemma str_len_cstring: "cstring m a xs \<Longrightarrow> str_len m a = Some (of_nat (length xs))"
  by (simp add: str_len_def str_len_from_cstring)

text \<open>The order \<^verbatim>\<open>str_ncmp\<close> computes, on the strings themselves; a missing byte reads as 0.\<close>

fun cmp_bytes :: "u8 list \<Rightarrow> u8 list \<Rightarrow> int" where
  "cmp_bytes [] [] = 0"
| "cmp_bytes [] (y # ys) = (if 0 < sint y then -1 else 1)"
| "cmp_bytes (x # xs) [] = (if sint x < 0 then -1 else 1)"
| "cmp_bytes (x # xs) (y # ys) =
     (if sint x < sint y then -1 else if sint y < sint x then 1 else cmp_bytes xs ys)"

lemma sint_zero_iff: "sint (x :: u8) = 0 \<longleftrightarrow> x = 0"
  by (metis signed_0 signed_word_eqI)

lemma str_ncmp_cstring:
  "cstring m a xs \<Longrightarrow> cstring m b ys \<Longrightarrow> length xs < n \<Longrightarrow> length ys < n \<Longrightarrow>
   str_ncmp m a b n = cmp_bytes xs ys"
proof (induction m a b n arbitrary: xs ys rule: str_ncmp.induct)
  case (1 m s1 s2)
  then show ?case by simp
next
  case (2 m s1 s2 n)
  then show ?case
    by (cases xs; cases ys) (auto simp: sint_zero_iff dest: signed_word_eqI)
qed

lemma str_cmp_cstring:
  assumes "cstring m a xs" "cstring m b ys" "length xs < 2 ^ 32 - 1" "length ys < 2 ^ 32 - 1"
  shows "str_cmp m a b = cmp_bytes xs ys"
  using assms by (simp add: str_cmp_def str_ncmp_cstring)

lemma cmp_bytes_eq_0: "0 \<notin> set xs \<Longrightarrow> 0 \<notin> set ys \<Longrightarrow> cmp_bytes xs ys = 0 \<longleftrightarrow> xs = ys"
  by (induction xs ys rule: cmp_bytes.induct) (auto simp: sint_zero_iff dest: signed_word_eqI)

section \<open>Properties\<close>

text \<open>
  C37: \<^verbatim>\<open>mem_move\<close> copies a block as if through a buffer, whichever way
  the two blocks overlap: afterwards every byte of the destination is the byte the source had
  before the call, and no other byte of memory has changed.
\<close>

theorem mem_move_overlap:
  assumes "fits src (unat n)" "fits dest (unat n)"
  shows "mem_move m dest src n x = (if unat (x - dest) < unat n then m (src + (x - dest)) else m x)"
  using mem_move_block [OF assms] by (simp add: block_copied_def)

theorem mem_move_overlap_witness:
  "mem_move (\<lambda>x. ucast x) 0x1002 0x1000 8 0x1003 = 1 \<and> mem_move (\<lambda>x. ucast x) 0x0FFE 0x1000 8 0x1000 = 2"
  using mem_move_overlap [where src = "0x1000" and n = 8 and dest = "0x1002" and m = "\<lambda>x. ucast x" and x = "0x1003"]
    mem_move_overlap [where src = "0x1000" and n = 8 and dest = "0x0FFE" and m = "\<lambda>x. ucast x" and x = "0x1000"]
  by (simp add: fits_def)

text \<open>
  \<^verbatim>\<open>str_cmp\<close> orders C strings lexicographically by their signed characters, is zero exactly
  on equal strings, and exchanging its arguments exchanges the sign.
\<close>

theorem str_cmp_order:
  assumes "cstring m a xs" "cstring m b ys" "length xs < 2 ^ 32 - 1" "length ys < 2 ^ 32 - 1"
  shows "str_cmp m a b = cmp_bytes xs ys \<and> (str_cmp m a b = 0 \<longleftrightarrow> xs = ys) \<and>
    (str_cmp m a b < 0 \<longleftrightarrow> 0 < str_cmp m b a)"
proof -
  have "cstring m a zs \<Longrightarrow> 0 \<notin> set zs" for a zs by (induction zs arbitrary: a) auto
  then have "0 \<notin> set xs" "0 \<notin> set ys" using assms(1,2) by blast+
  then have "cmp_bytes xs ys < 0 \<longleftrightarrow> 0 < cmp_bytes ys xs"
    by (induction xs ys rule: cmp_bytes.induct) (auto simp: not_less order_le_less sint_zero_iff)
  then show ?thesis
    using str_cmp_cstring [OF assms] str_cmp_cstring [OF assms(2,1,4,3)]
      cmp_bytes_eq_0 [of xs ys] \<open>0 \<notin> set xs\<close> \<open>0 \<notin> set ys\<close> by simp
qed

text \<open>Memory holding the two strings \<open>hw\<close> at 16 and \<open>hx\<close> at 32.\<close>

definition two_strings :: bytes where
  "two_strings = (\<lambda>_. 0)(16 := 104, 17 := 119, 32 := 104, 33 := 120)"

theorem str_cmp_order_witness:
  "str_cmp two_strings 16 32 = cmp_bytes [104, 119] [104, 120] \<and> str_cmp two_strings 16 32 \<noteq> 0"
  using str_cmp_order [of two_strings 16 "[104, 119]" 32 "[104, 120]"]
  by (simp add: two_strings_def)

end
