(* ===== verification/Clib_Avl.thy ===== *)
theory Clib_Avl
  imports Clib_Mem
begin

text \<open>
  \<^verbatim>\<open>clib/avl.c\<close>: the search tree behind every table of the scheduler (page-table roots,
  reference counts, tasks, names, wait objects).  A node pointer is owned by one parent, so
  the pointer structure is a datatype; NULL is \<open>Null\<close>.  The tree is generic in its
  comparator, a C function returning an \<^verbatim>\<open>int\<close>, and in the type of its data, where the C
  code's NULL result for "no such key" is the zero of that type.  The \<^verbatim>\<open>depth\<close> field is a
  natural number: the code only ever sets it to 1 or to one more than another depth.
\<close>

section \<open>Nodes, depths and rotations\<close>

datatype ('k, 'd) avl_node =
    Null
  | Node (left: "('k, 'd) avl_node") (depth: nat) (nkey: 'k) (ndata: 'd)
      (right: "('k, 'd) avl_node")

record ('k, 'd) avl_tree =
  avl_root :: "('k, 'd) avl_node"
  comparator :: "'k \<Rightarrow> 'k \<Rightarrow> int"
  destructor :: bool

definition avl_initialize :: "('k \<Rightarrow> 'k \<Rightarrow> int) \<Rightarrow> bool \<Rightarrow> ('k, 'd) avl_tree" where
  "avl_initialize cmp destr = \<lparr>avl_root = Null, comparator = cmp, destructor = destr\<rparr>"

text \<open>A missing child counts as depth 0 in \<^verbatim>\<open>balance_factor\<close>.\<close>

fun depth_of :: "('k, 'd) avl_node \<Rightarrow> nat" where
  "depth_of Null = 0"
| "depth_of (Node l d k v r) = d"

fun avl_balance_factor :: "('k, 'd) avl_node \<Rightarrow> int" where
  "avl_balance_factor Null = 0"
| "avl_balance_factor (Node l d k v r) =
     (let delta = (if l \<noteq> Null then int (depth_of l) else 0)
      in if r \<noteq> Null then delta - int (depth_of r) else delta)"

fun avl_update_depth :: "('k, 'd) avl_node \<Rightarrow> ('k, 'd) avl_node" where
  "avl_update_depth Null = Null"
| "avl_update_depth (Node l d k v r) =
     (let d1 = (if l \<noteq> Null then depth_of l else 1);
          d2 = (if r \<noteq> Null \<and> d1 < depth_of r then depth_of r else d1)
      in Node l (d2 + 1) k v r)"

datatype avl_dir = AVL_LEFT | AVL_RIGHT

text \<open>
  A rotation moves the child on the other side up and dereferences it; where that child is
  missing the C code would dereference NULL.  \<open>avl_can_rotate\<close> is the condition that it is
  there, and the rebalancing code is shown below to rotate only under it.
\<close>

fun avl_can_rotate :: "('k, 'd) avl_node \<Rightarrow> avl_dir \<Rightarrow> bool" where
  "avl_can_rotate Null _ = False"
| "avl_can_rotate (Node l d k v r) AVL_LEFT = (r \<noteq> Null)"
| "avl_can_rotate (Node l d k v r) AVL_RIGHT = (l \<noteq> Null)"

fun avl_rotate :: "('k, 'd) avl_node \<Rightarrow> avl_dir \<Rightarrow> ('k, 'd) avl_node" where
  "avl_rotate (Node l d k v (Node rl rd rk rv rr)) AVL_LEFT =
     avl_update_depth (Node (avl_update_depth (Node l d k v rl)) rd rk rv rr)"
| "avl_rotate (Node (Node ll ld lk lv lr) d k v r) AVL_RIGHT =
     avl_update_depth (Node ll ld lk lv (avl_update_depth (Node lr d k v r)))"
| "avl_rotate t _ = t"

fun avl_rebalance :: "('k, 'd) avl_node \<Rightarrow> ('k, 'd) avl_node" where
  "avl_rebalance Null = Null"
| "avl_rebalance (Node l d k v r) =
     (let delta = avl_balance_factor (Node l d k v r) in
      if delta = 2 then
        (let l' = (if avl_balance_factor l < 0 then avl_rotate l AVL_LEFT else l)
         in avl_rotate (Node l' d k v r) AVL_RIGHT)
      else if delta = -2 then
        (let r' = (if avl_balance_factor r > 0 then avl_rotate r AVL_RIGHT else r)
         in avl_rotate (Node l d k v r') AVL_LEFT)
      else Node l d k v r)"

section \<open>Search, insertion, removal, traversal\<close>

fun avl_search_node ::
  "('k \<Rightarrow> 'k \<Rightarrow> int) \<Rightarrow> ('k, 'd::zero) avl_node \<Rightarrow> 'k \<Rightarrow> 'd" where
  "avl_search_node cmp Null key = 0"
| "avl_search_node cmp (Node l d k v r) key =
     (if cmp key k = 0 then v
      else if cmp key k < 0 then avl_search_node cmp l key
      else avl_search_node cmp r key)"

definition avl_search :: "('k, 'd::zero) avl_tree \<Rightarrow> 'k \<Rightarrow> 'd" where
  "avl_search t key = avl_search_node (comparator t) (avl_root t) key"

fun avl_insert_helper ::
  "('k \<Rightarrow> 'k \<Rightarrow> int) \<Rightarrow> ('k, 'd::zero) avl_node \<Rightarrow> 'k \<Rightarrow> 'd \<Rightarrow> ('k, 'd) avl_node \<times> 'd" where
  "avl_insert_helper cmp Null key data = (Node Null 1 key data Null, 0)"
| "avl_insert_helper cmp (Node l d k v r) key data =
     (if cmp key k = 0 then (Node l d k data r, v)
      else if cmp key k < 0 then
        (let (l', ret) = avl_insert_helper cmp l key data
         in (avl_update_depth (avl_rebalance (Node l' d k v r)), ret))
      else
        (let (r', ret) = avl_insert_helper cmp r key data
         in (avl_update_depth (avl_rebalance (Node l d k v r')), ret)))"

definition avl_insert ::
  "('k, 'd::zero) avl_tree \<Rightarrow> 'k \<Rightarrow> 'd \<Rightarrow> ('k, 'd) avl_tree \<times> 'd" where
  "avl_insert t key data =
     (let (n, ret) = avl_insert_helper (comparator t) (avl_root t) key data
      in (t\<lparr>avl_root := n\<rparr>, ret))"

fun avl_remove_depth_helper :: "('k, 'd) avl_node \<Rightarrow> ('k, 'd) avl_node" where
  "avl_remove_depth_helper Null = Null"
| "avl_remove_depth_helper (Node l d k v r) =
     avl_update_depth (Node l d k v (avl_remove_depth_helper r))"

text \<open>
  The loop that walks to the maximum of the left subtree and unlinks it: the key and data
  to copy out, and the subtree with that node replaced by its left child.
\<close>

fun avl_take_max :: "('k, 'd) avl_node \<Rightarrow> ('k \<times> 'd \<times> ('k, 'd) avl_node) option" where
  "avl_take_max Null = None"
| "avl_take_max (Node l d k v Null) = Some (k, v, l)"
| "avl_take_max (Node l d k v r) =
     (case avl_take_max r of
        None \<Rightarrow> None
      | Some (k', v', r') \<Rightarrow> Some (k', v', Node l d k v r'))"

text \<open>Removing the found node: the three easy cases and the one with both children.\<close>

fun avl_unlink :: "('k, 'd) avl_node \<Rightarrow> ('k, 'd) avl_node" where
  "avl_unlink Null = Null"
| "avl_unlink (Node l d k v r) =
     (if l \<noteq> Null \<and> r \<noteq> Null then
        (case avl_take_max l of
           None \<Rightarrow> Null
         | Some (k', v', l') \<Rightarrow> Node (avl_remove_depth_helper l') d k' v' r)
      else if l \<noteq> Null then l
      else if r \<noteq> Null then r
      else Null)"

text \<open>
  The result is the tree, the data removed (zero when the key is not there) and the key the
  destructor is called on, if the tree has one.
\<close>

fun avl_remove_helper ::
  "('k \<Rightarrow> 'k \<Rightarrow> int) \<Rightarrow> ('k, 'd::zero) avl_node \<Rightarrow> 'k \<Rightarrow> ('k, 'd) avl_node \<times> 'd \<times> 'k option" where
  "avl_remove_helper cmp Null key = (Null, 0, None)"
| "avl_remove_helper cmp (Node l d k v r) key =
     (let (t, ret, destroyed) =
        (if cmp key k < 0 then
           (let (l', ret, ds) = avl_remove_helper cmp l key in (Node l' d k v r, ret, ds))
         else if cmp key k > 0 then
           (let (r', ret, ds) = avl_remove_helper cmp r key in (Node l d k v r', ret, ds))
         else (avl_unlink (Node l d k v r), v, Some k))
      in (avl_rebalance (avl_update_depth t), ret, destroyed))"

definition avl_remove ::
  "('k, 'd::zero) avl_tree \<Rightarrow> 'k \<Rightarrow> ('k, 'd) avl_tree \<times> 'd \<times> 'k option" where
  "avl_remove t key =
     (let (n, ret, ds) = avl_remove_helper (comparator t) (avl_root t) key
      in (t\<lparr>avl_root := n\<rparr>, ret, if destructor t then ds else None))"

text \<open>
  \<^verbatim>\<open>destroy\<close> and \<^verbatim>\<open>search_window\<close> call a visitor; the model is the list of its calls, in
  order.
\<close>

fun avl_destroy_helper :: "('k, 'd) avl_node \<Rightarrow> ('k \<times> 'd) list" where
  "avl_destroy_helper Null = []"
| "avl_destroy_helper (Node l d k v r) =
     (k, v) # avl_destroy_helper l @ avl_destroy_helper r"

definition avl_destroy :: "('k, 'd) avl_tree \<Rightarrow> ('k \<times> 'd) list" where
  "avl_destroy t = avl_destroy_helper (avl_root t)"

fun avl_search_window_helper ::
  "('k \<Rightarrow> 'k \<Rightarrow> int) \<Rightarrow> ('k, 'd) avl_node \<Rightarrow> 'k \<Rightarrow> 'k \<Rightarrow> ('k \<times> 'd) list" where
  "avl_search_window_helper cmp Null key1 key2 = []"
| "avl_search_window_helper cmp (Node l d k v r) key1 key2 =
     (let cmp1 = cmp key1 k; cmp2 = cmp key2 k in
      if cmp1 \<ge> 0 \<and> cmp2 \<le> 0 then [(k, v)]
      else if cmp2 > 0 then avl_search_window_helper cmp r key1 key2
      else if cmp1 < 0 then avl_search_window_helper cmp l key1 key2
      else [])"

definition avl_search_window :: "('k, 'd) avl_tree \<Rightarrow> 'k \<Rightarrow> 'k \<Rightarrow> ('k \<times> 'd) list" where
  "avl_search_window t key1 key2 = avl_search_window_helper (comparator t) (avl_root t) key1 key2"

definition avl_tree_depth :: "('k, 'd) avl_tree \<Rightarrow> nat" where
  "avl_tree_depth t = (if avl_root t \<noteq> Null then depth_of (avl_root t) else 0)"

section \<open>The comparators\<close>

definition avl_ptrcmp :: "u64 \<Rightarrow> u64 \<Rightarrow> int" where
  "avl_ptrcmp key1 key2 = (if key1 < key2 then -1 else if key1 > key2 then 1 else 0)"

text \<open>The other two read the keys through the pointers, so they take the memory.\<close>

definition avl_intcmp :: "bytes \<Rightarrow> ptr \<Rightarrow> ptr \<Rightarrow> int" where
  "avl_intcmp m key1 key2 =
     (let val1 = sint (load_le 4 m key1 :: u32); val2 = sint (load_le 4 m key2 :: u32)
      in if val1 < val2 then -1 else if val1 > val2 then 1 else 0)"

definition avl_ulongcmp :: "bytes \<Rightarrow> ptr \<Rightarrow> ptr \<Rightarrow> int" where
  "avl_ulongcmp m key1 key2 =
     (let val1 = (scast (load_le 4 m key1 :: u32) :: u64);
          val2 = (scast (load_le 4 m key2 :: u32) :: u64)
      in if val1 < val2 then -1 else if val1 > val2 then 1 else 0)"

section \<open>What a comparator promises\<close>

text \<open>
  The tree relies on its comparator being a total preorder on the keys in use; \<open>key\<close> says
  which keys those are (zero-free strings for \<^verbatim>\<open>str_cmp\<close>, every word for \<^verbatim>\<open>avl_ptrcmp\<close>).
\<close>

locale key_order =
  fixes cmp :: "'k \<Rightarrow> 'k \<Rightarrow> int" and key :: "'k \<Rightarrow> bool"
  assumes cmp_anti: "key a \<Longrightarrow> key b \<Longrightarrow> cmp a b < 0 \<longleftrightarrow> 0 < cmp b a"
    and cmp_trans: "key a \<Longrightarrow> key b \<Longrightarrow> key c \<Longrightarrow> cmp a b \<le> 0 \<Longrightarrow> cmp b c \<le> 0 \<Longrightarrow> cmp a c \<le> 0"
begin

lemma cmp_refl: "key a \<Longrightarrow> cmp a a = 0"
  using cmp_anti [of a a] by linarith

lemma cmp_sym0: "key a \<Longrightarrow> key b \<Longrightarrow> cmp a b = 0 \<Longrightarrow> cmp b a = 0"
  using cmp_anti [of a b] cmp_anti [of b a] by linarith

lemma cmp_less_le:
  "key a \<Longrightarrow> key b \<Longrightarrow> key c \<Longrightarrow> cmp a b < 0 \<Longrightarrow> cmp b c \<le> 0 \<Longrightarrow> cmp a c < 0"
  using cmp_trans [of a b c] cmp_trans [of b c a] cmp_anti [of a b] cmp_sym0 [of a c] by force

lemma cmp_le_less:
  "key a \<Longrightarrow> key b \<Longrightarrow> key c \<Longrightarrow> cmp a b \<le> 0 \<Longrightarrow> cmp b c < 0 \<Longrightarrow> cmp a c < 0"
  using cmp_trans [of a b c] cmp_trans [of c a b] cmp_anti [of b c] cmp_sym0 [of a c] by force

lemma cmp_eq_cong:
  assumes "key a" "key b" "key c" "cmp a b = 0"
  shows "cmp a c < 0 \<longleftrightarrow> cmp b c < 0" "cmp a c = 0 \<longleftrightarrow> cmp b c = 0"
    "cmp c a < 0 \<longleftrightarrow> cmp c b < 0" "cmp c a = 0 \<longleftrightarrow> cmp c b = 0"
proof -
  have b: "cmp b a = 0" using assms by (simp add: cmp_sym0)
  show l: "cmp a c < 0 \<longleftrightarrow> cmp b c < 0"
    using cmp_le_less [of b a c] cmp_le_less [of a b c] assms b by auto
  show r: "cmp c a < 0 \<longleftrightarrow> cmp c b < 0"
    using cmp_less_le [of c a b] cmp_less_le [of c b a] assms b by auto
  show "cmp a c = 0 \<longleftrightarrow> cmp b c = 0" "cmp c a = 0 \<longleftrightarrow> cmp c b = 0"
    using l r assms cmp_anti [of a c] cmp_anti [of c a] cmp_anti [of b c] cmp_anti [of c b] by linarith+
qed

end

text \<open>The in-order listing of a tree, and the list operations it is compared with.\<close>

fun inorder :: "('k, 'd) avl_node \<Rightarrow> ('k \<times> 'd) list" where
  "inorder Null = []"
| "inorder (Node l d k v r) = inorder l @ (k, v) # inorder r"

definition ordered :: "('k \<Rightarrow> 'k \<Rightarrow> int) \<Rightarrow> ('k \<Rightarrow> bool) \<Rightarrow> ('k \<times> 'd) list \<Rightarrow> bool" where
  "ordered cmp key xs \<longleftrightarrow>
     sorted_wrt (\<lambda>p q. cmp (fst p) (fst q) < 0) xs \<and> (\<forall>p \<in> set xs. key (fst p))"

fun list_lookup :: "('k \<Rightarrow> 'k \<Rightarrow> int) \<Rightarrow> ('k \<times> 'd::zero) list \<Rightarrow> 'k \<Rightarrow> 'd" where
  "list_lookup cmp [] key = 0"
| "list_lookup cmp ((k, v) # xs) key = (if cmp key k = 0 then v else list_lookup cmp xs key)"

fun list_insert :: "('k \<Rightarrow> 'k \<Rightarrow> int) \<Rightarrow> 'k \<Rightarrow> 'd \<Rightarrow> ('k \<times> 'd) list \<Rightarrow> ('k \<times> 'd) list" where
  "list_insert cmp key data [] = [(key, data)]"
| "list_insert cmp key data ((k, v) # xs) =
     (if cmp key k = 0 then (k, data) # xs
      else if cmp key k < 0 then (key, data) # (k, v) # xs
      else (k, v) # list_insert cmp key data xs)"

definition list_remove :: "('k \<Rightarrow> 'k \<Rightarrow> int) \<Rightarrow> 'k \<Rightarrow> ('k \<times> 'd) list \<Rightarrow> ('k \<times> 'd) list" where
  "list_remove cmp key xs = filter (\<lambda>p. cmp key (fst p) \<noteq> 0) xs"

subsection \<open>Reshaping keeps the listing\<close>

lemma inorder_update_depth [simp]: "inorder (avl_update_depth t) = inorder t"
  by (cases t) (auto simp: Let_def)

lemma inorder_rotate [simp]: "inorder (avl_rotate t dir) = inorder t"
  by (cases "(t, dir)" rule: avl_rotate.cases) (auto simp del: avl_update_depth.simps)

lemma inorder_rebalance [simp]: "inorder (avl_rebalance t) = inorder t"
  by (cases t) (simp_all add: Let_def del: avl_rotate.simps avl_balance_factor.simps)

lemma inorder_remove_depth_helper [simp]: "inorder (avl_remove_depth_helper t) = inorder t"
  by (induction t) (simp_all del: avl_update_depth.simps)

lemma avl_take_max_Some: "t \<noteq> Null \<Longrightarrow> \<exists>k v t'. avl_take_max t = Some (k, v, t')"
  by (induction t rule: avl_take_max.induct) (auto split: option.splits)

lemma inorder_take_max:
  "avl_take_max t = Some (k, v, t') \<Longrightarrow> inorder t = inorder t' @ [(k, v)]"
  by (induction t arbitrary: k v t' rule: avl_take_max.induct) (auto split: option.splits)

lemma inorder_unlink: "inorder (avl_unlink (Node l d k v r)) = inorder l @ inorder r"
  using avl_take_max_Some [of l] by (auto simp: inorder_take_max)

subsection \<open>Every rotation has the child it dereferences\<close>

lemma avl_rotate_child:
  "\<not> avl_can_rotate t dir \<Longrightarrow> avl_rotate t dir = t"
  by (cases "(t, dir)" rule: avl_rotate.cases) auto

lemma avl_can_rotate_left: "avl_balance_factor t < 0 \<Longrightarrow> avl_can_rotate t AVL_LEFT"
  by (cases t) (auto split: if_splits simp: Let_def)

lemma avl_can_rotate_right: "avl_balance_factor t > 0 \<Longrightarrow> avl_can_rotate t AVL_RIGHT"
  by (cases t) (auto split: if_splits simp: Let_def)

lemma avl_rotate_not_Null: "t \<noteq> Null \<Longrightarrow> avl_rotate t dir \<noteq> Null"
  by (cases "(t, dir)" rule: avl_rotate.cases) (auto simp: Let_def)

lemma avl_rebalance_safe:
  assumes "t = Node l d k v r" and "avl_balance_factor t = 2 \<or> avl_balance_factor t = -2"
  shows "avl_balance_factor t = 2 \<Longrightarrow>
           (avl_balance_factor l < 0 \<longrightarrow> avl_can_rotate l AVL_LEFT) \<and>
           avl_can_rotate (Node (if avl_balance_factor l < 0 then avl_rotate l AVL_LEFT else l) d k v r) AVL_RIGHT"
    and "avl_balance_factor t = -2 \<Longrightarrow>
           (avl_balance_factor r > 0 \<longrightarrow> avl_can_rotate r AVL_RIGHT) \<and>
           avl_can_rotate (Node l d k v (if avl_balance_factor r > 0 then avl_rotate r AVL_RIGHT else r)) AVL_LEFT"
proof -
  assume "avl_balance_factor t = 2"
  then have "l \<noteq> Null" using assms(1) by (auto simp: Let_def split: if_splits)
  then show "(avl_balance_factor l < 0 \<longrightarrow> avl_can_rotate l AVL_LEFT) \<and>
      avl_can_rotate (Node (if avl_balance_factor l < 0 then avl_rotate l AVL_LEFT else l) d k v r) AVL_RIGHT"
    using avl_can_rotate_left avl_rotate_not_Null by auto
next
  assume "avl_balance_factor t = -2"
  then have "r \<noteq> Null" using assms(1) by (auto simp: Let_def split: if_splits)
  then show "(avl_balance_factor r > 0 \<longrightarrow> avl_can_rotate r AVL_RIGHT) \<and>
      avl_can_rotate (Node l d k v (if avl_balance_factor r > 0 then avl_rotate r AVL_RIGHT else r)) AVL_LEFT"
    using avl_can_rotate_right avl_rotate_not_Null by auto
qed

section \<open>The tree implements a finite map\<close>

lemma ordered_append:
  "ordered cmp key (xs @ p # ys) \<longleftrightarrow>
     ordered cmp key xs \<and> ordered cmp key ys \<and> key (fst p) \<and>
     (\<forall>x \<in> set xs. cmp (fst x) (fst p) < 0) \<and> (\<forall>y \<in> set ys. cmp (fst p) (fst y) < 0) \<and>
     (\<forall>x \<in> set xs. \<forall>y \<in> set ys. cmp (fst x) (fst y) < 0)"
  by (auto simp: ordered_def sorted_wrt_append)

lemma ordered_Cons:
  "ordered cmp key (p # ys) \<longleftrightarrow>
     ordered cmp key ys \<and> key (fst p) \<and> (\<forall>y \<in> set ys. cmp (fst p) (fst y) < 0)"
  by (auto simp: ordered_def)

lemma ordered_key: "ordered cmp key xs \<Longrightarrow> p \<in> set xs \<Longrightarrow> key (fst p)"
  by (auto simp: ordered_def)

lemma list_lookup_append:
  "list_lookup cmp (xs @ ys) k =
     (if \<exists>p \<in> set xs. cmp k (fst p) = 0 then list_lookup cmp xs k else list_lookup cmp ys k)"
  by (induction xs) fastforce+

lemma list_lookup_absent: "(\<And>p. p \<in> set xs \<Longrightarrow> cmp k (fst p) \<noteq> 0) \<Longrightarrow> list_lookup cmp xs k = 0"
  by (induction xs) fastforce+

lemma list_insert_before:
  "cmp k a < 0 \<Longrightarrow>
   list_insert cmp k v (xs @ (a, b) # ys) = list_insert cmp k v xs @ (a, b) # ys"
  by (induction xs) auto

lemma list_insert_after:
  "(\<And>p. p \<in> set xs \<Longrightarrow> 0 < cmp k (fst p)) \<Longrightarrow>
   list_insert cmp k v (xs @ ys) = xs @ list_insert cmp k v ys"
  by (induction xs) force+

lemma set_list_insert_fst:
  "p \<in> set (list_insert cmp k v xs) \<Longrightarrow> fst p = k \<or> fst p \<in> fst ` set xs"
  by (induction xs) (auto split: if_splits)

lemma list_remove_append [simp]:
  "list_remove cmp k (xs @ ys) = list_remove cmp k xs @ list_remove cmp k ys"
  by (simp add: list_remove_def)

lemma list_remove_id: "(\<And>p. p \<in> set xs \<Longrightarrow> cmp k (fst p) \<noteq> 0) \<Longrightarrow> list_remove cmp k xs = xs"
  by (simp add: list_remove_def filter_id_conv)

context key_order
begin

lemma below_left:
  assumes "ordered cmp key (xs @ p # ys)" "key k" "cmp k (fst p) \<le> 0" "y \<in> set ys"
  shows "cmp k (fst y) < 0"
  using assms cmp_le_less [of k "fst p" "fst y"] by (auto simp: ordered_append ordered_key)

lemma above_right:
  assumes "ordered cmp key (xs @ p # ys)" "key k" "cmp k (fst p) \<ge> 0" "x \<in> set xs"
  shows "0 < cmp k (fst x)"
proof -
  have kx: "key (fst x)" "key (fst p)" "cmp (fst x) (fst p) < 0"
    using assms by (auto simp: ordered_append ordered_key)
  have "cmp (fst p) k \<le> 0" using assms(2,3) kx cmp_anti [of k "fst p"] cmp_anti [of "fst p" k] by linarith
  then have "cmp (fst x) k < 0" using cmp_less_le [of "fst x" "fst p" k] kx assms(2) by simp
  then show ?thesis using cmp_anti [of "fst x" k] kx assms(2) by simp
qed

lemma search_node:
  "ordered cmp key (inorder t) \<Longrightarrow> key k \<Longrightarrow> avl_search_node cmp t k = list_lookup cmp (inorder t) k"
proof (induction t)
  case Null
  then show ?case by simp
next
  case (Node l d a b r)
  have o: "ordered cmp key (inorder l @ (a, b) # inorder r)" using Node.prems by simp
  have IH: "avl_search_node cmp l k = list_lookup cmp (inorder l) k"
    "avl_search_node cmp r k = list_lookup cmp (inorder r) k"
    using Node o by (simp_all add: ordered_append)
  show ?case
  proof (cases "cmp k a < 0")
    case True
    then have "list_lookup cmp ((a, b) # inorder r) k = 0"
      using below_left [OF o Node.prems(2)] by (intro list_lookup_absent) fastforce
    with True show ?thesis
      by (auto simp: IH list_lookup_append simp del: list_lookup.simps intro!: list_lookup_absent)
  next
    case False
    then have "\<And>p. p \<in> set (inorder l) \<Longrightarrow> cmp k (fst p) \<noteq> 0"
      using above_right [OF o Node.prems(2)] by force
    with False show ?thesis by (auto simp: IH list_lookup_append)
  qed
qed

lemma inorder_insert:
  "ordered cmp key (inorder t) \<Longrightarrow> key k \<Longrightarrow>
   inorder (fst (avl_insert_helper cmp t k v)) = list_insert cmp k v (inorder t) \<and>
   snd (avl_insert_helper cmp t k v) = avl_search_node cmp t k"
proof (induction t)
  case Null
  then show ?case by simp
next
  case (Node l d a b r)
  have o: "ordered cmp key (inorder l @ (a, b) # inorder r)" using Node.prems by simp
  have after: "cmp k a \<ge> 0 \<Longrightarrow> list_insert cmp k v (inorder l @ ys) = inorder l @ list_insert cmp k v ys" for ys
    using above_right [OF o Node.prems(2)] by (intro list_insert_after) simp
  show ?case
    using Node o after list_insert_before [of cmp k a v "inorder l" b "inorder r"]
    by (auto simp: ordered_append split: prod.split simp del: avl_rebalance.simps avl_update_depth.simps)
qed

lemma ordered_insert:
  assumes "ordered cmp key xs" "key k"
  shows "ordered cmp key (list_insert cmp k v xs)"
  using assms(1)
proof (induction xs)
  case Nil
  then show ?case using assms(2) by (simp add: ordered_def)
next
  case (Cons p xs)
  obtain a b where p: "p = (a, b)" by (cases p)
  have ka: "key a" and oxs: "ordered cmp key xs" and lt: "\<And>y. y \<in> set xs \<Longrightarrow> cmp a (fst y) < 0"
    using Cons.prems p by (auto simp: ordered_Cons)
  consider "cmp k a = 0" | "cmp k a < 0" | "0 < cmp k a" by linarith
  then show ?case
  proof cases
    case 1
    then show ?thesis using Cons.prems p by (simp add: ordered_Cons)
  next
    case 2
    have "cmp k (fst y) < 0" if "y \<in> set xs" for y
      using cmp_less_le [of k a "fst y"] 2 lt [OF that] ka assms(2) ordered_key [OF oxs that] by simp
    then show ?thesis using Cons.prems p assms(2) 2 by (auto simp: ordered_Cons)
  next
    case 3
    then have "cmp a k < 0" using cmp_anti [of a k] ka assms(2) by simp
    moreover have "cmp a (fst y) < 0" if "y \<in> set (list_insert cmp k v xs)" for y
      using set_list_insert_fst [OF that] lt calculation by auto
    ultimately show ?thesis using 3 Cons.IH [OF oxs] p ka by (auto simp: ordered_Cons)
  qed
qed

lemma inorder_remove:
  "ordered cmp key (inorder t) \<Longrightarrow> key k \<Longrightarrow>
   inorder (fst (avl_remove_helper cmp t k)) = list_remove cmp k (inorder t) \<and>
   fst (snd (avl_remove_helper cmp t k)) = avl_search_node cmp t k"
proof (induction t)
  case Null
  then show ?case by (simp add: list_remove_def)
next
  case (Node l d a b r)
  have o: "ordered cmp key (inorder l @ (a, b) # inorder r)" using Node.prems by simp
  have L: "cmp k a \<ge> 0 \<Longrightarrow> list_remove cmp k (inorder l) = inorder l"
    using above_right [OF o Node.prems(2)] by (intro list_remove_id) force
  have R: "cmp k a \<le> 0 \<Longrightarrow> list_remove cmp k (inorder r) = inorder r"
    using below_left [OF o Node.prems(2)] by (intro list_remove_id) force
  have M: "list_remove cmp k ((a, b) # xs) = (if cmp k a = 0 then [] else [(a, b)]) @ list_remove cmp k xs" for xs
    by (simp add: list_remove_def)
  show ?case
    using Node o L R
    by (auto simp: ordered_append M inorder_unlink split: prod.split
        simp del: avl_rebalance.simps avl_update_depth.simps avl_unlink.simps)
qed

lemma ordered_remove: "ordered cmp key xs \<Longrightarrow> ordered cmp key (list_remove cmp k xs)"
  by (auto simp: ordered_def list_remove_def sorted_wrt_filter)

lemma entry_eq:
  assumes "key a" "key k" "key k'"
  shows "cmp k' k = 0 \<Longrightarrow> cmp k' a = 0 \<longleftrightarrow> cmp k a = 0"
    and "cmp k a = 0 \<Longrightarrow> cmp k' a = 0 \<longleftrightarrow> cmp k' k = 0"
  using cmp_eq_cong(2) [of k' k a] cmp_eq_cong(4) [of k a k'] assms by auto

lemma lookup_insert:
  assumes "ordered cmp key xs" "key k" "key k'"
  shows "list_lookup cmp (list_insert cmp k v xs) k' = (if cmp k' k = 0 then v else list_lookup cmp xs k')"
  using assms(1)
proof (induction xs)
  case Nil
  then show ?case by simp
next
  case (Cons p xs)
  obtain a b where p: "p = (a, b)" by (cases p)
  have "key a" "ordered cmp key xs" using Cons.prems p by (auto simp: ordered_Cons)
  then show ?case using Cons.IH p entry_eq [of a k k'] assms(2,3) by auto
qed

lemma lookup_remove:
  assumes "ordered cmp key xs" "key k" "key k'"
  shows "list_lookup cmp (list_remove cmp k xs) k' = (if cmp k' k = 0 then 0 else list_lookup cmp xs k')"
  using assms(1)
proof (induction xs)
  case Nil
  then show ?case by (simp add: list_remove_def)
next
  case (Cons p xs)
  obtain a b where p: "p = (a, b)" by (cases p)
  have "key a" "ordered cmp key xs" using Cons.prems p by (auto simp: ordered_Cons)
  then show ?case using Cons.IH p entry_eq [of a k k'] assms(2,3) by (auto simp: list_remove_def)
qed

end

text \<open>
  A client's calls on a table, one after another: the table after them and what each call
  returned.  \<open>map_run\<close> is the same calls on a total map in which 0 means "absent".
\<close>

datatype ('k, 'd) table_op = Insert 'k 'd | Remove 'k | Search 'k

fun op_key :: "('k, 'd) table_op \<Rightarrow> 'k" where
  "op_key (Insert k v) = k"
| "op_key (Remove k) = k"
| "op_key (Search k) = k"

fun table_run ::
  "('t \<Rightarrow> 'k \<Rightarrow> 'd) \<Rightarrow> ('t \<Rightarrow> 'k \<Rightarrow> 'd \<Rightarrow> 't \<times> 'd) \<Rightarrow> ('t \<Rightarrow> 'k \<Rightarrow> 't \<times> 'd \<times> 'k option) \<Rightarrow>
   't \<Rightarrow> ('k, 'd) table_op list \<Rightarrow> 'd list" where
  "table_run look ins rem t [] = []"
| "table_run look ins rem t (Insert k v # ops) =
     snd (ins t k v) # table_run look ins rem (fst (ins t k v)) ops"
| "table_run look ins rem t (Remove k # ops) =
     fst (snd (rem t k)) # table_run look ins rem (fst (rem t k)) ops"
| "table_run look ins rem t (Search k # ops) =
     look t k # table_run look ins rem t ops"

fun map_run :: "('k \<Rightarrow> 'd::zero) \<Rightarrow> ('k, 'd) table_op list \<Rightarrow> 'd list" where
  "map_run f [] = []"
| "map_run f (Insert k v # ops) = f k # map_run (f(k := v)) ops"
| "map_run f (Remove k # ops) = f k # map_run (f(k := 0)) ops"
| "map_run f (Search k # ops) = f k # map_run f ops"

text \<open>
  The interface the clients use: a table with a lookup, an insertion and a removal, whose
  NULL/zero result means "absent".  \<open>same\<close> is when two keys name the same entry.
\<close>

locale zero_table =
  fixes lookup :: "'t \<Rightarrow> 'k \<Rightarrow> 'd::zero" and insert :: "'t \<Rightarrow> 'k \<Rightarrow> 'd \<Rightarrow> 't \<times> 'd"
    and remove :: "'t \<Rightarrow> 'k \<Rightarrow> 't \<times> 'd \<times> 'k option"
    and same :: "'k \<Rightarrow> 'k \<Rightarrow> bool" and key :: "'k \<Rightarrow> bool" and invar :: "'t \<Rightarrow> bool"
  assumes invar_insert: "invar t \<Longrightarrow> key k \<Longrightarrow> invar (fst (insert t k v))"
    and invar_remove: "invar t \<Longrightarrow> key k \<Longrightarrow> invar (fst (remove t k))"
    and lookup_insert: "invar t \<Longrightarrow> key k \<Longrightarrow> key k' \<Longrightarrow>
          lookup (fst (insert t k v)) k' = (if same k' k then v else lookup t k')"
    and insert_old: "invar t \<Longrightarrow> key k \<Longrightarrow> snd (insert t k v) = lookup t k"
    and lookup_remove: "invar t \<Longrightarrow> key k \<Longrightarrow> key k' \<Longrightarrow>
          lookup (fst (remove t k)) k' = (if same k' k then 0 else lookup t k')"
    and remove_old: "invar t \<Longrightarrow> key k \<Longrightarrow> fst (snd (remove t k)) = lookup t k"
    and same_refl: "key k \<Longrightarrow> same k k"
begin

lemma lookup_insert_same: "invar t \<Longrightarrow> key k \<Longrightarrow> lookup (fst (insert t k v)) k = v"
  by (simp add: lookup_insert same_refl)

lemma lookup_remove_same: "invar t \<Longrightarrow> key k \<Longrightarrow> lookup (fst (remove t k)) k = 0"
  by (simp add: lookup_remove same_refl)

lemma insert_twice:
  "invar t \<Longrightarrow> key k \<Longrightarrow> key k' \<Longrightarrow>
   lookup (fst (insert (fst (insert t k v)) k w)) k' = lookup (fst (insert t k w)) k'"
  by (simp add: lookup_insert invar_insert)

lemma remove_insert_absent:
  "invar t \<Longrightarrow> key k \<Longrightarrow> key k' \<Longrightarrow> lookup t k = 0 \<Longrightarrow> (same k' k \<Longrightarrow> lookup t k' = lookup t k) \<Longrightarrow>
   lookup (fst (remove (fst (insert t k v)) k)) k' = lookup t k'"
  by (simp add: lookup_insert lookup_remove invar_insert)

text \<open>A table whose keys are the same when they have the same name is a map on the names.\<close>

lemma table_run_names:
  assumes "\<And>k k'. key k \<Longrightarrow> key k' \<Longrightarrow> same k k' \<longleftrightarrow> nm k = nm k'"
  shows "invar t \<Longrightarrow> (\<And>k. key k \<Longrightarrow> lookup t k = f (nm k)) \<Longrightarrow> \<forall>op \<in> set ops. key (op_key op) \<Longrightarrow>
    table_run lookup insert remove t ops = map_run f (map (map_table_op nm (\<lambda>v. v)) ops)"
proof (induction ops arbitrary: t f)
  case (Cons op ops)
  have k: "key (op_key op)" "\<forall>op \<in> set ops. key (op_key op)" using Cons.prems(3) by simp_all
  show ?case
  proof (cases op)
    case (Insert k v)
    have "lookup (fst (insert t k v)) k' = (f(nm k := v)) (nm k')" if "key k'" for k'
      using Cons.prems(1,2) k(1) that assms Insert by (simp add: lookup_insert)
    from Cons.IH [OF _ this k(2)] show ?thesis
      using Cons.prems(1,2) k(1) Insert by (simp add: invar_insert insert_old fun_upd_def)
  next
    case (Remove k)
    have "lookup (fst (remove t k)) k' = (f(nm k := 0)) (nm k')" if "key k'" for k'
      using Cons.prems(1,2) k(1) that assms Remove by (simp add: lookup_remove)
    from Cons.IH [OF _ this k(2)] show ?thesis
      using Cons.prems(1,2) k(1) Remove by (simp add: invar_remove remove_old fun_upd_def)
  next
    case (Search k)
    then show ?thesis using Cons.IH [OF Cons.prems(1,2) k(2)] Cons.prems(2) k(1) by simp
  qed
qed simp

lemma table_run_map:
  assumes "\<And>k k'. key k \<Longrightarrow> key k' \<Longrightarrow> same k k' \<longleftrightarrow> k = k'" "invar t" "\<And>k. key k \<Longrightarrow> lookup t k = f k"
    and "\<forall>op \<in> set ops. key (op_key op)"
  shows "table_run lookup insert remove t ops = map_run f ops"
proof -
  have "map_table_op (\<lambda>k. k) (\<lambda>v. v) = (\<lambda>op :: ('k, 'd) table_op. op)" by (simp add: fun_eq_iff table_op.map_ident)
  then show ?thesis using table_run_names [of "\<lambda>k. k" t f ops] assms by simp
qed

end

definition avl_invar :: "('k \<Rightarrow> 'k \<Rightarrow> int) \<Rightarrow> ('k \<Rightarrow> bool) \<Rightarrow> ('k, 'd) avl_tree \<Rightarrow> bool" where
  "avl_invar cmp key t \<longleftrightarrow> comparator t = cmp \<and> ordered cmp key (inorder (avl_root t))"

lemma avl_invar_initialize: "avl_invar cmp key (avl_initialize cmp d)"
  by (simp add: avl_invar_def avl_initialize_def ordered_def)

context key_order
begin

lemma avl_zero_table:
  "zero_table avl_search avl_insert avl_remove (\<lambda>a b. cmp a b = 0) key
     (avl_invar cmp key :: ('k, 'd::zero) avl_tree \<Rightarrow> bool)"
proof
  fix t :: "('k, 'd) avl_tree" and k k' :: 'k and v :: 'd
  assume i: "avl_invar cmp key t" and k: "key k"
  then have c: "comparator t = cmp" and o: "ordered cmp key (inorder (avl_root t))"
    by (auto simp: avl_invar_def)
  note ins = inorder_insert [OF o k, of v] and rem = inorder_remove [OF o k]
  show "avl_invar cmp key (fst (avl_insert t k v))"
    using ins ordered_insert [OF o k, of v]
    by (auto simp: avl_invar_def avl_insert_def c split: prod.split)
  show "avl_invar cmp key (fst (avl_remove t k))"
    using rem ordered_remove [OF o, of k]
    by (auto simp: avl_invar_def avl_remove_def c split: prod.split)
  show "snd (avl_insert t k v) = avl_search t k"
    using ins by (auto simp: avl_insert_def avl_search_def c split: prod.split)
  show "fst (snd (avl_remove t k)) = avl_search t k"
    using rem by (auto simp: avl_remove_def avl_search_def c split: prod.split)
  assume k': "key k'"
  show "avl_search (fst (avl_insert t k v)) k' = (if cmp k' k = 0 then v else avl_search t k')"
    using ins ordered_insert [OF o k, of v] lookup_insert [OF o k k', of v]
    by (auto simp: avl_insert_def avl_search_def c search_node o k' split: prod.split)
  show "avl_search (fst (avl_remove t k)) k' = (if cmp k' k = 0 then 0 else avl_search t k')"
    using rem ordered_remove [OF o, of k] lookup_remove [OF o k k']
    by (auto simp: avl_remove_def avl_search_def c search_node o k' split: prod.split)
qed (rule cmp_refl)

end

section \<open>The comparators of the code\<close>

lemma key_order_by_value:
  fixes f :: "'k \<Rightarrow> 'v::linorder"
  shows "key_order (\<lambda>a b. if f a < f b then -1 else if f a > f b then 1 else 0) (\<lambda>_. True)"
  by unfold_locales (auto split: if_splits)

interpretation ptr_order: key_order avl_ptrcmp "\<lambda>_. True"
  using key_order_by_value [of "\<lambda>k. k"] by (simp add: avl_ptrcmp_def [abs_def])

interpretation int_order: key_order "avl_intcmp m" "\<lambda>_. True" for m
  unfolding avl_intcmp_def [abs_def] Let_def by (rule key_order_by_value)

interpretation ulong_order: key_order "avl_ulongcmp m" "\<lambda>_. True" for m
  unfolding avl_ulongcmp_def [abs_def] Let_def by (rule key_order_by_value)

text \<open>\<^verbatim>\<open>str_cmp\<close> orders the zero-free strings, by the bytes followed by the terminator.\<close>

definition zero_free :: "u8 list \<Rightarrow> bool" where
  "zero_free xs \<longleftrightarrow> 0 \<notin> set xs"

lemma zero_free_simps [simp]:
  "zero_free []" "zero_free (x # xs) \<longleftrightarrow> x \<noteq> 0 \<and> zero_free xs"
  by (auto simp: zero_free_def)

lemma cmp_bytes_anti:
  "zero_free xs \<Longrightarrow> zero_free ys \<Longrightarrow> cmp_bytes xs ys < 0 \<longleftrightarrow> 0 < cmp_bytes ys xs"
  by (induction xs ys rule: cmp_bytes.induct) (auto simp: not_less order_le_less sint_zero_iff)

lemma cmp_bytes_le:
  "cmp_bytes [] (y # ys) \<le> 0 \<longleftrightarrow> 0 < sint y"
  "cmp_bytes (x # xs) [] \<le> 0 \<longleftrightarrow> sint x < 0"
  "cmp_bytes (x # xs) (y # ys) \<le> 0 \<longleftrightarrow> sint x < sint y \<or> sint x = sint y \<and> cmp_bytes xs ys \<le> 0"
  by simp_all

lemma cmp_bytes_trans:
  "zero_free xs \<Longrightarrow> zero_free ys \<Longrightarrow> zero_free zs \<Longrightarrow>
   cmp_bytes xs ys \<le> 0 \<Longrightarrow> cmp_bytes ys zs \<le> 0 \<Longrightarrow> cmp_bytes xs zs \<le> 0"
proof (induction xs ys arbitrary: zs rule: cmp_bytes.induct)
  case 1
  then show ?case by simp
next
  case (2 y ys)
  then show ?case
    by (cases zs) (simp_all only: cmp_bytes_le zero_free_simps cmp_bytes.simps(1), linarith+)
next
  case (3 x xs)
  then show ?case
    by (cases zs) (simp_all only: cmp_bytes_le zero_free_simps cmp_bytes.simps(1), linarith+)
next
  case (4 x xs y ys)
  show ?case
  proof (cases zs)
    case Nil
    with "4.prems" show ?thesis unfolding Nil cmp_bytes_le by linarith
  next
    case (Cons z zs')
    have "sint x = sint y \<Longrightarrow> sint y = sint z \<Longrightarrow> cmp_bytes xs ys \<le> 0 \<Longrightarrow> cmp_bytes ys zs' \<le> 0 \<Longrightarrow>
        cmp_bytes xs zs' \<le> 0"
      using "4.IH" [of zs'] "4.prems" Cons by simp
    with "4.prems" show ?thesis unfolding Cons cmp_bytes_le by linarith
  qed
qed

interpretation str_order: key_order cmp_bytes zero_free
  by unfold_locales (fact cmp_bytes_anti, fact cmp_bytes_trans)

text \<open>The two tables the scheduler keeps: keyed by words and by strings.\<close>

interpretation ptr_table: zero_table avl_search avl_insert avl_remove
  "\<lambda>a b. avl_ptrcmp a b = 0" "\<lambda>_. True"
  "avl_invar avl_ptrcmp (\<lambda>_. True) :: (u64, 'd::zero) avl_tree \<Rightarrow> bool"
  by (rule ptr_order.avl_zero_table)

interpretation str_table: zero_table avl_search avl_insert avl_remove
  "\<lambda>a b. cmp_bytes a b = 0" zero_free
  "avl_invar cmp_bytes zero_free :: (u8 list, 'd::zero) avl_tree \<Rightarrow> bool"
  by (rule str_order.avl_zero_table)

text \<open>
  The strings themselves are in memory, and their addresses are the keys: the comparator is \<^verbatim>\<open>str_cmp\<close> as
  long as the memory of the names does not change.
\<close>

definition string_at :: "bytes \<Rightarrow> ptr \<Rightarrow> bool" where
  "string_at m p \<longleftrightarrow> (\<exists>xs. cstring m p xs \<and> length xs < 2 ^ 32 - 1)"

lemma cstring_zero_free: "cstring m p xs \<Longrightarrow> zero_free xs"
  by (induction xs arbitrary: p) auto

lemma cstring_unique: "cstring m p xs \<Longrightarrow> cstring m p ys \<Longrightarrow> xs = ys"
proof (induction xs arbitrary: p ys)
  case Nil
  then show ?case by (cases ys) auto
next
  case (Cons x xs)
  then show ?case by (cases ys) auto
qed

lemma string_at_cmp:
  "cstring m p xs \<Longrightarrow> cstring m q ys \<Longrightarrow> length xs < 2 ^ 32 - 1 \<Longrightarrow> length ys < 2 ^ 32 - 1 \<Longrightarrow>
   zero_free xs \<and> zero_free ys \<and> str_cmp m p q = cmp_bytes xs ys \<and> str_cmp m q p = cmp_bytes ys xs"
  using cstring_zero_free str_cmp_cstring by blast

interpretation addr_order: key_order "str_cmp m" "string_at m" for m
proof
  fix a b
  assume "string_at m a" "string_at m b"
  then obtain xs ys where "cstring m a xs" "cstring m b ys" "length xs < 2 ^ 32 - 1" "length ys < 2 ^ 32 - 1"
    unfolding string_at_def by blast
  from string_at_cmp [OF this] show "str_cmp m a b < 0 \<longleftrightarrow> 0 < str_cmp m b a" using cmp_bytes_anti [of xs ys] by simp
next
  fix a b c
  assume k: "string_at m a" "string_at m b" "string_at m c" and le: "str_cmp m a b \<le> 0" "str_cmp m b c \<le> 0"
  obtain xs ys zs where s: "cstring m a xs" "cstring m b ys" "cstring m c zs"
    "length xs < 2 ^ 32 - 1" "length ys < 2 ^ 32 - 1" "length zs < 2 ^ 32 - 1"
    using k unfolding string_at_def by blast
  note string_at_cmp [OF s(1,2,4,5)] string_at_cmp [OF s(2,3,5,6)] string_at_cmp [OF s(1,3,4,6)]
  then show "str_cmp m a c \<le> 0" using cmp_bytes_trans [of xs ys zs] le by simp
qed

interpretation addr_table: zero_table avl_search avl_insert avl_remove
  "\<lambda>a b. str_cmp m a b = 0" "string_at m"
  "avl_invar (str_cmp m) (string_at m) :: (ptr, 'd::zero) avl_tree \<Rightarrow> bool" for m
  by (rule addr_order.avl_zero_table)

interpretation int_table: zero_table avl_search avl_insert avl_remove
  "\<lambda>a b. avl_intcmp m a b = 0" "\<lambda>_. True"
  "avl_invar (avl_intcmp m) (\<lambda>_. True) :: (ptr, 'd::zero) avl_tree \<Rightarrow> bool" for m
  by (rule int_order.avl_zero_table)

lemma avl_ptrcmp_0 [simp]: "avl_ptrcmp a b = 0 \<longleftrightarrow> a = b"
  by (auto simp: avl_ptrcmp_def)

section \<open>Balance\<close>

text \<open>
  The balance the code keeps is about the stored depths: a leaf is stored with depth 1 when
  it is inserted and with depth 2 once \<^verbatim>\<open>update_depth\<close> has run on it, so stored depth and
  height can differ by one.
\<close>

fun avl_balanced :: "('k, 'd) avl_node \<Rightarrow> bool" where
  "avl_balanced Null \<longleftrightarrow> True"
| "avl_balanced (Node l d k v r) \<longleftrightarrow>
     avl_balanced l \<and> avl_balanced r \<and> depth_of l \<le> depth_of r + 1 \<and> depth_of r \<le> depth_of l + 1 \<and>
     (if l = Null \<and> r = Null then d = 1 \<or> d = 2 else d = max (depth_of l) (depth_of r) + 1)"

fun avl_height :: "('k, 'd) avl_node \<Rightarrow> nat" where
  "avl_height Null = 0"
| "avl_height (Node l d k v r) = max (avl_height l) (avl_height r) + 1"

fun avl_size :: "('k, 'd) avl_node \<Rightarrow> nat" where
  "avl_size Null = 0"
| "avl_size (Node l d k v r) = avl_size l + avl_size r + 1"

lemma depth_of_pos: "avl_balanced t \<Longrightarrow> t \<noteq> Null \<Longrightarrow> 0 < depth_of t"
  by (cases t) (auto split: if_splits)

lemma depth_of_0: "avl_balanced t \<Longrightarrow> depth_of t = 0 \<longleftrightarrow> t = Null"
  using depth_of_pos [of t] by (cases "t = Null") auto

lemma avl_balance_factor_diff: "avl_balance_factor (Node l d k v r) = int (depth_of l) - int (depth_of r)"
  by (cases l; cases r) (auto simp: Let_def)

definition node_depth :: "('k, 'd) avl_node \<Rightarrow> ('k, 'd) avl_node \<Rightarrow> nat" where
  "node_depth l r = (if l = Null \<and> r = Null then 2 else max (depth_of l) (depth_of r) + 1)"

lemma avl_update_depth_node:
  "avl_balanced l \<Longrightarrow> avl_balanced r \<Longrightarrow> avl_update_depth (Node l d k v r) = Node l (node_depth l r) k v r"
  using depth_of_pos [of l] depth_of_pos [of r]
  by (cases "l = Null"; cases "r = Null") (auto simp: node_depth_def Let_def max_def)

lemma avl_balanced_node:
  "avl_balanced l \<Longrightarrow> avl_balanced r \<Longrightarrow> depth_of l \<le> depth_of r + 1 \<Longrightarrow> depth_of r \<le> depth_of l + 1 \<Longrightarrow>
   avl_balanced (Node l (node_depth l r) k v r)"
  by (simp add: node_depth_def)

lemma node_depth_bounds:
  "avl_balanced l \<Longrightarrow> avl_balanced r \<Longrightarrow>
   max (depth_of l) (depth_of r) + 1 \<le> node_depth l r \<and> node_depth l r \<le> max 1 (max (depth_of l) (depth_of r)) + 1 \<and>
   (0 < depth_of l \<or> 0 < depth_of r \<longrightarrow> node_depth l r = max (depth_of l) (depth_of r) + 1)"
  by (auto simp: node_depth_def)

lemma balancedE:
  assumes "avl_balanced (Node l d k v r)"
  shows "avl_balanced l" "avl_balanced r" "depth_of l \<le> depth_of r + 1" "depth_of r \<le> depth_of l + 1"
    "max (depth_of l) (depth_of r) + 1 \<le> d" "d \<le> max 1 (max (depth_of l) (depth_of r)) + 1"
  using assms by (auto split: if_splits)

lemma avl_rebuild_left:
  assumes "avl_balanced l" "avl_balanced r" "depth_of l = depth_of r + 2" "2 \<le> length (inorder l)"
  shows "let t = avl_update_depth (avl_rebalance (Node l d k v r)) in
    avl_balanced t \<and> t \<noteq> Null \<and> depth_of r + 2 \<le> depth_of t \<and> depth_of t \<le> depth_of r + 3"
proof -
  obtain ll ld lk lv lr where l: "l = Node ll ld lk lv lr" using assms(3) by (cases l) auto
  note bl = balancedE [OF assms(1) [unfolded l]]
  have ld: "ld = depth_of r + 2" using assms(3) l by simp
  have nl: "0 < depth_of ll \<or> 0 < depth_of lr"
    using assms(4) depth_of_0 [OF bl(1)] depth_of_0 [OF bl(2)] by (auto simp: l)
  have bf: "avl_balance_factor (Node l d k v r) = 2"
    unfolding avl_balance_factor_diff using assms(3) by simp
  have bfl: "avl_balance_factor l = int (depth_of ll) - int (depth_of lr)"
    by (simp only: l avl_balance_factor_diff)
  show ?thesis
  proof (cases "depth_of ll < depth_of lr")
    case False
    let ?x = "Node lr (node_depth lr r) k v r"
    note nx = node_depth_bounds [OF bl(2) assms(2)]
    have el: "depth_of ll = depth_of r + 1" and el2: "depth_of lr \<le> depth_of r + 1"
      using bl(5,6) ld nl False by (simp_all add: max_def split: if_splits)
    have "avl_rebalance (Node l d k v r) = avl_update_depth (Node ll ld lk lv (avl_update_depth (Node lr d k v r)))"
      using False bf bfl by (simp add: l Let_def del: avl_balance_factor.simps avl_update_depth.simps)
    moreover have bx: "avl_balanced ?x"
      using bl assms ld False by (intro avl_balanced_node) auto
    moreover have bt: "avl_balanced (Node ll (node_depth ll ?x) lk lv ?x)"
      using el el2 nx by (intro avl_balanced_node bl(1) bx) (simp_all add: max_def split: if_splits)
    ultimately have eq: "avl_update_depth (avl_rebalance (Node l d k v r)) = Node ll (node_depth ll ?x) lk lv ?x"
      by (simp only: avl_update_depth_node bl assms)
    have "node_depth ll ?x = max (depth_of ll) (node_depth lr r) + 1"
      by (simp add: node_depth_def)
    moreover have "node_depth lr r \<le> depth_of r + 2"
      using nx el2 by (simp add: max_def split: if_splits)
    ultimately show ?thesis unfolding Let_def eq by (intro conjI bt) (simp_all add: el)
  next
    case True
    then obtain l2 d2 k2 v2 r2 where lr: "lr = Node l2 d2 k2 v2 r2" by (cases lr) auto
    note b2 = balancedE [OF bl(2) [unfolded lr]]
    let ?y = "Node ll (node_depth ll l2) lk lv l2" and ?x = "Node r2 (node_depth r2 r) k v r"
    note ny = node_depth_bounds [OF bl(1) b2(1)] and nx = node_depth_bounds [OF b2(2) assms(2)]
    have d2: "d2 = depth_of lr" by (simp add: lr)
    have e: "depth_of lr = depth_of r + 1" "depth_of ll = depth_of r" using bl ld True by auto
    have yb: "avl_balanced ?y" using bl b2 e d2 by (intro avl_balanced_node) auto
    have bx: "avl_balanced ?x" using assms b2 e d2 by (intro avl_balanced_node) auto
    have bt: "avl_balanced (Node ?y (node_depth ?y ?x) k2 v2 ?x)"
      using yb bx nx ny b2 e d2 by (intro avl_balanced_node) auto
    have "avl_rebalance (Node l d k v r) = avl_rotate (Node (avl_rotate l AVL_LEFT) d k v r) AVL_RIGHT"
      using True bf bfl by (simp add: Let_def del: avl_balance_factor.simps avl_rotate.simps)
    also have "\<dots> = Node ?y (node_depth ?y ?x) k2 v2 ?x"
      using bl b2 assms yb bx avl_update_depth_node [OF yb bx] avl_update_depth_node [OF yb b2(2)]
      by (simp add: l lr avl_update_depth_node del: avl_update_depth.simps)
    finally have eq: "avl_update_depth (avl_rebalance (Node l d k v r)) = Node ?y (node_depth ?y ?x) k2 v2 ?x"
      by (simp only: avl_update_depth_node yb bx)
    have "node_depth ?y ?x = max (node_depth ll l2) (node_depth r2 r) + 1"
      by (simp add: node_depth_def)
    moreover have "node_depth ll l2 \<le> depth_of r + 2" "depth_of r + 1 \<le> node_depth ll l2"
      "node_depth r2 r \<le> depth_of r + 2"
      using nx ny b2 e d2 by (simp_all add: max_def split: if_splits)
    ultimately show ?thesis unfolding Let_def eq by (intro conjI bt) simp_all
  qed
qed

lemma avl_rebuild_right:
  assumes "avl_balanced l" "avl_balanced r" "depth_of r = depth_of l + 2" "2 \<le> length (inorder r)"
  shows "let t = avl_update_depth (avl_rebalance (Node l d k v r)) in
    avl_balanced t \<and> t \<noteq> Null \<and> depth_of l + 2 \<le> depth_of t \<and> depth_of t \<le> depth_of l + 3"
proof -
  obtain rl rd rk rv rr where r: "r = Node rl rd rk rv rr" using assms(3) by (cases r) auto
  note br = balancedE [OF assms(2) [unfolded r]]
  have rd: "rd = depth_of l + 2" using assms(3) r by simp
  have nr: "0 < depth_of rl \<or> 0 < depth_of rr"
    using assms(4) depth_of_0 [OF br(1)] depth_of_0 [OF br(2)] by (auto simp: r)
  have bf: "avl_balance_factor (Node l d k v r) = -2"
    unfolding avl_balance_factor_diff using assms(3) by simp
  have bfr: "avl_balance_factor r = int (depth_of rl) - int (depth_of rr)"
    by (simp only: r avl_balance_factor_diff)
  show ?thesis
  proof (cases "depth_of rr < depth_of rl")
    case False
    let ?x = "Node l (node_depth l rl) k v rl"
    note nx = node_depth_bounds [OF assms(1) br(1)]
    have er: "depth_of rr = depth_of l + 1" and er2: "depth_of rl \<le> depth_of l + 1"
      using br(5,6) rd nr False by (simp_all add: max_def split: if_splits)
    have "avl_rebalance (Node l d k v r) = avl_update_depth (Node (avl_update_depth (Node l d k v rl)) rd rk rv rr)"
      using False bf bfr by (simp add: r Let_def del: avl_balance_factor.simps avl_update_depth.simps)
    moreover have bx: "avl_balanced ?x"
      using br assms rd False by (intro avl_balanced_node) auto
    moreover have bt: "avl_balanced (Node ?x (node_depth ?x rr) rk rv rr)"
      using er er2 nx by (intro avl_balanced_node br(2) bx) (simp_all add: max_def split: if_splits)
    ultimately have eq: "avl_update_depth (avl_rebalance (Node l d k v r)) = Node ?x (node_depth ?x rr) rk rv rr"
      by (simp only: avl_update_depth_node br assms)
    have "node_depth ?x rr = max (node_depth l rl) (depth_of rr) + 1"
      by (simp add: node_depth_def)
    moreover have "node_depth l rl \<le> depth_of l + 2"
      using nx er2 by (simp add: max_def split: if_splits)
    ultimately show ?thesis unfolding Let_def eq by (intro conjI bt) (simp_all add: er)
  next
    case True
    then obtain l2 d2 k2 v2 r2 where rl: "rl = Node l2 d2 k2 v2 r2" by (cases rl) auto
    note b2 = balancedE [OF br(1) [unfolded rl]]
    let ?y = "Node r2 (node_depth r2 rr) rk rv rr" and ?x = "Node l (node_depth l l2) k v l2"
    note ny = node_depth_bounds [OF b2(2) br(2)] and nx = node_depth_bounds [OF assms(1) b2(1)]
    have d2: "d2 = depth_of rl" by (simp add: rl)
    have e: "depth_of rl = depth_of l + 1" "depth_of rr = depth_of l" using br rd True by auto
    have yb: "avl_balanced ?y" using br b2 e d2 by (intro avl_balanced_node) auto
    have bx: "avl_balanced ?x" using assms b2 e d2 by (intro avl_balanced_node) auto
    have bt: "avl_balanced (Node ?x (node_depth ?x ?y) k2 v2 ?y)"
      using yb bx nx ny b2 e d2 by (intro avl_balanced_node) auto
    have "avl_rebalance (Node l d k v r) = avl_rotate (Node l d k v (avl_rotate r AVL_RIGHT)) AVL_LEFT"
      using True bf bfr by (simp add: Let_def del: avl_balance_factor.simps avl_rotate.simps)
    also have "\<dots> = Node ?x (node_depth ?x ?y) k2 v2 ?y"
      using br b2 assms yb bx avl_update_depth_node [OF bx yb] avl_update_depth_node [OF b2(1) yb]
      by (simp add: r rl avl_update_depth_node del: avl_update_depth.simps)
    finally have eq: "avl_update_depth (avl_rebalance (Node l d k v r)) = Node ?x (node_depth ?x ?y) k2 v2 ?y"
      by (simp only: avl_update_depth_node yb bx)
    have "node_depth ?x ?y = max (node_depth l l2) (node_depth r2 rr) + 1"
      by (simp add: node_depth_def)
    moreover have "node_depth r2 rr \<le> depth_of l + 2" "depth_of l + 1 \<le> node_depth r2 rr"
      "node_depth l l2 \<le> depth_of l + 2"
      using nx ny b2 e d2 by (simp_all add: max_def split: if_splits)
    ultimately show ?thesis unfolding Let_def eq by (intro conjI bt) simp_all
  qed
qed

lemma avl_rebalance_id:
  assumes "depth_of l \<le> depth_of r + 1" "depth_of r \<le> depth_of l + 1"
  shows "avl_rebalance (Node l d k v r) = Node l d k v r"
proof -
  have "avl_balance_factor (Node l d k v r) \<noteq> 2" "avl_balance_factor (Node l d k v r) \<noteq> -2"
    unfolding avl_balance_factor_diff using assms by arith+
  then show ?thesis by (simp add: Let_def del: avl_balance_factor.simps)
qed

lemma avl_rebuild:
  assumes "avl_balanced l" "avl_balanced r" "depth_of l \<le> depth_of r + 2" "depth_of r \<le> depth_of l + 2"
    and "depth_of l = depth_of r + 2 \<Longrightarrow> 2 \<le> length (inorder l)"
    and "depth_of r = depth_of l + 2 \<Longrightarrow> 2 \<le> length (inorder r)"
  shows "let t = avl_update_depth (avl_rebalance (Node l d k v r)) in
    avl_balanced t \<and> t \<noteq> Null \<and>
    (if depth_of l \<le> depth_of r + 1 \<and> depth_of r \<le> depth_of l + 1 then depth_of t = node_depth l r
     else max (depth_of l) (depth_of r) \<le> depth_of t \<and> depth_of t \<le> max (depth_of l) (depth_of r) + 1)"
proof -
  consider "depth_of l = depth_of r + 2" | "depth_of r = depth_of l + 2"
    | "depth_of l \<le> depth_of r + 1" "depth_of r \<le> depth_of l + 1"
    using assms(3,4) by linarith
  then show ?thesis
  proof cases
    case 1
    then show ?thesis using avl_rebuild_left [OF assms(1,2) 1 assms(5) [OF 1], of d k v] by (simp add: Let_def)
  next
    case 2
    then show ?thesis using avl_rebuild_right [OF assms(1,2) 2 assms(6) [OF 2], of d k v] by (simp add: Let_def)
  next
    case 3
    then show ?thesis
      using assms avl_balanced_node [OF assms(1,2) 3, of k v]
      by (simp only: avl_rebalance_id avl_update_depth_node Let_def) simp
  qed
qed

lemma avl_insert_balanced:
  "avl_balanced t \<Longrightarrow>
   (let t' = fst (avl_insert_helper cmp t k v)
    in avl_balanced t' \<and> t' \<noteq> Null \<and> depth_of t \<le> depth_of t' \<and> depth_of t' \<le> depth_of t + 1 \<and>
      (depth_of t < depth_of t' \<longrightarrow> t = Null \<or> 2 \<le> length (inorder t')))"
proof (induction t)
  case Null
  then show ?case by simp
next
  case (Node l d a b r)
  note bd = balancedE [OF Node.prems]
  have dd: "d = node_depth l r \<or> l = Null \<and> r = Null \<and> d = 1"
    using Node.prems by (auto simp: node_depth_def split: if_splits)
  let ?l = "fst (avl_insert_helper cmp l k v)" and ?r = "fst (avl_insert_helper cmp r k v)"
  have L: "avl_balanced ?l \<and> ?l \<noteq> Null \<and> depth_of l \<le> depth_of ?l \<and> depth_of ?l \<le> depth_of l + 1 \<and>
      (depth_of l < depth_of ?l \<longrightarrow> l = Null \<or> 2 \<le> length (inorder ?l))"
    and R: "avl_balanced ?r \<and> ?r \<noteq> Null \<and> depth_of r \<le> depth_of ?r \<and> depth_of ?r \<le> depth_of r + 1 \<and>
      (depth_of r < depth_of ?r \<longrightarrow> r = Null \<or> 2 \<le> length (inorder ?r))"
    using Node.IH bd by (simp_all add: Let_def)
  consider "cmp k a = 0" | "cmp k a < 0" | "cmp k a > 0" by linarith
  then show ?case
  proof cases
    case 1
    then show ?thesis using Node.prems by (auto simp: Let_def split: if_splits)
  next
    case 2
    have "let t = avl_update_depth (avl_rebalance (Node ?l d a b r)) in avl_balanced t \<and> t \<noteq> Null \<and>
      (if depth_of ?l \<le> depth_of r + 1 \<and> depth_of r \<le> depth_of ?l + 1 then depth_of t = node_depth ?l r
       else max (depth_of ?l) (depth_of r) \<le> depth_of t \<and> depth_of t \<le> max (depth_of ?l) (depth_of r) + 1)"
      using L bd by (intro avl_rebuild) (auto simp: depth_of_0)
    moreover have "fst (avl_insert_helper cmp (Node l d a b r) k v) =
        avl_update_depth (avl_rebalance (Node ?l d a b r))"
      using 2 by (simp add: case_prod_beta)
    moreover have "d \<le> node_depth ?l r" "node_depth ?l r \<le> d + 1"
      using L bd dd by (auto simp: node_depth_def depth_of_0)
    moreover have "2 \<le> length (inorder (avl_update_depth (avl_rebalance (Node ?l d a b r))))"
      using L by (cases ?l) (simp_all del: avl_update_depth.simps avl_rebalance.simps)
    ultimately show ?thesis using L bd by (auto simp: Let_def split: if_splits)
  next
    case 3
    have "let t = avl_update_depth (avl_rebalance (Node l d a b ?r)) in avl_balanced t \<and> t \<noteq> Null \<and>
      (if depth_of l \<le> depth_of ?r + 1 \<and> depth_of ?r \<le> depth_of l + 1 then depth_of t = node_depth l ?r
       else max (depth_of l) (depth_of ?r) \<le> depth_of t \<and> depth_of t \<le> max (depth_of l) (depth_of ?r) + 1)"
      using R bd by (intro avl_rebuild) (auto simp: depth_of_0)
    moreover have "fst (avl_insert_helper cmp (Node l d a b r) k v) =
        avl_update_depth (avl_rebalance (Node l d a b ?r))"
      using 3 by (simp add: case_prod_beta)
    moreover have "d \<le> node_depth l ?r" "node_depth l ?r \<le> d + 1"
      using R bd dd by (auto simp: node_depth_def depth_of_0)
    moreover have "2 \<le> length (inorder (avl_update_depth (avl_rebalance (Node l d a b ?r))))"
      using R by (cases ?r) (simp_all del: avl_update_depth.simps avl_rebalance.simps)
    ultimately show ?thesis using R bd by (auto simp: Let_def split: if_splits)
  qed
qed

lemma avl_height_le_depth: "avl_balanced t \<Longrightarrow> avl_height t \<le> depth_of t"
  by (induction t) (auto split: if_splits)

lemma avl_depth_log: "avl_balanced t \<Longrightarrow> 2 ^ (depth_of t div 2) \<le> avl_size t + 1"
proof (induction t)
  case Null
  then show ?case by simp
next
  case (Node l d k v r)
  note bd = balancedE [OF Node.prems]
  show ?case
  proof (cases "d \<le> 2")
    case True
    then have "d = 0 \<or> d = 1 \<or> d = 2" by arith
    then show ?thesis by auto
  next
    case False
    then have "depth_of l \<ge> d - 2" "depth_of r \<ge> d - 2" using bd by auto
    then have p: "(2::nat) ^ ((d - 2) div 2) \<le> 2 ^ (depth_of l div 2)"
      "(2::nat) ^ ((d - 2) div 2) \<le> 2 ^ (depth_of r div 2)"
      by (simp_all add: div_le_mono)
    have "2 ^ (depth_of l div 2) \<le> avl_size l + 1" "2 ^ (depth_of r div 2) \<le> avl_size r + 1"
      using Node.IH bd by simp_all
    moreover have "d div 2 = Suc ((d - 2) div 2)" using False by arith
    then have "(2::nat) ^ (d div 2) = 2 * 2 ^ ((d - 2) div 2)" by simp
    ultimately have "(2::nat) ^ (d div 2) \<le> avl_size l + avl_size r + 2" using p by linarith
    then show ?thesis by simp
  qed
qed

text \<open>The tree a list of insertions builds.\<close>

definition avl_insert_all :: "('k, 'd::zero) avl_tree \<Rightarrow> ('k \<times> 'd) list \<Rightarrow> ('k, 'd) avl_tree" where
  "avl_insert_all t kvs = foldl (\<lambda>t (k, v). fst (avl_insert t k v)) t kvs"

lemma avl_insert_size: "avl_size (fst (avl_insert_helper cmp t k v)) \<le> avl_size t + 1"
proof -
  have "avl_size t = length (inorder t)" for t :: "('a, 'b) avl_node" by (induction t) auto
  moreover have "length (inorder (fst (avl_insert_helper cmp t k v))) \<le> length (inorder t) + 1"
    by (induction t) (auto split: prod.splits simp del: avl_rebalance.simps avl_update_depth.simps)
  ultimately show ?thesis by simp
qed

lemma avl_insert_all_balanced:
  "avl_balanced (avl_root t) \<Longrightarrow> avl_balanced (avl_root (avl_insert_all t kvs)) \<and>
   avl_size (avl_root (avl_insert_all t kvs)) \<le> avl_size (avl_root t) + length kvs"
proof (induction kvs arbitrary: t)
  case Nil
  then show ?case by (simp add: avl_insert_all_def)
next
  case (Cons p kvs)
  obtain k v where p: "p = (k, v)" by (cases p)
  let ?t = "fst (avl_insert t k v)"
  have e: "avl_root ?t = fst (avl_insert_helper (comparator t) (avl_root t) k v)"
    by (simp add: avl_insert_def case_prod_beta)
  have "avl_balanced (avl_root ?t)" "avl_size (avl_root ?t) \<le> avl_size (avl_root t) + 1"
    using avl_insert_balanced [OF Cons.prems, of "comparator t" k v]
      avl_insert_size [of "comparator t" "avl_root t" k v] by (simp_all add: e Let_def)
  with Cons.IH [of ?t] show ?case by (simp add: avl_insert_all_def p)
qed

section \<open>Properties\<close>

text \<open>
  C6: the table of the scheduler's 64-bit keys is a map: whatever sequence of insertions,
  removals and searches a client makes on a fresh tree, each call returns what the map would,
  an insertion or removal the entry it replaces, with 0 for an absent one.
\<close>

theorem avl_ptr_table_is_map:
  "table_run avl_search avl_insert avl_remove (avl_initialize avl_ptrcmp destr) ops = map_run (\<lambda>_. 0) ops"
  by (rule ptr_table.table_run_map)
    (simp_all add: avl_invar_initialize, simp add: avl_search_def avl_initialize_def)

text \<open>
  C33: a tree with the comparator \<^verbatim>\<open>str_cmp\<close>, such as the table of the named tasks, is a map from names: whatever
  sequence of calls with the addresses of C strings a client makes on a fresh tree, each returns what the
  map on the strings returns, so that two addresses with the same string are the same entry, and two with
  different ones are not.
\<close>

theorem avl_str_table_is_map:
  assumes "\<forall>op \<in> set ops. cstring m (op_key op) (name (op_key op)) \<and> length (name (op_key op)) < 2 ^ 32 - 1"
  shows "table_run avl_search avl_insert avl_remove (avl_initialize (str_cmp m) destr) ops =
    map_run (\<lambda>_. 0) (map (map_table_op name (\<lambda>v. v)) ops)"
proof -
  define nm where "nm = (\<lambda>p. THE xs. cstring m p xs)"
  have nm: "nm p = xs" if "cstring m p xs" for p xs using that cstring_unique unfolding nm_def by blast
  have eq: "str_cmp m p q = 0 \<longleftrightarrow> nm p = nm q" if "string_at m p" "string_at m q" for p q
    using that string_at_cmp [of m p _ q] cmp_bytes_eq_0 nm unfolding string_at_def zero_free_def by metis
  have "table_run avl_search avl_insert avl_remove (avl_initialize (str_cmp m) destr) ops =
      map_run (\<lambda>_. 0) (map (map_table_op nm (\<lambda>v. v)) ops)"
    by (rule addr_table.table_run_names [OF eq])
      (use assms in \<open>auto simp: avl_invar_initialize string_at_def\<close>, simp add: avl_search_def avl_initialize_def)
  moreover have "map_table_op nm (\<lambda>v. v) op = map_table_op name (\<lambda>v. v) op" if "op \<in> set ops" for op
    using assms that nm by (cases op) auto
  ultimately show ?thesis by (simp cong: map_cong)
qed

text \<open>The string \<^verbatim>\<open>"hw"\<close> at two addresses, and \<^verbatim>\<open>"hx"\<close> at another.\<close>

theorem avl_str_table_is_map_witness:
  "table_run avl_search avl_insert avl_remove
     (avl_initialize (str_cmp ((\<lambda>_. 0)(16 := 104, 17 := 119, 32 := 104, 33 := 120, 48 := 104, 49 := 119))) True)
     [Insert 16 7, Insert 32 8, Search 48, Remove 48, Search 16, Search 32] = [0, 0, 7, 7, 0, 8 :: nat]"
proof -
  have "map_run (\<lambda>_. 0) (map (map_table_op (\<lambda>p :: ptr. if p = 32 then [104, 120 :: u8] else [104, 119]) (\<lambda>v. v))
      [Insert 16 7, Insert 32 8, Search 48, Remove 48, Search 16, Search 32]) = [0, 0, 7, 7, 0, 8 :: nat]"
    by simp
  then show ?thesis
    by (subst avl_str_table_is_map [where name = "\<lambda>p. if p = 32 then [104, 120] else [104, 119]"]) simp_all
qed

text \<open>
  C34: a tree built by insertions, in any order and with any comparator, has a height
  logarithmic in the number of insertions, at most about twice the optimum.
\<close>

theorem avl_height_logarithmic:
  "2 ^ (avl_height (avl_root (avl_insert_all (avl_initialize cmp destr) kvs)) div 2) \<le> length kvs + 1"
proof -
  let ?t = "avl_root (avl_insert_all (avl_initialize cmp destr) kvs)"
  have b: "avl_balanced ?t" "avl_size ?t \<le> length kvs"
    using avl_insert_all_balanced [of "avl_initialize cmp destr" kvs] by (auto simp: avl_initialize_def)
  have "(2::nat) ^ (avl_height ?t div 2) \<le> 2 ^ (depth_of ?t div 2)"
    using avl_height_le_depth [OF b(1)] by (simp add: div_le_mono)
  with avl_depth_log [OF b(1)] b(2) show ?thesis by linarith
qed

text \<open>The tree that 1, 2, 6, 4, 5, 3 make, inserted in this order.\<close>

definition remove_example :: "(u64, nat) avl_tree" where
  "remove_example = avl_insert_all (avl_initialize avl_ptrcmp False)
     [(1, 1), (2, 2), (6, 6), (4, 4), (5, 5), (3, 3)]"

text \<open>
  removal does not keep this balance.  \<^verbatim>\<open>remove\<close> rebalances only the nodes on the way to
  the removed one, not the ones on the way to the maximum it takes, and \<^verbatim>\<open>rebalance\<close> acts on an
  imbalance of exactly 2: after inserting 1, 2, 6, 4, 5, 3, which leaves the tree
  balanced, and removing 2 the root's subtrees differ in height by 3, the code's own balance
  factor says so, and \<^verbatim>\<open>rebalance\<close> leaves it alone.
\<close>

theorem avl_remove_unbalanced:
  "avl_balanced (avl_root remove_example) \<and>
   (let t = avl_root (fst (avl_remove remove_example 2))
    in t = Node Null 4 1 1 (Node (Node (Node Null 1 3 3 Null) 2 4 4 Null) 3 5 5 (Node Null 2 6 6 Null)) \<and>
      avl_balance_factor t = -3 \<and> avl_rebalance t = t)"
proof -
  have t: "avl_root remove_example = Node (Node Null 2 1 1 Null) 4 2 2
      (Node (Node (Node Null 1 3 3 Null) 2 4 4 Null) 3 5 5 (Node Null 2 6 6 Null))"
    and c: "comparator remove_example = avl_ptrcmp"
    by (simp_all add: remove_example_def avl_insert_all_def avl_insert_def avl_initialize_def
        avl_ptrcmp_def)
  show ?thesis by (simp add: avl_remove_def t c avl_ptrcmp_def Let_def)
qed

text \<open>
  \<^verbatim>\<open>search_window\<close> tests \<^verbatim>\<open>cmp1 >= 0 && cmp2 <= 0\<close>, the window's ends the wrong way round:
  a window given in increasing order never visits anything, and no window visits more than one
  node.
\<close>

theorem avl_search_window_empty:
  assumes "comparator t = avl_ptrcmp"
  shows "length (avl_search_window t key1 key2) \<le> 1 \<and>
    (key1 < key2 \<longrightarrow> avl_search_window t key1 key2 = [])"
proof -
  have "length (avl_search_window_helper avl_ptrcmp n key1 key2) \<le> 1 \<and>
      (key1 < key2 \<longrightarrow> avl_search_window_helper avl_ptrcmp n key1 key2 = [])"
    for n :: "(u64, 'a) avl_node"
    by (induction n) (auto simp: Let_def avl_ptrcmp_def split: if_splits)
  then show ?thesis using assms by (simp add: avl_search_window_def)
qed

theorem avl_search_window_empty_witness:
  "avl_search_window (fst (avl_insert (avl_initialize avl_ptrcmp False) 5 (7::nat))) 1 9 = []"
  using avl_search_window_empty [of "fst (avl_insert (avl_initialize avl_ptrcmp False) 5 (7::nat))" 1 9]
  by (simp add: avl_insert_def avl_initialize_def)

text \<open>
  \<^verbatim>\<open>avl_ulongcmp\<close> reads its keys as \<^verbatim>\<open>int\<close>s: two unsigned longs whose low halves agree are
  the same key for it, so inserting one replaces the other's entry.
\<close>

theorem avl_ulongcmp_low_half:
  assumes "(load_le 8 m p :: u64) AND 0xffffffff = load_le 8 m q AND 0xffffffff"
  shows "avl_ulongcmp m p q = 0"
proof -
  have low_half: "(0xffffffff :: u64) = mask 32" by (simp add: mask_eq_exp_minus_1)
  have "(load_le 4 m a :: u32) = ucast (load_le 8 m a :: u64)" for a
    by (rule bit_word_eqI) (simp add: bit_load_le bit_ucast_iff)
  moreover have "(ucast (load_le 8 m a :: u64) :: u32) = ucast (load_le 8 m a AND 0xffffffff :: u64)" for a
    by (rule bit_word_eqI) (auto simp: bit_simps low_half)
  ultimately show ?thesis using assms by (simp add: avl_ulongcmp_def)
qed

theorem avl_ulongcmp_low_half_witness:
  "avl_ulongcmp ((\<lambda>_. 0)(4 := 1)) 0 8 = 0 \<and> (load_le 8 ((\<lambda>_. 0)(4 := 1)) 0 :: u64) \<noteq> load_le 8 ((\<lambda>_. 0)(4 := 1)) 8"
  using avl_ulongcmp_low_half [of "(\<lambda>_. 0)(4 := 1)" 0 8]
  by (simp add: load_le_value upt_conv_Cons)

end
