(* ===== verification/Clib_Comm.thy ===== *)
theory Clib_Comm
  imports Clib_Mem
begin

text \<open>
  \<^verbatim>\<open>clib/comm.c\<close>: the channel that tasks and the scheduler exchange packets through, a ring
  of bytes inside one shared block.  \<open>cbytes\<close> is that block, addressed from the start of the
  structure; the header fields that occupy its first 56 bytes are the other fields of the
  record.  The caller's buffers are byte lists, so the \<^verbatim>\<open>data_size\<close> argument of a write is
  the length of its list, as a 64-bit number.
\<close>

record comm_t =
  total_length :: u64
  data_begin :: u64
  data_length :: u64
  flags :: u64
  ring_begin :: u64
  ring_end :: u64
  packet_count :: u64
  cbytes :: bytes

definition COMM_SIMPLE :: u64 where "COMM_SIMPLE = 0"
definition COMM_MULTI :: u64 where "COMM_MULTI = 1"
definition COMM_TYPE_MASK :: u64 where "COMM_TYPE_MASK = 1"

text \<open>\<^verbatim>\<open>offsetof(comm_t, simple.last)\<close>: six 64-bit header words and the packet counter.\<close>

definition comm_data_offset :: u64 where "comm_data_offset = 56"

text \<open>
  \<^verbatim>\<open>comm_init\<close>: \<^verbatim>\<open>None\<close> is the endless loop of the multi channel, which is not implemented.
\<close>

definition comm_init :: "comm_t \<Rightarrow> u64 \<Rightarrow> u64 \<Rightarrow> (comm_t \<times> int) option" where
  "comm_init cc len type =
     (let cc = cc\<lparr>total_length := len, flags := 0, ring_begin := 0, ring_end := 0\<rparr> in
      if type = COMM_SIMPLE then
        (let cc = cc\<lparr>packet_count := 0, flags := type, data_begin := comm_data_offset\<rparr>
         in Some (cc\<lparr>data_length := len - data_begin cc\<rparr>, 0))
      else if type = COMM_MULTI then None
      else Some (cc, 1))"

definition comm_remaining :: "comm_t \<Rightarrow> u64" where
  "comm_remaining cc =
     (if ring_begin cc \<le> ring_end cc
      then (let used = ring_end cc - ring_begin cc in data_length cc - used)
      else ring_begin cc - ring_end cc)"

text \<open>The \<^verbatim>\<open>mem_copy\<close> calls on the block, by what \<^verbatim>\<open>mem_copy\<close> promises.\<close>

definition ring_write :: "bytes \<Rightarrow> u64 \<Rightarrow> u8 list \<Rightarrow> bytes" where
  "ring_write m off xs = (\<lambda>x. if unat (x - off) < length xs then xs ! unat (x - off) else m x)"

definition ring_read :: "bytes \<Rightarrow> u64 \<Rightarrow> nat \<Rightarrow> u8 list" where
  "ring_read m off n = map (\<lambda>i. m (off + of_nat i)) [0..<n]"

definition comm_put_data :: "comm_t \<Rightarrow> u8 list \<Rightarrow> comm_t" where
  "comm_put_data cc data =
     (let data_size = of_nat (length data) :: u64;
          (cc, data, data_size) =
            (if ring_end cc + data_size \<ge> data_length cc then
               (let before_wrap = data_length cc - ring_end cc
                in (cc\<lparr>cbytes := ring_write (cbytes cc) (data_begin cc + ring_end cc)
                          (take (unat before_wrap) data), ring_end := 0\<rparr>,
                    drop (unat before_wrap) data, data_size - before_wrap))
             else (cc, data, data_size))
      in cc\<lparr>cbytes := ring_write (cbytes cc) (data_begin cc + ring_end cc) (take (unat data_size) data),
            ring_end := ring_end cc + data_size\<rparr>)"

text \<open>\<^verbatim>\<open>comm_get_data\<close>: the channel after it and the bytes put into the destination.\<close>

definition comm_get_data :: "comm_t \<Rightarrow> u64 \<Rightarrow> comm_t \<times> u8 list" where
  "comm_get_data cc data_size =
     (let (cc, got, data_size) =
        (if ring_begin cc + data_size \<ge> data_length cc then
           (let before_wrap = data_length cc - ring_begin cc
            in (cc\<lparr>ring_begin := 0\<rparr>,
                ring_read (cbytes cc) (data_begin cc + ring_begin cc) (unat before_wrap),
                data_size - before_wrap))
         else (cc, [], data_size))
      in (cc\<lparr>ring_begin := ring_begin cc + data_size\<rparr>,
          got @ ring_read (cbytes cc) (data_begin cc + ring_begin cc) (unat data_size)))"

definition comm_skip_data :: "comm_t \<Rightarrow> u64 \<Rightarrow> comm_t" where
  "comm_skip_data cc data_size =
     (let cc = (if ring_begin cc + data_size \<ge> data_length cc then cc\<lparr>ring_begin := 0\<rparr> else cc)
      in cc\<lparr>ring_begin := ring_begin cc + data_size\<rparr>)"

definition comm_put :: "comm_t \<Rightarrow> u8 list \<Rightarrow> comm_t \<times> int" where
  "comm_put cc data =
     (let data_size = of_nat (length data) :: u64; req_size = data_size + 4 in
      if comm_remaining cc < req_size then (cc, 1)
      else
        (let dsize = ucast data_size :: u32;
             cc = comm_put_data cc (le_bytes 4 dsize);
             cc = comm_put_data cc data
         in (cc\<lparr>packet_count := packet_count cc + 1\<rparr>, 0)))"

text \<open>
  \<^verbatim>\<open>comm_peek\<close>: the channel, the bytes delivered (none on failure), the new \<^verbatim>\<open>*data_size\<close>
  and the return value.
\<close>

definition comm_peek :: "comm_t \<Rightarrow> u64 \<Rightarrow> comm_t \<times> u8 list \<times> u64 \<times> int" where
  "comm_peek cc data_size =
     (if packet_count cc = 0 then (cc, [], data_size, 1)
      else
        (let cc = cc\<lparr>packet_count := packet_count cc - 1\<rparr>;
             (cc, hdr) = comm_get_data cc 4;
             dsize = ucast (le_value hdr :: u32) :: u64
         in if data_size < dsize then (comm_skip_data cc dsize, [], dsize, 1)
            else (let (cc, data) = comm_get_data cc dsize in (cc, data, dsize, 0))))"

text \<open>
  \<^verbatim>\<open>comm_read\<close> and \<^verbatim>\<open>comm_write\<close> of the scheduler (\<^verbatim>\<open>kernel/scheduler/comm.c\<close>): only simple
  channels are served.
\<close>

definition comm_read :: "comm_t \<Rightarrow> u64 \<Rightarrow> comm_t \<times> u8 list \<times> u64 \<times> int" where
  "comm_read cc data_size =
     (if flags cc AND COMM_TYPE_MASK = COMM_SIMPLE then comm_peek cc data_size
      else (cc, [], data_size, 1))"

definition comm_write :: "comm_t \<Rightarrow> u8 list \<Rightarrow> comm_t \<times> int" where
  "comm_write cc data =
     (if flags cc AND COMM_TYPE_MASK = COMM_SIMPLE then comm_put cc data else (cc, 1))"

section \<open>Cells of the ring\<close>

text \<open>Byte \<open>j\<close> of the ring, and \<open>n\<close> consecutive bytes from position \<open>b\<close>, wrapping.\<close>

abbreviation ring_len :: "comm_t \<Rightarrow> nat" where
  "ring_len cc \<equiv> unat (data_length cc)"

definition cell :: "comm_t \<Rightarrow> nat \<Rightarrow> u8" where
  "cell cc j = cbytes cc (data_begin cc + of_nat j)"

definition stream_at :: "comm_t \<Rightarrow> nat \<Rightarrow> nat \<Rightarrow> u8 list" where
  "stream_at cc b n = map (\<lambda>i. cell cc ((b + i) mod ring_len cc)) [0..<n]"

definition ring_ok :: "comm_t \<Rightarrow> bool" where
  "ring_ok cc \<longleftrightarrow> 0 < ring_len cc \<and> ring_len cc \<le> 2 ^ 32 \<and>
     unat (ring_begin cc) < ring_len cc \<and> unat (ring_end cc) < ring_len cc"

lemma ring_write_cell:
  assumes "j < 2 ^ 33" "e < 2 ^ 33" "length xs < 2 ^ 33"
  shows "ring_write m (d + of_nat e) xs (d + of_nat j) =
    (if e \<le> j \<and> j < e + length xs then xs ! (j - e) else m (d + of_nat j))"
proof -
  have "unat (d + of_nat j - (d + of_nat e) :: u64) = (if e \<le> j then j - e else 2 ^ 64 + j - e)"
    using assms by (auto simp: unat_sub_if' unat_of_nat)
  then show ?thesis using assms by (auto simp: ring_write_def)
qed

lemma ring_read_cells: "ring_read (cbytes cc) (data_begin cc + of_nat b) n = map (\<lambda>i. cell cc (b + i)) [0..<n]"
  by (simp add: ring_read_def cell_def add.assoc)

text \<open>The distance from position \<open>e\<close> forward to position \<open>j\<close> around a ring of length \<open>L\<close>.\<close>

definition ahead :: "nat \<Rightarrow> nat \<Rightarrow> nat \<Rightarrow> nat" where
  "ahead L e j = (if e \<le> j then j - e else j + L - e)"

lemma ahead_mod:
  assumes "0 < L" "s \<le> L" "i < L"
  shows "ahead L ((b + s) mod L) ((b + i) mod L) = (if s \<le> i \<and> s < L then i - s else if s = L then i else i + L - s)"
proof -
  define x y where "x = (b + s) mod L" and "y = (b + i) mod L"
  have less: "x < L" "y < L" using assms(1) by (simp_all add: x_def y_def)
  have "int (ahead L x y) = (int y - int x) mod int L"
  proof (cases "x \<le> y")
    case True
    then show ?thesis using less by (simp add: ahead_def of_nat_diff)
  next
    case False
    then have "(int y - int x) mod int L = (int y - int x + int L) mod int L" by simp
    also have "\<dots> = int y - int x + int L"
      using False less by (intro mod_pos_pos_trivial) linarith+
    finally show ?thesis using False less by (simp add: ahead_def of_nat_diff)
  qed
  also have "\<dots> = (int i - int s) mod int L"
    by (simp add: x_def y_def zmod_int mod_simps)
  also have "\<dots> = int (if s \<le> i \<and> s < L then i - s else if s = L then i else i + L - s)"
  proof (cases "s \<le> i")
    case True
    then show ?thesis using assms by (auto simp: of_nat_diff)
  next
    case False
    then have "(int i - int s) mod int L = (int i - int s + int L) mod int L" by simp
    also have "\<dots> = int i - int s + int L"
      using False assms by (intro mod_pos_pos_trivial) linarith+
    also have "\<dots> = (if s = L then int i else int i - int s + int L)" by simp
    finally show ?thesis using False assms by (auto simp: of_nat_diff)
  qed
  finally show ?thesis by (simp add: x_def y_def)
qed

lemma unat_plus_of_nat:
  "unat (a :: u64) + n < 2 ^ 64 \<Longrightarrow> unat (a + of_nat n) = unat a + n"
  by (simp add: unat_word_ariths unat_of_nat)

lemma put_data_wrap:
  assumes "ring_ok cc" "length xs < ring_len cc"
  shows "ring_end cc + of_nat (length xs) \<ge> data_length cc \<longleftrightarrow> ring_len cc \<le> unat (ring_end cc) + length xs"
    and "unat (data_length cc - ring_end cc) = ring_len cc - unat (ring_end cc)"
  using assms by (auto simp: ring_ok_def word_le_nat_alt unat_plus_of_nat unat_sub_if')

lemma put_data_props:
  assumes "ring_ok cc" "length xs < ring_len cc"
  shows "ring_end (comm_put_data cc xs) = of_nat ((unat (ring_end cc) + length xs) mod ring_len cc)"
    and "j < ring_len cc \<Longrightarrow> cell (comm_put_data cc xs) j =
       (if ahead (ring_len cc) (unat (ring_end cc)) j < length xs
        then xs ! ahead (ring_len cc) (unat (ring_end cc)) j else cell cc j)"
proof -
  let ?L = "ring_len cc" and ?e = "unat (ring_end cc)" and ?n = "length xs" and ?d = "data_begin cc"
  have bounds: "?e < ?L" "?L \<le> 2 ^ 32" using assms(1) by (auto simp: ring_ok_def)
  have re: "ring_end cc = of_nat ?e" by simp
  show "ring_end (comm_put_data cc xs) = of_nat ((?e + ?n) mod ?L)"
  proof (cases "?L \<le> ?e + ?n")
    case True
    then have "(?e + ?n) mod ?L = ?e + ?n - ?L" using assms(2) bounds by (simp add: mod_if)
    then show ?thesis using True put_data_wrap [OF assms]
      by (simp add: comm_put_data_def Let_def of_nat_diff algebra_simps)
  next
    case False
    then show ?thesis using put_data_wrap [OF assms] by (simp add: comm_put_data_def Let_def)
  qed
  assume j: "j < ?L"
  show "cell (comm_put_data cc xs) j = (if ahead ?L ?e j < ?n then xs ! ahead ?L ?e j else cell cc j)"
  proof (cases "?L \<le> ?e + ?n")
    case True
    have rest: "unat (of_nat ?n - (data_length cc - ring_end cc) :: u64) = ?n - (?L - ?e)"
      using True assms(2) bounds put_data_wrap(2) [OF assms] by (auto simp: unat_sub_if' unat_of_nat)
    have "cell (comm_put_data cc xs) j =
        ring_write (ring_write (cbytes cc) (?d + of_nat ?e) (take (?L - ?e) xs)) (?d + of_nat 0)
          (take (?n - (?L - ?e)) (drop (?L - ?e) xs)) (?d + of_nat j)"
      using True put_data_wrap [OF assms] rest by (simp add: comm_put_data_def cell_def Let_def)
    also have "\<dots> = (if j < ?n - (?L - ?e) then take (?n - (?L - ?e)) (drop (?L - ?e) xs) ! j
        else ring_write (cbytes cc) (?d + of_nat ?e) (take (?L - ?e) xs) (?d + of_nat j))"
      using True assms(2) j bounds by (subst ring_write_cell) auto
    also have "ring_write (cbytes cc) (?d + of_nat ?e) (take (?L - ?e) xs) (?d + of_nat j) =
        (if ?e \<le> j then take (?L - ?e) xs ! (j - ?e) else cell cc j)"
      using True assms(2) j bounds by (subst ring_write_cell) (auto simp: cell_def)
    finally show ?thesis
      using True assms(2) j bounds by (auto simp: ahead_def add.commute)
  next
    case False
    then have "cell (comm_put_data cc xs) j = ring_write (cbytes cc) (?d + of_nat ?e) xs (?d + of_nat j)"
      using put_data_wrap [OF assms] assms(2) bounds
      by (simp add: comm_put_data_def cell_def Let_def unat_of_nat)
    also have "\<dots> = (if ?e \<le> j \<and> j < ?e + ?n then xs ! (j - ?e) else cell cc j)"
      using assms(2) j bounds by (subst ring_write_cell) (auto simp: cell_def)
    finally show ?thesis using False assms(2) j bounds by (auto simp: ahead_def)
  qed
qed


lemma get_data_props:
  assumes "ring_ok cc" "n < ring_len cc"
  shows "comm_get_data cc (of_nat n) =
    (cc\<lparr>ring_begin := of_nat ((unat (ring_begin cc) + n) mod ring_len cc)\<rparr>,
     stream_at cc (unat (ring_begin cc)) n)"
proof -
  let ?L = "ring_len cc" and ?b = "unat (ring_begin cc)"
  have bounds: "?b < ?L" "?L \<le> 2 ^ 32" using assms(1) by (auto simp: ring_ok_def)
  have rb: "data_begin cc + ring_begin cc = data_begin cc + of_nat ?b" by simp
  have wrap: "ring_begin cc + of_nat n \<ge> data_length cc \<longleftrightarrow> ?L \<le> ?b + n"
    using bounds assms(2) by (simp add: word_le_nat_alt unat_plus_of_nat)
  have bw: "unat (data_length cc - ring_begin cc) = ?L - ?b" using bounds by (simp add: unat_sub_if')
  show ?thesis
  proof (cases "?L \<le> ?b + n")
    case True
    have rest: "of_nat n - (data_length cc - ring_begin cc) = (of_nat (n - (?L - ?b)) :: u64)"
      using True bounds by (simp add: of_nat_diff)
    have "unat (of_nat (n - (?L - ?b)) :: u64) = n - (?L - ?b)"
      using assms(2) bounds by (simp add: unat_of_nat)
    then have "comm_get_data cc (of_nat n) =
       (cc\<lparr>ring_begin := of_nat (n - (?L - ?b))\<rparr>,
        map (\<lambda>i. cell cc (?b + i)) [0..<?L - ?b] @ map (\<lambda>i. cell cc i) [0..<n - (?L - ?b)])"
      using True ring_read_cells [of cc ?b "?L - ?b"] ring_read_cells [of cc 0 "n - (?L - ?b)"]
      unfolding comm_get_data_def Let_def wrap rb by (simp add: bw rest)
    moreover have "?b + n = ?L + (n - (?L - ?b))" "n - (?L - ?b) < ?L"
      using True bounds assms(2) by auto
    then have "(?b + n) mod ?L = n - (?L - ?b)" by (metis mod_add_self1 mod_less)
    moreover have "stream_at cc ?b n =
        map (\<lambda>i. cell cc (?b + i)) [0..<?L - ?b] @ map (\<lambda>i. cell cc i) [0..<n - (?L - ?b)]"
      using True bounds assms(2)
      by (intro nth_equalityI) (auto simp: stream_at_def nth_append mod_if add.commute)
    ultimately show ?thesis by simp
  next
    case False
    have "unat (of_nat n :: u64) = n" using assms(2) bounds by (simp add: unat_of_nat)
    then have "comm_get_data cc (of_nat n) =
       (cc\<lparr>ring_begin := ring_begin cc + of_nat n\<rparr>, map (\<lambda>i. cell cc (?b + i)) [0..<n])"
      using False ring_read_cells [of cc ?b n] unfolding comm_get_data_def Let_def wrap rb by simp
    moreover have "stream_at cc ?b n = map (\<lambda>i. cell cc (?b + i)) [0..<n]"
      using False by (intro nth_equalityI) (auto simp: stream_at_def)
    ultimately show ?thesis using False by simp
  qed
qed

lemma put_data_frame [simp]:
  "data_length (comm_put_data cc xs) = data_length cc" "data_begin (comm_put_data cc xs) = data_begin cc"
  "ring_begin (comm_put_data cc xs) = ring_begin cc" "packet_count (comm_put_data cc xs) = packet_count cc"
  "flags (comm_put_data cc xs) = flags cc" "total_length (comm_put_data cc xs) = total_length cc"
  by (simp_all add: comm_put_data_def Let_def)

lemma cell_update [simp]:
  "cell (cc\<lparr>ring_begin := x\<rparr>) j = cell cc j" "cell (cc\<lparr>packet_count := y\<rparr>) j = cell cc j"
  by (simp_all add: cell_def)

lemma stream_at_update [simp]:
  "stream_at (cc\<lparr>ring_begin := x\<rparr>) = stream_at cc" "stream_at (cc\<lparr>packet_count := y\<rparr>) = stream_at cc"
  by (simp_all add: stream_at_def fun_eq_iff)

lemma length_stream_at [simp]: "length (stream_at cc b n) = n"
  by (simp add: stream_at_def)

lemma stream_at_add:
  "stream_at cc b (n + k) = stream_at cc b n @ stream_at cc ((b + n) mod ring_len cc) k"
  by (intro nth_equalityI) (auto simp: stream_at_def nth_append mod_simps add.assoc)

text \<open>Putting bytes appends them to the stream of stored bytes, as long as they fit.\<close>

lemma put_data_stream:
  assumes "ring_ok cc" "length xs < ring_len cc" "s + length xs \<le> ring_len cc"
    and "unat (ring_end cc) = (b + s) mod ring_len cc"
  shows "stream_at (comm_put_data cc xs) b (s + length xs) = stream_at cc b s @ xs"
proof (rule nth_equalityI)
  show "length (stream_at (comm_put_data cc xs) b (s + length xs)) = length (stream_at cc b s @ xs)"
    by simp
next
  fix i assume "i < length (stream_at (comm_put_data cc xs) b (s + length xs))"
  then have i: "i < s + length xs" by simp
  have L: "0 < ring_len cc" using assms(1) by (simp add: ring_ok_def)
  have "ahead (ring_len cc) (unat (ring_end cc)) ((b + i) mod ring_len cc) =
      (if s \<le> i \<and> s < ring_len cc then i - s else if s = ring_len cc then i else i + ring_len cc - s)"
    using i assms L by (simp add: ahead_mod)
  then show "stream_at (comm_put_data cc xs) b (s + length xs) ! i = (stream_at cc b s @ xs) ! i"
    using i assms L by (auto simp: stream_at_def put_data_props nth_append split: if_splits)
qed

section \<open>The queue of packets\<close>

text \<open>
  The abstract channel: a FIFO list of packets.  Each is stored as its 32-bit length followed
  by its bytes; \<open>comm_holds cc ps\<close> says that the ring stores exactly \<open>ps\<close>, with at least one
  byte unused, which is what keeps a full ring apart from an empty one.
\<close>

definition packet_bytes :: "u8 list \<Rightarrow> u8 list" where
  "packet_bytes p = le_bytes 4 (of_nat (length p) :: u32) @ p"

definition used_by :: "u8 list list \<Rightarrow> nat" where
  "used_by ps = length (concat (map packet_bytes ps))"

definition comm_holds :: "comm_t \<Rightarrow> u8 list list \<Rightarrow> bool" where
  "comm_holds cc ps \<longleftrightarrow>
     ring_ok cc \<and> packet_count cc = of_nat (length ps) \<and> length ps < 2 ^ 32 \<and>
     used_by ps < ring_len cc \<and>
     unat (ring_end cc) = (unat (ring_begin cc) + used_by ps) mod ring_len cc \<and>
     stream_at cc (unat (ring_begin cc)) (used_by ps) = concat (map packet_bytes ps)"

lemma length_packet_bytes [simp]: "length (packet_bytes p) = length p + 4"
  by (simp add: packet_bytes_def)

lemma used_by_simps [simp]:
  "used_by [] = 0" "used_by (p # ps) = length p + 4 + used_by ps"
  "used_by (ps @ qs) = used_by ps + used_by qs"
  by (simp_all add: used_by_def)

lemma used_by_count: "4 * length ps \<le> used_by ps"
  by (induction ps) auto

lemma comm_remaining_used:
  assumes "comm_holds cc ps"
  shows "unat (comm_remaining cc) = ring_len cc - used_by ps"
proof -
  let ?L = "ring_len cc" and ?b = "unat (ring_begin cc)" and ?e = "unat (ring_end cc)"
  have u: "used_by ps < ?L" "?b < ?L" "?e = (?b + used_by ps) mod ?L"
    using assms by (auto simp: comm_holds_def ring_ok_def)
  show ?thesis
  proof (cases "?b + used_by ps < ?L")
    case True
    then show ?thesis using u by (simp add: comm_remaining_def word_le_nat_alt unat_sub_if')
  next
    case False
    then have "?e = ?b + used_by ps - ?L" using u by (simp add: mod_if)
    then show ?thesis using u False
      by (auto simp: comm_remaining_def word_le_nat_alt unat_sub_if')
  qed
qed

lemma ucast_length: "(ucast (of_nat n :: u64) :: u32) = of_nat n"
  by (simp add: word_eq_unat unsigned_ucast_eq unat_of_nat take_bit_eq_mod mod_mod_cancel)

lemma ring_end_put:
  assumes "ring_ok cc" "length xs < ring_len cc"
  shows "unat (ring_end (comm_put_data cc xs)) = (unat (ring_end cc) + length xs) mod ring_len cc"
proof -
  have "0 < ring_len cc" "ring_len cc \<le> 2 ^ 32" using assms(1) by (auto simp: ring_ok_def)
  then have "(unat (ring_end cc) + length xs) mod ring_len cc < 2 ^ 32"
    using mod_less_divisor [of "ring_len cc"] by (meson order_less_le_trans)
  then show ?thesis using assms by (simp add: put_data_props unat_of_nat)
qed

lemma ring_ok_put: "ring_ok cc \<Longrightarrow> length xs < ring_len cc \<Longrightarrow> ring_ok (comm_put_data cc xs)"
  by (simp add: ring_ok_def [of "comm_put_data cc xs"] ring_end_put) (simp add: ring_ok_def)

text \<open>
  The two calls that store a packet, as long as it fits; the rest of the header is untouched.
\<close>

lemma put_packet_stream:
  assumes ok: "ring_ok cc" and fits: "s + length p + 4 \<le> ring_len cc"
    and start: "unat (ring_end cc) = (b + s) mod ring_len cc" and room: "length p + 4 < ring_len cc"
  defines "cc' \<equiv> comm_put_data (comm_put_data cc (le_bytes 4 (of_nat (length p) :: u32))) p"
  shows "stream_at cc' b (s + (length p + 4)) = stream_at cc b s @ packet_bytes p"
    and "ring_ok cc'" and "unat (ring_end cc') = (b + s + (length p + 4)) mod ring_len cc"
proof -
  let ?h = "le_bytes 4 (of_nat (length p) :: u32)"
  let ?c = "comm_put_data cc ?h"
  have h: "length ?h = 4" by simp
  have ok1: "ring_ok ?c" using ring_ok_put [OF ok, of ?h] room by simp
  have e1: "unat (ring_end ?c) = (b + (s + 4)) mod ring_len cc"
    using ring_end_put [OF ok, of ?h] room start by (simp add: mod_simps add.assoc)
  have s1: "stream_at ?c b (s + 4) = stream_at cc b s @ ?h"
    using put_data_stream [OF ok _ _ start, of ?h] room fits by simp
  show "ring_ok cc'" unfolding cc'_def using ring_ok_put [OF ok1, of p] room by simp
  show "unat (ring_end cc') = (b + s + (length p + 4)) mod ring_len cc"
    using ring_end_put [OF ok1, of p] room e1 by (simp add: cc'_def mod_simps algebra_simps)
  show "stream_at cc' b (s + (length p + 4)) = stream_at cc b s @ packet_bytes p"
    using put_data_stream [OF ok1, of p "s + 4" b] room fits e1 s1
    by (simp add: cc'_def packet_bytes_def algebra_simps)
qed

lemma put_taken:
  assumes "comm_holds cc ps" "used_by ps + (length p + 4) \<le> ring_len cc" "length p + 4 < ring_len cc"
  shows "comm_put cc p =
    ((comm_put_data (comm_put_data cc (le_bytes 4 (of_nat (length p) :: u32))) p)
      \<lparr>packet_count := packet_count cc + 1\<rparr>, 0)"
proof -
  have "ring_len cc \<le> 2 ^ 32" using assms(1) by (simp add: comm_holds_def ring_ok_def)
  then have "unat (of_nat (length p) + 4 :: u64) = length p + 4"
    using assms(3) by (simp add: unat_word_ariths unat_of_nat)
  then have "\<not> comm_remaining cc < of_nat (length p) + 4"
    using assms comm_remaining_used [OF assms(1)] by (simp add: word_less_nat_alt)
  then show ?thesis by (simp add: comm_put_def Let_def ucast_length)
qed

lemma put_holds:
  assumes "comm_holds cc ps" "used_by ps + (length p + 4) < ring_len cc"
  shows "snd (comm_put cc p) = 0 \<and> comm_holds (fst (comm_put cc p)) (ps @ [p])"
proof -
  let ?cc = "comm_put_data (comm_put_data cc (le_bytes 4 (of_nat (length p) :: u32))) p"
  have ok: "ring_ok cc" "ring_len cc \<le> 2 ^ 32" using assms(1) by (auto simp: comm_holds_def ring_ok_def)
  have e: "unat (ring_end cc) = (unat (ring_begin cc) + used_by ps) mod ring_len cc"
    using assms(1) by (simp add: comm_holds_def)
  note P = put_packet_stream [OF ok(1) _ e, of p]
  have "4 * length (ps @ [p]) \<le> used_by (ps @ [p])" by (rule used_by_count)
  then have "length ps + 1 < 2 ^ 32" using assms(2) ok(2) by simp
  moreover have "stream_at ?cc (unat (ring_begin cc)) (used_by ps + (length p + 4)) =
      concat (map packet_bytes (ps @ [p]))"
    using P(1) assms by (simp add: comm_holds_def)
  ultimately show ?thesis
    using put_taken [OF assms(1), of p] P(2,3) assms
    by (simp add: comm_holds_def ring_ok_def add.assoc)
qed

lemma put_refused:
  assumes "comm_holds cc ps" "ring_len cc < used_by ps + (length p + 4)" "length p + 4 < 2 ^ 64"
  shows "comm_put cc p = (cc, 1)"
proof -
  have "used_by ps < ring_len cc" using assms(1) by (simp add: comm_holds_def)
  moreover have "unat (of_nat (length p) + 4 :: u64) = length p + 4"
    using assms(3) by (simp add: unat_word_ariths unat_of_nat)
  ultimately show ?thesis using assms comm_remaining_used [OF assms(1)]
    by (simp add: comm_put_def word_less_nat_alt Let_def)
qed

text \<open>Reading bytes consumes a prefix of the stream.\<close>

lemma get_data_stream:
  assumes "ring_ok cc" "n < ring_len cc" "n \<le> s"
  shows "comm_get_data cc (of_nat n) =
      (cc\<lparr>ring_begin := of_nat ((unat (ring_begin cc) + n) mod ring_len cc)\<rparr>,
       take n (stream_at cc (unat (ring_begin cc)) s))"
proof -
  obtain k where "s = n + k" using assms(3) le_Suc_ex by blast
  then show ?thesis using get_data_props [OF assms(1,2)] by (simp add: stream_at_add)
qed

lemma ring_ok_begin:
  assumes "ring_ok cc"
  shows "ring_ok (cc\<lparr>ring_begin := of_nat (x mod ring_len cc)\<rparr>)"
    and "unat (of_nat (x mod ring_len cc) :: u64) = x mod ring_len cc"
proof -
  have "0 < ring_len cc" "ring_len cc \<le> 2 ^ 32" using assms by (auto simp: ring_ok_def)
  then have less: "x mod ring_len cc < ring_len cc" by simp
  then have "x mod ring_len cc < 2 ^ 64" using \<open>ring_len cc \<le> 2 ^ 32\<close> by simp
  then show "unat (of_nat (x mod ring_len cc) :: u64) = x mod ring_len cc"
    "ring_ok (cc\<lparr>ring_begin := of_nat (x mod ring_len cc)\<rparr>)"
    using assms less by (simp_all add: ring_ok_def unat_of_nat)
qed


lemma drop_packet_stream:
  assumes "stream_at cc b s = xs @ ys" "length xs = n"
  shows "stream_at cc ((b + n) mod ring_len cc) (s - n) = ys"
proof -
  have "length (stream_at cc b s) = n + length ys" using assms by simp
  then have "s = n + (s - n)" by simp
  then have "stream_at cc b n @ stream_at cc ((b + n) mod ring_len cc) (s - n) = xs @ ys"
    using assms(1) stream_at_add [of cc b n "s - n"] by simp
  then show ?thesis using assms(2) by simp
qed

text \<open>
  What both calls of \<^verbatim>\<open>comm_peek\<close> see: the header of the oldest packet, then its bytes.
\<close>

lemma peek_header:
  assumes "comm_holds cc (p # ps)"
  defines "cc1 \<equiv> cc\<lparr>packet_count := of_nat (length ps), ring_begin := of_nat ((unat (ring_begin cc) + 4) mod ring_len cc)\<rparr>"
  shows "comm_peek cc ds =
    (if ds < of_nat (length p) then (comm_skip_data cc1 (of_nat (length p)), [], of_nat (length p), 1)
     else (let (cc, data) = comm_get_data cc1 (of_nat (length p)) in (cc, data, of_nat (length p), 0)))"
    and "ring_ok cc1" and "unat (ring_begin cc1) = (unat (ring_begin cc) + 4) mod ring_len cc"
    and "stream_at cc1 (unat (ring_begin cc1)) (length p + used_by ps) = p @ concat (map packet_bytes ps)"
proof -
  have H: "ring_ok cc" "packet_count cc = of_nat (length (p # ps))" "length (p # ps) < 2 ^ 32"
      "used_by (p # ps) < ring_len cc" "ring_len cc \<le> 2 ^ 32"
      "stream_at cc (unat (ring_begin cc)) (used_by (p # ps)) = concat (map packet_bytes (p # ps))"
    using assms(1) by (auto simp: comm_holds_def ring_ok_def)
  show "ring_ok cc1" using ring_ok_begin(1) [OF H(1), of "unat (ring_begin cc) + 4"] H(1)
    by (simp add: cc1_def ring_ok_def)
  show b1: "unat (ring_begin cc1) = (unat (ring_begin cc) + 4) mod ring_len cc"
    using ring_ok_begin(2) [OF H(1)] by (simp add: cc1_def)
  have hdr: "comm_get_data (cc\<lparr>packet_count := of_nat (length ps)\<rparr>) 4 = (cc1, le_bytes 4 (of_nat (length p) :: u32))"
    using get_data_stream [of "cc\<lparr>packet_count := of_nat (length ps)\<rparr>" 4 "used_by (p # ps)"] H
    by (simp add: cc1_def ring_ok_def packet_bytes_def)
  have "length p < 2 ^ 32" using H by simp
  then have len: "(ucast (of_nat (length p) :: u32) :: u64) = of_nat (length p)"
    by (simp add: word_eq_unat unsigned_ucast_eq unat_of_nat take_bit_eq_mod)
  have "unat (packet_count cc) = length (p # ps)" using H(2,3) unfolding H(2) by (simp only: unat_of_nat) simp
  then have "packet_count cc \<noteq> 0" by auto
  then show "comm_peek cc ds =
    (if ds < of_nat (length p) then (comm_skip_data cc1 (of_nat (length p)), [], of_nat (length p), 1)
     else (let (cc, data) = comm_get_data cc1 (of_nat (length p)) in (cc, data, of_nat (length p), 0)))"
    using hdr H(2) len by (simp add: comm_peek_def Let_def le_value_bytes)
  show "stream_at cc1 (unat (ring_begin cc1)) (length p + used_by ps) = p @ concat (map packet_bytes ps)"
    using drop_packet_stream [of cc "unat (ring_begin cc)" "used_by (p # ps)"
        "le_bytes 4 (of_nat (length p) :: u32)" "p @ concat (map packet_bytes ps)" 4] H(6) b1
    by (simp add: packet_bytes_def cc1_def)
qed


lemma peek_empty:
  assumes "comm_holds cc []"
  shows "comm_peek cc ds = (cc, [], ds, 1)"
  using assms by (simp add: comm_peek_def comm_holds_def)

lemma peek_holds:
  assumes "comm_holds cc (p # ps)" "length p \<le> unat ds"
  shows "\<exists>cc'. comm_peek cc ds = (cc', p, of_nat (length p), 0) \<and> comm_holds cc' ps
    \<and> data_length cc' = data_length cc"
proof -
  let ?cc1 = "cc\<lparr>packet_count := of_nat (length ps), ring_begin := of_nat ((unat (ring_begin cc) + 4) mod ring_len cc)\<rparr>"
  let ?b1 = "unat (ring_begin ?cc1)"
  let ?cc2 = "?cc1\<lparr>ring_begin := of_nat ((?b1 + length p) mod ring_len cc)\<rparr>"
  note P = peek_header [OF assms(1)]
  have H: "used_by (p # ps) < ring_len cc" "length (p # ps) < 2 ^ 32"
    "unat (ring_end cc) = (unat (ring_begin cc) + used_by (p # ps)) mod ring_len cc"
    "ring_ok cc" "ring_len cc \<le> 2 ^ 32"
    using assms(1) by (auto simp: comm_holds_def ring_ok_def)
  have "\<not> ds < of_nat (length p)" using assms(2) H by (simp add: word_less_nat_alt unat_of_nat)
  moreover have "comm_get_data ?cc1 (of_nat (length p)) = (?cc2, p)"
    using get_data_stream [OF P(2), of "length p" "length p + used_by ps"] P(4) H(1) by simp
  ultimately have "comm_peek cc ds = (?cc2, p, of_nat (length p), 0)" using P(1) by simp
  moreover have b2: "unat (ring_begin ?cc2) = (?b1 + length p) mod ring_len cc"
    using ring_ok_begin(2) [OF H(4)] by simp
  moreover have "comm_holds ?cc2 ps"
    unfolding comm_holds_def
  proof (intro conjI)
    show "ring_ok ?cc2" using ring_ok_begin(1) [OF P(2), of "?b1 + length p"] by (simp add: ring_ok_def)
    show "unat (ring_end ?cc2) = (unat (ring_begin ?cc2) + used_by ps) mod ring_len ?cc2"
      using b2 P(3) H(3) by (simp add: mod_simps algebra_simps)
    show "stream_at ?cc2 (unat (ring_begin ?cc2)) (used_by ps) = concat (map packet_bytes ps)"
      using drop_packet_stream [OF P(4), of "length p"] b2 by simp
  qed (use H in auto)
  ultimately show ?thesis by auto
qed

text \<open>
  A packet that does not fit into the caller's buffer is dropped and its length reported, but
  the ring is left in order only when the packet's bytes do not reach the end of the block.
\<close>

lemma peek_short_holds:
  assumes "comm_holds cc (p # ps)" "unat ds < length p"
    and "(unat (ring_begin cc) + 4) mod ring_len cc + length p < ring_len cc"
  shows "\<exists>cc'. comm_peek cc ds = (cc', [], of_nat (length p), 1) \<and> comm_holds cc' ps"
proof -
  let ?b1 = "(unat (ring_begin cc) + 4) mod ring_len cc"
  let ?cc1 = "cc\<lparr>packet_count := of_nat (length ps), ring_begin := of_nat ?b1\<rparr>"
  let ?cc2 = "?cc1\<lparr>ring_begin := of_nat (?b1 + length p)\<rparr>"
  note P = peek_header [OF assms(1)]
  have H: "used_by (p # ps) < ring_len cc" "length (p # ps) < 2 ^ 32"
    "unat (ring_end cc) = (unat (ring_begin cc) + used_by (p # ps)) mod ring_len cc"
    "ring_ok cc" "ring_len cc \<le> 2 ^ 32"
    using assms(1) by (auto simp: comm_holds_def ring_ok_def)
  have n: "unat (of_nat (?b1 + length p) :: u64) = ?b1 + length p"
    using assms(3) H(5) by (simp add: unat_of_nat del: of_nat_add)
  then have "\<not> data_length cc \<le> of_nat ?b1 + of_nat (length p)"
    using assms(3) by (simp add: word_le_nat_alt)
  then have "comm_skip_data ?cc1 (of_nat (length p)) = ?cc2"
    by (simp add: comm_skip_data_def Let_def)
  moreover have "ds < of_nat (length p)" using assms(2) H by (simp add: word_less_nat_alt unat_of_nat)
  ultimately have "comm_peek cc ds = (?cc2, [], of_nat (length p), 1)" using P(1) by simp
  moreover have "comm_holds ?cc2 ps"
    unfolding comm_holds_def
  proof (intro conjI)
    show "ring_ok ?cc2" using H(4) n assms(3) by (simp add: ring_ok_def)
    have "(?b1 + (length p + used_by ps)) mod ring_len cc =
        (unat (ring_begin cc) + 4 + (length p + used_by ps)) mod ring_len cc"
      by (rule mod_add_left_eq)
    also have "\<dots> = unat (ring_end cc)" using H(3) by (simp add: ac_simps)
    finally show "unat (ring_end ?cc2) = (unat (ring_begin ?cc2) + used_by ps) mod ring_len ?cc2"
      using n by (simp add: add.assoc)
    show "stream_at ?cc2 (unat (ring_begin ?cc2)) (used_by ps) = concat (map packet_bytes ps)"
      using drop_packet_stream [OF P(4), of "length p"] P(3) n assms(3) by simp
  qed (use H in auto)
  ultimately show ?thesis by auto
qed


section \<open>The channel as a queue\<close>

text \<open>
  What a channel promises to its two sides.  \<open>holds s q\<close> says that the state \<open>s\<close> stores the
  messages \<open>q\<close>, oldest first, \<open>weight\<close> is the room a message takes, \<open>capacity\<close> the room there
  is, and \<open>short\<close> says that the receiver's buffer takes a message.
\<close>

datatype 'm channel_op = Send 'm | Receive

fun channel_run ::
  "('s \<Rightarrow> 'm \<Rightarrow> 's \<times> int) \<Rightarrow> ('s \<Rightarrow> 's \<times> 'm option) \<Rightarrow> 's \<Rightarrow> 'm channel_op list \<Rightarrow> 's \<times> 'm option list" where
  "channel_run put get s [] = (s, [])"
| "channel_run put get s (Send m # ops) = channel_run put get (fst (put s m)) ops"
| "channel_run put get s (Receive # ops) =
     (case get s of (s, r) \<Rightarrow> (case channel_run put get s ops of (s, rs) \<Rightarrow> (s, r # rs)))"

text \<open>The queue the two sides may rely on: what is left in it, and what was received.\<close>

fun queue_run :: "'m list \<Rightarrow> 'm channel_op list \<Rightarrow> 'm list \<times> 'm option list" where
  "queue_run q [] = (q, [])"
| "queue_run q (Send m # ops) = queue_run (q @ [m]) ops"
| "queue_run [] (Receive # ops) = (case queue_run [] ops of (q, rs) \<Rightarrow> (q, None # rs))"
| "queue_run (m # q) (Receive # ops) = (case queue_run q ops of (q, rs) \<Rightarrow> (q, Some m # rs))"

text \<open>The messages waiting never fill the channel, and each fits the receiver's buffer.\<close>

fun queue_fits :: "('m \<Rightarrow> nat) \<Rightarrow> ('m \<Rightarrow> bool) \<Rightarrow> nat \<Rightarrow> 'm list \<Rightarrow> 'm channel_op list \<Rightarrow> bool" where
  "queue_fits weight short n q [] = True"
| "queue_fits weight short n q (Send m # ops) \<longleftrightarrow>
     short m \<and> sum_list (map weight (q @ [m])) < n \<and> queue_fits weight short n (q @ [m]) ops"
| "queue_fits weight short n q (Receive # ops) \<longleftrightarrow> queue_fits weight short n (tl q) ops"

locale packet_channel =
  fixes holds :: "'s \<Rightarrow> 'm list \<Rightarrow> bool"
    and put :: "'s \<Rightarrow> 'm \<Rightarrow> 's \<times> int"
    and get :: "'s \<Rightarrow> 's \<times> 'm option"
    and weight :: "'m \<Rightarrow> nat"
    and capacity :: "'s \<Rightarrow> nat"
    and short :: "'m \<Rightarrow> bool"
  assumes put_ok: "holds s q \<Longrightarrow> sum_list (map weight (q @ [m])) < capacity s \<Longrightarrow>
      snd (put s m) = 0 \<and> holds (fst (put s m)) (q @ [m]) \<and> capacity (fst (put s m)) = capacity s"
    and get_ok: "holds s (m # q) \<Longrightarrow> short m \<Longrightarrow>
      \<exists>s'. get s = (s', Some m) \<and> holds s' q \<and> capacity s' = capacity s"
    and get_empty: "holds s [] \<Longrightarrow> get s = (s, None)"
begin

lemma run_queue:
  assumes "holds s q" "\<forall>m \<in> set q. short m" "queue_fits weight short (capacity s) q ops"
  shows "snd (channel_run put get s ops) = snd (queue_run q ops) \<and>
    holds (fst (channel_run put get s ops)) (fst (queue_run q ops))"
  using assms
proof (induction q ops arbitrary: s rule: queue_run.induct)
  case (2 q m ops)
  then show ?case using put_ok [of s q m] by auto
next
  case (3 ops)
  show ?case using 3(1) [of s] 3(2-) get_empty [of s] by (auto split: prod.split)
next
  case (4 m q ops)
  then obtain s' where "get s = (s', Some m)" "holds s' q" "capacity s' = capacity s"
    using get_ok [of s m q] by auto
  then show ?case using 4(1) [of s'] 4(3,4) by (auto split: prod.split)
qed simp

text \<open>Whatever is sent comes out in the order it went in.\<close>

lemma queue_fits_sends:
  "(\<forall>m \<in> set ms. short m) \<Longrightarrow> sum_list (map weight (q @ ms)) < n \<Longrightarrow>
   queue_fits weight short n q (map Send ms @ replicate k Receive)"
proof (induction ms arbitrary: q)
  case Nil
  have "queue_fits weight short n q (replicate k Receive)" by (induction k arbitrary: q) auto
  then show ?case by simp
qed simp

lemma queue_run_sends: "queue_run q (map Send ms @ ops) = queue_run (q @ ms) ops"
  by (induction ms arbitrary: q) auto

lemma queue_run_receives: "queue_run q (replicate (length q) Receive) = ([], map Some q)"
  by (induction q) auto

lemma sent_received:
  assumes "holds s []" "\<forall>m \<in> set ms. short m" "sum_list (map weight ms) < capacity s"
  shows "snd (channel_run put get s (map Send ms @ replicate (length ms) Receive)) = map Some ms"
  using run_queue [OF assms(1) _ queue_fits_sends [of ms "[]"]] assms(2,3)
  by (simp add: queue_run_sends queue_run_receives)

end

text \<open>A receiver with a buffer of \<open>n\<close> bytes.\<close>

definition comm_take :: "u64 \<Rightarrow> comm_t \<Rightarrow> comm_t \<times> u8 list option" where
  "comm_take n cc = (case comm_peek cc n of (cc, p, _, r) \<Rightarrow> (cc, if r = 0 then Some p else None))"

lemma sum_list_used: "sum_list (map (\<lambda>p. length p + 4) ps) = used_by ps"
  by (induction ps) auto

lemma data_length_put: "data_length (fst (comm_put cc p)) = data_length cc"
  by (simp add: comm_put_def Let_def)

interpretation ring: packet_channel comm_holds comm_put "comm_take n" "\<lambda>p. length p + 4" ring_len "\<lambda>p. length p \<le> unat n"
  for n
proof unfold_locales
  fix cc q m
  assume "comm_holds cc q" "sum_list (map (\<lambda>p. length p + 4) (q @ [m])) < ring_len cc"
  then show "snd (comm_put cc m) = 0 \<and> comm_holds (fst (comm_put cc m)) (q @ [m]) \<and>
      ring_len (fst (comm_put cc m)) = ring_len cc"
    using put_holds [of cc q m] by (simp add: sum_list_used data_length_put)
next
  fix cc m q
  assume "comm_holds cc (m # q)" "length m \<le> unat n"
  then show "\<exists>cc'. comm_take n cc = (cc', Some m) \<and> comm_holds cc' q \<and> ring_len cc' = ring_len cc"
    using peek_holds [of cc m q n] by (auto simp: comm_take_def)
qed (simp add: comm_take_def peek_empty)

text \<open>A channel just made by \<^verbatim>\<open>comm_init\<close> is empty.\<close>

lemma init_holds:
  assumes "56 < unat len" "unat len \<le> 2 ^ 32" "comm_init cc len COMM_SIMPLE = Some (cc', r)"
  shows "r = 0 \<and> comm_holds cc' [] \<and> ring_len cc' = unat len - 56"
  using assms
  by (auto simp: comm_init_def comm_data_offset_def comm_holds_def ring_ok_def stream_at_def
      word_le_nat_alt unat_sub Let_def)


section \<open>Properties\<close>

text \<open>A small channel to evaluate on: \<open>8 + n\<close> bytes of ring after the 56 bytes of header.\<close>

definition small_comm :: comm_t where
  "small_comm = \<lparr>total_length = 0, data_begin = 0, data_length = 0, flags = 0, ring_begin = 0,
     ring_end = 0, packet_count = 0, cbytes = (\<lambda>_. 0)\<rparr>"

lemma small_comm_init:
  "comm_init small_comm 72 COMM_SIMPLE = Some (small_comm\<lparr>total_length := 72, data_begin := 56, data_length := 16\<rparr>, 0)"
  by (simp add: comm_init_def comm_data_offset_def small_comm_def COMM_SIMPLE_def)

lemma small_comm_holds:
  "comm_holds (small_comm\<lparr>total_length := 72, data_begin := 56, data_length := 16\<rparr>) []"
  using init_holds [of 72 small_comm] by (simp add: small_comm_init)

text \<open>
  C4: a channel set up by \<^verbatim>\<open>comm_init\<close> is a FIFO queue of packets: for every sequence of
  \<^verbatim>\<open>comm_put\<close> and \<^verbatim>\<open>comm_peek\<close> calls in which the packets waiting, with 4 bytes of header
  each, stay below the ring's size and fit the receiver's buffer of \<open>n\<close> bytes, the receiver
  gets exactly what a list queue would deliver, and an empty queue delivers nothing.
\<close>

theorem channel_fifo:
  assumes "56 < unat len" "unat len \<le> 2 ^ 32" "comm_init cc len COMM_SIMPLE = Some (cc', r)"
    and "queue_fits (\<lambda>p. length p + 4) (\<lambda>p. length p \<le> unat n) (unat len - 56) [] ops"
  shows "snd (channel_run comm_put (comm_take n) cc' ops) = snd (queue_run [] ops)"
  using ring.run_queue [of cc' "[]" n ops] init_holds [OF assms(1-3)] assms(4) by simp

theorem channel_fifo_witness:
  "snd (channel_run comm_put (comm_take 8)
      (small_comm\<lparr>total_length := 72, data_begin := 56, data_length := 16\<rparr>)
      [Send [1, 2, 3], Send [4], Receive, Send [5, 6], Receive, Receive, Receive]) =
    [Some [1, 2, 3], Some [4], Some [5, 6], None]"
  using channel_fifo [OF _ _ small_comm_init, of 8
      "[Send [1, 2, 3], Send [4], Receive, Send [5, 6], Receive, Receive, Receive]"]
  by simp

text \<open>
  \<^verbatim>\<open>comm_put\<close> refuses a packet that does not fit and changes nothing, and it takes one
  that leaves a byte unused, appending it to the packets held.
\<close>

theorem comm_put_cases:
  assumes "comm_holds cc ps" "length p + 4 < 2 ^ 64" "used_by ps + (length p + 4) \<noteq> ring_len cc"
  shows "if used_by ps + (length p + 4) < ring_len cc
    then snd (comm_put cc p) = 0 \<and> comm_holds (fst (comm_put cc p)) (ps @ [p])
    else comm_put cc p = (cc, 1)"
  using put_holds [OF assms(1), of p] put_refused [OF assms(1) _ assms(2)] assms(3) by auto

theorem comm_put_cases_witness:
  "comm_put (small_comm\<lparr>total_length := 72, data_begin := 56, data_length := 16\<rparr>) (replicate 13 7) =
    (small_comm\<lparr>total_length := 72, data_begin := 56, data_length := 16\<rparr>, 1)"
  using comm_put_cases [OF small_comm_holds, of "replicate 13 7"] by simp

text \<open>
  a packet that exactly fills the ring is accepted, but then \<^verbatim>\<open>ring_begin\<close> and
  \<^verbatim>\<open>ring_end\<close> meet and the full ring is taken for an empty one: all of it counts as free, so
  the next packet of any size up to the ring's is accepted too and overwrites what is waiting.
\<close>

theorem comm_put_exact_fill:
  assumes "comm_holds cc ps" "used_by ps + (length p + 4) = ring_len cc" "ps \<noteq> []"
  shows "snd (comm_put cc p) = 0 \<and> comm_remaining (fst (comm_put cc p)) = data_length cc \<and>
    (\<forall>q. length q + 4 \<le> ring_len cc \<longrightarrow> snd (comm_put (fst (comm_put cc p)) q) = 0)"
proof -
  let ?cc = "comm_put_data (comm_put_data cc (le_bytes 4 (of_nat (length p) :: u32))) p"
  have "0 < used_by ps" using assms(3) by (cases ps) auto
  then have room: "length p + 4 < ring_len cc" using assms(2) by simp
  have ok: "ring_ok cc" "ring_len cc \<le> 2 ^ 32" "unat (ring_begin cc) < ring_len cc"
    using assms(1) by (auto simp: comm_holds_def ring_ok_def)
  have e: "unat (ring_end cc) = (unat (ring_begin cc) + used_by ps) mod ring_len cc"
    using assms(1) by (simp add: comm_holds_def)
  have put: "comm_put cc p = (?cc\<lparr>packet_count := packet_count cc + 1\<rparr>, 0)"
    using put_taken [OF assms(1) _ room] assms(2) by simp
  have "ring_end ?cc = ring_begin cc"
    using put_packet_stream(3) [OF ok(1) _ e room] assms(2) ok(3) by (simp add: word_eq_unat add.assoc)
  then have rem: "comm_remaining (fst (comm_put cc p)) = data_length cc"
    by (simp add: put comm_remaining_def)
  moreover have "snd (comm_put (fst (comm_put cc p)) q) = 0" if "length q + 4 \<le> ring_len cc" for q
  proof -
    have "unat (of_nat (length q) + 4 :: u64) = length q + 4"
      using that ok(2) by (simp add: unat_word_ariths unat_of_nat)
    then have "\<not> data_length cc < of_nat (length q) + 4" using that by (simp add: word_less_nat_alt)
    then show ?thesis using rem by (simp add: comm_put_def [of _ q] Let_def)
  qed
  ultimately show ?thesis by (simp add: put)
qed

lemma small_comm_one:
  "comm_holds (fst (comm_put (small_comm\<lparr>total_length := 72, data_begin := 56, data_length := 16\<rparr>) [1, 2, 3, 4])) [[1, 2, 3, 4]]"
  using put_holds [OF small_comm_holds, of "[1, 2, 3, 4]"] by simp

theorem comm_put_exact_fill_witness:
  "\<exists>cc. comm_holds cc [[1, 2, 3, 4]] \<and> snd (comm_put cc [5, 6, 7, 8]) = 0 \<and>
    comm_remaining (fst (comm_put cc [5, 6, 7, 8])) = 16"
  using comm_put_exact_fill [OF small_comm_one, of "[5, 6, 7, 8]"] small_comm_one
  by (auto simp: data_length_put small_comm_def)

text \<open>
  a packet too long for the receiver's buffer is dropped and its length reported, but
  \<^verbatim>\<open>comm_skip_data\<close> loses its place when the packet reaches the end of the block: the ring
  continues \<open>length p\<close> bytes from its start, not where the dropped packet ends.
\<close>

theorem comm_peek_short:
  assumes "comm_holds cc (p # ps)" "unat ds < length p"
  defines "b1 \<equiv> (unat (ring_begin cc) + 4) mod ring_len cc"
  shows "snd (comm_peek cc ds) = ([], of_nat (length p), 1) \<and>
    unat (ring_begin (fst (comm_peek cc ds))) =
      (if b1 + length p < ring_len cc then b1 + length p else length p) \<and>
    (b1 + length p < ring_len cc \<longrightarrow> comm_holds (fst (comm_peek cc ds)) ps)"
proof -
  note P = peek_header(1) [OF assms(1), of ds]
  have H: "ring_len cc \<le> 2 ^ 32" "length p < ring_len cc" "ring_ok cc"
    using assms(1) by (auto simp: comm_holds_def ring_ok_def)
  have ds: "ds < of_nat (length p)" using assms(2) H by (simp add: word_less_nat_alt unat_of_nat)
  have b1: "b1 < ring_len cc" using H(3) by (simp add: b1_def ring_ok_def)
  have n: "unat (of_nat b1 + of_nat (length p) :: u64) = b1 + length p"
    "unat (of_nat (length p) :: u64) = length p"
    using b1 H by (simp_all add: unat_word_ariths unat_of_nat)
  have "b1 + length p < ring_len cc \<Longrightarrow> comm_holds (fst (comm_peek cc ds)) ps"
    using peek_short_holds [OF assms(1,2)] by (auto simp: b1_def)
  then show ?thesis
    using P ds n by (auto simp: comm_skip_data_def word_le_nat_alt b1_def Let_def)
qed

theorem comm_peek_short_witness:
  "\<exists>cc. comm_holds cc [[1, 2, 3, 4]] \<and> snd (comm_peek cc 3) = ([], 4, 1)"
  using comm_peek_short [OF small_comm_one, of 3] small_comm_one by auto

end
