(* ===== verification/Clib_Atomic.thy ===== *)
theory Clib_Atomic
  imports Refk_Prelude
begin

text \<open>
  \<^verbatim>\<open>clib/atomic.c\<close>, whose functions are inline assembly.  The few x86 instructions it uses
  are functions on the registers and the byte memory, in AT&T operand order; each C function
  loads the registers its constraints name, runs its instructions and returns the register
  its output constraint names.  A lock prefix makes the one instruction atomic: an access is
  \<open>Locked\<close> or \<open>Plain\<close>.
\<close>

section \<open>Instructions\<close>

record regs =
  rax :: u64
  rbx :: u64
  rcx :: u64
  rdx :: u64
  zf :: bool
  ram :: bytes

definition xchgq :: "u64 \<Rightarrow> regs \<Rightarrow> regs" where
  "xchgq a r = r\<lparr>ram := store_le 8 (ram r) a (rbx r), rbx := load_le 8 (ram r) a\<rparr>"

definition addq_rbx :: "u64 \<Rightarrow> regs \<Rightarrow> regs" where
  "addq_rbx a r = r\<lparr>ram := store_le 8 (ram r) a (load_le 8 (ram r) a + rbx r),
     zf := (load_le 8 (ram r) a + rbx r = 0)\<rparr>"

definition incq :: "u64 \<Rightarrow> regs \<Rightarrow> regs" where
  "incq a r = r\<lparr>ram := store_le 8 (ram r) a (load_le 8 (ram r) a + 1 :: u64), zf := (load_le 8 (ram r) a + 1 = (0 :: u64))\<rparr>"

definition decq :: "u64 \<Rightarrow> regs \<Rightarrow> regs" where
  "decq a r = r\<lparr>ram := store_le 8 (ram r) a (load_le 8 (ram r) a - 1 :: u64), zf := (load_le 8 (ram r) a - 1 = (0 :: u64))\<rparr>"

text \<open>\<^verbatim>\<open>cmpxchg %rcx, 0(%rbx)\<close> compares with \<open>rax\<close>.\<close>

definition cmpxchg_rcx :: "u64 \<Rightarrow> regs \<Rightarrow> regs" where
  "cmpxchg_rcx a r =
     (if load_le 8 (ram r) a = rax r then r\<lparr>ram := store_le 8 (ram r) a (rcx r), zf := True\<rparr>
      else r\<lparr>rax := load_le 8 (ram r) a, zf := False\<rparr>)"

definition xor_rax_rax :: "regs \<Rightarrow> regs" where
  "xor_rax_rax r = r\<lparr>rax := 0, zf := True\<rparr>"

definition cmovz_rax_rdx :: "regs \<Rightarrow> regs" where
  "cmovz_rax_rdx r = (if zf r then r\<lparr>rdx := rax r\<rparr> else r)"

definition start_regs :: "bytes \<Rightarrow> regs" where
  "start_regs m = \<lparr>rax = 0, rbx = 0, rcx = 0, rdx = 0, zf = False, ram = m\<rparr>"

section \<open>The functions\<close>

datatype access = Plain | Locked

definition CACHE_LINE_SIZE :: u64 where "CACHE_LINE_SIZE = 64"
definition CACHE_LINE_MASK :: u64 where "CACHE_LINE_MASK = CACHE_LINE_SIZE - 1"
definition CACHE_LINE_MAX :: u64 where "CACHE_LINE_MAX = CACHE_LINE_SIZE - 7"

definition CACHE_LINE_WITHIN :: "u64 \<Rightarrow> bool" where
  "CACHE_LINE_WITHIN a \<longleftrightarrow> a AND CACHE_LINE_MASK \<ge> CACHE_LINE_MAX"

definition atomic_write :: "bytes \<Rightarrow> u64 \<Rightarrow> u64 \<Rightarrow> bytes \<times> access" where
  "atomic_write m address value =
     (if CACHE_LINE_WITHIN address then (store_le 8 m address value, Plain)
      else (ram (xchgq address ((start_regs m)\<lparr>rax := address, rbx := value\<rparr>)), Locked))"

definition atomic_read :: "bytes \<Rightarrow> u64 \<Rightarrow> bytes \<times> u64 \<times> access" where
  "atomic_read m address =
     (if CACHE_LINE_WITHIN address then (m, load_le 8 m address, Plain)
      else
        (let r = addq_rbx address ((start_regs m)\<lparr>rax := address, rbx := 0\<rparr>)
         in (ram r, rbx r, Locked)))"

definition atomic_inc :: "bytes \<Rightarrow> u64 \<Rightarrow> bytes" where
  "atomic_inc m address = ram (incq address ((start_regs m)\<lparr>rax := address\<rparr>))"

definition atomic_dec :: "bytes \<Rightarrow> u64 \<Rightarrow> bytes" where
  "atomic_dec m address = ram (decq address ((start_regs m)\<lparr>rax := address\<rparr>))"

definition atomic_swap :: "bytes \<Rightarrow> u64 \<Rightarrow> u64 \<Rightarrow> bytes \<times> u64" where
  "atomic_swap m address value =
     (let r = xchgq address ((start_regs m)\<lparr>rax := address, rbx := value\<rparr>) in (ram r, rbx r))"

definition atomic_swapcompare :: "bytes \<Rightarrow> u64 \<Rightarrow> u64 \<Rightarrow> u64 \<Rightarrow> bytes \<times> int" where
  "atomic_swapcompare m address expected value =
     (let r = (start_regs m)\<lparr>rax := expected, rbx := address, rcx := value, rdx := 1\<rparr>;
          r = cmpxchg_rcx address r;
          r = xor_rax_rax r;
          r = cmovz_rax_rdx r
      in (ram r, sint (ucast (rdx r) :: u32)))"

section \<open>Properties\<close>

text \<open>
  what the counters and the swap do to their word: increment and decrement wrap, a swap
  stores the new value and returns the old one, and a write stores, whichever way it accesses.
\<close>

theorem atomic_updates:
  "(load_le 8 (atomic_inc m a) a :: u64) = load_le 8 m a + 1 \<and>
   (load_le 8 (atomic_dec m a) a :: u64) = load_le 8 m a - 1 \<and>
   (load_le 8 (fst (atomic_swap m a v)) a :: u64) = v \<and> snd (atomic_swap m a v) = load_le 8 m a \<and>
   (load_le 8 (fst (atomic_write m a v)) a :: u64) = v"
  by (simp add: atomic_inc_def atomic_dec_def atomic_swap_def atomic_write_def incq_def decq_def xchgq_def
      start_regs_def load_store_same Let_def)

text \<open>
  \<^verbatim>\<open>CACHE_LINE_WITHIN\<close> tests the opposite of its name.  An 8-byte access is plain, not
  locked, exactly when it crosses a line of 64 bytes, and \<^verbatim>\<open>atomic_read\<close>, which in the locked
  case adds 0 and returns its addend, returns 0 instead of the word for every word inside a
  line.
\<close>

theorem atomic_read_within_line:
  "(if unat a mod 64 + 8 \<le> 64 then fst (snd (atomic_read m a)) = 0 \<and> snd (snd (atomic_read m a)) = Locked
    else fst (snd (atomic_read m a)) = load_le 8 m a \<and> snd (snd (atomic_read m a)) = Plain)"
proof -
  have "unat (a AND 63) = unat a mod 64"
    using and_mask_unat [of a 6] by (simp add: mask_eq_exp_minus_1)
  then have "CACHE_LINE_WITHIN a \<longleftrightarrow> \<not> unat a mod 64 + 8 \<le> 64"
    by (auto simp: CACHE_LINE_WITHIN_def CACHE_LINE_MASK_def CACHE_LINE_MAX_def CACHE_LINE_SIZE_def word_le_nat_alt)
  then show ?thesis by (simp add: atomic_read_def addq_rbx_def start_regs_def Let_def)
qed

text \<open>
  \<^verbatim>\<open>atomic_swapcompare\<close> swaps exactly when the word has the expected value, but its result
  is 0, "swapped", also when it did not: the \<^verbatim>\<open>xor\<close> that clears \<^verbatim>\<open>rax\<close> sets the zero flag the
  conditional move tests.
\<close>

theorem atomic_swapcompare_result:
  "snd (atomic_swapcompare m a expected value) = 0 \<and>
   fst (atomic_swapcompare m a expected value) =
     (if load_le 8 m a = expected then store_le 8 m a value else m)"
  by (simp add: atomic_swapcompare_def cmpxchg_rcx_def xor_rax_rax_def cmovz_rax_rdx_def start_regs_def Let_def)

end
