(* ===== verification/Klib_Synch.thy ===== *)
theory Klib_Synch
  imports Refk_Prelude
begin

text \<open>
  \<^verbatim>\<open>klib/synch.c\<close>: spinlocks that also mask interrupts, and semaphores under a spinlock.  The
  lock functions are inline assembly; they are modelled one instruction at a time, so that
  several processors can run them interleaved.  \<open>rflags\<close> is the flags register, whose bit 9 is
  the interrupt flag, and the zero flag is kept beside it.
\<close>

section \<open>The instructions of the lock functions\<close>

record spinlock_t =
  lock_value :: u32
  intrflag :: u32

definition synch_initspin :: "spinlock_t \<Rightarrow> spinlock_t" where
  "synch_initspin lock = lock\<lparr>lock_value := 0, intrflag := 0\<rparr>"

text \<open>
  The instruction a processor is about to run.  \<open>Outside\<close> and \<open>Inside\<close> are the code before
  \<^verbatim>\<open>synch_spinlock\<close> and between its return and the call of \<^verbatim>\<open>synch_spinunlock\<close>.
\<close>

datatype spin_pc =
    Outside
  | LPushPop | LAnd | LStoreFlag | LCli | LXor | LMov | LCmpxchg | LJnz
  | Inside
  | UXor | UPushPop | UOr | UPopf | UStore

record spin_cpu =
  pc :: spin_pc
  reg_rax :: u64
  reg_rbx :: u64
  rflags :: u64
  zeroflag :: bool

definition INTERRUPT_FLAG :: u64 where "INTERRUPT_FLAG = 0x200"

text \<open>One instruction of one processor, on its registers and the shared lock.\<close>

fun spin_exec :: "spin_pc \<Rightarrow> spin_cpu \<Rightarrow> spinlock_t \<Rightarrow> spin_cpu \<times> spinlock_t" where
  "spin_exec Outside c l = (c\<lparr>pc := LPushPop\<rparr>, l)"
| "spin_exec LPushPop c l = (c\<lparr>reg_rax := rflags c, pc := LAnd\<rparr>, l)"
| "spin_exec LAnd c l = (c\<lparr>reg_rax := reg_rax c AND INTERRUPT_FLAG, pc := LStoreFlag\<rparr>, l)"
| "spin_exec LStoreFlag c l = (c\<lparr>pc := LCli\<rparr>, l\<lparr>intrflag := ucast (reg_rax c)\<rparr>)"
| "spin_exec LCli c l = (c\<lparr>rflags := rflags c AND NOT INTERRUPT_FLAG, pc := LXor\<rparr>, l)"
| "spin_exec LXor c l = (c\<lparr>reg_rax := 0, zeroflag := True, pc := LMov\<rparr>, l)"
| "spin_exec LMov c l = (c\<lparr>reg_rbx := 1, pc := LCmpxchg\<rparr>, l)"
| "spin_exec LCmpxchg c l =
     (if lock_value l = ucast (reg_rax c)
      then (c\<lparr>zeroflag := True, pc := LJnz\<rparr>, l\<lparr>lock_value := ucast (reg_rbx c)\<rparr>)
      else (c\<lparr>reg_rax := ucast (lock_value l), zeroflag := False, pc := LJnz\<rparr>, l))"
| "spin_exec LJnz c l = (c\<lparr>pc := (if zeroflag c then Inside else LXor)\<rparr>, l)"
| "spin_exec Inside c l = (c\<lparr>pc := UXor\<rparr>, l)"
| "spin_exec UXor c l = (c\<lparr>reg_rax := 0, zeroflag := True, pc := UPushPop\<rparr>, l)"
| "spin_exec UPushPop c l = (c\<lparr>reg_rax := rflags c, pc := UOr\<rparr>, l)"
| "spin_exec UOr c l = (c\<lparr>pc := UPopf\<rparr>, l\<lparr>intrflag := intrflag l OR ucast (reg_rax c)\<rparr>)"
| "spin_exec UPopf c l = (c\<lparr>rflags := reg_rax c, pc := UStore\<rparr>, l)"
| "spin_exec UStore c l = (c\<lparr>pc := Outside\<rparr>, l\<lparr>lock_value := 0\<rparr>)"

text \<open>Any number of processors, one instruction of one of them at a time.\<close>

record spin_state =
  lock :: spinlock_t
  cpus :: "nat \<Rightarrow> spin_cpu"

definition spin_start :: "spin_state \<Rightarrow> bool" where
  "spin_start s \<longleftrightarrow> lock_value (lock s) = 0 \<and> (\<forall>i. pc (cpus s i) = Outside)"

inductive spin_step :: "spin_state \<Rightarrow> spin_state \<Rightarrow> bool" where
  exec: "spin_exec (pc (cpus s i)) (cpus s i) (lock s) = (c, l) \<Longrightarrow>
    spin_step s (s\<lparr>lock := l, cpus := (cpus s)(i := c)\<rparr>)"

inductive_cases spin_stepE: "spin_step s s'"

inductive spin_reachable :: "spin_state \<Rightarrow> bool" where
  start: "spin_start s \<Longrightarrow> spin_reachable s"
| step: "spin_reachable s \<Longrightarrow> spin_step s s' \<Longrightarrow> spin_reachable s'"

text \<open>A processor holds the lock from its successful exchange until its last store.\<close>

definition holds_lock :: "spin_cpu \<Rightarrow> bool" where
  "holds_lock c \<longleftrightarrow> pc c \<in> {Inside, UXor, UPushPop, UOr, UPopf, UStore} \<or> pc c = LJnz \<and> zeroflag c"

definition spin_inv :: "spin_state \<Rightarrow> bool" where
  "spin_inv s \<longleftrightarrow>
     (\<forall>i. (pc (cpus s i) \<in> {LMov, LCmpxchg} \<longrightarrow> reg_rax (cpus s i) = 0) \<and>
          (pc (cpus s i) = LCmpxchg \<longrightarrow> reg_rbx (cpus s i) = 1)) \<and>
     (\<forall>i j. holds_lock (cpus s i) \<and> holds_lock (cpus s j) \<longrightarrow> i = j) \<and>
     (\<forall>i. holds_lock (cpus s i) \<longrightarrow> lock_value (lock s) \<noteq> 0)"

definition cpu_ok :: "spin_cpu \<Rightarrow> bool" where
  "cpu_ok c \<longleftrightarrow> (pc c \<in> {LMov, LCmpxchg} \<longrightarrow> reg_rax c = 0) \<and> (pc c = LCmpxchg \<longrightarrow> reg_rbx c = 1)"

lemma spin_exec_effect:
  assumes "cpu_ok c" "spin_exec (pc c) c l = (c', l')"
  shows "cpu_ok c'"
    and "holds_lock c' \<and> \<not> holds_lock c \<and> lock_value l = 0 \<and> lock_value l' = 1 \<or>
      holds_lock c' = holds_lock c \<and> lock_value l' = lock_value l \<or> holds_lock c \<and> \<not> holds_lock c'"
  using assms by (cases "pc c"; auto simp: cpu_ok_def holds_lock_def split: if_splits)+

lemma spin_inv_alt:
  "spin_inv s \<longleftrightarrow> (\<forall>i. cpu_ok (cpus s i)) \<and>
     (\<forall>i j. holds_lock (cpus s i) \<and> holds_lock (cpus s j) \<longrightarrow> i = j) \<and>
     (\<forall>i. holds_lock (cpus s i) \<longrightarrow> lock_value (lock s) \<noteq> 0)"
  by (simp add: spin_inv_def cpu_ok_def)

lemma spin_exec_inv:
  assumes inv: "spin_inv s" and e: "spin_exec (pc (cpus s i)) (cpus s i) (lock s) = (c, l)"
  shows "spin_inv (s\<lparr>lock := l, cpus := (cpus s)(i := c)\<rparr>)"
proof -
  have ok: "cpu_ok (cpus s i)" using inv by (simp add: spin_inv_alt)
  from spin_exec_effect(2) [OF ok e] show ?thesis
  proof (elim disjE conjE)
    assume "holds_lock c" "lock_value (lock s) = 0" "lock_value l = 1"
    moreover from this have "\<not> holds_lock (cpus s j)" for j using inv by (auto simp: spin_inv_alt)
    ultimately show ?thesis using spin_exec_effect(1) [OF ok e] inv by (simp add: spin_inv_alt)
  next
    assume "holds_lock c = holds_lock (cpus s i)" "lock_value l = lock_value (lock s)"
    then show ?thesis using spin_exec_effect(1) [OF ok e] inv by (auto simp: spin_inv_alt)
  next
    assume h: "holds_lock (cpus s i)" "\<not> holds_lock c"
    then have "\<not> holds_lock (cpus s j)" if "j \<noteq> i" for j using inv that by (auto simp: spin_inv_alt)
    then show ?thesis using h spin_exec_effect(1) [OF ok e] inv by (auto simp: spin_inv_alt)
  qed
qed

lemma spin_reachable_inv: "spin_reachable s \<Longrightarrow> spin_inv s"
proof (induction rule: spin_reachable.induct)
  case (start s)
  then show ?case by (auto simp: spin_start_def spin_inv_def holds_lock_def)
next
  case (step s s')
  then show ?case by (auto elim!: spin_stepE intro: spin_exec_inv)
qed

section \<open>Semaphores\<close>

text \<open>
  A task that calls the semaphore functions while nobody else does: the lock is taken on the
  first attempt, or never.  \<open>spin_run n\<close> runs \<open>n\<close> instructions of one processor.
\<close>

fun spin_run :: "nat \<Rightarrow> spin_cpu \<times> spinlock_t \<Rightarrow> spin_cpu \<times> spinlock_t" where
  "spin_run 0 x = x"
| "spin_run (Suc n) x = spin_run n (case x of (c, l) \<Rightarrow> spin_exec (pc c) c l)"

record semaphore_t =
  sem_value :: u64
  accesslock :: spinlock_t

partial_function (option) spin_until_inside :: "spin_cpu \<Rightarrow> spinlock_t \<Rightarrow> (spin_cpu \<times> spinlock_t) option" where
  "spin_until_inside c l =
     (if pc c = Inside then Some (c, l)
      else (case spin_exec (pc c) c l of (c, l) \<Rightarrow> spin_until_inside c l))"

partial_function (option) spin_until_outside :: "spin_cpu \<Rightarrow> spinlock_t \<Rightarrow> (spin_cpu \<times> spinlock_t) option" where
  "spin_until_outside c l =
     (if pc c = Outside then Some (c, l)
      else (case spin_exec (pc c) c l of (c, l) \<Rightarrow> spin_until_outside c l))"

text \<open>The two functions, called by one processor on a lock nobody else touches.\<close>

definition synch_spinlock :: "spin_cpu \<Rightarrow> spinlock_t \<Rightarrow> (spin_cpu \<times> spinlock_t) option" where
  "synch_spinlock c l = spin_until_inside (c\<lparr>pc := LPushPop\<rparr>) l"

definition synch_spinunlock :: "spin_cpu \<Rightarrow> spinlock_t \<Rightarrow> (spin_cpu \<times> spinlock_t) option" where
  "synch_spinunlock c l = spin_until_outside (c\<lparr>pc := UXor\<rparr>) l"

definition synch_initsemaphore :: "semaphore_t \<Rightarrow> u64 \<Rightarrow> semaphore_t" where
  "synch_initsemaphore s v = s\<lparr>sem_value := v, accesslock := synch_initspin (accesslock s)\<rparr>"

text \<open>A critical section: lock, run \<open>body\<close> on the semaphore's value, unlock.\<close>

definition with_lock :: "spin_cpu \<Rightarrow> semaphore_t \<Rightarrow> (u64 \<Rightarrow> u64 \<times> 'r) \<Rightarrow> (spin_cpu \<times> semaphore_t \<times> 'r) option" where
  "with_lock c s body =
     (case synch_spinlock c (accesslock s) of
        None \<Rightarrow> None
      | Some (c, l) \<Rightarrow>
         (let (v, r) = body (sem_value s) in
          case synch_spinunlock c l of
            None \<Rightarrow> None
          | Some (c, l) \<Rightarrow> Some (c, s\<lparr>sem_value := v, accesslock := l\<rparr>, r)))"

definition synch_semaphoreinc :: "spin_cpu \<Rightarrow> semaphore_t \<Rightarrow> u64 \<Rightarrow> (spin_cpu \<times> semaphore_t \<times> unit) option" where
  "synch_semaphoreinc c s amount = with_lock c s (\<lambda>v. (v + amount, ()))"

definition synch_semaphoretrydec :: "spin_cpu \<Rightarrow> semaphore_t \<Rightarrow> u64 \<Rightarrow> (spin_cpu \<times> semaphore_t \<times> int) option" where
  "synch_semaphoretrydec c s amount = with_lock c s (\<lambda>v. if v \<ge> amount then (v - amount, 0) else (v, 1))"

text \<open>
  \<^verbatim>\<open>synch_semaphoredec\<close> tries until \<^verbatim>\<open>trydec\<close> gives a nonzero result, and yields with
  \<^verbatim>\<open>int $0xff\<close> in between; \<open>env\<close> is what the other tasks do to the semaphore meanwhile.
\<close>

partial_function (option) synch_semaphoredec ::
  "(semaphore_t \<Rightarrow> semaphore_t) \<Rightarrow> spin_cpu \<Rightarrow> semaphore_t \<Rightarrow> u64 \<Rightarrow> (spin_cpu \<times> semaphore_t) option" where
  "synch_semaphoredec env c s amount =
     (case synch_semaphoretrydec c s amount of
        None \<Rightarrow> None
      | Some (c, s, r) \<Rightarrow> if r \<noteq> 0 then Some (c, s) else synch_semaphoredec env c (env s) amount)"


section \<open>One processor alone\<close>

lemma spinlock_free:
  assumes "lock_value l = 0"
  shows "\<exists>c'. synch_spinlock c l = Some (c', l\<lparr>lock_value := 1, intrflag := ucast (rflags c AND INTERRUPT_FLAG)\<rparr>) \<and>
    rflags c' = rflags c AND NOT INTERRUPT_FLAG"
  using assms by (simp add: synch_spinlock_def spin_until_inside.simps [of "_ \<lparr>pc := _\<rparr>"] spin_until_inside.simps)

definition spin_waiting :: "spin_cpu \<Rightarrow> spinlock_t \<Rightarrow> bool" where
  "spin_waiting c l \<longleftrightarrow> \<not> holds_lock c \<and> pc c \<noteq> Outside \<and>
     (pc c \<in> {LMov, LCmpxchg} \<longrightarrow> reg_rax c = 0) \<and> lock_value l \<noteq> 0"

lemma spin_waiting_exec: "spin_waiting c l \<Longrightarrow> spin_exec (pc c) c l = (c', l') \<Longrightarrow> spin_waiting c' l'"
  by (cases "pc c") (auto simp: spin_waiting_def holds_lock_def split: if_splits)

lemma spin_waiting_forever: "spin_until_inside c l = Some r \<Longrightarrow> \<not> spin_waiting c l"
proof (rule spin_until_inside.raw_induct [where P = "\<lambda>c l y. \<not> spin_waiting c l"])
  fix f c l y
  assume IH: "\<And>c l y. f c l = Some y \<Longrightarrow> \<not> spin_waiting c l"
    and run: "(if pc c = Inside then Some (c, l) else (case spin_exec (pc c) c l of (c, l) \<Rightarrow> f c l)) = Some y"
  show "\<not> spin_waiting c l"
  proof
    assume w: "spin_waiting c l"
    then have "pc c \<noteq> Inside" by (auto simp: spin_waiting_def holds_lock_def)
    then show False using run IH spin_waiting_exec [OF w] by (auto split: prod.splits)
  qed
qed

lemma spinlock_taken:
  assumes "lock_value l \<noteq> 0"
  shows "synch_spinlock c l = None"
  using spin_waiting_forever [of "c\<lparr>pc := LPushPop\<rparr>" l] assms
  by (cases "synch_spinlock c l") (auto simp: synch_spinlock_def spin_waiting_def holds_lock_def)

lemma spinunlock_runs:
  "\<exists>c'. synch_spinunlock c l = Some (c', l\<lparr>lock_value := 0, intrflag := intrflag l OR ucast (rflags c)\<rparr>) \<and>
    rflags c' = rflags c"
  by (simp add: synch_spinunlock_def spin_until_outside.simps)

lemma with_lock_free:
  assumes "lock_value (accesslock s) = 0"
  shows "\<exists>c' l'. with_lock c s body =
      Some (c', s\<lparr>sem_value := fst (body (sem_value s)), accesslock := l'\<rparr>, snd (body (sem_value s))) \<and>
    lock_value l' = 0 \<and> rflags c' = rflags c AND NOT INTERRUPT_FLAG"
proof -
  obtain c1 where L: "synch_spinlock c (accesslock s) =
      Some (c1, (accesslock s)\<lparr>lock_value := 1, intrflag := ucast (rflags c AND INTERRUPT_FLAG)\<rparr>)"
    "rflags c1 = rflags c AND NOT INTERRUPT_FLAG"
    using spinlock_free [OF assms] by blast
  obtain c2 where "synch_spinunlock c1 ((accesslock s)\<lparr>lock_value := 1, intrflag := ucast (rflags c AND INTERRUPT_FLAG)\<rparr>) =
      Some (c2, (accesslock s)\<lparr>lock_value := 0, intrflag := ucast (rflags c AND INTERRUPT_FLAG) OR ucast (rflags c1)\<rparr>)"
    "rflags c2 = rflags c1"
    using spinunlock_runs [of c1 "(accesslock s)\<lparr>lock_value := 1, intrflag := ucast (rflags c AND INTERRUPT_FLAG)\<rparr>"]
    by auto
  then show ?thesis using L
    by (intro exI [of _ c2] exI [of _ "(accesslock s)\<lparr>lock_value := 0,
        intrflag := ucast (rflags c AND INTERRUPT_FLAG) OR ucast (rflags c1)\<rparr>"])
      (simp add: with_lock_def case_prod_beta)
qed

lemma semaphoredec_alone:
  assumes "lock_value (accesslock s) = 0" "amount \<noteq> 0"
  shows "\<exists>c' s'. synch_semaphoredec (\<lambda>s. s) c s amount = Some (c', s') \<and> sem_value s' = sem_value s mod amount"
  using assms(1)
proof (induction "unat (sem_value s)" arbitrary: s c rule: less_induct)
  case less
  obtain c1 l1 where T: "synch_semaphoretrydec c s amount =
      Some (c1, s\<lparr>sem_value := (if sem_value s \<ge> amount then sem_value s - amount else sem_value s), accesslock := l1\<rparr>,
        if sem_value s \<ge> amount then 0 else 1)"
    "lock_value l1 = 0"
    using with_lock_free [OF less.prems, of c "\<lambda>v. if v \<ge> amount then (v - amount, 0) else (v, 1)"]
    by (auto simp: synch_semaphoretrydec_def split: if_splits)
  show ?case
  proof (cases "sem_value s \<ge> amount")
    case True
    let ?s = "s\<lparr>sem_value := sem_value s - amount, accesslock := l1\<rparr>"
    have "0 < unat amount" using assms(2) by (simp add: unat_gt_0)
    then have "unat (sem_value ?s) < unat (sem_value s)"
      using True by (simp add: unat_sub word_le_nat_alt)
    then obtain c' s' where IH: "synch_semaphoredec (\<lambda>s. s) c1 ?s amount = Some (c', s')"
      "sem_value s' = (sem_value s - amount) mod amount"
      using less.hyps [of ?s c1] T(2) by auto
    have "(sem_value s - amount) mod amount = sem_value s mod amount"
    proof -
      have "unat ((sem_value s - amount) mod amount) = unat (sem_value s mod amount)"
        using True by (simp add: unat_mod unat_sub word_le_nat_alt le_mod_geq)
      then show ?thesis by (rule unsigned_word_eqI)
    qed
    then show ?thesis using T IH True by (subst synch_semaphoredec.simps) simp
  next
    case False
    then have "sem_value s mod amount = sem_value s"
      by (simp add: word_eq_unat unat_mod word_le_nat_alt)
    then show ?thesis using T False by (subst synch_semaphoredec.simps) simp
  qed
qed


lemma semaphoretrydec_spec:
  assumes "lock_value (accesslock s) = 0"
  shows "\<exists>c' s'. synch_semaphoretrydec c s amount = Some (c', s', if sem_value s \<ge> amount then 0 else 1) \<and>
    sem_value s' = (if sem_value s \<ge> amount then sem_value s - amount else sem_value s) \<and>
    lock_value (accesslock s') = 0"
  using with_lock_free [OF assms, of c "\<lambda>v. if v \<ge> amount then (v - amount, 0) else (v, 1)"]
  by (fastforce simp: synch_semaphoretrydec_def split: if_splits)

lemma semaphoredec_zero:
  "synch_semaphoredec env c s a = Some r \<Longrightarrow> \<not> (env = (\<lambda>s. s) \<and> a = 0 \<and> lock_value (accesslock s) = 0)"
proof (rule synch_semaphoredec.raw_induct
    [where P = "\<lambda>env c s a r. \<not> (env = (\<lambda>s. s) \<and> a = 0 \<and> lock_value (accesslock s) = 0)"])
  fix f env c s a r
  assume IH: "\<And>env c s a r. f env c s a = Some r \<Longrightarrow> \<not> (env = (\<lambda>s. s) \<and> a = 0 \<and> lock_value (accesslock s) = 0)"
    and run: "(case synch_semaphoretrydec c s a of None \<Rightarrow> None
      | Some (c, s, r) \<Rightarrow> if r \<noteq> 0 then Some (c, s) else f env c (env s) a) = Some r"
  show "\<not> (env = (\<lambda>s. s) \<and> a = 0 \<and> lock_value (accesslock s) = 0)"
  proof
    assume A: "env = (\<lambda>s. s) \<and> a = 0 \<and> lock_value (accesslock s) = 0"
    then obtain c' s' where "synch_semaphoretrydec c s 0 = Some (c', s', 0)" "lock_value (accesslock s') = 0"
      using semaphoretrydec_spec [of s c 0] by auto
    then show False using A run IH by auto
  qed
qed

section \<open>Properties\<close>

text \<open>
  C12: a spinlock is held by at most one processor, for any number of processors running the
  instructions of \<^verbatim>\<open>synch_spinlock\<close> and \<^verbatim>\<open>synch_spinunlock\<close> interleaved in any order, and while
  one holds it the lock's word is not 0.
\<close>

theorem spinlock_mutual_exclusion:
  assumes "spin_reachable s"
  shows "(holds_lock (cpus s i) \<and> holds_lock (cpus s j) \<longrightarrow> i = j) \<and>
    (holds_lock (cpus s i) \<longrightarrow> lock_value (lock s) \<noteq> 0)"
  using spin_reachable_inv [OF assms] unfolding spin_inv_def by blast

text \<open>Two processors: the first takes the lock, the second tries and waits.\<close>

definition spin_go :: "nat \<Rightarrow> spin_state \<Rightarrow> spin_state" where
  "spin_go i s = (case spin_exec (pc (cpus s i)) (cpus s i) (lock s) of (c, l) \<Rightarrow> s\<lparr>lock := l, cpus := (cpus s)(i := c)\<rparr>)"

lemma spin_go_reachable: "spin_reachable s \<Longrightarrow> spin_reachable (spin_go i s)"
  by (rule spin_reachable.step, assumption) (auto simp: spin_go_def intro: spin_step.exec split: prod.split)

lemma spin_gos_reachable: "spin_reachable s \<Longrightarrow> spin_reachable (fold spin_go is s)"
  by (induction "is" arbitrary: s) (simp_all add: spin_go_reachable)

definition spin_example :: spin_state where
  "spin_example = \<lparr>lock = \<lparr>lock_value = 0, intrflag = 0\<rparr>,
     cpus = (\<lambda>_. \<lparr>pc = Outside, reg_rax = 0, reg_rbx = 0, rflags = 0x202, zeroflag = False\<rparr>)\<rparr>"

theorem spinlock_mutual_exclusion_witness:
  "(let s = fold spin_go (replicate 9 0 @ replicate 9 1) spin_example in
    holds_lock (cpus s 0) \<and> \<not> holds_lock (cpus s 1) \<and> lock_value (lock s) \<noteq> 0)"
proof -
  let ?s = "fold spin_go (replicate 9 0 @ replicate 9 1) spin_example"
  have "spin_reachable spin_example"
    by (rule spin_reachable.start) (simp add: spin_start_def spin_example_def)
  then have r: "spin_reachable ?s" by (rule spin_gos_reachable)
  have h: "holds_lock (cpus ?s 0)"
    by (simp add: eval_nat_numeral spin_go_def spin_example_def holds_lock_def)
  show ?thesis
    using spinlock_mutual_exclusion [OF r, of 0 1] spinlock_mutual_exclusion [OF r, of 0 0] h
    unfolding Let_def by auto
qed

text \<open>
  \<^verbatim>\<open>synch_spinunlock\<close> never turns interrupts on again.  Its \<^verbatim>\<open>or\<close> has its operands the
  wrong way round: it changes the saved flag in memory and leaves \<^verbatim>\<open>rax\<close> as the flags are now,
  so that a processor that took a free lock with interrupts enabled has them disabled after it
  has released the lock.
\<close>

theorem spinunlock_interrupts_stay_off:
  assumes "lock_value l = 0" "synch_spinlock c l = Some (c1, l1)" "synch_spinunlock (c1\<lparr>pc := q\<rparr>) l1 = Some (c2, l2)"
  shows "rflags c2 = rflags c AND NOT INTERRUPT_FLAG \<and> lock_value l2 = 0"
  using spinlock_free [OF assms(1), of c] spinunlock_runs [of "c1\<lparr>pc := q\<rparr>" l1] assms(2,3) by auto

theorem spinunlock_interrupts_stay_off_witness:
  "\<exists>c1 l1 c2 l2. synch_spinlock (cpus spin_example 0) (lock spin_example) = Some (c1, l1) \<and>
    synch_spinunlock c1 l1 = Some (c2, l2) \<and> rflags (cpus spin_example 0) AND INTERRUPT_FLAG \<noteq> 0 \<and>
    rflags c2 AND INTERRUPT_FLAG = 0"
proof -
  have l: "lock_value (lock spin_example) = 0" by (simp add: spin_example_def)
  obtain c1 l1 where a: "synch_spinlock (cpus spin_example 0) (lock spin_example) = Some (c1, l1)"
    using spinlock_free [OF l] by blast
  obtain c2 l2 where b: "synch_spinunlock c1 l1 = Some (c2, l2)"
    using spinunlock_runs by blast
  have "synch_spinunlock (c1\<lparr>pc := pc c1\<rparr>) l1 = Some (c2, l2)" using b by simp
  from spinunlock_interrupts_stay_off [OF l a this] a b show ?thesis
    by (auto simp: spin_example_def INTERRUPT_FLAG_def and.assoc)
qed

text \<open>
  \<^verbatim>\<open>synch_semaphoredec\<close> stops when \<^verbatim>\<open>trydec\<close> fails instead of when it succeeds: on a free
  semaphore nobody else uses, it never waits for the amount to be there, but takes it away again
  and again, and returns with the remainder; and for amount 0 it never returns.
\<close>

theorem semaphoredec_takes_all:
  assumes "lock_value (accesslock s) = 0"
  shows "case synch_semaphoredec (\<lambda>s. s) c s amount of
      None \<Rightarrow> amount = 0
    | Some (c', s') \<Rightarrow> amount \<noteq> 0 \<and> sem_value s' = sem_value s mod amount"
proof (cases "amount = 0")
  case True
  then show ?thesis using semaphoredec_zero [of "\<lambda>s. s" c s 0] assms by (cases "synch_semaphoredec (\<lambda>s. s) c s 0") auto
next
  case False
  then show ?thesis using semaphoredec_alone [OF assms False, of c] by auto
qed

theorem semaphoredec_takes_all_witness:
  "case synch_semaphoredec (\<lambda>s. s) (cpus spin_example 0) \<lparr>sem_value = 7, accesslock = lock spin_example\<rparr> 3 of
      None \<Rightarrow> False
    | Some (c', s') \<Rightarrow> sem_value s' = 1"
  using semaphoredec_takes_all [where s = "\<lparr>sem_value = 7, accesslock = lock spin_example\<rparr>" and c = "cpus spin_example 0" and amount = 3]
  by (auto simp: spin_example_def split: option.splits)

end
