(* ===== verification/Klib_Kmem.thy ===== *)
theory Klib_Kmem
  imports Clib_Mem
begin

text \<open>
  \<^verbatim>\<open>klib/phy.c\<close> and \<^verbatim>\<open>klib/kmem.c\<close>: physical memory, the free list of its pages and the
  four-level page tables.  Physical memory is visible to the code at \<^verbatim>\<open>PHY_MAP_BASE\<close>, so it
  is a window of the byte memory \<open>vmem\<close>.  The global \<^verbatim>\<open>last_unused\<close> points to one of two
  words, \<^verbatim>\<open>temp_last\<close> or the one at \<^verbatim>\<open>KMEM_BASE_ADDR\<close>; that word lives in a page that
  \<^verbatim>\<open>kmem_init\<close> takes off the list for it, and is a field of its own.
\<close>

section \<open>Physical memory\<close>

datatype unused_loc = AtTempLast | AtKmemBase

record kmem =
  vmem :: bytes
  temp_last :: u64
  kmem_base_word :: u64
  last_unused :: unused_loc
  cr3_register :: u64

definition PHY_MAP_BASE :: u64 where "PHY_MAP_BASE = 0xffffc00000000000"

definition phy_read8 :: "'a kmem_scheme \<Rightarrow> u64 \<Rightarrow> u8" where
  "phy_read8 s address = vmem s (PHY_MAP_BASE + address)"

definition phy_read16 :: "'a kmem_scheme \<Rightarrow> u64 \<Rightarrow> u16" where
  "phy_read16 s address = load_le 2 (vmem s) (PHY_MAP_BASE + address)"

definition phy_read32 :: "'a kmem_scheme \<Rightarrow> u64 \<Rightarrow> u32" where
  "phy_read32 s address = load_le 4 (vmem s) (PHY_MAP_BASE + address)"

definition phy_read64 :: "'a kmem_scheme \<Rightarrow> u64 \<Rightarrow> u64" where
  "phy_read64 s address = load_le 8 (vmem s) (PHY_MAP_BASE + address)"

definition phy_read :: "'a kmem_scheme \<Rightarrow> u64 \<Rightarrow> ptr \<Rightarrow> u64 \<Rightarrow> 'a kmem_scheme" where
  "phy_read s address buffer count =
     s\<lparr>vmem := mem_copy (vmem s) buffer (PHY_MAP_BASE + address) count\<rparr>"

definition phy_write8 :: "'a kmem_scheme \<Rightarrow> u64 \<Rightarrow> u8 \<Rightarrow> 'a kmem_scheme" where
  "phy_write8 s address value = s\<lparr>vmem := (vmem s)(PHY_MAP_BASE + address := value)\<rparr>"

definition phy_write16 :: "'a kmem_scheme \<Rightarrow> u64 \<Rightarrow> u16 \<Rightarrow> 'a kmem_scheme" where
  "phy_write16 s address value = s\<lparr>vmem := store_le 2 (vmem s) (PHY_MAP_BASE + address) value\<rparr>"

definition phy_write32 :: "'a kmem_scheme \<Rightarrow> u64 \<Rightarrow> u32 \<Rightarrow> 'a kmem_scheme" where
  "phy_write32 s address value = s\<lparr>vmem := store_le 4 (vmem s) (PHY_MAP_BASE + address) value\<rparr>"

definition phy_write64 :: "'a kmem_scheme \<Rightarrow> u64 \<Rightarrow> u64 \<Rightarrow> 'a kmem_scheme" where
  "phy_write64 s address value = s\<lparr>vmem := store_le 8 (vmem s) (PHY_MAP_BASE + address) value\<rparr>"

definition phy_write :: "'a kmem_scheme \<Rightarrow> u64 \<Rightarrow> ptr \<Rightarrow> u64 \<Rightarrow> 'a kmem_scheme" where
  "phy_write s address buffer count =
     s\<lparr>vmem := mem_copy (vmem s) (PHY_MAP_BASE + address) buffer count\<rparr>"

section \<open>The free list\<close>

definition KMEM_BASE_ADDR :: u64 where "KMEM_BASE_ADDR = 0xffffffffffa00000"
definition KMEM_MAP_DEFAULT :: u64 where "KMEM_MAP_DEFAULT = 0x7"
definition KMEM_MAP_RO_DATA :: u64 where "KMEM_MAP_RO_DATA = 0x1 OR push_bit 63 1"
definition KMEM_MAP_DATA :: u64 where "KMEM_MAP_DATA = 0x3 OR push_bit 63 1"
definition KMEM_MAP_CODE :: u64 where "KMEM_MAP_CODE = 0x5"
definition KMEM_FLAG_MASK :: u64 where "KMEM_FLAG_MASK = 0xfff OR push_bit 63 1"

text \<open>\<^verbatim>\<open>*last_unused\<close>, read and written.\<close>

definition get_last_unused :: "'a kmem_scheme \<Rightarrow> u64" where
  "get_last_unused s = (case last_unused s of AtTempLast \<Rightarrow> temp_last s | AtKmemBase \<Rightarrow> kmem_base_word s)"

definition put_last_unused :: "'a kmem_scheme \<Rightarrow> u64 \<Rightarrow> 'a kmem_scheme" where
  "put_last_unused s v =
     (case last_unused s of AtTempLast \<Rightarrow> s\<lparr>temp_last := v\<rparr> | AtKmemBase \<Rightarrow> s\<lparr>kmem_base_word := v\<rparr>)"

definition kmem_setup :: "'a kmem_scheme \<Rightarrow> 'a kmem_scheme" where
  "kmem_setup s = s\<lparr>last_unused := AtKmemBase\<rparr>"

definition kmem_setup_bootstrap :: "'a kmem_scheme \<Rightarrow> u64 \<Rightarrow> 'a kmem_scheme" where
  "kmem_setup_bootstrap s l = put_last_unused (kmem_setup s) l"

definition kmem_unuse :: "'a kmem_scheme \<Rightarrow> u64 \<Rightarrow> 'a kmem_scheme" where
  "kmem_unuse s page = put_last_unused (phy_write64 s page (get_last_unused s)) page"

definition kmem_getpage :: "'a kmem_scheme \<Rightarrow> 'a kmem_scheme \<times> u64" where
  "kmem_getpage s =
     (let ret = get_last_unused s in (put_last_unused s (phy_read64 s ret), ret))"

section \<open>Page tables\<close>

text \<open>The index into the table of a level, which is 0 for the root and 3 for the last.\<close>

definition level_index :: "nat \<Rightarrow> u64 \<Rightarrow> u64" where
  "level_index level address = drop_bit (12 + (3 - level) * 9) address AND 0x1ff"

text \<open>\<^verbatim>\<open>kmem_paging_addr\<close>: the address of the entry, and what it stores in \<^verbatim>\<open>*ok\<close>.\<close>

fun kmem_paging_addr :: "'a kmem_scheme \<Rightarrow> u64 \<Rightarrow> u64 \<Rightarrow> nat \<Rightarrow> u64 \<times> bool" where
  "kmem_paging_addr s root address 0 = (root + level_index 0 address * 8, True)"
| "kmem_paging_addr s root address (Suc level) =
     (let (prev, ok) = kmem_paging_addr s root address level in
      if \<not> ok then (0, False)
      else (let entry = phy_read64 s prev in
            if entry AND 1 = 0 then (0, False)
            else ((entry AND NOT 0xfff) + level_index (Suc level) address * 8, True)))"

text \<open>\<^verbatim>\<open>for(int i = 0; i < 512; i ++) phy_write64(table + i*8, 0)\<close>\<close>

definition clear_table :: "'a kmem_scheme \<Rightarrow> u64 \<Rightarrow> 'a kmem_scheme" where
  "clear_table s table = foldl (\<lambda>s i. phy_write64 s (table + of_nat i * 8) 0) s [0..<512]"

text \<open>
  \<^verbatim>\<open>kmem_paging_addr_create\<close> of \<^verbatim>\<open>klib/kmem.c\<close> and \<^verbatim>\<open>paging_addr_create\<close> of the scheduler's
  \<^verbatim>\<open>mman.c\<close> are the same code but for one call, which the second makes after linking a new
  table: \<open>hook\<close> is that call, and nothing in \<^verbatim>\<open>kmem.c\<close>.
\<close>

definition create_level ::
  "('a kmem_scheme \<Rightarrow> u64 \<Rightarrow> 'a kmem_scheme) \<Rightarrow> u64 \<Rightarrow> u64 \<Rightarrow>
   'a kmem_scheme \<times> u64 \<Rightarrow> nat \<Rightarrow> 'a kmem_scheme \<times> u64" where
  "create_level hook root vaddr = (\<lambda>(s, pa) i.
     (let (a, ok) = kmem_paging_addr s root vaddr i in
      if ok then (s, a)
      else
        (let (s, ntable) = kmem_getpage s;
             s = clear_table s ntable;
             s = phy_write64 s pa (ntable OR 0x7);
             s = hook s ntable
         in (s, fst (kmem_paging_addr s root vaddr i)))))"

definition paging_addr_create_with ::
  "('a kmem_scheme \<Rightarrow> u64 \<Rightarrow> 'a kmem_scheme) \<Rightarrow> 'a kmem_scheme \<Rightarrow> u64 \<Rightarrow> u64 \<Rightarrow> nat \<Rightarrow> 'a kmem_scheme \<times> u64" where
  "paging_addr_create_with hook s root vaddr level =
     (let (addr, ok) = kmem_paging_addr s root vaddr level in
      if ok then (s, addr)
      else (let (s, pa) = foldl (create_level hook root vaddr) (s, -1) [0..<level + 1]
            in (s, fst (kmem_paging_addr s root vaddr level))))"

definition kmem_paging_addr_create ::
  "'a kmem_scheme \<Rightarrow> u64 \<Rightarrow> u64 \<Rightarrow> nat \<Rightarrow> 'a kmem_scheme \<times> u64" where
  "kmem_paging_addr_create = paging_addr_create_with (\<lambda>s ntable. s)"

definition kmem_current :: "'a kmem_scheme \<Rightarrow> u64" where
  "kmem_current s = cr3_register s"

definition TASK_BASE :: u64 where "TASK_BASE = 0xffffffffffe00000"
definition DESC_BASE :: u64 where "DESC_BASE = 0xffffffffffc00000"
definition STATUS_BASE :: u64 where "STATUS_BASE = 0xffff900000000000"

text \<open>One copied entry of \<^verbatim>\<open>kmem_create_root\<close>: the same three lines for each area.\<close>

definition copy_entry :: "u64 \<Rightarrow> 'a kmem_scheme \<Rightarrow> u64 \<times> nat \<Rightarrow> 'a kmem_scheme" where
  "copy_entry ret s = (\<lambda>(vaddr, level).
     (let (s, nentry) = kmem_paging_addr_create s ret vaddr level;
          (s, bentry) = kmem_paging_addr_create s (kmem_current s) vaddr level
      in phy_write64 s nentry (phy_read64 s bentry)))"

definition kmem_create_root :: "'a kmem_scheme \<Rightarrow> 'a kmem_scheme \<times> u64" where
  "kmem_create_root s =
     (let (s, ret) = kmem_getpage s;
          s = clear_table s ret;
          s = foldl (copy_entry ret) s
            [(PHY_MAP_BASE, 0), (TASK_BASE, 2), (DESC_BASE, 2), (KMEM_BASE_ADDR, 2), (STATUS_BASE, 2)]
      in (s, ret))"

definition kmem_map :: "'a kmem_scheme \<Rightarrow> u64 \<Rightarrow> u64 \<Rightarrow> u64 \<Rightarrow> u64 \<Rightarrow> 'a kmem_scheme" where
  "kmem_map s root vaddr page flags =
     (let (s, addr) = kmem_paging_addr_create s root vaddr 3 in phy_write64 s addr (page OR flags))"

definition kmem_set_flags :: "'a kmem_scheme \<Rightarrow> u64 \<Rightarrow> u64 \<Rightarrow> u64 \<Rightarrow> 'a kmem_scheme" where
  "kmem_set_flags s root vaddr flags =
     (let (s, addr) = kmem_paging_addr_create s root vaddr 3
      in phy_write64 s addr (phy_read64 s addr AND NOT KMEM_FLAG_MASK OR flags))"

text \<open>The size of the piece of a copy that stays in one page.\<close>

definition page_piece :: "u64 \<Rightarrow> u64 \<Rightarrow> u64" where
  "page_piece vaddr sz =
     (let wsize = 0x1000 - (vaddr AND 0xfff) in if wsize > sz then sz else wsize)"

lemma page_piece_bounds:
  assumes "sz \<noteq> 0"
  shows "0 < unat (page_piece vaddr sz)" "unat (page_piece vaddr sz) \<le> unat sz"
    "unat (vaddr AND 0xfff) + unat (page_piece vaddr sz) \<le> 4096"
proof -
  have off: "unat (vaddr AND 0xfff) < 4096" by (simp add: low12_unat)
  then have w: "unat (0x1000 - (vaddr AND 0xfff)) = 4096 - unat (vaddr AND 0xfff)"
    by (subst unat_sub) (simp_all add: word_le_nat_alt)
  show "0 < unat (page_piece vaddr sz)" "unat (page_piece vaddr sz) \<le> unat sz"
    "unat (vaddr AND 0xfff) + unat (page_piece vaddr sz) \<le> 4096"
    using off w assms by (auto simp: page_piece_def Let_def word_less_nat_alt unat_gt_0)
qed

function kmem_memcpy :: "'a kmem_scheme \<Rightarrow> u64 \<Rightarrow> u64 \<Rightarrow> ptr \<Rightarrow> u64 \<Rightarrow> 'a kmem_scheme" where
  "kmem_memcpy s root vaddr data sz =
     (if sz = 0 then s
      else
        (let pg = vaddr AND NOT 0xfff; pg_off = vaddr AND 0xfff;
             (entry, ok) = kmem_paging_addr s root pg 3
         in if \<not> ok then s
            else
              (let phy_addr = phy_read64 s entry AND NOT KMEM_FLAG_MASK;
                   wsize = page_piece vaddr sz;
                   s = s\<lparr>vmem := mem_copy (vmem s) (0xffffc00000000000 + phy_addr + pg_off) data wsize\<rparr>
               in kmem_memcpy s root (vaddr + wsize) (data + wsize) (sz - wsize))))"
  by pat_completeness auto

function kmem_memclr :: "'a kmem_scheme \<Rightarrow> u64 \<Rightarrow> u64 \<Rightarrow> u64 \<Rightarrow> 'a kmem_scheme" where
  "kmem_memclr s root vaddr sz =
     (if sz = 0 then s
      else
        (let pg = vaddr AND NOT 0xfff; pg_off = vaddr AND 0xfff;
             (entry, ok) = kmem_paging_addr s root pg 3
         in if \<not> ok then s
            else
              (let phy_addr = phy_read64 s entry AND NOT KMEM_FLAG_MASK;
                   wsize = page_piece vaddr sz;
                   s = s\<lparr>vmem := mem_set (vmem s) (0xffffc00000000000 + phy_addr + pg_off) 0 wsize\<rparr>
               in kmem_memclr s root (vaddr + wsize) (sz - wsize))))"
  by pat_completeness auto

lemma piece_decreases:
  assumes "sz \<noteq> (0 :: u64)"
  shows "unat (sz - page_piece vaddr sz) < unat sz"
  using page_piece_bounds(1,2) [OF assms, of vaddr] by (simp add: unat_sub word_le_nat_alt)

termination kmem_memcpy
  by (relation "measure (\<lambda>(s, root, vaddr, data, sz). unat sz)") (auto intro: piece_decreases)

termination kmem_memclr
  by (relation "measure (\<lambda>(s, root, vaddr, sz). unat sz)") (auto intro: piece_decreases)

declare kmem_memcpy.simps [simp del] kmem_memclr.simps [simp del]


section \<open>Reading what was written\<close>

abbreviation aligned8 :: "u64 \<Rightarrow> bool" where
  "aligned8 a \<equiv> unat a mod 8 = 0"

lemma phy_read64_write64:
  assumes "aligned8 a" "aligned8 b"
  shows "phy_read64 (phy_write64 s a w) b = (if b = a then w else phy_read64 s b)"
proof (cases "a = b")
  case True
  then show ?thesis by (simp add: phy_read64_def phy_write64_def load_store_same)
next
  case False
  then have "8 \<le> unat (PHY_MAP_BASE + b - (PHY_MAP_BASE + a))" "8 \<le> unat (PHY_MAP_BASE + a - (PHY_MAP_BASE + b))"
    using align8_diff [OF assms] align8_diff [OF assms(2,1)] by simp_all
  then show ?thesis using False by (simp add: phy_read64_def phy_write64_def load_store_disjoint)
qed

lemma get_put_last_unused [simp]: "get_last_unused (put_last_unused s v) = v"
  by (simp add: get_last_unused_def put_last_unused_def split: unused_loc.split)

lemma put_last_unused_vmem [simp, frame]:
  "vmem (put_last_unused s v) = vmem s" "last_unused (put_last_unused s v) = last_unused s"
  "cr3_register (put_last_unused s v) = cr3_register s" "more (put_last_unused s v) = more s"
  by (simp_all add: put_last_unused_def split: unused_loc.split)

lemma phy_read64_put [simp]: "phy_read64 (put_last_unused s v) a = phy_read64 s a"
  by (simp add: phy_read64_def)

lemma phy_write64_frame [simp, frame]:
  "get_last_unused (phy_write64 s a w) = get_last_unused s" "cr3_register (phy_write64 s a w) = cr3_register s"
  "last_unused (phy_write64 s a w) = last_unused s" "more (phy_write64 s a w) = more s"
  by (simp_all add: get_last_unused_def phy_write64_def split: unused_loc.split)

text \<open>A table entry: a page and an index below 512.\<close>

lemma level_index_less: "unat (level_index l v) < 512"
  by (simp add: level_index_def low9_unat)

lemma entry_read_write:
  assumes "page_aligned b" "unat i < 512" "page_aligned b'" "unat i' < 512"
  shows "phy_read64 (phy_write64 s (b + i * 8) w) (b' + i' * 8) =
    (if b' = b \<and> i' = i then w else phy_read64 s (b' + i' * 8))"
  using entry_inj [OF assms(3,4,1,2)] assms
  by (auto simp: phy_read64_write64 entry_align8)

lemma page_first_entry: "(p :: u64) = p + 0 * 8" by simp

lemma clear_table_entry:
  assumes "page_aligned t" "page_aligned b" "unat i < 512"
  shows "phy_read64 (clear_table s t) (b + i * 8) = (if b = t then 0 else phy_read64 s (b + i * 8))"
proof -
  have "phy_read64 (foldl (\<lambda>s i. phy_write64 s (t + of_nat i * 8) 0) s [0..<n]) (b + i * 8) =
      (if b = t \<and> unat i < n then 0 else phy_read64 s (b + i * 8))" if "n \<le> 512" for n
    using that
  proof (induction n)
    case (Suc n)
    have n: "unat (of_nat n :: u64) = n" using Suc.prems by (simp add: unat_of_nat)
    then have "unat i = n \<longleftrightarrow> i = of_nat n" by (simp add: word_eq_unat)
    then show ?case
      using Suc assms n by (auto simp: entry_read_write less_Suc_eq)
  qed simp
  from this [of 512] show ?thesis using assms(3) by (auto simp: clear_table_def)
qed

lemma clear_table_frame [simp, frame]:
  "get_last_unused (clear_table s t) = get_last_unused s" "cr3_register (clear_table s t) = cr3_register s"
  "last_unused (clear_table s t) = last_unused s" "more (clear_table s t) = more s"
proof -
  have "get_last_unused (foldl (\<lambda>s i. phy_write64 s (t + of_nat i * 8) 0) s is) = get_last_unused s \<and>
      cr3_register (foldl (\<lambda>s i. phy_write64 s (t + of_nat i * 8) 0) s is) = cr3_register s \<and>
      last_unused (foldl (\<lambda>s i. phy_write64 s (t + of_nat i * 8) 0) s is) = last_unused s \<and>
      more (foldl (\<lambda>s i. phy_write64 s (t + of_nat i * 8) 0) s is) = more s" for "is"
    by (induction "is" arbitrary: s) simp_all
  then show "get_last_unused (clear_table s t) = get_last_unused s" "cr3_register (clear_table s t) = cr3_register s"
    "last_unused (clear_table s t) = last_unused s" "more (clear_table s t) = more s"
    by (simp_all only: clear_table_def)
qed

section \<open>The free list is a stack\<close>

fun chain :: "'a kmem_scheme \<Rightarrow> u64 \<Rightarrow> u64 list \<Rightarrow> bool" where
  "chain s h [] \<longleftrightarrow> True"
| "chain s h (p # ps) \<longleftrightarrow> h = p \<and> chain s (phy_read64 s p) ps"

text \<open>The first pages of the free list, in the order they will be handed out.\<close>

definition free_pages :: "'a kmem_scheme \<Rightarrow> u64 list \<Rightarrow> bool" where
  "free_pages s ps \<longleftrightarrow>
     chain s (get_last_unused s) ps \<and> distinct ps \<and> (\<forall>p \<in> set ps. page_aligned p)"

lemma chain_cong: "(\<And>p. p \<in> set ps \<Longrightarrow> phy_read64 s' p = phy_read64 s p) \<Longrightarrow> chain s' h ps = chain s h ps"
  by (induction ps arbitrary: h) auto

lemma free_pages_cong:
  "free_pages s ps \<Longrightarrow> get_last_unused s' = get_last_unused s \<Longrightarrow>
   (\<And>p. p \<in> set ps \<Longrightarrow> phy_read64 s' p = phy_read64 s p) \<Longrightarrow> free_pages s' ps"
  using chain_cong [of ps s' s] by (simp add: free_pages_def)

lemma free_pages_write:
  assumes "free_pages s ps" "page_aligned b" "b \<notin> set ps" "unat i < 512"
  shows "free_pages (phy_write64 s (b + i * 8) w) ps"
proof (rule free_pages_cong [OF assms(1)])
  fix p assume p: "p \<in> set ps"
  then have "page_aligned p" using assms(1) by (simp add: free_pages_def)
  then show "phy_read64 (phy_write64 s (b + i * 8) w) p = phy_read64 s p"
    using entry_read_write [of b i p 0 s w] assms p by auto
qed simp

lemma free_pages_clear:
  assumes "free_pages s ps" "page_aligned b" "b \<notin> set ps"
  shows "free_pages (clear_table s b) ps"
proof (rule free_pages_cong [OF assms(1)])
  fix p assume p: "p \<in> set ps"
  then have "page_aligned p" using assms(1) by (simp add: free_pages_def)
  then show "phy_read64 (clear_table s b) p = phy_read64 s p"
    using clear_table_entry [of b p 0 s] assms p by auto
qed simp

lemma unuse_free_pages:
  assumes "free_pages s ps" "page_aligned p" "p \<notin> set ps"
  shows "free_pages (kmem_unuse s p) (p # ps)"
proof -
  have "free_pages (phy_write64 s p (get_last_unused s)) ps"
    using free_pages_write [OF assms, of 0] by simp
  moreover have "aligned8 p" using entry_align8 [OF assms(2), of 0] by simp
  ultimately show ?thesis
    using assms chain_cong [of ps "kmem_unuse s p" "phy_write64 s p (get_last_unused s)"]
    by (auto simp: free_pages_def kmem_unuse_def phy_read64_write64)
qed

lemma getpage_free_pages:
  assumes "free_pages s (p # ps)"
  shows "snd (kmem_getpage s) = p \<and> free_pages (fst (kmem_getpage s)) ps"
  using assms chain_cong [of ps "put_last_unused s (phy_read64 s p)" s]
  by (auto simp: free_pages_def kmem_getpage_def Let_def)

text \<open>
  The allocator's interface: a stack of pages.  Clients take pages they may write to and give
  back pages they own.
\<close>

fun pops :: "('s \<Rightarrow> 's \<times> 'p) \<Rightarrow> nat \<Rightarrow> 's \<Rightarrow> 's \<times> 'p list" where
  "pops pop 0 s = (s, [])"
| "pops pop (Suc n) s = (case pop s of (s, p) \<Rightarrow> (case pops pop n s of (s, ps) \<Rightarrow> (s, p # ps)))"

locale page_stack =
  fixes holds :: "'s \<Rightarrow> 'p list \<Rightarrow> bool" and push :: "'s \<Rightarrow> 'p \<Rightarrow> 's" and pop :: "'s \<Rightarrow> 's \<times> 'p"
    and page :: "'p \<Rightarrow> bool"
  assumes push_ok: "holds s ps \<Longrightarrow> page p \<Longrightarrow> p \<notin> set ps \<Longrightarrow> holds (push s p) (p # ps)"
    and pop_ok: "holds s (p # ps) \<Longrightarrow> snd (pop s) = p \<and> holds (fst (pop s)) ps"
    and holds_distinct: "holds s ps \<Longrightarrow> distinct ps \<and> (\<forall>p \<in> set ps. page p)"
begin

lemma pops_take:
  "holds s ps \<Longrightarrow> n \<le> length ps \<Longrightarrow> snd (pops pop n s) = take n ps \<and> holds (fst (pops pop n s)) (drop n ps)"
proof (induction n arbitrary: s ps)
  case (Suc n)
  then obtain p qs where ps: "ps = p # qs" by (cases ps) auto
  then have "snd (pop s) = p" "holds (fst (pop s)) qs" using pop_ok Suc.prems by blast+
  then show ?case using Suc.IH [of "fst (pop s)" qs] Suc.prems ps by (auto split: prod.split)
qed simp

lemma push_pop: "holds s ps \<Longrightarrow> page p \<Longrightarrow> p \<notin> set ps \<Longrightarrow> snd (pop (push s p)) = p \<and> holds (fst (pop (push s p))) ps"
  using pop_ok push_ok by blast

lemma pushes: "holds s ps \<Longrightarrow> (\<forall>q \<in> set qs. page q) \<Longrightarrow> distinct (qs @ ps) \<Longrightarrow> holds (foldl push s qs) (rev qs @ ps)"
proof (induction qs arbitrary: s ps)
  case (Cons q qs)
  then have "holds (push s q) (q # ps)" by (simp add: push_ok)
  from Cons.IH [OF this] Cons.prems show ?case by simp
qed simp

lemma pushes_pops:
  assumes "holds s ps" "\<forall>q \<in> set qs. page q" "distinct (qs @ ps)"
  shows "snd (pops pop (length qs) (foldl push s qs)) = rev qs \<and> holds (fst (pops pop (length qs) (foldl push s qs))) ps"
  using pops_take [OF pushes [OF assms], of "length qs"] by simp

end

interpretation free_list: page_stack free_pages kmem_unuse kmem_getpage page_aligned
  by unfold_locales
    (simp_all add: unuse_free_pages getpage_free_pages, auto simp: free_pages_def)

section \<open>The walk through the tables\<close>

text \<open>The table the walk for an address reaches at a level, if every entry above is present.\<close>

fun table_at :: "'a kmem_scheme \<Rightarrow> u64 \<Rightarrow> u64 \<Rightarrow> nat \<Rightarrow> u64 option" where
  "table_at s root v 0 = Some root"
| "table_at s root v (Suc l) =
     (case table_at s root v l of
        None \<Rightarrow> None
      | Some b \<Rightarrow>
         (let e = phy_read64 s (b + level_index l v * 8)
          in if e AND 1 = 0 then None else Some (e AND NOT 0xfff)))"

lemma paging_addr_table:
  "kmem_paging_addr s root v l =
    (case table_at s root v l of None \<Rightarrow> (0, False) | Some b \<Rightarrow> (b + level_index l v * 8, True))"
  by (induction l) (auto simp: Let_def split: option.split)

declare kmem_paging_addr.simps [simp del]

lemma table_at_aligned: "page_aligned root \<Longrightarrow> table_at s root v l = Some b \<Longrightarrow> page_aligned b"
  by (cases l) (auto simp: Let_def split: option.splits if_splits)

lemma table_at_None_mono: "table_at s root v l = None \<Longrightarrow> l \<le> k \<Longrightarrow> table_at s root v k = None"
  by (induction k) (auto simp: le_Suc_eq)

lemma table_at_Some_mono: "table_at s root v k = Some b \<Longrightarrow> l \<le> k \<Longrightarrow> \<exists>c. table_at s root v l = Some c"
  using table_at_None_mono by (metis not_None_eq option.distinct(1))

text \<open>The page-table entry of an address, 0 when there is no table for it.\<close>

definition pte :: "'a kmem_scheme \<Rightarrow> u64 \<Rightarrow> u64 \<Rightarrow> u64" where
  "pte s root v = (case kmem_paging_addr s root v 3 of (a, ok) \<Rightarrow> if ok then phy_read64 s a else 0)"

lemma pte_table:
  "pte s root v = (case table_at s root v 3 of None \<Rightarrow> 0 | Some b \<Rightarrow> phy_read64 s (b + level_index 3 v * 8))"
  by (simp add: pte_def paging_addr_table split: option.split)

text \<open>
  Two addresses go through the same tables down to level \<open>l\<close> when their indices above it agree.
  Index 384 of the root is the physical memory map: its entry leads to 1GB pages, which are no
  tables, so the addresses under it are left out, as the code leaves entry 384 out.
\<close>

definition same_path :: "nat \<Rightarrow> u64 \<Rightarrow> u64 \<Rightarrow> bool" where
  "same_path l v w \<longleftrightarrow> (\<forall>k < l. level_index k v = level_index k w)"

definition mappable :: "u64 \<Rightarrow> bool" where
  "mappable v \<longleftrightarrow> level_index 0 v \<noteq> 384"

lemma same_path_0 [simp]: "same_path 0 v w" by (simp add: same_path_def)

lemma same_path_Suc: "same_path (Suc l) v w \<longleftrightarrow> same_path l v w \<and> level_index l v = level_index l w"
  by (auto simp: same_path_def less_Suc_eq)

lemma same_path_refl [simp]: "same_path l v v" by (simp add: same_path_def)

lemma same_path_sym: "same_path l v w \<Longrightarrow> same_path l w v" by (simp add: same_path_def)

lemma same_path_mono: "same_path l v w \<Longrightarrow> k \<le> l \<Longrightarrow> same_path k v w" by (simp add: same_path_def)

lemma table_at_same_path: "same_path l v w \<Longrightarrow> table_at s root v l = table_at s root w l"
  by (induction l) (auto simp: same_path_Suc split: option.split)

text \<open>No table of the tree is reached along two paths.\<close>

definition tree_ok :: "'a kmem_scheme \<Rightarrow> u64 \<Rightarrow> bool" where
  "tree_ok s root \<longleftrightarrow> page_aligned root \<and>
     (\<forall>v w l k b. mappable v \<and> mappable w \<and> l \<le> 3 \<and> k \<le> 3 \<and>
        table_at s root v l = Some b \<and> table_at s root w k = Some b \<longrightarrow> l = k \<and> same_path l v w)"

definition table_pages :: "'a kmem_scheme \<Rightarrow> u64 \<Rightarrow> u64 set" where
  "table_pages s root = {b. \<exists>v l. mappable v \<and> l \<le> 3 \<and> table_at s root v l = Some b}"

lemma tree_okD:
  "tree_ok s root \<Longrightarrow> mappable v \<Longrightarrow> mappable w \<Longrightarrow> l \<le> 3 \<Longrightarrow> k \<le> 3 \<Longrightarrow>
   table_at s root v l = Some b \<Longrightarrow> table_at s root w k = Some b \<Longrightarrow> l = k \<and> same_path l v w"
  unfolding tree_ok_def by blast

text \<open>Writing an entry that no path of the address crosses leaves its walk alone.\<close>

lemma table_at_cong:
  "(\<And>k b. k < l \<Longrightarrow> table_at s root v k = Some b \<Longrightarrow>
      phy_read64 s' (b + level_index k v * 8) = phy_read64 s (b + level_index k v * 8)) \<Longrightarrow>
   table_at s' root v l = table_at s root v l"
proof (induction l)
  case (Suc l)
  then have "table_at s' root v l = table_at s root v l" by (metis less_SucI)
  then show ?case using Suc.prems [of l] by (auto simp: Let_def split: option.split)
qed simp

text \<open>Writing the entry of \<open>v\<close> at its last level changes \<open>v\<close>'s page alone.\<close>

lemma same_page_path: "same_path 4 v w \<longleftrightarrow> same_path 3 v w \<and> level_index 3 v = level_index 3 w"
  using same_path_Suc [of 3 v w] by simp

lemma write_leaf:
  fixes e :: u64
  assumes ok: "tree_ok s root" and v: "mappable v" and t: "table_at s root v 3 = Some b"
  defines "s' \<equiv> phy_write64 s (b + level_index 3 v * 8) e"
  shows "mappable w \<Longrightarrow> l \<le> 3 \<Longrightarrow> table_at s' root w l = table_at s root w l"
    and "mappable w \<Longrightarrow> pte s' root w = (if same_path 4 v w then e else pte s root w)"
proof -
  have r: "page_aligned root" using ok by (simp add: tree_ok_def)
  note b = table_at_aligned [OF r t]
  show walk: "table_at s' root w l = table_at s root w l" if w: "mappable w" "l \<le> 3" for w l
  proof (rule table_at_cong)
    fix k c assume k: "k < l" "table_at s root w k = Some c"
    then have "c \<noteq> b" using tree_okD [OF ok v w(1), of 3 k b] t w(2) by auto
    then show "phy_read64 s' (c + level_index k w * 8) = phy_read64 s (c + level_index k w * 8)"
      using entry_read_write [OF b level_index_less [of 3 v] table_at_aligned [OF r k(2)] level_index_less]
      by (simp add: s'_def)
  qed
  show "pte s' root w = (if same_path 4 v w then e else pte s root w)" if w: "mappable w"
  proof (cases "table_at s root w 3")
    case None
    then have "\<not> same_path 3 v w" using t table_at_same_path [of 3 v w s root] by auto
    then show ?thesis using None walk [OF w, of 3] by (simp add: pte_table same_page_path)
  next
    case (Some c)
    have "c = b \<longleftrightarrow> same_path 3 v w"
      using tree_okD [OF ok v w, of 3 3 b] Some t table_at_same_path [of 3 v w s root] by auto
    then show ?thesis
      using Some walk [OF w, of 3]
        entry_read_write [OF b level_index_less [of 3 v] table_at_aligned [OF r Some] level_index_less, of s e 3 w]
      by (auto simp: pte_table same_page_path s'_def)
  qed
qed

text \<open>
  Linking a fresh table under an entry that is not present: the walks through that entry now
  reach the empty table and end there, all others are as before.
\<close>

lemma present_table:
  assumes "page_aligned n"
  shows "(n OR 0x7) AND 1 \<noteq> (0 :: u64)" "(n OR 0x7) AND NOT 0xfff = n"
proof -
  have "bit ((n OR 7) AND 1) 0" by (simp add: bit_simps)
  then show "(n OR 0x7) AND 1 \<noteq> 0" by (metis bit_0_eq bot_apply bot_bool_def zero_word_def)
  have "n AND NOT 0xfff = n"
    using unat_clear12 [of n] assms by (simp add: page_aligned_iff word_eq_unat)
  moreover have "(7 :: u64) AND NOT 0xfff = 0" by simp
  ultimately show "(n OR 0x7) AND NOT 0xfff = n"
    by (simp only: bit.conj_disj_distrib2 or.right_neutral)
qed

lemma link_table:
  assumes ok: "tree_ok s root" and v: "mappable v" and l: "l < 3" and t: "table_at s root v l = Some b"
    and absent: "phy_read64 s (b + level_index l v * 8) AND 1 = 0"
    and n: "page_aligned n" "n \<notin> table_pages s root"
  defines "s' \<equiv> phy_write64 (clear_table s n) (b + level_index l v * 8) (n OR 0x7)"
  shows "mappable w \<Longrightarrow> k \<le> 3 \<Longrightarrow> table_at s' root w k =
    (if Suc l \<le> k \<and> same_path (Suc l) v w then (if k = Suc l then Some n else None)
     else table_at s root w k)"
    and "mappable w \<Longrightarrow> pte s' root w = pte s root w"
    and "tree_ok s' root" and "table_pages s' root \<subseteq> insert n (table_pages s root)"
proof -
  have r: "page_aligned root" using ok by (simp add: tree_ok_def)
  note b = table_at_aligned [OF r t]
  have nb: "c \<noteq> n" if "table_at s root w k = Some c" "mappable w" "k \<le> 3" for c w k
    using n(2) that by (auto simp: table_pages_def)
  have read: "phy_read64 s' (c + i * 8) =
      (if c = b \<and> i = level_index l v then n OR 0x7 else if c = n then 0 else phy_read64 s (c + i * 8))"
    if "page_aligned c" "unat i < 512" for c i
    using that b n(1) by (simp add: s'_def entry_read_write level_index_less clear_table_entry)
  show walk: "table_at s' root w k =
    (if Suc l \<le> k \<and> same_path (Suc l) v w then (if k = Suc l then Some n else None)
     else table_at s root w k)" if w: "mappable w" and k: "k \<le> 3" for w k
    using k
  proof (induction k)
    case (Suc k)
    show ?case
    proof (cases "Suc l \<le> k \<and> same_path (Suc l) v w")
      case True
      then have "table_at s' root w k = (if k = Suc l then Some n else None)" using Suc by simp
      moreover have "n \<noteq> b" using nb [OF t v] l by simp
      ultimately show ?thesis using True read [OF n(1) level_index_less] by (auto simp: Let_def)
    next
      case False
      then have IH: "table_at s' root w k = table_at s root w k" using Suc by auto
      show ?thesis
      proof (cases "table_at s root w k")
        case None
        have "\<not> (l = k \<and> same_path (Suc l) v w)"
          using None t table_at_same_path [of l v w s root] by (auto simp: same_path_Suc)
        then show ?thesis using None IH False by (auto simp: le_Suc_eq)
      next
        case (Some c)
        have cn: "c \<noteq> n" using nb [OF Some w] Suc.prems by simp
        have hit: "c = b \<and> level_index k w = level_index l v \<longleftrightarrow> l = k \<and> same_path (Suc l) v w"
          using tree_okD [OF ok v w, of l k b] t Some l Suc.prems table_at_same_path [of l v w s root]
          by (auto simp: same_path_Suc)
        have rd: "phy_read64 s' (c + level_index k w * 8) =
            (if l = k \<and> same_path (Suc l) v w then n OR 0x7 else phy_read64 s (c + level_index k w * 8))"
          unfolding read [OF table_at_aligned [OF r Some] level_index_less, of k w] hit
          using cn by (simp only: if_False)
        show ?thesis
          using IH Some rd present_table [OF n(1)] False by (auto simp: Let_def)
      qed
    qed
  qed simp
  show "pte s' root w = pte s root w" if w: "mappable w"
  proof (cases "same_path (Suc l) v w")
    case True
    then have "same_path l v w" "level_index l w = level_index l v" by (auto simp: same_path_Suc)
    then have "table_at s root w (Suc l) = None"
      using t absent table_at_same_path [of l v w s root] by (simp add: Let_def)
    then have "table_at s root w 3 = None" using table_at_None_mono l by (metis Suc_leI)
    moreover have "n \<noteq> b" using nb [OF t v] l by simp
    then have "phy_read64 s' (n + level_index 3 w * 8) = 0"
      using read [OF n(1) level_index_less] by simp
    ultimately show ?thesis using walk [OF w, of 3] True l by (simp add: pte_table)
  next
    case False
    then have e: "table_at s' root w 3 = table_at s root w 3" using walk [OF w, of 3] by simp
    show ?thesis
    proof (cases "table_at s root w 3")
      case (Some c)
      have "c \<noteq> b" using tree_okD [OF ok v w, of l 3 b] t Some l by auto
      then show ?thesis
        using e Some nb [OF Some w] read [OF table_at_aligned [OF r Some] level_index_less]
        by (simp add: pte_table)
    qed (simp add: e pte_table)
  qed
  show "tree_ok s' root" unfolding tree_ok_def
  proof (intro conjI allI impI r)
    fix u w i j c
    assume A: "mappable u \<and> mappable w \<and> i \<le> 3 \<and> j \<le> 3 \<and>
      table_at s' root u i = Some c \<and> table_at s' root w j = Some c"
    then have m: "mappable u" "mappable w" "i \<le> 3" "j \<le> 3" by auto
    let ?hit = "\<lambda>u i. Suc l \<le> i \<and> same_path (Suc l) v u"
    have new: "i = Suc l \<and> c = n" if "mappable u" "i \<le> 3" "?hit u i" "table_at s' root u i = Some c" for u i
      using walk [OF that(1,2)] that(3,4) by (auto split: if_splits)
    have old: "table_at s root u i = Some c \<and> c \<noteq> n" if "mappable u" "i \<le> 3" "\<not> ?hit u i" "table_at s' root u i = Some c" for u i
      using walk [OF that(1,2)] that nb by (auto split: if_splits)
    have "i = j \<and> same_path i u w"
    proof (cases "?hit u i")
      case True
      then have "i = Suc l" "c = n" using new m A by auto
      moreover have "?hit w j" using old [OF m(2,4)] A \<open>c = n\<close> by auto
      ultimately show ?thesis using new [OF m(2,4)] A True by (auto simp: same_path_def)
    next
      case False
      then have u: "table_at s root u i = Some c" "c \<noteq> n" using old [OF m(1,3)] A by auto
      moreover have "\<not> ?hit w j" using new [OF m(2,4)] A u(2) by auto
      ultimately show ?thesis using old [OF m(2,4)] A tree_okD [OF ok m] by auto
    qed
    then show "i = j" "same_path i u w" by auto
  qed
  show "table_pages s' root \<subseteq> insert n (table_pages s root)"
    using walk unfolding table_pages_def by (clarsimp split: if_splits) blast+
qed


text \<open>States that read the same have the same tables.\<close>

lemma table_at_reads: "(\<And>a. phy_read64 s' a = phy_read64 s a) \<Longrightarrow> table_at s' root v l = table_at s root v l"
  by (rule table_at_cong) simp

lemma tree_reads:
  assumes "\<And>a. phy_read64 s' a = phy_read64 s a"
  shows "tree_ok s' root = tree_ok s root" "table_pages s' root = table_pages s root" "pte s' root v = pte s root v"
  using assms table_at_reads [OF assms] by (simp_all add: tree_ok_def table_pages_def pte_table split: option.split)

text \<open>States that agree on the tables of a root have the same tree.\<close>

lemma tree_agree:
  assumes "\<And>c i. c \<in> table_pages s root \<Longrightarrow> unat i < 512 \<Longrightarrow>
      phy_read64 s' (c + i * 8) = phy_read64 s (c + i * 8)"
  shows "mappable v \<Longrightarrow> l \<le> 3 \<Longrightarrow> table_at s' root v l = table_at s root v l"
    and "mappable v \<Longrightarrow> pte s' root v = pte s root v"
    and "table_pages s' root = table_pages s root" and "tree_ok s' root = tree_ok s root"
proof -
  have page: "c \<in> table_pages s root" if "mappable v" "l \<le> 3" "table_at s root v l = Some c" for v l c
    using that unfolding table_pages_def by blast
  show t: "table_at s' root v l = table_at s root v l" if "mappable v" "l \<le> 3" for v l
    using that by (intro table_at_cong assms level_index_less page) auto
  show "pte s' root v = pte s root v" if "mappable v"
    using t [OF that, of 3] assms [OF page [OF that, of 3] level_index_less]
    by (simp add: pte_table split: option.split)
  show "table_pages s' root = table_pages s root" using t by (simp add: table_pages_def cong: conj_cong)
  show "tree_ok s' root = tree_ok s root" using t unfolding tree_ok_def by (simp cong: conj_cong)
qed

lemma getpage_reads [simp]:
  "phy_read64 (fst (kmem_getpage s)) a = phy_read64 s a" "more (fst (kmem_getpage s)) = more s"
  "cr3_register (fst (kmem_getpage s)) = cr3_register s" "last_unused (fst (kmem_getpage s)) = last_unused s"
  by (simp_all add: kmem_getpage_def Let_def)

section \<open>Creating the missing tables\<close>

text \<open>A tree of tables with free pages \<open>ps\<close>, none of which is a table of it.\<close>

definition paging_ok :: "'a kmem_scheme \<Rightarrow> u64 \<Rightarrow> u64 list \<Rightarrow> bool" where
  "paging_ok s root ps \<longleftrightarrow> tree_ok s root \<and> free_pages s ps \<and> set ps \<inter> table_pages s root = {}"

lemma unuse_ok:
  assumes "paging_ok s root ps" "page_aligned p" "p \<notin> set ps" "p \<notin> table_pages s root"
  shows "paging_ok (kmem_unuse s p) root (p # ps)"
    and "mappable v \<Longrightarrow> l \<le> 3 \<Longrightarrow> table_at (kmem_unuse s p) root v l = table_at s root v l"
    and "mappable v \<Longrightarrow> pte (kmem_unuse s p) root v = pte s root v"
    and "table_pages (kmem_unuse s p) root = table_pages s root"
proof -
  have agree: "phy_read64 (kmem_unuse s p) (c + i * 8) = phy_read64 s (c + i * 8)"
    if "c \<in> table_pages s root" "unat i < 512" for c i
  proof -
    have "page_aligned c"
      using that assms(1) table_at_aligned by (auto simp: table_pages_def paging_ok_def tree_ok_def)
    then show ?thesis
      using entry_read_write [OF assms(2), of 0 c i s] that assms(4) by (auto simp: kmem_unuse_def)
  qed
  note A = tree_agree [of s root "kmem_unuse s p", OF agree]
  show "mappable v \<Longrightarrow> l \<le> 3 \<Longrightarrow> table_at (kmem_unuse s p) root v l = table_at s root v l"
    "mappable v \<Longrightarrow> pte (kmem_unuse s p) root v = pte s root v"
    "table_pages (kmem_unuse s p) root = table_pages s root"
    using A(1-3) by auto
  show "paging_ok (kmem_unuse s p) root (p # ps)"
    using assms A(3,4) unuse_free_pages [of s ps p] by (auto simp: paging_ok_def)
qed

text \<open>
  What creating tables does: no address changes its entry, tables that were there stay, and
  memory outside the tables and the free pages is not touched, nor is the entry of the physical
  memory map in the root.
\<close>

definition in_page :: "u64 \<Rightarrow> ptr \<Rightarrow> bool" where
  "in_page c x \<longleftrightarrow> unat (x - (PHY_MAP_BASE + c)) < 4096"

lemma write_in_page:
  assumes "unat i < 512" "\<not> in_page c x"
  shows "vmem (phy_write64 s (c + i * 8) w) x = vmem s x"
proof -
  have "\<not> unat (x - (PHY_MAP_BASE + (c + i * 8))) < 8"
  proof
    assume lt: "unat (x - (PHY_MAP_BASE + (c + i * 8))) < 8"
    have i8: "unat (i * 8) = unat i * 8" using assms(1) by (simp add: unat_word_ariths)
    have "unat (i * 8 + (x - (PHY_MAP_BASE + (c + i * 8)))) = unat i * 8 + unat (x - (PHY_MAP_BASE + (c + i * 8)))"
      using lt assms(1) unfolding i8 [symmetric] by (subst unat_word_ariths) (simp add: i8)
    moreover have "i * 8 + (x - (PHY_MAP_BASE + (c + i * 8))) = x - (PHY_MAP_BASE + c)"
      by (simp add: algebra_simps)
    ultimately show False using lt assms by (simp add: in_page_def)
  qed
  then show ?thesis by (simp add: phy_write64_def store_le_def)
qed

lemma clear_in_page: "\<not> in_page t x \<Longrightarrow> vmem (clear_table s t) x = vmem s x"
proof -
  assume x: "\<not> in_page t x"
  have "vmem (foldl (\<lambda>s i. phy_write64 s (t + of_nat i * 8) 0) s [0..<n]) x = vmem s x" if "n \<le> 512" for n
    using that by (induction n) (simp_all add: write_in_page unat_of_nat x)
  from this [of 512] show ?thesis by (simp add: clear_table_def)
qed

definition grown :: "u64 \<Rightarrow> u64 list \<Rightarrow> 'a kmem_scheme \<Rightarrow> 'a kmem_scheme \<Rightarrow> bool" where
  "grown root ps s s' \<longleftrightarrow>
     (\<forall>w. mappable w \<longrightarrow> pte s' root w = pte s root w) \<and>
     (\<forall>w k c. mappable w \<and> k \<le> 3 \<and> table_at s root w k = Some c \<longrightarrow> table_at s' root w k = Some c) \<and>
     table_pages s' root \<subseteq> table_pages s root \<union> set ps \<and>
     (\<forall>c i. page_aligned c \<and> unat i < 512 \<and> c \<notin> table_pages s root \<and> c \<notin> set ps \<longrightarrow>
        phy_read64 s' (c + i * 8) = phy_read64 s (c + i * 8)) \<and>
     (\<forall>x. (\<forall>c \<in> table_pages s root \<union> set ps. \<not> in_page c x) \<longrightarrow> vmem s' x = vmem s x) \<and>
     cr3_register s' = cr3_register s \<and> last_unused s' = last_unused s \<and>
     phy_read64 s' (root + 384 * 8) = phy_read64 s (root + 384 * 8)"

lemma grown_refl [simp]: "grown root ps s s"
  by (simp add: grown_def)

lemma grown_trans:
  assumes "grown root ps s s'" "grown root qs s' s''" "set qs \<subseteq> set ps"
  shows "grown root ps s s''"
proof (unfold grown_def, intro conjI allI impI)
  fix c i :: u64
  assume A: "page_aligned c \<and> unat i < 512 \<and> c \<notin> table_pages s root \<and> c \<notin> set ps"
  then have "c \<notin> table_pages s' root" "c \<notin> set qs" using assms by (auto simp: grown_def)
  then show "phy_read64 s'' (c + i * 8) = phy_read64 s (c + i * 8)"
    using A assms by (simp add: grown_def)
next
  fix x
  assume x: "\<forall>c \<in> table_pages s root \<union> set ps. \<not> in_page c x"
  then have "\<forall>c \<in> table_pages s' root \<union> set qs. \<not> in_page c x" using assms by (auto simp: grown_def)
  then have "vmem s'' x = vmem s' x" "vmem s' x = vmem s x" using x assms(1,2) unfolding grown_def by blast+
  then show "vmem s'' x = vmem s x" by simp
qed (use assms in \<open>auto simp: grown_def\<close>)

lemma grown_mono: "grown root qs s s' \<Longrightarrow> set qs \<subseteq> set ps \<Longrightarrow> grown root ps s s'"
  unfolding grown_def by blast

lemma link_fresh:
  assumes ok: "paging_ok s root (n # ps)" and v: "mappable v" and l: "l < 3" and t: "table_at s root v l = Some b"
    and absent: "phy_read64 s (b + level_index l v * 8) AND 1 = 0"
  defines "s' \<equiv> phy_write64 (clear_table (fst (kmem_getpage s)) n) (b + level_index l v * 8) (n OR 0x7)"
  shows "paging_ok s' root ps \<and> grown root [n] s s' \<and> table_at s' root v (Suc l) = Some n"
proof -
  let ?g = "fst (kmem_getpage s)"
  note reads = tree_reads [of ?g s root, OF getpage_reads(1)] table_at_reads [of ?g s root, OF getpage_reads(1)]
  have g: "tree_ok ?g root" "table_at ?g root v l = Some b"
    "phy_read64 ?g (b + level_index l v * 8) AND 1 = 0" and f: "free_pages s (n # ps)"
    using ok t absent by (simp_all add: paging_ok_def reads)
  have n: "page_aligned n" "n \<notin> table_pages ?g root" "n \<notin> set ps"
    using ok f by (auto simp: paging_ok_def free_pages_def reads)
  have r: "page_aligned root" using g by (simp add: tree_ok_def)
  note b = table_at_aligned [OF r t]
  have bt: "b \<in> table_pages s root" using t v l by (auto simp: table_pages_def intro!: exI [of _ v] exI [of _ l])
  then have bn: "b \<notin> set ps" "b \<noteq> n" using ok by (auto simp: paging_ok_def)
  note L = link_table [OF g(1) v l g(2,3) n(1,2), folded s'_def]
  have "free_pages ?g ps" using getpage_free_pages [OF f] by simp
  then have fr: "free_pages s' ps"
    unfolding s'_def using n b bn level_index_less by (intro free_pages_write free_pages_clear)
  have tp: "table_pages s' root \<subseteq> insert n (table_pages s root)" using L(4) by (simp add: reads)
  have "paging_ok s' root ps"
    using fr L(3) tp ok n(3) by (auto simp: paging_ok_def)
  moreover have "table_at s' root v (Suc l) = Some n" using L(1) [OF v, of "Suc l"] l by simp
  moreover have "table_at s' root w k = Some c" if "mappable w" "k \<le> 3" "table_at s root w k = Some c" for w k c
  proof -
    have "\<not> (Suc l \<le> k \<and> same_path (Suc l) v w)"
    proof
      assume A: "Suc l \<le> k \<and> same_path (Suc l) v w"
      then have "table_at s root w (Suc l) = None"
        using t absent table_at_same_path [of "Suc l" v w s root] by (simp add: Let_def)
      then have "table_at s root w k = None" using table_at_None_mono A by blast
      then show False using that(3) by simp
    qed
    then show ?thesis using L(1) [OF that(1,2)] that(3) by (simp add: reads)
  qed
  moreover have "phy_read64 s' (c + i * 8) = phy_read64 s (c + i * 8)"
    if "page_aligned c" "unat i < 512" "c \<notin> table_pages s root" "c \<noteq> n" for c i
    using that bt n b by (auto simp: s'_def entry_read_write clear_table_entry level_index_less)
  moreover have "vmem s' x = vmem s x" if "\<forall>c \<in> table_pages s root \<union> set [n]. \<not> in_page c x" for x
    using that bt by (simp add: s'_def write_in_page clear_in_page level_index_less kmem_getpage_def Let_def)
  moreover have "cr3_register s' = cr3_register s" "last_unused s' = last_unused s"
    by (simp_all add: s'_def)
  moreover have "phy_read64 s' (root + 384 * 8) = phy_read64 s (root + 384 * 8)"
  proof -
    have "root \<in> table_pages s root" using v unfolding table_pages_def by (intro CollectI exI [of _ v] exI [of _ 0]) simp
    then have "root \<noteq> n" using n(2) by (auto simp: reads)
    moreover have "\<not> (root = b \<and> 384 = level_index l v)"
    proof
      assume A: "root = b \<and> 384 = level_index l v"
      then have "l = 0" using tree_okD [OF g(1) v v, of l 0 root] g(2) l by simp
      then show False using A v by (simp add: mappable_def)
    qed
    ultimately show ?thesis
      using entry_read_write [OF b level_index_less r, where i' = 384 and s = "clear_table ?g n"]
        clear_table_entry [OF n(1) r, of 384 ?g] unfolding s'_def by auto
  qed
  ultimately show ?thesis
    using L(2) tp by (auto simp: grown_def reads)
qed

text \<open>
  The hook's side of the bargain: it leaves memory and the free list alone; \<open>obs\<close> is whatever
  of the state the hook may change, and \<open>step\<close> how.
\<close>

locale table_hook =
  fixes hook :: "'a kmem_scheme \<Rightarrow> u64 \<Rightarrow> 'a kmem_scheme" and obs :: "'a kmem_scheme \<Rightarrow> 'o"
    and step :: "'o \<Rightarrow> u64 \<Rightarrow> 'o"
  assumes hook_vmem: "vmem (hook s n) = vmem s"
    and hook_free: "get_last_unused (hook s n) = get_last_unused s"
    and hook_frame: "cr3_register (hook s n) = cr3_register s" "last_unused (hook s n) = last_unused s"
    and obs_hook: "obs (hook s n) = step (obs s) n"
    and obs_write: "obs (phy_write64 s a v) = obs s"
    and obs_put: "obs (put_last_unused s v) = obs s"
begin

lemma hook_reads: "phy_read64 (hook s n) a = phy_read64 s a"
  by (simp add: phy_read64_def hook_vmem)

lemma obs_clear: "obs (clear_table s n) = obs s"
proof -
  have "obs (foldl (\<lambda>s i. phy_write64 s (n + of_nat i * 8) 0) s is) = obs s" for "is"
    by (induction "is" arbitrary: s) (simp_all add: obs_write)
  then show ?thesis by (simp add: clear_table_def)
qed

lemma obs_getpage: "obs (fst (kmem_getpage s)) = obs s"
  by (simp add: kmem_getpage_def obs_put Let_def)

lemma hook_quiet:
  shows "paging_ok (hook s n) root ps = paging_ok s root ps" "grown root ps s (hook s n)"
    "table_at (hook s n) root v l = table_at s root v l"
proof -
  note reads = tree_reads [of "hook s n" s root, OF hook_reads] table_at_reads [of "hook s n" s root, OF hook_reads]
  have "chain (hook s n) h ps = chain s h ps" for h by (rule chain_cong) (simp add: hook_reads)
  then show "paging_ok (hook s n) root ps = paging_ok s root ps"
    by (simp add: paging_ok_def reads free_pages_def hook_free)
  show "grown root ps s (hook s n)" by (simp add: grown_def reads hook_reads hook_vmem hook_frame)
  show "table_at (hook s n) root v l = table_at s root v l" by (rule reads)
qed

lemma create_levels:
  assumes "paging_ok s root ps" "mappable v" "l \<le> 3" "l \<le> length ps"
  shows "\<exists>s' b m. foldl (create_level hook root v) (s, -1) [0..<Suc l] = (s', b + level_index l v * 8) \<and>
    m \<le> l \<and> paging_ok s' root (drop m ps) \<and> grown root (take m ps) s s' \<and>
    table_at s' root v l = Some b \<and> obs s' = foldl step (obs s) (take m ps)"
  using assms(3,4)
proof (induction l)
  case 0
  have "foldl (create_level hook root v) (s, -1) [0..<Suc 0] = (s, root + level_index 0 v * 8)"
    by (simp add: create_level_def paging_addr_table)
  then show ?case using assms(1) by (auto intro!: exI [of _ 0])
next
  case (Suc l)
  then obtain s1 b m where IH: "foldl (create_level hook root v) (s, -1) [0..<Suc l] = (s1, b + level_index l v * 8)"
    "m \<le> l" "paging_ok s1 root (drop m ps)" "grown root (take m ps) s s1" "table_at s1 root v l = Some b"
    "obs s1 = foldl step (obs s) (take m ps)"
    by auto
  have next_level: "foldl (create_level hook root v) (s, -1) [0..<Suc (Suc l)] =
      create_level hook root v (s1, b + level_index l v * 8) (Suc l)"
    using IH(1) by simp
  show ?case
  proof (cases "table_at s1 root v (Suc l)")
    case (Some c)
    then have "create_level hook root v (s1, b + level_index l v * 8) (Suc l) = (s1, c + level_index (Suc l) v * 8)"
      by (simp only: create_level_def paging_addr_table Some option.case prod.case Let_def if_True)
    then show ?thesis using next_level IH Some by (metis le_SucI)
  next
    case None
    obtain n qs where ps: "drop m ps = n # qs" using Suc.prems IH(2) by (metis Cons_nth_drop_Suc Suc_le_eq order.strict_trans1)
    have m: "drop (Suc m) ps = qs" "take (Suc m) ps = take m ps @ [n]"
      using ps by (metis drop_Suc list.sel(3) tl_drop) (metis ps take_hd_drop list.distinct(1) drop_eq_Nil list.sel(1) not_le_imp_less)
    let ?s2 = "phy_write64 (clear_table (fst (kmem_getpage s1)) n) (b + level_index l v * 8) (n OR 0x7)"
    let ?s3 = "hook ?s2 n"
    have absent: "phy_read64 s1 (b + level_index l v * 8) AND 1 = 0"
      using None IH(5) by (simp add: Let_def split: if_splits)
    have L: "paging_ok ?s2 root qs" "grown root [n] s1 ?s2" "table_at ?s2 root v (Suc l) = Some n"
      using link_fresh [of s1 root n qs v l b] IH(3,5) ps assms(2) Suc.prems absent by auto
    have "snd (kmem_getpage s1) = n"
      using IH(3) ps getpage_free_pages by (auto simp: paging_ok_def)
    then obtain g where g: "kmem_getpage s1 = (g, n)" by (metis prod.collapse)
    have "kmem_paging_addr s1 root v (Suc l) = (0, False)"
      by (simp only: paging_addr_table None option.case)
    moreover have "kmem_paging_addr ?s3 root v (Suc l) = (n + level_index (Suc l) v * 8, True)"
      by (simp only: paging_addr_table hook_quiet(3) L(3) option.case)
    ultimately have "create_level hook root v (s1, b + level_index l v * 8) (Suc l) = (?s3, n + level_index (Suc l) v * 8)"
      by (simp add: create_level_def g)
    moreover have "grown root (take m ps @ [n]) s ?s2"
      using grown_trans [OF grown_mono [OF IH(4), of "take m ps @ [n]"] L(2)] by auto
    then have "grown root (take m ps @ [n]) s ?s3"
      using grown_trans [OF _ hook_quiet(2) [of root "[]" ?s2 n]] by simp
    then have "grown root (take (Suc m) ps) s ?s3" by (simp only: m(2))
    moreover have "obs ?s3 = foldl step (obs s) (take (Suc m) ps)"
      by (simp add: obs_hook obs_write obs_clear obs_getpage IH(6) m(2))
    ultimately show ?thesis
      using next_level L(1,3) m(1) IH(2) hook_quiet(1) [of ?s2 n root qs] hook_quiet(3) [of ?s2 n root v "Suc l"]
      by (metis Suc_le_mono)
  qed
qed

lemma create_addr:
  assumes "paging_ok s root ps" "mappable v" "l \<le> 3" "l \<le> length ps"
  shows "\<exists>s' b m. paging_addr_create_with hook s root v l = (s', b + level_index l v * 8) \<and>
    m \<le> l \<and> paging_ok s' root (drop m ps) \<and> grown root (take m ps) s s' \<and>
    table_at s' root v l = Some b \<and> obs s' = foldl step (obs s) (take m ps)"
proof (cases "table_at s root v l")
  case (Some b)
  then have "paging_addr_create_with hook s root v l = (s, b + level_index l v * 8)"
    by (simp add: paging_addr_create_with_def paging_addr_table)
  then show ?thesis using assms(1) Some by (intro exI [of _ s] exI [of _ b] exI [of _ 0]) simp
next
  case None
  obtain s' b m where C: "foldl (create_level hook root v) (s, -1) [0..<Suc l] = (s', b + level_index l v * 8)"
    "m \<le> l" "paging_ok s' root (drop m ps)" "grown root (take m ps) s s'" "table_at s' root v l = Some b"
    "obs s' = foldl step (obs s) (take m ps)"
    using create_levels [OF assms] by blast
  have "kmem_paging_addr s root v l = (0, False)" "kmem_paging_addr s' root v l = (b + level_index l v * 8, True)"
    by (simp_all only: paging_addr_table None C(5) option.case)
  then have "paging_addr_create_with hook s root v l = (s', b + level_index l v * 8)"
    using C(1) unfolding paging_addr_create_with_def by (simp only: prod.case Let_def Suc_eq_plus1) simp
  then show ?thesis using C by blast
qed

end

interpretation plain: table_hook "\<lambda>s n. s" more "\<lambda>m n. m"
  by unfold_locales simp_all

lemma write_leaf_ok:
  fixes e :: u64
  assumes ok: "paging_ok s root ps" and v: "mappable v" and t: "table_at s root v 3 = Some b"
  defines "s' \<equiv> phy_write64 s (b + level_index 3 v * 8) e"
  shows "paging_ok s' root ps" "table_pages s' root = table_pages s root"
proof -
  have tree: "tree_ok s root" and f: "free_pages s ps" using ok by (auto simp: paging_ok_def)
  note walk = write_leaf(1) [OF tree v t, of _ _ e, folded s'_def]
  have bt: "b \<in> table_pages s root" unfolding table_pages_def
    by (rule CollectI, rule exI [of _ v], rule exI [of _ 3]) (simp only: v t order_refl simp_thms)
  have "page_aligned b" using table_at_aligned t tree by (auto simp: tree_ok_def)
  then have "free_pages s' ps"
    unfolding s'_def using f bt ok by (intro free_pages_write level_index_less) (auto simp: paging_ok_def)
  moreover show tp: "table_pages s' root = table_pages s root"
    using walk by (simp add: table_pages_def cong: conj_cong)
  moreover have "tree_ok s' root" unfolding tree_ok_def
  proof (intro conjI allI impI)
    show "page_aligned root" using tree by (simp add: tree_ok_def)
    fix u w i j c
    assume A: "mappable u \<and> mappable w \<and> i \<le> 3 \<and> j \<le> 3 \<and>
      table_at s' root u i = Some c \<and> table_at s' root w j = Some c"
    then have "table_at s root u i = Some c" "table_at s root w j = Some c" using walk by auto
    then show "i = j" "same_path i u w" using A tree_okD [OF tree] by blast+
  qed
  ultimately show "paging_ok s' root ps" using ok by (simp add: paging_ok_def)
qed

text \<open>
  The page of an address, as the four indices see it: bits 12 to 47.  \<open>same_page\<close> is what
  \<open>same_path 4\<close> amounts to.
\<close>

definition same_page :: "u64 \<Rightarrow> u64 \<Rightarrow> bool" where
  "same_page v w \<longleftrightarrow> take_bit 36 (drop_bit 12 v) = take_bit 36 (drop_bit 12 w)"

lemma level_index_bit: "bit (level_index l v) n \<longleftrightarrow> n < 9 \<and> bit v (12 + (3 - l) * 9 + n)"
proof -
  have "(0x1ff :: u64) = mask 9" by (simp add: mask_eq_exp_minus_1)
  show ?thesis by (auto simp: level_index_def \<open>0x1ff = mask 9\<close> bit_simps)
qed

lemma same_path_page: "same_path 4 v w \<longleftrightarrow> same_page v w"
proof
  assume p: "same_path 4 v w"
  have "bit v (12 + n) = bit w (12 + n)" if "n < 36" for n
  proof -
    define k where "k = 3 - n div 9"
    have k: "k < 4" "3 - k = n div 9" using that by (auto simp: k_def)
    then have "level_index k v = level_index k w" using p by (simp add: same_path_def)
    then have "bit (level_index k v) (n mod 9) = bit (level_index k w) (n mod 9)" by simp
    moreover have "12 + n div 9 * 9 + n mod 9 = 12 + n" by simp
    ultimately show ?thesis unfolding level_index_bit k(2) by simp
  qed
  then show "same_page v w"
    unfolding same_page_def by (intro bit_word_eqI) (auto simp: bit_simps)
next
  assume p: "same_page v w"
  have "bit v (12 + n) = bit w (12 + n)" if "n < 36" for n
    using p that unfolding same_page_def by (auto simp: bit_simps bit_eq_iff dest: spec [of _ n])
  moreover have "(3 - k) * 9 + n < 36" if "n < 9" for k n :: nat
    using that by arith
  ultimately have "bit v (12 + (3 - k) * 9 + n) = bit w (12 + (3 - k) * 9 + n)" if "n < 9" for k n
    using that by (simp only: add.assoc)
  then show "same_path 4 v w"
    unfolding same_path_def by (intro allI impI bit_word_eqI) (auto simp: level_index_bit)
qed


lemma pte_same_page: "same_page v w \<Longrightarrow> pte s root v = pte s root w"
  using table_at_same_path [of 3 v w s root]
  by (simp add: same_path_page [symmetric] pte_table same_page_path split: option.split)

lemma frame_aligned: "page_aligned (e AND NOT KMEM_FLAG_MASK)"
proof -
  have "bit (0xfff :: u64) n \<Longrightarrow> bit KMEM_FLAG_MASK n" for n
    unfolding KMEM_FLAG_MASK_def bit_or_iff by blast
  then show ?thesis
    unfolding page_aligned_def by (intro bit_word_eqI) (auto simp: bit_simps)
qed

lemma table_pagesI: "mappable w \<Longrightarrow> l \<le> 3 \<Longrightarrow> table_at s root w l = Some c \<Longrightarrow> c \<in> table_pages s root"
  unfolding table_pages_def by blast

lemma table_pages_aligned: "tree_ok s root \<Longrightarrow> c \<in> table_pages s root \<Longrightarrow> page_aligned c"
  using table_at_aligned unfolding table_pages_def tree_ok_def by blast

lemma data_frame: "p AND KMEM_FLAG_MASK = 0 \<Longrightarrow> (p OR KMEM_MAP_DATA) AND NOT KMEM_FLAG_MASK = p"
proof -
  assume p: "p AND KMEM_FLAG_MASK = 0"
  have "p AND NOT KMEM_FLAG_MASK = p"
  proof (rule bit_word_eqI)
    fix n
    have "\<not> bit (p AND KMEM_FLAG_MASK) n" using p by simp
    then show "bit (p AND NOT KMEM_FLAG_MASK) n = bit p n"
      using bit_imp_le_length [of p n] by (auto simp: bit_and_iff bit_not_iff)
  qed
  moreover have "KMEM_MAP_DATA AND NOT KMEM_FLAG_MASK = 0"
    by (simp add: KMEM_MAP_DATA_def KMEM_FLAG_MASK_def)
  ultimately show ?thesis by (simp add: bit.conj_disj_distrib2)
qed

lemma data_present: "(p OR KMEM_MAP_DATA) AND 1 \<noteq> 0"
proof -
  have "bit ((p OR KMEM_MAP_DATA) AND 1) 0" by (simp add: KMEM_MAP_DATA_def bit_simps)
  then show ?thesis by (metis bit_0_eq bot_apply bot_bool_def zero_word_def)
qed

section \<open>Mapping a page\<close>

lemma pte_entry: "table_at s root v 3 = Some b \<Longrightarrow> pte s root v = phy_read64 s (b + level_index 3 v * 8)"
  by (simp add: pte_table)

lemma kmem_map_ok:
  assumes "paging_ok s root ps" "mappable v" "3 \<le> length ps"
  shows "\<exists>m \<le> 3. paging_ok (kmem_map s root v page flags) root (drop m ps) \<and>
    (\<forall>w. mappable w \<longrightarrow> pte (kmem_map s root v page flags) root w =
       (if same_page v w then page OR flags else pte s root w))"
proof -
  obtain s' b m where C: "kmem_paging_addr_create s root v 3 = (s', b + level_index 3 v * 8)"
    "m \<le> 3" "paging_ok s' root (drop m ps)" "grown root (take m ps) s s'" "table_at s' root v 3 = Some b"
    using plain.create_addr [OF assms(1,2) _ assms(3), folded kmem_paging_addr_create_def] by auto
  have "tree_ok s' root" using C(3) by (simp add: paging_ok_def)
  note W = write_leaf(2) [OF this assms(2) C(5), of _ "page OR flags"]
  have "kmem_map s root v page flags = phy_write64 s' (b + level_index 3 v * 8) (page OR flags)"
    using C(1) by (simp add: kmem_map_def)
  then show ?thesis
    using C(2,4) W write_leaf_ok(1) [OF C(3) assms(2) C(5), of "page OR flags"]
    by (auto simp: same_path_page grown_def intro!: exI [of _ m])
qed

text \<open>What a client keeps beside the memory is not touched.\<close>

lemma kmem_map_more: "kmem.more (kmem_map s root v p flags) = kmem.more s"
proof -
  have l: "kmem.more (fst (create_level (\<lambda>s n. s) root v x i)) = kmem.more (fst x)" for x i
    by (simp add: create_level_def Let_def plain.obs_clear plain.obs_getpage split: prod.split)
      (metis fst_conv plain.obs_getpage)
  have "kmem.more (fst (foldl (create_level (\<lambda>s n. s) root v) x is)) = kmem.more (fst x)" for x "is"
    by (induction "is" arbitrary: x) (simp_all add: l)
  from this [of "(s, -1)" "[0..<3 + 1]"]
  have "kmem.more (fst (kmem_paging_addr_create s root v 3)) = kmem.more s"
    by (simp add: kmem_paging_addr_create_def paging_addr_create_with_def Let_def split: prod.split del: upt_Suc)
      (metis fst_conv)
  then show ?thesis by (simp add: kmem_map_def split: prod.split) (metis fst_conv)
qed

lemma kmem_set_flags_ok:
  assumes "paging_ok s root ps" "mappable v" "3 \<le> length ps"
  shows "\<exists>m \<le> 3. paging_ok (kmem_set_flags s root v flags) root (drop m ps) \<and>
    (\<forall>w. mappable w \<longrightarrow> pte (kmem_set_flags s root v flags) root w =
       (if same_page v w then pte s root v AND NOT KMEM_FLAG_MASK OR flags else pte s root w))"
proof -
  obtain s' b m where C: "kmem_paging_addr_create s root v 3 = (s', b + level_index 3 v * 8)"
    "m \<le> 3" "paging_ok s' root (drop m ps)" "grown root (take m ps) s s'" "table_at s' root v 3 = Some b"
    using plain.create_addr [OF assms(1,2) _ assms(3), folded kmem_paging_addr_create_def] by auto
  have "tree_ok s' root" using C(3) by (simp add: paging_ok_def)
  note W = write_leaf(2) [OF this assms(2) C(5)]
  have e: "phy_read64 s' (b + level_index 3 v * 8) = pte s root v"
    using pte_entry [OF C(5)] C(4) assms(2) by (simp add: grown_def)
  then have "kmem_set_flags s root v flags =
      phy_write64 s' (b + level_index 3 v * 8) (pte s root v AND NOT KMEM_FLAG_MASK OR flags)"
    using C(1) by (simp add: kmem_set_flags_def)
  then show ?thesis
    using C(2,4) W write_leaf_ok(1) [OF C(3) assms(2) C(5)]
    by (auto simp: same_path_page grown_def intro!: exI [of _ m])
qed

lemma getpage_ok:
  assumes "paging_ok s root (n # ps)"
  shows "snd (kmem_getpage s) = n" "paging_ok (fst (kmem_getpage s)) root ps"
    "pte (fst (kmem_getpage s)) root w = pte s root w"
    "table_at (fst (kmem_getpage s)) root v l = table_at s root v l"
proof -
  note reads = tree_reads [of "fst (kmem_getpage s)" s root, OF getpage_reads(1)]
    table_at_reads [of "fst (kmem_getpage s)" s root, OF getpage_reads(1)]
  have f: "free_pages s (n # ps)" using assms by (simp add: paging_ok_def)
  show "snd (kmem_getpage s) = n" using getpage_free_pages [OF f] by simp
  show "paging_ok (fst (kmem_getpage s)) root ps"
    using assms getpage_free_pages [OF f] by (simp add: paging_ok_def reads)
  show "pte (fst (kmem_getpage s)) root w = pte s root w"
    "table_at (fst (kmem_getpage s)) root v l = table_at s root v l" by (simp_all add: reads)
qed

section \<open>Ranges of pages\<close>

definition nth_page :: "u64 \<Rightarrow> nat \<Rightarrow> u64" where
  "nth_page address i = address + of_nat i * 0x1000"

lemma nth_page_Suc: "nth_page (address + 0x1000) i = nth_page address (Suc i)"
  by (simp add: nth_page_def algebra_simps)

lemma nth_page_0 [simp]: "nth_page address 0 = address"
  by (simp add: nth_page_def)

lemma page_number_nth:
  "unat (take_bit 36 (drop_bit 12 (nth_page a i))) = (unat a div 4096 + i) mod 2 ^ 36"
proof -
  have "unat (nth_page a i) = (unat a + 4096 * i) mod 2 ^ 64"
    by (simp add: nth_page_def unat_word_ariths unat_of_nat mod_simps mult.commute)
  moreover have "unat (take_bit 36 (drop_bit 12 w)) = unat w div 2 ^ 12 mod 2 ^ 36" for w :: u64
    using unat_lt64 [of w] by (simp only: unsigned_take_bit_eq unsigned_drop_bit_eq) (simp add: take_bit_eq_mod drop_bit_eq_div)
  ultimately have "unat (take_bit 36 (drop_bit 12 (nth_page a i))) = ((unat a + 4096 * i) mod 2 ^ 64 div 2 ^ 12) mod 2 ^ 36"
    by (simp only:)
  also have "\<dots> = (unat a + 4096 * i) div 4096 mod 2 ^ 52 mod 2 ^ 36"
  proof -
    have "x mod 2 ^ 64 div 2 ^ 12 = x div 2 ^ 12 mod 2 ^ 52" for x :: nat
      using mod_mult2_eq [of x "2 ^ 12" "2 ^ 52"] by simp
    then show ?thesis by simp
  qed
  also have "\<dots> = (unat a div 4096 + i) mod 2 ^ 36"
    by (simp add: mod_mod_cancel add.commute)
  finally show ?thesis .
qed

lemma nth_page_aligned: "page_aligned a \<Longrightarrow> page_aligned (nth_page a i)"
proof -
  assume "page_aligned a"
  have "unat (nth_page a i) = (unat a + 4096 * i) mod 2 ^ 64"
    by (simp add: nth_page_def unat_word_ariths unat_of_nat mod_simps mult.commute)
  then have "unat (nth_page a i) mod 4096 = (unat a + 4096 * i) mod 2 ^ 64 mod 4096" by (simp only:)
  also have "\<dots> = (unat a + 4096 * i) mod 4096" by (rule mod_mod_cancel) simp
  finally show ?thesis using \<open>page_aligned a\<close> by (simp add: page_aligned_iff)
qed

lemma same_page_nth:
  assumes "i < n" "j < n" "n \<le> 2 ^ 36" "same_page (nth_page a i) (nth_page a j)"
  shows "i = j"
proof -
  have "unat (take_bit 36 (drop_bit 12 (nth_page a i))) = unat (take_bit 36 (drop_bit 12 (nth_page a j)))"
    using assms(4) by (simp only: same_page_def)
  then have "(unat a div 4096 + i) mod 2 ^ 36 = (unat a div 4096 + j) mod 2 ^ 36"
    by (simp only: page_number_nth)
  then have "int (unat a div 4096 + i) mod int (2 ^ 36) = int (unat a div 4096 + j) mod int (2 ^ 36)"
    by (simp only: zmod_int [symmetric])
  then have d: "2 ^ 36 dvd int i - int j" by (simp add: mod_eq_dvd_iff)
  have "\<bar>int i - int j\<bar> < 2 ^ 36" using assms(1-3) by simp
  then have "int i - int j = 0" using d dvd_imp_le_int [of "int i - int j" "2 ^ 36"] by linarith
  then show ?thesis by simp
qed

text \<open>A state to evaluate on: an empty root table at 0x1000 and three free pages.\<close>

definition empty_kmem :: kmem where
  "empty_kmem = \<lparr>vmem = (\<lambda>_. 0), temp_last = 0, kmem_base_word = 0, last_unused = AtTempLast, cr3_register = 0x1000\<rparr>"

definition example_kmem :: kmem where
  "example_kmem = foldl kmem_unuse empty_kmem [0x4000, 0x3000, 0x2000]"

lemma empty_table_ok:
  assumes "page_aligned root" "\<And>i. unat i < 512 \<Longrightarrow> phy_read64 s (root + i * 8) AND 1 = 0"
  shows "table_at s root v l = (if l = 0 then Some root else None)" "tree_ok s root" "table_pages s root = {root}"
proof -
  show t: "table_at s root v l = (if l = 0 then Some root else None)" for v l
  proof (induction l)
    case (Suc l)
    then show ?case using assms(2) [OF level_index_less] by (simp add: Let_def)
  qed simp
  show "tree_ok s root" using assms(1) by (auto simp: tree_ok_def t split: if_splits)
  have "mappable 0" by (simp add: mappable_def level_index_def)
  then show "table_pages s root = {root}" by (auto simp: table_pages_def t split: if_splits)
qed

lemma phy_read64_empty: "phy_read64 empty_kmem a = 0"
proof -
  have "load_le n (\<lambda>_. 0) a = (0 :: u64)" for n a by (rule bit_word_eqI) (simp add: bit_load_le)
  then show ?thesis by (simp add: phy_read64_def empty_kmem_def)
qed

lemma unuse_read:
  assumes "page_aligned p" "page_aligned b" "b \<noteq> p" "unat i < 512"
  shows "phy_read64 (kmem_unuse s p) (b + i * 8) = phy_read64 s (b + i * 8)"
  using entry_read_write [of p 0 b i s] assms by (simp add: kmem_unuse_def)

lemma example_paging_ok:
  "paging_ok example_kmem 0x1000 [0x2000, 0x3000, 0x4000]"
  and example_kmem_tables: "table_pages example_kmem 0x1000 = {0x1000}"
proof -
  have a: "page_aligned 0x1000" "page_aligned 0x2000" "page_aligned 0x3000" "page_aligned 0x4000"
    by (simp_all add: page_aligned_def)
  have "free_pages empty_kmem []" by (simp add: free_pages_def)
  from free_list.pushes [OF this, of "[0x4000, 0x3000, 0x2000]"] a
  have "free_pages example_kmem [0x2000, 0x3000, 0x4000]" by (simp add: example_kmem_def)
  moreover have "phy_read64 example_kmem (0x1000 + i * 8) = 0" if "unat i < 512" for i
    using that a by (simp add: example_kmem_def unuse_read phy_read64_empty)
  then have t: "tree_ok example_kmem 0x1000" "table_pages example_kmem 0x1000 = {0x1000}"
    using empty_table_ok(2,3) [OF a(1), of example_kmem] by simp_all
  then show "table_pages example_kmem 0x1000 = {0x1000}" by simp
  from t show "paging_ok example_kmem 0x1000 [0x2000, 0x3000, 0x4000]"
    using \<open>free_pages example_kmem _\<close> by (simp add: paging_ok_def)
qed

section \<open>Properties\<close>

text \<open>
  the free list is a stack: pages given back with \<^verbatim>\<open>kmem_unuse\<close> are handed out by
  \<^verbatim>\<open>kmem_getpage\<close> again, last one first, and then the list is as it was before.
\<close>

theorem kmem_free_list_stack:
  assumes "free_pages s ps" "\<forall>q \<in> set qs. page_aligned q" "distinct (qs @ ps)"
  shows "snd (pops kmem_getpage (length qs) (foldl kmem_unuse s qs)) = rev qs \<and>
    free_pages (fst (pops kmem_getpage (length qs) (foldl kmem_unuse s qs))) ps"
  by (rule free_list.pushes_pops [OF assms])

theorem kmem_free_list_stack_witness:
  "snd (pops kmem_getpage 3 (foldl kmem_unuse empty_kmem [0x4000, 0x3000, 0x2000])) = [0x2000, 0x3000, 0x4000]"
  using kmem_free_list_stack [of empty_kmem "[]" "[0x4000, 0x3000, 0x2000]"]
  by (simp add: free_pages_def page_aligned_def numeral_3_eq_3)

text \<open>
  \<^verbatim>\<open>kmem_getpage\<close> does not notice that the list is used up: after the last page it hands
  out page 0, and then whatever the first eight bytes of physical memory say.
\<close>

theorem kmem_getpage_exhausted:
  assumes "free_pages s [p]" "phy_read64 s p = 0"
  shows "snd (pops kmem_getpage 3 s) = [p, 0, phy_read64 s 0]"
  using assms by (simp add: free_pages_def kmem_getpage_def numeral_3_eq_3 Let_def)

theorem kmem_getpage_exhausted_witness:
  "snd (pops kmem_getpage 3 (kmem_unuse empty_kmem 0x2000)) =
    [0x2000, 0, phy_read64 (kmem_unuse empty_kmem 0x2000) 0]"
proof -
  have "free_pages (kmem_unuse empty_kmem 0x2000) [0x2000]"
    by (rule unuse_free_pages) (simp_all add: free_pages_def page_aligned_def)
  moreover have "phy_read64 (kmem_unuse empty_kmem 0x2000) 0x2000 = 0"
    by (simp add: kmem_unuse_def phy_read64_write64 get_last_unused_def empty_kmem_def)
  ultimately show ?thesis by (rule kmem_getpage_exhausted)
qed

text \<open>
  C3: \<^verbatim>\<open>kmem_map\<close> refines an update of a function from pages to entries.  Given three free
  pages, whatever tables have to be created, afterwards the entry of the mapped page is
  \<^verbatim>\<open>page | flags\<close>, the entry of every other page is as before, the tables still form a tree
  without sharing, and at most three pages have left the free list.
\<close>

theorem kmem_map_refines:
  assumes "paging_ok s root ps" "mappable v" "3 \<le> length ps"
  shows "\<exists>m \<le> 3. paging_ok (kmem_map s root v page flags) root (drop m ps) \<and>
    (\<forall>w. mappable w \<longrightarrow> pte (kmem_map s root v page flags) root w =
       (if same_page v w then page OR flags else pte s root w))"
  by (rule kmem_map_ok [OF assms])

theorem kmem_map_refines_witness:
  "pte (kmem_map example_kmem 0x1000 0x200000 0x7000 KMEM_MAP_DATA) 0x1000 0x200123 = 0x7000 OR KMEM_MAP_DATA \<and>
   pte (kmem_map example_kmem 0x1000 0x200000 0x7000 KMEM_MAP_DATA) 0x1000 0x201000 = pte example_kmem 0x1000 0x201000"
proof -
  have m: "mappable 0x200000" "mappable 0x200123" "mappable 0x201000"
    by (simp_all add: mappable_def level_index_def drop_bit_eq_div)
  have p: "same_page 0x200000 0x200123" "\<not> same_page 0x200000 0x201000"
    by (simp_all add: same_page_def drop_bit_eq_div take_bit_eq_mod)
  show ?thesis
    using kmem_map_refines [OF example_paging_ok m(1), of "0x7000" KMEM_MAP_DATA] m p by auto
qed

text \<open>
  \<^verbatim>\<open>kmem_set_flags\<close> replaces the flags of one page, keeps the page it maps and changes no
  other entry; on an address that was not mapped it leaves an entry of the bare flags.
\<close>

theorem kmem_set_flags_refines:
  assumes "paging_ok s root ps" "mappable v" "3 \<le> length ps"
  shows "\<forall>w. mappable w \<longrightarrow> pte (kmem_set_flags s root v flags) root w =
    (if same_page v w then pte s root w AND NOT KMEM_FLAG_MASK OR flags else pte s root w)"
proof -
  have "pte s root v = pte s root w" if "same_page v w" for w
    using that same_path_page [of v w] table_at_same_path [of 3 v w s root]
    by (simp add: pte_table same_page_path split: option.split)
  then show ?thesis using kmem_set_flags_ok [OF assms, of flags] by auto
qed

theorem kmem_set_flags_refines_witness:
  "pte (kmem_set_flags example_kmem 0x1000 0x400000 KMEM_MAP_CODE) 0x1000 0x400000 =
    pte example_kmem 0x1000 0x400000 AND NOT KMEM_FLAG_MASK OR KMEM_MAP_CODE"
proof -
  have "mappable 0x400000" by (simp add: mappable_def level_index_def drop_bit_eq_div)
  then show ?thesis
    using kmem_set_flags_refines [OF example_paging_ok, of "0x400000" KMEM_MAP_CODE] by (simp add: same_page_def)
qed

end
