(* ===== verification/Klib_Space.thy ===== *)
theory Klib_Space
  imports Klib_Kmem
begin

text \<open>
  The bytes of an address space: the window through which the kernel reaches the byte at a
  virtual address, and what \<^verbatim>\<open>kmem_memcpy\<close> and \<^verbatim>\<open>kmem_memclr\<close>, which write a range of an address
  space page by page, leave there.
\<close>

section \<open>Where a virtual address is in the window\<close>

definition frame_of :: "'a kmem_scheme \<Rightarrow> u64 \<Rightarrow> u64 \<Rightarrow> u64" where
  "frame_of s root v = pte s root v AND NOT KMEM_FLAG_MASK"

definition window :: "'a kmem_scheme \<Rightarrow> u64 \<Rightarrow> u64 \<Rightarrow> ptr" where
  "window s root v = PHY_MAP_BASE + frame_of s root v + (v AND 0xfff)"

text \<open>
  The range can be written: every page has a table, frames are physical memory the window
  covers and hold no tables of the space, and no two addresses are the same byte.
\<close>

definition writable :: "'a kmem_scheme \<Rightarrow> u64 \<Rightarrow> u64 \<Rightarrow> nat \<Rightarrow> bool" where
  "writable s root v n \<longleftrightarrow> tree_ok s root \<and>
     (\<forall>j < n. mappable (v + of_nat j) \<and> table_at s root (v + of_nat j) 3 \<noteq> None \<and>
        unat (frame_of s root (v + of_nat j)) < 2 ^ 46 \<and> frame_of s root (v + of_nat j) \<notin> table_pages s root) \<and>
     inj_on (\<lambda>j. window s root (v + of_nat j)) {..<n}"

text \<open>The range holds the bytes \<open>src\<close>, and nothing else has changed.\<close>

definition written :: "'a kmem_scheme \<Rightarrow> u64 \<Rightarrow> u64 \<Rightarrow> nat \<Rightarrow> (nat \<Rightarrow> u8) \<Rightarrow> 'a kmem_scheme \<Rightarrow> bool" where
  "written s root v n src s' \<longleftrightarrow>
     (\<forall>j < n. vmem s' (window s root (v + of_nat j)) = src j) \<and>
     (\<forall>x. (\<forall>j < n. x \<noteq> window s root (v + of_nat j)) \<longrightarrow> vmem s' x = vmem s x) \<and> s' = s\<lparr>vmem := vmem s'\<rparr>"

lemma same_page_add:
  assumes "unat (v AND 0xfff) + j < 4096"
  shows "same_page v (v + of_nat j)" "(v + of_nat j) AND 0xfff = (v AND 0xfff) + of_nat j"
proof -
  have v: "unat v mod 4096 + j < 4096" using assms by (simp add: low12_unat)
  have b: "unat v < 2 ^ 64" using unsigned_less [of v] by simp
  have "unat v div 4096 * 4096 + unat v mod 4096 = unat v" by simp
  moreover have "unat v div 4096 < 2 ^ 52" using b by (simp add: less_mult_imp_div_less)
  then have "unat v div 4096 * 4096 + 4096 \<le> 2 ^ 64" by simp
  ultimately have n: "unat v + j < 2 ^ 64" using v by linarith
  then have u: "unat (v + of_nat j) = unat v + j" by (simp add: unat_word_ariths unat_of_nat)
  have d: "(unat v + j) div 4096 = unat v div 4096" "(unat v + j) mod 4096 = unat v mod 4096 + j"
    using v by (simp_all add: div_add1_eq [of "unat v" j] mod_add_eq [of "unat v" 4096 j, symmetric] del: mod_add_left_eq mod_add_right_eq mod_add_eq)
  have "drop_bit 12 v = drop_bit 12 (v + of_nat j)"
    by (simp add: word_eq_unat drop_bit_eq_div unat_div u d)
  then show "same_page v (v + of_nat j)" by (simp add: same_page_def)
  have "unat ((v AND 0xfff) + of_nat j) = unat v mod 4096 + j"
    using v by (simp add: unat_word_ariths unat_of_nat low12_unat)
  then show "(v + of_nat j) AND 0xfff = (v AND 0xfff) + of_nat j"
    unfolding word_eq_unat low12_unat u by (simp add: d)
qed

lemma window_add:
  assumes "unat (v AND 0xfff) + j < 4096"
  shows "window s root (v + of_nat j) = window s root v + of_nat j"
  using same_page_add [OF assms] pte_same_page [of v "v + of_nat j" s root]
  by (simp add: window_def frame_of_def)

text \<open>Two pages share no address.\<close>

lemma page_offset_inj:
  fixes b b' i i' :: u64
  assumes "page_aligned b" "page_aligned b'" "unat i < 4096" "unat i' < 4096" "b + i = b' + i'"
  shows "b = b'"
proof -
  have "unat (c + k) div 4096 = unat c div 4096" if c: "page_aligned c" "unat k < 4096" for c k :: u64
  proof -
    obtain q where q: "unat c = 4096 * q" using c(1) by (rule page_alignedE)
    have "unat c < 2 ^ 64" using unsigned_less [of c] by simp
    then have "unat c + unat k < 2 ^ 64" using q c(2) by simp
    then show ?thesis using q c(2) by (simp add: unat_word_ariths)
  qed
  then have "unat b div 4096 = unat b' div 4096" using assms by metis
  then show ?thesis using assms(1,2) by (auto elim!: page_alignedE simp: word_eq_unat)
qed

text \<open>A page that is no frame of the range is not touched by writing the range.\<close>

lemma written_agree:
  assumes ok: "\<And>j. j < n \<Longrightarrow> frame_of s root (v + of_nat j) \<noteq> c" and c: "page_aligned c" "unat i < 512"
    and W: "written s root v n src s'"
  shows "phy_read64 s' (c + i * 8) = phy_read64 s (c + i * 8)"
  unfolding phy_read64_def
proof (rule load_le_cong)
  fix k :: nat assume k: "k < 8"
  let ?x = "PHY_MAP_BASE + (c + i * 8) + of_nat k"
  have "?x \<noteq> window s root (v + of_nat j)" if "j < n" for j
  proof
    assume "?x = window s root (v + of_nat j)"
    then have e: "c + (i * 8 + of_nat k) = frame_of s root (v + of_nat j) + ((v + of_nat j) AND 0xfff)"
      by (simp add: window_def algebra_simps)
    have "unat (i * 8 + of_nat k) < 4096" using c(2) k by (simp add: unat_word_ariths unat_of_nat)
    moreover have "unat ((v + of_nat j) AND 0xfff) < 4096" by (simp add: low12_unat)
    ultimately have "c = frame_of s root (v + of_nat j)"
      using page_offset_inj [OF c(1) _ _ _ e] by (simp add: frame_of_def frame_aligned)
    then show False using ok [OF that] by simp
  qed
  then show "vmem s' ?x = vmem s ?x" using W unfolding written_def by blast
qed

lemma writableD:
  assumes "writable s root v n" "j < n"
  shows "mappable (v + of_nat j)" "\<exists>b. table_at s root (v + of_nat j) 3 = Some b"
    "unat (frame_of s root (v + of_nat j)) < 2 ^ 46" "frame_of s root (v + of_nat j) \<notin> table_pages s root"
  using assms unfolding writable_def by blast+

lemma writable_mono: "writable s root v n \<Longrightarrow> w \<le> n \<Longrightarrow> writable s root v w"
  unfolding writable_def by (meson inj_on_subset lessThan_subset_iff order_less_le_trans)

text \<open>
  The start of the range is written: the tables are as they were, the rest of the range can
  still be written, its bytes are where they were, and writing them completes the range.
\<close>

lemma written_tables:
  assumes ok: "writable s root v n" and W: "written s root v w src s1" and w: "w \<le> n"
  shows "mappable u \<Longrightarrow> l \<le> 3 \<Longrightarrow> table_at s1 root u l = table_at s root u l"
    "mappable u \<Longrightarrow> pte s1 root u = pte s root u" "table_pages s1 root = table_pages s root"
    "tree_ok s1 root = tree_ok s root"
proof -
  have tree: "tree_ok s root" using ok by (simp add: writable_def)
  have agree: "phy_read64 s1 (c + i * 8) = phy_read64 s (c + i * 8)" if c: "c \<in> table_pages s root" "unat i < 512" for c i
  proof (rule written_agree [OF _ table_pages_aligned [OF tree c(1)] c(2) W])
    fix j assume "j < w"
    then show "frame_of s root (v + of_nat j) \<noteq> c" using writableD(4) [OF ok, of j] w c(1) by auto
  qed
  show "mappable u \<Longrightarrow> l \<le> 3 \<Longrightarrow> table_at s1 root u l = table_at s root u l"
    "mappable u \<Longrightarrow> pte s1 root u = pte s root u" "table_pages s1 root = table_pages s root"
    "tree_ok s1 root = tree_ok s root"
    using tree_agree [of s root s1, OF agree] by auto
qed

lemma written_window:
  assumes "writable s root v n" "written s root v w src s1" "w \<le> n" "j < n"
  shows "window s1 root (v + of_nat j) = window s root (v + of_nat j)"
  using written_tables(2) [OF assms(1-3) writableD(1) [OF assms(1,4)]] by (simp add: window_def frame_of_def)

lemma written_rest:
  assumes ok: "writable s root v n" and W1: "written s root v w src s1" and w: "w \<le> n"
  shows "writable s1 root (v + of_nat w) (n - w)"
    and "written s1 root (v + of_nat w) (n - w) (\<lambda>j. src (w + j)) s' \<Longrightarrow> written s root v n src s'"
proof -
  note A = written_tables [OF ok W1 w]
  have inj: "inj_on (\<lambda>j. window s root (v + of_nat j)) {..<n}" using ok by (simp add: writable_def)
  have shift: "v + of_nat w + of_nat j = v + of_nat (w + j)" for j by simp
  have win: "window s1 root (v + of_nat w + of_nat j) = window s root (v + of_nat (w + j))" if "j < n - w" for j
    unfolding shift using written_window [OF ok W1 w, of "w + j"] that by simp
  show "writable s1 root (v + of_nat w) (n - w)" unfolding writable_def
  proof (intro conjI allI impI)
    show "tree_ok s1 root" using A(4) ok by (simp add: writable_def)
    fix j assume "j < n - w"
    then have "w + j < n" by simp
    note E = writableD [OF ok this]
    show "mappable (v + of_nat w + of_nat j)" "table_at s1 root (v + of_nat w + of_nat j) 3 \<noteq> None"
      "unat (frame_of s1 root (v + of_nat w + of_nat j)) < 2 ^ 46"
      "frame_of s1 root (v + of_nat w + of_nat j) \<notin> table_pages s1 root"
      unfolding shift frame_of_def using E A(1,2,3) by (simp_all add: frame_of_def)
  next
    show "inj_on (\<lambda>j. window s1 root (v + of_nat w + of_nat j)) {..<n - w}"
    proof (rule inj_onI)
      fix i j assume ij: "i \<in> {..<n - w}" "j \<in> {..<n - w}"
        "window s1 root (v + of_nat w + of_nat i) = window s1 root (v + of_nat w + of_nat j)"
      then have "window s root (v + of_nat (w + i)) = window s root (v + of_nat (w + j))" using win by simp
      then have "w + i = w + j" using ij inj by (intro inj_onD [OF inj]) auto
      then show "i = j" by simp
    qed
  qed
  show "written s root v n src s'" if W: "written s1 root (v + of_nat w) (n - w) (\<lambda>j. src (w + j)) s'"
    unfolding written_def
  proof (intro conjI allI impI)
    fix j assume j: "j < n"
    let ?x = "window s root (v + of_nat j)"
    show "vmem s' ?x = src j"
    proof (cases "j < w")
      case True
      have "?x \<noteq> window s1 root (v + of_nat w + of_nat i)" if i: "i < n - w" for i
      proof
        assume "?x = window s1 root (v + of_nat w + of_nat i)"
        then have "window s root (v + of_nat j) = window s root (v + of_nat (w + i))" unfolding win [OF i] .
        then have "j = w + i" using i j by (intro inj_onD [OF inj]) auto
        then show False using True by simp
      qed
      then have "vmem s' ?x = vmem s1 ?x" using W unfolding written_def by blast
      then show ?thesis using W1 True unfolding written_def by simp
    next
      case False
      then have j': "j - w < n - w" "w + (j - w) = j" using j by auto
      then have "vmem s' (window s1 root (v + of_nat w + of_nat (j - w))) = src (w + (j - w))"
        using W unfolding written_def by blast
      then show ?thesis unfolding win [OF j'(1)] j'(2) .
    qed
  next
    fix x assume x: "\<forall>j < n. x \<noteq> window s root (v + of_nat j)"
    have "x \<noteq> window s1 root (v + of_nat w + of_nat i)" if i: "i < n - w" for i
    proof -
      have "w + i < n" using i by simp
      then show ?thesis using x unfolding win [OF i] by blast
    qed
    then have "vmem s' x = vmem s1 x" using W unfolding written_def by blast
    moreover have "\<forall>j < w. x \<noteq> window s root (v + of_nat j)" using x w by simp
    then have "vmem s1 x = vmem s x" using W1 unfolding written_def by blast
    ultimately show "vmem s' x = vmem s x" by simp
  next
    have "s' = s1\<lparr>vmem := vmem s'\<rparr>" "s1 = s\<lparr>vmem := vmem s1\<rparr>" using W W1 unfolding written_def by blast+
    then show "s' = s\<lparr>vmem := vmem s'\<rparr>" by (metis kmem.surjective kmem.update_convs(1))
  qed
qed

text \<open>One piece within a page.\<close>

lemma piece_written:
  fixes src :: "nat \<Rightarrow> u8"
  assumes "unat (v AND 0xfff) + w \<le> 4096"
  shows "written s root v w src
    (s\<lparr>vmem := \<lambda>x. if unat (x - window s root v) < w then src (unat (x - window s root v)) else vmem s x\<rparr>)"
  unfolding written_def
proof (intro conjI allI impI)
  fix j assume j: "j < w"
  then have "unat (of_nat j :: u64) = j" using assms by (simp add: unat_of_nat)
  then show "vmem (s\<lparr>vmem := \<lambda>x. if unat (x - window s root v) < w then src (unat (x - window s root v)) else vmem s x\<rparr>)
      (window s root (v + of_nat j)) = src j"
    using window_add [of v j s root] j assms by simp
next
  fix x assume x: "\<forall>j < w. x \<noteq> window s root (v + of_nat j)"
  have "\<not> unat (x - window s root v) < w"
  proof
    assume lt: "unat (x - window s root v) < w"
    have "x = window s root v + of_nat (unat (x - window s root v))" by simp
    also have "\<dots> = window s root (v + of_nat (unat (x - window s root v)))"
      using lt assms by (intro window_add [symmetric]) simp
    finally show False using x lt by blast
  qed
  then show "vmem (s\<lparr>vmem := \<lambda>x. if unat (x - window s root v) < w then src (unat (x - window s root v)) else vmem s x\<rparr>) x = vmem s x"
    by simp
qed simp

section \<open>Copying and clearing\<close>

lemma page_entry:
  "kmem_paging_addr s root (v AND NOT 0xfff) 3 =
    (case table_at s root v 3 of None \<Rightarrow> (0, False) | Some b \<Rightarrow> (b + level_index 3 v * 8, True))"
proof -
  have "unat (drop_bit 12 (v AND NOT 0xfff)) = unat (drop_bit 12 v)"
    by (simp only: drop_bit_eq_div unat_div unat_clear12) (simp add: minus_mod_eq_mult_div)
  then have p: "same_page (v AND NOT 0xfff) v" by (simp only: same_page_def word_eq_unat [symmetric])
  have "same_path 3 (v AND NOT 0xfff) v" "level_index 3 (v AND NOT 0xfff) = level_index 3 v"
    using p by (simp_all only: same_path_page [symmetric] same_page_path)
  then show ?thesis using table_at_same_path [of 3 "v AND NOT 0xfff" v s root] by (simp only: paging_addr_table)
qed

lemma window_fits:
  assumes "writable s root v n" "0 < n" "unat (v AND 0xfff) + w \<le> 4096"
  shows "fits (window s root v) w"
proof -
  have "page_aligned (frame_of s root v)" by (simp add: frame_of_def frame_aligned)
  then obtain q where q: "unat (frame_of s root v) = 4096 * q" by (rule page_alignedE)
  have "unat (frame_of s root (v + of_nat 0)) < 2 ^ 46" using assms(1,2) unfolding writable_def by blast
  then have f46: "unat (frame_of s root v) + 4096 \<le> 2 ^ 46" by (simp add: q)
  have sum: "unat a + unat b < 2 ^ 64 \<Longrightarrow> unat (a + b) = unat a + unat b" for a b :: u64
    by (simp add: unat_word_ariths)
  have p: "unat PHY_MAP_BASE = 0xffffc00000000000" by (simp add: PHY_MAP_BASE_def)
  have "unat (v AND 0xfff) \<le> 4095" by (simp add: low12_unat)
  with f46 have "unat (window s root v) = unat PHY_MAP_BASE + unat (frame_of s root v) + unat (v AND 0xfff)"
    unfolding window_def by (subst sum, subst sum) (simp_all add: p sum)
  then show ?thesis
    using assms(3) f46 by (simp add: fits_def p)
qed

lemma memcpy_written:
  assumes "writable s root v (unat sz)" "fits data (unat sz)"
    and "\<And>j k. j < unat sz \<Longrightarrow> k < unat sz \<Longrightarrow> data + of_nat j \<noteq> window s root (v + of_nat k)"
  shows "written s root v (unat sz) (\<lambda>j. vmem s (data + of_nat j)) (kmem_memcpy s root v data sz)"
  using assms
proof (induction "unat sz" arbitrary: s v data sz rule: less_induct)
  case less
  show ?case
  proof (cases "sz = 0")
    case True
    then show ?thesis by (simp add: kmem_memcpy.simps written_def)
  next
    case False
    note B = page_piece_bounds [OF False, of v]
    let ?w = "page_piece v sz"
    have n: "0 < unat sz" using B(1,2) by simp
    obtain b where b: "table_at s root v 3 = Some b"
      using less.prems(1) n by (auto simp: writable_def)
    have fd: "fits data (unat ?w)" using less.prems(2) B(2) by (simp add: fits_def)
    let ?s = "s\<lparr>vmem := \<lambda>x. if unat (x - window s root v) < unat ?w
      then vmem s (data + of_nat (unat (x - window s root v))) else vmem s x\<rparr>"
    have win: "0xffffc00000000000 + (pte s root v AND NOT KMEM_FLAG_MASK) + (v AND 0xfff) = window s root v"
      by (simp add: window_def frame_of_def PHY_MAP_BASE_def)
    have copied: "s\<lparr>vmem := mem_copy (vmem s) (window s root v) data ?w\<rparr> = ?s"
      using mem_copy_block [OF fd window_fits [OF less.prems(1) n B(3)]] by (simp add: block_copied_def cong: if_cong)
    have step: "kmem_memcpy s root v data sz = kmem_memcpy ?s root (v + ?w) (data + ?w) (sz - ?w)"
      by (subst kmem_memcpy.simps)
        (simp only: Let_def page_entry b option.case prod.case pte_entry [OF b, symmetric] win copied False if_False not_True_eq_False)
    note W = piece_written [OF B(3), of s root "\<lambda>j. vmem s (data + of_nat j)"]
    note P = written_rest [OF less.prems(1) W B(2)]
    have sub: "unat (sz - ?w) = unat sz - unat ?w" using B(2) by (simp add: unat_sub word_le_nat_alt)
    have more: "unat ?w + j < unat sz" if "j < unat (sz - ?w)" for j using that sub by simp
    have v: "v + ?w = v + of_nat (unat ?w)" "data + ?w + of_nat j = data + of_nat (unat ?w + j)" for j by simp_all
    have same: "vmem ?s (data + of_nat (unat ?w + j)) = vmem s (data + of_nat (unat ?w + j))" if "j < unat (sz - ?w)" for j
    proof -
      have "data + of_nat (unat ?w + j) \<noteq> window s root (v + of_nat k)" if "k < unat ?w" for k
        using less.prems(3) [OF more] \<open>j < _\<close> that B(2) by simp
      then show ?thesis using W unfolding written_def by blast
    qed
    have "written ?s root (v + ?w) (unat (sz - ?w)) (\<lambda>j. vmem ?s (data + ?w + of_nat j))
        (kmem_memcpy ?s root (v + ?w) (data + ?w) (sz - ?w))"
    proof (rule less.hyps)
      show "unat (sz - ?w) < unat sz" using B(1) n sub by simp
      show "writable ?s root (v + ?w) (unat (sz - ?w))" using P(1) unfolding v(1) sub .
      show "fits (data + ?w) (unat (sz - ?w))"
      proof (cases "unat (sz - ?w) = 0")
        case False
        then show ?thesis using fits_offset [OF less.prems(2), of "unat ?w"] less.prems(2) sub by (simp add: fits_def)
      next
        case True
        then show ?thesis using unat_lt64 [of "data + ?w"] by (simp add: fits_def)
      qed
      fix j k assume jk: "j < unat (sz - ?w)" "k < unat (sz - ?w)"
      have k: "v + ?w + of_nat k = v + of_nat (unat ?w + k)" by simp
      show "data + ?w + of_nat j \<noteq> window ?s root (v + ?w + of_nat k)"
        using less.prems(3) [OF more [OF jk(1)] more [OF jk(2)]]
        unfolding k v(2) written_window [OF less.prems(1) W B(2) more [OF jk(2)]] .
    qed
    then have "written ?s root (v + ?w) (unat (sz - ?w)) (\<lambda>j. vmem s (data + of_nat (unat ?w + j)))
        (kmem_memcpy ?s root (v + ?w) (data + ?w) (sz - ?w))"
      unfolding written_def v(2) using same by simp
    then show ?thesis unfolding step by (intro P(2)) (simp only: sub v(1))
  qed
qed

lemma memclr_written:
  assumes "writable s root v (unat sz)"
  shows "written s root v (unat sz) (\<lambda>_. 0) (kmem_memclr s root v sz)"
  using assms
proof (induction "unat sz" arbitrary: s v sz rule: less_induct)
  case less
  show ?case
  proof (cases "sz = 0")
    case True
    then show ?thesis by (simp add: kmem_memclr.simps written_def)
  next
    case False
    note B = page_piece_bounds [OF False, of v]
    let ?w = "page_piece v sz"
    have n: "0 < unat sz" using B(1,2) by simp
    obtain b where b: "table_at s root v 3 = Some b"
      using less.prems(1) n by (auto simp: writable_def)
    let ?s = "s\<lparr>vmem := \<lambda>x. if unat (x - window s root v) < unat ?w then 0 else vmem s x\<rparr>"
    have win: "0xffffc00000000000 + (pte s root v AND NOT KMEM_FLAG_MASK) + (v AND 0xfff) = window s root v"
      by (simp add: window_def frame_of_def PHY_MAP_BASE_def)
    have cleared: "s\<lparr>vmem := mem_set (vmem s) (window s root v) 0 ?w\<rparr> = ?s"
      using mem_set_block [OF window_fits [OF less.prems n B(3)]] by presburger
    have step: "kmem_memclr s root v sz = kmem_memclr ?s root (v + ?w) (sz - ?w)"
      by (subst kmem_memclr.simps)
        (simp only: Let_def page_entry b option.case prod.case pte_entry [OF b, symmetric] win cleared False if_False not_True_eq_False)
    note P = written_rest [OF less.prems piece_written [OF B(3), of s root "\<lambda>j. 0"] B(2)]
    have sub: "unat (sz - ?w) = unat sz - unat ?w" using B(2) by (simp add: unat_sub word_le_nat_alt)
    have v: "v + ?w = v + of_nat (unat ?w)" by simp
    have "writable ?s root (v + ?w) (unat (sz - ?w))" using P(1) unfolding v sub .
    then have "written ?s root (v + ?w) (unat (sz - ?w)) (\<lambda>j. 0) (kmem_memclr ?s root (v + ?w) (sz - ?w))"
      using less.hyps [of "sz - ?w"] B(1) n sub by simp
    then show ?thesis unfolding step by (intro P(2)) (simp only: sub v)
  qed
qed

section \<open>Mapped pages can be written\<close>

lemma range_page:
  fixes v :: u64
  assumes "start = v AND NOT 0xfff"
  defines "k \<equiv> \<lambda>j. unat (v AND 0xfff) + j"
  shows "v + of_nat j = nth_page start (k j div 4096) + of_nat (k j mod 4096)"
    "same_page (nth_page start (k j div 4096)) (v + of_nat j)"
    "(v + of_nat j) AND 0xfff = of_nat (k j mod 4096)"
proof -
  have off: "v = start + of_nat (unat (v AND 0xfff))"
  proof -
    have "unat start + unat v mod 4096 = unat v" unfolding assms(1) unat_clear12 by simp
    then have "of_nat (unat start + unat v mod 4096) = v" by simp
    then show ?thesis by (simp add: low12_unat)
  qed
  have "v + of_nat j = start + of_nat (k j)" by (subst off) (simp add: k_def)
  also have "of_nat (k j) = (of_nat (k j div 4096 * 4096 + k j mod 4096) :: u64)"
    by (simp only: div_mult_mod_eq)
  also have "\<dots> = of_nat (k j div 4096) * 0x1000 + of_nat (k j mod 4096)"
    by (simp only: of_nat_add of_nat_mult of_nat_numeral)
  finally show e: "v + of_nat j = nth_page start (k j div 4096) + of_nat (k j mod 4096)"
    by (simp only: nth_page_def add.assoc)
  have "page_aligned start" using unat_clear12 [of v] by (simp add: assms(1) page_aligned_iff)
  then have al: "nth_page start (k j div 4096) AND 0xfff = 0"
    using nth_page_aligned [of start] by (simp add: page_aligned_def)
  have lt: "unat (nth_page start (k j div 4096) AND 0xfff) + k j mod 4096 < 4096" by (simp add: al)
  show "same_page (nth_page start (k j div 4096)) (v + of_nat j)"
    unfolding e by (rule same_page_add(1) [OF lt])
  show "(v + of_nat j) AND 0xfff = of_nat (k j mod 4096)"
    unfolding e by (subst same_page_add(2) [OF lt]) (simp add: al)
qed

lemma mapped_writable:
  assumes tree: "tree_ok s root" and start: "start = v AND NOT 0xfff" and n: "unat (v AND 0xfff) + n \<le> 4096 * length pages"
    and m: "\<And>i. i < length pages \<Longrightarrow> mappable (nth_page start i)"
    and e: "\<And>i. i < length pages \<Longrightarrow> frame_of s root (nth_page start i) = pages ! i \<and>
      table_at s root (nth_page start i) 3 \<noteq> None"
    and d: "distinct pages" and p: "\<forall>p \<in> set pages. unat p < 2 ^ 46 \<and> p \<notin> table_pages s root"
  shows "writable s root v n"
    and "j < n \<Longrightarrow> frame_of s root (v + of_nat j) = pages ! ((unat (v AND 0xfff) + j) div 4096)"
proof -
  note R = range_page [OF start]
  let ?k = "\<lambda>j. (unat (v AND 0xfff) + j) div 4096"
  have k: "?k j < length pages" if "j < n" for j using n that by (simp add: div_less_iff_less_mult)
  have fr: "frame_of s root (v + of_nat j) = pages ! ?k j" if "j < n" for j
    using e [OF k [OF that]] pte_same_page [OF R(2), of s root j] by (simp add: frame_of_def)
  then show "j < n \<Longrightarrow> frame_of s root (v + of_nat j) = pages ! ((unat (v AND 0xfff) + j) div 4096)" by simp
  show "writable s root v n" unfolding writable_def
  proof (intro conjI allI impI tree)
    fix j assume j: "j < n"
    have sp: "same_path 3 (nth_page start (?k j)) (v + of_nat j)"
      using R(2) [of j] by (simp add: same_path_page [symmetric] same_page_path)
    have "level_index 0 (nth_page start (?k j)) = level_index 0 (v + of_nat j)"
      using sp by (simp add: same_path_def)
    then show "mappable (v + of_nat j)" using m [OF k [OF j]] by (simp add: mappable_def)
    show "table_at s root (v + of_nat j) 3 \<noteq> None"
      using table_at_same_path [OF sp, of s root] e [OF k [OF j]] by simp
    show "unat (frame_of s root (v + of_nat j)) < 2 ^ 46" "frame_of s root (v + of_nat j) \<notin> table_pages s root"
      using p k [OF j] by (simp_all add: fr [OF j])
  next
    show "inj_on (\<lambda>j. window s root (v + of_nat j)) {..<n}"
    proof (rule inj_onI)
      fix i j assume "i \<in> {..<n}" "j \<in> {..<n}" and w: "window s root (v + of_nat i) = window s root (v + of_nat j)"
      then have ij: "i < n" "j < n" by simp_all
      let ?r = "\<lambda>j. (unat (v AND 0xfff) + j) mod 4096"
      have u: "unat (of_nat (?r j) :: u64) = ?r j" "?r j < 4096" for j by (simp_all add: unat_of_nat)
      have eq: "pages ! ?k i + of_nat (?r i) = pages ! ?k j + of_nat (?r j)"
        using w by (simp add: window_def fr ij R(3))
      have al: "page_aligned (pages ! ?k j)" if "j < n" for j
        using e [OF k [OF that]] by (metis frame_aligned frame_of_def)
      have "pages ! ?k i = pages ! ?k j"
        by (rule page_offset_inj [OF al al _ _ eq]) (simp_all add: ij u)
      then have "?k i = ?k j" "of_nat (?r i) = (of_nat (?r j) :: u64)"
        using eq d k ij by (simp_all add: nth_eq_iff_index_eq)
      then have "?k i = ?k j" "?r i = ?r j" using u(1) by metis+
      then have "unat (v AND 0xfff) + i = unat (v AND 0xfff) + j" by (metis div_mult_mod_eq)
      then show "i = j" by simp
    qed
  qed
qed

text \<open>Mapping a page: also where memory changes, and that tables stay.\<close>

lemma kmem_map_grows:
  assumes "paging_ok s root ps" "mappable v" "3 \<le> length ps"
  shows "\<exists>m \<le> 3. let s' = kmem_map s root v page flags in paging_ok s' root (drop m ps) \<and>
    (\<forall>w. mappable w \<longrightarrow> pte s' root w = (if same_page v w then page OR flags else pte s root w)) \<and>
    table_at s' root v 3 \<noteq> None \<and> (\<forall>w. mappable w \<and> table_at s root w 3 \<noteq> None \<longrightarrow> table_at s' root w 3 \<noteq> None) \<and>
    table_pages s' root \<subseteq> table_pages s root \<union> set (take m ps) \<and>
    (\<forall>x. (\<forall>c \<in> table_pages s root \<union> set (take m ps). \<not> in_page c x) \<longrightarrow> vmem s' x = vmem s x)"
proof -
  obtain s1 b m where C: "kmem_paging_addr_create s root v 3 = (s1, b + level_index 3 v * 8)"
    "m \<le> 3" "paging_ok s1 root (drop m ps)" "grown root (take m ps) s s1" "table_at s1 root v 3 = Some b"
    using plain.create_addr [OF assms(1,2) _ assms(3), folded kmem_paging_addr_create_def] by auto
  have tree: "tree_ok s1 root" using C(3) by (simp add: paging_ok_def)
  let ?s' = "phy_write64 s1 (b + level_index 3 v * 8) (page OR flags)"
  have s': "kmem_map s root v page flags = ?s'" using C(1) by (simp add: kmem_map_def)
  note W = write_leaf [OF tree assms(2) C(5), where e = "page OR flags"]
  note O = write_leaf_ok [OF C(3) assms(2) C(5), where e = "page OR flags"]
  have b: "b \<in> table_pages s1 root" by (rule table_pagesI [OF assms(2) _ C(5)]) simp
  have tp: "table_pages s1 root \<subseteq> table_pages s root \<union> set (take m ps)"
    and ptes: "\<And>w. mappable w \<Longrightarrow> pte s1 root w = pte s root w"
    and stay: "\<And>w. mappable w \<Longrightarrow> table_at s root w 3 \<noteq> None \<Longrightarrow> table_at s1 root w 3 \<noteq> None"
    and mem: "\<And>x. (\<forall>c \<in> table_pages s root \<union> set (take m ps). \<not> in_page c x) \<Longrightarrow> vmem s1 x = vmem s x"
    using C(4) by (auto simp: grown_def)
  have "vmem ?s' x = vmem s x" if "\<forall>c \<in> table_pages s root \<union> set (take m ps). \<not> in_page c x" for x
  proof -
    have "\<not> in_page b x" using that b tp by blast
    then have "vmem ?s' x = vmem s1 x" by (rule write_in_page [OF level_index_less])
    then show ?thesis using mem [OF that] by (rule trans)
  qed
  moreover have "pte ?s' root w = (if same_page v w then page OR flags else pte s root w)" if "mappable w" for w
    using W(2) [OF that] ptes [OF that] by (simp add: same_path_page)
  moreover have "table_at ?s' root w 3 = table_at s1 root w 3" if "mappable w" for w
    using W(1) [OF that] by simp
  ultimately show ?thesis
    unfolding s' Let_def using C(2,5) O tp stay assms(2) by (intro exI [of _ m]) simp
qed

section \<open>Properties\<close>

text \<open>
  C10: \<^verbatim>\<open>kmem_memcpy\<close> and \<^verbatim>\<open>kmem_memclr\<close> write exactly the bytes at the virtual range of an address
  space, wherever its pages are in physical memory and however the range crosses pages: afterwards
  the byte at each address of the range is that of the buffer, or 0, and no other byte of memory
  and nothing else of the state has changed.  The range has to be writable, and the buffer outside it.
\<close>

theorem kmem_memcpy_writes:
  assumes "writable s root v (unat sz)" "fits data (unat sz)"
    and "\<forall>j < unat sz. \<forall>k < unat sz. data + of_nat j \<noteq> window s root (v + of_nat k)"
  shows "written s root v (unat sz) (\<lambda>j. vmem s (data + of_nat j)) (kmem_memcpy s root v data sz) \<and>
    written s root v (unat sz) (\<lambda>_. 0) (kmem_memclr s root v sz)"
  using memcpy_written [OF assms(1,2)] assms(3) memclr_written [OF assms(1)] by blast

text \<open>A page mapped at 0x400000, and a buffer below the window.\<close>

definition example_space :: kmem where
  "example_space = kmem_map example_kmem 0x1000 0x400000 0x77000 KMEM_MAP_DATA"

lemma example_space_ok:
  "writable example_space 0x1000 0x400ffe 2" "window example_space 0x1000 0x400ffe = PHY_MAP_BASE + 0x77ffe"
proof -
  have m: "mappable 0x400000" by (simp add: mappable_def level_index_def drop_bit_eq_div)
  obtain k where K: "paging_ok example_space 0x1000 (drop k [0x2000, 0x3000, 0x4000])"
    "pte example_space 0x1000 0x400000 = 0x77000 OR KMEM_MAP_DATA" "table_at example_space 0x1000 0x400000 3 \<noteq> None"
    "table_pages example_space 0x1000 \<subseteq> table_pages example_kmem 0x1000 \<union> set (take k [0x2000, 0x3000, 0x4000])"
    using kmem_map_grows [OF example_paging_ok m, of "0x77000" KMEM_MAP_DATA] m
    unfolding Let_def example_space_def [symmetric] by (auto simp: same_page_def)
  have t: "table_pages example_kmem 0x1000 = {0x1000}" by (rule example_kmem_tables)
  have "set (take k [0x2000, 0x3000, 0x4000]) \<subseteq> {0x2000, 0x3000, 0x4000 :: u64}"
    using set_take_subset [of k "[0x2000, 0x3000, 0x4000 :: u64]"] by simp
  then have "table_pages example_space 0x1000 \<subseteq> {0x1000, 0x2000, 0x3000, 0x4000}" using K(4) unfolding t by blast
  then have nt: "0x77000 \<notin> table_pages example_space 0x1000" by auto
  have f: "frame_of example_space 0x1000 (nth_page 0x400000 0) = 0x77000"
    unfolding frame_of_def nth_page_0 K(2) by (rule data_frame) (simp add: KMEM_FLAG_MASK_def)
  have al: "(0x400000 :: u64) = 0x400ffe AND NOT 0xfff" by simp
  have tree: "tree_ok example_space 0x1000" using K(1) by (simp add: paging_ok_def)
  note M = mapped_writable [OF tree al, of 2 "[0x77000]"]
  show w: "writable example_space 0x1000 0x400ffe 2"
    by (rule M(1)) (use m f K(3) nt in simp_all)
  have "frame_of example_space 0x1000 (0x400ffe + of_nat 0) = [0x77000] ! ((unat (0x400ffe AND 0xfff :: u64) + 0) div 4096)"
    by (rule M(2)) (use m f K(3) nt in simp_all)
  then show "window example_space 0x1000 0x400ffe = PHY_MAP_BASE + 0x77ffe" by (simp add: window_def)
qed

theorem kmem_memcpy_writes_witness:
  "\<exists>s'. kmem_memclr example_space 0x1000 0x400ffe 2 = s' \<and> vmem s' (PHY_MAP_BASE + 0x77fff) = 0 \<and>
     vmem (kmem_memcpy example_space 0x1000 0x400ffe 0x5000 2) (PHY_MAP_BASE + 0x77fff) = vmem example_space 0x5001"
proof -
  have two: "unat (2 :: u64) = 2" by simp
  have w: "window example_space 0x1000 (0x400ffe + of_nat j) = PHY_MAP_BASE + 0x77ffe + of_nat j" if "j < 2" for j
    using window_add [of "0x400ffe" j example_space "0x1000"] that by (simp add: example_space_ok(2))
  have "\<forall>j < unat (2 :: u64). \<forall>k < unat (2 :: u64).
      0x5000 + of_nat j \<noteq> window example_space 0x1000 (0x400ffe + of_nat k)"
    unfolding two by (auto simp: w less_2_cases_iff PHY_MAP_BASE_def)
  from kmem_memcpy_writes [OF example_space_ok(1) [folded two] _ this]
  have "written example_space 0x1000 0x400ffe 2 (\<lambda>j. vmem example_space (0x5000 + of_nat j))
      (kmem_memcpy example_space 0x1000 0x400ffe 0x5000 2)"
    "written example_space 0x1000 0x400ffe 2 (\<lambda>_. 0) (kmem_memclr example_space 0x1000 0x400ffe 2)"
    by (simp_all add: fits_def)
  then show ?thesis
    using w [of 1] unfolding written_def by (auto dest!: spec [of _ 1] simp: add.commute)
qed

end
