(* ===== verification/Klib_Task.thy ===== *)
theory Klib_Task
  imports Klib_Kmem
begin

text \<open>
  \<^verbatim>\<open>klib/task.c\<close> and \<^verbatim>\<open>task.h\<close>: the table of task states and the ELF loader.  A task state
  is 32 words in a fixed order, which the scheduler also addresses by index; \<open>task_word\<close>
  lists them in that order.  The table at \<^verbatim>\<open>TASK_BASE\<close> is a function from slots to task
  states, kept apart from the byte memory, and a \<^verbatim>\<open>task_state_t *\<close> is a slot.
\<close>

section \<open>Task states\<close>

datatype task_word =
    RAX | RBX | RCX | RDX | RSI | RDI | RSP | RBP
  | R8 | R9 | R10 | R11 | R12 | R13 | R14 | R15
  | RFLAGS | RIP | CS | DS | ES | FS | GS | SS
  | FS_BASE | GS_BASE | CR3 | STATE | PAD1 | PAD2 | PAD3 | PAD4

type_synonym task_state_t = "task_word \<Rightarrow> u64"
type_synonym task_table = "nat \<Rightarrow> task_state_t"

definition task_words :: "task_word list" where
  "task_words = [RAX, RBX, RCX, RDX, RSI, RDI, RSP, RBP, R8, R9, R10, R11, R12, R13, R14, R15,
     RFLAGS, RIP, CS, DS, ES, FS, GS, SS, FS_BASE, GS_BASE, CR3, STATE, PAD1, PAD2, PAD3, PAD4]"

definition NUM_TASKS :: nat where "NUM_TASKS = 4096"

definition TASK_ADDR :: "nat \<Rightarrow> u64" where
  "TASK_ADDR i = TASK_BASE + 0x1000 + of_nat i * 256"

definition TASK_STATE_VALID :: u64 where "TASK_STATE_VALID = 0x01"
definition TASK_STATE_RUNNABLE :: u64 where "TASK_STATE_RUNNABLE = 0x02"
definition TASK_STATE_GATE :: u64 where "TASK_STATE_GATE = 0x04"
definition TASK_STATE_BLOCKED :: u64 where "TASK_STATE_BLOCKED = 0x08"

text \<open>A field assignment \<^verbatim>\<open>ts->w = v\<close>.\<close>

definition put_word :: "task_table \<Rightarrow> nat \<Rightarrow> task_word \<Rightarrow> u64 \<Rightarrow> task_table" where
  "put_word t i w v = t(i := (t i)(w := v))"

definition find_available :: "task_table \<Rightarrow> nat option" where
  "find_available t = List.find (\<lambda>i. t i STATE AND TASK_STATE_VALID = 0) [1..<NUM_TASKS]"

definition task_create :: "task_table \<Rightarrow> task_table \<times> nat option" where
  "task_create t =
     (case find_available t of
        None \<Rightarrow> (t, None)
      | Some ts \<Rightarrow>
         (let t = put_word t ts CS 0x08;
              t = put_word t ts DS 0x10;
              t = put_word t ts ES 0x10;
              t = put_word t ts FS 0x10;
              t = put_word t ts GS 0x10;
              t = put_word t ts SS 0x10;
              t = put_word t ts RFLAGS 0x2
          in (t, Some ts)))"

definition task_set_local :: "'a kmem_scheme \<Rightarrow> task_table \<Rightarrow> nat \<Rightarrow> u64 \<Rightarrow> u64 \<Rightarrow> task_table" where
  "task_set_local s t ts entry stack_top =
     (let t = put_word t ts CR3 (kmem_current s);
          t = put_word t ts RSP stack_top;
          t = put_word t ts RIP entry
      in put_word t ts STATE TASK_STATE_VALID)"

definition task_mark_runnable :: "task_table \<Rightarrow> nat \<Rightarrow> task_table" where
  "task_mark_runnable t ts = put_word t ts STATE (t ts STATE OR TASK_STATE_RUNNABLE)"

section \<open>ELF images\<close>

text \<open>The headers of \<^verbatim>\<open>clib/elf.h\<close>, read from memory at the offsets of the C structures.\<close>

record Elf64_Ehdr =
  e_ident :: "u8 list"
  e_type :: u16
  e_machine :: u16
  e_version :: u32
  e_entry :: u64
  e_phoff :: u64
  e_shoff :: u64
  e_flags :: u32
  e_ehsize :: u16
  e_phentsize :: u16
  e_phnum :: u16
  e_shentsize :: u16
  e_shnum :: u16
  e_shstrndx :: u16

record Elf64_Phdr =
  p_type :: u32
  p_flags :: u32
  p_offset :: u64
  p_vaddr :: u64
  p_paddr :: u64
  p_filesz :: u64
  p_memsz :: u64
  p_align :: u64

definition read_ehdr :: "bytes \<Rightarrow> ptr \<Rightarrow> Elf64_Ehdr" where
  "read_ehdr m a = \<lparr>
     e_ident = map (\<lambda>i. m (a + of_nat i)) [0..<16],
     e_type = load_le 2 m (a + 16), e_machine = load_le 2 m (a + 18), e_version = load_le 4 m (a + 20),
     e_entry = load_le 8 m (a + 24), e_phoff = load_le 8 m (a + 32), e_shoff = load_le 8 m (a + 40),
     e_flags = load_le 4 m (a + 48), e_ehsize = load_le 2 m (a + 52), e_phentsize = load_le 2 m (a + 54),
     e_phnum = load_le 2 m (a + 56), e_shentsize = load_le 2 m (a + 58), e_shnum = load_le 2 m (a + 60),
     e_shstrndx = load_le 2 m (a + 62)\<rparr>"

definition read_phdr :: "bytes \<Rightarrow> ptr \<Rightarrow> Elf64_Phdr" where
  "read_phdr m a = \<lparr>
     p_type = load_le 4 m a, p_flags = load_le 4 m (a + 4), p_offset = load_le 8 m (a + 8),
     p_vaddr = load_le 8 m (a + 16), p_paddr = load_le 8 m (a + 24), p_filesz = load_le 8 m (a + 32),
     p_memsz = load_le 8 m (a + 40), p_align = load_le 8 m (a + 48)\<rparr>"

definition PT_LOAD :: u32 where "PT_LOAD = 1"
definition PF_X :: u32 where "PF_X = push_bit 0 1"
definition PF_W :: u32 where "PF_W = push_bit 1 1"

section \<open>Loading\<close>

definition DEFAULT_TASK_STACK_TOP :: u64 where "DEFAULT_TASK_STACK_TOP = 0x80000000"

text \<open>The stack loop runs once for each page of the rounded size, downwards.\<close>

fun stack_loop :: "'a kmem_scheme \<Rightarrow> u64 \<Rightarrow> u64 \<Rightarrow> nat \<Rightarrow> 'a kmem_scheme" where
  "stack_loop s cr3 stack_bottom 0 = s"
| "stack_loop s cr3 stack_bottom (Suc n) =
     (let stack_bottom = stack_bottom - 0x1000;
          (s, page) = kmem_getpage s
      in stack_loop (kmem_map s cr3 stack_bottom page KMEM_MAP_DATA) cr3 stack_bottom n)"

text \<open>
  \<^verbatim>\<open>while(start < end)\<close>: \<^verbatim>\<open>start\<close> goes up by a page and can wrap, so the loops may not end.
\<close>

partial_function (option) page_loop :: "('s \<Rightarrow> u64 \<Rightarrow> 's) \<Rightarrow> 's \<Rightarrow> u64 \<Rightarrow> u64 \<Rightarrow> 's option" where
  "page_loop body s start stop =
     (if start < stop then page_loop body (body s start) (start + 0x1000) stop else Some s)"

definition back_page :: "u64 \<Rightarrow> 'a kmem_scheme \<Rightarrow> u64 \<Rightarrow> 'a kmem_scheme" where
  "back_page cr3 s start = (let (s, page) = kmem_getpage s in kmem_map s cr3 start page KMEM_MAP_DATA)"

definition back_loop :: "'a kmem_scheme \<Rightarrow> u64 \<Rightarrow> u64 \<Rightarrow> u64 \<Rightarrow> 'a kmem_scheme option" where
  "back_loop s cr3 start stop = page_loop (back_page cr3) s start stop"

definition code_loop :: "'a kmem_scheme \<Rightarrow> u64 \<Rightarrow> u64 \<Rightarrow> u64 \<Rightarrow> 'a kmem_scheme option" where
  "code_loop s cr3 start stop = page_loop (\<lambda>s start. kmem_set_flags s cr3 start KMEM_MAP_CODE) s start stop"

definition load_segment :: "'a kmem_scheme \<Rightarrow> u64 \<Rightarrow> ptr \<Rightarrow> Elf64_Phdr \<Rightarrow> 'a kmem_scheme option" where
  "load_segment s cr3 elf_image ph =
     (if p_type ph \<noteq> PT_LOAD then Some s
      else
        Option.bind (back_loop s cr3 (p_vaddr ph AND NOT 0xfff) (p_vaddr ph + p_memsz ph)) (\<lambda>s.
          (let s = kmem_memcpy s cr3 (p_vaddr ph) (elf_image + p_offset ph) (p_filesz ph);
               s = (if p_memsz ph \<noteq> p_filesz ph
                    then kmem_memclr s cr3 (p_vaddr ph + p_filesz ph) (p_memsz ph - p_filesz ph) else s)
           in if p_flags ph AND PF_X \<noteq> 0 \<or> p_flags ph AND PF_W = 0
              then code_loop s cr3 (p_vaddr ph AND NOT 0xfff) (p_vaddr ph + p_memsz ph)
              else Some s)))"

text \<open>
  \<^verbatim>\<open>for(int i = 0; i < header->e_phnum; i ++)\<close>.  The headers are read from memory again in
  every round, which may have been written meanwhile; their number has 16 bits.
\<close>

function load_segments :: "'a kmem_scheme \<Rightarrow> u64 \<Rightarrow> ptr \<Rightarrow> ptr \<Rightarrow> nat \<Rightarrow> 'a kmem_scheme option" where
  "load_segments s cr3 elf_image phdrs i =
     (if i < unat (e_phnum (read_ehdr (vmem s) elf_image)) then
        Option.bind (load_segment s cr3 elf_image (read_phdr (vmem s) (phdrs + of_nat i * 56)))
          (\<lambda>s. load_segments s cr3 elf_image phdrs (i + 1))
      else Some s)"
  by pat_completeness auto

lemma phnum_bound: "unat (e_phnum h) < 65536"
  using unsigned_less [of "e_phnum h"] by simp

termination load_segments
proof (relation "measure (\<lambda>(s, cr3, img, ph, i). 65536 - i)", simp)
  fix s :: "'a kmem_scheme" and cr3 img ph :: u64 and i and t :: "'a kmem_scheme"
  assume "i < unat (e_phnum (read_ehdr (vmem s) img))"
  with phnum_bound [of "read_ehdr (vmem s) img"]
  show "((t, cr3, img, ph, i + 1), (s, cr3, img, ph, i)) \<in> measure (\<lambda>(s, cr3, img, ph, i). 65536 - i)"
    by simp
qed

declare load_segments.simps [simp del]

definition task_load_elf ::
  "'a kmem_scheme \<Rightarrow> task_table \<Rightarrow> nat \<Rightarrow> ptr \<Rightarrow> u64 \<Rightarrow> ('a kmem_scheme \<times> task_table) option" where
  "task_load_elf s t ts elf_image stack_size =
     (let (s, cr3) = kmem_create_root s;
          t = put_word t ts CR3 cr3;
          stack_size = (stack_size + 0xfff) AND NOT 0xfff;
          s = stack_loop s cr3 DEFAULT_TASK_STACK_TOP (unat stack_size div 4096);
          t = put_word t ts RSP DEFAULT_TASK_STACK_TOP;
          phdrs = elf_image + e_phoff (read_ehdr (vmem s) elf_image)
      in Option.bind (load_segments s cr3 elf_image phdrs 0) (\<lambda>s.
           (let t = put_word t ts RIP (e_entry (read_ehdr (vmem s) elf_image))
            in Some (s, put_word t ts STATE TASK_STATE_VALID))))"


section \<open>The task table\<close>

lemma put_word_simp: "put_word t i w v j u = (if j = i \<and> u = w then v else t j u)"
  by (simp add: put_word_def)

lemma find_upt_Some:
  "List.find P [1..<n] = Some i \<longleftrightarrow> 0 < i \<and> i < n \<and> P i \<and> (\<forall>j. 0 < j \<and> j < i \<longrightarrow> \<not> P j)"
proof (induction n)
  case 0
  then show ?case by simp
next
  case (Suc n)
  have app: "List.find P (xs @ [n]) = (case List.find P xs of None \<Rightarrow> if P n then Some n else None | Some x \<Rightarrow> Some x)" for xs
    by (induction xs) auto
  have none: "List.find P [1..<n] = None \<longleftrightarrow> (\<forall>j. 0 < j \<and> j < n \<longrightarrow> \<not> P j)"
    by (auto simp: find_None_iff)
  show ?case
  proof (cases "n = 0")
    case True
    then show ?thesis by auto
  next
    case False
    then have "[1..<Suc n] = [1..<n] @ [n]" by simp
    then show ?thesis
      using Suc none by (auto simp: app less_Suc_eq split: option.split)
  qed
qed

lemma find_upt_None: "List.find P [1..<n] = None \<longleftrightarrow> (\<forall>j. 0 < j \<and> j < n \<longrightarrow> \<not> P j)"
  by (auto simp: find_None_iff)

lemma find_available_iff:
  "find_available t = Some i \<longleftrightarrow>
     0 < i \<and> i < NUM_TASKS \<and> t i STATE AND TASK_STATE_VALID = 0 \<and>
     (\<forall>j. 0 < j \<and> j < i \<longrightarrow> t j STATE AND TASK_STATE_VALID \<noteq> 0)"
  by (simp add: find_available_def find_upt_Some del: One_nat_def)

lemma find_available_state:
  assumes "\<And>i. t' i STATE = t i STATE"
  shows "find_available t' = find_available t"
  using assms by (simp add: find_available_def)

lemma find_available_None:
  "find_available t = None \<longleftrightarrow> (\<forall>i. 0 < i \<and> i < NUM_TASKS \<longrightarrow> t i STATE AND TASK_STATE_VALID \<noteq> 0)"
  by (simp add: find_available_def find_upt_None del: One_nat_def)

lemma task_create_state: "fst (task_create t) j STATE = t j STATE"
  by (simp add: task_create_def put_word_simp split: option.split)

lemma task_create_slot: "snd (task_create t) = find_available t"
  by (simp add: task_create_def split: option.split)

section \<open>Where the segment loops end\<close>

definition page_count_to :: "u64 \<Rightarrow> u64 \<Rightarrow> nat" where
  "page_count_to start stop = (unat stop - unat start + 4095) div 4096"

lemma aligned_step:
  assumes "page_aligned start" "start < stop" "stop \<le> -4096"
  shows "page_aligned (start + 0x1000)" "unat (start + 0x1000) = unat start + 4096"
    "page_count_to start stop = Suc (page_count_to (start + 0x1000) stop)"
proof -
  have m: "unat (-4096 :: u64) = 2 ^ 64 - 4096" by simp
  have "unat start < unat stop" "unat stop \<le> 2 ^ 64 - 4096"
    using assms(2,3) m by (simp_all add: word_less_nat_alt word_le_nat_alt)
  then have "unat start + 4096 < 2 ^ 64" by simp
  then show u: "unat (start + 0x1000) = unat start + 4096" by (simp add: unat_word_ariths)
  then show "page_aligned (start + 0x1000)" using assms(1) by (simp add: page_aligned_iff)
  show "page_count_to start stop = Suc (page_count_to (start + 0x1000) stop)"
  proof (cases "unat start + 4096 \<le> unat stop")
    case True
    then obtain d where "unat stop = unat start + 4096 + d" using le_Suc_ex by blast
    then show ?thesis unfolding page_count_to_def u by simp
  next
    case False
    then have "unat stop - (unat start + 4096) = 0" by simp
    moreover have "(unat stop - unat start + 4095) div 4096 = 1"
      using False \<open>unat start < unat stop\<close> by (intro div_nat_eqI) auto
    ultimately show ?thesis unfolding page_count_to_def u by simp
  qed
qed

lemma page_count_to_0: "\<not> start < stop \<Longrightarrow> page_count_to start stop = 0"
  by (simp add: page_count_to_def word_less_nat_alt)

lemma wrap_stays:
  assumes "page_aligned start" "(-4096 :: u64) < stop"
  shows "start < stop" "page_aligned (start + 0x1000)"
proof -
  have m: "unat (-4096 :: u64) = 2 ^ 64 - 4096" by simp
  obtain k where k: "unat start = 4096 * k" "k < 2 ^ 52" using assms(1) by (rule page_alignedE)
  then have "unat start \<le> unat (-4096 :: u64)" unfolding m by simp
  then show "start < stop" using assms(2) by (simp add: word_less_nat_alt)
  have "unat (start + 0x1000) mod 4096 = (unat start + 4096) mod 2 ^ 64 mod 4096"
    by (simp add: unat_word_ariths)
  also have "\<dots> = (unat start + 4096) mod 4096" by (rule mod_mod_cancel) simp
  finally show "page_aligned (start + 0x1000)" using assms(1) by (simp add: page_aligned_iff)
qed

text \<open>The loop runs its body on consecutive pages, or never ends.\<close>

lemma page_loop_pages:
  assumes "page_aligned start" "stop \<le> -4096"
  shows "page_loop body s start stop = Some (foldl body s (map (nth_page start) [0..<page_count_to start stop]))"
  using assms(1)
proof (induction "page_count_to start stop" arbitrary: s start)
  case 0
  then have "\<not> start < stop" using aligned_step(3) [OF 0(2) _ assms(2)] by fastforce
  with 0 show ?case by (simp add: page_loop.simps)
next
  case (Suc n)
  then have l: "start < stop" using page_count_to_0 [of start stop] by fastforce
  note A = aligned_step [OF Suc(3) l assms(2)]
  then have n: "n = page_count_to (start + 0x1000) stop" using Suc(2) by simp
  have "map (nth_page start) [0..<Suc n] = start # map (nth_page (start + 0x1000)) [0..<n]"
    by (simp add: nth_page_Suc map_upt_Suc del: upt_Suc)
  with Suc(1) [OF n A(1)] Suc(2) l n show ?case
    by (subst page_loop.simps) (simp del: upt_Suc)
qed

lemma page_loop_wraps: "page_loop body s start stop = Some r \<Longrightarrow> \<not> (page_aligned start \<and> -4096 < stop)"
proof (rule page_loop.raw_induct [where P = "\<lambda>body s start stop r. \<not> (page_aligned start \<and> -4096 < stop)"])
  fix f :: "('a \<Rightarrow> u64 \<Rightarrow> 'a) \<Rightarrow> 'a \<Rightarrow> u64 \<Rightarrow> u64 \<Rightarrow> 'a option" and body s start stop r
  assume IH: "\<And>body s start stop r. f body s start stop = Some r \<Longrightarrow> \<not> (page_aligned start \<and> -4096 < stop)"
    and step: "(if start < stop then f body (body s start) (start + 0x1000) stop else Some s) = Some r"
  show "\<not> (page_aligned start \<and> -4096 < stop)"
  proof
    assume A: "page_aligned start \<and> -4096 < stop"
    with step wrap_stays [of start stop] IH show False by auto
  qed
qed

lemma page_loop_None:
  assumes "page_aligned start"
  shows "page_loop body s start stop = None \<longleftrightarrow> -4096 < stop"
proof (cases "page_loop body s start stop")
  case None
  then show ?thesis using page_loop_pages [OF assms, of stop body s] by (auto simp: not_less [symmetric])
next
  case (Some r)
  then show ?thesis using page_loop_wraps [OF Some] assms by simp
qed

lemmas segment_loops_end = page_loop_None [of _ "back_page cr3" for cr3, folded back_loop_def]
  page_loop_None [of _ "\<lambda>s start. kmem_set_flags s cr3 start KMEM_MAP_CODE" for cr3, folded code_loop_def]

section \<open>Properties\<close>

text \<open>
  \<^verbatim>\<open>task_create\<close> finds the first slot above 0 whose state is not valid and sets its segments
  and flags, but leaves the slot as it found it, not valid: until the caller marks it, the next
  call returns the same slot again.
\<close>

theorem task_create_same_slot:
  "snd (task_create (fst (task_create t))) = snd (task_create t) \<and>
   (case task_create t of
      (t', None) \<Rightarrow> t' = t \<and> (\<forall>i. i = 0 \<or> NUM_TASKS \<le> i \<or> t i STATE AND TASK_STATE_VALID \<noteq> 0)
    | (t', Some i) \<Rightarrow> 0 < i \<and> i < NUM_TASKS \<and> t i STATE AND TASK_STATE_VALID = 0 \<and>
        (\<forall>j. j = 0 \<or> i \<le> j \<or> t j STATE AND TASK_STATE_VALID \<noteq> 0) \<and>
        t' = t(i := (t i)(CS := 0x08, DS := 0x10, ES := 0x10, FS := 0x10, GS := 0x10, SS := 0x10, RFLAGS := 0x2)))"
proof -
  have "find_available (fst (task_create t)) = find_available t"
    by (rule find_available_state) (rule task_create_state)
  then have "snd (task_create (fst (task_create t))) = snd (task_create t)"
    by (simp add: task_create_slot)
  moreover have "i = 0 \<or> NUM_TASKS \<le> i \<or> t i STATE AND TASK_STATE_VALID \<noteq> 0" if "find_available t = None" for i
    using that find_available_None [of t] by (meson not_gr_zero not_less)
  moreover have "j = 0 \<or> i \<le> j \<or> t j STATE AND TASK_STATE_VALID \<noteq> 0" if "find_available t = Some i" for i j
    using that find_available_iff [of t i] by (meson not_gr_zero not_less)
  ultimately show ?thesis
    by (auto simp: task_create_def find_available_iff put_word_def split: option.split)
qed

theorem task_create_same_slot_witness:
  "snd (task_create (\<lambda>i w. if i = 1 \<and> w = STATE then 1 else 0)) = Some 2"
proof -
  define t :: task_table where "t = (\<lambda>i w. if i = 1 \<and> w = STATE then 1 else 0)"
  have v: "t i STATE AND TASK_STATE_VALID \<noteq> 0 \<longleftrightarrow> i = 1" for i
    by (simp add: t_def TASK_STATE_VALID_def)
  obtain t' r where e: "task_create t = (t', r)" by fastforce
  note slot = task_create_same_slot [of t, THEN conjunct2, unfolded e prod.case]
  have "r = Some 2"
  proof (cases r)
    case None
    have "\<forall>i. i = 0 \<or> NUM_TASKS \<le> i \<or> t i STATE AND TASK_STATE_VALID \<noteq> 0"
      using slot unfolding None option.case by (rule conjunct2)
    from this [rule_format, of 2] show ?thesis by (simp add: v NUM_TASKS_def)
  next
    case (Some i)
    have i: "0 < i" "t i STATE AND TASK_STATE_VALID = 0" and
      j: "\<forall>j. j = 0 \<or> i \<le> j \<or> t j STATE AND TASK_STATE_VALID \<noteq> 0"
      using slot unfolding Some option.case by blast+
    from j [rule_format, of 2] have "i \<le> 2" by (simp add: v)
    moreover have "i \<noteq> 1" using i(2) v [of i] by simp
    ultimately show ?thesis using Some i(1) by simp
  qed
  then show ?thesis using e by (simp add: t_def)
qed

text \<open>
  C36: the loader never returns from exactly two kinds of segments: those that end in the last page of the
  address space, and those so long that their end wraps round the whole of it into that page again.  There
  the loop variable wraps before it reaches the end.  For all others the loader returns; among them are
  the segments that end with the address space itself, whose end wraps to 0 so that no page is mapped.
\<close>

theorem load_segment_ends:
  "load_segment s cr3 img ph = None \<longleftrightarrow>
    p_type ph = PT_LOAD \<and>
    (let e = unat (p_vaddr ph) + unat (p_memsz ph) in 2 ^ 64 - 4096 < e \<and> e < 2 ^ 64 \<or> 2 ^ 65 - 4096 < e)"
proof -
  define start where "start = p_vaddr ph AND NOT 0xfff"
  have a: "page_aligned start" unfolding start_def by (rule page_aligned_clear12)
  have e: "-4096 < p_vaddr ph + p_memsz ph \<longleftrightarrow>
      (let e = unat (p_vaddr ph) + unat (p_memsz ph) in 2 ^ 64 - 4096 < e \<and> e < 2 ^ 64 \<or> 2 ^ 65 - 4096 < e)"
    using unat_lt64 [of "p_vaddr ph"] unat_lt64 [of "p_memsz ph"]
    by (cases "unat (p_vaddr ph) + unat (p_memsz ph) < 2 ^ 64")
      (auto simp: word_less_nat_alt unat_word_ariths Let_def le_mod_geq not_less)
  show ?thesis
    unfolding load_segment_def start_def [symmetric] Let_def
    by (auto simp: bind_eq_None_conv segment_loops_end [OF a] e Let_def split: if_splits simp del: not_None_eq)
qed

end
