(* ===== verification/Klib_Load.thy ===== *)
theory Klib_Load
  imports Klib_Space Klib_Task
begin

text \<open>
  What \<^verbatim>\<open>task_load_elf\<close> makes of a segment: the loops of \<open>load_segment\<close> page by page, and the
  contents and rights of the address space when they are done.
\<close>

section \<open>Backing the range with fresh pages\<close>

lemma getpage_vmem [simp]: "vmem (fst (kmem_getpage s)) = vmem s"
  by (simp add: kmem_getpage_def Let_def)

lemma back_page_ok:
  assumes ok: "paging_ok s root (p # ps)" and a: "mappable a" and len: "3 \<le> length ps"
  shows "\<exists>m \<le> 3. let s' = back_page root s a in paging_ok s' root (drop m ps) \<and>
    (\<forall>w. mappable w \<longrightarrow> pte s' root w = (if same_page a w then p OR KMEM_MAP_DATA else pte s root w)) \<and>
    table_at s' root a 3 \<noteq> None \<and> (\<forall>w. mappable w \<and> table_at s root w 3 \<noteq> None \<longrightarrow> table_at s' root w 3 \<noteq> None) \<and>
    table_pages s' root \<subseteq> table_pages s root \<union> set (take m ps) \<and>
    (\<forall>x. (\<forall>c \<in> table_pages s root \<union> set (take m ps). \<not> in_page c x) \<longrightarrow> vmem s' x = vmem s x)"
proof -
  note G = getpage_ok [OF ok]
  let ?g = "fst (kmem_getpage s)"
  note R = tree_reads [of ?g s root, OF getpage_reads(1)] table_at_reads [of ?g s, OF getpage_reads(1)]
  have "back_page root s a = kmem_map ?g root a p KMEM_MAP_DATA"
    using G(1) by (simp add: back_page_def case_prod_beta)
  then show ?thesis
    using kmem_map_grows [OF G(2) a len, of p KMEM_MAP_DATA] unfolding R getpage_vmem by simp
qed

lemma map_nth_page_Suc: "map (nth_page a) [0..<Suc n] = a # map (nth_page (a + 0x1000)) [0..<n]"
  by (simp add: nth_page_Suc map_upt_Suc del: upt_Suc)

lemma back_pages_ok:
  assumes "paging_ok s root ps" "4 * n \<le> length ps" "\<And>i. i < n \<Longrightarrow> mappable (nth_page a i)" "n \<le> 2 ^ 36"
  shows "\<exists>pages k. length pages = n \<and> k \<le> 4 * n \<and> distinct pages \<and> set pages \<subseteq> set (take k ps) \<and>
    (let s' = foldl (back_page root) s (map (nth_page a) [0..<n]) in
      paging_ok s' root (drop k ps) \<and>
      (\<forall>i < n. pte s' root (nth_page a i) = pages ! i OR KMEM_MAP_DATA \<and> table_at s' root (nth_page a i) 3 \<noteq> None) \<and>
      (\<forall>w. mappable w \<and> (\<forall>i < n. \<not> same_page (nth_page a i) w) \<longrightarrow> pte s' root w = pte s root w) \<and>
      (\<forall>w. mappable w \<and> table_at s root w 3 \<noteq> None \<longrightarrow> table_at s' root w 3 \<noteq> None) \<and>
      table_pages s' root \<subseteq> table_pages s root \<union> (set (take k ps) - set pages) \<and>
      (\<forall>x. (\<forall>c \<in> table_pages s root \<union> (set (take k ps) - set pages). \<not> in_page c x) \<longrightarrow> vmem s' x = vmem s x))"
  using assms
proof (induction n arbitrary: s a ps)
  case 0
  then show ?case by (intro exI [of _ "[]"] exI [of _ 0]) simp
next
  case (Suc n)
  obtain p qs where ps: "ps = p # qs" using Suc.prems(2) by (cases ps) auto
  have a: "mappable a" using Suc.prems(3) [of 0] by simp
  have len: "3 \<le> length qs" using Suc.prems(2) ps by simp
  let ?s = "back_page root s a"
  obtain m where M: "m \<le> 3" "paging_ok ?s root (drop m qs)"
    "\<And>w. mappable w \<Longrightarrow> pte ?s root w = (if same_page a w then p OR KMEM_MAP_DATA else pte s root w)"
    "table_at ?s root a 3 \<noteq> None" "\<And>w. mappable w \<Longrightarrow> table_at s root w 3 \<noteq> None \<Longrightarrow> table_at ?s root w 3 \<noteq> None"
    "table_pages ?s root \<subseteq> table_pages s root \<union> set (take m qs)"
    "\<And>x. \<forall>c \<in> table_pages s root \<union> set (take m qs). \<not> in_page c x \<Longrightarrow> vmem ?s x = vmem s x"
    using back_page_ok [OF Suc.prems(1) [unfolded ps] a len] unfolding Let_def by blast
  have c1: "4 * n \<le> length (drop m qs)" using Suc.prems(2) M(1) ps by simp
  have c2: "mappable (nth_page (a + 0x1000) i)" if "i < n" for i
    using Suc.prems(3) [of "Suc i"] that by (simp add: nth_page_Suc)
  have c3: "n \<le> 2 ^ 36" using Suc.prems(4) by simp
  define s' where "s' = foldl (back_page root) ?s (map (nth_page (a + 0x1000)) [0..<n])"
  obtain pages k where IH: "length pages = n" "k \<le> 4 * n" "distinct pages" "set pages \<subseteq> set (take k (drop m qs))"
    "paging_ok s' root (drop k (drop m qs))"
    "\<And>i. i < n \<Longrightarrow> pte s' root (nth_page (a + 0x1000) i) = pages ! i OR KMEM_MAP_DATA \<and>
      table_at s' root (nth_page (a + 0x1000) i) 3 \<noteq> None"
    "\<And>w. mappable w \<Longrightarrow> (\<And>i. i < n \<Longrightarrow> \<not> same_page (nth_page (a + 0x1000) i) w) \<Longrightarrow> pte s' root w = pte ?s root w"
    "\<And>w. mappable w \<Longrightarrow> table_at ?s root w 3 \<noteq> None \<Longrightarrow> table_at s' root w 3 \<noteq> None"
    "table_pages s' root \<subseteq> table_pages ?s root \<union> (set (take k (drop m qs)) - set pages)"
    "\<And>x. \<forall>c \<in> table_pages ?s root \<union> (set (take k (drop m qs)) - set pages). \<not> in_page c x \<Longrightarrow> vmem s' x = vmem ?s x"
    using Suc.IH [OF M(2) c1 c2 c3] unfolding Let_def s'_def [symmetric] by blast
  have run: "foldl (back_page root) s (map (nth_page a) [0..<Suc n]) = s'"
    unfolding s'_def map_nth_page_Suc by simp
  have dist: "distinct ps" and free: "set ps \<inter> table_pages s root = {}"
    using Suc.prems(1) by (simp_all add: paging_ok_def free_pages_def)
  have tk: "take (Suc (m + k)) ps = p # take m qs @ take k (drop m qs)" by (simp add: ps take_add)
  have dr: "drop (Suc (m + k)) ps = drop k (drop m qs)" by (simp add: ps add.commute)
  have sub: "set (take m qs) \<subseteq> set qs" "set (take k (drop m qs)) \<subseteq> set (drop m qs)" "set (drop m qs) \<subseteq> set qs"
    by (rule set_take_subset set_drop_subset)+
  have "distinct (take m qs @ drop m qs)" using dist ps by simp
  then have dj: "set (take m qs) \<inter> set (drop m qs) = {}" unfolding distinct_append by blast
  have p: "p \<notin> set qs" using dist ps by simp
  have pn: "p \<notin> set pages" using p IH(4) sub by blast
  have grow: "set (take m qs) \<union> (set (take k (drop m qs)) - set pages) = set (take (Suc (m + k)) ps) - set (p # pages)"
    using p IH(4) sub dj unfolding tk by auto
  have other: "\<not> same_page (nth_page a (Suc i)) a" if "i < n" for i
    using same_page_nth [of "Suc i" "Suc n" 0 a] Suc.prems(4) that by auto
  have new: "pte s' root (nth_page a i) = (p # pages) ! i OR KMEM_MAP_DATA \<and> table_at s' root (nth_page a i) 3 \<noteq> None"
    if "i < Suc n" for i
  proof (cases i)
    case 0
    then show ?thesis using IH(7) [OF a] IH(8) [OF a M(4)] M(3) [OF a] other by (simp add: nth_page_Suc same_page_def)
  next
    case (Suc j)
    then show ?thesis using IH(6) [of j] that by (simp add: nth_page_Suc)
  qed
  have old: "pte s' root w = pte s root w" if "mappable w" "\<forall>i < Suc n. \<not> same_page (nth_page a i) w" for w
  proof -
    have "\<not> same_page a w" using that(2) by (metis nth_page_0 zero_less_Suc)
    then show ?thesis using IH(7) [OF that(1)] M(3) [OF that(1)] that(2) by (simp add: nth_page_Suc)
  qed
  have tp: "table_pages s' root \<subseteq> table_pages s root \<union> (set (take (Suc (m + k)) ps) - set (p # pages))"
    using IH(9) M(6) unfolding grow [symmetric] by blast
  have mem: "vmem s' x = vmem s x"
    if "\<forall>c \<in> table_pages s root \<union> (set (take (Suc (m + k)) ps) - set (p # pages)). \<not> in_page c x" for x
  proof -
    have all: "\<forall>c \<in> table_pages s root \<union> (set (take m qs) \<union> (set (take k (drop m qs)) - set pages)). \<not> in_page c x"
      using that unfolding grow .
    then have "\<forall>c \<in> table_pages ?s root \<union> (set (take k (drop m qs)) - set pages). \<not> in_page c x"
      using M(6) by blast
    then have "vmem s' x = vmem ?s x" by (rule IH(10))
    also have "\<dots> = vmem s x" using all by (intro M(7)) blast
    finally show ?thesis .
  qed
  have "length (p # pages) = Suc n \<and> Suc (m + k) \<le> 4 * Suc n \<and> distinct (p # pages) \<and>
      set (p # pages) \<subseteq> set (take (Suc (m + k)) ps)"
    using IH(1-4) M(1) pn by (auto simp: tk)
  moreover have "paging_ok s' root (drop (Suc (m + k)) ps)" unfolding dr by (rule IH(5))
  moreover have "\<forall>i < Suc n. pte s' root (nth_page a i) = (p # pages) ! i OR KMEM_MAP_DATA \<and>
      table_at s' root (nth_page a i) 3 \<noteq> None" using new by blast
  moreover have "\<forall>w. mappable w \<and> (\<forall>i < Suc n. \<not> same_page (nth_page a i) w) \<longrightarrow> pte s' root w = pte s root w"
    using old by blast
  moreover have "\<forall>w. mappable w \<and> table_at s root w 3 \<noteq> None \<longrightarrow> table_at s' root w 3 \<noteq> None"
    using M(5) IH(8) by blast
  moreover have "\<forall>x. (\<forall>c \<in> table_pages s root \<union> (set (take (Suc (m + k)) ps) - set (p # pages)). \<not> in_page c x) \<longrightarrow>
      vmem s' x = vmem s x" using mem by blast
  ultimately show ?case
    unfolding run Let_def by (intro exI [of _ "p # pages"] exI [of _ "Suc (m + k)"]) (simp only: tp simp_thms)
qed

section \<open>Changing the rights\<close>

text \<open>
  \<^verbatim>\<open>kmem_set_flags\<close> on pages that have a table: the flags of those pages are replaced, and
  memory outside the tables stays.
\<close>

lemma set_flags_pages:
  assumes "paging_ok s root ps" "\<And>i. i < n \<Longrightarrow> mappable (nth_page a i) \<and> table_at s root (nth_page a i) 3 \<noteq> None" "n \<le> 2 ^ 36"
  shows "let s' = foldl (\<lambda>s v. kmem_set_flags s root v flags) s (map (nth_page a) [0..<n]) in
    paging_ok s' root ps \<and> table_pages s' root = table_pages s root \<and>
    (\<forall>w. mappable w \<longrightarrow> table_at s' root w 3 = table_at s root w 3) \<and>
    (\<forall>w. mappable w \<longrightarrow> pte s' root w =
      (if \<exists>i < n. same_page (nth_page a i) w then pte s root w AND NOT KMEM_FLAG_MASK OR flags else pte s root w)) \<and>
    (\<forall>x. (\<forall>c \<in> table_pages s root. \<not> in_page c x) \<longrightarrow> vmem s' x = vmem s x)"
  using assms
proof (induction n arbitrary: s a)
  case (Suc n)
  have a: "mappable a" using Suc.prems(2) [of 0] by simp
  obtain b where b: "table_at s root a 3 = Some b" using Suc.prems(2) [of 0] by auto
  let ?e = "pte s root a AND NOT KMEM_FLAG_MASK OR flags"
  let ?s = "phy_write64 s (b + level_index 3 a * 8) ?e"
  have tree: "tree_ok s root" using Suc.prems(1) by (simp add: paging_ok_def)
  note W = write_leaf [OF tree a b, where e = ?e] and O = write_leaf_ok [OF Suc.prems(1) a b, where e = ?e]
  have step: "kmem_set_flags s root a flags = ?s"
    by (simp add: kmem_set_flags_def kmem_paging_addr_create_def paging_addr_create_with_def paging_addr_table b
        pte_entry [OF b])
  have bt: "b \<in> table_pages s root" by (rule table_pagesI [OF a _ b]) simp
  have mem: "vmem ?s x = vmem s x" if "\<forall>c \<in> table_pages s root. \<not> in_page c x" for x
    using that bt by (intro write_in_page level_index_less) blast
  have m: "mappable (nth_page (a + 0x1000) i) \<and> table_at ?s root (nth_page (a + 0x1000) i) 3 \<noteq> None" if "i < n" for i
    using Suc.prems(2) [of "Suc i"] that W(1) by (simp add: nth_page_Suc)
  define s' where "s' = foldl (\<lambda>s v. kmem_set_flags s root v flags) ?s (map (nth_page (a + 0x1000)) [0..<n])"
  have run: "foldl (\<lambda>s v. kmem_set_flags s root v flags) s (map (nth_page a) [0..<Suc n]) = s'"
    unfolding s'_def map_nth_page_Suc by (simp add: step)
  have "n \<le> 2 ^ 36" using Suc.prems(3) by simp
  note IH = Suc.IH [OF O(1) m this, unfolded Let_def, folded s'_def]
  have ex: "(\<exists>i < Suc n. same_page (nth_page a i) w) \<longleftrightarrow>
      same_page a w \<or> (\<exists>i < n. same_page (nth_page (a + 0x1000) i) w)" for w
    by (auto simp: nth_page_Suc less_Suc_eq_0_disj)
  have other: "\<not> (same_page a w \<and> (\<exists>i < n. same_page (nth_page (a + 0x1000) i) w))" for w
    using same_page_nth [of 0 "Suc n" _ a] Suc.prems(3) by (force simp: nth_page_Suc same_page_def)
  have "pte s' root w = (if \<exists>i < Suc n. same_page (nth_page a i) w then pte s root w AND NOT KMEM_FLAG_MASK OR flags
      else pte s root w)" if w: "mappable w" for w
  proof -
    have "pte s' root w = (if \<exists>i < n. same_page (nth_page (a + 0x1000) i) w
        then pte ?s root w AND NOT KMEM_FLAG_MASK OR flags else pte ?s root w)" using IH w by blast
    moreover have "pte ?s root w = (if same_page a w then ?e else pte s root w)"
      using W(2) [OF w] by (simp add: same_path_page)
    ultimately show ?thesis
      using other [of w] pte_same_page [of a w s root] unfolding ex
      by (cases "same_page a w"; cases "\<exists>i < n. same_page (nth_page (a + 0x1000) i) w") auto
  qed
  then show ?case unfolding run Let_def using IH W(1) [of _ 3] O(2) mem by auto
qed simp

section \<open>Filling the range\<close>

lemma window_in_page:
  assumes "page_aligned c" "in_page c (window s root v)"
  shows "c = frame_of s root v"
proof -
  let ?d = "window s root v - (PHY_MAP_BASE + c)"
  have "window s root v = PHY_MAP_BASE + c + ?d" by simp
  then have e: "c + ?d = frame_of s root v + (v AND 0xfff)" by (simp add: window_def algebra_simps)
  show ?thesis
    by (rule page_offset_inj [OF assms(1) _ _ _ e]) (use assms(2) in \<open>simp_all add: in_page_def frame_of_def frame_aligned low12_unat\<close>)
qed

lemma window_own_page: "in_page (frame_of s root v) (window s root v)"
  by (simp add: in_page_def window_def low12_unat)

text \<open>Copying the file part and clearing the rest, as \<^verbatim>\<open>task_load_elf\<close> does it.\<close>

definition fill_segment :: "'a kmem_scheme \<Rightarrow> u64 \<Rightarrow> ptr \<Rightarrow> Elf64_Phdr \<Rightarrow> 'a kmem_scheme" where
  "fill_segment s cr3 elf_image ph =
     (let s = kmem_memcpy s cr3 (p_vaddr ph) (elf_image + p_offset ph) (p_filesz ph)
      in if p_memsz ph \<noteq> p_filesz ph
         then kmem_memclr s cr3 (p_vaddr ph + p_filesz ph) (p_memsz ph - p_filesz ph) else s)"

lemma load_segment_fill:
  "load_segment s cr3 img ph =
     (if p_type ph \<noteq> PT_LOAD then Some s
      else Option.bind (back_loop s cr3 (p_vaddr ph AND NOT 0xfff) (p_vaddr ph + p_memsz ph)) (\<lambda>s.
        if p_flags ph AND PF_X \<noteq> 0 \<or> p_flags ph AND PF_W = 0
        then code_loop (fill_segment s cr3 img ph) cr3 (p_vaddr ph AND NOT 0xfff) (p_vaddr ph + p_memsz ph)
        else Some (fill_segment s cr3 img ph)))"
  by (simp only: load_segment_def fill_segment_def Let_def)

lemma fill_segment_written:
  assumes ok: "writable s cr3 (p_vaddr ph) (unat (p_memsz ph))" and le: "p_filesz ph \<le> p_memsz ph"
    and fits: "fits (img + p_offset ph) (unat (p_filesz ph))"
    and out: "\<And>j k. j < unat (p_filesz ph) \<Longrightarrow> k < unat (p_memsz ph) \<Longrightarrow>
      img + p_offset ph + of_nat j \<noteq> window s cr3 (p_vaddr ph + of_nat k)"
  shows "written s cr3 (p_vaddr ph) (unat (p_memsz ph))
    (\<lambda>j. if j < unat (p_filesz ph) then vmem s (img + p_offset ph + of_nat j) else 0) (fill_segment s cr3 img ph)"
proof -
  let ?v = "p_vaddr ph" and ?f = "unat (p_filesz ph)" and ?n = "unat (p_memsz ph)"
  let ?src = "\<lambda>j. if j < ?f then vmem s (img + p_offset ph + of_nat j) else 0"
  let ?s = "kmem_memcpy s cr3 ?v (img + p_offset ph) (p_filesz ph)"
  have fn: "?f \<le> ?n" using le by (simp add: word_le_nat_alt)
  have "written s cr3 ?v ?f (\<lambda>j. vmem s (img + p_offset ph + of_nat j)) ?s"
    using memcpy_written [OF writable_mono [OF ok fn] fits] out fn by simp
  then have W: "written s cr3 ?v ?f ?src ?s" by (simp add: written_def)
  show ?thesis
  proof (cases "p_memsz ph = p_filesz ph")
    case True
    then show ?thesis using W by (simp add: fill_segment_def)
  next
    case False
    have sub: "unat (p_memsz ph - p_filesz ph) = ?n - ?f" using le by (simp add: unat_sub)
    have v: "?v + p_filesz ph = ?v + of_nat ?f" by simp
    note R = written_rest [OF ok W fn]
    have "writable ?s cr3 (?v + p_filesz ph) (unat (p_memsz ph - p_filesz ph))" using R(1) unfolding sub v .
    then have "written ?s cr3 (?v + p_filesz ph) (unat (p_memsz ph - p_filesz ph)) (\<lambda>_. 0) (fill_segment s cr3 img ph)"
      using memclr_written False by (simp add: fill_segment_def)
    then have "written ?s cr3 (?v + of_nat ?f) (?n - ?f) (\<lambda>j. ?src (?f + j)) (fill_segment s cr3 img ph)"
      unfolding sub v by simp
    then show ?thesis by (rule R(2))
  qed
qed

lemma get_last_unused_vmem: "get_last_unused (s\<lparr>vmem := m\<rparr>) = get_last_unused s"
  by (simp add: get_last_unused_def split: unused_loc.split)

text \<open>Writing a range of pages taken off the free list leaves the rest of the list.\<close>

lemma written_paging_ok:
  assumes ok: "paging_ok s root ps" and w: "writable s root v n" and W: "written s root v n src s'"
    and out: "\<And>j. j < n \<Longrightarrow> frame_of s root (v + of_nat j) \<notin> set ps"
  shows "paging_ok s' root ps"
proof -
  note A = written_tables [OF w W order_refl]
  have al: "\<forall>p \<in> set ps. page_aligned p" using ok by (simp add: paging_ok_def free_pages_def)
  have r: "phy_read64 s' p = phy_read64 s p" if "p \<in> set ps" for p
    using written_agree [of n s root v p 0 src s'] out al W that by auto
  have "s' = s\<lparr>vmem := vmem s'\<rparr>" using W unfolding written_def by blast
  then have "get_last_unused s' = get_last_unused s"
    by (metis get_last_unused_vmem)
  moreover have "chain s' h ps = chain s h ps" for h by (rule chain_cong) (rule r)
  ultimately show ?thesis using ok A(3,4) by (simp add: paging_ok_def free_pages_def)
qed

section \<open>The segment\<close>

lemma code_frame: "(e AND NOT KMEM_FLAG_MASK OR KMEM_MAP_CODE) AND NOT KMEM_FLAG_MASK = e AND NOT KMEM_FLAG_MASK"
proof -
  have "KMEM_MAP_CODE AND NOT KMEM_FLAG_MASK = 0" by (simp add: KMEM_MAP_CODE_def KMEM_FLAG_MASK_def)
  then show ?thesis by (simp only: bit.conj_disj_distrib2 and.assoc and.idem or.right_neutral)
qed

lemma flags_of:
  assumes "p AND KMEM_FLAG_MASK = 0"
  shows "(p OR KMEM_MAP_DATA) AND KMEM_FLAG_MASK = KMEM_MAP_DATA"
    and "(e AND NOT KMEM_FLAG_MASK OR KMEM_MAP_CODE) AND KMEM_FLAG_MASK = KMEM_MAP_CODE"
proof -
  have "KMEM_MAP_DATA AND KMEM_FLAG_MASK = KMEM_MAP_DATA" "KMEM_MAP_CODE AND KMEM_FLAG_MASK = KMEM_MAP_CODE"
    by (simp_all add: KMEM_MAP_CODE_def KMEM_MAP_DATA_def KMEM_FLAG_MASK_def)
  moreover have "(e AND NOT KMEM_FLAG_MASK) AND KMEM_FLAG_MASK = 0"
    by (rule bit_word_eqI) (simp only: bit_and_iff bit_not_iff bit_0_eq bot_apply, simp)
  ultimately show "(p OR KMEM_MAP_DATA) AND KMEM_FLAG_MASK = KMEM_MAP_DATA"
    "(e AND NOT KMEM_FLAG_MASK OR KMEM_MAP_CODE) AND KMEM_FLAG_MASK = KMEM_MAP_CODE"
    using assms by (simp_all only: bit.conj_disj_distrib2 or.left_neutral)
qed

text \<open>The pages from the start of the segment's first page to its end.\<close>

lemma segment_pages:
  fixes v sz :: u64
  assumes "unat v + unat sz \<le> 2 ^ 64 - 4096"
  defines "N \<equiv> page_count_to (v AND NOT 0xfff) (v + sz)"
  shows "page_aligned (v AND NOT 0xfff)" "v + sz \<le> -4096" "unat (v AND 0xfff) + unat sz \<le> 4096 * N" "N \<le> 2 ^ 52"
proof -
  have u: "unat (v + sz) = unat v + unat sz" using assms by (simp add: unat_word_ariths)
  have "unat (-4096 :: u64) = 2 ^ 64 - 4096" by simp
  then show "v + sz \<le> -4096" using assms(1) by (simp add: word_le_nat_alt u)
  show "page_aligned (v AND NOT 0xfff)" using unat_clear12 [of v] by (simp add: page_aligned_iff)
  have d: "unat (v + sz) - unat (v AND NOT 0xfff) = unat (v AND 0xfff) + unat sz"
    using mod_less_eq_dividend [of "unat v" 4096] unfolding u unat_clear12 low12_unat by linarith
  have N: "N = (unat (v AND 0xfff) + unat sz + 4095) div 4096" by (simp only: N_def page_count_to_def d)
  show "unat (v AND 0xfff) + unat sz \<le> 4096 * N" unfolding N by linarith
  show "N \<le> 2 ^ 52" unfolding N using assms(1) by (simp add: low12_unat)
qed

text \<open>
  A segment of an ELF image, with what the loader needs: enough free pages, all of them physical
  memory the window covers, for a range that does not reach the end of the address space, and an
  image that is not in the tables or the free pages.
\<close>

definition loadable :: "'a kmem_scheme \<Rightarrow> u64 \<Rightarrow> u64 list \<Rightarrow> ptr \<Rightarrow> Elf64_Phdr \<Rightarrow> bool" where
  "loadable s cr3 ps img ph \<longleftrightarrow>
     (let v = p_vaddr ph; n = page_count_to (v AND NOT 0xfff) (v + p_memsz ph) in
      p_type ph = PT_LOAD \<and> p_filesz ph \<le> p_memsz ph \<and> unat v + unat (p_memsz ph) \<le> 2 ^ 64 - 4096 \<and>
      paging_ok s cr3 ps \<and> 4 * n \<le> length ps \<and> n \<le> 2 ^ 36 \<and> (\<forall>i < n. mappable (nth_page (v AND NOT 0xfff) i)) \<and>
      (\<forall>p \<in> set ps. p AND KMEM_FLAG_MASK = 0 \<and> unat p < 2 ^ 46) \<and>
      fits (img + p_offset ph) (unat (p_filesz ph)) \<and>
      (\<forall>j < unat (p_filesz ph). \<forall>c \<in> table_pages s cr3 \<union> set ps. \<not> in_page c (img + p_offset ph + of_nat j)))"

definition segment_rights :: "Elf64_Phdr \<Rightarrow> u64" where
  "segment_rights ph = (if p_flags ph AND PF_X \<noteq> 0 \<or> p_flags ph AND PF_W = 0 then KMEM_MAP_CODE else KMEM_MAP_DATA)"

definition segment_loaded ::
  "'a kmem_scheme \<Rightarrow> u64 \<Rightarrow> u64 list \<Rightarrow> ptr \<Rightarrow> Elf64_Phdr \<Rightarrow> 'a kmem_scheme \<Rightarrow> bool" where
  "segment_loaded s cr3 ps img ph s' \<longleftrightarrow>
     (let v = p_vaddr ph; n = page_count_to (v AND NOT 0xfff) (v + p_memsz ph) in
      (\<exists>pages k. k \<le> 4 * n \<and> length pages = n \<and> distinct pages \<and> set pages \<subseteq> set (take k ps) \<and>
         paging_ok s' cr3 (drop k ps) \<and>
         (\<forall>i < n. pte s' cr3 (nth_page (v AND NOT 0xfff) i) = pages ! i OR segment_rights ph)) \<and>
      (\<forall>j < unat (p_memsz ph). vmem s' (window s' cr3 (v + of_nat j)) =
         (if j < unat (p_filesz ph) then vmem s (img + p_offset ph + of_nat j) else 0)) \<and>
      (\<forall>w. mappable w \<and> (\<forall>i < n. \<not> same_page (nth_page (v AND NOT 0xfff) i) w) \<longrightarrow> pte s' cr3 w = pte s cr3 w))"

lemma load_segment_ok:
  assumes L: "loadable s cr3 ps img ph"
  shows "\<exists>s'. load_segment s cr3 img ph = Some s' \<and> segment_loaded s cr3 ps img ph s'"
proof -
  let ?v = "p_vaddr ph" and ?m = "unat (p_memsz ph)" and ?f = "unat (p_filesz ph)"
  let ?start = "?v AND NOT 0xfff" and ?data = "img + p_offset ph"
  define N where "N = page_count_to ?start (?v + p_memsz ph)"
  have A: "p_type ph = PT_LOAD" "p_filesz ph \<le> p_memsz ph" "unat ?v + ?m \<le> 2 ^ 64 - 4096"
    "paging_ok s cr3 ps" "4 * N \<le> length ps" "N \<le> 2 ^ 36" "\<And>i. i < N \<Longrightarrow> mappable (nth_page ?start i)"
    "\<And>p. p \<in> set ps \<Longrightarrow> p AND KMEM_FLAG_MASK = 0 \<and> unat p < 2 ^ 46" "fits ?data ?f"
    "\<And>j c. j < ?f \<Longrightarrow> c \<in> table_pages s cr3 \<union> set ps \<Longrightarrow> \<not> in_page c (?data + of_nat j)"
    using L unfolding loadable_def Let_def N_def by blast+
  note S = segment_pages [OF A(3), folded N_def]
  define s1 where "s1 = foldl (back_page cr3) s (map (nth_page ?start) [0..<N])"
  obtain pages k where B: "length pages = N" "k \<le> 4 * N" "distinct pages" "set pages \<subseteq> set (take k ps)"
    "paging_ok s1 cr3 (drop k ps)"
    "\<And>i. i < N \<Longrightarrow> pte s1 cr3 (nth_page ?start i) = pages ! i OR KMEM_MAP_DATA \<and> table_at s1 cr3 (nth_page ?start i) 3 \<noteq> None"
    "\<And>w. mappable w \<Longrightarrow> (\<forall>i < N. \<not> same_page (nth_page ?start i) w) \<Longrightarrow> pte s1 cr3 w = pte s cr3 w"
    "table_pages s1 cr3 \<subseteq> table_pages s cr3 \<union> (set (take k ps) - set pages)"
    "\<And>x. \<forall>c \<in> table_pages s cr3 \<union> (set (take k ps) - set pages). \<not> in_page c x \<Longrightarrow> vmem s1 x = vmem s x"
    using back_pages_ok [OF A(4,5,7,6)] unfolding Let_def s1_def [symmetric] by blast
  have backed: "back_loop s cr3 ?start (?v + p_memsz ph) = Some s1"
    unfolding back_loop_def s1_def N_def by (rule page_loop_pages [OF S(1,2)])
  have tk: "set (take k ps) \<subseteq> set ps" by (rule set_take_subset)
  have dist: "distinct (take k ps @ drop k ps)" and free: "set ps \<inter> table_pages s cr3 = {}"
    using A(4) by (simp_all add: paging_ok_def free_pages_def)
  have pg: "\<forall>p \<in> set pages. unat p < 2 ^ 46 \<and> p \<notin> table_pages s1 cr3" using A(8) B(4,8) tk free by blast
  have fr: "frame_of s1 cr3 (nth_page ?start i) = pages ! i \<and> table_at s1 cr3 (nth_page ?start i) 3 \<noteq> None"
    if "i < length pages" for i
  proof -
    have "pages ! i AND KMEM_FLAG_MASK = 0" using A(8) B(4) tk that nth_mem by blast
    then show ?thesis using B(6) [of i] that B(1) data_frame [of "pages ! i"] by (simp add: frame_of_def)
  qed
  have tree: "tree_ok s1 cr3" using B(5) by (simp add: paging_ok_def)
  have n: "unat (?v AND 0xfff) + ?m \<le> 4096 * length pages" using S(3) B(1) by simp
  have mp: "mappable (nth_page ?start i)" if "i < length pages" for i using A(7) B(1) that by simp
  have wr: "writable s1 cr3 ?v ?m" by (rule mapped_writable(1) [OF tree refl n mp fr B(3) pg])
  have frames: "frame_of s1 cr3 (?v + of_nat j) \<in> set pages" if "j < ?m" for j
  proof -
    have "frame_of s1 cr3 (?v + of_nat j) = pages ! ((unat (?v AND 0xfff) + j) div 4096)"
      by (rule mapped_writable(2) [OF tree refl n mp fr B(3) pg that])
    moreover have "(unat (?v AND 0xfff) + j) div 4096 < length pages"
      using n that by (simp add: div_less_iff_less_mult)
    ultimately show ?thesis by simp
  qed
  have img: "vmem s1 (?data + of_nat j) = vmem s (?data + of_nat j)" if "j < ?f" for j
    using A(10) [OF that] tk by (intro B(9)) blast
  have out: "?data + of_nat j \<noteq> window s1 cr3 (?v + of_nat i)" if "j < ?f" "i < ?m" for i j
    using A(10) [OF that(1)] frames [OF that(2)] B(4) tk window_own_page [of s1 cr3 "?v + of_nat i"] by (metis UnCI subsetD)
  define s2 where "s2 = fill_segment s1 cr3 img ph"
  have W: "written s1 cr3 ?v ?m (\<lambda>j. if j < ?f then vmem s1 (?data + of_nat j) else 0) s2"
    unfolding s2_def by (rule fill_segment_written [OF wr A(2,9) out])
  note T = written_tables [OF wr W order_refl]
  have p2: "paging_ok s2 cr3 (drop k ps)"
  proof (rule written_paging_ok [OF B(5) wr W])
    fix j assume "j < ?m"
    then show "frame_of s1 cr3 (?v + of_nat j) \<notin> set (drop k ps)"
      using frames B(4) dist unfolding distinct_append by blast
  qed
  let ?code = "p_flags ph AND PF_X \<noteq> 0 \<or> p_flags ph AND PF_W = 0"
  obtain s' where s': "load_segment s cr3 img ph = Some s'" "paging_ok s' cr3 (drop k ps)"
    "\<And>w. mappable w \<Longrightarrow> pte s' cr3 w = (if ?code \<and> (\<exists>i < N. same_page (nth_page ?start i) w)
       then pte s1 cr3 w AND NOT KMEM_FLAG_MASK OR KMEM_MAP_CODE else pte s1 cr3 w)"
    "\<And>x. \<forall>c \<in> table_pages s1 cr3. \<not> in_page c x \<Longrightarrow> vmem s' x = vmem s2 x"
  proof (cases ?code)
    case True
    define s3 where "s3 = foldl (\<lambda>s v. kmem_set_flags s cr3 v KMEM_MAP_CODE) s2 (map (nth_page ?start) [0..<N])"
    have m: "mappable (nth_page ?start i) \<and> table_at s2 cr3 (nth_page ?start i) 3 \<noteq> None" if "i < N" for i
      using A(7) [OF that] B(6) [OF that] T(1) by simp
    note F = set_flags_pages [OF p2 m A(6), where flags = KMEM_MAP_CODE, unfolded Let_def, folded s3_def]
    have "code_loop s2 cr3 ?start (?v + p_memsz ph) = Some s3"
      unfolding code_loop_def s3_def N_def by (rule page_loop_pages [OF S(1,2)])
    then have "load_segment s cr3 img ph = Some s3"
      using A(1) True unfolding load_segment_fill backed by (simp add: s2_def [symmetric])
    then show thesis by (rule that) (use F T(2,3) True in \<open>simp_all, blast\<close>)
  next
    case False
    then have "load_segment s cr3 img ph = Some s2"
      using A(1) unfolding load_segment_fill backed by (simp add: s2_def [symmetric])
    then show thesis by (rule that) (use p2 T(2) False in simp_all)
  qed
  have frame: "frame_of s' cr3 (?v + of_nat j) = frame_of s1 cr3 (?v + of_nat j)" if "j < ?m" for j
    using s'(3) [OF writableD(1) [OF wr that]] by (simp add: frame_of_def code_frame)
  have bytes: "vmem s' (window s' cr3 (?v + of_nat j)) = (if j < ?f then vmem s (?data + of_nat j) else 0)" if j: "j < ?m" for j
  proof -
    let ?x = "window s1 cr3 (?v + of_nat j)"
    have "\<not> in_page c ?x" if c: "c \<in> table_pages s1 cr3" for c
      using window_in_page [OF table_pages_aligned [OF tree c]] writableD(4) [OF wr j] c by metis
    then have "vmem s' ?x = vmem s2 ?x" by (intro s'(4)) blast
    also have "\<dots> = (if j < ?f then vmem s1 (?data + of_nat j) else 0)" using W j unfolding written_def by blast
    finally show ?thesis using img frame [OF j] by (simp add: window_def)
  qed
  have rights: "pte s' cr3 (nth_page ?start i) = pages ! i OR segment_rights ph" if i: "i < N" for i
  proof -
    have p: "pages ! i AND KMEM_FLAG_MASK = 0" using A(8) B(1,4) tk i nth_mem by blast
    have "\<exists>j < N. same_page (nth_page ?start j) (nth_page ?start i)" using i by (auto simp: same_page_def)
    then show ?thesis
      using s'(3) [OF A(7) [OF i]] B(6) [OF i] data_frame [OF p] by (simp add: segment_rights_def)
  qed
  have "pte s' cr3 w = pte s cr3 w" if "mappable w" "\<forall>i < N. \<not> same_page (nth_page ?start i) w" for w
    using s'(3) [OF that(1)] B(7) [OF that] that(2) by auto
  then have "segment_loaded s cr3 ps img ph s'"
    unfolding segment_loaded_def Let_def N_def [symmetric] using s'(2) B(1-4) bytes rights by blast
  then show ?thesis using s'(1) by blast
qed

section \<open>Properties\<close>

text \<open>
  C11: the ELF loader loads a segment.  Afterwards each page of the segment is backed by a page of its own,
  taken from the free list, with the rights the segment's flags ask for, read-only and executable or
  writable and not executable; the bytes of the new address space from the segment's address on are those
  of the file, and zero from the file's part to the end of the segment, however the range lies in its
  pages; the entries of all other pages are as they were; and what is left of the free list is free, after
  four pages at most for each page mapped.
\<close>

theorem load_segment_loads:
  assumes "loadable s cr3 ps img ph"
  shows "\<exists>s'. load_segment s cr3 img ph = Some s' \<and> segment_loaded s cr3 ps img ph s'"
  using assms by (rule load_segment_ok)

text \<open>Four free pages, and a segment of one byte of file and one more, at the end of a page.\<close>

definition example_load :: kmem where
  "example_load = foldl kmem_unuse empty_kmem [0x5000, 0x4000, 0x3000, 0x2000]"

definition example_segment :: Elf64_Phdr where
  "example_segment = \<lparr>p_type = PT_LOAD, p_flags = PF_X, p_offset = 0x40, p_vaddr = 0x400ffe, p_paddr = 0,
     p_filesz = 1, p_memsz = 2, p_align = 0x1000\<rparr>"

lemma example_load_ok:
  "paging_ok example_load 0x1000 [0x2000, 0x3000, 0x4000, 0x5000]" "table_pages example_load 0x1000 = {0x1000}"
proof -
  have a: "page_aligned 0x1000" "page_aligned 0x2000" "page_aligned 0x3000" "page_aligned 0x4000" "page_aligned 0x5000"
    by (simp_all add: page_aligned_def)
  have "free_pages empty_kmem []" by (simp add: free_pages_def)
  from free_list.pushes [OF this, of "[0x5000, 0x4000, 0x3000, 0x2000]"] a
  have f: "free_pages example_load [0x2000, 0x3000, 0x4000, 0x5000]" by (simp add: example_load_def)
  have "phy_read64 example_load (0x1000 + i * 8) = 0" if "unat i < 512" for i
    using that a by (simp add: example_load_def unuse_read phy_read64_empty)
  then have "tree_ok example_load 0x1000" "table_pages example_load 0x1000 = {0x1000}"
    using empty_table_ok(2,3) [OF a(1), of example_load] by simp_all
  then show "paging_ok example_load 0x1000 [0x2000, 0x3000, 0x4000, 0x5000]" "table_pages example_load 0x1000 = {0x1000}"
    using f by (simp_all add: paging_ok_def)
qed

lemma example_loadable: "loadable example_load 0x1000 [0x2000, 0x3000, 0x4000, 0x5000] 0x20000 example_segment"
proof -
  have m: "mappable 0x400000" by (simp add: mappable_def level_index_def drop_bit_eq_div)
  have n: "page_count_to (0x400ffe AND NOT 0xfff) (0x400ffe + 2) = Suc 0"
    by (simp add: page_count_to_def)
  have "\<not> in_page c (0x20040)" if "c \<in> {0x1000, 0x2000, 0x3000, 0x4000, 0x5000}" for c
    using that by (auto simp: in_page_def PHY_MAP_BASE_def)
  then show ?thesis
    unfolding loadable_def Let_def using n m example_load_ok
    by (simp add: example_segment_def KMEM_FLAG_MASK_def fits_def)
qed

theorem load_segment_loads_witness:
  "\<exists>s'. load_segment example_load 0x1000 0x20000 example_segment = Some s' \<and>
     vmem s' (window s' 0x1000 0x400ffe) = vmem example_load 0x20040 \<and> vmem s' (window s' 0x1000 0x400fff) = 0 \<and>
     (\<exists>p \<in> {0x2000, 0x3000, 0x4000, 0x5000}. pte s' 0x1000 0x400000 = p OR KMEM_MAP_CODE)"
proof -
  obtain s' where s': "load_segment example_load 0x1000 0x20000 example_segment = Some s'"
    "segment_loaded example_load 0x1000 [0x2000, 0x3000, 0x4000, 0x5000] 0x20000 example_segment s'"
    using load_segment_loads [OF example_loadable] by blast
  have n: "page_count_to (0x400ffe AND NOT 0xfff) (0x400ffe + 2) = Suc 0"
    by (simp add: page_count_to_def)
  have "\<forall>j < 2. vmem s' (window s' 0x1000 (0x400ffe + of_nat j)) = (if j < 1 then vmem example_load (0x20040 + of_nat j) else 0)"
    using s'(2) n unfolding segment_loaded_def Let_def by (simp add: example_segment_def)
  note bytes = spec [OF this, of 0] spec [OF this, of 1]
  obtain pages k where p: "length pages = Suc 0" "set pages \<subseteq> set (take k [0x2000, 0x3000, 0x4000, 0x5000])"
    "\<forall>i < Suc 0. pte s' 0x1000 (nth_page 0x400000 i) = pages ! i OR KMEM_MAP_CODE"
    using s'(2) n unfolding segment_loaded_def Let_def by (auto simp: example_segment_def segment_rights_def PF_X_def)
  have "pages ! 0 \<in> set [0x2000, 0x3000, 0x4000, 0x5000 :: u64]"
    by (rule subsetD [OF order_trans [OF p(2) set_take_subset]]) (simp add: p(1))
  moreover have "pte s' 0x1000 0x400000 = pages ! 0 OR KMEM_MAP_CODE" using p(3) by simp
  ultimately have "\<exists>p \<in> {0x2000, 0x3000, 0x4000, 0x5000}. pte s' 0x1000 0x400000 = p OR KMEM_MAP_CODE"
    by (intro bexI [of _ "pages ! 0"]) (assumption, simp only: list.set)
  then show ?thesis using s'(1) bytes by (intro exI [of _ s']) auto
qed

end
