(* ===== verification/Klib_Heap.thy ===== *)
theory Klib_Heap
  imports Klib_Task
begin

text \<open>
  \<^verbatim>\<open>clib/heap.c\<close> and \<^verbatim>\<open>klib/heap.c\<close>: where the allocator's memory comes from.  The allocator
  itself, \<^verbatim>\<open>dlmalloc\<close>, asks for more through \<^verbatim>\<open>heap_resize\<close>, which calls the sizer that was
  installed.  The sizer is a function pointer, so it is a function on the state here.
\<close>

record heap_state = kmem +
  heap_start :: u64
  heap_size :: u64

section \<open>The client side\<close>

definition HEAP_DEFAULT :: u64 where "HEAP_DEFAULT = 0x600000000000"

definition heap_init :: "'a heap_state_scheme \<Rightarrow> u64 \<Rightarrow> 'a heap_state_scheme" where
  "heap_init s start = s\<lparr>heap_start := start\<rparr>"

definition heap_get_start :: "'a heap_state_scheme \<Rightarrow> u64" where
  "heap_get_start s = heap_start s"

text \<open>\<^verbatim>\<open>heap_set_sizer\<close> and \<^verbatim>\<open>heap_resize\<close>: the sizer and its context are a closure.\<close>

type_synonym 's sizer = "u64 \<Rightarrow> 's \<Rightarrow> u64 \<Rightarrow> 's \<times> u64"

record 's sizer_state =
  heap_sizer :: "'s sizer"
  heap_sizer_context :: u64

definition heap_set_sizer :: "'s sizer_state \<Rightarrow> 's sizer \<Rightarrow> u64 \<Rightarrow> 's sizer_state" where
  "heap_set_sizer z sizer context = z\<lparr>heap_sizer := sizer, heap_sizer_context := context\<rparr>"

definition heap_resize :: "'s sizer_state \<Rightarrow> 's \<Rightarrow> u64 \<Rightarrow> 's \<times> u64" where
  "heap_resize z s amount = heap_sizer z (heap_sizer_context z) s amount"

section \<open>The kernel's sizer\<close>

text \<open>
  \<^verbatim>\<open>for(uint64_t p = prev_end; p < prev_end + new_size; p += 0x1000)\<close>: the end can wrap and so
  can \<^verbatim>\<open>p\<close>, so the loop may not end.
\<close>

definition sizer_loop :: "'a heap_state_scheme \<Rightarrow> u64 \<Rightarrow> u64 \<Rightarrow> 'a heap_state_scheme option" where
  "sizer_loop s p stop = page_loop (\<lambda>s p. back_page (kmem_current s) s p) s p stop"

definition heap_klib_sizer :: "'a heap_state_scheme \<Rightarrow> u64 \<Rightarrow> ('a heap_state_scheme \<times> u64) option" where
  "heap_klib_sizer s amount =
     (if amount <s 0 then Some (s, heap_get_start s + heap_size s)
      else
        (let amount = (amount + 0xfff) AND NOT 0xfff;
             new_size = heap_size s + amount;
             prev_end = heap_get_start s + heap_size s
         in case sizer_loop s prev_end (prev_end + new_size) of
              None \<Rightarrow> None
            | Some s \<Rightarrow>
               (let old_size = heap_size s; s = s\<lparr>heap_size := new_size\<rparr>
                in Some (s, heap_get_start s + old_size))))"


section \<open>Properties\<close>

lemma clear12_aligned: "page_aligned a \<Longrightarrow> a AND NOT 0xfff = a"
  by (metis page_aligned_iff unat_clear12 diff_zero word_eq_unat)

text \<open>Mapping changes no field outside the page allocator's.\<close>

lemma back_page_more: "kmem.more (back_page cr3 s p) = kmem.more s"
  by (simp add: back_page_def kmem_map_more split: prod.split) (metis fst_conv plain.obs_getpage)

lemma more_heap: "kmem.more s = kmem.more t \<Longrightarrow> heap_size s = heap_size t \<and> heap_start s = heap_start t"
  by (cases s; cases t) simp

definition grow :: "'a heap_state_scheme \<Rightarrow> u64 \<Rightarrow> nat \<Rightarrow> 'a heap_state_scheme" where
  "grow s p n = foldl (\<lambda>s p. back_page (kmem_current s) s p) s (map (nth_page p) [0..<n])"

lemma grow_heap: "heap_size (grow s p n) = heap_size s" "heap_start (grow s p n) = heap_start s"
proof -
  have "kmem.more (foldl (\<lambda>s p. back_page (kmem_current s) s p) s xs) = kmem.more s" for xs
    by (induction xs arbitrary: s) (simp_all add: back_page_more)
  then show "heap_size (grow s p n) = heap_size s" "heap_start (grow s p n) = heap_start s"
    using more_heap by (auto simp: grow_def)
qed

text \<open>
  to grow by \<open>n\<close> pages a heap of \<open>m\<close> pages, the kernel's sizer maps \<open>m + n\<close> new pages from the
  old end on (\<open>grow\<close>), \<open>m\<close> of them past the new end, which the next growth maps over and so loses.
\<close>

theorem heap_sizer_maps_too_much:
  assumes "page_aligned (heap_start s)" "heap_size s = of_nat m * 0x1000" "amount = of_nat n * 0x1000"
    and "unat (heap_start s) + 4096 * (2 * m + n) \<le> 2 ^ 64 - 4096" "4096 * n < 2 ^ 63"
  defines "old_end \<equiv> heap_start s + heap_size s"
  shows "heap_klib_sizer s amount = Some ((grow s old_end (m + n))\<lparr>heap_size := of_nat (m + n) * 0x1000\<rparr>, old_end)"
proof -
  have sz: "unat (heap_size s) = 4096 * m" "unat amount = 4096 * n" "unat (of_nat (m + n) * 0x1000 :: u64) = 4096 * (m + n)"
    using assms(4,5) by (simp_all add: assms(2,3) unat_word_ariths unat_of_nat)
  have e: "unat old_end = unat (heap_start s) + 4096 * m"
    using assms(4) sz by (simp add: old_end_def unat_word_ariths)
  have al: "page_aligned old_end" "page_aligned amount"
    using assms(1) by (simp_all add: page_aligned_iff e sz)
  have "bit amount 63 \<longleftrightarrow> bit (unat amount) 63" by (simp add: bit_unsigned_iff)
  also have "\<dots> \<longleftrightarrow> False" using sz(2) assms(5) by (simp add: bit_iff_odd)
  finally have "\<not> bit amount 63" by simp
  then have pos: "\<not> amount <s 0"
    by (simp add: word_sless_alt sint_uint signed_take_bit_eq_if_positive bit_uint_iff)
  have round: "(amount + 0xfff) AND NOT 0xfff = amount"
  proof -
    have "unat (amount + 0xfff) = 4096 * n + 4095" using sz(2) assms(5) by (simp add: unat_word_ariths)
    moreover have "(4096 * n + 4095) mod 4096 = 4095" by (simp add: mod_mult_self4)
    ultimately show ?thesis
      unfolding word_eq_unat unat_clear12 by (simp add: sz(2))
  qed
  have n: "heap_size s + amount = of_nat (m + n) * 0x1000"
    by (simp add: assms(2,3) algebra_simps)
  have "unat (old_end + of_nat (m + n) * 0x1000) = unat old_end + 4096 * (m + n)"
    using assms(4) sz(3) e by (simp add: unat_word_ariths del: of_nat_add)
  then have "page_count_to old_end (old_end + of_nat (m + n) * 0x1000) = m + n"
    "old_end + of_nat (m + n) * 0x1000 \<le> -4096"
    using assms(4) e by (simp_all add: page_count_to_def word_le_nat_alt)
  then have "sizer_loop s old_end (old_end + of_nat (m + n) * 0x1000) = Some (grow s old_end (m + n))"
    by (simp add: sizer_loop_def grow_def page_loop_pages [OF al(1)] del: of_nat_add)
  then show ?thesis
    unfolding heap_klib_sizer_def Let_def round n heap_get_start_def old_end_def [symmetric]
    using pos by (simp add: grow_heap old_end_def del: of_nat_add)
qed

theorem heap_sizer_maps_too_much_witness:
  "\<exists>s :: heap_state. heap_size s = 0x3000 \<and> heap_klib_sizer s 0x1000 = Some ((grow s 0x600000003000 4)\<lparr>heap_size := 0x4000\<rparr>, 0x600000003000)"
proof -
  define s :: "heap_state" where "s = kmem.extend empty_kmem (heap_state.fields 0x600000000000 0x3000)"
  have s: "heap_start s = 0x600000000000" "heap_size s = 0x3000" by (simp_all add: s_def kmem.defs heap_state.defs)
  show ?thesis
    using heap_sizer_maps_too_much [of s 3 "0x1000" 1] by (intro exI [of _ s]) (simp add: s page_aligned_def)
qed

end
