(* ===== verification/Klib_Io.thy ===== *)
theory Klib_Io
  imports Refk_Prelude
begin

text \<open>
  Access to devices: the ports of \<^verbatim>\<open>klib/io.c\<close>, the model-specific registers of \<^verbatim>\<open>klib/msr.c\<close>,
  the local APIC of \<^verbatim>\<open>klib/lapic.c\<close>, and the serial line of \<^verbatim>\<open>klib/d.c\<close> and \<^verbatim>\<open>kernel/d.c\<close>.

  A device is not code of the repository.  The state records every access in the order the
  code makes them; what a read returns is up to \<open>device\<close>, any function of the accesses so far,
  the read itself included.  \<^verbatim>\<open>phy_read32\<close> and \<^verbatim>\<open>phy_write32\<close> on the registers of a device are
  accesses of this kind, not of memory.
\<close>

section \<open>Accesses\<close>

datatype io_event =
    Out8 u16 u8 | Out16 u16 u16 | Out32 u16 u32
  | In8 u16 | In16 u16 | In32 u16
  | Mmio_Read u64 | Mmio_Write u64 u32
  | Rdmsr u64 | Wrmsr u64 u32 u32

record io_state =
  io_log :: "io_event list"
  device :: "io_event list \<Rightarrow> u64"

definition tell :: "'a io_state_scheme \<Rightarrow> io_event \<Rightarrow> 'a io_state_scheme" where
  "tell s e = s\<lparr>io_log := io_log s @ [e]\<rparr>"

definition ask :: "'a io_state_scheme \<Rightarrow> io_event \<Rightarrow> 'a io_state_scheme \<times> u64" where
  "ask s e = (tell s e, device s (io_log s @ [e]))"

definition io_out8 :: "'a io_state_scheme \<Rightarrow> u16 \<Rightarrow> u8 \<Rightarrow> 'a io_state_scheme" where
  "io_out8 s port v = tell s (Out8 port v)"

definition io_out16 :: "'a io_state_scheme \<Rightarrow> u16 \<Rightarrow> u16 \<Rightarrow> 'a io_state_scheme" where
  "io_out16 s port v = tell s (Out16 port v)"

definition io_out32 :: "'a io_state_scheme \<Rightarrow> u16 \<Rightarrow> u32 \<Rightarrow> 'a io_state_scheme" where
  "io_out32 s port v = tell s (Out32 port v)"

definition io_in8 :: "'a io_state_scheme \<Rightarrow> u16 \<Rightarrow> 'a io_state_scheme \<times> u8" where
  "io_in8 s port = (case ask s (In8 port) of (s, v) \<Rightarrow> (s, ucast v))"

definition io_in16 :: "'a io_state_scheme \<Rightarrow> u16 \<Rightarrow> 'a io_state_scheme \<times> u16" where
  "io_in16 s port = (case ask s (In16 port) of (s, v) \<Rightarrow> (s, ucast v))"

definition io_in32 :: "'a io_state_scheme \<Rightarrow> u16 \<Rightarrow> 'a io_state_scheme \<times> u32" where
  "io_in32 s port = (case ask s (In32 port) of (s, v) \<Rightarrow> (s, ucast v))"

definition mmio_read32 :: "'a io_state_scheme \<Rightarrow> u64 \<Rightarrow> 'a io_state_scheme \<times> u32" where
  "mmio_read32 s a = (case ask s (Mmio_Read a) of (s, v) \<Rightarrow> (s, ucast v))"

definition mmio_write32 :: "'a io_state_scheme \<Rightarrow> u64 \<Rightarrow> u32 \<Rightarrow> 'a io_state_scheme" where
  "mmio_write32 s a v = tell s (Mmio_Write a v)"

section \<open>Model-specific registers\<close>

definition MSR_APIC_BASE :: u64 where "MSR_APIC_BASE = 0x1b"
definition MSR_GS_BASE :: u64 where "MSR_GS_BASE = 0xc0000101"

text \<open>\<^verbatim>\<open>rdmsr\<close> gives the two halves in \<^verbatim>\<open>eax\<close> and \<^verbatim>\<open>edx\<close>, \<^verbatim>\<open>wrmsr\<close> takes them from there.\<close>

definition msr_read :: "'a io_state_scheme \<Rightarrow> u64 \<Rightarrow> 'a io_state_scheme \<times> u64" where
  "msr_read s index =
     (let (s, v) = ask s (Rdmsr index); low = ucast v :: u32; high = ucast (drop_bit 32 v) :: u32
      in (s, ucast low OR push_bit 32 (ucast high)))"

definition msr_write :: "'a io_state_scheme \<Rightarrow> u64 \<Rightarrow> u64 \<Rightarrow> 'a io_state_scheme" where
  "msr_write s index v = tell s (Wrmsr index (ucast (v AND 0xffffffff)) (ucast (drop_bit 32 v)))"

section \<open>The local APIC\<close>

record lapic_state = io_state +
  lapic_base :: u64

definition LAPIC_REG_ID :: u64 where "LAPIC_REG_ID = 0x2"
definition LAPIC_REG_EOI :: u64 where "LAPIC_REG_EOI = 0xb"
definition LAPIC_REG_SPURIOUS :: u64 where "LAPIC_REG_SPURIOUS = 0xf"
definition LAPIC_REG_ISR :: u64 where "LAPIC_REG_ISR = 0x10"

definition get_reg :: "'a lapic_state_scheme \<Rightarrow> u64 \<Rightarrow> 'a lapic_state_scheme \<times> u32" where
  "get_reg s index = mmio_read32 s (lapic_base s + index * 0x10)"

definition set_reg :: "'a lapic_state_scheme \<Rightarrow> u64 \<Rightarrow> u32 \<Rightarrow> 'a lapic_state_scheme" where
  "set_reg s index v = mmio_write32 s (lapic_base s + index * 0x10) v"

definition lapic_enable :: "'a lapic_state_scheme \<Rightarrow> 'a lapic_state_scheme" where
  "lapic_enable s =
     (let (s, r) = msr_read s MSR_APIC_BASE;
          base = (ucast r :: u32) OR push_bit 11 1;
          s = msr_write s MSR_APIC_BASE (ucast base);
          (s, sp) = get_reg s LAPIC_REG_SPURIOUS
      in set_reg s LAPIC_REG_SPURIOUS (sp OR push_bit 8 1))"

definition lapic_setup :: "'a lapic_state_scheme \<Rightarrow> 'a lapic_state_scheme" where
  "lapic_setup s =
     (let (s, r) = msr_read s MSR_APIC_BASE in lapic_enable (s\<lparr>lapic_base := r AND NOT 0xfff\<rparr>))"

definition lapic_id :: "'a lapic_state_scheme \<Rightarrow> 'a lapic_state_scheme \<times> u8" where
  "lapic_id s = (let (s, r) = get_reg s LAPIC_REG_ID in (s, ucast r))"

definition lapic_send_eoi :: "'a lapic_state_scheme \<Rightarrow> 'a lapic_state_scheme" where
  "lapic_send_eoi s = set_reg s LAPIC_REG_EOI 0"

definition lapic_ext_triggered :: "'a lapic_state_scheme \<Rightarrow> u8 \<Rightarrow> 'a lapic_state_scheme \<times> int" where
  "lapic_ext_triggered s vector =
     (let which = vector div 32;
          (s, isr) = get_reg s (LAPIC_REG_ISR + ucast which);
          index = unat (vector mod 32)
      in (s, if isr AND push_bit index 1 \<noteq> 0 then 1 else 0))"

definition lapic_conditional_eoi :: "'a lapic_state_scheme \<Rightarrow> u8 \<Rightarrow> 'a lapic_state_scheme" where
  "lapic_conditional_eoi s vector =
     (let (s, t) = lapic_ext_triggered s vector in if t \<noteq> 0 then lapic_send_eoi s else s)"

section \<open>The serial line\<close>

definition PORT_BASE :: u16 where "PORT_BASE = 0x3f8"

definition d_init :: "'a io_state_scheme \<Rightarrow> 'a io_state_scheme" where
  "d_init s =
     (let s = io_out8 s (PORT_BASE + 1) 0x00;
          s = io_out8 s (PORT_BASE + 3) 0x80;
          s = io_out8 s (PORT_BASE + 0) 0x03;
          s = io_out8 s (PORT_BASE + 1) 0x00;
          s = io_out8 s (PORT_BASE + 3) 0x03;
          s = io_out8 s (PORT_BASE + 2) 0xc7
      in io_out8 s (PORT_BASE + 4) 0x0b)"

text \<open>The wait for the transmitter may not end.\<close>

partial_function (option) wait_ready :: "'a io_state_scheme \<Rightarrow> 'a io_state_scheme option" where
  "wait_ready s =
     (case io_in8 s (PORT_BASE + 5) of
        (s, v) \<Rightarrow> if v AND 0x20 = 0 then wait_ready s else Some s)"

definition d_putchar :: "'a io_state_scheme \<Rightarrow> u8 \<Rightarrow> 'a io_state_scheme run" where
  "d_putchar s c = (case wait_ready s of None \<Rightarrow> None | Some s \<Rightarrow> returns (io_out8 s PORT_BASE c))"

text \<open>
  \<^verbatim>\<open>d_vprintf\<close> on the bytes of the format string up to its terminator.  The arguments are
  64-bit words; \<open>str\<close> gives the string an argument of \<^verbatim>\<open>%s\<close> points to.  Taking an argument
  that was not passed is a fault.
\<close>

fun put_chars :: "'a io_state_scheme \<Rightarrow> u8 list \<Rightarrow> 'a io_state_scheme run" where
  "put_chars s [] = returns s"
| "put_chars s (c # cs) = bindR (d_putchar s c) (\<lambda>s. put_chars s cs)"

definition hex_digit :: "u64 \<Rightarrow> u8" where
  "hex_digit vv = [0x30, 0x31, 0x32, 0x33, 0x34, 0x35, 0x36, 0x37, 0x38, 0x39, 0x61, 0x62, 0x63, 0x64, 0x65, 0x66] ! unat vv"

text \<open>\<^verbatim>\<open>for(int shift = 60; shift >= 0; shift -= 4)\<close>\<close>

definition hex_digits :: "u64 \<Rightarrow> u8 list" where
  "hex_digits v = map (\<lambda>shift. hex_digit (drop_bit shift v AND 0xf)) [60, 56, 52, 48, 44, 40, 36, 32, 28, 24, 20, 16, 12, 8, 4, 0]"

fun d_vprintf :: "(u64 \<Rightarrow> u8 list) \<Rightarrow> 'a io_state_scheme \<Rightarrow> u8 list \<Rightarrow> u64 list \<Rightarrow> 'a io_state_scheme run" where
  "d_vprintf str s [] va = returns s"
| "d_vprintf str s (p # ps) va =
     (if p = 0x0a then bindR (put_chars s [0x0d, 0x0a]) (\<lambda>s. d_vprintf str s ps va)
      else if p = 0x25 \<and> ps \<noteq> [] then
        (if hd ps = 0x73 then
           (case va of [] \<Rightarrow> crash OutOfBounds
            | v # va \<Rightarrow> bindR (put_chars s (str v)) (\<lambda>s. d_vprintf str s (tl ps) va))
         else if hd ps = 0x78 \<or> hd ps = 0x70 then
           (case va of [] \<Rightarrow> crash OutOfBounds
            | v # va \<Rightarrow> bindR (put_chars s (hex_digits v)) (\<lambda>s. d_vprintf str s (tl ps) va))
         else d_vprintf str s (tl ps) va)
      else bindR (d_putchar s p) (\<lambda>s. d_vprintf str s ps va))"


section \<open>Properties\<close>

lemma tell_simps [simp]:
  "io_log (tell s e) = io_log s @ [e]" "device (tell s e) = device s" "lapic_base (tell t e) = lapic_base t"
  by (simp_all add: tell_def)

lemma ask_simps [simp]: "ask s e = (tell s e, device s (io_log s @ [e]))"
  by (simp add: ask_def)

text \<open>What has gone out on the serial line.\<close>

definition serial_output :: "io_event list \<Rightarrow> u8 list" where
  "serial_output es = concat (map (\<lambda>e. case e of Out8 p v \<Rightarrow> if p = PORT_BASE then [v] else [] | _ \<Rightarrow> []) es)"

lemma serial_output_append [simp]: "serial_output (es @ fs) = serial_output es @ serial_output fs"
  by (simp add: serial_output_def)

text \<open>A transmitter that is ready whenever it is asked.\<close>

definition always_ready :: "'a io_state_scheme \<Rightarrow> bool" where
  "always_ready s \<longleftrightarrow> (\<forall>es. device s (es @ [In8 (PORT_BASE + 5)]) AND 0x20 \<noteq> 0)"

lemma ready_bit: "(v :: u64) AND 0x20 \<noteq> 0 \<Longrightarrow> (ucast v :: u8) AND 0x20 \<noteq> 0"
  using and_exp_eq_0_iff_not_bit [of v 5] and_exp_eq_0_iff_not_bit [of "ucast v :: u8" 5]
  by (simp add: bit_simps)

lemma d_putchar_ready:
  assumes "always_ready s"
  shows "\<exists>s'. d_putchar s c = returns s' \<and> serial_output (io_log s') = serial_output (io_log s) @ [c] \<and> always_ready s'"
proof -
  have "(ucast (device s (io_log s @ [In8 (PORT_BASE + 5)])) :: u8) AND 0x20 \<noteq> 0"
    using assms ready_bit by (simp add: always_ready_def)
  then have "wait_ready s = Some (tell s (In8 (PORT_BASE + 5)))"
    by (subst wait_ready.simps) (simp add: io_in8_def)
  then show ?thesis
    using assms by (simp add: d_putchar_def io_out8_def serial_output_def always_ready_def)
qed

lemma put_chars_ready:
  "always_ready s \<Longrightarrow>
   \<exists>s'. put_chars s cs = returns s' \<and> serial_output (io_log s') = serial_output (io_log s) @ cs \<and> always_ready s'"
proof (induction cs arbitrary: s)
  case Nil
  then show ?case by simp
next
  case (Cons c cs)
  from d_putchar_ready [OF Cons.prems, of c] obtain t where
    t: "d_putchar s c = returns t" "serial_output (io_log t) = serial_output (io_log s) @ [c]" "always_ready t" by blast
  with Cons.IH [OF t(3)] show ?case by auto
qed

text \<open>What a format string stands for: \<open>None\<close> when it asks for more arguments than there are.\<close>

fun formatted :: "(u64 \<Rightarrow> u8 list) \<Rightarrow> u8 list \<Rightarrow> u64 list \<Rightarrow> u8 list option" where
  "formatted str [] va = Some []"
| "formatted str (p # ps) va =
     (if p = 0x25 \<and> ps \<noteq> [] then
        (if hd ps \<in> {0x73, 0x78, 0x70} then
           (if va = [] then None
            else map_option (append (if hd ps = 0x73 then str (hd va) else hex_digits (hd va))) (formatted str (tl ps) (tl va)))
         else formatted str (tl ps) va)
      else map_option (append (if p = 0x0a then [0x0d, 0x0a] else [p])) (formatted str ps va))"

text \<open>The number that hexadecimal digits stand for.\<close>

definition digit_value :: "u8 \<Rightarrow> u64" where
  "digit_value c = (if c \<le> 0x39 then ucast (c - 0x30) else ucast (c - 0x57))"

definition hex_value :: "u8 list \<Rightarrow> u64" where
  "hex_value cs = foldl (\<lambda>v c. push_bit 4 v OR digit_value c) 0 cs"

lemma digit_value_hex: "n \<le> 15 \<Longrightarrow> digit_value (hex_digit n) = n"
proof -
  assume "n \<le> 15"
  have "\<forall>k < 16. digit_value (hex_digit (of_nat k)) = of_nat k"
    by (simp add: All_less_Suc numeral_eq_Suc) (simp add: hex_digit_def digit_value_def)
  moreover have "unat n < 16" using \<open>n \<le> 15\<close> by (simp add: word_le_nat_alt)
  ultimately have "digit_value (hex_digit (of_nat (unat n))) = of_nat (unat n)" by blast
  then show ?thesis by simp
qed


lemma next_digit: "push_bit 4 (drop_bit (k + 4) v) OR (drop_bit k v AND 0xf) = drop_bit k (v :: u64)"
proof -
  have f: "(0xf :: u64) = mask 4" by (simp add: mask_eq_exp_minus_1)
  show ?thesis
    unfolding f by (rule bit_word_eqI, simp only: bit_simps possible_bit_word) (subgoal_tac "k + 4 + (n - 4) = k + n \<or> n < 4", auto)
qed

lemma length_hex_digits: "length (hex_digits v) = 16"
  by (simp add: hex_digits_def)

lemma hex_value_digits: "hex_value (hex_digits v) = v"
proof -
  have "n \<le> 16 \<Longrightarrow> hex_value (map (\<lambda>i. hex_digit (drop_bit (60 - 4 * i) v AND 0xf)) [0..<n]) = drop_bit (64 - 4 * n) v" for n
  proof (induction n)
    case 0
    then show ?case by (simp add: hex_value_def)
  next
    case (Suc n)
    have "(drop_bit (60 - 4 * n) v AND 0xf) \<le> 15" by (rule word_and_le1)
    moreover have "push_bit 4 (drop_bit (64 - 4 * n) v) OR (drop_bit (60 - 4 * n) v AND 0xf) = drop_bit (60 - 4 * n) v"
    proof -
      have "64 - 4 * n = (60 - 4 * n) + 4" using Suc.prems by simp
      then show ?thesis by (simp only: next_digit)
    qed
    ultimately show ?case
      using Suc by (simp add: hex_value_def digit_value_hex)
  qed
  from this [of 16] show ?thesis by (simp add: hex_digits_def upt_conv_Cons)
qed

text \<open>
  on a serial line that is ready, \<^verbatim>\<open>d_vprintf\<close> returns and has sent what its format stands
  for: strings as they are, line feeds with a carriage return before them, other directives
  dropped, and a number as its 16 hexadecimal digits.  It reads past its arguments exactly when
  the format asks for more of them than there are.
\<close>

theorem d_vprintf_prints:
  assumes "always_ready s"
  shows "(case formatted str fmt va of
      None \<Rightarrow> d_vprintf str s fmt va = crash OutOfBounds
    | Some out \<Rightarrow> \<exists>s'. d_vprintf str s fmt va = returns s' \<and> serial_output (io_log s') = serial_output (io_log s) @ out) \<and>
    length (hex_digits v) = 16 \<and> hex_value (hex_digits v) = v"
proof -
  have "case formatted str fmt va of
      None \<Rightarrow> d_vprintf str s fmt va = crash OutOfBounds
    | Some out \<Rightarrow> \<exists>s'. d_vprintf str s fmt va = returns s' \<and> serial_output (io_log s') = serial_output (io_log s) @ out"
    using assms
  proof (induction fmt arbitrary: s va rule: length_induct)
    case (1 fmt)
    have IH: "case formatted str ps va of
        None \<Rightarrow> d_vprintf str s ps va = crash OutOfBounds
      | Some out \<Rightarrow> \<exists>s'. d_vprintf str s ps va = returns s' \<and> serial_output (io_log s') = serial_output (io_log s) @ out"
      if "length ps < length fmt" "always_ready s" for ps va and s :: "'a io_state_scheme"
      using 1 that by blast
    have sent: "case map_option (append cs) (formatted str ps va) of
        None \<Rightarrow> bindR (put_chars s cs) (\<lambda>s. d_vprintf str s ps va) = crash OutOfBounds
      | Some out \<Rightarrow> \<exists>s'. bindR (put_chars s cs) (\<lambda>s. d_vprintf str s ps va) = returns s' \<and>
          serial_output (io_log s') = serial_output (io_log s) @ out"
      if l: "length ps < length fmt" for cs ps va
    proof -
      from put_chars_ready [OF 1(2), of cs] obtain t where
        t: "put_chars s cs = returns t" "serial_output (io_log t) = serial_output (io_log s) @ cs" "always_ready t" by blast
      show ?thesis using IH [OF l t(3), of va] t(1,2) by (auto split: option.splits)
    qed
    show ?case
    proof (cases fmt)
      case Nil
      then show ?thesis by simp
    next
      case (Cons p ps)
      show ?thesis
      proof (cases "p = 0x25 \<and> ps \<noteq> []")
        case False
        then have "length ps < length fmt" by (simp add: Cons)
        moreover have "d_vprintf str s fmt va = bindR (put_chars s (if p = 0x0a then [0x0d, 0x0a] else [p])) (\<lambda>s. d_vprintf str s ps va)"
          using False by (auto simp: Cons bindR_assoc)
        moreover have "formatted str fmt va = map_option (append (if p = 0x0a then [0x0d, 0x0a] else [p])) (formatted str ps va)"
          using False by (auto simp: Cons)
        ultimately show ?thesis using sent by presburger
      next
        case True
        then obtain c qs where ps: "ps = c # qs" by (cases ps) auto
        have l: "length qs < length fmt" by (simp add: Cons ps)
        show ?thesis
        proof (cases "c \<in> {0x73, 0x78, 0x70}")
          case True
          show ?thesis
          proof (cases va)
            case Nil
            then show ?thesis using True \<open>p = 0x25 \<and> ps \<noteq> []\<close> by (auto simp: Cons ps)
          next
            case (Cons x xs)
            then have "d_vprintf str s fmt va = bindR (put_chars s (if c = 0x73 then str x else hex_digits x)) (\<lambda>s. d_vprintf str s qs xs)"
              and "formatted str fmt va = map_option (append (if c = 0x73 then str x else hex_digits x)) (formatted str qs xs)"
              using True \<open>p = 0x25 \<and> ps \<noteq> []\<close> by (auto simp: \<open>fmt = p # ps\<close> ps)
            then show ?thesis using sent [OF l] by presburger
          qed
        next
          case False
          then have "d_vprintf str s fmt va = d_vprintf str s qs va" "formatted str fmt va = formatted str qs va"
            using \<open>p = 0x25 \<and> ps \<noteq> []\<close> by (simp_all add: Cons ps)
          then show ?thesis using IH [OF l 1(2), of va] by presburger
        qed
      qed
    qed
  qed
  then show ?thesis using hex_value_digits [of v] by (simp add: length_hex_digits)
qed

theorem d_vprintf_prints_witness:
  "\<exists>s'. d_vprintf (\<lambda>_. []) \<lparr>io_log = [], device = (\<lambda>_. 0x20)\<rparr> [0x25, 0x78, 0x0a] [0x2a] = returns s' \<and>
     serial_output (io_log s') = [0x30, 0x30, 0x30, 0x30, 0x30, 0x30, 0x30, 0x30, 0x30, 0x30, 0x30, 0x30, 0x30, 0x30, 0x32, 0x61, 0x0d, 0x0a]"
proof -
  have r: "always_ready \<lparr>io_log = [], device = (\<lambda>_. 0x20)\<rparr>" by (simp add: always_ready_def)
  have "formatted (\<lambda>_. []) [0x25, 0x78, 0x0a] [0x2a] = Some ([0x30, 0x30, 0x30, 0x30, 0x30, 0x30, 0x30, 0x30, 0x30, 0x30, 0x30, 0x30, 0x30, 0x30, 0x32, 0x61, 0x0d, 0x0a])"
    by (simp add: hex_digits_def hex_digit_def drop_bit_eq_div upt_conv_Cons)
  then show ?thesis using d_vprintf_prints [OF r, of "\<lambda>_. []" "[0x25, 0x78, 0x0a]" "[0x2a]"] by (simp add: serial_output_def)
qed

text \<open>
  \<^verbatim>\<open>lapic_conditional_eoi\<close> acknowledges an interrupt exactly when the in-service register,
  256 bits in words of 32 every 16 bytes, has the bit of the vector.
\<close>

theorem lapic_eoi_in_service:
  assumes "\<And>k. k < 8 \<Longrightarrow> device s (io_log s @ [Mmio_Read (lapic_base s + (LAPIC_REG_ISR + of_nat k) * 0x10)]) = ucast (ucast (drop_bit (32 * k) (isr :: 256 word)) :: u32)"
  shows "io_log (lapic_conditional_eoi s vector) =
    io_log s @ [Mmio_Read (lapic_base s + (LAPIC_REG_ISR + of_nat (unat vector div 32)) * 0x10)] @
      (if bit isr (unat vector) then [Mmio_Write (lapic_base s + LAPIC_REG_EOI * 0x10) 0] else [])"
proof -
  have w: "(ucast (vector div 32) :: u64) = of_nat (unat vector div 32)"
  proof -
    have "unat vector < 256" using unsigned_less [of vector] by simp
    then have "unat vector div 32 < 2 ^ 64" by simp
    then show ?thesis by (simp add: word_eq_unat unat_div unat_of_nat unsigned_ucast_eq take_bit_nat_eq_self_iff)
  qed
  have i: "unat (vector mod 32) = unat vector mod 32" by (simp add: unat_mod)
  have "(ucast (ucast (ucast (drop_bit (32 * (unat vector div 32)) isr) :: u32) :: u64) :: u32) AND push_bit (unat vector mod 32) 1 = 0
      \<longleftrightarrow> \<not> bit isr (unat vector)"
  proof -
    have "push_bit n (1 :: u32) = 2 ^ n" for n by (simp add: push_bit_eq_mult)
    moreover have "unat vector mod 32 < 64" by (rule less_trans [of _ 32]) simp_all
    ultimately show ?thesis by (simp add: and_exp_eq_0_iff_not_bit bit_simps)
  qed
  moreover have "unat vector div 32 < 8"
  proof -
    have "unat vector < 256" using unsigned_less [of vector] by simp
    then show ?thesis by simp
  qed
  ultimately show ?thesis
    using assms [of "unat vector div 32"]
    by (simp add: lapic_conditional_eoi_def lapic_ext_triggered_def lapic_send_eoi_def get_reg_def set_reg_def mmio_read32_def
        mmio_write32_def w i Let_def)
qed

theorem lapic_eoi_in_service_witness:
  "io_log (lapic_conditional_eoi \<lparr>io_log = [], device = (\<lambda>es. if es = [Mmio_Read 0xfee00120] then 0x20 else 0), lapic_base = 0xfee00000\<rparr> 0x45) =
    [Mmio_Read 0xfee00120, Mmio_Write 0xfee000b0 0]"
proof -
  let ?s = "\<lparr>io_log = [], device = (\<lambda>es. if es = [Mmio_Read 0xfee00120] then 0x20 else 0), lapic_base = 0xfee00000\<rparr>"
  have "device ?s (io_log ?s @ [Mmio_Read (lapic_base ?s + (LAPIC_REG_ISR + of_nat k) * 0x10)]) = ucast (ucast (drop_bit (32 * k) (2 ^ 0x45 :: 256 word)) :: u32)"
    if "k < 8" for k
  proof -
    have "k = 0 \<or> k = 1 \<or> k = 2 \<or> k = 3 \<or> k = 4 \<or> k = 5 \<or> k = 6 \<or> k = 7" using that by auto
    then show ?thesis by (elim disjE) (simp_all add: LAPIC_REG_ISR_def drop_bit_eq_div)
  qed
  from lapic_eoi_in_service [of ?s "2 ^ 0x45" "0x45", OF this] show ?thesis
    by (simp add: LAPIC_REG_ISR_def LAPIC_REG_EOI_def)
qed

end
