(* ===== verification/Kernel_Boot.thy ===== *)
theory Kernel_Boot
  imports Klib_Task
begin

text \<open>
  The kernel proper: \<^verbatim>\<open>kernel/kmem.c\<close> (which pages the memory map makes free), \<^verbatim>\<open>kernel/desc.c\<close>
  (segment and interrupt descriptors) and \<^verbatim>\<open>kernel/kmain.c\<close> (how the first two tasks are set
  up).  The images the build generates from assembly and from the linked tasks are parameters,
  as lists of bytes; the instructions that load \<^verbatim>\<open>gdtr\<close> and \<^verbatim>\<open>idtr\<close> set fields of the state.
\<close>

section \<open>Memory through the page tables\<close>

text \<open>
  The kernel writes to pages it has mapped.  Such an access goes through the tables of the
  current root; an address without a present entry is a page fault.
\<close>

definition mmu_addr :: "'a kmem_scheme \<Rightarrow> u64 \<Rightarrow> u64 res" where
  "mmu_addr s vaddr =
     (let (e, ok) = kmem_paging_addr s (kmem_current s) vaddr 3 in
      if ok \<and> phy_read64 s e AND 1 \<noteq> 0
      then Ok ((phy_read64 s e AND NOT KMEM_FLAG_MASK) + (vaddr AND 0xfff))
      else Fault PageFault)"

definition mmu_write64 :: "'a kmem_scheme \<Rightarrow> u64 \<Rightarrow> u64 \<Rightarrow> 'a kmem_scheme res" where
  "mmu_write64 s vaddr v = bindF (mmu_addr s vaddr) (\<lambda>a. Ok (phy_write64 s a v))"

definition mmu_read64 :: "'a kmem_scheme \<Rightarrow> u64 \<Rightarrow> u64 res" where
  "mmu_read64 s vaddr = bindF (mmu_addr s vaddr) (\<lambda>a. Ok (phy_read64 s a))"

fun mmu_copy :: "'a kmem_scheme \<Rightarrow> u64 \<Rightarrow> u8 list \<Rightarrow> 'a kmem_scheme res" where
  "mmu_copy s vaddr [] = Ok s"
| "mmu_copy s vaddr (b # bs) = bindF (mmu_addr s vaddr) (\<lambda>a. mmu_copy (phy_write8 s a b) (vaddr + 1) bs)"

section \<open>The memory map\<close>

record boot_state = kmem +
  boot_cr3 :: u64
  gdtr :: u64
  idtr :: u64

text \<open>
  The regions are pairs of words, start and size, up to a pair of zeros.  The first pass
  rounds them to whole pages in place; a map without the final pair is read past its end.
\<close>

definition round_start :: "u64 \<Rightarrow> u64" where "round_start start = (start + 0xfff) AND NOT 0xfff"

fun round_regions :: "u64 list \<Rightarrow> u64 list res" where
  "round_regions (b # n # rs) =
     (if b \<noteq> 0 \<or> n \<noteq> 0 then
        (let start = round_start b; stop = (b + n) AND NOT 0xfff
         in bindF (round_regions rs) (\<lambda>rs. Ok (start # (stop - start) # rs)))
      else Ok (b # n # rs))"
| "round_regions _ = Fault OutOfBounds"

text \<open>The body of the loop over the pages of a region.\<close>

definition free_page :: "u64 \<Rightarrow> u64 \<Rightarrow> 'a kmem_scheme \<Rightarrow> u64 \<Rightarrow> 'a kmem_scheme" where
  "free_page kernel_start kernel_end s p =
     (if p \<ge> kernel_start \<and> p \<le> kernel_end then s
      else if p \<le> 0x20000 then s
      else kmem_unuse s p)"

fun free_regions :: "u64 \<Rightarrow> u64 \<Rightarrow> 'a kmem_scheme \<Rightarrow> u64 list \<Rightarrow> 'a kmem_scheme run" where
  "free_regions kernel_start kernel_end s (b # n # rs) =
     (if b \<noteq> 0 \<or> n \<noteq> 0 then
        (case page_loop (free_page kernel_start kernel_end) s b (b + n) of
           None \<Rightarrow> None
         | Some s \<Rightarrow> free_regions kernel_start kernel_end s rs)
      else returns s)"
| "free_regions kernel_start kernel_end s _ = crash OutOfBounds"

definition kmem_init :: "u64 \<Rightarrow> u64 \<Rightarrow> 'a boot_state_scheme \<Rightarrow> u64 list \<Rightarrow> 'a boot_state_scheme run" where
  "kmem_init kernel_start kernel_end s regions =
     bindR (Some (round_regions regions)) (\<lambda>regions.
     bindR (free_regions kernel_start kernel_end s regions) (\<lambda>s.
     (let s = s\<lparr>boot_cr3 := kmem_current s\<rparr>;
          (s, page) = kmem_getpage s;
          s = kmem_map s (boot_cr3 s) KMEM_BASE_ADDR page KMEM_MAP_DEFAULT;
          (s, t) = kmem_getpage s;
          s = kmem_unuse s t
      in returns (kmem_setup_bootstrap s t))))"

definition kmem_boot :: "'a boot_state_scheme \<Rightarrow> u64" where
  "kmem_boot s = boot_cr3 s"

section \<open>Descriptors\<close>

definition DESC_GDT_ADDR :: u64 where "DESC_GDT_ADDR = DESC_BASE"
definition DESC_IDT_ADDR :: u64 where "DESC_IDT_ADDR = DESC_BASE + 0x1000"
definition DESC_INT_TASKS_ADDR :: u64 where "DESC_INT_TASKS_ADDR = DESC_BASE + 0x2000"
definition DESC_INT_CODE_ADDR :: u64 where "DESC_INT_CODE_ADDR = DESC_BASE + 0x3000"

text \<open>
  The value each function builds up in its descriptor by a series of \<^verbatim>\<open>|=\<close>, stored once.
\<close>

definition gdt_set_null :: "'a kmem_scheme \<Rightarrow> u64 \<Rightarrow> 'a kmem_scheme res" where
  "gdt_set_null s index = mmu_write64 s (DESC_GDT_ADDR + index * 8) 0"

definition gdt_code :: "u8 \<Rightarrow> u64" where
  "gdt_code dpl = push_bit (13 + 32) (ucast dpl) OR push_bit (15 + 32) 1 OR push_bit (21 + 32) 1 OR push_bit (11 + 32) 3"

definition gdt_set_code :: "'a kmem_scheme \<Rightarrow> u64 \<Rightarrow> u8 \<Rightarrow> 'a kmem_scheme res" where
  "gdt_set_code s index dpl = mmu_write64 s (DESC_GDT_ADDR + index * 8) (gdt_code dpl)"

definition gdt_data :: u64 where
  "gdt_data = push_bit (15 + 32) 1 OR push_bit (11 + 32) 2 OR push_bit (9 + 32) 1"

definition gdt_set_data :: "'a kmem_scheme \<Rightarrow> u64 \<Rightarrow> 'a kmem_scheme res" where
  "gdt_set_data s index = mmu_write64 s (DESC_GDT_ADDR + index * 8) gdt_data"

definition idt_low :: "u64 \<Rightarrow> u8 \<Rightarrow> u8 \<Rightarrow> u64" where
  "idt_low entry dpl ist =
     (entry AND 0xffff) OR push_bit 16 0x08 OR push_bit 32 (ucast ist AND 0x7) OR push_bit (32 + 8) 0xe
     OR push_bit (32 + 13) (ucast dpl AND 0x03) OR push_bit (32 + 15) 1
     OR push_bit (32 + 16) (drop_bit 16 entry AND 0xffff)"

definition idt_high :: "u64 \<Rightarrow> u64" where
  "idt_high entry = drop_bit 32 entry AND 0xffffffff"

definition idt_set :: "'a kmem_scheme \<Rightarrow> u64 \<Rightarrow> u64 \<Rightarrow> u8 \<Rightarrow> u8 \<Rightarrow> 'a kmem_scheme res" where
  "idt_set s index entry dpl ist =
     bindF (mmu_write64 s (DESC_IDT_ADDR + index * 2 * 8) (idt_low entry dpl ist)) (\<lambda>s.
     mmu_write64 s (DESC_IDT_ADDR + (index * 2 + 1) * 8) (idt_high entry))"

fun idt_loop :: "'a kmem_scheme \<Rightarrow> nat \<Rightarrow> nat \<Rightarrow> 'a kmem_scheme res" where
  "idt_loop s i 0 = Ok s"
| "idt_loop s i (Suc n) =
     bindF (mmu_write64 s (DESC_INT_TASKS_ADDR + of_nat i * 8) 0) (\<lambda>s.
     bindF (mmu_read64 s (DESC_INT_CODE_ADDR + of_nat i * 8)) (\<lambda>entry.
     bindF (idt_set s (of_nat i) entry 0 0) (\<lambda>s. idt_loop s (i + 1) n)))"

text \<open>
  The loops over the pages of the interrupt code, \<open>n\<close> of them.  The second one protects the
  first page each time: it does not add \<^verbatim>\<open>i\<close>.
\<close>

definition image_pages :: "u8 list \<Rightarrow> nat" where "image_pages img = (length img + 4095) div 4096"

definition map_code :: "'a boot_state_scheme \<Rightarrow> nat \<Rightarrow> 'a boot_state_scheme" where
  "map_code s n = foldl (\<lambda>s i. case kmem_getpage s of (s, page) \<Rightarrow>
     kmem_map s (kmem_boot s) (DESC_INT_CODE_ADDR + of_nat i * 0x1000) page KMEM_MAP_DEFAULT) s [0..<n]"

definition protect_code :: "'a boot_state_scheme \<Rightarrow> nat \<Rightarrow> 'a boot_state_scheme" where
  "protect_code s n = foldl (\<lambda>s i. kmem_set_flags s (kmem_boot s) DESC_INT_CODE_ADDR KMEM_MAP_CODE) s [0..<n]"

definition map_fresh :: "'a boot_state_scheme \<Rightarrow> u64 \<Rightarrow> u64 \<Rightarrow> 'a boot_state_scheme" where
  "map_fresh s vaddr flags = (case kmem_getpage s of (s, page) \<Rightarrow> kmem_map s (kmem_boot s) vaddr page flags)"

definition desc_init :: "u8 list \<Rightarrow> 'a boot_state_scheme \<Rightarrow> 'a boot_state_scheme res" where
  "desc_init intr_image s =
     (let s = map_fresh s DESC_GDT_ADDR KMEM_MAP_DEFAULT in
      bindF (gdt_set_null s 0) (\<lambda>s.
      bindF (gdt_set_code s 1 0) (\<lambda>s.
      bindF (gdt_set_data s 2) (\<lambda>s.
      bindF (gdt_set_code s 3 3) (\<lambda>s.
      (let s = s\<lparr>gdtr := DESC_GDT_ADDR\<rparr>;
           s = map_fresh s DESC_IDT_ADDR KMEM_MAP_DEFAULT;
           s = map_fresh s DESC_INT_TASKS_ADDR KMEM_MAP_DEFAULT;
           s = map_code s (image_pages intr_image)
       in
      bindF (mmu_copy s DESC_INT_CODE_ADDR intr_image) (\<lambda>s.
      (let s = protect_code s (image_pages intr_image) in
      bindF (idt_loop s 0 256) (\<lambda>s. Ok (s\<lparr>idtr := DESC_IDT_ADDR\<rparr>))))))))))"

section \<open>The first tasks\<close>

text \<open>The pages of the task table, sixteen task states to a page.\<close>

definition map_task_table :: "'a boot_state_scheme \<Rightarrow> 'a boot_state_scheme" where
  "map_task_table s = foldl (\<lambda>s i. map_fresh s (TASK_BASE + 0x1000 + of_nat i * 0x1000) KMEM_MAP_DEFAULT) s [0..<NUM_TASKS div 16]"

definition clear_screen :: "'a kmem_scheme \<Rightarrow> 'a kmem_scheme" where
  "clear_screen s = foldl (\<lambda>s i. phy_write8 s (0xb8000 + of_nat i) 0) s [0..<80 * 24 * 2]"

text \<open>
  \<^verbatim>\<open>*TASK_MEM(n) = *task_create(); ...->state = 0; task_load_elf(TASK_MEM(n), image, 0x10000)\<close>:
  what \<^verbatim>\<open>kmain\<close> does for the scheduler and for the hardware task.  \<open>elf_image\<close> is where the
  linked image is.
\<close>

definition boot_task :: "'a boot_state_scheme \<Rightarrow> task_table \<Rightarrow> nat \<Rightarrow> ptr \<Rightarrow> ('a boot_state_scheme \<times> task_table) run" where
  "boot_task s t n elf_image =
     (case task_create t of
        (t, None) \<Rightarrow> crash NullDeref
      | (t, Some ts) \<Rightarrow>
         (let t = t(n := t ts);
              t = put_word t ts STATE 0
          in case task_load_elf s t n elf_image 0x10000 of None \<Rightarrow> None | Some r \<Rightarrow> returns r))"

definition map_transfer :: "u8 list \<Rightarrow> 'a boot_state_scheme \<Rightarrow> 'a boot_state_scheme res" where
  "map_transfer transfer_image s =
     (let (s, transfer_page) = kmem_getpage s;
          s = kmem_map s (kmem_boot s) TASK_BASE transfer_page KMEM_MAP_DEFAULT
      in bindF (mmu_copy s TASK_BASE transfer_image) (\<lambda>s.
         Ok (kmem_map s (kmem_boot s) TASK_BASE transfer_page KMEM_MAP_CODE)))"

text \<open>
  \<^verbatim>\<open>kmain\<close> up to its last statement, the transfer to the task in slot 1, which is the third
  component of the result.  Clearing the task memory makes every task state zero.
\<close>

definition kmain ::
  "u64 \<Rightarrow> u64 \<Rightarrow> u8 list \<Rightarrow> u8 list \<Rightarrow> ptr \<Rightarrow> ptr \<Rightarrow> 'a boot_state_scheme \<Rightarrow> u64 list \<Rightarrow>
   ('a boot_state_scheme \<times> task_table \<times> nat) run" where
  "kmain kernel_start kernel_end transfer_image intr_image scheduler_image hw_image s mem =
     bindR (kmem_init kernel_start kernel_end s mem) (\<lambda>s.
     bindR (Some (map_transfer transfer_image s)) (\<lambda>s.
     (let s = map_task_table s;
          t = (\<lambda>_ _. 0);
          t = put_word t 0 STATE TASK_STATE_VALID
      in
     bindR (Some (desc_init intr_image s)) (\<lambda>s.
     (let s = clear_screen s;
          (s, page) = kmem_getpage s;
          s = kmem_map s (kmem_current s) STATUS_BASE page KMEM_MAP_RO_DATA
      in
     bindR (boot_task s t 1 scheduler_image) (\<lambda>(s, t).
     (let t = put_word t 1 RDI (kmem_current s) in
     bindR (boot_task s t 2 hw_image) (\<lambda>(s, t).
     (let t = put_word t 1 RSI (TASK_ADDR 2) in returns (s, t, 1))))))))))"


section \<open>Properties\<close>



















lemma gate_masks: "(0xffff :: u64) = mask 16" "(0xffffffff :: u64) = mask 32" "(8 :: u64) = push_bit 3 1" "(0xe :: u64) = push_bit 1 (mask 3)"
    "(7 :: u64) = mask 3" "(3 :: u64) = mask 2" "(0x1f :: u64) = mask 5" "(0xff :: u64) = mask 8" "(3 :: u8) = mask 2" "(7 :: u8) = mask 3"
    by (simp_all add: mask_eq_exp_minus_1)

lemma gate_selector: "drop_bit 16 (idt_low entry dpl ist) AND 0xffff = 8"
    unfolding idt_low_def gate_masks 
  apply (rule bit_word_eqI)
  apply (simp only: bit_simps possible_bit_word o_apply)
  subgoal for n by (cases "n < 16"; cases "n = 3") simp_all
  done

lemma gate_type: "drop_bit 40 (idt_low entry dpl ist) AND 0x1f = 0xe"
    unfolding idt_low_def gate_masks 
  apply (rule bit_word_eqI)
  apply (simp only: bit_simps possible_bit_word o_apply)
  subgoal for n by (cases "n < 5") auto
  done

lemma gate_present: "bit (idt_low entry dpl ist) 47"
    unfolding idt_low_def gate_masks by (simp only: bit_simps possible_bit_word o_apply) simp

lemma gate_dpl: "drop_bit 45 (idt_low entry dpl ist) AND 0x3 = ucast (dpl AND 0x3)"
    unfolding idt_low_def gate_masks 
  apply (rule bit_word_eqI)
  apply (simp only: bit_simps possible_bit_word o_apply)
  subgoal for n by (cases "n < 2") auto
  done

lemma gate_ist: "drop_bit 32 (idt_low entry dpl ist) AND 0xff = ucast (ist AND 0x7)"
    unfolding idt_low_def gate_masks 
  apply (rule bit_word_eqI)
  apply (simp only: bit_simps possible_bit_word o_apply)
  subgoal for n by (cases "n < 8") auto
  done

lemma gate_entry:
  "(idt_low entry dpl ist AND 0xffff) OR push_bit 16 (drop_bit 48 (idt_low entry dpl ist)) OR push_bit 32 (idt_high entry) = entry"
proof -
  have "idt_low entry dpl ist AND 0xffff = entry AND 0xffff"
    unfolding idt_low_def gate_masks by (rule bit_word_eqI, simp only: bit_simps possible_bit_word o_apply) auto
  moreover have "drop_bit 48 (idt_low entry dpl ist) = drop_bit 16 entry AND 0xffff"
    unfolding idt_low_def gate_masks by (rule bit_word_eqI, simp only: bit_simps possible_bit_word o_apply) auto
  moreover have "(entry AND 0xffff) OR push_bit 16 (drop_bit 16 entry AND 0xffff) OR push_bit 32 (drop_bit 32 entry AND 0xffffffff) = entry"
  proof (rule bit_word_eqI)
    fix n assume "n < LENGTH(64)"
    then show "bit ((entry AND 0xffff) OR push_bit 16 (drop_bit 16 entry AND 0xffff) OR push_bit 32 (drop_bit 32 entry AND 0xffffffff)) n =
        bit entry n"
      unfolding gate_masks by (cases "n < 32"; simp only: bit_simps possible_bit_word o_apply) auto
  qed
  ultimately show ?thesis by (simp only: idt_high_def)
qed

text \<open>
  an interrupt gate that \<^verbatim>\<open>idt_set\<close> stores has the entry point in its three pieces, the code
  selector 8, the gate type, the present bit and the privilege level it was given.
\<close>

theorem idt_gate_fields:
  "(idt_low entry dpl ist AND 0xffff) OR push_bit 16 (drop_bit 48 (idt_low entry dpl ist)) OR push_bit 32 (idt_high entry) = entry \<and>
   drop_bit 16 (idt_low entry dpl ist) AND 0xffff = 8 \<and> drop_bit 40 (idt_low entry dpl ist) AND 0x1f = 0xe \<and>
   bit (idt_low entry dpl ist) 47 \<and> drop_bit 45 (idt_low entry dpl ist) AND 0x3 = ucast (dpl AND 0x3) \<and>
   drop_bit 32 (idt_low entry dpl ist) AND 0xff = ucast (ist AND 0x7)"
  using gate_entry gate_selector gate_type gate_present gate_dpl gate_ist by blast

end
