(* ===== verification/Sched_Mman.thy ===== *)
theory Sched_Mman
  imports Klib_Kmem Clib_Avl
begin

text \<open>
  \<^verbatim>\<open>kernel/scheduler/mman.c\<close> and \<^verbatim>\<open>id.c\<close>: the memory manager of the scheduler.  It names page
  table roots by ids and counts, in AVL trees keyed by words, the references to each root and
  to each page.  Its state extends the one of \<^verbatim>\<open>Klib_Kmem\<close>.  The page-free callback is a
  function pointer: \<open>pagefree_callback\<close> says whether it is set, and the functions that may
  call it take the function as the argument \<open>cb\<close>.
\<close>

record mman = kmem +
  root_map :: "(u64, u64) avl_tree"
  root_refcount :: "(u64, u64) avl_tree"
  page_refcount :: "(u64, u64) avl_tree"
  this_root_id :: u64
  pagefree_callback :: bool
  next_id :: u64

type_synonym 'a freed = "'a mman_scheme \<Rightarrow> u64 \<Rightarrow> 'a mman_scheme"

definition gen_id :: "'a mman_scheme \<Rightarrow> 'a mman_scheme \<times> u64" where
  "gen_id s = (s\<lparr>next_id := next_id s + 1\<rparr>, next_id s)"

section \<open>Counting references\<close>

definition increment_page :: "'a mman_scheme \<Rightarrow> u64 \<Rightarrow> 'a mman_scheme" where
  "increment_page s page =
     (let current = avl_search (page_refcount s) page
      in s\<lparr>page_refcount := fst (avl_insert (page_refcount s) page (current + 1))\<rparr>)"

definition decrement_page :: "'a freed \<Rightarrow> 'a mman_scheme \<Rightarrow> u64 \<Rightarrow> 'a mman_scheme" where
  "decrement_page cb s page =
     (let current = avl_search (page_refcount s) page in
      if current = 0 then s
      else if current > 1 then
        s\<lparr>page_refcount := fst (avl_insert (page_refcount s) page (current - 1))\<rparr>
      else
        (let s = (if pagefree_callback s then cb s page else s);
             s = s\<lparr>page_refcount := fst (avl_remove (page_refcount s) page)\<rparr>
         in kmem_unuse s page))"

definition mman_paging_addr_create ::
  "'a mman_scheme \<Rightarrow> u64 \<Rightarrow> u64 \<Rightarrow> nat \<Rightarrow> 'a mman_scheme \<times> u64" where
  "mman_paging_addr_create = paging_addr_create_with increment_page"

section \<open>Roots\<close>

text \<open>
  \<^verbatim>\<open>import_helper\<close> and \<^verbatim>\<open>remove_helper\<close> visit the present entries of a table and, above level
  3, of the tables they lead to, leaving out entry 384 of the root.
\<close>

function import_helper :: "'a mman_scheme \<Rightarrow> u64 \<Rightarrow> nat \<Rightarrow> 'a mman_scheme" where
  "import_helper s root level =
     foldl (\<lambda>s i.
       if level = 0 \<and> i = 384 then s
       else
         (let entry = phy_read64 s (root + of_nat i * 8) in
          if entry AND 1 = 0 then s
          else
            (let page = entry AND NOT KMEM_FLAG_MASK;
                 s = increment_page s page
             in if level < 3 then import_helper s page (level + 1) else s)))
       s [0..<512]"
  by pat_completeness auto

termination by (relation "measure (\<lambda>(s, root, level). 3 - level)") auto

function remove_helper :: "'a freed \<Rightarrow> 'a mman_scheme \<Rightarrow> u64 \<Rightarrow> nat \<Rightarrow> 'a mman_scheme" where
  "remove_helper cb s root level =
     foldl (\<lambda>s i.
       if level = 0 \<and> i = 384 then s
       else
         (let entry = phy_read64 s (root + of_nat i * 8) in
          if entry AND 1 = 0 then s
          else
            (let page = entry AND NOT KMEM_FLAG_MASK;
                 s = (if level < 3 then remove_helper cb s page (level + 1) else s)
             in decrement_page cb s page)))
       s [0..<512]"
  by pat_completeness auto

termination by (relation "measure (\<lambda>(cb, s, root, level). 3 - level)") auto

declare import_helper.simps [simp del] remove_helper.simps [simp del]

definition import_root :: "'a mman_scheme \<Rightarrow> u64 \<Rightarrow> 'a mman_scheme \<times> u64" where
  "import_root s root =
     (let s = increment_page s root;
          s = import_helper s root 0;
          (s, id) = gen_id s
      in (s\<lparr>root_map := fst (avl_insert (root_map s) id root)\<rparr>, id))"

definition mman_increment_root :: "'a mman_scheme \<Rightarrow> u64 \<Rightarrow> 'a mman_scheme" where
  "mman_increment_root s root =
     (let current = avl_search (root_refcount s) root
      in s\<lparr>root_refcount := fst (avl_insert (root_refcount s) root (current + 1))\<rparr>)"

definition mman_decrement_root :: "'a freed \<Rightarrow> 'a mman_scheme \<Rightarrow> u64 \<Rightarrow> 'a mman_scheme" where
  "mman_decrement_root cb s root =
     (let current = avl_search (root_refcount s) root in
      if current = 0 then s
      else if current > 1 then
        s\<lparr>root_refcount := fst (avl_insert (root_refcount s) root (current - 1))\<rparr>
      else
        (let s = s\<lparr>root_refcount := fst (avl_remove (root_refcount s) root)\<rparr>;
             (rm, cr3, _) = avl_remove (root_map s) root;
             s = s\<lparr>root_map := rm\<rparr>;
             s = remove_helper cb s cr3 0
         in decrement_page cb s cr3))"

definition mman_init :: "'a mman_scheme \<Rightarrow> u64 \<Rightarrow> 'a mman_scheme" where
  "mman_init s bootproc_cr3 =
     (let s = kmem_setup s;
          s = s\<lparr>root_map := avl_initialize avl_ptrcmp False,
                root_refcount := avl_initialize avl_ptrcmp False,
                page_refcount := avl_initialize avl_ptrcmp False\<rparr>;
          (s, id) = import_root s (kmem_current s);
          s = s\<lparr>this_root_id := id\<rparr>;
          s = mman_increment_root s (this_root_id s)
      in fst (import_root s bootproc_cr3))"

definition mman_own_root :: "'a mman_scheme \<Rightarrow> u64" where
  "mman_own_root s = this_root_id s"

definition mman_make_root :: "'a mman_scheme \<Rightarrow> 'a mman_scheme \<times> u64" where
  "mman_make_root s = (let (s, address) = kmem_create_root s in import_root s address)"

definition mman_import_root :: "'a mman_scheme \<Rightarrow> u64 \<Rightarrow> 'a mman_scheme \<times> u64" where
  "mman_import_root s cr3 = import_root s cr3"

definition mman_set_pagefree_callback :: "'a mman_scheme \<Rightarrow> bool \<Rightarrow> 'a mman_scheme" where
  "mman_set_pagefree_callback s callback = s\<lparr>pagefree_callback := callback\<rparr>"

definition mman_is_root :: "'a mman_scheme \<Rightarrow> u64 \<Rightarrow> bool" where
  "mman_is_root s root \<longleftrightarrow> avl_search (root_map s) root \<noteq> 0"

definition mman_get_root_cr3 :: "'a mman_scheme \<Rightarrow> u64 \<Rightarrow> u64" where
  "mman_get_root_cr3 s root = avl_search (root_map s) root"

definition mman_get_phy :: "'a mman_scheme \<Rightarrow> u64 \<Rightarrow> u64 \<Rightarrow> u64" where
  "mman_get_phy s root address =
     (let cr3 = avl_search (root_map s) root in
      if cr3 = 0 then -1
      else
        (let (entry, ok) = kmem_paging_addr s cr3 (address AND NOT 0xfff) 3 in
         if \<not> ok then 0
         else (phy_read64 s entry AND NOT KMEM_FLAG_MASK) OR (address AND 0xfff)))"

section \<open>Mapping\<close>

text \<open>
  Every loop below counts a size down from a multiple of the page size, which the guard before
  it has checked: it runs once for each page, and the recursion is on their number.
\<close>

fun anonymous_loop :: "'a mman_scheme \<Rightarrow> u64 \<Rightarrow> u64 \<Rightarrow> nat \<Rightarrow> 'a mman_scheme" where
  "anonymous_loop s root_address address 0 = s"
| "anonymous_loop s root_address address (Suc n) =
     (let (s, eaddr) = mman_paging_addr_create s root_address address 3;
          (s, paddr) = kmem_getpage s;
          s = phy_write64 s eaddr (paddr OR KMEM_MAP_DATA);
          s = increment_page s paddr
      in anonymous_loop s root_address (address + 0x1000) n)"

definition mman_anonymous :: "'a mman_scheme \<Rightarrow> u64 \<Rightarrow> u64 \<Rightarrow> u64 \<Rightarrow> 'a mman_scheme \<times> int" where
  "mman_anonymous s root_id address sz =
     (let root_address = avl_search (root_map s) root_id in
      if root_address = 0 then (s, -1)
      else if address AND 0xfff \<noteq> 0 then (s, -1)
      else if sz AND 0xfff \<noteq> 0 then (s, -1)
      else (anonymous_loop s root_address address (unat sz div 4096), 0))"

fun physical_loop :: "'a mman_scheme \<Rightarrow> u64 \<Rightarrow> u64 \<Rightarrow> u64 \<Rightarrow> nat \<Rightarrow> 'a mman_scheme" where
  "physical_loop s root_address address paddress 0 = s"
| "physical_loop s root_address address paddress (Suc n) =
     (let (s, eaddr) = mman_paging_addr_create s root_address address 3;
          s = phy_write64 s eaddr (paddress OR KMEM_MAP_DATA)
      in physical_loop s root_address (address + 0x1000) (paddress + 0x1000) n)"

definition mman_physical ::
  "'a mman_scheme \<Rightarrow> u64 \<Rightarrow> u64 \<Rightarrow> u64 \<Rightarrow> u64 \<Rightarrow> 'a mman_scheme \<times> int" where
  "mman_physical s root_id address paddress sz =
     (let root_address = avl_search (root_map s) root_id in
      if root_address = 0 then (s, -1)
      else if address AND 0xfff \<noteq> 0 then (s, -1)
      else if paddress AND 0xfff \<noteq> 0 then (s, -1)
      else if sz AND 0xfff \<noteq> 0 then (s, -1)
      else (physical_loop s root_address address paddress (unat sz div 4096), 0))"

fun all_mapped_loop :: "'a mman_scheme \<Rightarrow> u64 \<Rightarrow> u64 \<Rightarrow> nat \<Rightarrow> int" where
  "all_mapped_loop s root_address address 0 = 1"
| "all_mapped_loop s root_address address (Suc n) =
     (let (eaddr, ok) = kmem_paging_addr s root_address address 3 in
      if \<not> ok then 0
      else if phy_read64 s eaddr AND 0x1 = 0 then 0
      else all_mapped_loop s root_address (address + 0x1000) n)"

definition mman_check_all_mapped :: "'a mman_scheme \<Rightarrow> u64 \<Rightarrow> u64 \<Rightarrow> u64 \<Rightarrow> int" where
  "mman_check_all_mapped s root_id address sz =
     (let root_address = avl_search (root_map s) root_id in
      if root_address = 0 then -1
      else if address AND 0xfff \<noteq> 0 then -1
      else if sz AND 0xfff \<noteq> 0 then -1
      else all_mapped_loop s root_address address (unat sz div 4096))"

fun any_mapped_loop :: "'a mman_scheme \<Rightarrow> u64 \<Rightarrow> u64 \<Rightarrow> nat \<Rightarrow> int" where
  "any_mapped_loop s root_address address 0 = 0"
| "any_mapped_loop s root_address address (Suc n) =
     (let (eaddr, ok) = kmem_paging_addr s root_address address 3 in
      if ok \<and> phy_read64 s eaddr AND 0x1 \<noteq> 0 then 1
      else any_mapped_loop s root_address (address + 0x1000) n)"

definition mman_check_any_mapped :: "'a mman_scheme \<Rightarrow> u64 \<Rightarrow> u64 \<Rightarrow> u64 \<Rightarrow> int" where
  "mman_check_any_mapped s root_id address sz =
     (let root_address = avl_search (root_map s) root_id in
      if root_address = 0 then -1
      else if address AND 0xfff \<noteq> 0 then -1
      else if sz AND 0xfff \<noteq> 0 then -1
      else any_mapped_loop s root_address address (unat sz div 4096))"

fun mirror_loop :: "'a mman_scheme \<Rightarrow> u64 \<Rightarrow> u64 \<Rightarrow> u64 \<Rightarrow> u64 \<Rightarrow> nat \<Rightarrow> 'a mman_scheme" where
  "mirror_loop s root_address address sroot_address saddress 0 = s"
| "mirror_loop s root_address address sroot_address saddress (Suc n) =
     (let (s, eaddr) = mman_paging_addr_create s root_address address 3;
          (s, saddr) = mman_paging_addr_create s sroot_address saddress 3;
          sentry = phy_read64 s saddr;
          s = phy_write64 s eaddr (phy_read64 s saddr);
          s = increment_page s (sentry AND NOT KMEM_FLAG_MASK)
      in mirror_loop s root_address (address + 0x1000) sroot_address (saddress + 0x1000) n)"

definition mman_mirror ::
  "'a mman_scheme \<Rightarrow> u64 \<Rightarrow> u64 \<Rightarrow> u64 \<Rightarrow> u64 \<Rightarrow> u64 \<Rightarrow> 'a mman_scheme \<times> int" where
  "mman_mirror s root_id address sroot_id saddress sz =
     (let root_address = avl_search (root_map s) root_id in
      if root_address = 0 then (s, -1)
      else
        (let sroot_address = avl_search (root_map s) sroot_id in
         if sroot_address = 0 then (s, -1)
         else if mman_check_any_mapped s root_id address sz \<noteq> 0 then (s, 1)
         else if mman_check_all_mapped s sroot_id saddress sz \<noteq> 1 then (s, 1)
         else (mirror_loop s root_address address sroot_address saddress (unat sz div 4096), 0)))"

fun unmap_loop :: "'a freed \<Rightarrow> 'a mman_scheme \<Rightarrow> u64 \<Rightarrow> u64 \<Rightarrow> nat \<Rightarrow> 'a mman_scheme" where
  "unmap_loop cb s root_address address 0 = s"
| "unmap_loop cb s root_address address (Suc n) =
     (let (eaddr, ok) = kmem_paging_addr s root_address address 3;
          s = (if ok then
                 (let entry = phy_read64 s eaddr in
                  if entry AND 1 \<noteq> 0 then
                    phy_write64 (decrement_page cb s (entry AND NOT KMEM_FLAG_MASK)) eaddr 0
                  else s)
               else s)
      in unmap_loop cb s root_address (address + 0x1000) n)"

definition mman_unmap :: "'a freed \<Rightarrow> 'a mman_scheme \<Rightarrow> u64 \<Rightarrow> u64 \<Rightarrow> u64 \<Rightarrow> 'a mman_scheme \<times> int" where
  "mman_unmap cb s root_id address sz =
     (let root_address = avl_search (root_map s) root_id in
      if root_address = 0 then (s, -1)
      else if address AND 0xfff \<noteq> 0 then (s, -1)
      else if sz AND 0xfff \<noteq> 0 then (s, -1)
      else (unmap_loop cb s root_address address (unat sz div 4096), 0))"

fun protect_loop :: "'a mman_scheme \<Rightarrow> u64 \<Rightarrow> u64 \<Rightarrow> u64 \<Rightarrow> nat \<Rightarrow> 'a mman_scheme" where
  "protect_loop s root_address address flags 0 = s"
| "protect_loop s root_address address flags (Suc n) =
     (let (eaddr, ok) = kmem_paging_addr s root_address address 3;
          s = (if ok then
                 (let entry = phy_read64 s eaddr in
                  if entry AND 1 \<noteq> 0 then
                    phy_write64 s eaddr (entry AND NOT KMEM_FLAG_MASK OR flags)
                  else s)
               else s)
      in protect_loop s root_address (address + 0x1000) flags n)"

definition mman_protect ::
  "'a mman_scheme \<Rightarrow> u64 \<Rightarrow> u64 \<Rightarrow> u64 \<Rightarrow> u64 \<Rightarrow> 'a mman_scheme \<times> int" where
  "mman_protect s root_id address sz flags =
     (let root_address = avl_search (root_map s) root_id in
      if root_address = 0 then (s, -1)
      else if address AND 0xfff \<noteq> 0 then (s, -1)
      else if sz AND 0xfff \<noteq> 0 then (s, -1)
      else (protect_loop s root_address address flags (unat sz div 4096), 0))"

section \<open>The reference counts\<close>

definition count_page :: "(u64, u64) avl_tree \<Rightarrow> u64 \<Rightarrow> (u64, u64) avl_tree" where
  "count_page t page = fst (avl_insert t page (avl_search t page + 1))"

abbreviation word_table :: "(u64, u64) avl_tree \<Rightarrow> bool" where
  "word_table \<equiv> avl_invar avl_ptrcmp (\<lambda>_. True)"

abbreviation page_count :: "'a mman_scheme \<Rightarrow> u64 \<Rightarrow> u64" where
  "page_count s p \<equiv> avl_search (page_refcount s) p"

lemma count_page_lookup:
  assumes "word_table t"
  shows "word_table (count_page t page)"
    and "avl_search (count_page t page) p = (if p = page then avl_search t p + 1 else avl_search t p)"
  using ptr_table.invar_insert [OF assms] ptr_table.lookup_insert [OF assms] by (simp_all add: count_page_def)

lemma count_pages_lookup:
  "word_table t \<Longrightarrow> word_table (foldl count_page t ps) \<and>
   avl_search (foldl count_page t ps) p = avl_search t p + of_nat (count_list ps p)"
  by (induction ps arbitrary: t) (auto simp: count_page_lookup)

lemma count_list_distinct: "distinct ps \<Longrightarrow> count_list ps p = (if p \<in> set ps then 1 else 0)"
  by (induction ps) auto

lemma count_pages_distinct:
  "word_table t \<Longrightarrow> distinct ps \<Longrightarrow>
   avl_search (foldl count_page t ps) p = (if p \<in> set ps then avl_search t p + 1 else avl_search t p)"
  using count_pages_lookup [of t ps p] by (simp add: count_list_distinct)

text \<open>What of the state the memory manager keeps beside the page counts.\<close>

definition mman_rest :: "'a mman_scheme \<Rightarrow> (u64, u64) avl_tree \<times> (u64, u64) avl_tree \<times> u64 \<times> bool \<times> u64 \<times> 'a" where
  "mman_rest s = (root_map s, root_refcount s, this_root_id s, pagefree_callback s, next_id s, more s)"

lemma mman_fields_write [simp, frame]:
  "root_map (phy_write64 s a v) = root_map s" "root_refcount (phy_write64 s a v) = root_refcount s"
  "page_refcount (phy_write64 s a v) = page_refcount s" "this_root_id (phy_write64 s a v) = this_root_id s"
  "pagefree_callback (phy_write64 s a v) = pagefree_callback s" "next_id (phy_write64 s a v) = next_id s"
  "mman.more (phy_write64 s a v) = mman.more s"
  by (simp_all add: phy_write64_def)

lemma mman_fields_put [simp, frame]:
  "root_map (put_last_unused s v) = root_map s" "root_refcount (put_last_unused s v) = root_refcount s"
  "page_refcount (put_last_unused s v) = page_refcount s" "this_root_id (put_last_unused s v) = this_root_id s"
  "pagefree_callback (put_last_unused s v) = pagefree_callback s" "next_id (put_last_unused s v) = next_id s"
  "mman.more (put_last_unused s v) = mman.more s"
  by (simp_all add: put_last_unused_def split: unused_loc.split)

lemma page_refcount_update [simp, frame]:
  "phy_read64 (s\<lparr>page_refcount := t\<rparr>) a = phy_read64 s a" "get_last_unused (s\<lparr>page_refcount := t\<rparr>) = get_last_unused s"
  by (simp_all add: phy_read64_def get_last_unused_def split: unused_loc.split)

interpretation counted: table_hook increment_page page_refcount count_page
  by unfold_locales (simp_all add: increment_page_def count_page_def Let_def)

interpretation kept: table_hook increment_page mman_rest "\<lambda>r n. r"
  by unfold_locales (simp_all add: increment_page_def mman_rest_def Let_def)

lemma foldl_keep: "foldl (\<lambda>r n. r) x xs = x"
  by (induction xs) auto

lemma mman_create:
  assumes "paging_ok s root ps" "mappable v" "3 \<le> length ps"
  shows "\<exists>s' b m. mman_paging_addr_create s root v 3 = (s', b + level_index 3 v * 8) \<and>
    m \<le> 3 \<and> paging_ok s' root (drop m ps) \<and> grown root (take m ps) s s' \<and> table_at s' root v 3 = Some b \<and>
    page_refcount s' = foldl count_page (page_refcount s) (take m ps) \<and> mman_rest s' = mman_rest s"
proof -
  obtain s' b m where C: "mman_paging_addr_create s root v 3 = (s', b + level_index 3 v * 8)"
    "m \<le> 3" "paging_ok s' root (drop m ps)" "grown root (take m ps) s s'" "table_at s' root v 3 = Some b"
    "page_refcount s' = foldl count_page (page_refcount s) (take m ps)"
    using counted.create_addr [OF assms(1,2) _ assms(3)] by (auto simp: mman_paging_addr_create_def)
  moreover obtain s2 b2 m2 where "mman_paging_addr_create s root v 3 = (s2, b2 + level_index 3 v * 8)"
    "mman_rest s2 = foldl (\<lambda>r n. r) (mman_rest s) (take m2 ps)"
    using kept.create_addr [OF assms(1,2) _ assms(3)] by (auto simp: mman_paging_addr_create_def)
  ultimately show ?thesis by (auto simp: foldl_keep)
qed

section \<open>What the operations do to the entries\<close>

text \<open>
  One round of the mapping loops: create the tables, then write the entry.  Between the two
  the callers may take a page off the free list.
\<close>

lemma mman_fields_getpage [simp, frame]:
  "page_refcount (fst (kmem_getpage s)) = page_refcount s" "mman_rest (fst (kmem_getpage s)) = mman_rest s"
  by (simp_all add: kmem_getpage_def mman_rest_def Let_def)

lemma mman_rest_write [simp, frame]:
  "mman_rest (phy_write64 s a v) = mman_rest s" "mman_rest (increment_page s p) = mman_rest s"
  by (simp_all add: mman_rest_def increment_page_def Let_def)

lemma increment_page_ok [simp]:
  "paging_ok (increment_page s p) root ps = paging_ok s root ps" "pte (increment_page s p) root w = pte s root w"
  "page_refcount (increment_page s p) = count_page (page_refcount s) p"
  using counted.hook_quiet(1) [of s p root ps]
    tree_reads(3) [of "increment_page s p" s root w, OF counted.hook_reads] by (simp_all add: counted.obs_hook)

lemma write_entry_ok:
  assumes "paging_ok s root ps" "mappable v" "table_at s root v 3 = Some b"
  shows "paging_ok (phy_write64 s (b + level_index 3 v * 8) e) root ps"
    "mappable w \<Longrightarrow> pte (phy_write64 s (b + level_index 3 v * 8) e) root w = (if same_page v w then e else pte s root w)"
  using write_leaf_ok(1) [OF assms] write_leaf(2) [OF _ assms(2,3)] assms(1)
  by (auto simp: paging_ok_def same_path_page)

text \<open>
  \<^verbatim>\<open>mman_anonymous\<close>.  \<open>taken\<close> are the pages it takes off the free list, for tables and for data,
  in order, and \<open>pages\<close> the ones that end up mapped.
\<close>

lemma anonymous_step:
  assumes "paging_ok s root ps" "mappable v" "4 \<le> length ps"
  defines "s1 \<equiv> fst (mman_paging_addr_create s root v 3)" and "e \<equiv> snd (mman_paging_addr_create s root v 3)"
  defines "p \<equiv> snd (kmem_getpage s1)"
  defines "s' \<equiv> increment_page (phy_write64 (fst (kmem_getpage s1)) e (p OR KMEM_MAP_DATA)) p"
  shows "\<exists>m \<le> 3. p = ps ! m \<and> paging_ok s' root (drop (Suc m) ps) \<and>
    (\<forall>w. mappable w \<longrightarrow> pte s' root w = (if same_page v w then p OR KMEM_MAP_DATA else pte s root w)) \<and>
    page_refcount s' = foldl count_page (page_refcount s) (take (Suc m) ps) \<and> mman_rest s' = mman_rest s \<and>
    table_pages s' root \<subseteq> table_pages s root \<union> set (take m ps)"
proof -
  obtain b m where C: "e = b + level_index 3 v * 8" "m \<le> 3"
    "paging_ok s1 root (drop m ps)" "grown root (take m ps) s s1" "table_at s1 root v 3 = Some b"
    "page_refcount s1 = foldl count_page (page_refcount s) (take m ps)" "mman_rest s1 = mman_rest s"
    using mman_create [OF assms(1,2)] assms(3) by (fastforce simp: s1_def e_def)
  have m: "m < length ps" using C(2) assms(3) by simp
  then have d: "drop m ps = ps ! m # drop (Suc m) ps" by (simp add: Cons_nth_drop_Suc)
  note G = getpage_ok [OF C(3) [unfolded d]]
  have "p = ps ! m" using G(1) by (simp add: p_def)
  moreover have "table_at (fst (kmem_getpage s1)) root v 3 = Some b" using C(5) G(4) by simp
  note W = write_entry_ok [OF G(2) assms(2) this] write_leaf_ok(2) [OF G(2) assms(2) this]
  have "table_pages (fst (kmem_getpage s1)) root = table_pages s1 root"
    by (rule tree_reads(2)) simp
  then have "table_pages s' root = table_pages s1 root"
    using W(3) C(1) by (simp add: s'_def tree_reads(2) [OF counted.hook_reads])
  then have "table_pages s' root \<subseteq> table_pages s root \<union> set (take m ps)"
    using C(4) by (simp add: grown_def)
  moreover have "take (Suc m) ps = take m ps @ [ps ! m]" using m by (rule take_Suc_conv_app_nth)
  ultimately show ?thesis
    using W(1,2) C G(3) by (intro exI [of _ m]) (simp add: s'_def grown_def)
qed

lemma anonymous_loop_ok:
  assumes "paging_ok s root ps" "4 * n \<le> length ps" "\<And>i. i < n \<Longrightarrow> mappable (nth_page a i)" "n \<le> 2 ^ 36"
  shows "\<exists>pages k. length pages = n \<and> k \<le> 4 * n \<and> distinct pages \<and> set pages \<subseteq> set (take k ps) \<and>
    (let s' = anonymous_loop s root a n in
      paging_ok s' root (drop k ps) \<and>
      (\<forall>i < n. pte s' root (nth_page a i) = pages ! i OR KMEM_MAP_DATA) \<and>
      (\<forall>w. mappable w \<and> (\<forall>i < n. \<not> same_page (nth_page a i) w) \<longrightarrow> pte s' root w = pte s root w) \<and>
      page_refcount s' = foldl count_page (page_refcount s) (take k ps) \<and> mman_rest s' = mman_rest s \<and>
      table_pages s' root \<subseteq> table_pages s root \<union> (set (take k ps) - set pages))"
  using assms
proof (induction n arbitrary: s a ps)
  case 0
  then show ?case by (intro exI [of _ "[]"] exI [of _ 0]) simp
next
  case (Suc n)
  define s1 where "s1 = fst (mman_paging_addr_create s root a 3)"
  define e where "e = snd (mman_paging_addr_create s root a 3)"
  define p where "p = snd (kmem_getpage s1)"
  define s' where "s' = increment_page (phy_write64 (fst (kmem_getpage s1)) e (p OR KMEM_MAP_DATA)) p"
  have a: "mappable a" using Suc.prems(3) [of 0] by simp
  obtain m where M: "m \<le> 3" "p = ps ! m" "paging_ok s' root (drop (Suc m) ps)"
    "\<And>w. mappable w \<Longrightarrow> pte s' root w = (if same_page a w then p OR KMEM_MAP_DATA else pte s root w)"
    "page_refcount s' = foldl count_page (page_refcount s) (take (Suc m) ps)" "mman_rest s' = mman_rest s"
    "table_pages s' root \<subseteq> table_pages s root \<union> set (take m ps)"
    using anonymous_step [OF Suc.prems(1) a] Suc.prems(2) by (auto simp: s1_def e_def p_def s'_def)
  have loop: "anonymous_loop s root a (Suc n) = anonymous_loop s' root (a + 0x1000) n"
    by (simp add: s1_def e_def p_def s'_def Let_def case_prod_beta)
  have c1: "4 * n \<le> length (drop (Suc m) ps)" using Suc.prems(2) M(1) by simp
  have c2: "mappable (nth_page (a + 0x1000) i)" if "i < n" for i
    using Suc.prems(3) [of "Suc i"] that by (simp add: nth_page_Suc)
  have c3: "n \<le> 2 ^ 36" using Suc.prems(4) by simp
  obtain pages k where IH: "length pages = n" "k \<le> 4 * n" "distinct pages" "set pages \<subseteq> set (take k (drop (Suc m) ps))"
    "paging_ok (anonymous_loop s' root (a + 0x1000) n) root (drop k (drop (Suc m) ps))"
    "\<And>i. i < n \<Longrightarrow> pte (anonymous_loop s' root (a + 0x1000) n) root (nth_page (a + 0x1000) i) = pages ! i OR KMEM_MAP_DATA"
    "\<And>w. mappable w \<Longrightarrow> (\<And>i. i < n \<Longrightarrow> \<not> same_page (nth_page (a + 0x1000) i) w) \<Longrightarrow>
      pte (anonymous_loop s' root (a + 0x1000) n) root w = pte s' root w"
    "page_refcount (anonymous_loop s' root (a + 0x1000) n) = foldl count_page (page_refcount s') (take k (drop (Suc m) ps))"
    "mman_rest (anonymous_loop s' root (a + 0x1000) n) = mman_rest s'"
    "table_pages (anonymous_loop s' root (a + 0x1000) n) root \<subseteq>
      table_pages s' root \<union> (set (take k (drop (Suc m) ps)) - set pages)"
    using Suc.IH [OF M(3) c1 c2 c3] unfolding Let_def by blast
  have ml: "m < length ps" using M(1) Suc.prems(2) by simp
  have tk: "take (Suc m + k) ps = take (Suc m) ps @ take k (drop (Suc m) ps)" by (rule take_add)
  have dist: "distinct ps" using Suc.prems(1) by (simp add: paging_ok_def free_pages_def)
  have pin: "p \<in> set (take (Suc m) ps)" using ml M(2) by (auto simp: in_set_conv_nth)
  have "distinct (take (Suc m) ps @ drop (Suc m) ps)" using dist by simp
  then have "set (take (Suc m) ps) \<inter> set (drop (Suc m) ps) = {}" unfolding distinct_append by blast
  then have pn: "p \<notin> set pages" using pin IH(4) set_take_subset [of k "drop (Suc m) ps"] by blast
  have sm: "set (take (Suc m) ps) = insert p (set (take m ps))" "p \<notin> set (take m ps)"
    using ml M(2) dist by (auto simp: take_Suc_conv_app_nth in_set_conv_nth nth_eq_iff_index_eq)
  have "set pages \<inter> set (take (Suc m) ps) = {}"
    using IH(4) set_take_subset [of k "drop (Suc m) ps"] \<open>set (take (Suc m) ps) \<inter> _ = {}\<close> by blast
  moreover have pt: "p \<notin> table_pages s root"
    using Suc.prems(1) nth_mem [OF ml] M(2) by (auto simp: paging_ok_def)
  moreover have "set pages \<inter> table_pages s root = {}"
    using IH(4) set_take_subset [of k "drop (Suc m) ps"] set_drop_subset [of "Suc m" ps] Suc.prems(1)
    by (auto simp: paging_ok_def)
  moreover have "p \<notin> set (take k (drop (Suc m) ps))"
    using pin set_take_subset [of k "drop (Suc m) ps"] \<open>set (take (Suc m) ps) \<inter> _ = {}\<close> by blast
  ultimately have tp: "table_pages (anonymous_loop s' root (a + 0x1000) n) root \<subseteq>
      table_pages s root \<union> (set (take (Suc m + k) ps) - set (p # pages))"
    using IH(10) M(7) unfolding tk set_append sm(1) by (auto simp: sm(2))
  have other: "\<not> same_page (nth_page a (Suc i)) a" if "i < n" for i
    using same_page_nth [of "Suc i" "Suc n" 0 a] Suc.prems(4) that by auto
  have "pte (anonymous_loop s' root (a + 0x1000) n) root (nth_page a i) = (p # pages) ! i OR KMEM_MAP_DATA"
    if "i < Suc n" for i
  proof (cases i)
    case 0
    then show ?thesis using IH(7) [OF a] M(4) [OF a] other by (simp add: nth_page_Suc same_page_def)
  next
    case (Suc j)
    then show ?thesis using IH(6) [of j] that by (simp add: nth_page_Suc)
  qed
  moreover have "pte (anonymous_loop s' root (a + 0x1000) n) root w = pte s root w"
    if "mappable w" "\<forall>i < Suc n. \<not> same_page (nth_page a i) w" for w
  proof -
    have "\<not> same_page a w" using that(2) by (metis nth_page_0 zero_less_Suc)
    then show ?thesis using IH(7) [OF that(1)] M(4) [OF that(1)] that(2) by (simp add: nth_page_Suc)
  qed
  ultimately show ?case
    using IH(1-5,8,9) M pn pin tk tp unfolding loop Let_def
    by (intro exI [of _ "p # pages"] exI [of _ "Suc m + k"]) (auto simp: add.commute)
qed

subsection \<open>Dropping references\<close>

text \<open>
  What the page-free callback may do: anything to the state that extends the memory
  manager's, nothing to memory, the free list and the counts.
\<close>

locale page_callback =
  fixes cb :: "'a freed"
  assumes cb_reads: "phy_read64 (cb s p) a = phy_read64 s a"
    and cb_free: "get_last_unused (cb s p) = get_last_unused s"
    and cb_counts: "page_refcount (cb s p) = page_refcount s"
    and cb_roots: "root_map (cb s p) = root_map s" "root_refcount (cb s p) = root_refcount s"

text \<open>
  What an observer of the state cannot see change under the writes of the memory manager and
  its callback, it cannot see change under unmapping and dropping roots either.
\<close>

locale mman_observer =
  fixes view :: "'a mman_scheme \<Rightarrow> 'v" and cb :: "'a freed"
  assumes view_write: "view (phy_write64 s p v) = view s"
    and view_put: "view (put_last_unused s v) = view s"
    and view_counts: "view (s\<lparr>page_refcount := t\<rparr>) = view s"
    and view_cb: "view (cb s p) = view s"
begin

lemma view_decrement: "view (decrement_page cb s p) = view s"
  by (simp add: decrement_page_def kmem_unuse_def Let_def view_write view_put view_counts view_cb)

lemma view_unmap_loop: "view (unmap_loop cb s root a n) = view s"
  by (induction n arbitrary: s a) (simp_all add: Let_def view_write view_decrement split: prod.split)

lemma view_unmap: "view (fst (mman_unmap cb s root_id a sz)) = view s"
  by (simp add: mman_unmap_def Let_def view_unmap_loop)

lemma view_fold: "(\<And>s i. view (f s i) = view s) \<Longrightarrow> view (foldl f s xs) = view s"
  by (induction xs arbitrary: s) simp_all

lemma view_remove_helper: "view (remove_helper cb s root level) = view s"
proof (induction "3 - level" arbitrary: s root level)
  case 0
  then have "\<not> level < 3" by simp
  then show ?case
    by (subst remove_helper.simps) (rule view_fold, simp add: Let_def view_decrement)
next
  case (Suc n)
  then have "view (remove_helper cb s page (level + 1)) = view s" for s page by simp
  then show ?case
    by (subst remove_helper.simps) (rule view_fold, simp add: Let_def view_decrement)
qed

end

locale root_observer = mman_observer +
  assumes view_roots: "view (s\<lparr>root_refcount := t\<rparr>) = view s" "view (s\<lparr>root_map := t\<rparr>) = view s"
begin

lemma view_decrement_root: "view (mman_decrement_root cb s root) = view s"
  by (simp add: mman_decrement_root_def Let_def view_decrement view_remove_helper view_roots split: prod.split)

end

text \<open>Dropping a reference, on the counts and the free list alone.\<close>

fun drop_ref :: "(u64, u64) avl_tree \<times> u64 list \<Rightarrow> u64 \<Rightarrow> (u64, u64) avl_tree \<times> u64 list" where
  "drop_ref (t, ps) p =
     (let c = avl_search t p in
      if c = 0 then (t, ps)
      else if c > 1 then (fst (avl_insert t p (c - 1)), ps)
      else (fst (avl_remove t p), p # ps))"

definition free_zero :: "(u64, u64) avl_tree \<times> u64 list \<Rightarrow> bool" where
  "free_zero = (\<lambda>(t, ps). word_table t \<and> (\<forall>p \<in> set ps. avl_search t p = 0))"

lemma drop_ref_lookup:
  assumes "word_table t"
  shows "word_table (fst (drop_ref (t, ps) p))"
    and "avl_search (fst (drop_ref (t, ps) p)) q =
      (if q = p \<and> avl_search t p \<noteq> 0 then avl_search t p - 1 else avl_search t q)"
    and "set (snd (drop_ref (t, ps) p)) = (if avl_search t p = 1 then insert p (set ps) else set ps)"
proof -
  have "c = 1" if "c \<noteq> 0" "\<not> 1 < c" for c :: u64
    using that unfolding word_less_nat_alt word_eq_unat by simp
  then show "avl_search (fst (drop_ref (t, ps) p)) q =
      (if q = p \<and> avl_search t p \<noteq> 0 then avl_search t p - 1 else avl_search t q)"
    "set (snd (drop_ref (t, ps) p)) = (if avl_search t p = 1 then insert p (set ps) else set ps)"
    using ptr_table.lookup_insert [OF assms] ptr_table.lookup_remove [OF assms] by (auto simp: Let_def)
  show "word_table (fst (drop_ref (t, ps) p))"
    using assms ptr_table.invar_insert [OF assms] ptr_table.invar_remove [OF assms] by (simp add: Let_def)
qed

lemma drop_ref_zero: "free_zero x \<Longrightarrow> free_zero (drop_ref x p)"
  using drop_ref_lookup [of "fst x" "snd x" p]
  by (auto simp: free_zero_def split: prod.splits if_splits)

context page_callback
begin

lemma decrement_page_ok:
  assumes ok: "paging_ok s root ps" and p: "page_aligned p" "p \<notin> table_pages s root"
    and zero: "free_zero (page_refcount s, ps)"
  defines "s' \<equiv> decrement_page cb s p"
  shows "page_refcount s' = fst (drop_ref (page_refcount s, ps) p)"
    and "paging_ok s' root (snd (drop_ref (page_refcount s, ps) p))"
    and "mappable w \<Longrightarrow> pte s' root w = pte s root w"
    and "mappable w \<Longrightarrow> l \<le> 3 \<Longrightarrow> table_at s' root w l = table_at s root w l"
    and "table_pages s' root = table_pages s root"
    and "root_map s' = root_map s \<and> root_refcount s' = root_refcount s"
proof -
  let ?c = "avl_search (page_refcount s) p"
  have quiet: "paging_ok u root ps \<and> table_pages u root = table_pages s root \<and>
      (\<forall>w. pte u root w = pte s root w) \<and> (\<forall>w l. table_at u root w l = table_at s root w l)"
    if "\<And>a. phy_read64 u a = phy_read64 s a" "get_last_unused u = get_last_unused s" for u
    using ok tree_reads [of u s root, OF that(1)] table_at_reads [of u s root, OF that(1)]
      free_pages_cong [of s ps u, OF _ that(2,1)] by (simp add: paging_ok_def)
  consider "?c = 0" | "?c \<noteq> 0" "?c > 1" | "?c \<noteq> 0" "\<not> ?c > 1" by blast
  then have "page_refcount s' = fst (drop_ref (page_refcount s, ps) p) \<and>
      paging_ok s' root (snd (drop_ref (page_refcount s, ps) p)) \<and>
      (\<forall>w. mappable w \<longrightarrow> pte s' root w = pte s root w) \<and>
      (\<forall>w l. mappable w \<and> l \<le> 3 \<longrightarrow> table_at s' root w l = table_at s root w l) \<and>
      table_pages s' root = table_pages s root \<and> root_map s' = root_map s \<and> root_refcount s' = root_refcount s"
  proof cases
    case 1
    then show ?thesis using ok by (simp add: s'_def decrement_page_def)
  next
    case 2
    then show ?thesis
      using quiet [of s'] by (simp add: s'_def decrement_page_def Let_def)
  next
    case 3
    define u where "u = (if pagefree_callback s then cb s p else s)"
    define u' where "u' = u\<lparr>page_refcount := fst (avl_remove (page_refcount u) p)\<rparr>"
    have u: "\<And>a. phy_read64 u' a = phy_read64 s a" "get_last_unused u' = get_last_unused s"
      "page_refcount u' = fst (avl_remove (page_refcount s) p)"
      "root_map u' = root_map s" "root_refcount u' = root_refcount s"
      by (simp_all add: u'_def u_def cb_reads cb_free cb_counts cb_roots)
    have s': "s' = kmem_unuse u' p" using 3 by (simp add: s'_def decrement_page_def u'_def u_def Let_def)
    have "p \<notin> set ps" using zero 3 by (auto simp: free_zero_def)
    then have U: "paging_ok (kmem_unuse u' p) root (p # ps)"
      "\<And>w. mappable w \<Longrightarrow> pte (kmem_unuse u' p) root w = pte u' root w"
      "\<And>w l. mappable w \<Longrightarrow> l \<le> 3 \<Longrightarrow> table_at (kmem_unuse u' p) root w l = table_at u' root w l"
      "table_pages (kmem_unuse u' p) root = table_pages u' root"
      using unuse_ok [of u' root ps p] quiet [OF u(1,2)] p by simp_all
    have fields: "page_refcount (kmem_unuse u' p) = page_refcount u'"
      "root_map (kmem_unuse u' p) = root_map u'" "root_refcount (kmem_unuse u' p) = root_refcount u'"
      by (simp_all add: kmem_unuse_def)
    show ?thesis using 3 U quiet [OF u(1,2)] fields u(3-5) by (simp add: s' Let_def)
  qed
  then show "page_refcount s' = fst (drop_ref (page_refcount s, ps) p)"
    "paging_ok s' root (snd (drop_ref (page_refcount s, ps) p))"
    "mappable w \<Longrightarrow> pte s' root w = pte s root w"
    "mappable w \<Longrightarrow> l \<le> 3 \<Longrightarrow> table_at s' root w l = table_at s root w l"
    "table_pages s' root = table_pages s root"
    "root_map s' = root_map s \<and> root_refcount s' = root_refcount s"
    by blast+
qed

end


definition present_frames :: "u64 list \<Rightarrow> u64 list" where
  "present_frames es = map (\<lambda>e. e AND NOT KMEM_FLAG_MASK) (filter (\<lambda>e. e AND 1 \<noteq> 0) es)"

definition range_entries :: "'a kmem_scheme \<Rightarrow> u64 \<Rightarrow> u64 \<Rightarrow> nat \<Rightarrow> u64 list" where
  "range_entries s root a n = map (\<lambda>i. pte s root (nth_page a i)) [0..<n]"

lemma range_entries_Suc:
  "range_entries s root a (Suc n) = pte s root a # range_entries s root (a + 0x1000) n"
  by (simp add: range_entries_def upt_conv_Cons map_Suc_upt [symmetric] nth_page_Suc del: upt_Suc)

lemma range_entries_cong:
  "(\<And>i. i < n \<Longrightarrow> pte s' root (nth_page a i) = pte s root (nth_page a i)) \<Longrightarrow>
   range_entries s' root a n = range_entries s root a n"
  by (simp add: range_entries_def)

lemma present_frames_simps [simp]:
  "present_frames [] = []"
  "present_frames (e # es) = (if e AND 1 \<noteq> 0 then (e AND NOT KMEM_FLAG_MASK) # present_frames es else present_frames es)"
  by (simp_all add: present_frames_def)

text \<open>One round of the unmapping loop.\<close>

definition unmap_page :: "'a freed \<Rightarrow> 'a mman_scheme \<Rightarrow> u64 \<Rightarrow> u64 \<Rightarrow> 'a mman_scheme" where
  "unmap_page cb s root a =
     (let (eaddr, ok) = kmem_paging_addr s root a 3
      in if ok then
           (let entry = phy_read64 s eaddr in
            if entry AND 1 \<noteq> 0 then
              phy_write64 (decrement_page cb s (entry AND NOT KMEM_FLAG_MASK)) eaddr 0
            else s)
         else s)"

lemma unmap_loop_Suc:
  "unmap_loop cb s root a (Suc n) = unmap_loop cb (unmap_page cb s root a) root (a + 0x1000) n"
  by (simp add: unmap_page_def Let_def case_prod_beta)

context page_callback
begin

lemma unmap_page_ok:
  assumes ok: "paging_ok s root ps" and a: "mappable a" and zero: "free_zero (page_refcount s, ps)"
    and data: "\<forall>p \<in> set (present_frames [pte s root a]). p \<notin> table_pages s root"
  defines "s' \<equiv> unmap_page cb s root a" and "x \<equiv> foldl drop_ref (page_refcount s, ps) (present_frames [pte s root a])"
  shows "page_refcount s' = fst x" "paging_ok s' root (snd x)" "free_zero x"
    "mappable w \<Longrightarrow> pte s' root w = (if same_page a w \<and> pte s root w AND 1 \<noteq> 0 then 0 else pte s root w)"
    "table_pages s' root = table_pages s root"
    "root_map s' = root_map s \<and> root_refcount s' = root_refcount s"
proof -
  let ?e = "pte s root a"
  have "page_refcount s' = fst x \<and> paging_ok s' root (snd x) \<and> free_zero x \<and>
    (\<forall>w. mappable w \<longrightarrow> pte s' root w = (if same_page a w \<and> pte s root w AND 1 \<noteq> 0 then 0 else pte s root w)) \<and>
    table_pages s' root = table_pages s root \<and> root_map s' = root_map s \<and> root_refcount s' = root_refcount s"
  proof (cases "?e AND 1 = 0")
    case True
    then have "s' = s"
      by (simp add: s'_def unmap_page_def paging_addr_table pte_table split: option.splits)
    then show ?thesis using True ok zero pte_same_page [of a _ s root] by (auto simp: x_def)
  next
    case False
    then obtain b where b: "table_at s root a 3 = Some b"
      by (auto simp: pte_table split: option.splits)
    let ?p = "?e AND NOT KMEM_FLAG_MASK" and ?eaddr = "b + level_index 3 a * 8"
    have s': "s' = phy_write64 (decrement_page cb s ?p) ?eaddr 0"
      using False b by (simp add: s'_def unmap_page_def paging_addr_table pte_table)
    have x: "x = drop_ref (page_refcount s, ps) ?p" using False by (simp add: x_def)
    have p: "?p \<notin> table_pages s root" using data False by simp
    note D = decrement_page_ok [OF ok frame_aligned p zero]
    have t: "table_at (decrement_page cb s ?p) root a 3 = Some b" using D(4) [OF a, of 3] b by simp
    note W = write_entry_ok [OF D(2) a t] write_leaf_ok(2) [OF D(2) a t]
    show ?thesis
      using D W False drop_ref_zero [OF zero] pte_same_page [of a _ s root]
      unfolding s' x by auto
  qed
  then show "page_refcount s' = fst x" "paging_ok s' root (snd x)" "free_zero x"
    "mappable w \<Longrightarrow> pte s' root w = (if same_page a w \<and> pte s root w AND 1 \<noteq> 0 then 0 else pte s root w)"
    "table_pages s' root = table_pages s root"
    "root_map s' = root_map s \<and> root_refcount s' = root_refcount s"
    by blast+
qed

lemma unmap_loop_ok:
  assumes "paging_ok s root ps" "free_zero (page_refcount s, ps)" "\<And>i. i < n \<Longrightarrow> mappable (nth_page a i)"
    and "n \<le> 2 ^ 36" "\<forall>p \<in> set (present_frames (range_entries s root a n)). p \<notin> table_pages s root"
  shows "let s' = unmap_loop cb s root a n;
      x = foldl drop_ref (page_refcount s, ps) (present_frames (range_entries s root a n))
    in page_refcount s' = fst x \<and> paging_ok s' root (snd x) \<and> free_zero x \<and>
      (\<forall>w. mappable w \<longrightarrow> pte s' root w =
        (if (\<exists>i < n. same_page (nth_page a i) w) \<and> pte s root w AND 1 \<noteq> 0 then 0 else pte s root w)) \<and>
      root_map s' = root_map s \<and> root_refcount s' = root_refcount s"
  using assms
proof (induction n arbitrary: s a ps)
  case 0
  then show ?case by (simp add: range_entries_def)
next
  case (Suc n)
  have a: "mappable a" using Suc.prems(3) [of 0] by simp
  let ?s = "unmap_page cb s root a"
  let ?x = "foldl drop_ref (page_refcount s, ps) (present_frames [pte s root a])"
  have split: "present_frames (range_entries s root a (Suc n)) =
      present_frames [pte s root a] @ present_frames (range_entries s root (a + 0x1000) n)"
    by (simp add: range_entries_Suc)
  have d0: "\<forall>p \<in> set (present_frames [pte s root a]). p \<notin> table_pages s root"
    using Suc.prems(5) unfolding split by auto
  note U = unmap_page_ok [OF Suc.prems(1) a Suc.prems(2) d0]
  have other: "\<not> same_page a (nth_page (a + 0x1000) i)" if "i < n" for i
    using same_page_nth [of 0 "Suc n" "Suc i" a] Suc.prems(4) that by (auto simp: nth_page_Suc)
  have m: "mappable (nth_page (a + 0x1000) i)" if "i < n" for i
    using Suc.prems(3) [of "Suc i"] that by (simp add: nth_page_Suc)
  have r: "range_entries ?s root (a + 0x1000) n = range_entries s root (a + 0x1000) n"
    using U(4) m other by (intro range_entries_cong) auto
  have z: "free_zero (page_refcount ?s, snd ?x)" using U(1,3) by simp
  have d: "\<forall>p \<in> set (present_frames (range_entries ?s root (a + 0x1000) n)). p \<notin> table_pages ?s root"
    using Suc.prems(5) unfolding split r U(5) by auto
  have IH: "let s' = unmap_loop cb ?s root (a + 0x1000) n;
      x = foldl drop_ref (page_refcount ?s, snd ?x) (present_frames (range_entries ?s root (a + 0x1000) n))
    in page_refcount s' = fst x \<and> paging_ok s' root (snd x) \<and> free_zero x \<and>
      (\<forall>w. mappable w \<longrightarrow> pte s' root w =
        (if (\<exists>i < n. same_page (nth_page (a + 0x1000) i) w) \<and> pte ?s root w AND 1 \<noteq> 0 then 0 else pte ?s root w)) \<and>
      root_map s' = root_map ?s \<and> root_refcount s' = root_refcount ?s"
    using Suc.IH [OF U(2) z m _ d] Suc.prems(4) by simp
  have x: "foldl drop_ref (page_refcount s, ps) (present_frames (range_entries s root a (Suc n))) =
      foldl drop_ref (page_refcount ?s, snd ?x) (present_frames (range_entries ?s root (a + 0x1000) n))"
    unfolding split r U(1) by simp
  have ex: "(\<exists>i < Suc n. same_page (nth_page a i) w) \<longleftrightarrow>
      same_page a w \<or> (\<exists>i < n. same_page (nth_page (a + 0x1000) i) w)" for w
    by (auto simp: nth_page_Suc less_Suc_eq_0_disj)
  have "pte (unmap_loop cb ?s root (a + 0x1000) n) root w =
      (if (\<exists>i < Suc n. same_page (nth_page a i) w) \<and> pte s root w AND 1 \<noteq> 0 then 0 else pte s root w)"
    if w: "mappable w" for w
  proof -
    have "pte (unmap_loop cb ?s root (a + 0x1000) n) root w =
        (if (\<exists>i < n. same_page (nth_page (a + 0x1000) i) w) \<and> pte ?s root w AND 1 \<noteq> 0 then 0 else pte ?s root w)"
      using IH w unfolding Let_def by blast
    then show ?thesis unfolding ex U(4) [OF w]
      by (cases "same_page a w"; cases "pte s root w AND 1 = 0"; cases "\<exists>i < n. same_page (nth_page (a + 0x1000) i) w")
        auto
  qed
  then show ?case
    using IH U(6) unfolding Let_def x unmap_loop_Suc by (metis (no_types))
qed

end

text \<open>Without a callback, and with any that keeps to its side, the lemmas hold.\<close>

interpretation no_callback: page_callback "\<lambda>s p. s"
  by unfold_locales simp_all


subsection \<open>Protecting, mapping given pages, asking\<close>

lemma protect_loop_ok:
  assumes "paging_ok s root ps" "\<And>i. i < n \<Longrightarrow> mappable (nth_page a i)" "n \<le> 2 ^ 36"
  shows "let s' = protect_loop s root a flags n in
    paging_ok s' root ps \<and>
    (\<forall>w. mappable w \<longrightarrow> pte s' root w =
      (if (\<exists>i < n. same_page (nth_page a i) w) \<and> pte s root w AND 1 \<noteq> 0
       then pte s root w AND NOT KMEM_FLAG_MASK OR flags else pte s root w)) \<and>
    page_refcount s' = page_refcount s \<and> mman_rest s' = mman_rest s"
  using assms
proof (induction n arbitrary: s a)
  case (Suc n)
  have a: "mappable a" using Suc.prems(2) [of 0] by simp
  let ?s = "(let (eaddr, ok) = kmem_paging_addr s root a 3
      in if ok then
           (let entry = phy_read64 s eaddr in
            if entry AND 1 \<noteq> 0 then phy_write64 s eaddr (entry AND NOT KMEM_FLAG_MASK OR flags) else s)
         else s)"
  have S: "paging_ok ?s root ps \<and>
    (\<forall>w. mappable w \<longrightarrow> pte ?s root w =
      (if same_page a w \<and> pte s root w AND 1 \<noteq> 0 then pte s root w AND NOT KMEM_FLAG_MASK OR flags
       else pte s root w)) \<and> page_refcount ?s = page_refcount s \<and> mman_rest ?s = mman_rest s"
  proof (cases "table_at s root a 3")
    case None
    then have "?s = s" "pte s root a = 0" by (simp_all add: paging_addr_table pte_table)
    then show ?thesis using Suc.prems(1) pte_same_page [of a _ s root] by auto
  next
    case (Some b)
    note W = write_entry_ok [OF Suc.prems(1) a Some]
    have e: "phy_read64 s (b + level_index 3 a * 8) = pte s root a" using Some by (simp add: pte_table)
    show ?thesis
      using W Suc.prems(1) pte_same_page [of a _ s root] Some
      by (auto simp: paging_addr_table e Let_def)
  qed
  have loop: "protect_loop s root a flags (Suc n) = protect_loop ?s root (a + 0x1000) flags n"
    by (simp add: Let_def case_prod_beta)
  have m: "mappable (nth_page (a + 0x1000) i)" if "i < n" for i
    using Suc.prems(2) [of "Suc i"] that by (simp add: nth_page_Suc)
  note IH = Suc.IH [of ?s "a + 0x1000", OF conjunct1 [OF S] m]
  have ex: "(\<exists>i < Suc n. same_page (nth_page a i) w) \<longleftrightarrow>
      same_page a w \<or> (\<exists>i < n. same_page (nth_page (a + 0x1000) i) w)" for w
    by (auto simp: nth_page_Suc less_Suc_eq_0_disj)
  have other: "\<not> (same_page a w \<and> (\<exists>i < n. same_page (nth_page (a + 0x1000) i) w))" for w
    using same_page_nth [of 0 "Suc n" _ a] Suc.prems(3) by (force simp: nth_page_Suc same_page_def)
  have "pte (protect_loop ?s root (a + 0x1000) flags n) root w =
      (if (\<exists>i < Suc n. same_page (nth_page a i) w) \<and> pte s root w AND 1 \<noteq> 0
       then pte s root w AND NOT KMEM_FLAG_MASK OR flags else pte s root w)" if w: "mappable w" for w
  proof -
    have "pte (protect_loop ?s root (a + 0x1000) flags n) root w =
        (if (\<exists>i < n. same_page (nth_page (a + 0x1000) i) w) \<and> pte ?s root w AND 1 \<noteq> 0
         then pte ?s root w AND NOT KMEM_FLAG_MASK OR flags else pte ?s root w)"
      using IH Suc.prems(3) w unfolding Let_def by simp
    moreover have "pte ?s root w = (if same_page a w \<and> pte s root w AND 1 \<noteq> 0
        then pte s root w AND NOT KMEM_FLAG_MASK OR flags else pte s root w)" using S w by blast
    ultimately show ?thesis using other [of w] unfolding ex
      by (cases "same_page a w"; cases "\<exists>i < n. same_page (nth_page (a + 0x1000) i) w") auto
  qed
  then show ?case using IH S Suc.prems(3) unfolding Let_def [of "protect_loop s root a flags (Suc n)"] loop
    by (simp add: Let_def)
qed simp

lemma any_mapped_entries:
  "any_mapped_loop s root a n = (if \<exists>i < n. pte s root (nth_page a i) AND 1 \<noteq> 0 then 1 else 0)"
proof (induction n arbitrary: a)
  case (Suc n)
  have "(\<exists>i < Suc n. pte s root (nth_page a i) AND 1 \<noteq> 0) \<longleftrightarrow>
      pte s root a AND 1 \<noteq> 0 \<or> (\<exists>i < n. pte s root (nth_page (a + 0x1000) i) AND 1 \<noteq> 0)"
    by (auto simp: nth_page_Suc less_Suc_eq_0_disj)
  then show ?case using Suc by (simp add: paging_addr_table pte_table split: option.splits)
qed simp

lemma all_mapped_entries:
  "all_mapped_loop s root a n = (if \<forall>i < n. pte s root (nth_page a i) AND 1 \<noteq> 0 then 1 else 0)"
proof (induction n arbitrary: a)
  case (Suc n)
  have "(\<forall>i < Suc n. pte s root (nth_page a i) AND 1 \<noteq> 0) \<longleftrightarrow>
      pte s root a AND 1 \<noteq> 0 \<and> (\<forall>i < n. pte s root (nth_page (a + 0x1000) i) AND 1 \<noteq> 0)"
    by (auto simp: nth_page_Suc less_Suc_eq_0_disj)
  then show ?case using Suc by (simp add: paging_addr_table pte_table split: option.splits)
qed simp


subsection \<open>Dropping what was taken\<close>

lemma drop_refs_once:
  "word_table t \<Longrightarrow> distinct pages \<Longrightarrow> \<forall>p \<in> set pages. avl_search t p = 1 \<Longrightarrow>
   let x = foldl drop_ref (t, qs) pages in snd x = rev pages @ qs \<and> word_table (fst x) \<and>
     (\<forall>q. avl_search (fst x) q = (if q \<in> set pages then 0 else avl_search t q))"
proof (induction pages arbitrary: t qs)
  case (Cons p pages)
  obtain t1 where t1: "drop_ref (t, qs) p = (t1, p # qs)" using Cons.prems(3) by (auto simp: Let_def)
  have w: "word_table t1" and l: "avl_search t1 q = (if q = p then 0 else avl_search t q)" for q
    using drop_ref_lookup(1,2) [OF Cons.prems(1), of qs p] Cons.prems(3) unfolding t1 by auto
  have "\<forall>q \<in> set pages. avl_search t1 q = 1" using l Cons.prems(2,3) by auto
  from Cons.IH [OF w _ this, of "p # qs"] Cons.prems(2) l show ?case
    unfolding foldl_Cons t1 Let_def by auto
qed simp

lemma data_frames:
  assumes "\<forall>p \<in> set pages. p AND KMEM_FLAG_MASK = 0"
  shows "present_frames (map (\<lambda>p. p OR KMEM_MAP_DATA) pages) = pages"
  using assms by (induction pages) (simp_all add: data_present data_frame)

section \<open>Properties\<close>

text \<open>A memory manager to evaluate on: root 7 is the empty table at 0x1000, eight pages are free.\<close>

lemma all_less_two: "(\<forall>i < 2. P i) \<longleftrightarrow> P 0 \<and> P (1 :: nat)"
  by (auto simp: less_2_cases_iff)

definition example_pages :: "u64 list" where
  "example_pages = map (\<lambda>i. of_nat i * 0x1000) [2..<10]"

definition example_mman :: mman where
  "example_mman = foldl kmem_unuse
     \<lparr>vmem = (\<lambda>_. 0), temp_last = 0, kmem_base_word = 0, last_unused = AtTempLast, cr3_register = 0x1000,
      root_map = fst (avl_insert (avl_initialize avl_ptrcmp False) 7 0x1000),
      root_refcount = avl_initialize avl_ptrcmp False, page_refcount = avl_initialize avl_ptrcmp False,
      this_root_id = 7, pagefree_callback = False, next_id = 8\<rparr> (rev example_pages)"

lemma unuse_fields [simp]:
  "root_map (kmem_unuse s p) = root_map s" "page_refcount (kmem_unuse s p) = page_refcount s"
  "root_refcount (kmem_unuse s p) = root_refcount s" "pagefree_callback (kmem_unuse s p) = pagefree_callback s"
  by (simp_all add: kmem_unuse_def)

lemma unuse_list_fields:
  "root_map (foldl kmem_unuse s ps) = root_map s" "page_refcount (foldl kmem_unuse s ps) = page_refcount s"
  by (induction ps arbitrary: s) simp_all

lemma unuse_list_read:
  assumes "\<forall>p \<in> set ps. page_aligned p" "page_aligned b" "b \<notin> set ps" "unat i < 512"
  shows "phy_read64 (foldl kmem_unuse s ps) (b + i * 8) = phy_read64 s (b + i * 8)"
  using assms by (induction ps arbitrary: s) (auto simp: unuse_read)

lemma example_pages_ok:
  "distinct example_pages" "\<forall>p \<in> set example_pages. page_aligned p" "0x1000 \<notin> set example_pages"
  "length example_pages = 8"
  by (simp_all add: example_pages_def upt_conv_Cons page_aligned_def)

lemma example_mman_ok:
  "pte example_mman 0x1000 v = 0"
  "paging_ok example_mman 0x1000 example_pages" "avl_search (root_map example_mman) 7 = 0x1000"
  "free_zero (page_refcount example_mman, example_pages)" "pagefree_callback example_mman = False"
  "table_pages example_mman 0x1000 = {0x1000}"
proof -
  let ?s = "\<lparr>vmem = (\<lambda>_. 0), temp_last = 0, kmem_base_word = 0, last_unused = AtTempLast, cr3_register = 0x1000,
      root_map = fst (avl_insert (avl_initialize avl_ptrcmp False) 7 0x1000),
      root_refcount = avl_initialize avl_ptrcmp False, page_refcount = avl_initialize avl_ptrcmp False,
      this_root_id = 7, pagefree_callback = False, next_id = 8\<rparr> :: mman"
  have r: "page_aligned 0x1000" by (simp add: page_aligned_def)
  have zero: "phy_read64 ?s a = 0" for a
    using phy_read64_empty [of a] by (simp add: phy_read64_def empty_kmem_def)
  have "phy_read64 example_mman (0x1000 + i * 8) = 0" if "unat i < 512" for i
    using unuse_list_read [of "rev example_pages" "0x1000" i ?s] that example_pages_ok r zero
    by (simp add: example_mman_def)
  then have t: "tree_ok example_mman 0x1000" "table_pages example_mman 0x1000 = {0x1000}"
    and pz: "\<And>v. pte example_mman 0x1000 v = 0"
    using empty_table_ok [OF r, of example_mman] by (auto simp: pte_table)
  show "pte example_mman 0x1000 v = 0" by (rule pz)
  show "table_pages example_mman 0x1000 = {0x1000}" by (rule t)
  have "free_pages ?s []" by (simp add: free_pages_def)
  from free_list.pushes [OF this, of "rev example_pages"] example_pages_ok
  have "free_pages example_mman example_pages" by (simp add: example_mman_def)
  then show "paging_ok example_mman 0x1000 example_pages"
    using t example_pages_ok(3) by (simp add: paging_ok_def)
  have "root_map ?s = fst (avl_insert (avl_initialize avl_ptrcmp False) 7 0x1000)" by simp
  then show "avl_search (root_map example_mman) 7 = 0x1000"
    using ptr_table.lookup_insert_same [OF avl_invar_initialize, where k = 7 and v = "0x1000"]
    by (simp add: example_mman_def unuse_list_fields)
  show "free_zero (page_refcount example_mman, example_pages)"
    by (simp add: free_zero_def example_mman_def unuse_list_fields avl_invar_initialize)
      (simp add: avl_search_def avl_initialize_def)
  have "pagefree_callback (foldl kmem_unuse s ps) = pagefree_callback s" for s :: mman and ps
    by (induction ps arbitrary: s) simp_all
  then show "pagefree_callback example_mman = False" by (simp add: example_mman_def)
qed

text \<open>
  C2: \<^verbatim>\<open>mman_anonymous\<close> backs every page of the range with a page of its own.  With four free
  pages for each, it returns 0; the pages of the range map distinct pages taken off the free
  list, readable and writable and not executable, and no other entry changes; every page it
  took, for data and for tables, has one more reference, and what is left of the free list is
  the rest of it.
\<close>

theorem mman_anonymous_maps:
  assumes "avl_search (root_map s) root_id = root" "root \<noteq> 0" "page_aligned a" "page_aligned sz"
    and "paging_ok s root ps" "word_table (page_refcount s)" "n = unat sz div 4096" "4 * n \<le> length ps" "n \<le> 2 ^ 36"
    and "\<forall>i < n. mappable (nth_page a i)"
  shows "\<exists>s' pages k. mman_anonymous s root_id a sz = (s', 0) \<and>
    length pages = n \<and> distinct pages \<and> set pages \<subseteq> set (take k ps) \<and> k \<le> 4 * n \<and>
    (\<forall>i < n. pte s' root (nth_page a i) = pages ! i OR KMEM_MAP_DATA) \<and>
    (\<forall>w. mappable w \<and> (\<forall>i < n. \<not> same_page (nth_page a i) w) \<longrightarrow> pte s' root w = pte s root w) \<and>
    (\<forall>p. page_count s' p = (if p \<in> set (take k ps) then page_count s p + 1 else page_count s p)) \<and>
    paging_ok s' root (drop k ps)"
proof -
  have "distinct ps" using assms(5) by (simp add: paging_ok_def free_pages_def)
  then have "avl_search (foldl count_page (page_refcount s) (take k ps)) p =
      (if p \<in> set (take k ps) then page_count s p + 1 else page_count s p)" for k p
    using count_pages_distinct [OF assms(6)] by simp
  moreover have "mman_anonymous s root_id a sz = (anonymous_loop s root a n, 0)"
    using assms by (simp add: mman_anonymous_def page_aligned_def)
  moreover obtain pages k where "length pages = n" "k \<le> 4 * n" "distinct pages" "set pages \<subseteq> set (take k ps)"
    "paging_ok (anonymous_loop s root a n) root (drop k ps)"
    "\<forall>i < n. pte (anonymous_loop s root a n) root (nth_page a i) = pages ! i OR KMEM_MAP_DATA"
    "\<forall>w. mappable w \<and> (\<forall>i < n. \<not> same_page (nth_page a i) w) \<longrightarrow>
      pte (anonymous_loop s root a n) root w = pte s root w"
    "page_refcount (anonymous_loop s root a n) = foldl count_page (page_refcount s) (take k ps)"
    using anonymous_loop_ok [OF assms(5,8) _ assms(9), of a] assms(10) unfolding Let_def by blast
  ultimately show ?thesis
    by (intro exI [of _ "anonymous_loop s root a n"] exI [of _ pages] exI [of _ k]) simp
qed

theorem mman_anonymous_maps_witness:
  "\<exists>s' p q. mman_anonymous example_mman 7 0x400000 0x2000 = (s', 0) \<and> p \<noteq> q \<and>
    pte s' 0x1000 0x400000 = p OR KMEM_MAP_DATA \<and> pte s' 0x1000 0x401000 = q OR KMEM_MAP_DATA"
proof -
  have m: "\<forall>i < 2. mappable (nth_page 0x400000 i)"
    by (simp add: all_less_two nth_page_def mappable_def level_index_def drop_bit_eq_div)
  have t: "word_table (page_refcount example_mman)" using example_mman_ok(4) by (simp add: free_zero_def)
  have a: "page_aligned 0x400000" "page_aligned 0x2000" "(0x1000 :: u64) \<noteq> 0" "2 = unat (0x2000 :: u64) div 4096"
    by (simp_all add: page_aligned_def)
  have len: "4 * 2 \<le> length example_pages" "(2 :: nat) \<le> 2 ^ 36" using example_pages_ok(4) by simp_all
  obtain s' pages where "mman_anonymous example_mman 7 0x400000 0x2000 = (s', 0)" "length pages = 2"
    "distinct pages" "\<forall>i < 2. pte s' 0x1000 (nth_page 0x400000 i) = pages ! i OR KMEM_MAP_DATA"
    using mman_anonymous_maps [OF example_mman_ok(3) a(3,1,2) example_mman_ok(2) t a(4) len m] by blast
  moreover from this(2) obtain p q where "pages = [p, q]"
    by (auto simp: numeral_2_eq_2 length_Suc_conv)
  ultimately show ?thesis
    by (intro exI [of _ s'] exI [of _ p] exI [of _ q]) (simp add: all_less_two nth_page_def)
qed

text \<open>
  C7: \<^verbatim>\<open>mman_unmap\<close> clears the entries of the range that were present and no other, and drops
  one reference for each: a page whose last reference goes is pushed on the free list, in the
  order of the range, and no free page is ever referenced.  The page-free callback may be any
  that leaves memory and the manager's tables alone.
\<close>

theorem mman_unmap_drops:
  assumes "page_callback cb" "avl_search (root_map s) root_id = root" "root \<noteq> 0" "page_aligned a" "page_aligned sz"
    and "paging_ok s root ps" "free_zero (page_refcount s, ps)" "n = unat sz div 4096" "n \<le> 2 ^ 36"
    and "\<forall>i < n. mappable (nth_page a i)"
    and "\<forall>p \<in> set (present_frames (range_entries s root a n)). p \<notin> table_pages s root"
  shows "\<exists>s' x. mman_unmap cb s root_id a sz = (s', 0) \<and>
    x = foldl drop_ref (page_refcount s, ps) (present_frames (range_entries s root a n)) \<and>
    page_refcount s' = fst x \<and> paging_ok s' root (snd x) \<and> free_zero x \<and>
    (\<forall>w. mappable w \<longrightarrow> pte s' root w =
       (if (\<exists>i < n. same_page (nth_page a i) w) \<and> pte s root w AND 1 \<noteq> 0 then 0 else pte s root w))"
proof -
  have "mman_unmap cb s root_id a sz = (unmap_loop cb s root a n, 0)"
    using assms(2-5,8) by (simp add: mman_unmap_def page_aligned_def)
  then show ?thesis
    using page_callback.unmap_loop_ok [OF assms(1,6,7) _ assms(9,11)] assms(10) unfolding Let_def by blast
qed

theorem mman_unmap_drops_witness:
  "\<exists>s'. mman_unmap (\<lambda>s p. s) example_mman 7 0x400000 0x1000 = (s', 0) \<and> paging_ok s' 0x1000 example_pages"
proof -
  have r: "page_aligned 0x1000" "page_aligned 0x400000" "(0x1000 :: u64) \<noteq> 0" "1 = unat (0x1000 :: u64) div 4096"
    by (simp_all add: page_aligned_def)
  have zero: "pte example_mman 0x1000 0x400000 = 0"
    by (rule example_mman_ok(1))
  have e: "present_frames (range_entries example_mman 0x1000 0x400000 1) = []"
    by (simp add: range_entries_def zero)
  have m: "\<forall>i < 1. mappable (nth_page 0x400000 i)"
    by (simp add: nth_page_def mappable_def level_index_def drop_bit_eq_div)
  show ?thesis
    using mman_unmap_drops [OF no_callback.page_callback_axioms example_mman_ok(3) r(3,2,1) example_mman_ok(2,4) r(4) _ m]
    unfolding e by auto
qed

text \<open>
  C32: mapping anonymous memory and unmapping it again gives the pages back: the range is
  unmapped, every other entry is as it was, the pages are on the free list again, unreferenced,
  and only the tables that had to be created stay referenced.
\<close>

theorem mman_anonymous_unmap:
  assumes "page_callback cb" "avl_search (root_map s) root_id = root" "root \<noteq> 0" "page_aligned a" "page_aligned sz"
    and "paging_ok s root ps" "free_zero (page_refcount s, ps)" "n = unat sz div 4096" "4 * n \<le> length ps" "n \<le> 2 ^ 36"
    and "\<forall>i < n. mappable (nth_page a i)" "\<forall>p \<in> set ps. p AND KMEM_FLAG_MASK = 0"
  shows "\<exists>pages k. length pages = n \<and> distinct pages \<and> set pages \<subseteq> set (take k ps) \<and>
    (let s' = fst (mman_unmap cb (fst (mman_anonymous s root_id a sz)) root_id a sz) in
      paging_ok s' root (rev pages @ drop k ps) \<and>
      (\<forall>w. mappable w \<longrightarrow> pte s' root w = (if \<exists>i < n. same_page (nth_page a i) w then 0 else pte s root w)) \<and>
      (\<forall>p. page_count s' p = (if p \<in> set (take k ps) - set pages then page_count s p + 1 else page_count s p)))"
proof -
  let ?s = "anonymous_loop s root a n"
  obtain pages k where P: "length pages = n" "k \<le> 4 * n" "distinct pages" "set pages \<subseteq> set (take k ps)"
    "paging_ok ?s root (drop k ps)"
    "\<forall>i < n. pte ?s root (nth_page a i) = pages ! i OR KMEM_MAP_DATA"
    "\<forall>w. mappable w \<and> (\<forall>i < n. \<not> same_page (nth_page a i) w) \<longrightarrow> pte ?s root w = pte s root w"
    "page_refcount ?s = foldl count_page (page_refcount s) (take k ps)" "mman_rest ?s = mman_rest s"
    "table_pages ?s root \<subseteq> table_pages s root \<union> (set (take k ps) - set pages)"
    using anonymous_loop_ok [OF assms(6,9) _ assms(10), of a] assms(11) unfolding Let_def by blast
  have t: "word_table (page_refcount s)" and zero: "\<forall>p \<in> set ps. page_count s p = 0"
    using assms(7) by (auto simp: free_zero_def)
  have dist: "distinct (take k ps @ drop k ps)" using assms(6) by (simp add: paging_ok_def free_pages_def)
  have t': "word_table (page_refcount ?s)" using count_pages_lookup [OF t] by (simp add: P(8))
  have count: "page_count ?s p = (if p \<in> set (take k ps) then page_count s p + 1 else page_count s p)" for p
    using count_pages_distinct [OF t, of "take k ps"] dist by (simp add: P(8))
  have sub: "set (take k ps) \<subseteq> set ps" "set (drop k ps) \<subseteq> set ps" by (simp_all add: set_take_subset set_drop_subset)
  have zero': "free_zero (page_refcount ?s, drop k ps)"
    using t' zero count sub dist unfolding distinct_append by (auto simp: free_zero_def)
  have "range_entries ?s root a n = map (\<lambda>p. p OR KMEM_MAP_DATA) pages"
    using P(1,6) by (intro nth_equalityI) (auto simp: range_entries_def)
  then have f: "present_frames (range_entries ?s root a n) = pages"
    using data_frames [of pages] assms(12) P(4) sub by auto
  have nt: "\<forall>p \<in> set pages. p \<notin> table_pages ?s root"
    using P(4,10) assms(6) sub by (fastforce simp: paging_ok_def)
  have one: "\<forall>p \<in> set pages. page_count ?s p = 1" using count zero P(4) sub by auto
  note X = drop_refs_once [OF t' P(3) one, of "drop k ps"]
  let ?s' = "unmap_loop cb ?s root a n"
  have U: "page_refcount ?s' = fst (foldl drop_ref (page_refcount ?s, drop k ps) pages)"
    "paging_ok ?s' root (snd (foldl drop_ref (page_refcount ?s, drop k ps) pages))"
    "\<forall>w. mappable w \<longrightarrow> pte ?s' root w =
       (if (\<exists>i < n. same_page (nth_page a i) w) \<and> pte ?s root w AND 1 \<noteq> 0 then 0 else pte ?s root w)"
    using page_callback.unmap_loop_ok [OF assms(1) P(5) zero', of n a] assms(10,11) nt f
    unfolding Let_def by auto
  have "root_map ?s = root_map s" using P(9) by (simp add: mman_rest_def)
  then have run: "fst (mman_unmap cb (fst (mman_anonymous s root_id a sz)) root_id a sz) = ?s'"
    using assms(2-5,8) by (simp add: mman_unmap_def mman_anonymous_def page_aligned_def)
  have ptes: "pte ?s' root w = (if \<exists>i < n. same_page (nth_page a i) w then 0 else pte s root w)" if w: "mappable w" for w
  proof (cases "\<exists>i < n. same_page (nth_page a i) w")
    case True
    then obtain i where i: "i < n" "same_page (nth_page a i) w" by blast
    then have "pte ?s root w AND 1 \<noteq> 0" using P(6) pte_same_page [OF i(2)] data_present by metis
    then show ?thesis using U(3) w True by auto
  next
    case False
    then show ?thesis using U(3) P(7) w by auto
  qed
  have "page_count ?s' p = (if p \<in> set (take k ps) - set pages then page_count s p + 1 else page_count s p)" for p
    using X U(1) count [of p] zero P(4) sub unfolding Let_def by auto
  then show ?thesis
    using P(1,3,4) U(2) X ptes unfolding run Let_def by (intro exI [of _ pages] exI [of _ k]) auto
qed

theorem mman_anonymous_unmap_witness:
  "\<exists>p k. paging_ok (fst (mman_unmap (\<lambda>s p. s) (fst (mman_anonymous example_mman 7 0x400000 0x1000)) 7 0x400000 0x1000))
     0x1000 (p # drop k example_pages)"
proof -
  have r: "page_aligned 0x1000" "page_aligned 0x400000" "(0x1000 :: u64) \<noteq> 0" "1 = unat (0x1000 :: u64) div 4096"
    by (simp_all add: page_aligned_def)
  have m: "\<forall>i < 1. mappable (nth_page 0x400000 i)"
    by (simp add: nth_page_def mappable_def level_index_def drop_bit_eq_div)
  have f: "\<forall>p \<in> set example_pages. p AND KMEM_FLAG_MASK = 0"
    by (simp add: example_pages_def upt_conv_Cons KMEM_FLAG_MASK_def)
  have len: "4 * 1 \<le> length example_pages" "(1 :: nat) \<le> 2 ^ 36" using example_pages_ok(4) by simp_all
  obtain pages k where "length pages = 1"
    "paging_ok (fst (mman_unmap (\<lambda>s p. s) (fst (mman_anonymous example_mman 7 0x400000 0x1000)) 7 0x400000 0x1000))
      0x1000 (rev pages @ drop k example_pages)"
    using mman_anonymous_unmap [OF no_callback.page_callback_axioms example_mman_ok(3) r(3,2,1) example_mman_ok(2,4) r(4) len m f]
    unfolding Let_def by blast
  moreover from this(1) obtain p where "pages = [p]" by (auto simp: length_Suc_conv)
  ultimately show ?thesis by auto
qed

text \<open>
  \<^verbatim>\<open>mman_physical\<close> takes no reference on the page it maps, but \<^verbatim>\<open>mman_unmap\<close> drops one:
  a page that one address space owns, mapped by its physical address into another and unmapped
  there, goes to the free list although its owner still has it mapped.
\<close>

theorem mman_physical_unmap_frees:
  assumes "page_callback cb" "avl_search (root_map s) root_id = root" "root \<noteq> 0" "page_aligned a" "mappable a"
    and "paging_ok s root ps" "free_zero (page_refcount s, ps)" "3 \<le> length ps"
    and "page_aligned p" "p AND KMEM_FLAG_MASK = 0" "p \<notin> table_pages s root" "page_count s p = 1"
  shows "\<exists>m. free_pages (fst (mman_unmap cb (fst (mman_physical s root_id a p 0x1000)) root_id a 0x1000)) (p # drop m ps)"
proof -
  obtain s1 b m where C: "mman_paging_addr_create s root a 3 = (s1, b + level_index 3 a * 8)"
    "m \<le> 3" "paging_ok s1 root (drop m ps)" "grown root (take m ps) s s1" "table_at s1 root a 3 = Some b"
    "page_refcount s1 = foldl count_page (page_refcount s) (take m ps)" "mman_rest s1 = mman_rest s"
    using mman_create [OF assms(6,5,8)] by blast
  let ?s2 = "phy_write64 s1 (b + level_index 3 a * 8) (p OR KMEM_MAP_DATA)"
  note W = write_entry_ok [OF C(3) assms(5) C(5), where e = "p OR KMEM_MAP_DATA"]
    write_leaf_ok(2) [OF C(3) assms(5) C(5), where e = "p OR KMEM_MAP_DATA"]
  have t: "word_table (page_refcount s)" and zero: "\<forall>q \<in> set ps. page_count s q = 0"
    using assms(7) by (auto simp: free_zero_def)
  have dist: "distinct (take m ps @ drop m ps)" using assms(6) by (simp add: paging_ok_def free_pages_def)
  have pn: "p \<notin> set ps" using zero assms(12) by auto
  then have pm: "p \<notin> set (take m ps)" using set_take_subset [of m ps] by blast
  have count: "page_count ?s2 q = (if q \<in> set (take m ps) then page_count s q + 1 else page_count s q)" for q
    using count_pages_distinct [OF t, of "take m ps" q] dist by (simp add: C(6))
  have "word_table (page_refcount ?s2)" using count_pages_lookup [OF t] by (simp add: C(6))
  then have zero': "free_zero (page_refcount ?s2, drop m ps)"
    using zero count dist set_drop_subset [of m ps] unfolding distinct_append by (auto simp: free_zero_def)
  have "pte ?s2 root a = p OR KMEM_MAP_DATA" using W(2) [OF assms(5)] by (simp add: same_page_def)
  then have f: "present_frames (range_entries ?s2 root a 1) = [p]"
    by (simp add: range_entries_def data_present data_frame [OF assms(10)])
  have nt: "p \<notin> table_pages ?s2 root" using W(3) C(4) assms(11) pm by (auto simp: grown_def)
  have drop: "snd (foldl drop_ref (page_refcount ?s2, drop m ps) [p]) = p # drop m ps"
    using count [of p] pm assms(12) by (simp add: Let_def)
  have "paging_ok (unmap_loop cb ?s2 root a 1) root (snd (foldl drop_ref (page_refcount ?s2, drop m ps) [p]))"
    using page_callback.unmap_loop_ok [OF assms(1) W(1) zero', of 1 a] f nt assms(5)
    unfolding Let_def by (simp del: unmap_loop.simps)
  then have "free_pages (unmap_loop cb ?s2 root a 1) (p # drop m ps)" unfolding drop by (simp add: paging_ok_def)
  moreover have "root_map ?s2 = root_map s" using C(7) by (simp add: mman_rest_def)
  moreover have "physical_loop s root a p 1 = ?s2" using C(1) by (simp add: numeral_1_eq_Suc_0 Let_def)
  ultimately show ?thesis
    using assms(2-4,9) by (intro exI [of _ m])
      (simp add: mman_unmap_def mman_physical_def page_aligned_def del: unmap_loop.simps physical_loop.simps)
qed

definition example_owned :: mman where
  "example_owned = increment_page example_mman 0x77000"

theorem mman_physical_unmap_frees_witness:
  "\<exists>m. free_pages (fst (mman_unmap (\<lambda>s p. s) (fst (mman_physical example_owned 7 0x400000 0x77000 0x1000)) 7 0x400000 0x1000))
     (0x77000 # drop m example_pages)"
proof -
  have t: "word_table (page_refcount example_mman)" using example_mman_ok(4) by (simp add: free_zero_def)
  have "0x77000 \<notin> set example_pages" by (simp add: example_pages_def upt_conv_Cons)
  then have z: "free_zero (page_refcount example_owned, example_pages)"
    using example_mman_ok(4) count_page_lookup [OF t, of "0x77000"] by (auto simp: free_zero_def example_owned_def)
  have r: "root_map example_owned = root_map example_mman"
    by (simp add: example_owned_def increment_page_def Let_def)
  have none: "page_count example_mman 0x77000 = 0"
    by (simp add: example_mman_def unuse_list_fields) (simp add: avl_search_def avl_initialize_def)
  have one: "page_count example_owned 0x77000 = 1"
    using count_page_lookup(2) [OF t, of "0x77000" "0x77000"] none by (simp add: example_owned_def)
  have tp: "table_pages example_owned 0x1000 = {0x1000}"
    by (simp add: example_owned_def tree_reads(2) [OF counted.hook_reads] example_mman_ok(6))
  have p: "paging_ok example_owned 0x1000 example_pages" using example_mman_ok(2) by (simp add: example_owned_def)
  show ?thesis
    by (rule mman_physical_unmap_frees [OF no_callback.page_callback_axioms _ _ _ _ p z])
      (simp_all add: r example_mman_ok one tp example_pages_ok page_aligned_def KMEM_FLAG_MASK_def
        mappable_def level_index_def drop_bit_eq_div)
qed

text \<open>
  \<^verbatim>\<open>mman_check_all_mapped\<close> and \<^verbatim>\<open>mman_check_any_mapped\<close> say whether all, or any, of the
  pages of a range have a present entry, for any range of whole pages of a known root.
\<close>

theorem mman_check_mapped:
  assumes "avl_search (root_map s) root_id = root" "root \<noteq> 0" "page_aligned a" "page_aligned sz" "n = unat sz div 4096"
  shows "mman_check_all_mapped s root_id a sz = (if \<forall>i < n. pte s root (nth_page a i) AND 1 \<noteq> 0 then 1 else 0) \<and>
    mman_check_any_mapped s root_id a sz = (if \<exists>i < n. pte s root (nth_page a i) AND 1 \<noteq> 0 then 1 else 0)"
  using assms by (simp add: mman_check_all_mapped_def mman_check_any_mapped_def page_aligned_def
      all_mapped_entries any_mapped_entries)

theorem mman_check_mapped_witness:
  "mman_check_all_mapped example_mman 7 0x400000 0x1000 = 0 \<and> mman_check_any_mapped example_mman 7 0x400000 0x2000 = 0"
proof -
  have r: "page_aligned 0x1000" "page_aligned 0x2000" "page_aligned 0x400000" "(0x1000 :: u64) \<noteq> 0"
    "1 = unat (0x1000 :: u64) div 4096" "2 = unat (0x2000 :: u64) div 4096"
    by (simp_all add: page_aligned_def)
  show ?thesis
    using mman_check_mapped [OF example_mman_ok(3) r(4,3,1,5)] mman_check_mapped [OF example_mman_ok(3) r(4,3,2,6)]
    by (simp add: example_mman_ok(1))
qed

text \<open>
  \<^verbatim>\<open>mman_protect\<close> replaces the flags of the present pages of the range, whatever flags are
  given, and changes no other entry, no count and no free page.
\<close>

theorem mman_protect_flags:
  assumes "avl_search (root_map s) root_id = root" "root \<noteq> 0" "page_aligned a" "page_aligned sz"
    and "paging_ok s root ps" "n = unat sz div 4096" "n \<le> 2 ^ 36" "\<forall>i < n. mappable (nth_page a i)"
  shows "\<exists>s'. mman_protect s root_id a sz flags = (s', 0) \<and> paging_ok s' root ps \<and>
    page_refcount s' = page_refcount s \<and>
    (\<forall>w. mappable w \<longrightarrow> pte s' root w =
      (if (\<exists>i < n. same_page (nth_page a i) w) \<and> pte s root w AND 1 \<noteq> 0
       then pte s root w AND NOT KMEM_FLAG_MASK OR flags else pte s root w))"
proof -
  have "mman_protect s root_id a sz flags = (protect_loop s root a flags n, 0)"
    using assms by (simp add: mman_protect_def page_aligned_def)
  then show ?thesis
    using protect_loop_ok [OF assms(5) _ assms(7), of a flags] assms(8) unfolding Let_def by blast
qed

theorem mman_protect_flags_witness:
  "\<exists>s'. mman_protect example_mman 7 0x400000 0x1000 5 = (s', 0) \<and> pte s' 0x1000 0x400000 = 0"
proof -
  have r: "page_aligned 0x1000" "page_aligned 0x400000" "(0x1000 :: u64) \<noteq> 0" "1 = unat (0x1000 :: u64) div 4096"
    by (simp_all add: page_aligned_def)
  have m: "\<forall>i < 1. mappable (nth_page 0x400000 i)" "mappable 0x400000"
    by (simp_all add: nth_page_def mappable_def level_index_def drop_bit_eq_div)
  show ?thesis
    using mman_protect_flags [OF example_mman_ok(3) r(3,2,1) example_mman_ok(2) r(4) _ m(1), of 5] m(2)
      example_mman_ok(1) by fastforce
qed

text \<open>
  on an unknown root, or an address or size that is not a multiple of the page size, every
  one of the operations reports an error and changes nothing.
\<close>

theorem mman_bad_arguments:
  assumes "avl_search (root_map s) root_id = 0 \<or> a AND 0xfff \<noteq> 0 \<or> sz AND 0xfff \<noteq> 0"
  shows "mman_anonymous s root_id a sz = (s, -1) \<and> mman_physical s root_id a pa sz = (s, -1) \<and>
    mman_unmap cb s root_id a sz = (s, -1) \<and> mman_protect s root_id a sz flags = (s, -1) \<and>
    mman_check_all_mapped s root_id a sz = -1 \<and> mman_check_any_mapped s root_id a sz = -1 \<and>
    fst (mman_mirror s root_id a sroot_id sa sz) = s \<and> snd (mman_mirror s root_id a sroot_id sa sz) \<noteq> 0"
  using assms by (auto simp: mman_anonymous_def mman_physical_def mman_unmap_def mman_protect_def
      mman_check_all_mapped_def mman_check_any_mapped_def mman_mirror_def Let_def)

theorem mman_bad_arguments_witness:
  "mman_anonymous example_mman 7 0x400010 0x1000 = (example_mman, -1)"
  using mman_bad_arguments [of example_mman 7 "0x400010" "0x1000"] by simp

end
