(* ===== verification/Sched_Mirror.thy ===== *)
theory Sched_Mirror
  imports Sched_Mman
begin

text \<open>
  Two address spaces at once: what mapping into one does to the other, and \<^verbatim>\<open>mman_mirror\<close>, which
  makes one space share the pages of another.  Address spaces share tables: every root that
  \<^verbatim>\<open>kmem_create_root\<close> makes points to the same last-level tables for the task table, the
  descriptors, the memory manager and the status page.  \<open>apart\<close> says that nothing else is shared.
\<close>

section \<open>Another root\<close>

definition apart :: "'a kmem_scheme \<Rightarrow> u64 \<Rightarrow> u64 \<Rightarrow> u64 list \<Rightarrow> bool" where
  "apart s root other ps \<longleftrightarrow> paging_ok s root ps \<and> tree_ok s other \<and> set ps \<inter> table_pages s other = {} \<and>
     (\<forall>c \<in> table_pages s root \<inter> table_pages s other. \<exists>w. mappable w \<and> table_at s root w 3 = Some c)"

text \<open>The address has a last-level table of its own, or none yet.\<close>

definition own_leaf :: "'a kmem_scheme \<Rightarrow> u64 \<Rightarrow> u64 \<Rightarrow> u64 \<Rightarrow> bool" where
  "own_leaf s root other a \<longleftrightarrow> (case table_at s root a 3 of None \<Rightarrow> True | Some b \<Rightarrow> b \<notin> table_pages s other)"

text \<open>An address with the path of another and a given last index.\<close>

lemma leaf_address:
  assumes "unat i < 512"
  obtains w' where "same_path 3 w w'" "level_index 3 w' = i"
proof -
  define w' where "w' = (w AND NOT (push_bit 12 0x1ff)) OR push_bit 12 (i AND 0x1ff)"
  have k: "(0x1ff :: u64) = mask 9" by (simp add: mask_eq_exp_minus_1)
  have i: "i AND mask 9 = i"
    using assms by (simp add: word_eq_unat and_mask_unat)
  have bit_i: "bit i n \<Longrightarrow> n < 9" for n
    using arg_cong [OF i, of "\<lambda>x. bit x n"] by (simp add: bit_simps)
  have "level_index 3 w' = i"
    using bit_i unfolding w'_def k i
    by (intro bit_word_eqI) (force simp: level_index_bit bit_simps)
  moreover have "same_path 3 w w'"
    unfolding same_path_def w'_def k i
    by (intro allI impI bit_word_eqI) (auto simp: level_index_bit bit_simps dest: bit_i)
  ultimately show thesis by (rule that [rotated])
qed

text \<open>Growing the tables of a root leaves its last-level tables alone.\<close>

lemma grown_leaf_reads:
  assumes "grown root ps s s'" "mappable w" "table_at s root w 3 = Some c" "unat i < 512"
  shows "phy_read64 s' (c + i * 8) = phy_read64 s (c + i * 8)"
proof -
  obtain w' where w': "same_path 3 w w'" "level_index 3 w' = i" using leaf_address [OF assms(4)] by blast
  then have m: "mappable w'" using assms(2) by (auto simp: mappable_def same_path_def)
  have t: "table_at s root w' 3 = Some c" using table_at_same_path [OF w'(1)] assms(3) by metis
  then have "table_at s' root w' 3 = Some c" "pte s' root w' = pte s root w'"
    using assms(1) m by (auto simp: grown_def)
  then show ?thesis using pte_entry [OF t] pte_entry [of s' root w' c] w'(2) by simp
qed

lemma grown_apart:
  assumes ap: "apart s root other ps" and g: "grown root (take m ps) s s'" and ok: "paging_ok s' root (drop m ps)"
  shows "apart s' root other (drop m ps)"
    and "mappable w \<Longrightarrow> l \<le> 3 \<Longrightarrow> table_at s' other w l = table_at s other w l"
    and "mappable w \<Longrightarrow> pte s' other w = pte s other w"
    and "table_pages s' other = table_pages s other"
    and "mappable a \<Longrightarrow> own_leaf s root other a \<Longrightarrow> own_leaf s' root other a"
proof -
  have tree: "tree_ok s other" and disj: "set ps \<inter> table_pages s other = {}"
    and leaf: "\<And>c. c \<in> table_pages s root \<Longrightarrow> c \<in> table_pages s other \<Longrightarrow> \<exists>w. mappable w \<and> table_at s root w 3 = Some c"
    using ap by (auto simp: apart_def)
  have free: "set (take m ps) \<inter> table_pages s other = {}" "set (drop m ps) \<inter> table_pages s other = {}"
    using disj set_take_subset [of m ps] set_drop_subset [of m ps] by blast+
  have agree: "phy_read64 s' (c + i * 8) = phy_read64 s (c + i * 8)"
    if c: "c \<in> table_pages s other" and i: "unat i < 512" for c i
  proof (cases "c \<in> table_pages s root")
    case True
    then show ?thesis using leaf [OF True c] grown_leaf_reads [OF g] i by blast
  next
    case False
    then have "page_aligned c \<and> unat i < 512 \<and> c \<notin> table_pages s root \<and> c \<notin> set (take m ps)"
      using i free c table_pages_aligned [OF tree c] by blast
    then show ?thesis using g unfolding grown_def by blast
  qed
  note A = tree_agree [of s other s', OF agree]
  show "mappable w \<Longrightarrow> l \<le> 3 \<Longrightarrow> table_at s' other w l = table_at s other w l"
    "mappable w \<Longrightarrow> pte s' other w = pte s other w"
    and tp: "table_pages s' other = table_pages s other" using A(1-3) by auto
  have kept: "table_at s root w k = Some c \<Longrightarrow> table_at s' root w k = Some c" if "mappable w" "k \<le> 3" for w k c
    using g that by (auto simp: grown_def)
  have shared: "\<exists>w. mappable w \<and> table_at s root w 3 = Some c"
    if "c \<in> table_pages s' root" "c \<in> table_pages s other" for c
  proof -
    have "c \<in> table_pages s root" using that g free by (auto simp: grown_def)
    then show ?thesis using leaf that by blast
  qed
  then show "apart s' root other (drop m ps)"
    using ok A(4) tree free tp kept unfolding apart_def by (metis Int_iff order_refl)
  show "own_leaf s' root other a" if a: "mappable a" and own: "own_leaf s root other a"
  proof (cases "table_at s' root a 3")
    case (Some b)
    have "b \<notin> table_pages s other"
    proof
      assume b: "b \<in> table_pages s other"
      then obtain w where w: "mappable w" "table_at s root w 3 = Some b"
        using shared table_pagesI [OF a _ Some] by blast
      then have "table_at s' root w 3 = Some b" using kept by simp
      then have "same_path 3 w a"
        using tree_okD [OF _ w(1) a, of s' root 3 3 b] ok Some by (auto simp: paging_ok_def)
      then have "table_at s root a 3 = Some b" using table_at_same_path w(2) by metis
      then show False using own b by (simp add: own_leaf_def)
    qed
    then show ?thesis using Some tp by (simp add: own_leaf_def)
  qed (simp add: own_leaf_def)
qed

text \<open>Writing an entry of the root in a table of its own.\<close>

lemma write_apart:
  fixes e :: u64
  assumes ap: "apart s root other ps" and v: "mappable v" and t: "table_at s root v 3 = Some b"
    and own: "own_leaf s root other v"
  defines "s' \<equiv> phy_write64 s (b + level_index 3 v * 8) e"
  shows "apart s' root other ps"
    and "mappable w \<Longrightarrow> l \<le> 3 \<Longrightarrow> table_at s' other w l = table_at s other w l"
    and "mappable w \<Longrightarrow> pte s' other w = pte s other w"
    and "mappable a \<Longrightarrow> own_leaf s root other a \<Longrightarrow> own_leaf s' root other a"
    and "table_pages s' other = table_pages s other"
proof -
  have tree: "tree_ok s other" and ok: "paging_ok s root ps" using ap by (auto simp: apart_def)
  have tr: "tree_ok s root" using ok by (simp add: paging_ok_def)
  have b: "b \<notin> table_pages s other" "page_aligned b"
    using own t table_pages_aligned [OF tr table_pagesI [OF v _ t]] by (auto simp: own_leaf_def)
  have agree: "phy_read64 s' (c + i * 8) = phy_read64 s (c + i * 8)"
    if c: "c \<in> table_pages s other" and i: "unat i < 512" for c i
    using entry_read_write [OF b(2) level_index_less table_pages_aligned [OF tree c] i, of s] b(1) c
    by (auto simp: s'_def)
  note A = tree_agree [of s other s', OF agree]
  show "mappable w \<Longrightarrow> l \<le> 3 \<Longrightarrow> table_at s' other w l = table_at s other w l"
    "mappable w \<Longrightarrow> pte s' other w = pte s other w" using A(1,2) by auto
  note W = write_leaf_ok [OF ok v t, of e, folded s'_def]
  have walk: "table_at s' root w 3 = table_at s root w 3" if "mappable w" for w
    using write_leaf(1) [OF tr v t that, of 3 e] by (simp add: s'_def)
  show "apart s' root other ps"
    using ap W A(3,4) walk unfolding apart_def by (metis (no_types, lifting))
  show "own_leaf s' root other a" if "mappable a" "own_leaf s root other a"
    using that walk A(3) by (simp add: own_leaf_def split: option.splits)
  show "table_pages s' other = table_pages s other" by (rule A(3))
qed

lemma increment_apart [simp]:
  "apart (increment_page s p) root other ps = apart s root other ps"
  "own_leaf (increment_page s p) root other a = own_leaf s root other a"
  "table_at (increment_page s p) root w l = table_at s root w l"
  using tree_reads [OF counted.hook_reads, of s p]
  by (simp_all add: apart_def own_leaf_def counted.hook_quiet(3) split: option.split)

section \<open>Sharing pages\<close>

text \<open>
  One round of \<^verbatim>\<open>mman_mirror\<close>'s loop: the page of \<open>a\<close> in the one space becomes the page of \<open>sa\<close>
  in the other, which is present.
\<close>

lemma mirror_step:
  assumes ap: "apart s root other ps" and a: "mappable a" and sa: "mappable sa" and len: "3 \<le> length ps"
    and own: "own_leaf s root other a" and present: "pte s other sa AND 1 \<noteq> 0"
  defines "p \<equiv> pte s other sa AND NOT KMEM_FLAG_MASK"
  shows "\<exists>s' m. m \<le> 3 \<and> apart s' root other (drop m ps) \<and>
    (\<forall>n. mirror_loop s root a other sa (Suc n) = mirror_loop s' root (a + 0x1000) other (sa + 0x1000) n) \<and>
    (\<forall>w. mappable w \<longrightarrow> pte s' root w = (if same_page a w then pte s other sa else pte s root w)) \<and>
    (\<forall>w. mappable w \<longrightarrow> pte s' other w = pte s other w) \<and>
    (\<forall>w. mappable w \<and> own_leaf s root other w \<longrightarrow> own_leaf s' root other w) \<and>
    page_refcount s' = count_page (foldl count_page (page_refcount s) (take m ps)) p \<and> mman_rest s' = mman_rest s"
proof -
  have ok: "paging_ok s root ps" using ap by (simp add: apart_def)
  obtain s1 b m where C: "mman_paging_addr_create s root a 3 = (s1, b + level_index 3 a * 8)" "m \<le> 3"
    "paging_ok s1 root (drop m ps)" "grown root (take m ps) s s1" "table_at s1 root a 3 = Some b"
    "page_refcount s1 = foldl count_page (page_refcount s) (take m ps)" "mman_rest s1 = mman_rest s"
    using mman_create [OF ok a len] by blast
  note G = grown_apart [OF ap C(4,3)]
  have own1: "own_leaf s1 root other a" using G(5) a own by blast
  obtain c where c: "table_at s other sa 3 = Some c" using present by (cases "table_at s other sa 3") (auto simp: pte_table)
  then have c1: "table_at s1 other sa 3 = Some c" using G(2) sa by simp
  then have entry: "phy_read64 s1 (c + level_index 3 sa * 8) = pte s other sa"
    using pte_entry [OF c1] G(3) sa by simp
  have source: "mman_paging_addr_create s1 other sa 3 = (s1, c + level_index 3 sa * 8)"
    by (simp add: mman_paging_addr_create_def paging_addr_create_with_def paging_addr_table c1)
  let ?s2 = "phy_write64 s1 (b + level_index 3 a * 8) (pte s other sa)"
  let ?s' = "increment_page ?s2 p"
  note W = write_entry_ok(2) [OF C(3) a C(5)] write_apart [OF G(1) a C(5) own1]
  have "mirror_loop s root a other sa (Suc n) = mirror_loop ?s' root (a + 0x1000) other (sa + 0x1000) n" for n
    by (simp add: C(1) source entry p_def)
  moreover have "pte ?s' root w = (if same_page a w then pte s other sa else pte s root w)" if "mappable w" for w
    using W(1) [OF that] C(4) that by (simp add: grown_def)
  moreover have "pte ?s' other w = pte s other w" if "mappable w" for w
    using W(4) [OF that] G(3) [OF that] by simp
  moreover have "own_leaf ?s' root other w" if "mappable w" "own_leaf s root other w" for w
    using W(5) [OF that(1)] G(5) [OF that] by simp
  moreover have "apart ?s' root other (drop m ps)" using W(2) by simp
  ultimately show ?thesis using C(2,6,7) by (intro exI [of _ ?s'] exI [of _ m]) simp
qed

lemma mirror_loop_ok:
  assumes "apart s root other ps" "3 * n \<le> length ps" "n \<le> 2 ^ 36" "word_table (page_refcount s)"
    and "\<And>i. i < n \<Longrightarrow> mappable (nth_page a i) \<and> own_leaf s root other (nth_page a i)"
    and "\<And>i. i < n \<Longrightarrow> mappable (nth_page sa i) \<and> pte s other (nth_page sa i) AND 1 \<noteq> 0"
  shows "\<exists>k \<le> 3 * n.
    (let s' = mirror_loop s root a other sa n in
      apart s' root other (drop k ps) \<and> word_table (page_refcount s') \<and>
      (\<forall>i < n. pte s' root (nth_page a i) = pte s other (nth_page sa i)) \<and>
      (\<forall>w. mappable w \<and> (\<forall>i < n. \<not> same_page (nth_page a i) w) \<longrightarrow> pte s' root w = pte s root w) \<and>
      (\<forall>w. mappable w \<longrightarrow> pte s' other w = pte s other w) \<and>
      (\<forall>p. page_count s' p = page_count s p + of_nat (count_list (take k ps) p) +
         of_nat (count_list (present_frames (range_entries s other sa n)) p)) \<and> mman_rest s' = mman_rest s)"
  using assms
proof (induction n arbitrary: s a sa ps)
  case 0
  then show ?case by (intro exI [of _ 0]) (simp add: range_entries_def Let_def)
next
  case (Suc n)
  have a: "mappable a" "own_leaf s root other a" using Suc.prems(5) [of 0] by simp_all
  have sa: "mappable sa" "pte s other sa AND 1 \<noteq> 0" using Suc.prems(6) [of 0] by simp_all
  have len: "3 \<le> length ps" using Suc.prems(2) by simp
  let ?p = "pte s other sa AND NOT KMEM_FLAG_MASK"
  obtain s' m where M: "m \<le> 3" "apart s' root other (drop m ps)"
    "mirror_loop s root a other sa (Suc n) = mirror_loop s' root (a + 0x1000) other (sa + 0x1000) n"
    "\<And>w. mappable w \<Longrightarrow> pte s' root w = (if same_page a w then pte s other sa else pte s root w)"
    "\<And>w. mappable w \<Longrightarrow> pte s' other w = pte s other w"
    "\<And>w. mappable w \<Longrightarrow> own_leaf s root other w \<Longrightarrow> own_leaf s' root other w"
    "page_refcount s' = count_page (foldl count_page (page_refcount s) (take m ps)) ?p" "mman_rest s' = mman_rest s"
    using mirror_step [OF Suc.prems(1) a(1) sa(1) len a(2) sa(2)] by blast
  have t: "word_table (page_refcount s')"
    and count: "page_count s' p = page_count s p + of_nat (count_list (take m ps) p) + (if p = ?p then 1 else 0)" for p
    using count_pages_lookup [OF Suc.prems(4), of "take m ps"] count_page_lookup by (auto simp: M(7))
  have nxt: "mappable (nth_page (a + 0x1000) i) \<and> own_leaf s' root other (nth_page (a + 0x1000) i)"
    "mappable (nth_page (sa + 0x1000) i) \<and> pte s' other (nth_page (sa + 0x1000) i) AND 1 \<noteq> 0" if "i < n" for i
    using Suc.prems(5,6) [of "Suc i"] that M(5,6) by (simp_all add: nth_page_Suc)
  have "3 * n \<le> length (drop m ps)" "n \<le> 2 ^ 36" using Suc.prems(2,3) M(1) by simp_all
  then obtain k where IH: "k \<le> 3 * n"
    "apart (mirror_loop s' root (a + 0x1000) other (sa + 0x1000) n) root other (drop k (drop m ps))"
    "word_table (page_refcount (mirror_loop s' root (a + 0x1000) other (sa + 0x1000) n))"
    "\<And>i. i < n \<Longrightarrow> pte (mirror_loop s' root (a + 0x1000) other (sa + 0x1000) n) root (nth_page (a + 0x1000) i) =
       pte s' other (nth_page (sa + 0x1000) i)"
    "\<And>w. mappable w \<Longrightarrow> (\<And>i. i < n \<Longrightarrow> \<not> same_page (nth_page (a + 0x1000) i) w) \<Longrightarrow>
       pte (mirror_loop s' root (a + 0x1000) other (sa + 0x1000) n) root w = pte s' root w"
    "\<And>w. mappable w \<Longrightarrow> pte (mirror_loop s' root (a + 0x1000) other (sa + 0x1000) n) other w = pte s' other w"
    "\<And>p. page_count (mirror_loop s' root (a + 0x1000) other (sa + 0x1000) n) p = page_count s' p +
       of_nat (count_list (take k (drop m ps)) p) +
       of_nat (count_list (present_frames (range_entries s' other (sa + 0x1000) n)) p)"
    "mman_rest (mirror_loop s' root (a + 0x1000) other (sa + 0x1000) n) = mman_rest s'"
    using Suc.IH [OF M(2) _ _ t nxt] unfolding Let_def by blast
  have tk: "take (m + k) ps = take m ps @ take k (drop m ps)" by (rule take_add)
  have r: "range_entries s' other (sa + 0x1000) n = range_entries s other (sa + 0x1000) n"
    using nxt(2) M(5) by (intro range_entries_cong) blast
  have c: "page_count (mirror_loop s' root (a + 0x1000) other (sa + 0x1000) n) p = page_count s p +
      of_nat (count_list (take (m + k) ps) p) + of_nat (count_list (present_frames (range_entries s other sa (Suc n))) p)" for p
    using sa(2) by (simp add: IH(7) r count tk range_entries_Suc)
  have other: "\<not> same_page (nth_page a (Suc i)) a" if "i < n" for i
    using same_page_nth [of "Suc i" "Suc n" 0 a] Suc.prems(3) that by auto
  have new: "pte (mirror_loop s' root (a + 0x1000) other (sa + 0x1000) n) root (nth_page a i) = pte s other (nth_page sa i)"
    if "i < Suc n" for i
  proof (cases i)
    case 0
    then show ?thesis using IH(5) [OF a(1)] M(4) [OF a(1)] other by (simp add: nth_page_Suc same_page_def)
  next
    case (Suc j)
    then show ?thesis using IH(4) [of j] M(5) nxt(2) [of j] that by (simp add: nth_page_Suc)
  qed
  have old: "pte (mirror_loop s' root (a + 0x1000) other (sa + 0x1000) n) root w = pte s root w"
    if "mappable w" "\<forall>i < Suc n. \<not> same_page (nth_page a i) w" for w
  proof -
    have "\<not> same_page a w" using that(2) by (metis nth_page_0 zero_less_Suc)
    then show ?thesis using IH(5) [OF that(1)] M(4) [OF that(1)] that(2) by (simp add: nth_page_Suc)
  qed
  show ?case unfolding M(3) Let_def
    using IH(1-3,6,8) M(1,5,8) c new old by (intro exI [of _ "m + k"]) (auto simp: add.commute)
qed

section \<open>Mapping fresh pages beside another space\<close>

lemma anonymous_step_apart:
  assumes ap: "apart s root other ps" and a: "mappable a" and len: "4 \<le> length ps" and own: "own_leaf s root other a"
  defines "s1 \<equiv> fst (mman_paging_addr_create s root a 3)" and "e \<equiv> snd (mman_paging_addr_create s root a 3)"
  defines "p \<equiv> snd (kmem_getpage s1)"
  defines "s' \<equiv> increment_page (phy_write64 (fst (kmem_getpage s1)) e (p OR KMEM_MAP_DATA)) p"
  shows "\<exists>m \<le> 3. apart s' root other (drop (Suc m) ps) \<and> table_pages s' other = table_pages s other \<and>
    (\<forall>w. mappable w \<longrightarrow> pte s' other w = pte s other w) \<and>
    (\<forall>w. mappable w \<and> own_leaf s root other w \<longrightarrow> own_leaf s' root other w)"
proof -
  obtain b m where C: "e = b + level_index 3 a * 8" "m \<le> 3"
    "paging_ok s1 root (drop m ps)" "grown root (take m ps) s s1" "table_at s1 root a 3 = Some b"
    using mman_create [of s root ps a] ap a len by (fastforce simp: s1_def e_def apart_def)
  note G = grown_apart [OF ap C(4,3)]
  have own1: "own_leaf s1 root other a" using G(5) a own by blast
  have d: "drop m ps = ps ! m # drop (Suc m) ps" using C(2) len by (simp add: Cons_nth_drop_Suc)
  let ?g = "fst (kmem_getpage s1)"
  note T = tree_reads [of ?g s1, OF getpage_reads(1)] and P = getpage_ok [OF C(3) [unfolded d]]
  have g: "apart ?g root other (drop (Suc m) ps)" "own_leaf ?g root other w = own_leaf s1 root other w" for w
    using G(1) P(2) T P(4) unfolding apart_def d
    by (auto simp: own_leaf_def table_at_reads [of ?g s1, OF getpage_reads(1)] split: option.splits)
  have t: "table_at ?g root a 3 = Some b" using C(5) by (simp add: table_at_reads [of ?g s1, OF getpage_reads(1)])
  note W = write_apart [OF g(1) a t, unfolded g(2), OF own1, where e = "p OR KMEM_MAP_DATA", folded C(1)]
  have "table_pages s' other = table_pages (phy_write64 ?g e (p OR KMEM_MAP_DATA)) other"
    unfolding s'_def by (rule tree_reads(2)) (rule counted.hook_reads)
  then show ?thesis
    using C(2) W(1,3,4,5) G(3,4,5) T(2,3) g(2)
    by (intro exI [of _ m]) (simp add: s'_def)
qed

lemma anonymous_loop_apart:
  assumes "apart s root other ps" "4 * n \<le> length ps"
    and "\<And>i. i < n \<Longrightarrow> mappable (nth_page a i) \<and> own_leaf s root other (nth_page a i)"
  shows "\<exists>k \<le> 4 * n. apart (anonymous_loop s root a n) root other (drop k ps) \<and>
    table_pages (anonymous_loop s root a n) other = table_pages s other \<and>
    (\<forall>w. mappable w \<longrightarrow> pte (anonymous_loop s root a n) other w = pte s other w)"
  using assms
proof (induction n arbitrary: s a ps)
  case 0
  then show ?case by (intro exI [of _ 0]) simp
next
  case (Suc n)
  have a: "mappable a" "own_leaf s root other a" using Suc.prems(3) [of 0] by simp_all
  define s1 where "s1 = fst (mman_paging_addr_create s root a 3)"
  define e where "e = snd (mman_paging_addr_create s root a 3)"
  define p where "p = snd (kmem_getpage s1)"
  define s' where "s' = increment_page (phy_write64 (fst (kmem_getpage s1)) e (p OR KMEM_MAP_DATA)) p"
  obtain m where M: "m \<le> 3" "apart s' root other (drop (Suc m) ps)"
    "\<And>w. mappable w \<Longrightarrow> pte s' other w = pte s other w"
    "\<And>w. mappable w \<Longrightarrow> own_leaf s root other w \<Longrightarrow> own_leaf s' root other w"
    "table_pages s' other = table_pages s other"
    using anonymous_step_apart [OF Suc.prems(1) a(1) _ a(2)] Suc.prems(2)
    by (auto simp: s1_def e_def p_def s'_def)
  have loop: "anonymous_loop s root a (Suc n) = anonymous_loop s' root (a + 0x1000) n"
    by (simp add: s1_def e_def p_def s'_def Let_def case_prod_beta)
  have m: "mappable (nth_page (a + 0x1000) i) \<and> own_leaf s' root other (nth_page (a + 0x1000) i)" if "i < n" for i
    using Suc.prems(3) [of "Suc i"] that M(4) by (simp add: nth_page_Suc)
  have "4 * n \<le> length (drop (Suc m) ps)" using Suc.prems(2) M(1) by simp
  from Suc.IH [OF M(2) this m] obtain k where "k \<le> 4 * n"
    "apart (anonymous_loop s' root (a + 0x1000) n) root other (drop k (drop (Suc m) ps))"
    "table_pages (anonymous_loop s' root (a + 0x1000) n) other = table_pages s' other"
    "\<forall>w. mappable w \<longrightarrow> pte (anonymous_loop s' root (a + 0x1000) n) other w = pte s' other w"
    by blast
  then show ?case using M(1,3,5) unfolding loop by (intro exI [of _ "Suc m + k"]) (simp add: add.commute)
qed

lemma protect_loop_apart:
  assumes "apart s root other ps" "\<And>i. i < n \<Longrightarrow> mappable (nth_page a i) \<and> own_leaf s root other (nth_page a i)"
  shows "apart (protect_loop s root a flags n) root other ps \<and>
    (\<forall>w. mappable w \<longrightarrow> pte (protect_loop s root a flags n) other w = pte s other w)"
  using assms
proof (induction n arbitrary: s a)
  case (Suc n)
  have a: "mappable a" "own_leaf s root other a" using Suc.prems(2) [of 0] by simp_all
  have m: "mappable (nth_page (a + 0x1000) i) \<and> own_leaf s root other (nth_page (a + 0x1000) i)" if "i < n" for i
    using Suc.prems(2) [of "Suc i"] that by (simp add: nth_page_Suc)
  show ?case
  proof (cases "pte s root a AND 1 = 0")
    case True
    then have "protect_loop s root a flags (Suc n) = protect_loop s root (a + 0x1000) flags n"
      by (auto simp: paging_addr_table pte_table split: option.splits)
    then show ?thesis using Suc.IH [OF Suc.prems(1) m] by simp
  next
    case False
    then obtain b where b: "table_at s root a 3 = Some b" by (auto simp: pte_table split: option.splits)
    let ?s = "phy_write64 s (b + level_index 3 a * 8) (pte s root a AND NOT KMEM_FLAG_MASK OR flags)"
    note W = write_apart [OF Suc.prems(1) a(1) b a(2), where e = "pte s root a AND NOT KMEM_FLAG_MASK OR flags"]
    have "protect_loop s root a flags (Suc n) = protect_loop ?s root (a + 0x1000) flags n"
      using False b by (simp add: paging_addr_table pte_table)
    then show ?thesis using Suc.IH [OF W(1), of "a + 0x1000"] m W(3,4) by simp
  qed
qed simp

lemma apart_sym:
  "apart s root other ps \<Longrightarrow> table_pages s root \<inter> table_pages s other = {} \<Longrightarrow> apart s other root ps"
  by (auto simp: apart_def paging_ok_def)

section \<open>Properties\<close>

text \<open>Two roots to evaluate on: 7 is the empty table at 0x1000, 8 the one at 0x2000.\<close>

definition example_two :: mman where
  "example_two = (clear_table (fst (kmem_getpage example_mman)) 0x2000)
     \<lparr>root_map := fst (avl_insert (root_map example_mman) 8 0x2000)\<rparr>"

definition example_source :: mman where
  "example_source = anonymous_loop example_two 0x2000 0x600000 1"

lemma example_pages_cons: "example_pages = 0x2000 # tl example_pages"
  by (simp add: example_pages_def upt_conv_Cons)

lemma mman_fields_clear:
  "page_refcount (clear_table s t) = page_refcount s" "mman_rest (clear_table s t) = mman_rest s"
  using counted.obs_clear [of s t] kept.obs_clear [of s t] by simp_all

lemma root_map_update_reads:
  "phy_read64 (s\<lparr>root_map := t\<rparr>) a = phy_read64 s a" "get_last_unused (s\<lparr>root_map := t\<rparr>) = get_last_unused s"
  by (simp_all add: phy_read64_def get_last_unused_def split: unused_loc.split)

lemma example_two_ok:
  "apart example_two 0x2000 0x1000 (tl example_pages)" "table_pages example_two 0x1000 = {0x1000}"
  "table_pages example_two 0x2000 = {0x2000}" "mappable v \<Longrightarrow> pte example_two 0x1000 v = 0" "pte example_two 0x2000 v = 0"
  "word_table (page_refcount example_two)"
  "avl_search (root_map example_two) 7 = 0x1000" "avl_search (root_map example_two) 8 = 0x2000"
proof -
  let ?g = "fst (kmem_getpage example_mman)"
  let ?c = "clear_table ?g 0x2000"
  have al: "page_aligned 0x1000" "page_aligned 0x2000" by (simp_all add: page_aligned_def)
  have reads: "phy_read64 example_two a = phy_read64 ?c a" for a
    by (simp add: example_two_def root_map_update_reads)
  have free: "free_pages ?g (tl example_pages)"
    using example_mman_ok(2) example_pages_cons getpage_free_pages [of example_mman "0x2000" "tl example_pages"]
    by (simp add: paging_ok_def)
  have notin: "0x2000 \<notin> set (tl example_pages)" "0x1000 \<notin> set (tl example_pages)"
    by (simp_all add: example_pages_def upt_conv_Cons)
  have "free_pages ?c (tl example_pages)" using free notin al by (intro free_pages_clear)
  moreover have "chain example_two h ps = chain ?c h ps" for h ps by (rule chain_cong) (simp add: reads)
  ultimately have f: "free_pages example_two (tl example_pages)"
    by (simp add: free_pages_def example_two_def root_map_update_reads)
  have z2: "phy_read64 example_two (0x2000 + i * 8) = 0" if "unat i < 512" for i
    using clear_table_entry [OF al(2,2) that, of ?g] by (simp add: reads)
  have agree: "phy_read64 example_two (c + i * 8) = phy_read64 example_mman (c + i * 8)"
    if "c \<in> table_pages example_mman 0x1000" "unat i < 512" for c i
    using clear_table_entry [OF al(2,1) that(2), of ?g] that(1) by (simp add: reads example_mman_ok(6))
  note A = tree_agree [of example_mman "0x1000" example_two, OF agree]
  note B = empty_table_ok [OF al(2), of example_two]
  have tp: "table_pages example_two 0x1000 = {0x1000}" using A(3) by (simp add: example_mman_ok(6))
  show "table_pages example_two 0x1000 = {0x1000}" by (rule tp)
  show tp2: "table_pages example_two 0x2000 = {0x2000}" using B(3) z2 by simp
  show "mappable v \<Longrightarrow> pte example_two 0x1000 v = 0" using A(2) by (simp add: example_mman_ok(1))
  show "pte example_two 0x2000 v = 0" using B(1) z2 by (simp add: pte_table)
  have "tree_ok example_mman 0x1000" using example_mman_ok(2) by (simp add: paging_ok_def)
  then show "apart example_two 0x2000 0x1000 (tl example_pages)"
    using f tp tp2 B(2) z2 A(4) notin by (simp add: apart_def paging_ok_def)
  show "word_table (page_refcount example_two)"
    using example_mman_ok(4) by (simp add: free_zero_def example_two_def mman_fields_clear)
  have w: "word_table (root_map example_mman)"
    using ptr_table.invar_insert [OF avl_invar_initialize, where k = 7 and v = "0x1000"]
    by (simp add: example_mman_def unuse_list_fields)
  show "avl_search (root_map example_two) 7 = 0x1000" "avl_search (root_map example_two) 8 = 0x2000"
    using ptr_table.lookup_insert [OF w, of 8] example_mman_ok(3) by (simp_all add: example_two_def)
qed

lemma example_two_own: "own_leaf example_two 0x2000 0x1000 0x600000"
proof -
  have m: "mappable 0x600000" by (simp add: mappable_def level_index_def drop_bit_eq_div)
  have "table_at example_two 0x2000 0x600000 3 = Some b \<Longrightarrow> b = 0x2000" for b
    using table_pagesI [OF m, of 3 example_two "0x2000" b] by (simp add: example_two_ok(3))
  then show ?thesis by (auto simp: own_leaf_def example_two_ok(2) split: option.split)
qed

text \<open>
  C5: \<^verbatim>\<open>mman_mirror\<close> makes one address space share the pages of another.  It refuses, with 1 and no
  change, a range of the target that has a page already and a range of the source that has a hole.
  Otherwise the entries of the target range become those of the source range, frames and flags;
  no other entry of the target and none of the source changes; every shared frame has one more
  reference for each time it is shared, and every page taken for a new table one more, and
  nothing else is counted.
\<close>

theorem mman_mirror_shares:
  assumes "avl_search (root_map s) root_id = root" "root \<noteq> 0" "avl_search (root_map s) sroot_id = other" "other \<noteq> 0"
    and "page_aligned a" "page_aligned sa" "page_aligned sz" "n = unat sz div 4096" "n \<le> 2 ^ 36"
    and "apart s root other ps" "3 * n \<le> length ps" "word_table (page_refcount s)"
    and "\<forall>i < n. mappable (nth_page a i) \<and> own_leaf s root other (nth_page a i)" "\<forall>i < n. mappable (nth_page sa i)"
  shows "if (\<exists>i < n. pte s root (nth_page a i) AND 1 \<noteq> 0) \<or> (\<exists>i < n. pte s other (nth_page sa i) AND 1 = 0)
    then mman_mirror s root_id a sroot_id sa sz = (s, 1)
    else \<exists>s' k. mman_mirror s root_id a sroot_id sa sz = (s', 0) \<and> k \<le> 3 * n \<and> apart s' root other (drop k ps) \<and>
      (\<forall>i < n. pte s' root (nth_page a i) = pte s other (nth_page sa i)) \<and>
      (\<forall>w. mappable w \<and> (\<forall>i < n. \<not> same_page (nth_page a i) w) \<longrightarrow> pte s' root w = pte s root w) \<and>
      (\<forall>w. mappable w \<longrightarrow> pte s' other w = pte s other w) \<and>
      (\<forall>p. page_count s' p = page_count s p + of_nat (count_list (take k ps) p) +
         of_nat (count_list (present_frames (range_entries s other sa n)) p))"
proof -
  let ?busy = "\<exists>i < n. pte s root (nth_page a i) AND 1 \<noteq> 0" and ?hole = "\<exists>i < n. pte s other (nth_page sa i) AND 1 = 0"
  have run: "mman_mirror s root_id a sroot_id sa sz =
      (if ?busy \<or> ?hole then (s, 1) else (mirror_loop s root a other sa n, 0))"
    using assms(1-8) by (auto simp: mman_mirror_def mman_check_any_mapped_def mman_check_all_mapped_def
        page_aligned_def any_mapped_entries all_mapped_entries)
  show ?thesis
  proof (cases "?busy \<or> ?hole")
    case False
    have present: "mappable (nth_page sa i) \<and> pte s other (nth_page sa i) AND 1 \<noteq> 0" if "i < n" for i
      using False assms(14) that by blast
    obtain k where "k \<le> 3 * n" "let s' = mirror_loop s root a other sa n in apart s' root other (drop k ps) \<and>
      word_table (page_refcount s') \<and>
      (\<forall>i < n. pte s' root (nth_page a i) = pte s other (nth_page sa i)) \<and>
      (\<forall>w. mappable w \<and> (\<forall>i < n. \<not> same_page (nth_page a i) w) \<longrightarrow> pte s' root w = pte s root w) \<and>
      (\<forall>w. mappable w \<longrightarrow> pte s' other w = pte s other w) \<and>
      (\<forall>p. page_count s' p = page_count s p + of_nat (count_list (take k ps) p) +
         of_nat (count_list (present_frames (range_entries s other sa n)) p)) \<and> mman_rest s' = mman_rest s"
      using mirror_loop_ok [OF assms(10,11,9,12) _ present] assms(13) by blast
    then show ?thesis
      unfolding run if_not_P [OF False] Let_def
      by (intro exI [of _ "mirror_loop s root a other sa n"] exI [of _ k]) blast
  qed (simp only: run if_True simp_thms)
qed

text \<open>The source has one page mapped at 0x600000, the target nothing.\<close>

lemma example_source_ok:
  "\<exists>ps p. apart example_source 0x1000 0x2000 ps \<and> 3 \<le> length ps \<and> word_table (page_refcount example_source) \<and>
     avl_search (root_map example_source) 7 = 0x1000 \<and> avl_search (root_map example_source) 8 = 0x2000 \<and>
     pte example_source 0x2000 0x600000 = p OR KMEM_MAP_DATA \<and> pte example_source 0x1000 0x400000 = 0 \<and>
     own_leaf example_source 0x1000 0x2000 0x400000"
proof -
  have m: "mappable 0x600000" "mappable 0x400000"
    by (simp_all add: mappable_def level_index_def drop_bit_eq_div)
  have own: "own_leaf example_two 0x2000 0x1000 0x600000" by (rule example_two_own)
  have len: "length (tl example_pages) = 7" using example_pages_ok(4) by simp
  have ok: "paging_ok example_two 0x2000 (tl example_pages)" using example_two_ok(1) by (simp add: apart_def)
  obtain k where K: "k \<le> 4" "apart example_source 0x2000 0x1000 (drop k (tl example_pages))"
    "\<And>w. mappable w \<Longrightarrow> pte example_source 0x1000 w = pte example_two 0x1000 w"
    "table_pages example_source 0x1000 = {0x1000}"
    using anonymous_loop_apart [OF example_two_ok(1), of 1 "0x600000"] m(1) own len example_two_ok(2)
    by (auto simp: example_source_def)
  obtain pages j where J: "length pages = 1"
    "pte example_source 0x2000 0x600000 = pages ! 0 OR KMEM_MAP_DATA" "set pages \<subseteq> set (take j (tl example_pages))"
    "page_refcount example_source = foldl count_page (page_refcount example_two) (take j (tl example_pages))"
    "mman_rest example_source = mman_rest example_two"
    "table_pages example_source 0x2000 \<subseteq> table_pages example_two 0x2000 \<union> (set (take j (tl example_pages)) - set pages)"
    using anonymous_loop_ok [OF ok, of 1 "0x600000"] m(1) len
    unfolding Let_def example_source_def [symmetric] by (auto simp del: anonymous_loop.simps)
  have notin: "0x1000 \<notin> set (tl example_pages)" by (simp add: example_pages_def upt_conv_Cons)
  have "0x1000 \<notin> table_pages example_source 0x2000"
  proof
    assume "0x1000 \<in> table_pages example_source 0x2000"
    then have "0x1000 \<in> set (take j (tl example_pages))" using J(6) by (auto simp: example_two_ok(3))
    then show False using notin set_take_subset [of j "tl example_pages"] by blast
  qed
  then have ap: "apart example_source 0x1000 0x2000 (drop k (tl example_pages))"
    and own': "own_leaf example_source 0x1000 0x2000 0x400000"
    using K(2,4) table_pagesI [OF m(2), of 3 example_source "0x1000"]
    by (auto intro: apart_sym simp: own_leaf_def split: option.split)
  have "word_table (page_refcount example_source)"
    using count_pages_lookup [OF example_two_ok(6)] by (simp add: J(4))
  moreover have "root_map example_source = root_map example_two" using J(5) by (simp add: mman_rest_def)
  moreover have "3 \<le> length (drop k (tl example_pages))" using K(1) len by simp
  ultimately show ?thesis
    using ap own' J(2) K(3) [OF m(2)] m(2) example_two_ok(7,8)
    by (intro exI [of _ "drop k (tl example_pages)"] exI [of _ "pages ! 0"]) (simp add: example_two_ok(4))
qed

theorem mman_mirror_shares_witness:
  "\<exists>s' p. mman_mirror example_source 7 0x400000 8 0x600000 0x1000 = (s', 0) \<and>
     pte s' 0x1000 0x400000 = p OR KMEM_MAP_DATA \<and> pte s' 0x2000 0x600000 = p OR KMEM_MAP_DATA"
proof -
  obtain ps p where E: "apart example_source 0x1000 0x2000 ps" "3 * Suc 0 \<le> length ps"
    "word_table (page_refcount example_source)"
    "avl_search (root_map example_source) 7 = 0x1000" "avl_search (root_map example_source) 8 = 0x2000"
    "pte example_source 0x2000 0x600000 = p OR KMEM_MAP_DATA" "pte example_source 0x1000 0x400000 = 0"
    "own_leaf example_source 0x1000 0x2000 0x400000"
    using example_source_ok by auto
  have m: "mappable 0x600000" "mappable 0x400000"
    by (simp_all add: mappable_def level_index_def drop_bit_eq_div)
  have a: "page_aligned 0x400000" "page_aligned 0x600000" "page_aligned 0x1000" "Suc 0 = unat (0x1000 :: u64) div 4096"
    "Suc 0 \<le> 2 ^ 36" "(0x1000 :: u64) \<noteq> 0" "(0x2000 :: u64) \<noteq> 0"
    by (simp_all add: page_aligned_def)
  have c: "\<forall>i < Suc 0. mappable (nth_page 0x400000 i) \<and> own_leaf example_source 0x1000 0x2000 (nth_page 0x400000 i)"
    "\<forall>i < Suc 0. mappable (nth_page 0x600000 i)" using m E(8) by simp_all
  have free: "\<not> ((\<exists>i < Suc 0. pte example_source 0x1000 (nth_page 0x400000 i) AND 1 \<noteq> 0) \<or>
      (\<exists>i < Suc 0. pte example_source 0x2000 (nth_page 0x600000 i) AND 1 = 0))"
    using E(6,7) data_present [of p] by simp
  show ?thesis
    using mman_mirror_shares [OF E(4) a(6) E(5) a(7) a(1-5) E(1,2,3) c] E(6) m(1)
    unfolding if_not_P [OF free] by auto
qed

text \<open>
  C8: address spaces are isolated: mapping fresh pages into one and changing the rights of its
  pages leaves every entry of every other as it was, also of those that share its kernel tables,
  as long as the range is not under one of those.
\<close>

theorem mman_spaces_isolated:
  assumes "avl_search (root_map s) root_id = root" "root \<noteq> 0" "page_aligned a" "page_aligned sz" "n = unat sz div 4096"
    and "apart s root other ps" "4 * n \<le> length ps"
    and "\<forall>i < n. mappable (nth_page a i) \<and> own_leaf s root other (nth_page a i)"
  shows "(\<forall>w. mappable w \<longrightarrow> pte (fst (mman_anonymous s root_id a sz)) other w = pte s other w) \<and>
    (\<forall>w flags. mappable w \<longrightarrow> pte (fst (mman_protect s root_id a sz flags)) other w = pte s other w)"
proof -
  have "fst (mman_anonymous s root_id a sz) = anonymous_loop s root a n"
    "fst (mman_protect s root_id a sz flags) = protect_loop s root a flags n" for flags
    using assms(1-5) by (simp_all add: mman_anonymous_def mman_protect_def page_aligned_def)
  then show ?thesis
    using anonymous_loop_apart [OF assms(6,7)] protect_loop_apart [OF assms(6)] assms(8) by metis
qed

theorem mman_spaces_isolated_witness:
  "pte (fst (mman_anonymous example_two 8 0x600000 0x1000)) 0x1000 0x600000 = 0"
proof -
  have m: "mappable 0x600000" by (simp add: mappable_def level_index_def drop_bit_eq_div)
  have a: "page_aligned 0x600000" "page_aligned 0x1000" "Suc 0 = unat (0x1000 :: u64) div 4096" "(0x2000 :: u64) \<noteq> 0"
    by (simp_all add: page_aligned_def)
  have c: "\<forall>i < Suc 0. mappable (nth_page 0x600000 i) \<and> own_leaf example_two 0x2000 0x1000 (nth_page 0x600000 i)"
    using m example_two_own by simp
  have len: "4 * Suc 0 \<le> length (tl example_pages)" using example_pages_ok(4) by simp
  show ?thesis
    using mman_spaces_isolated [OF example_two_ok(8) a(4,1,2,3) example_two_ok(1) len c] m example_two_ok(4) by simp
qed

end
