(* ===== verification/Sched_Root.thy ===== *)
theory Sched_Root
  imports Sched_Mirror Klib_Space
begin

text \<open>
  A new address space: what \<^verbatim>\<open>kmem_create_root\<close> of \<^verbatim>\<open>klib/kmem.c\<close> builds.  It copies five entries of
  the running space: the one of the physical memory map, in the root, and those of the last-level
  tables for the task table, the descriptors, the memory manager and the status page.  The two
  spaces share these tables and nothing else, so they are \<open>apart\<close> as the other theories ask for.
\<close>

section \<open>Sharing a last-level table\<close>

lemma table_at_3: "table_at s root v 3 =
    (case table_at s root v 2 of None \<Rightarrow> None
     | Some b \<Rightarrow> (let e = phy_read64 s (b + level_index 2 v * 8) in if e AND 1 = 0 then None else Some (e AND NOT 0xfff)))"
proof -
  have "(3 :: nat) = Suc 2" by simp
  then show ?thesis by (simp only: table_at.simps)
qed

lemma same_path_3: "same_path 3 v w \<longleftrightarrow> same_path 2 v w \<and> level_index 2 v = level_index 2 w"
  using same_path_Suc [of 2 v w] by simp

text \<open>The entry \<open>e\<close> that leads the other space to the last-level table \<open>c\<close> of \<open>v\<close> is written to the table \<open>b\<close> above it.\<close>

definition shares :: "'a kmem_scheme \<Rightarrow> u64 \<Rightarrow> u64 \<Rightarrow> u64 list \<Rightarrow> u64 \<Rightarrow> u64 \<Rightarrow> u64 \<Rightarrow> u64 \<Rightarrow> bool" where
  "shares s root other ps v b c e \<longleftrightarrow> apart s root other ps \<and> mappable v \<and> table_at s root v 2 = Some b \<and>
     table_at s other v 3 = Some c \<and> c \<notin> table_pages s root \<and> e AND 1 \<noteq> 0 \<and> e AND NOT 0xfff = c"

definition share :: "'a kmem_scheme \<Rightarrow> u64 \<Rightarrow> u64 \<Rightarrow> u64 \<Rightarrow> 'a kmem_scheme" where
  "share s v b e = phy_write64 s (b + level_index 2 v * 8) e"

lemma shares_trees:
  assumes "shares s root other ps v b c e"
  shows "tree_ok s root" "tree_ok s other" "free_pages s ps" "mappable v"
    and "set ps \<inter> table_pages s root = {}" "set ps \<inter> table_pages s other = {}"
    and "d \<in> table_pages s root \<Longrightarrow> d \<in> table_pages s other \<Longrightarrow> \<exists>w. mappable w \<and> table_at s root w 3 = Some d"
    and "table_at s root v 2 = Some b" "table_at s other v 3 = Some c" "c \<notin> table_pages s root"
  using assms by (auto simp: shares_def apart_def paging_ok_def)

lemma shares_pages:
  assumes "shares s root other ps v b c e"
  shows "b \<in> table_pages s root" "page_aligned b" "c \<in> table_pages s other" "page_aligned c" "b \<notin> table_pages s other" "c \<noteq> b"
proof -
  note T = shares_trees [OF assms]
  show b: "b \<in> table_pages s root" by (rule table_pagesI [OF T(4) _ T(8)]) simp
  show c: "c \<in> table_pages s other" by (rule table_pagesI [OF T(4) _ T(9)]) simp
  show "page_aligned b" "page_aligned c" by (rule table_pages_aligned [OF T(1) b]) (rule table_pages_aligned [OF T(2) c])
  show nb: "b \<notin> table_pages s other"
  proof
    assume "b \<in> table_pages s other"
    then obtain w where "mappable w" "table_at s root w 3 = Some b" using T(7) b by blast
    then show False using tree_okD [OF T(1,4), of w 2 3 b] T(8) by simp
  qed
  then show "c \<noteq> b" using c by blast
qed

lemma share_read:
  assumes "shares s root other ps v b c e" "page_aligned d" "unat i < 512"
  shows "phy_read64 (share s v b e) (d + i * 8) = (if d = b \<and> i = level_index 2 v then e else phy_read64 s (d + i * 8))"
  unfolding share_def by (rule entry_read_write [OF shares_pages(2) [OF assms(1)] level_index_less assms(2,3)])

text \<open>The other space does not see the write.\<close>

lemma share_other:
  assumes S: "shares s root other ps v b c e"
  shows "mappable w \<Longrightarrow> l \<le> 3 \<Longrightarrow> table_at (share s v b e) other w l = table_at s other w l"
    and "mappable w \<Longrightarrow> pte (share s v b e) other w = pte s other w"
    and "table_pages (share s v b e) other = table_pages s other" "tree_ok (share s v b e) other"
proof -
  note T = shares_trees [OF S]
  have agree: "phy_read64 (share s v b e) (d + i * 8) = phy_read64 s (d + i * 8)"
    if "d \<in> table_pages s other" "unat i < 512" for d i
    using share_read [OF S table_pages_aligned [OF T(2) that(1)] that(2)] shares_pages(5) [OF S] that(1) by auto
  note A = tree_agree [of s other "share s v b e", OF agree]
  show "mappable w \<Longrightarrow> l \<le> 3 \<Longrightarrow> table_at (share s v b e) other w l = table_at s other w l"
    "mappable w \<Longrightarrow> pte (share s v b e) other w = pte s other w"
    "table_pages (share s v b e) other = table_pages s other" "tree_ok (share s v b e) other"
    using A T(2) by auto
qed

text \<open>In the space itself exactly the walks to the last level along the path of \<open>v\<close> change.\<close>

lemma share_walk:
  assumes S: "shares s root other ps v b c e" and w: "mappable w" and l: "l \<le> 3"
  shows "table_at (share s v b e) root w l = (if l = 3 \<and> same_path 3 v w then Some c else table_at s root w l)"
proof -
  note T = shares_trees [OF S]
  have al: "page_aligned d" if "table_at s root w k = Some d" for k d
    using table_at_aligned that T(1) by (auto simp: tree_ok_def)
  have low: "table_at (share s v b e) root w l = table_at s root w l" if "l \<le> 2" for l
  proof (rule table_at_cong)
    fix k d assume k: "k < l" "table_at s root w k = Some d"
    then have "d \<noteq> b" using tree_okD [OF T(1,4) w, of 2 k b] T(8) that by auto
    then show "phy_read64 (share s v b e) (d + level_index k w * 8) = phy_read64 s (d + level_index k w * 8)"
      using share_read [OF S al [OF k(2)] level_index_less] by simp
  qed
  show ?thesis
  proof (cases "l = 3")
    case True
    show ?thesis
    proof (cases "table_at s root w 2")
      case None
      then have "\<not> same_path 2 v w" using T(8) table_at_same_path [of 2 v w s root] by auto
      then show ?thesis using True None low [of 2] by (simp add: table_at_3 same_path_3)
    next
      case (Some d)
      have "d = b \<longleftrightarrow> same_path 2 v w"
        using tree_okD [OF T(1,4) w, of 2 2 b] T(8) Some table_at_same_path [of 2 v w s root] by auto
      then show ?thesis
        using True Some low [of 2] share_read [OF S al [OF Some] level_index_less, of 2 w] S
        by (auto simp: table_at_3 same_path_3 Let_def shares_def)
    qed
  next
    case False
    then show ?thesis using low [of l] l by simp
  qed
qed

lemma share_pte:
  assumes S: "shares s root other ps v b c e" and w: "mappable w"
  shows "pte (share s v b e) root w = (if same_path 3 v w then pte s other w else pte s root w)"
proof -
  note T = shares_trees [OF S] and P = shares_pages [OF S] and walk = share_walk [OF S w, of 3]
  show ?thesis
  proof (cases "same_path 3 v w")
    case True
    then have "table_at s other w 3 = Some c" using table_at_same_path [of 3 v w s other] T(9) by simp
    then show ?thesis using True walk share_read [OF S P(4) level_index_less, of 3 w] P(6) by (simp add: pte_table)
  next
    case False
    show ?thesis
    proof (cases "table_at s root w 3")
      case (Some d)
      have "d \<noteq> b" using tree_okD [OF T(1,4) w, of 2 3 b] T(8) Some by auto
      moreover have "page_aligned d" using table_at_aligned Some T(1) by (auto simp: tree_ok_def)
      ultimately show ?thesis
        using False walk Some share_read [OF S _ level_index_less, of d 3 w] by (simp add: pte_table)
    qed (simp add: walk False pte_table)
  qed
qed

lemma share_apart:
  assumes S: "shares s root other ps v b c e"
  shows "apart (share s v b e) root other ps"
proof -
  let ?s' = "share s v b e"
  note T = shares_trees [OF S] and P = shares_pages [OF S] and walk = share_walk [OF S]
  have no_c: "table_at s root w l \<noteq> Some c" if "mappable w" "l \<le> 3" for w l
    using T(10) table_pagesI that by blast
  have old: "table_at s root w l = Some d" if "mappable w" "l \<le> 3" "table_at ?s' root w l = Some d" "d \<noteq> c" for w l d
    using walk [OF that(1,2)] that by (auto split: if_splits)
  have new: "l = 3 \<and> same_path 3 v w" if "mappable w" "l \<le> 3" "table_at ?s' root w l = Some c" for w l
    using walk [OF that(1,2)] that no_c by (auto split: if_splits)
  have "tree_ok ?s' root" unfolding tree_ok_def
  proof (intro conjI allI impI)
    show "page_aligned root" using T(1) by (simp add: tree_ok_def)
    fix u w i j d
    assume A: "mappable u \<and> mappable w \<and> i \<le> 3 \<and> j \<le> 3 \<and> table_at ?s' root u i = Some d \<and> table_at ?s' root w j = Some d"
    have "i = j \<and> same_path i u w"
    proof (cases "d = c")
      case True
      then have "i = 3 \<and> same_path 3 v u" "j = 3 \<and> same_path 3 v w" using A new by auto
      then show ?thesis by (auto simp: same_path_def)
    next
      case False
      then show ?thesis using A old tree_okD [OF T(1)] by blast
    qed
    then show "i = j" "same_path i u w" by auto
  qed
  moreover have pages: "d = c \<or> d \<in> table_pages s root" if "d \<in> table_pages ?s' root" for d
    using that old table_pagesI unfolding table_pages_def by blast
  moreover have "free_pages ?s' ps" unfolding share_def
    using T(3,5) P(1,2) level_index_less by (intro free_pages_write) auto
  ultimately have "paging_ok ?s' root ps" using T(5,6) P(3) by (auto simp: paging_ok_def)
  moreover have "\<exists>w. mappable w \<and> table_at ?s' root w 3 = Some d" if d: "d \<in> table_pages ?s' root" "d \<in> table_pages s other" for d
  proof (cases "d = c")
    case True
    then show ?thesis using T(4) walk [OF T(4), of 3] by (intro exI [of _ v]) simp
  next
    case False
    then have "d \<in> table_pages s root" using pages [OF d(1)] by simp
    then obtain w where w: "mappable w" "table_at s root w 3 = Some d" using T(7) d(2) by blast
    obtain u i where u: "mappable u" "i \<le> 3" "table_at ?s' root u i = Some d" using d(1) unfolding table_pages_def by blast
    then have "i = 3" using tree_okD [OF T(1) u(1) w(1), of i 3 d] old [OF u False] w(2) by simp
    then show ?thesis using u by blast
  qed
  ultimately show ?thesis using T(6) share_other(3,4) [OF S] by (auto simp: apart_def)
qed

section \<open>The copies\<close>

text \<open>
  While the root is built: the addresses of \<open>areas\<close> have the entries of the running space as it was at the
  start, all other addresses have none, and the running space is as it was.
\<close>

definition building :: "'a kmem_scheme \<Rightarrow> 'a kmem_scheme \<Rightarrow> u64 \<Rightarrow> u64 list \<Rightarrow> u64 set \<Rightarrow> bool" where
  "building s\<^sub>0 s root ps areas \<longleftrightarrow> (let cur = cr3_register s\<^sub>0 in
     cr3_register s = cur \<and> apart s root cur ps \<and>
     (\<forall>w. mappable w \<longrightarrow> pte s root w = (if \<exists>u \<in> areas. same_path 3 u w then pte s\<^sub>0 cur w else 0)) \<and>
     (\<forall>w. mappable w \<longrightarrow> pte s cur w = pte s\<^sub>0 cur w) \<and>
     (\<forall>w l. mappable w \<and> l \<le> 3 \<longrightarrow> table_at s cur w l = table_at s\<^sub>0 cur w l) \<and>
     table_pages s cur = table_pages s\<^sub>0 cur \<and>
     (\<forall>w c. mappable w \<and> table_at s root w 3 = Some c \<and> c \<in> table_pages s\<^sub>0 cur \<longrightarrow>
        (\<exists>u \<in> areas. same_path 3 u w) \<and> table_at s\<^sub>0 cur w 3 = Some c) \<and>
     phy_read64 s (root + 384 * 8) = phy_read64 s\<^sub>0 (cur + 384 * 8))"

lemma buildingD:
  assumes "building s\<^sub>0 s root ps areas"
  shows "cr3_register s = cr3_register s\<^sub>0" "apart s root (cr3_register s\<^sub>0) ps"
    and "mappable w \<Longrightarrow> pte s root w = (if \<exists>u \<in> areas. same_path 3 u w then pte s\<^sub>0 (cr3_register s\<^sub>0) w else 0)"
    and "mappable w \<Longrightarrow> pte s (cr3_register s\<^sub>0) w = pte s\<^sub>0 (cr3_register s\<^sub>0) w"
    and "mappable w \<Longrightarrow> l \<le> 3 \<Longrightarrow> table_at s (cr3_register s\<^sub>0) w l = table_at s\<^sub>0 (cr3_register s\<^sub>0) w l"
    and "table_pages s (cr3_register s\<^sub>0) = table_pages s\<^sub>0 (cr3_register s\<^sub>0)"
    and "mappable w \<Longrightarrow> table_at s root w 3 = Some c \<Longrightarrow> c \<in> table_pages s\<^sub>0 (cr3_register s\<^sub>0) \<Longrightarrow>
      (\<exists>u \<in> areas. same_path 3 u w) \<and> table_at s\<^sub>0 (cr3_register s\<^sub>0) w 3 = Some c"
    and "phy_read64 s (root + 384 * 8) = phy_read64 s\<^sub>0 (cr3_register s\<^sub>0 + 384 * 8)"
  using assms unfolding building_def Let_def by blast+

lemma apart_leaf:
  "apart s root other ps \<Longrightarrow> c \<in> table_pages s root \<Longrightarrow> c \<in> table_pages s other \<Longrightarrow>
    \<exists>w. mappable w \<and> table_at s root w 3 = Some c"
  unfolding apart_def by blast

lemma building_grown:
  assumes B: "building s\<^sub>0 s root ps areas" and g: "grown root (take m ps) s s'" and ok: "paging_ok s' root (drop m ps)"
  shows "building s\<^sub>0 s' root (drop m ps) areas"
proof -
  note D = buildingD [OF B] and G = grown_apart [OF buildingD(2) [OF B] g ok]
  have kept: "(\<exists>u \<in> areas. same_path 3 u w) \<and> table_at s\<^sub>0 (cr3_register s\<^sub>0) w 3 = Some c"
    if w: "mappable w" "table_at s' root w 3 = Some c" "c \<in> table_pages s\<^sub>0 (cr3_register s\<^sub>0)" for w c
  proof -
    have "c \<in> table_pages s' root" using table_pagesI w(1,2) by blast
    moreover have "c \<notin> set (take m ps)"
      using D(2,6) w(3) set_take_subset [of m ps] by (auto simp: apart_def)
    ultimately have "c \<in> table_pages s root" using g by (auto simp: grown_def)
    then obtain w' where w': "mappable w'" "table_at s root w' 3 = Some c"
      using apart_leaf [OF D(2)] D(6) w(3) by blast
    then have "table_at s' root w' 3 = Some c" using g by (simp add: grown_def)
    then have p: "same_path 3 w' w"
      using tree_okD [OF _ w'(1) w(1), of s' root 3 3 c] ok w(2) by (simp add: paging_ok_def)
    then show ?thesis using D(7) [OF w' w(3)] table_at_same_path [OF p, of s\<^sub>0] by (auto simp: same_path_def)
  qed
  show ?thesis unfolding building_def Let_def
    using D(1,3-6,8) G(1-4) g kept by (auto simp: grown_def)
qed

lemma copy_area:
  assumes B: "building s\<^sub>0 s root ps areas" and v: "mappable v" and len: "2 \<le> length ps"
    and t: "table_at s\<^sub>0 (cr3_register s\<^sub>0) v 3 = Some c" and new: "\<forall>u \<in> areas. \<not> same_path 3 u v"
  shows "\<exists>m \<le> 2. building s\<^sub>0 (copy_entry root s (v, 2)) root (drop m ps) (insert v areas)"
proof -
  let ?cur = "cr3_register s\<^sub>0"
  have "paging_ok s root ps" using buildingD(2) [OF B] by (simp add: apart_def)
  then obtain s1 b m where C: "kmem_paging_addr_create s root v 2 = (s1, b + level_index 2 v * 8)"
    "m \<le> 2" "paging_ok s1 root (drop m ps)" "grown root (take m ps) s s1" "table_at s1 root v 2 = Some b"
    using plain.create_addr [OF _ v _ len, of s root, folded kmem_paging_addr_create_def] by auto
  note B1 = building_grown [OF B C(4,3)] and D = buildingD [OF building_grown [OF B C(4,3)]]
  have tree: "tree_ok s1 root" "tree_ok s1 ?cur" using C(3) D(2) by (simp_all add: apart_def paging_ok_def)
  have t1: "table_at s1 ?cur v 3 = Some c" using D(5) [OF v] t by simp
  then obtain d where d: "table_at s1 ?cur v 2 = Some d" using table_at_Some_mono [OF t1, of 2] by auto
  define e where "e = phy_read64 s1 (d + level_index 2 v * 8)"
  have e: "e AND 1 \<noteq> 0" "e AND NOT 0xfff = c"
    using t1 d by (auto simp: table_at_3 Let_def e_def split: if_splits)
  have "kmem_paging_addr_create s1 ?cur v 2 = (s1, d + level_index 2 v * 8)"
    by (simp add: kmem_paging_addr_create_def paging_addr_create_with_def paging_addr_table d)
  then have copy: "copy_entry root s (v, 2) = share s1 v b e"
    using C(1) D(1) by (simp add: copy_entry_def share_def e_def kmem_current_def)
  have c: "c \<in> table_pages s\<^sub>0 ?cur" by (rule table_pagesI [OF v _ t]) simp
  have "c \<notin> table_pages s1 root"
  proof
    assume "c \<in> table_pages s1 root"
    then obtain w where w: "mappable w" "table_at s1 root w 3 = Some c"
      using apart_leaf [OF D(2)] D(6) c by blast
    from D(7) [OF w c] obtain u where u: "u \<in> areas" "same_path 3 u w" "table_at s\<^sub>0 ?cur w 3 = Some c" by blast
    have "table_at s1 ?cur w 3 = Some c" using D(5) [OF w(1)] u(3) by simp
    then have "same_path 3 w v" using tree_okD [OF tree(2) w(1) v, of 3 3 c] t1 by simp
    then show False using new u(1,2) by (auto simp: same_path_def)
  qed
  then have S: "shares s1 root ?cur (drop m ps) v b c e"
    using D(2) v C(5) t1 e by (simp add: shares_def)
  note O = share_other [OF S] and W = share_walk [OF S, of _ 3] and P = share_pte [OF S]
  have "root \<noteq> b" using tree_okD [OF tree(1) v v, of 2 0 b] C(5) by auto
  then have phy: "phy_read64 (share s1 v b e) (root + 384 * 8) = phy_read64 s\<^sub>0 (?cur + 384 * 8)"
    using share_read [OF S, of root 384] tree(1) D(8) by (simp add: tree_ok_def)
  have known: "(\<exists>u \<in> insert v areas. same_path 3 u w) \<and> table_at s\<^sub>0 ?cur w 3 = Some c'"
    if w: "mappable w" "table_at (share s1 v b e) root w 3 = Some c'" "c' \<in> table_pages s\<^sub>0 ?cur" for w c'
  proof (cases "same_path 3 v w")
    case True
    then show ?thesis using W [OF w(1)] w(2) t table_at_same_path [OF True, of s\<^sub>0] by simp
  next
    case False
    then show ?thesis using W [OF w(1)] w D(7) [OF w(1), of c'] by simp
  qed
  have ptes: "pte (share s1 v b e) root w = (if \<exists>u \<in> insert v areas. same_path 3 u w then pte s\<^sub>0 ?cur w else 0)"
    if "mappable w" for w
    using P [OF that] D(3,4) [OF that] by auto
  have "cr3_register (share s1 v b e) = ?cur" using D(1) by (simp add: share_def)
  then have "building s\<^sub>0 (share s1 v b e) root (drop m ps) (insert v areas)"
    unfolding building_def Let_def using share_apart [OF S] O D(4-6) phy known ptes by simp
  then show ?thesis using C(2) unfolding copy by blast
qed

text \<open>The new page as a root: empty but for the entry of the physical memory map.\<close>

lemma building_start:
  assumes ok: "paging_ok s\<^sub>0 (cr3_register s\<^sub>0) (p # ps)"
  shows "building s\<^sub>0 (copy_entry p (clear_table (fst (kmem_getpage s\<^sub>0)) p) (PHY_MAP_BASE, 0)) p ps {}"
proof -
  let ?cur = "cr3_register s\<^sub>0" and ?g = "fst (kmem_getpage s\<^sub>0)"
  let ?s1 = "clear_table ?g p"
  define e where "e = phy_read64 ?s1 (?cur + 384 * 8)"
  let ?s2 = "phy_write64 ?s1 (p + 384 * 8) e"
  have idx: "level_index 0 PHY_MAP_BASE = 384" by (simp add: level_index_def PHY_MAP_BASE_def)
  have copy: "copy_entry p ?s1 (PHY_MAP_BASE, 0) = ?s2"
    by (simp add: copy_entry_def kmem_paging_addr_create_def paging_addr_create_with_def paging_addr_table idx
        kmem_current_def e_def)
  have tree: "tree_ok s\<^sub>0 ?cur" and f: "free_pages s\<^sub>0 (p # ps)" and nt: "set (p # ps) \<inter> table_pages s\<^sub>0 ?cur = {}"
    using ok by (auto simp: paging_ok_def)
  have p: "page_aligned p" "p \<notin> set ps" "p \<notin> table_pages s\<^sub>0 ?cur" using f nt by (auto simp: free_pages_def)
  have cur: "page_aligned ?cur" using tree by (simp add: tree_ok_def)
  have m0: "mappable 0" by (simp add: mappable_def level_index_def)
  have "?cur \<in> table_pages s\<^sub>0 ?cur" by (rule table_pagesI [OF m0, of 0]) simp_all
  then have cp: "?cur \<noteq> p" using p(3) by metis
  have read: "phy_read64 ?s2 (d + i * 8) = (if d = p then (if i = 384 then e else 0) else phy_read64 s\<^sub>0 (d + i * 8))"
    if "page_aligned d" "unat i < 512" for d i
    using entry_read_write [OF p(1) _ that, where i = 384 and s = ?s1 and w = e] clear_table_entry [OF p(1) that, of ?g] by auto
  have e: "e = phy_read64 s\<^sub>0 (?cur + 384 * 8)"
    unfolding e_def using clear_table_entry [OF p(1) cur, of 384 ?g] cp by simp
  have agree: "phy_read64 ?s2 (d + i * 8) = phy_read64 s\<^sub>0 (d + i * 8)" if "d \<in> table_pages s\<^sub>0 ?cur" "unat i < 512" for d i
    using read [OF table_pages_aligned [OF tree that(1)] that(2)] p(3) that(1) by metis
  note A = tree_agree [of s\<^sub>0 ?cur ?s2, OF agree]
  have walk: "table_at ?s2 p w l = (if l = 0 then Some p else None)" if "mappable w" for w l
  proof (induction l)
    case (Suc l)
    then show ?case
      using read [OF p(1) level_index_less, of 0 w] that by (cases l) (simp_all add: mappable_def Let_def)
  qed simp
  have pages: "table_pages ?s2 p = {p}" using m0 walk by (auto simp: table_pages_def split: if_splits)
  have "tree_ok ?s2 p" using p(1) walk by (auto simp: tree_ok_def split: if_splits)
  moreover have "free_pages ?s2 ps"
    using p getpage_free_pages [OF f] by (intro free_pages_write free_pages_clear) simp_all
  ultimately have "apart ?s2 p ?cur ps"
    using p pages nt A(3,4) tree by (auto simp: apart_def paging_ok_def)
  moreover have none: "table_at ?s2 p w 3 = None" if "mappable w" for w using walk [OF that, of 3] by simp
  moreover have "pte ?s2 p w = 0" if "mappable w" for w using none [OF that] by (simp add: pte_table)
  moreover have "phy_read64 ?s2 (p + 384 * 8) = phy_read64 s\<^sub>0 (?cur + 384 * 8)"
    using read [OF p(1), of 384] e by simp
  ultimately show ?thesis
    unfolding copy building_def Let_def using A(1-3) by auto
qed

section \<open>The whole root\<close>

definition kernel_area :: "u64 \<Rightarrow> bool" where
  "kernel_area w \<longleftrightarrow> (\<exists>v \<in> {TASK_BASE, DESC_BASE, KMEM_BASE_ADDR, STATUS_BASE}. same_path 3 v w)"

lemma area_indices:
  "level_index 0 TASK_BASE = 511" "level_index 0 DESC_BASE = 511" "level_index 0 KMEM_BASE_ADDR = 511" "level_index 0 STATUS_BASE = 288"
  "level_index 2 TASK_BASE = 511" "level_index 2 DESC_BASE = 510" "level_index 2 KMEM_BASE_ADDR = 509"
  by (simp_all add: level_index_def TASK_BASE_def DESC_BASE_def KMEM_BASE_ADDR_def STATUS_BASE_def drop_bit_eq_div)

lemma areas_distinct:
  "mappable TASK_BASE" "mappable DESC_BASE" "mappable KMEM_BASE_ADDR" "mappable STATUS_BASE"
  "\<not> same_path 3 TASK_BASE DESC_BASE" "\<not> same_path 3 DESC_BASE KMEM_BASE_ADDR" "\<not> same_path 3 TASK_BASE KMEM_BASE_ADDR"
  "\<not> same_path 3 TASK_BASE STATUS_BASE" "\<not> same_path 3 DESC_BASE STATUS_BASE" "\<not> same_path 3 KMEM_BASE_ADDR STATUS_BASE"
proof -
  have "level_index 2 v = level_index 2 w" "level_index 0 v = level_index 0 w" if "same_path 3 v w" for v w
    using that by (simp_all add: same_path_def)
  then show "\<not> same_path 3 TASK_BASE DESC_BASE" "\<not> same_path 3 DESC_BASE KMEM_BASE_ADDR" "\<not> same_path 3 TASK_BASE KMEM_BASE_ADDR"
    "\<not> same_path 3 TASK_BASE STATUS_BASE" "\<not> same_path 3 DESC_BASE STATUS_BASE" "\<not> same_path 3 KMEM_BASE_ADDR STATUS_BASE"
    using area_indices by fastforce+
qed (simp_all add: mappable_def area_indices)

lemma kernel_area_low:
  assumes "level_index 0 w = 0"
  shows "mappable w" "\<not> kernel_area w"
proof -
  have "level_index 0 v = level_index 0 w" if "same_path 3 v w" for v using that by (simp add: same_path_def)
  then show "\<not> kernel_area w" using area_indices(1-4) assms unfolding kernel_area_def by fastforce
qed (simp add: mappable_def assms)

lemma create_root_building:
  assumes ok: "paging_ok s (cr3_register s) (p # ps)" and len: "8 \<le> length ps"
    and mapped: "\<forall>v \<in> {TASK_BASE, DESC_BASE, KMEM_BASE_ADDR, STATUS_BASE}. table_at s (cr3_register s) v 3 \<noteq> None"
  shows "\<exists>s' k. kmem_create_root s = (s', p) \<and> k \<le> 8 \<and>
    building s s' p (drop k ps) {STATUS_BASE, KMEM_BASE_ADDR, DESC_BASE, TASK_BASE}"
proof -
  obtain t d k st where t: "table_at s (cr3_register s) TASK_BASE 3 = Some t" "table_at s (cr3_register s) DESC_BASE 3 = Some d"
    "table_at s (cr3_register s) KMEM_BASE_ADDR 3 = Some k" "table_at s (cr3_register s) STATUS_BASE 3 = Some st"
    using mapped by auto
  have p: "snd (kmem_getpage s) = p" using ok getpage_free_pages by (auto simp: paging_ok_def)
  let ?s0 = "copy_entry p (clear_table (fst (kmem_getpage s)) p) (PHY_MAP_BASE, 0)"
  note B0 = building_start [OF ok]
  obtain m1 where m1: "m1 \<le> 2" "building s (copy_entry p ?s0 (TASK_BASE, 2)) p (drop m1 ps) {TASK_BASE}"
    using copy_area [OF B0 areas_distinct(1) _ t(1)] len by auto
  have l1: "2 \<le> length (drop m1 ps)" using len m1(1) by simp
  let ?s1 = "copy_entry p ?s0 (TASK_BASE, 2)"
  obtain m2 where m2: "m2 \<le> 2" "building s (copy_entry p ?s1 (DESC_BASE, 2)) p (drop m2 (drop m1 ps)) {DESC_BASE, TASK_BASE}"
    using copy_area [OF m1(2) areas_distinct(2) l1 t(2)] areas_distinct(5) by blast
  have l2: "2 \<le> length (drop m2 (drop m1 ps))" using len m1(1) m2(1) by simp
  let ?s2 = "copy_entry p ?s1 (DESC_BASE, 2)"
  obtain m3 where m3: "m3 \<le> 2"
    "building s (copy_entry p ?s2 (KMEM_BASE_ADDR, 2)) p (drop m3 (drop m2 (drop m1 ps))) {KMEM_BASE_ADDR, DESC_BASE, TASK_BASE}"
    using copy_area [OF m2(2) areas_distinct(3) l2 t(3)] areas_distinct(6,7) by blast
  have l3: "2 \<le> length (drop m3 (drop m2 (drop m1 ps)))" using len m1(1) m2(1) m3(1) by simp
  let ?s3 = "copy_entry p ?s2 (KMEM_BASE_ADDR, 2)"
  obtain m4 where m4: "m4 \<le> 2"
    "building s (copy_entry p ?s3 (STATUS_BASE, 2)) p (drop m4 (drop m3 (drop m2 (drop m1 ps))))
       {STATUS_BASE, KMEM_BASE_ADDR, DESC_BASE, TASK_BASE}"
    using copy_area [OF m3(2) areas_distinct(4) l3 t(4)] areas_distinct(8-10) by blast
  have "kmem_create_root s = (copy_entry p ?s3 (STATUS_BASE, 2), p)"
    using p by (auto simp: kmem_create_root_def split: prod.split)
  then show ?thesis
    using m4(2) m1(1) m2(1) m3(1) m4(1) by (intro exI [of _ "copy_entry p ?s3 (STATUS_BASE, 2)"] exI [of _ "m4 + (m3 + (m2 + m1))"]) (simp add: add.assoc)
qed

lemma building_apart:
  assumes B: "building s\<^sub>0 s root ps areas" and a: "mappable a" "\<not> (\<exists>u \<in> areas. same_path 3 u a)"
  shows "apart s (cr3_register s\<^sub>0) root ps" "own_leaf s root (cr3_register s\<^sub>0) a" "own_leaf s (cr3_register s\<^sub>0) root a"
proof -
  let ?cur = "cr3_register s\<^sub>0"
  note D = buildingD [OF B]
  have both: "\<exists>w. mappable w \<and> table_at s ?cur w 3 = Some c \<and> (\<exists>u \<in> areas. same_path 3 u w)"
    if c: "c \<in> table_pages s root" "c \<in> table_pages s ?cur" for c
  proof -
    obtain w where w: "mappable w" "table_at s root w 3 = Some c" using apart_leaf [OF D(2) c] by blast
    then show ?thesis using D(7) [OF w] D(5) [OF w(1), of 3] D(6) c(2) by auto
  qed
  have ok: "paging_ok s root ps" "tree_ok s ?cur" "set ps \<inter> table_pages s ?cur = {}" using D(2) by (simp_all add: apart_def)
  show "apart s ?cur root ps"
    unfolding apart_def using ok both by (intro conjI ballI) (auto simp: paging_ok_def, blast)
  show "own_leaf s root ?cur a"
  proof (cases "table_at s root a 3")
    case (Some b)
    then show ?thesis using D(6,7) a by (auto simp: own_leaf_def)
  qed (simp add: own_leaf_def)
  show "own_leaf s ?cur root a"
  proof (cases "table_at s ?cur a 3")
    case (Some b)
    have "b \<notin> table_pages s root"
    proof
      assume "b \<in> table_pages s root"
      moreover have "b \<in> table_pages s ?cur" by (rule table_pagesI [OF a(1) _ Some]) simp
      ultimately obtain w u where w: "mappable w" "table_at s ?cur w 3 = Some b" "u \<in> areas" "same_path 3 u w" using both by blast
      then have "same_path 3 w a" using tree_okD [OF ok(2) w(1) a(1), of 3 3 b] Some by simp
      then show False using a(2) w(3,4) by (auto simp: same_path_def)
    qed
    then show ?thesis using Some by (simp add: own_leaf_def)
  qed (simp add: own_leaf_def)
qed

section \<open>Properties\<close>

text \<open>A space with the kernel's areas, with its root at 0x1000, made with twenty-two free pages.\<close>

definition many_pages :: "u64 list" where
  "many_pages = map (\<lambda>i. of_nat i * 0x1000) [2..<24]"

definition example_kernel :: kmem where
  "example_kernel = foldl (\<lambda>s v. kmem_map s 0x1000 v 0x99000 KMEM_MAP_DATA)
     (foldl kmem_unuse empty_kmem (rev many_pages)) [TASK_BASE, DESC_BASE, KMEM_BASE_ADDR, STATUS_BASE]"

lemma many_pages_ok:
  "distinct many_pages" "\<forall>p \<in> set many_pages. page_aligned p" "0x1000 \<notin> set many_pages" "length many_pages = 22"
  by (simp_all add: many_pages_def upt_conv_Cons page_aligned_def)

lemma many_pages_paging: "paging_ok (foldl kmem_unuse empty_kmem (rev many_pages)) 0x1000 many_pages"
proof -
  let ?s = "foldl kmem_unuse empty_kmem (rev many_pages)"
  have r: "page_aligned 0x1000" by (simp add: page_aligned_def)
  have "phy_read64 ?s (0x1000 + i * 8) = 0" if "unat i < 512" for i
    using unuse_list_read [of "rev many_pages" "0x1000" i empty_kmem] that many_pages_ok r by (simp add: phy_read64_empty)
  then have t: "tree_ok ?s 0x1000" "table_pages ?s 0x1000 = {0x1000}"
    using empty_table_ok(2,3) [OF r, of ?s] by auto
  have "free_pages empty_kmem []" by (simp add: free_pages_def)
  from free_list.pushes [OF this, of "rev many_pages"] many_pages_ok
  have "free_pages ?s many_pages" by simp
  then show ?thesis using t many_pages_ok(3) by (simp add: paging_ok_def)
qed

lemma map_area:
  assumes "paging_ok s root ps" "mappable v" "n + 3 \<le> length ps"
    and "\<forall>u \<in> us. mappable u \<and> table_at s root u 3 \<noteq> None"
  shows "\<exists>qs. paging_ok (kmem_map s root v page flags) root qs \<and> n \<le> length qs \<and>
    (\<forall>u \<in> insert v us. mappable u \<and> table_at (kmem_map s root v page flags) root u 3 \<noteq> None)"
proof -
  obtain m where "m \<le> 3" "paging_ok (kmem_map s root v page flags) root (drop m ps)"
    "table_at (kmem_map s root v page flags) root v 3 \<noteq> None"
    "\<And>w. mappable w \<Longrightarrow> table_at s root w 3 \<noteq> None \<Longrightarrow> table_at (kmem_map s root v page flags) root w 3 \<noteq> None"
    using kmem_map_grows [OF assms(1,2), of page flags] assms(3) unfolding Let_def by auto
  then show ?thesis using assms by (intro exI [of _ "drop m ps"]) auto
qed

lemma map_cr3:
  assumes "paging_ok s root ps" "mappable v" "3 \<le> length ps"
  shows "cr3_register (kmem_map s root v page flags) = cr3_register s"
proof -
  obtain s1 b m where C: "kmem_paging_addr_create s root v 3 = (s1, b + level_index 3 v * 8)" "grown root (take m ps) s s1"
    using plain.create_addr [OF assms(1,2) _ assms(3), folded kmem_paging_addr_create_def] by auto
  then show ?thesis by (simp add: kmem_map_def grown_def)
qed

lemma example_kernel_ok:
  "\<exists>p ps. paging_ok example_kernel 0x1000 (p # ps) \<and> 8 \<le> length ps"
  "\<forall>v \<in> {TASK_BASE, DESC_BASE, KMEM_BASE_ADDR, STATUS_BASE}. table_at example_kernel 0x1000 v 3 \<noteq> None"
  "cr3_register example_kernel = 0x1000"
proof -
  let ?map = "\<lambda>s v. kmem_map s 0x1000 v 0x99000 KMEM_MAP_DATA" and ?s = "foldl kmem_unuse empty_kmem (rev many_pages)"
  have c0: "cr3_register (foldl kmem_unuse s ps) = cr3_register s" for s :: kmem and ps
    by (induction ps arbitrary: s) (simp_all add: kmem_unuse_def)
  obtain q1 where q1: "paging_ok (?map ?s TASK_BASE) 0x1000 q1" "19 \<le> length q1"
    "\<forall>u \<in> {TASK_BASE}. mappable u \<and> table_at (?map ?s TASK_BASE) 0x1000 u 3 \<noteq> None"
    using map_area [OF many_pages_paging areas_distinct(1), where n = 19 and us = "{}" and page = "0x99000" and flags = KMEM_MAP_DATA] many_pages_ok(4) by auto
  let ?s1 = "?map ?s TASK_BASE"
  obtain q2 where q2: "paging_ok (?map ?s1 DESC_BASE) 0x1000 q2" "16 \<le> length q2"
    "\<forall>u \<in> {DESC_BASE, TASK_BASE}. mappable u \<and> table_at (?map ?s1 DESC_BASE) 0x1000 u 3 \<noteq> None"
    using map_area [OF q1(1) areas_distinct(2) _ q1(3), where n = 16 and page = "0x99000" and flags = KMEM_MAP_DATA] q1(2) by auto
  let ?s2 = "?map ?s1 DESC_BASE"
  obtain q3 where q3: "paging_ok (?map ?s2 KMEM_BASE_ADDR) 0x1000 q3" "13 \<le> length q3"
    "\<forall>u \<in> {KMEM_BASE_ADDR, DESC_BASE, TASK_BASE}. mappable u \<and> table_at (?map ?s2 KMEM_BASE_ADDR) 0x1000 u 3 \<noteq> None"
    using map_area [OF q2(1) areas_distinct(3) _ q2(3), where n = 13 and page = "0x99000" and flags = KMEM_MAP_DATA] q2(2) by auto
  let ?s3 = "?map ?s2 KMEM_BASE_ADDR"
  obtain q4 where q4: "paging_ok (?map ?s3 STATUS_BASE) 0x1000 q4" "10 \<le> length q4"
    "\<forall>u \<in> {STATUS_BASE, KMEM_BASE_ADDR, DESC_BASE, TASK_BASE}. mappable u \<and> table_at (?map ?s3 STATUS_BASE) 0x1000 u 3 \<noteq> None"
    using map_area [OF q3(1) areas_distinct(4) _ q3(3), where n = 10 and page = "0x99000" and flags = KMEM_MAP_DATA] q3(2) by auto
  have e: "example_kernel = ?map ?s3 STATUS_BASE" by (simp add: example_kernel_def)
  show "\<exists>p ps. paging_ok example_kernel 0x1000 (p # ps) \<and> 8 \<le> length ps"
    using q4(1,2) unfolding e by (intro exI [of _ "hd q4"] exI [of _ "tl q4"]) (cases q4, simp_all)
  show "\<forall>v \<in> {TASK_BASE, DESC_BASE, KMEM_BASE_ADDR, STATUS_BASE}. table_at example_kernel 0x1000 v 3 \<noteq> None"
    using q4(3) unfolding e by blast
  show "cr3_register example_kernel = 0x1000"
    unfolding e using map_cr3 [OF q3(1) areas_distinct(4)] map_cr3 [OF q2(1) areas_distinct(3)] map_cr3 [OF q1(1) areas_distinct(2)]
      map_cr3 [OF many_pages_paging areas_distinct(1)] q1(2) q2(2) q3(2) many_pages_ok(4)
    by (simp add: c0 empty_kmem_def)
qed

text \<open>
  C9: \<^verbatim>\<open>kmem_create_root\<close> makes a new address space that shares the kernel's areas and nothing else.
  The root is the first free page; the entries of the task table, the descriptors, the memory
  manager and the status page, 2MB each, and that of the physical memory map are those of the
  running space, and no other address is mapped.  The running space is as it was.  From then on
  the two spaces are apart in both directions: an address outside the areas has no table that
  the other space uses, which is what keeps mapping into one from changing the other.
\<close>

theorem create_root_shares_kernel:
  assumes "cr3_register s = cur" "paging_ok s cur (p # ps)" "8 \<le> length ps"
    and "\<forall>v \<in> {TASK_BASE, DESC_BASE, KMEM_BASE_ADDR, STATUS_BASE}. table_at s cur v 3 \<noteq> None"
  shows "\<exists>s' k. kmem_create_root s = (s', p) \<and> k \<le> 8 \<and>
    (\<forall>w. mappable w \<longrightarrow> pte s' p w = (if kernel_area w then pte s cur w else 0)) \<and>
    phy_read64 s' (p + 384 * 8) = phy_read64 s (cur + 384 * 8) \<and>
    (\<forall>w. mappable w \<longrightarrow> pte s' cur w = pte s cur w) \<and>
    apart s' p cur (drop k ps) \<and> apart s' cur p (drop k ps) \<and>
    (\<forall>a. mappable a \<and> \<not> kernel_area a \<longrightarrow> own_leaf s' p cur a \<and> own_leaf s' cur p a)"
proof -
  let ?areas = "{STATUS_BASE, KMEM_BASE_ADDR, DESC_BASE, TASK_BASE}"
  obtain s' k where r: "kmem_create_root s = (s', p)" "k \<le> 8" "building s s' p (drop k ps) ?areas"
    using create_root_building [of s p ps] assms by blast
  have k: "kernel_area w \<longleftrightarrow> (\<exists>u \<in> ?areas. same_path 3 u w)" for w by (auto simp: kernel_area_def)
  have m: "mappable 0" "\<not> kernel_area 0" by (rule kernel_area_low, simp add: level_index_def)+
  note D = buildingD [OF r(3), unfolded assms(1)] and A = building_apart [OF r(3), unfolded assms(1)]
  show ?thesis
    using r(1,2) D(2,3,4,8) A(1) [OF m(1)] m(2) A(2,3) unfolding k by (intro exI [of _ s'] exI [of _ k]) simp
qed

theorem create_root_shares_kernel_witness:
  "\<exists>s' p. kmem_create_root example_kernel = (s', p) \<and>
     pte s' p TASK_BASE = pte example_kernel 0x1000 TASK_BASE \<and> pte s' p 0x400000 = 0 \<and> own_leaf s' p 0x1000 0x400000"
proof -
  have m: "mappable 0x400000" "\<not> kernel_area 0x400000" "kernel_area TASK_BASE"
    by (rule kernel_area_low, simp add: level_index_def drop_bit_eq_div)+ (simp add: kernel_area_def)
  obtain p ps where p: "paging_ok example_kernel 0x1000 (p # ps)" "8 \<le> length ps" using example_kernel_ok(1) by blast
  show ?thesis
    using create_root_shares_kernel [OF example_kernel_ok(3) p example_kernel_ok(2)] m areas_distinct(1) by auto
qed

end
