(* ===== verification/Sched_Choose.thy ===== *)
theory Sched_Choose
  imports Klib_Task
begin

text \<open>
  The choice of the next task in \<^verbatim>\<open>kernel/scheduler/scheduler.c\<close>: round robin over the slots
  of the task table, from the slot after the current one.
\<close>

definition wanted_value :: u64 where "wanted_value = TASK_STATE_VALID OR TASK_STATE_RUNNABLE"

definition wanted_mask :: u64 where
  "wanted_mask = TASK_STATE_VALID OR TASK_STATE_RUNNABLE OR TASK_STATE_BLOCKED"

text \<open>
  The \<^verbatim>\<open>for\<close> loop stops at the first offset that leads to a wanted slot; \<^verbatim>\<open>None\<close> is the NULL
  that \<^verbatim>\<open>nts\<close> starts as when the current task is blocked.
\<close>

definition choose_next :: "task_table \<Rightarrow> nat \<Rightarrow> nat option" where
  "choose_next t current =
     (let nts = (if t current STATE AND TASK_STATE_BLOCKED \<noteq> 0 then None else Some current);
          found = List.find (\<lambda>off.
            let i = (current + off) mod NUM_TASKS
            in i \<noteq> 0 \<and> t i STATE AND wanted_mask = wanted_value) [1..<NUM_TASKS]
      in case found of None \<Rightarrow> nts | Some off \<Rightarrow> Some ((current + off) mod NUM_TASKS))"

definition ready :: "task_table \<Rightarrow> nat \<Rightarrow> bool" where
  "ready t i \<longleftrightarrow> 0 < i \<and> i < NUM_TASKS \<and> t i STATE AND wanted_mask = wanted_value"

lemma NUM_TASKS_pos: "0 < NUM_TASKS" by (simp add: NUM_TASKS_def)

lemma choose_next_cases:
  obtains (found) off where "0 < off" "off < NUM_TASKS" "choose_next t current = Some ((current + off) mod NUM_TASKS)"
      "ready t ((current + off) mod NUM_TASKS)" "\<And>k. 0 < k \<Longrightarrow> k < off \<Longrightarrow> \<not> ready t ((current + k) mod NUM_TASKS)"
    | (none) "choose_next t current = (if t current STATE AND TASK_STATE_BLOCKED \<noteq> 0 then None else Some current)"
      "\<And>k. 0 < k \<Longrightarrow> k < NUM_TASKS \<Longrightarrow> \<not> ready t ((current + k) mod NUM_TASKS)"
proof -
  define P where "P = (\<lambda>off. let i = (current + off) mod NUM_TASKS in i \<noteq> 0 \<and> t i STATE AND wanted_mask = wanted_value)"
  have P: "P k \<longleftrightarrow> ready t ((current + k) mod NUM_TASKS)" for k
    using NUM_TASKS_pos by (auto simp: P_def ready_def Let_def)
  show thesis
  proof (cases "List.find P [1..<NUM_TASKS]")
    case None
    then have "choose_next t current = (if t current STATE AND TASK_STATE_BLOCKED \<noteq> 0 then None else Some current)"
      by (simp add: choose_next_def P_def Let_def)
    with None none show ?thesis by (simp add: find_upt_None P del: One_nat_def)
  next
    case (Some off)
    then have "choose_next t current = Some ((current + off) mod NUM_TASKS)"
      by (simp add: choose_next_def P_def Let_def)
    moreover have "0 < off \<and> off < NUM_TASKS \<and> P off \<and> (\<forall>j. 0 < j \<and> j < off \<longrightarrow> \<not> P j)"
      using Some unfolding find_upt_Some .
    ultimately show ?thesis using P by (intro found [of off]) blast+
  qed
qed

lemma ready_not_blocked: "ready t i \<Longrightarrow> t i STATE AND TASK_STATE_BLOCKED = 0"
proof -
  assume "ready t i"
  then have "(t i STATE AND wanted_mask) AND TASK_STATE_BLOCKED = wanted_value AND TASK_STATE_BLOCKED"
    by (simp add: ready_def)
  then show ?thesis
    by (simp add: wanted_mask_def wanted_value_def TASK_STATE_BLOCKED_def TASK_STATE_VALID_def
        TASK_STATE_RUNNABLE_def and.assoc)
qed

text \<open>The task that runs after \<open>k\<close> choices, when the table stays as it is.\<close>

fun chosen :: "task_table \<Rightarrow> nat \<Rightarrow> nat \<Rightarrow> nat option" where
  "chosen t current 0 = Some current"
| "chosen t current (Suc k) = Option.bind (choose_next t current) (\<lambda>i. chosen t i k)"

lemma chosen_one [simp]: "chosen t current (Suc 0) = choose_next t current"
  by (cases "choose_next t current") simp_all

lemma chosen_within:
  assumes "ready t j" "current < NUM_TASKS" "0 < d" "d \<le> NUM_TASKS" "(current + d) mod NUM_TASKS = j"
  shows "\<exists>k. 0 < k \<and> k \<le> d \<and> chosen t current k = Some j"
  using assms(2-)
proof (induction d arbitrary: current rule: less_induct)
  case (less d)
  show ?case
  proof (cases rule: choose_next_cases [of t current])
    case (found off)
    have "off \<le> d" using found(2,5) less.prems assms(1) by (metis not_le_imp_less)
    show ?thesis
    proof (cases "off = d")
      case True
      then show ?thesis using found(3) less.prems by (intro exI [of _ "Suc 0"]) simp
    next
      case False
      define next' where "next' = (current + off) mod NUM_TASKS"
      have "(next' + (d - off)) mod NUM_TASKS = j"
        using less.prems(4) le_add_diff_inverse [OF \<open>off \<le> d\<close>]
        by (simp add: next'_def mod_add_left_eq add.assoc del: Nat.add_diff_assoc)
      moreover have "next' < NUM_TASKS" using NUM_TASKS_pos by (simp add: next'_def)
      ultimately obtain k where "0 < k" "k \<le> d - off" "chosen t next' k = Some j"
        using less.IH [of "d - off" next'] le_trans [OF diff_le_self less.prems(3)] found(1) \<open>off \<le> d\<close> False
        by auto
      then show ?thesis using found(1,3) \<open>off \<le> d\<close>
        by (intro exI [of _ "Suc k"]) (simp add: next'_def)
    qed
  next
    case none
    have "d = NUM_TASKS" using none(2) less.prems assms(1) by (metis le_neq_implies_less)
    then have "j = current" using less.prems by simp
    then show ?thesis using none(1) ready_not_blocked [OF assms(1)] less.prems
      by (intro exI [of _ "Suc 0"]) simp
  qed
qed

section \<open>Properties\<close>

text \<open>
  C13: round robin is fair.  A task that is valid, runnable and not blocked is chosen within
  4096 choices, from whatever slot, as long as the table stays as it is.
\<close>

theorem choose_next_fair:
  assumes "ready t j" "current < NUM_TASKS"
  shows "\<exists>k. 0 < k \<and> k \<le> NUM_TASKS \<and> chosen t current k = Some j"
proof -
  define d where "d = (if current < j then j - current else NUM_TASKS + j - current)"
  have "0 < d" "d \<le> NUM_TASKS" "(current + d) mod NUM_TASKS = j"
    using assms by (auto simp: d_def ready_def)
  from chosen_within [OF assms this] show ?thesis using \<open>d \<le> NUM_TASKS\<close> by (meson order_trans)
qed

definition example_tasks :: task_table where
  "example_tasks = (\<lambda>i w. if w = STATE \<and> i \<in> {1, 5, 9} then 3 else 0)"

theorem choose_next_fair_witness:
  "(\<exists>k. 0 < k \<and> k \<le> NUM_TASKS \<and> chosen example_tasks 9 k = Some 5) \<and> choose_next example_tasks 9 = Some 1"
proof (rule conjI)
  have r: "ready example_tasks i \<longleftrightarrow> i \<in> {1, 5, 9}" for i
    by (auto simp: ready_def example_tasks_def wanted_value_def wanted_mask_def NUM_TASKS_def
        TASK_STATE_VALID_def TASK_STATE_RUNNABLE_def TASK_STATE_BLOCKED_def)
  show "\<exists>k. 0 < k \<and> k \<le> NUM_TASKS \<and> chosen example_tasks 9 k = Some 5"
    by (rule choose_next_fair) (simp_all add: r NUM_TASKS_def)
  show "choose_next example_tasks 9 = Some 1"
  proof (cases rule: choose_next_cases [of example_tasks 9])
    case (found off)
    have "\<not> 4088 < off" using found(5) [of 4088] by (auto simp: r NUM_TASKS_def)
    moreover have "(9 + off) mod NUM_TASKS \<in> {1, 5, 9}" using found(4) by (simp add: r)
    ultimately have "off = 4088" using found(1,2) by (auto simp: NUM_TASKS_def mod_if split: if_splits)
    then show ?thesis using found(3) by (simp add: NUM_TASKS_def)
  next
    case none
    then show ?thesis using none(2) [of 4088] by (simp add: r NUM_TASKS_def)
  qed
qed

text \<open>
  \<^verbatim>\<open>choose_next\<close> gives NULL exactly when the current task is blocked and no other task is
  ready; \<^verbatim>\<open>process_queue\<close> hands that NULL to \<^verbatim>\<open>transfer\<close>.
\<close>

theorem choose_next_null:
  "0 < current \<and> current < NUM_TASKS \<Longrightarrow>
   choose_next t current = None \<longleftrightarrow>
     t current STATE AND TASK_STATE_BLOCKED \<noteq> 0 \<and> \<not> (\<exists>i. ready t i)"
proof -
  assume c: "0 < current \<and> current < NUM_TASKS"
  show ?thesis
  proof (cases rule: choose_next_cases [of t current])
    case (found off)
    then show ?thesis by auto
  next
    case none
    have only: "i = current" if "ready t i" for i
    proof (rule ccontr)
      assume "i \<noteq> current"
      define k where "k = (if current < i then i - current else NUM_TASKS + i - current)"
      have "0 < k" "k < NUM_TASKS" "(current + k) mod NUM_TASKS = i"
        using that c \<open>i \<noteq> current\<close> by (auto simp: k_def ready_def)
      then show False using none(2) that by metis
    qed
    show ?thesis
    proof (cases "t current STATE AND TASK_STATE_BLOCKED = 0")
      case True
      then show ?thesis using none(1) by simp
    next
      case False
      then have "\<not> ready t i" for i using only ready_not_blocked by blast
      with False show ?thesis using none(1) by simp
    qed
  qed
qed

theorem choose_next_null_witness:
  "choose_next (\<lambda>i w. if i = 7 \<and> w = STATE then 0xb else 0) 7 = None"
proof -
  have "\<not> ready (\<lambda>i w. if i = 7 \<and> w = STATE then 0xb else 0) i" for i
    by (auto simp: ready_def wanted_value_def wanted_mask_def TASK_STATE_VALID_def TASK_STATE_RUNNABLE_def
        TASK_STATE_BLOCKED_def)
  then show ?thesis
    using choose_next_null [of 7 "\<lambda>i w. if i = 7 \<and> w = STATE then 0xb else 0"]
    by (simp add: NUM_TASKS_def TASK_STATE_BLOCKED_def)
qed

end
