(* ===== verification/Sched_State.thy ===== *)
theory Sched_State
  imports Sched_Mman Clib_Comm Klib_Task
begin

text \<open>
  The state of the scheduler process: the memory manager of \<^verbatim>\<open>mman.c\<close> (whose record it
  extends), the task table, the AVL tables of \<^verbatim>\<open>task.c\<close> and \<^verbatim>\<open>synch.c\<close>, the work queue of
  \<^verbatim>\<open>listen.c\<close>, and the heap.  A heap object of each C type is kept in a map of its own from
  addresses; an address that is not in the map of its type is not a live object, and using
  it is a fault, as is freeing it.  Channels are addressed by the scheduler's own mapping of
  their page.

  Which address \<^verbatim>\<open>heap_alloc\<close> gives out is the allocator's business: \<open>malloc_result\<close> is the
  sequence of its answers, and a theorem that needs a fresh one says so.  What a new block
  holds before it is written is \<open>uninit_info\<close>, any value at all, and what the two packet buffers
  on the stack of \<^verbatim>\<open>process\<close> hold is \<open>uninit_in\<close> and \<open>uninit_status\<close>.
\<close>

section \<open>Objects\<close>

record synch_wait_t =
  wait_next :: ptr
  wait_task_id :: u64

record synchobj_t =
  phy_addr :: u64
  head :: ptr

record page_object_t =
  pobj_next :: ptr
  pobj_object :: ptr

text \<open>The \<^verbatim>\<open>state\<close> pointer of a task is the slot of the task table it points to.\<close>

record task_info_t =
  info_id :: u64
  info_state :: nat
  info_root_id :: u64
  info_sin :: ptr
  info_sout :: ptr
  info_gin :: ptr
  info_synch :: ptr

record queue_entry =
  entry_task_id :: u64
  entry_info :: ptr

text \<open>
  \<^verbatim>\<open>sched_out_packet_t\<close>: the seven bytes of padding after the type are sent too.  The two
  words of the union are \<^verbatim>\<open>get_named.task_id\<close> and \<^verbatim>\<open>spawn.task_id\<close>, and \<^verbatim>\<open>spawn.root_id\<close>.
\<close>

record sched_out_packet_t =
  out_type :: u8
  out_padding :: "u8 list"
  out_req_id :: u64
  out_result :: u64
  out_task_id :: u64
  out_root_id :: u64

record sched = mman +
  tasks :: task_table
  task_map :: "(u64, ptr) avl_tree"
  named_tasks :: "(u8 list, u64) avl_tree"
  synch_objects :: "(u64, ptr) avl_tree"
  synch_pages :: "(u64, ptr) avl_tree"
  infos :: "ptr \<Rightarrow> task_info_t option"
  objects :: "ptr \<Rightarrow> synchobj_t option"
  waits :: "ptr \<Rightarrow> synch_wait_t option"
  pobjs :: "ptr \<Rightarrow> page_object_t option"
  channels :: "ptr \<Rightarrow> comm_t"
  queue :: "nat \<Rightarrow> queue_entry"
  queue_size :: nat
  malloc_result :: "nat \<Rightarrow> ptr"
  malloc_count :: nat
  uninit_info :: task_info_t
  uninit_in :: "u8 list"
  uninit_status :: sched_out_packet_t
  failed :: "unit run"

section \<open>Heap accesses\<close>

definition heap_alloc :: "sched \<Rightarrow> sched \<times> ptr" where
  "heap_alloc s = (s\<lparr>malloc_count := malloc_count s + 1\<rparr>, malloc_result s (malloc_count s))"

text \<open>An allocation whose block is written at once: on NULL that is a fault.\<close>

definition heap_new :: "sched \<Rightarrow> (sched \<times> ptr) run" where
  "heap_new s = (let (s, p) = heap_alloc s in if p = 0 then crash NullDeref else returns (s, p))"

definition deref_info :: "sched \<Rightarrow> ptr \<Rightarrow> task_info_t run" where
  "deref_info s p = deref (infos s) p"

text \<open>
  \<^verbatim>\<open>ts->state |= f\<close> and \<^verbatim>\<open>ts->state &= ~f\<close> through an info pointer.
\<close>

definition set_state_bits :: "sched \<Rightarrow> ptr \<Rightarrow> (u64 \<Rightarrow> u64) \<Rightarrow> sched run" where
  "set_state_bits s info f =
     bindR (deref (infos s) info) (\<lambda>i.
       returns (s\<lparr>tasks := put_word (tasks s) (info_state i) STATE (f (tasks s (info_state i) STATE))\<rparr>))"

text \<open>
  The memory manager calls \<^verbatim>\<open>free_objects\<close> back, which can fault.  The callback notes that in
  \<open>failed\<close>, and the call that led to it is then a fault.
\<close>

definition checked :: "sched \<times> 'r \<Rightarrow> (sched \<times> 'r) run" where
  "checked = (\<lambda>(s, r). bindR (failed s) (\<lambda>_. returns (s, r)))"

lemma checked_ok [simp]: "failed s = returns () \<Longrightarrow> checked (s, r) = returns (s, r)"
  by (simp add: checked_def)

text \<open>
  A word written through the scheduler's own page tables, at a virtual address.
\<close>

definition own_write64 :: "sched \<Rightarrow> u64 \<Rightarrow> u64 \<Rightarrow> sched run" where
  "own_write64 s vaddr v =
     (let (e, ok) = kmem_paging_addr s (kmem_current s) vaddr 3 in
      if ok \<and> phy_read64 s e AND 1 \<noteq> 0
      then returns (phy_write64 s ((phy_read64 s e AND NOT KMEM_FLAG_MASK) + (vaddr AND 0xfff)) v)
      else crash PageFault)"

definition sched_get_info :: "sched \<Rightarrow> u64 \<Rightarrow> ptr" where
  "sched_get_info s task_id = avl_search (task_map s) task_id"


text \<open>A state to evaluate on: the memory manager's example, no tasks and no objects yet.\<close>

definition example_sched :: sched where
  "example_sched = mman.extend (mman.truncate example_mman)
     (sched.fields (\<lambda>_ _. 0) (avl_initialize avl_ptrcmp False) (avl_initialize cmp_bytes True)
        (avl_initialize avl_ptrcmp True) (avl_initialize avl_ptrcmp False)
        Map.empty Map.empty Map.empty Map.empty
        (\<lambda>_. \<lparr>total_length = 0, data_begin = 0, data_length = 0, flags = 0, ring_begin = 0, ring_end = 0,
           packet_count = 0, cbytes = (\<lambda>_. 0)\<rparr>)
        (\<lambda>_. \<lparr>entry_task_id = 0, entry_info = 0\<rparr>) 0
        (\<lambda>n. 0x10000 + of_nat n * 0x100) 0
        \<lparr>info_id = 0, info_state = 0, info_root_id = 0, info_sin = 0, info_sout = 0, info_gin = 0, info_synch = 0\<rparr>
        (replicate 56 0)
        \<lparr>out_type = 0, out_padding = replicate 7 0, out_req_id = 0, out_result = 0, out_task_id = 0, out_root_id = 0\<rparr>
        (returns ()))"

lemma example_sched_fields [simp]:
  "tasks example_sched = (\<lambda>_ _. 0)" "task_map example_sched = avl_initialize avl_ptrcmp False"
  "named_tasks example_sched = avl_initialize cmp_bytes True"
  "synch_objects example_sched = avl_initialize avl_ptrcmp True"
  "synch_pages example_sched = avl_initialize avl_ptrcmp False"
  "infos example_sched = Map.empty" "objects example_sched = Map.empty" "waits example_sched = Map.empty"
  "pobjs example_sched = Map.empty" "queue_size example_sched = 0" "malloc_count example_sched = 0"
  "malloc_result example_sched n = 0x10000 + of_nat n * 0x100" "failed example_sched = returns ()"
  by (simp_all add: example_sched_def sched.defs mman.defs)

end
