(* ===== verification/Sched_Synch.thy ===== *)
theory Sched_Synch
  imports Sched_State
begin

text \<open>
  \<^verbatim>\<open>kernel/scheduler/synch.c\<close>: objects that tasks wait on.  An object belongs to a physical
  word; its waiters are a linked list, and the objects of a page are another one, through
  which freeing the page destroys them.
\<close>

section \<open>Operations\<close>

definition synch_init :: "sched \<Rightarrow> sched" where
  "synch_init s =
     mman_set_pagefree_callback
       (s\<lparr>synch_objects := avl_initialize avl_ptrcmp True, synch_pages := avl_initialize avl_ptrcmp False\<rparr>) True"

definition synch_make :: "sched \<Rightarrow> u64 \<Rightarrow> (sched \<times> ptr) run" where
  "synch_make s phy =
     (let over = (phy AND 0xfff) + 8 in
      if over < 8 then returns (s, 0)
      else
        bindR (heap_new s) (\<lambda>(s, ret).
        (let s = s\<lparr>objects := (objects s)(ret \<mapsto> \<lparr>phy_addr = phy, head = 0\<rparr>)\<rparr>;
             s = s\<lparr>synch_objects := fst (avl_insert (synch_objects s) phy ret)\<rparr>
         in
        bindR (heap_new s) (\<lambda>(s, pobj).
        (let (pages, nxt) = avl_insert (synch_pages s) (phy AND NOT 0xfff) pobj
         in returns (s\<lparr>synch_pages := pages,
              pobjs := (pobjs s)(pobj \<mapsto> \<lparr>pobj_next = nxt, pobj_object = ret\<rparr>)\<rparr>, ret))))))"

text \<open>The task of a waiter is no longer blocked.\<close>

definition unblock :: "sched \<Rightarrow> u64 \<Rightarrow> sched run" where
  "unblock s task_id = set_state_bits s (sched_get_info s task_id) (\<lambda>st. st AND NOT TASK_STATE_BLOCKED)"

text \<open>One round of the loops over the waiters: it frees the node after the one it unblocks.\<close>

definition wake_node :: "sched \<Rightarrow> ptr \<Rightarrow> (sched \<times> ptr) run" where
  "wake_node s w =
     bindR (deref (waits s) w) (\<lambda>n.
     bindR (unblock s (wait_task_id n)) (\<lambda>s.
     (let w = wait_next n; t = w in
      bindR (freed (waits s) t) (\<lambda>ws. returns (s\<lparr>waits := ws\<rparr>, w)))))"

partial_function (option) destroy_waits :: "sched \<Rightarrow> ptr \<Rightarrow> sched run" where
  "destroy_waits s w =
     (if w = 0 then returns s
      else case wake_node s w of
        None \<Rightarrow> None
      | Some (Fault e) \<Rightarrow> crash e
      | Some (Ok (s, w)) \<Rightarrow> destroy_waits s w)"

partial_function (option) unlink_pobj :: "sched \<Rightarrow> ptr \<Rightarrow> ptr \<Rightarrow> sched run" where
  "unlink_pobj s pobj object =
     (if pobj = 0 then returns s
      else case deref (pobjs s) pobj of
        None \<Rightarrow> None
      | Some (Fault e) \<Rightarrow> crash e
      | Some (Ok p) \<Rightarrow>
         if pobj_next p = 0 then returns s
         else case deref (pobjs s) (pobj_next p) of
           None \<Rightarrow> None
         | Some (Fault e) \<Rightarrow> crash e
         | Some (Ok n) \<Rightarrow>
            if pobj_object n = object then
              bindR (freed ((pobjs s)(pobj \<mapsto> p\<lparr>pobj_next := pobj_next n\<rparr>)) (pobj_next p))
                (\<lambda>ps. returns (s\<lparr>pobjs := ps\<rparr>))
            else unlink_pobj s (pobj_next p) object)"

text \<open>The second half of \<^verbatim>\<open>synch_destroy\<close>: taking the object off the list of its page.\<close>

definition drop_pobj :: "sched \<Rightarrow> ptr \<Rightarrow> u64 \<Rightarrow> sched run" where
  "drop_pobj s object pg =
     (let pobj = avl_search (synch_pages s) pg in
      bindR (deref (pobjs s) pobj) (\<lambda>p.
      if pobj_object p = object then
        (let s = s\<lparr>synch_pages := fst (avl_insert (synch_pages s) pg (pobj_next p))\<rparr>
         in bindR (freed (pobjs s) pobj) (\<lambda>ps. returns (s\<lparr>pobjs := ps\<rparr>)))
      else unlink_pobj s pobj object))"

definition synch_destroy :: "sched \<Rightarrow> ptr \<Rightarrow> sched run" where
  "synch_destroy s object =
     bindR (deref (objects s) object) (\<lambda>ob.
     bindR (destroy_waits s (head ob)) (\<lambda>s.
     bindR (deref (objects s) object) (\<lambda>ob.
     bindR (drop_pobj s object (phy_addr ob AND NOT 0xfff)) (\<lambda>s.
     bindR (freed (objects s) object) (\<lambda>os. returns (s\<lparr>objects := os\<rparr>))))))"

partial_function (option) free_objects :: "sched \<Rightarrow> u64 \<Rightarrow> sched run" where
  "free_objects s page_addr =
     (let pobj = avl_search (synch_pages s) page_addr in
      if pobj = 0 then returns s
      else case bindR (deref (pobjs s) pobj) (\<lambda>p. synch_destroy s (pobj_object p)) of
        None \<Rightarrow> None
      | Some (Fault e) \<Rightarrow> crash e
      | Some (Ok s) \<Rightarrow> free_objects s page_addr)"

text \<open>\<^verbatim>\<open>free_objects\<close> as the memory manager's callback.\<close>

definition free_objects_callback :: "sched \<Rightarrow> u64 \<Rightarrow> sched" where
  "free_objects_callback s page_addr =
     (if failed s \<noteq> returns () then s
      else case free_objects s page_addr of
        None \<Rightarrow> s\<lparr>failed := None\<rparr>
      | Some (Fault e) \<Rightarrow> s\<lparr>failed := crash e\<rparr>
      | Some (Ok s) \<Rightarrow> s)"

definition synch_from_phy :: "sched \<Rightarrow> u64 \<Rightarrow> ptr" where
  "synch_from_phy s phy = avl_search (synch_objects s) phy"

definition synch_wait :: "sched \<Rightarrow> u64 \<Rightarrow> ptr \<Rightarrow> u64 \<Rightarrow> (sched \<times> int) run" where
  "synch_wait s task_id object value =
     bindR (deref (objects s) object) (\<lambda>ob.
     if phy_read64 s (phy_addr ob) = value then
       bindR (heap_new s) (\<lambda>(s, wait).
       (let s = s\<lparr>waits := (waits s)(wait \<mapsto> \<lparr>wait_next = head ob, wait_task_id = task_id\<rparr>)\<rparr>;
            s = s\<lparr>objects := (objects s)(object \<mapsto> ob\<lparr>head := wait\<rparr>)\<rparr>
        in bindR (set_state_bits s (sched_get_info s task_id) (\<lambda>st. st OR TASK_STATE_BLOCKED))
             (\<lambda>s. returns (s, 0))))
     else returns (s, 1))"

text \<open>\<^verbatim>\<open>for(uint64_t i = 0; i < count; i ++)\<close>, counted down.\<close>

fun wake_loop :: "sched \<Rightarrow> ptr \<Rightarrow> nat \<Rightarrow> sched run" where
  "wake_loop s w 0 = returns s"
| "wake_loop s w (Suc count) =
     (if w = 0 then returns s
      else bindR (wake_node s w) (\<lambda>(s, w). wake_loop s w count))"

definition synch_wake :: "sched \<Rightarrow> ptr \<Rightarrow> u64 \<Rightarrow> u64 \<Rightarrow> sched run" where
  "synch_wake s object value count =
     bindR (deref (objects s) object) (\<lambda>ob.
     if phy_read64 s (phy_addr ob) = value then wake_loop s (head ob) (unat count)
     else returns s)"


section \<open>What stays as it is\<close>

text \<open>
  Destroying and waking touch neither memory, nor the tables of the memory manager, nor the
  tasks' records, nor the table of objects.
\<close>

definition keeps_mman :: "sched \<Rightarrow> sched \<Rightarrow> bool" where
  "keeps_mman s s' \<longleftrightarrow> mman.truncate s' = mman.truncate s \<and> synch_objects s' = synch_objects s \<and>
     infos s' = infos s \<and> task_map s' = task_map s \<and> queue s' = queue s \<and> queue_size s' = queue_size s"

lemma keeps_mman_refl [simp]: "keeps_mman s s"
  by (simp add: keeps_mman_def)

lemma keeps_mman_trans: "keeps_mman s s' \<Longrightarrow> keeps_mman s' s'' \<Longrightarrow> keeps_mman s s''"
  by (simp add: keeps_mman_def)

lemma keeps_mman_update [simp]:
  "keeps_mman s (s\<lparr>tasks := a1\<rparr>)" "keeps_mman s (s\<lparr>waits := a2\<rparr>)" "keeps_mman s (s\<lparr>objects := a3\<rparr>)"
  "keeps_mman s (s\<lparr>pobjs := a4\<rparr>)" "keeps_mman s (s\<lparr>synch_pages := a5\<rparr>)" "keeps_mman s (s\<lparr>failed := a6\<rparr>)"
  by (simp_all add: keeps_mman_def mman.truncate_def)

lemma keeps_mman_view:
  assumes "keeps_mman s s'"
  shows "vmem s' = vmem s" "get_last_unused s' = get_last_unused s" "page_refcount s' = page_refcount s"
    "root_map s' = root_map s" "root_refcount s' = root_refcount s" "phy_read64 s' a = phy_read64 s a"
    "synch_objects s' = synch_objects s" "infos s' = infos s" "task_map s' = task_map s"
  using assms by (auto simp: keeps_mman_def mman.truncate_def get_last_unused_def phy_read64_def split: unused_loc.split)

lemma set_state_bits_keeps: "set_state_bits s i f = returns s' \<Longrightarrow> keeps_mman s s'"
  by (auto simp: set_state_bits_def bindR_returns_iff)

lemma wake_node_keeps: "wake_node s w = returns (s', w') \<Longrightarrow> keeps_mman s s'"
  by (auto simp: wake_node_def unblock_def bindR_returns_iff Let_def
      dest!: set_state_bits_keeps intro: keeps_mman_trans)

lemma destroy_waits_keeps: "destroy_waits s w = returns s' \<Longrightarrow> keeps_mman s s'"
proof -
  assume "destroy_waits s w = returns s'"
  moreover have "destroy_waits s w = Some r \<Longrightarrow> (\<forall>s'. r = Ok s' \<longrightarrow> keeps_mman s s')" for r
  proof (rule destroy_waits.raw_induct [where P = "\<lambda>s w r. \<forall>s'. r = Ok s' \<longrightarrow> keeps_mman s s'"], goal_cases)
    case (1 f s w r)
    show ?case using 1(3)
      by (auto split: if_splits option.splits res.splits dest!: 1(2) dest: wake_node_keeps intro: keeps_mman_trans)
  qed
  ultimately show ?thesis by blast
qed

lemma unlink_pobj_keeps: "unlink_pobj s p ob = returns s' \<Longrightarrow> keeps_mman s s'"
proof -
  assume "unlink_pobj s p ob = returns s'"
  moreover have "unlink_pobj s p ob = Some r \<Longrightarrow> (\<forall>s'. r = Ok s' \<longrightarrow> keeps_mman s s')" for r
  proof (rule unlink_pobj.raw_induct [where P = "\<lambda>s p ob r. \<forall>s'. r = Ok s' \<longrightarrow> keeps_mman s s'"], goal_cases)
    case (1 f s p ob r)
    show ?case using 1(3)
      by (auto split: if_splits option.splits res.splits dest!: 1(2) simp: bindR_returns_iff)
  qed
  ultimately show ?thesis by blast
qed

lemma drop_pobj_keeps: "drop_pobj s ob pg = returns s' \<Longrightarrow> keeps_mman s s'"
  by (auto simp: drop_pobj_def Let_def bindR_returns_iff keeps_mman_def mman.truncate_def split: if_splits
      dest: unlink_pobj_keeps [unfolded keeps_mman_def mman.truncate_def])

lemma synch_destroy_returns:
  "synch_destroy s ob = returns s' \<longleftrightarrow>
     (\<exists>o1 s1 o2 s2 os. deref (objects s) ob = returns o1 \<and> destroy_waits s (head o1) = returns s1 \<and>
        deref (objects s1) ob = returns o2 \<and> drop_pobj s1 ob (phy_addr o2 AND NOT 0xfff) = returns s2 \<and>
        freed (objects s2) ob = returns os \<and> s' = s2\<lparr>objects := os\<rparr>)"
  unfolding synch_destroy_def bindR_returns_iff option.inject res.inject by blast

lemma synch_destroy_keeps: "synch_destroy s ob = returns s' \<Longrightarrow> keeps_mman s s'"
  unfolding synch_destroy_returns
  by (blast dest: destroy_waits_keeps drop_pobj_keeps intro: keeps_mman_trans keeps_mman_update(3))

lemma free_objects_keeps: "free_objects s p = returns s' \<Longrightarrow> keeps_mman s s'"
proof -
  assume "free_objects s p = returns s'"
  moreover have "free_objects s p = Some r \<Longrightarrow> (\<forall>s'. r = Ok s' \<longrightarrow> keeps_mman s s')" for r
  proof (rule free_objects.raw_induct [where P = "\<lambda>s p r. \<forall>s'. r = Ok s' \<longrightarrow> keeps_mman s s'"], goal_cases)
    case (1 f s p r)
    show ?case using 1(3)
      by (auto simp: Let_def bindR_returns_iff split: if_splits option.splits res.splits dest!: 1(2)
          dest: synch_destroy_keeps intro: keeps_mman_trans)
  qed
  ultimately show ?thesis by blast
qed

lemma free_objects_callback_keeps: "keeps_mman s (free_objects_callback s p)"
  by (auto simp: free_objects_callback_def split: option.split res.split dest: free_objects_keeps)

text \<open>So the memory manager's theorems hold with this callback.\<close>

interpretation sched_callback: page_callback free_objects_callback
  by unfold_locales (simp_all add: keeps_mman_view [OF free_objects_callback_keeps])


text \<open>What the scheduler keeps about tasks is out of the reach of unmapping.\<close>

definition task_view :: "sched \<Rightarrow> (ptr \<Rightarrow> task_info_t option) \<times> (u64, ptr) avl_tree \<times> (nat \<Rightarrow> queue_entry) \<times> nat" where
  "task_view s = (infos s, task_map s, queue s, queue_size s)"

interpretation sched_tasks: root_observer task_view free_objects_callback
proof (unfold_locales, goal_cases)
  case (4 s p)
  show ?case using free_objects_callback_keeps [of s p] by (simp add: keeps_mman_def task_view_def)
qed (simp_all add: task_view_def phy_write64_def put_last_unused_def split: unused_loc.split)

text \<open>Unmapping leaves the roots alone.\<close>

interpretation sched_roots: mman_observer "\<lambda>s. (root_map s, root_refcount s)" free_objects_callback
  by unfold_locales (simp_all add: keeps_mman_view [OF free_objects_callback_keeps])

section \<open>Properties\<close>

lemma unblock_known:
  "deref (infos s) (sched_get_info s tid) = returns i \<Longrightarrow>
   unblock s tid = returns (s\<lparr>tasks := put_word (tasks s) (info_state i) STATE
     (tasks s (info_state i) STATE AND NOT TASK_STATE_BLOCKED)\<rparr>)"
  by (simp add: unblock_def set_state_bits_def)

lemma wake_node_known:
  assumes "deref (waits s) w = returns n" "deref (infos s) (sched_get_info s (wait_task_id n)) = returns i"
  shows "wake_node s w = bindR (freed (waits s) (wait_next n)) (\<lambda>ws.
    returns (s\<lparr>tasks := put_word (tasks s) (info_state i) STATE (tasks s (info_state i) STATE AND NOT TASK_STATE_BLOCKED),
       waits := ws\<rparr>, wait_next n))"
  using assms by (simp add: wake_node_def unblock_known Let_def)

definition enqueue_waiter :: "sched \<Rightarrow> ptr \<Rightarrow> synchobj_t \<Rightarrow> u64 \<Rightarrow> nat \<Rightarrow> sched" where
  "enqueue_waiter s ob obj tid slot =
     (let w = malloc_result s (malloc_count s) in
      s\<lparr>malloc_count := malloc_count s + 1,
        waits := (waits s)(w \<mapsto> \<lparr>wait_next = head obj, wait_task_id = tid\<rparr>),
        objects := (objects s)(ob \<mapsto> obj\<lparr>head := w\<rparr>),
        tasks := put_word (tasks s) slot STATE (tasks s slot STATE OR TASK_STATE_BLOCKED)\<rparr>)"

lemma synch_wait_known:
  assumes "deref (objects s) ob = returns obj" "phy_read64 s (phy_addr obj) = value"
    and "deref (infos s) (sched_get_info s tid) = returns i" "malloc_result s (malloc_count s) \<noteq> 0"
  shows "synch_wait s tid ob value = returns (enqueue_waiter s ob obj tid (info_state i), 0)"
  using assms by (simp add: synch_wait_def heap_new_def heap_alloc_def Let_def set_state_bits_def sched_get_info_def enqueue_waiter_def)

lemma enqueue_waiter_fields [simp]:
  "infos (enqueue_waiter s ob obj tid slot) = infos s" "task_map (enqueue_waiter s ob obj tid slot) = task_map s"
  "phy_read64 (enqueue_waiter s ob obj tid slot) a = phy_read64 s a"
  "waits (enqueue_waiter s ob obj tid slot) =
     (waits s)(malloc_result s (malloc_count s) \<mapsto> \<lparr>wait_next = head obj, wait_task_id = tid\<rparr>)"
  "objects (enqueue_waiter s ob obj tid slot) = (objects s)(ob \<mapsto> obj\<lparr>head := malloc_result s (malloc_count s)\<rparr>)"
  "tasks (enqueue_waiter s ob obj tid slot) = put_word (tasks s) slot STATE (tasks s slot STATE OR TASK_STATE_BLOCKED)"
  "malloc_result (enqueue_waiter s ob obj tid slot) = malloc_result s"
  "malloc_count (enqueue_waiter s ob obj tid slot) = malloc_count s + 1"
  by (simp_all add: enqueue_waiter_def Let_def phy_read64_def)

lemma enqueue_waiter_info [simp]: "sched_get_info (enqueue_waiter s ob obj tid slot) t = sched_get_info s t"
  by (simp add: sched_get_info_def)

text \<open>
  C17: a task that waits on an object nobody waits on, whose word has the value it expects, is
  blocked; a wake with the same value makes the task table what it was.  If the word has
  another value, waiting and waking do nothing.
\<close>

theorem synch_wait_wake:
  assumes "deref (objects s) ob = returns obj" "head obj = 0"
    and "deref (infos s) (sched_get_info s tid) = returns i"
    and "tasks s (info_state i) STATE AND TASK_STATE_BLOCKED = 0"
    and "malloc_result s (malloc_count s) \<noteq> 0" "0 < unat count"
  shows "if phy_read64 s (phy_addr obj) = value
    then \<exists>s1 s2. synch_wait s tid ob value = returns (s1, 0) \<and>
      tasks s1 (info_state i) STATE AND TASK_STATE_BLOCKED \<noteq> 0 \<and>
      synch_wake s1 ob value count = returns s2 \<and> tasks s2 = tasks s
    else synch_wait s tid ob value = returns (s, 1) \<and> synch_wake s ob value count = returns s"
proof (cases "phy_read64 s (phy_addr obj) = value")
  case False
  then show ?thesis using assms(1) by (simp add: synch_wait_def synch_wake_def)
next
  case True
  define w where "w = malloc_result s (malloc_count s)"
  define st where "st = tasks s (info_state i) STATE"
  define s1 where "s1 = enqueue_waiter s ob obj tid (info_state i)"
  have "synch_wait s tid ob value = returns (s1, 0)"
    unfolding s1_def by (rule synch_wait_known [OF assms(1) True assms(3,5)])
  moreover have "tasks s1 (info_state i) STATE AND TASK_STATE_BLOCKED \<noteq> 0"
  proof -
    have "bit (tasks s1 (info_state i) STATE AND TASK_STATE_BLOCKED) 3"
      by (simp add: s1_def put_word_simp TASK_STATE_BLOCKED_def bit_simps)
    then show ?thesis by auto
  qed
  moreover have "synch_wake s1 ob value count = returns (s1\<lparr>tasks := tasks s\<rparr>)"
  proof -
    have "ob \<noteq> 0" using assms(1) by (simp add: deref_returns)
    then have o: "deref (objects s1) ob = returns (obj\<lparr>head := w\<rparr>)" by (simp add: s1_def w_def)
    have r: "phy_read64 s1 (phy_addr obj) = value" using True by (simp add: s1_def)
    have n: "deref (waits s1) w = returns \<lparr>wait_next = 0, wait_task_id = tid\<rparr>"
      using assms(2,5) by (simp add: s1_def w_def)
    have i: "deref (infos s1) (sched_get_info s1 tid) = returns i"
      using assms(3) by (simp add: s1_def sched_get_info_def)
    have "(st OR TASK_STATE_BLOCKED) AND NOT TASK_STATE_BLOCKED = st"
    proof (rule bit_word_eqI)
      fix k
      have "\<not> bit (st AND TASK_STATE_BLOCKED) k" using assms(4) by (simp add: st_def)
      then show "bit ((st OR TASK_STATE_BLOCKED) AND NOT TASK_STATE_BLOCKED) k = bit st k" if "k < LENGTH(64)"
        using that by (auto simp: bit_simps)
    qed
    then have "put_word (tasks s1) (info_state i) STATE (tasks s1 (info_state i) STATE AND NOT TASK_STATE_BLOCKED) = tasks s"
      by (simp add: s1_def put_word_def st_def fun_eq_iff)
    then have "wake_node s1 w = returns (s1\<lparr>tasks := tasks s\<rparr>, 0)"
      using wake_node_known [OF n] i by simp
    moreover obtain c where "unat count = Suc c" using assms(6) gr0_conv_Suc by blast
    moreover have "w \<noteq> 0" using assms(5) by (simp add: w_def)
    moreover have "wake_loop x 0 c = returns x" for x by (cases c) simp_all
    ultimately show ?thesis by (simp add: synch_wake_def o r)
  qed
  ultimately show ?thesis using True by auto
qed

definition example_synch :: sched where
  "example_synch = example_sched\<lparr>
     task_map := fst (avl_insert (fst (avl_insert (avl_initialize avl_ptrcmp False) 2 0x200)) 3 0x300),
     infos := [0x200 \<mapsto> (uninit_info example_sched)\<lparr>info_id := 2, info_state := 5\<rparr>,
               0x300 \<mapsto> (uninit_info example_sched)\<lparr>info_id := 3, info_state := 6\<rparr>],
     tasks := (\<lambda>i w. if w = STATE \<and> i \<in> {5, 6} then 3 else 0),
     objects := [0x400 \<mapsto> \<lparr>phy_addr = 0x77008, head = 0\<rparr>]\<rparr>"

lemma example_synch_info:
  "deref (infos example_synch) (sched_get_info example_synch 2) = returns ((uninit_info example_sched)\<lparr>info_id := 2, info_state := 5\<rparr>)"
  "deref (infos example_synch) (sched_get_info example_synch 3) = returns ((uninit_info example_sched)\<lparr>info_id := 3, info_state := 6\<rparr>)"
  by (simp_all add: example_synch_def sched_get_info_def avl_insert_def avl_search_def avl_initialize_def
      avl_ptrcmp_def deref_returns)

theorem synch_wait_wake_witness:
  "\<exists>s1 s2. synch_wait example_synch 2 0x400 (phy_read64 example_synch 0x77008) = returns (s1, 0) \<and>
     synch_wake s1 0x400 (phy_read64 example_synch 0x77008) 1 = returns s2 \<and> tasks s2 = tasks example_synch"
proof -
  have o: "deref (objects example_synch) 0x400 = returns \<lparr>phy_addr = 0x77008, head = 0\<rparr>"
    by (simp add: example_synch_def)
  show ?thesis
    using synch_wait_wake [OF o _ example_synch_info(1), of 1 "phy_read64 example_synch 0x77008"]
    by (auto simp: example_synch_def TASK_STATE_BLOCKED_def)
qed

text \<open>
  waking walks the list wrongly.  With two waiters, a wake of one unblocks the task of the
  first node, which stays at the head, and frees the second node, whose task stays blocked and
  is no longer reachable; a wake of more than one goes on to the node it has just freed.
\<close>

theorem synch_wake_two_waiters:
  assumes "deref (objects s) ob = returns obj" "phy_read64 s (phy_addr obj) = v"
    and "deref (waits s) (head obj) = returns n0" "deref (waits s) (wait_next n0) = returns n1"
    and "wait_next n0 \<noteq> head obj"
    and "deref (infos s) (sched_get_info s (wait_task_id n0)) = returns i0"
    and "deref (infos s) (sched_get_info s (wait_task_id n1)) = returns i1" "info_state i1 \<noteq> info_state i0"
  shows "(unat count \<ge> 2 \<longrightarrow> synch_wake s ob v count = crash UseAfterFree) \<and>
    (unat count = 1 \<longrightarrow> (\<exists>s'. synch_wake s ob v count = returns s' \<and>
       tasks s' (info_state i0) STATE = tasks s (info_state i0) STATE AND NOT TASK_STATE_BLOCKED \<and>
       tasks s' (info_state i1) = tasks s (info_state i1) \<and>
       objects s' = objects s \<and> waits s' (head obj) = Some n0 \<and> waits s' (wait_next n0) = None))"
proof -
  define s' where "s' = s\<lparr>tasks := put_word (tasks s) (info_state i0) STATE (tasks s (info_state i0) STATE AND NOT TASK_STATE_BLOCKED),
       waits := (waits s)(wait_next n0 := None)\<rparr>"
  have "freed (waits s) (wait_next n0) = returns ((waits s)(wait_next n0 := None))"
    using assms(4) by (auto simp: deref_returns)
  then have w: "wake_node s (head obj) = returns (s', wait_next n0)"
    using wake_node_known [OF assms(3,6)] by (simp add: s'_def)
  have nz: "head obj \<noteq> 0" "wait_next n0 \<noteq> 0" using assms(3,4) by (simp_all add: deref_returns)
  have crash: "wake_node s' (wait_next n0) = crash UseAfterFree"
    using nz(2) by (simp add: wake_node_def s'_def)
  show ?thesis
  proof (intro conjI impI)
    assume "2 \<le> unat count"
    then obtain c where "unat count = Suc (Suc c)" using le_Suc_ex [of 2] by fastforce
    then show "synch_wake s ob v count = crash UseAfterFree"
      using assms(1,2) nz by (simp add: synch_wake_def w crash)
  next
    assume "unat count = 1"
    then have "synch_wake s ob v count = returns s'"
      using assms(1,2) nz by (simp add: synch_wake_def w)
    moreover have "waits s (head obj) = Some n0" using assms(3) by (simp add: deref_returns)
    ultimately show "\<exists>s'. synch_wake s ob v count = returns s' \<and>
       tasks s' (info_state i0) STATE = tasks s (info_state i0) STATE AND NOT TASK_STATE_BLOCKED \<and>
       tasks s' (info_state i1) = tasks s (info_state i1) \<and>
       objects s' = objects s \<and> waits s' (head obj) = Some n0 \<and> waits s' (wait_next n0) = None"
      using assms(5,8) by (intro exI [of _ s']) (simp add: s'_def put_word_def)
  qed
qed

theorem synch_wake_two_waiters_witness:
  "\<exists>s1 s2. synch_wait example_synch 2 0x400 (phy_read64 example_synch 0x77008) = returns (s1, 0) \<and>
     synch_wait s1 3 0x400 (phy_read64 example_synch 0x77008) = returns (s2, 0) \<and>
     synch_wake s2 0x400 (phy_read64 example_synch 0x77008) 2 = crash UseAfterFree"
proof -
  define v where "v = phy_read64 example_synch 0x77008"
  define o0 where "o0 = \<lparr>phy_addr = 0x77008, head = 0\<rparr>"
  define s1 where "s1 = enqueue_waiter example_synch 0x400 o0 2 5"
  define o1 where "o1 = o0\<lparr>head := 0x10000\<rparr>"
  define s2 where "s2 = enqueue_waiter s1 0x400 o1 3 6"
  have m: "malloc_result example_synch = (\<lambda>n. 0x10000 + of_nat n * 0x100)" "malloc_count example_synch = 0"
    by (simp_all add: example_synch_def fun_eq_iff)
  have r: "phy_read64 s1 a = phy_read64 example_synch a" "phy_read64 s2 a = phy_read64 example_synch a" for a
    by (simp_all add: s1_def s2_def)
  have "deref (objects example_synch) 0x400 = returns o0" by (simp add: example_synch_def o0_def)
  from synch_wait_known [OF this _ example_synch_info(1)]
  have 1: "synch_wait example_synch 2 0x400 v = returns (s1, 0)" by (simp add: v_def s1_def o0_def m)
  have "deref (objects s1) 0x400 = returns o1" by (simp add: s1_def o1_def m)
  moreover have "deref (infos s1) (sched_get_info s1 3) = returns ((uninit_info example_sched)\<lparr>info_id := 3, info_state := 6\<rparr>)"
    using example_synch_info(2) by (simp add: s1_def)
  moreover have "malloc_result s1 (malloc_count s1) \<noteq> 0" by (simp add: s1_def m)
  ultimately have 2: "synch_wait s1 3 0x400 v = returns (s2, 0)"
    using synch_wait_known [where s = s1 and ob = "0x400" and obj = o1] r by (simp add: v_def s2_def o1_def o0_def)
  have "deref (objects s2) 0x400 = returns (o1\<lparr>head := 0x10100\<rparr>)"
    by (simp add: s2_def s1_def m)
  moreover have "deref (waits s2) 0x10100 = returns \<lparr>wait_next = 0x10000, wait_task_id = 3\<rparr>"
    "deref (waits s2) 0x10000 = returns \<lparr>wait_next = 0, wait_task_id = 2\<rparr>"
    by (simp_all add: s2_def s1_def m o1_def o0_def)
  ultimately have "synch_wake s2 0x400 v 2 = crash UseAfterFree"
    using synch_wake_two_waiters [where s = s2 and ob = "0x400" and obj = "o1\<lparr>head := 0x10100\<rparr>" and v = v and count = 2
      and ?n0.0 = "\<lparr>wait_next = 0x10000, wait_task_id = 3\<rparr>" and ?n1.0 = "\<lparr>wait_next = 0, wait_task_id = 2\<rparr>"]
      example_synch_info
    by (simp add: r o1_def o0_def v_def) (simp add: s2_def s1_def)
  with 1 2 show ?thesis unfolding v_def by blast
qed

text \<open>
  destroying an object frees it but leaves it in the table of objects: looking up its
  physical address still gives it, and waiting on it or waking it is a use after free.
\<close>

theorem synch_destroy_dangles:
  assumes "synch_destroy s ob = returns s'" "synch_from_phy s phy = ob"
  shows "synch_from_phy s' phy = ob \<and> synch_wait s' tid ob v = crash UseAfterFree \<and>
    synch_wake s' ob v count = crash UseAfterFree"
proof -
  have "synch_objects s' = synch_objects s"
    by (rule keeps_mman_view [OF synch_destroy_keeps [OF assms(1)]])
  moreover have "ob \<noteq> 0 \<and> objects s' ob = None"
    using assms(1) by (auto simp: synch_destroy_returns deref_returns freed_def split: option.splits)
  ultimately show ?thesis using assms(2) by (simp add: synch_from_phy_def synch_wait_def synch_wake_def)
qed

theorem synch_destroy_dangles_witness:
  "\<exists>s s'. synch_make example_sched 0x77008 = returns (s, 0x10000) \<and> synch_destroy s 0x10000 = returns s' \<and>
     synch_wait s' 2 (synch_from_phy s' 0x77008) 0 = crash UseAfterFree"
proof -
  obtain s where m: "synch_make example_sched 0x77008 = returns (s, 0x10000)"
      "deref (objects s) 0x10000 = returns \<lparr>phy_addr = 0x77008, head = 0\<rparr>"
      "synch_from_phy s 0x77008 = 0x10000" "avl_search (synch_pages s) 0x77000 = 0x10100"
      "deref (pobjs s) 0x10100 = returns \<lparr>pobj_next = 0, pobj_object = 0x10000\<rparr>"
    by (simp add: synch_make_def heap_new_def heap_alloc_def Let_def case_prod_beta synch_from_phy_def
        avl_insert_def avl_search_def avl_initialize_def avl_ptrcmp_def)
  obtain s' where d: "synch_destroy s 0x10000 = returns s'"
    using m by (simp add: synch_destroy_def destroy_waits.simps drop_pobj_def deref_returns)
  show ?thesis using synch_destroy_dangles [OF d m(3)] m(1) d by auto
qed

end
