(* ===== verification/Sched_Task.thy ===== *)
theory Sched_Task
  imports Sched_Synch
begin

text \<open>
  \<^verbatim>\<open>kernel/scheduler/task.c\<close>: tasks as the scheduler knows them, by id and by name, with their
  channels and their local storage.
\<close>

section \<open>Operations\<close>

definition TASK_CHANNEL_START :: u64 where "TASK_CHANNEL_START = 0xffff800000000000"
definition LOCAL_CHANNEL_BASE :: u64 where "LOCAL_CHANNEL_BASE = 0xcadd40000"
definition LOCAL_CHANNEL_SIZE :: u64 where "LOCAL_CHANNEL_SIZE = 0x1000000"
definition CHANNEL_SIZE :: u64 where "CHANNEL_SIZE = 0x1000"
definition LOCAL_STORAGE_BASE :: u64 where "LOCAL_STORAGE_BASE = 0x510400000"
definition LOCAL_STORAGE_SIZE :: u64 where "LOCAL_STORAGE_SIZE = 0x1000"
definition TEMPORARY_MAP_ADDRESS :: u64 where "TEMPORARY_MAP_ADDRESS = 0x50000000"

definition task_init :: "sched \<Rightarrow> sched" where
  "task_init s = s\<lparr>task_map := avl_initialize avl_ptrcmp False, named_tasks := avl_initialize cmp_bytes True\<rparr>"

definition find_available_local :: "sched \<Rightarrow> u64" where
  "find_available_local s =
     (case List.find (\<lambda>i. mman_check_any_mapped s (mman_own_root s) (LOCAL_CHANNEL_BASE + of_nat i * LOCAL_CHANNEL_SIZE) 0x1000 = 0)
         [0..<unat (LOCAL_CHANNEL_SIZE div CHANNEL_SIZE)] of
        None \<Rightarrow> -1
      | Some i \<Rightarrow> LOCAL_CHANNEL_BASE + of_nat i * LOCAL_CHANNEL_SIZE)"

text \<open>
  The searching loops of \<^verbatim>\<open>add_channel\<close> and \<^verbatim>\<open>add_storage\<close>, which have no bound: the first
  block at a multiple of the stride that the check does not report as mapped.
\<close>

partial_function (option) first_unmapped :: "sched \<Rightarrow> u64 \<Rightarrow> u64 \<Rightarrow> u64 \<Rightarrow> u64 \<Rightarrow> u64 option" where
  "first_unmapped s root_id base sz i =
     (if mman_check_any_mapped s root_id (base + i * sz) sz \<noteq> 0 then first_unmapped s root_id base sz (i + 1)
      else Some (base + i * sz))"

definition add_channel :: "sched \<Rightarrow> u64 \<Rightarrow> (sched \<times> u64 \<times> u64) run" where
  "add_channel s root_id =
     (let local_addr = find_available_local s in
      case first_unmapped s root_id TASK_CHANNEL_START CHANNEL_SIZE 0 of
        None \<Rightarrow> None
      | Some caddr \<Rightarrow>
         (let (s, _) = mman_anonymous s root_id caddr CHANNEL_SIZE;
              (s, _) = mman_mirror s (mman_own_root s) local_addr root_id caddr CHANNEL_SIZE
          in returns (s, local_addr, caddr)))"

definition add_storage :: "sched \<Rightarrow> u64 \<Rightarrow> (sched \<times> u64) run" where
  "add_storage s root_id =
     (case first_unmapped s root_id LOCAL_STORAGE_BASE LOCAL_STORAGE_SIZE 0 of
        None \<Rightarrow> None
      | Some saddr \<Rightarrow>
         (let (s, _) = mman_anonymous s root_id saddr LOCAL_STORAGE_SIZE in returns (s, saddr)))"

text \<open>A store through an info pointer, and \<^verbatim>\<open>comm_init\<close> on a channel.\<close>

definition put_info :: "sched \<Rightarrow> ptr \<Rightarrow> (task_info_t \<Rightarrow> task_info_t) \<Rightarrow> sched run" where
  "put_info s info f = bindR (deref (infos s) info) (\<lambda>i. returns (s\<lparr>infos := (infos s)(info \<mapsto> f i)\<rparr>))"

definition init_channel :: "sched \<Rightarrow> ptr \<Rightarrow> u64 \<Rightarrow> sched run" where
  "init_channel s cc len =
     (case comm_init (channels s cc) len COMM_SIMPLE of
        None \<Rightarrow> None
      | Some (c, _) \<Rightarrow> returns (s\<lparr>channels := (channels s)(cc := c)\<rparr>))"

definition unmap_own :: "sched \<Rightarrow> u64 \<Rightarrow> u64 \<Rightarrow> sched run" where
  "unmap_own s address sz =
     bindR (checked (mman_unmap free_objects_callback s (mman_own_root s) address sz)) (\<lambda>(s, _). returns s)"

definition task_setup :: "sched \<Rightarrow> nat \<Rightarrow> ptr \<Rightarrow> sched run" where
  "task_setup s ts info =
     bindR (put_info s info (\<lambda>i. i\<lparr>info_synch := 0\<rparr>)) (\<lambda>s.
     bindR (deref (infos s) info) (\<lambda>i.
     bindR (add_storage s (info_root_id i)) (\<lambda>(s, gs_base).
     (let s = s\<lparr>tasks := put_word (tasks s) ts GS_BASE gs_base\<rparr>;
          (s, _) = mman_mirror s (mman_own_root s) TEMPORARY_MAP_ADDRESS (info_root_id i) gs_base 0x1000;
          tls = TEMPORARY_MAP_ADDRESS
      in
     bindR (own_write64 s tls (info_id i)) (\<lambda>s.
     bindR (add_channel s (info_root_id i)) (\<lambda>(s, local_addr, addr).
     bindR (own_write64 s (tls + 8) addr) (\<lambda>s.
     bindR (own_write64 s (tls + 16) (addr + CHANNEL_SIZE div 2)) (\<lambda>s.
     bindR (put_info s info (\<lambda>i. i\<lparr>info_sin := local_addr, info_sout := local_addr + CHANNEL_SIZE div 2\<rparr>)) (\<lambda>s.
     bindR (init_channel s local_addr (CHANNEL_SIZE div 2)) (\<lambda>s.
     bindR (init_channel s (local_addr + CHANNEL_SIZE div 2) (CHANNEL_SIZE div 2)) (\<lambda>s.
     bindR (add_channel s (info_root_id i)) (\<lambda>(s, local_addr, addr).
     bindR (put_info s info (\<lambda>i. i\<lparr>info_gin := local_addr\<rparr>)) (\<lambda>s.
     bindR (own_write64 s (tls + 24) addr) (\<lambda>s.
     bindR (init_channel s local_addr CHANNEL_SIZE) (\<lambda>s.
     unmap_own s TEMPORARY_MAP_ADDRESS 0x1000)))))))))))))))"

definition sched_task_attach :: "sched \<Rightarrow> nat \<Rightarrow> ptr \<Rightarrow> (sched \<times> u64) run" where
  "sched_task_attach s ts info =
     (let (s, id) = gen_id s in
      bindR (put_info s info (\<lambda>i. i\<lparr>info_id := id\<rparr>)) (\<lambda>s.
      (let s = s\<lparr>task_map := fst (avl_insert (task_map s) id info)\<rparr>;
           (s, root_id) = mman_import_root s (tasks s ts CR3);
           s = mman_increment_root s root_id
       in
      bindR (put_info s info (\<lambda>i. i\<lparr>info_state := ts, info_root_id := root_id\<rparr>)) (\<lambda>s.
      bindR (task_setup s ts info) (\<lambda>s. returns (s, id))))))"

text \<open>The name is copied into a block of its own, which the tree of names then holds.\<close>

definition sched_set_name :: "sched \<Rightarrow> u64 \<Rightarrow> u8 list \<Rightarrow> sched run" where
  "sched_set_name s task_id name =
     bindR (heap_new s) (\<lambda>(s, name_copy).
       returns (s\<lparr>named_tasks := fst (avl_insert (named_tasks s) name task_id)\<rparr>))"

definition sched_named_task :: "sched \<Rightarrow> u8 list \<Rightarrow> u64" where
  "sched_named_task s name = avl_search (named_tasks s) name"

definition sched_task_create :: "sched \<Rightarrow> u64 \<Rightarrow> ptr \<Rightarrow> (sched \<times> u64) run" where
  "sched_task_create s root_id info =
     (if \<not> mman_is_root s root_id then returns (s, -1)
      else case task_create (tasks s) of
        (t, None) \<Rightarrow> crash NullDeref
      | (t, Some ts) \<Rightarrow>
         (let s = s\<lparr>tasks := t\<rparr> in
          bindR (put_info s info (\<lambda>i. i\<lparr>info_state := ts\<rparr>)) (\<lambda>s.
          (let (s, id) = gen_id s in
           bindR (put_info s info (\<lambda>i. i\<lparr>info_id := id\<rparr>)) (\<lambda>s.
           (let s = s\<lparr>task_map := fst (avl_insert (task_map s) id info)\<rparr>;
                s = mman_increment_root s root_id;
                s = s\<lparr>tasks := put_word (tasks s) ts CR3 (mman_get_root_cr3 s root_id)\<rparr>
            in
           bindR (put_info s info (\<lambda>i. i\<lparr>info_root_id := root_id\<rparr>)) (\<lambda>s.
           bindR (task_setup s ts info) (\<lambda>s. returns (s, id)))))))))"

definition clear_task :: "sched \<Rightarrow> nat \<Rightarrow> sched" where
  "clear_task s ts = s\<lparr>tasks := put_word (put_word (tasks s) ts STATE 0) ts CR3 0\<rparr>"

definition sched_task_reap :: "sched \<Rightarrow> u64 \<Rightarrow> (sched \<times> ptr) run" where
  "sched_task_reap s task_id =
     (let info = avl_search (task_map s) task_id in
      if info = 0 then returns (s, 0)
      else
        bindR (deref (infos s) info) (\<lambda>i.
        bindR (checked (mman_decrement_root free_objects_callback s (tasks s (info_state i) CR3), ())) (\<lambda>(s, _).
        (let s = clear_task s (info_state i) in
        bindR (if info_gin i \<noteq> 0 then unmap_own s (info_gin i) CHANNEL_SIZE else returns s) (\<lambda>s.
        returns (s\<lparr>task_map := fst (avl_remove (task_map s) task_id)\<rparr>, info))))))"

definition sched_set_state :: "sched \<Rightarrow> u64 \<Rightarrow> u64 \<Rightarrow> u64 \<Rightarrow> sched run" where
  "sched_set_state s task_id index value =
     (let info = avl_search (task_map s) task_id in
      if info \<noteq> 0 \<and> index < 32 then
        bindR (deref (infos s) info) (\<lambda>i.
        returns (s\<lparr>tasks := put_word (tasks s) (info_state i) (task_words ! unat index) value\<rparr>))
      else returns s)"


section \<open>What reaping leaves alone\<close>

lemma checked_returns: "checked x = returns y \<Longrightarrow> y = x \<and> failed (fst x) = returns ()"
  by (cases x) (auto simp: checked_def bindR_returns_iff)

lemma unmap_own_views:
  assumes "unmap_own s a sz = returns s'"
  shows "task_view s' = task_view s" "root_map s' = root_map s" "root_refcount s' = root_refcount s"
proof -
  have "s' = fst (mman_unmap free_objects_callback s (mman_own_root s) a sz)"
    using assms by (auto simp: unmap_own_def bindR_returns_iff dest!: checked_returns) (metis fst_conv)
  then show "task_view s' = task_view s" "root_map s' = root_map s" "root_refcount s' = root_refcount s"
    using sched_tasks.view_unmap [of s "mman_own_root s" a sz] sched_roots.view_unmap [of s "mman_own_root s" a sz]
    by simp_all
qed

lemma task_view_updates [simp]:
  "task_view (s\<lparr>tasks := t\<rparr>) = task_view s"
  by (simp add: task_view_def)

lemma clear_task_views [simp]:
  "task_view (clear_task s ts) = task_view s" "root_map (clear_task s ts) = root_map s"
  "root_refcount (clear_task s ts) = root_refcount s"
  by (simp_all add: clear_task_def task_view_def)

lemma sched_task_reap_known:
  assumes "sched_task_reap s tid = returns (s', info)" "info \<noteq> 0"
  obtains i s1 s2 where "deref (infos s) info = returns i" "avl_search (task_map s) tid = info"
    "s1 = mman_decrement_root free_objects_callback s (tasks s (info_state i) CR3)"
    "(if info_gin i \<noteq> 0 then unmap_own (clear_task s1 (info_state i)) (info_gin i) CHANNEL_SIZE
      else returns (clear_task s1 (info_state i))) = returns s2"
    "s' = s2\<lparr>task_map := fst (avl_remove (task_map s2) tid)\<rparr>"
proof -
  have i0: "avl_search (task_map s) tid = info" 
    using assms by (auto simp: sched_task_reap_def Let_def bindR_returns_iff split: if_splits)
  obtain i s1 u s2 where "deref (infos s) info = returns i"
    "checked (mman_decrement_root free_objects_callback s (tasks s (info_state i) CR3), ()) = returns (s1, u)"
    "(if info_gin i \<noteq> 0 then unmap_own (clear_task s1 (info_state i)) (info_gin i) CHANNEL_SIZE
      else returns (clear_task s1 (info_state i))) = returns s2"
    "s' = s2\<lparr>task_map := fst (avl_remove (task_map s2) tid)\<rparr>"
    using assms i0 by (auto simp: sched_task_reap_def Let_def bindR_returns_iff)
  moreover from this(2) have "s1 = mman_decrement_root free_objects_callback s (tasks s (info_state i) CR3)"
    by (auto dest!: checked_returns)
  ultimately show thesis using that i0 by blast
qed

lemma sched_task_reap_view:
  assumes "sched_task_reap s tid = returns (s', info)"
  shows "infos s' = infos s" "queue s' = queue s" "queue_size s' = queue_size s"
proof -
  have "infos s' = infos s \<and> queue s' = queue s \<and> queue_size s' = queue_size s"
  proof (cases "info = 0")
    case True
    then have "avl_search (task_map s) tid = 0"
      using assms by (auto simp: sched_task_reap_def Let_def bindR_returns_iff split: if_splits)
    then show ?thesis using assms by (simp add: sched_task_reap_def)
  next
    case False
    show ?thesis
    proof (rule sched_task_reap_known [OF assms False])
      fix i s1 s2
      assume 1: "s1 = mman_decrement_root free_objects_callback s (tasks s (info_state i) CR3)"
        and 2: "(if info_gin i \<noteq> 0 then unmap_own (clear_task s1 (info_state i)) (info_gin i) CHANNEL_SIZE
          else returns (clear_task s1 (info_state i))) = returns s2"
        and s': "s' = s2\<lparr>task_map := fst (avl_remove (task_map s2) tid)\<rparr>"
      have "task_view s1 = task_view s" unfolding 1 by (rule sched_tasks.view_decrement_root)
      moreover have "task_view s2 = task_view s1" using 2 by (auto split: if_splits dest: unmap_own_views)
      ultimately show ?thesis by (simp add: s' task_view_def)
    qed
  qed
  then show "infos s' = infos s" "queue s' = queue s" "queue_size s' = queue_size s" by auto
qed

section \<open>Properties\<close>

text \<open>
  reaping a task gives up nothing of its address space: \<^verbatim>\<open>sched_task_reap\<close> passes the page
  table's address to \<^verbatim>\<open>mman_decrement_root\<close>, which expects a root id.  As long as no root id
  in use happens to be that address, the root keeps its references and stays in the table.
\<close>

theorem sched_task_reap_keeps_root:
  assumes "sched_task_reap s tid = returns (s', info)" "info \<noteq> 0"
    and "infos s info = Some i" "avl_search (root_refcount s) (tasks s (info_state i) CR3) = 0"
  shows "root_map s' = root_map s \<and> root_refcount s' = root_refcount s"
proof -
  show ?thesis
  proof (rule sched_task_reap_known [OF assms(1,2)])
    fix j s1 s2
    assume j: "deref (infos s) info = returns j"
      and 1: "s1 = mman_decrement_root free_objects_callback s (tasks s (info_state j) CR3)"
      and 2: "(if info_gin j \<noteq> 0 then unmap_own (clear_task s1 (info_state j)) (info_gin j) CHANNEL_SIZE
        else returns (clear_task s1 (info_state j))) = returns s2"
      and s': "s' = s2\<lparr>task_map := fst (avl_remove (task_map s2) tid)\<rparr>"
    have "j = i" using j assms(3) by (simp add: deref_returns)
    with assms(4) have "s1 = s" by (simp add: 1 mman_decrement_root_def)
    moreover have "root_map s2 = root_map s1 \<and> root_refcount s2 = root_refcount s1"
      using 2 unmap_own_views(2,3) by (auto split: if_splits)
    ultimately show ?thesis by (simp add: s')
  qed
qed

definition example_reap :: sched where
  "example_reap = example_sched\<lparr>
     task_map := fst (avl_insert (avl_initialize avl_ptrcmp False) 2 0x200),
     root_refcount := fst (avl_insert (avl_initialize avl_ptrcmp False) 7 1),
     infos := [0x200 \<mapsto> (uninit_info example_sched)\<lparr>info_id := 2, info_state := 5, info_root_id := 7\<rparr>],
     tasks := (\<lambda>i w. if i = 5 \<and> w = CR3 then 0x1000 else 0)\<rparr>"

lemma example_reap_info:
  "avl_search (task_map example_reap) 2 = 0x200"
  "infos example_reap 0x200 = Some ((uninit_info example_sched)\<lparr>info_id := 2, info_state := 5, info_root_id := 7\<rparr>)"
  "avl_search (root_refcount example_reap) 7 = 1" "avl_search (root_refcount example_reap) 0x1000 = 0"
  by (simp_all add: example_reap_def avl_insert_def avl_search_def avl_initialize_def avl_ptrcmp_def)

theorem sched_task_reap_keeps_root_witness:
  "\<exists>s'. sched_task_reap example_reap 2 = returns (s', 0x200) \<and> avl_search (root_refcount s') 7 = 1"
proof -
  have t: "tasks example_reap 5 CR3 = 0x1000" "failed example_reap = returns ()"
    "info_gin (uninit_info example_sched) = 0"
    by (simp_all add: example_reap_def) (simp add: example_sched_def sched.defs mman.defs)
  obtain s' where s': "sched_task_reap example_reap 2 = returns (s', 0x200)"
    using example_reap_info t
    by (simp add: sched_task_reap_def mman_decrement_root_def deref_def Let_def)
  show ?thesis using sched_task_reap_keeps_root [OF s' _ example_reap_info(2)] example_reap_info t s' by simp
qed

text \<open>
  the names are a map from strings to task ids: a task is found by the name it was given
  last, and giving a name changes what no other name leads to.
\<close>

theorem sched_names:
  assumes "avl_invar cmp_bytes zero_free (named_tasks s)" "zero_free name" "zero_free name'"
    and "malloc_result s (malloc_count s) \<noteq> 0"
  shows "\<exists>s'. sched_set_name s tid name = returns s' \<and> avl_invar cmp_bytes zero_free (named_tasks s') \<and>
    sched_named_task s' name' = (if name' = name then tid else sched_named_task s name')"
  using assms str_table.invar_insert [OF assms(1,2), of tid] str_table.lookup_insert [OF assms(1-3), of tid]
  by (simp add: sched_set_name_def sched_named_task_def heap_new_def heap_alloc_def cmp_bytes_eq_0 zero_free_def)

theorem sched_names_witness:
  "\<exists>s'. sched_set_name example_sched 2 [104, 119] = returns s' \<and> sched_named_task s' [104, 119] = 2 \<and>
     sched_named_task s' [104] = 0"
proof -
  have i: "avl_invar cmp_bytes zero_free (named_tasks example_sched)" by (simp add: avl_invar_initialize)
  have z: "sched_named_task example_sched n = 0" for n
    by (simp add: sched_named_task_def avl_search_def avl_initialize_def)
  show ?thesis
    using sched_names [OF i, of "[104, 119]" "[104, 119]" 2] sched_names [OF i, of "[104, 119]" "[104]" 2] z by auto
qed

end
