(* ===== verification/Sched_Listen.thy ===== *)
theory Sched_Listen
  imports Sched_Task
begin

text \<open>
  \<^verbatim>\<open>kernel/scheduler/listen.c\<close> and \<^verbatim>\<open>interface.h\<close>: the packets tasks send to the scheduler,
  how it serves them, and the queue of the tasks it serves.
\<close>

section \<open>Packets\<close>

text \<open>
  \<^verbatim>\<open>sched_in_packet_t\<close> has 56 bytes: the type, the request id at offset 8, and a union at
  offset 16.  A packet is its bytes; the members of the union are read at their offsets.
\<close>

definition field64 :: "u8 list \<Rightarrow> nat \<Rightarrow> u64" where
  "field64 p off = le_value (take 8 (drop off p))"

definition in_type :: "u8 list \<Rightarrow> u8" where "in_type p = p ! 0"
definition in_req_id :: "u8 list \<Rightarrow> u64" where "in_req_id p = field64 p 8"

text \<open>
  A \<^verbatim>\<open>char\<close> array of 32 bytes read as a string.  The two requests that carry a name first set
  its last byte to 0, in the packet buffer.
\<close>

definition field_name :: "u8 list \<Rightarrow> nat \<Rightarrow> u8 list" where
  "field_name p off = takeWhile (\<lambda>c. c \<noteq> 0) (take 32 (drop off p))"

definition terminate_name :: "u8 list \<Rightarrow> u8 list" where
  "terminate_name p = (if in_type p = 7 then p[24 + 31 := 0] else if in_type p = 8 then p[16 + 31 := 0] else p)"

datatype sched_request =
    SCHED_FORWARD u64 u64 "u8 list"
  | SCHED_WAIT u64 u64
  | SCHED_WAKE u64 u64 u64
  | SCHED_MAP_ANONYMOUS u64 u64 u64
  | SCHED_MAP_PHYSICAL u64 u64 u64 u64
  | SCHED_MAP_MIRROR u64 u64 u64 u64 u64
  | SCHED_UNMAP u64 u64 u64
  | SCHED_SET_NAME u64 "u8 list"
  | SCHED_GET_NAMED "u8 list"
  | SCHED_SPAWN u64
  | SCHED_SET_STATE u64 u64 u64
  | SCHED_REAP u64
  | SCHED_UNKNOWN

definition sched_request :: "u8 list \<Rightarrow> sched_request" where
  "sched_request p =
     (let t = in_type p; w = (\<lambda>i. field64 p (16 + 8 * i)) in
      if t = 0 then SCHED_FORWARD (w 0) (w 1) (drop 32 p)
      else if t = 1 then SCHED_WAIT (w 0) (w 1)
      else if t = 2 then SCHED_WAKE (w 0) (w 1) (w 2)
      else if t = 3 then SCHED_MAP_ANONYMOUS (w 0) (w 1) (w 2)
      else if t = 4 then SCHED_MAP_PHYSICAL (w 0) (w 1) (w 2) (w 3)
      else if t = 5 then SCHED_MAP_MIRROR (w 0) (w 1) (w 2) (w 3) (w 4)
      else if t = 6 then SCHED_UNMAP (w 0) (w 1) (w 2)
      else if t = 7 then SCHED_SET_NAME (w 0) (field_name p 24)
      else if t = 8 then SCHED_GET_NAMED (field_name p 16)
      else if t = 9 then SCHED_SPAWN (w 0)
      else if t = 10 then SCHED_SET_STATE (w 0) (w 1) (w 2)
      else if t = 11 then SCHED_REAP (w 0)
      else SCHED_UNKNOWN)"

definition IN_PACKET_SIZE :: nat where "IN_PACKET_SIZE = 56"

definition out_bytes :: "sched_out_packet_t \<Rightarrow> u8 list" where
  "out_bytes st = out_type st # out_padding st @ le_bytes 8 (out_req_id st) @ le_bytes 8 (out_result st) @
     le_bytes 8 (out_task_id st) @ le_bytes 8 (out_root_id st)"

section \<open>Serving\<close>

definition QUEUE_MAX :: nat where "QUEUE_MAX = 100"

definition remove_from_queue :: "sched \<Rightarrow> u64 \<Rightarrow> sched" where
  "remove_from_queue s rid =
     (case List.find (\<lambda>i. entry_task_id (queue s i) = rid) [0..<queue_size s] of
        None \<Rightarrow> s
      | Some i \<Rightarrow> s\<lparr>queue := (queue s)(i := queue s (queue_size s - 1)), queue_size := queue_size s - 1\<rparr>)"

text \<open>A packet written to a channel of a task, by \<^verbatim>\<open>comm_write\<close>.\<close>

definition write_channel :: "sched \<Rightarrow> ptr \<Rightarrow> u8 list \<Rightarrow> sched \<times> u64" where
  "write_channel s cc data =
     (let (c, r) = comm_write (channels s cc) data
      in (s\<lparr>channels := (channels s)(cc := c)\<rparr>, word_of_int r))"

definition set_result :: "sched_out_packet_t \<Rightarrow> u64 \<Rightarrow> sched_out_packet_t" where
  "set_result st r = st\<lparr>out_result := r\<rparr>"

definition queue_push :: "sched \<Rightarrow> u64 \<Rightarrow> ptr \<Rightarrow> sched run" where
  "queue_push s rid info =
     (if queue_size s < QUEUE_MAX
      then returns (s\<lparr>queue := (queue s)(queue_size s := \<lparr>entry_task_id = rid, entry_info = info\<rparr>), queue_size := queue_size s + 1\<rparr>)
      else crash OutOfBounds)"

text \<open>
  The cases of the \<^verbatim>\<open>switch\<close>.  \<open>q\<close> is the index of the entry being served, \<open>root\<close> the root rid
  of its task.  \<^verbatim>\<open>in_size\<close> has just been set to the size of the whole packet, so the length of
  a forwarded message is computed from that.
\<close>

definition serve_forward ::
  "sched \<Rightarrow> u64 \<Rightarrow> u64 \<Rightarrow> u8 list \<Rightarrow> sched_out_packet_t \<Rightarrow> (sched \<times> sched_out_packet_t) run" where
  "serve_forward s tid flen data st =
     (let in_size = of_nat IN_PACKET_SIZE :: u64;
          length = in_size - 32;
          length = (if flen < length then flen else length);
          tinfo = sched_get_info s tid
      in if tinfo \<noteq> 0 then
           bindR (deref (infos s) tinfo) (\<lambda>i.
           (let (s, r) = write_channel s (info_gin i) (take (unat length) data) in returns (s, set_result st r)))
         else returns (s, set_result st (-1)))"

definition serve_wait ::
  "sched \<Rightarrow> nat \<Rightarrow> u64 \<Rightarrow> u64 \<Rightarrow> u64 \<Rightarrow> sched_out_packet_t \<Rightarrow> (sched \<times> sched_out_packet_t) run" where
  "serve_wait s q root addr v st =
     (let phy = mman_get_phy s root addr; obj = synch_from_phy s phy in
      bindR (if obj = 0 then synch_make s phy else returns (s, obj)) (\<lambda>(s, obj).
      if obj \<noteq> 0 then
        bindR (synch_wait s (entry_task_id (queue s q)) obj v) (\<lambda>(s, r). returns (s, set_result st (word_of_int r)))
      else returns (s, set_result st (-1))))"

definition serve_wake ::
  "sched \<Rightarrow> u64 \<Rightarrow> u64 \<Rightarrow> u64 \<Rightarrow> u64 \<Rightarrow> sched_out_packet_t \<Rightarrow> (sched \<times> sched_out_packet_t) run" where
  "serve_wake s root addr v count st =
     (let phy = mman_get_phy s root addr; obj = synch_from_phy s phy in
      if obj \<noteq> 0 then bindR (synch_wake s obj v count) (\<lambda>s. returns (s, set_result st 0))
      else returns (s, set_result st 1))"

definition serve_spawn ::
  "sched \<Rightarrow> u64 \<Rightarrow> sched_out_packet_t \<Rightarrow> (sched \<times> sched_out_packet_t) run" where
  "serve_spawn s root st =
     (let (s, info) = heap_alloc s;
          s = (if info = 0 then s else s\<lparr>infos := (infos s)(info \<mapsto> uninit_info s)\<rparr>)
      in
      bindR (sched_task_create s root info) (\<lambda>(s, tid).
      (let st = st\<lparr>out_root_id := root, out_task_id := tid\<rparr>
       in bindR (queue_push s tid info) (\<lambda>s. returns (s, st)))))"

definition serve_reap ::
  "sched \<Rightarrow> nat \<Rightarrow> u64 \<Rightarrow> sched_out_packet_t \<Rightarrow> (sched \<times> sched_out_packet_t) run" where
  "serve_reap s q tid st =
     (let (rid, st) = (if tid = 0 then (entry_task_id (queue s q), st\<lparr>out_req_id := 0\<rparr>) else (tid, st));
          info = entry_info (queue s q)
      in
      bindR (sched_task_reap s rid) (\<lambda>(s, _).
      (let s = remove_from_queue s rid
       in bindR (freed (infos s) info) (\<lambda>h. returns (s\<lparr>infos := h\<rparr>, st)))))"

definition serve ::
  "sched \<Rightarrow> nat \<Rightarrow> u64 \<Rightarrow> sched_request \<Rightarrow> sched_out_packet_t \<Rightarrow> (sched \<times> sched_out_packet_t) run" where
  "serve s q own rq st =
     (let own_root = (\<lambda>rid. if rid = 0 then own else rid);
          mapped = (\<lambda>(s, r). returns (s, set_result st (word_of_int r)))
      in case rq of
        SCHED_FORWARD tid flen data \<Rightarrow> serve_forward s tid flen data st
      | SCHED_WAIT a v \<Rightarrow> serve_wait s q own a v st
      | SCHED_WAKE a v count \<Rightarrow> serve_wake s own a v count st
      | SCHED_MAP_ANONYMOUS rid a sz \<Rightarrow> mapped (mman_anonymous s (own_root rid) a sz)
      | SCHED_MAP_PHYSICAL rid a pa sz \<Rightarrow> mapped (mman_physical s (own_root rid) a pa sz)
      | SCHED_MAP_MIRROR rid a oid oa sz \<Rightarrow> mapped (mman_mirror s (own_root rid) a oid oa sz)
      | SCHED_UNMAP rid a sz \<Rightarrow> bindR (checked (mman_unmap free_objects_callback s (own_root rid) a sz)) mapped
      | SCHED_SET_NAME rid name \<Rightarrow>
          bindR (sched_set_name s (if rid = 0 then entry_task_id (queue s q) else rid) name) (\<lambda>s. returns (s, st))
      | SCHED_GET_NAMED name \<Rightarrow>
          returns (s, st\<lparr>out_type := 8, out_task_id := sched_named_task s name\<rparr>)
      | SCHED_SPAWN rid \<Rightarrow> serve_spawn s (own_root rid) st
      | SCHED_SET_STATE tid i v \<Rightarrow> bindR (sched_set_state s tid i v) (\<lambda>s. returns (s, st))
      | SCHED_REAP tid \<Rightarrow> serve_reap s q tid st
      | SCHED_UNKNOWN \<Rightarrow> returns (s, st))"

definition send_status :: "sched \<Rightarrow> nat \<Rightarrow> sched_out_packet_t \<Rightarrow> sched run" where
  "send_status s q st =
     (if out_req_id st \<noteq> 0 then
        bindR (deref (infos s) (entry_info (queue s q))) (\<lambda>i.
        returns (fst (write_channel s (info_sout i) (out_bytes st))))
      else returns s)"

text \<open>
  One round of the loop of \<^verbatim>\<open>process\<close>.  The packet buffer and the status packet keep what an
  earlier round left in them; \<open>None\<close> as the result says that there was nothing to read.
\<close>

definition process_one ::
  "sched \<Rightarrow> nat \<Rightarrow> u8 list \<Rightarrow> sched_out_packet_t \<Rightarrow> (sched \<times> (u8 list \<times> sched_out_packet_t) option) run" where
  "process_one s q inb st =
     bindR (deref (infos s) (entry_info (queue s q))) (\<lambda>i.
     (let (c, got, in_size, r) = comm_read (channels s (info_sin i)) (of_nat IN_PACKET_SIZE);
          s = s\<lparr>channels := (channels s)(info_sin i := c)\<rparr>
      in if r \<noteq> 0 then returns (s, None)
         else
           (let inb = terminate_name (got @ drop (length got) inb);
                st = st\<lparr>out_type := in_type inb, out_req_id := in_req_id inb, out_result := 0\<rparr>
            in
            bindR (serve s q (info_root_id i) (sched_request inb) st) (\<lambda>(s, st).
            bindR (send_status s q st) (\<lambda>s. returns (s, Some (inb, st)))))))"

partial_function (option) process_loop ::
  "sched \<Rightarrow> nat \<Rightarrow> u8 list \<Rightarrow> sched_out_packet_t \<Rightarrow> int \<Rightarrow> (sched \<times> int) run" where
  "process_loop s q inb st ret =
     (case process_one s q inb st of
        None \<Rightarrow> None
      | Some (Fault e) \<Rightarrow> crash e
      | Some (Ok (s, None)) \<Rightarrow> returns (s, ret)
      | Some (Ok (s, Some (inb, st))) \<Rightarrow> process_loop s q inb st 1)"

definition process :: "sched \<Rightarrow> nat \<Rightarrow> (sched \<times> int) run" where
  "process s q = process_loop s q (uninit_in s) (uninit_status s) 0"

section \<open>The queue\<close>

text \<open>
  \<^verbatim>\<open>listen\<close> adds the first task to the queue and then serves the queue in rounds without end;
  \<open>listen_round\<close> is one of them, from entry \<open>i\<close> on.
\<close>

definition listen_start :: "sched \<Rightarrow> nat \<Rightarrow> sched run" where
  "listen_start s hw_task =
     (let s = s\<lparr>queue_size := 0\<rparr>;
          (s, info) = heap_alloc s;
          s = (if info = 0 then s else s\<lparr>infos := (infos s)(info \<mapsto> uninit_info s)\<rparr>)
      in
      bindR (sched_task_attach s hw_task info) (\<lambda>(s, rid).
      bindR (queue_push s rid info) (\<lambda>s.
      returns (s\<lparr>tasks := put_word (tasks s) hw_task STATE (tasks s hw_task STATE OR TASK_STATE_RUNNABLE)\<rparr>))))"

partial_function (option) listen_round :: "sched \<Rightarrow> nat \<Rightarrow> int \<Rightarrow> (sched \<times> int) run" where
  "listen_round s i any =
     (if i < queue_size s then
        (case process s i of
           None \<Rightarrow> None
         | Some (Fault e) \<Rightarrow> crash e
         | Some (Ok (s, r)) \<Rightarrow> listen_round s (i + 1) (if any \<noteq> 0 \<or> r \<noteq> 0 then 1 else 0))
      else returns (s, any))"

definition process_for :: "sched \<Rightarrow> u64 \<Rightarrow> sched run" where
  "process_for s tid =
     (case List.find (\<lambda>i. entry_task_id (queue s i) = tid) [0..<queue_size s] of
        None \<Rightarrow> returns s
      | Some i \<Rightarrow> bindR (process s i) (\<lambda>(s, _). returns s))"


section \<open>Properties\<close>

lemma remove_from_queue_view:
  "infos (remove_from_queue s tid) = infos s"
  "entry_task_id (queue s q) \<noteq> tid \<or> q = queue_size s - 1 \<Longrightarrow> queue (remove_from_queue s tid) q = queue s q"
  by (auto simp: remove_from_queue_def find_Some_iff split: option.split)

lemma serve_reap_frees:
  assumes "serve_reap s q tid st = returns (s', st')" "deref (infos s) (entry_info (queue s q)) = returns i"
    and "tid \<noteq> 0 \<and> tid \<noteq> entry_task_id (queue s q) \<or> q = queue_size s - 1"
  shows "queue s' q = queue s q" "deref (infos s') (entry_info (queue s q)) = crash UseAfterFree"
proof -
  define rid where "rid = (if tid = 0 then entry_task_id (queue s q) else tid)"
  obtain s1 info h where r: "sched_task_reap s rid = returns (s1, info)"
    "freed (infos (remove_from_queue s1 rid)) (entry_info (queue s q)) = returns h"
    "s' = (remove_from_queue s1 rid)\<lparr>infos := h\<rparr>"
    using assms(1) by (cases "tid = 0") (auto simp: serve_reap_def Let_def bindR_returns_iff rid_def)
  note v = sched_task_reap_view [OF r(1)]
  show "queue s' q = queue s q"
    using assms(3) remove_from_queue_view(2) [of s1 q rid] v by (auto simp: r(3) rid_def)
  have "entry_info (queue s q) \<noteq> 0" "infos s (entry_info (queue s q)) = Some i"
    using assms(2) by (simp_all add: deref_returns)
  then show "deref (infos s') (entry_info (queue s q)) = crash UseAfterFree"
    using r(2) by (auto simp: r(3) remove_from_queue_view v freed_def)
qed

text \<open>
  C38: the \<^verbatim>\<open>SCHED_REAP\<close> request frees the record of the task that sent it, whatever task it
  names, while the loop of \<^verbatim>\<open>process\<close> still serves that record: \<^verbatim>\<open>process\<close> never returns from
  reaping another task, nor from reaping oneself as the last of the queue.
\<close>

theorem reap_never_returns:
  assumes "deref (infos s) (entry_info (queue s q)) = returns i"
    and "comm_read (channels s (info_sin i)) (of_nat IN_PACKET_SIZE) = (c, got, n, 0)"
    and "sched_request (terminate_name (got @ drop (length got) inb)) = SCHED_REAP tid"
    and "tid \<noteq> 0 \<and> tid \<noteq> entry_task_id (queue s q) \<or> q = queue_size s - 1"
  shows "process_loop s q inb st ret \<noteq> returns x"
proof
  assume ret: "process_loop s q inb st ret = returns x"
  define s0 where "s0 = s\<lparr>channels := (channels s)(info_sin i := c)\<rparr>"
  define inb' where "inb' = terminate_name (got @ drop (length got) inb)"
  define st0 where "st0 = st\<lparr>out_type := in_type inb', out_req_id := in_req_id inb', out_result := 0\<rparr>"
  have one: "process_one s q inb st =
      bindR (serve_reap s0 q tid st0) (\<lambda>(s, st). bindR (send_status s q st) (\<lambda>s. returns (s, Some (inb', st))))"
    using assms(1-3) by (simp add: process_one_def serve_def s0_def st0_def inb'_def [symmetric] Let_def)
  obtain s2 r where "process_one s q inb st = returns (s2, r)"
    using ret by (subst (asm) process_loop.simps) (auto split: option.splits res.splits)
  then obtain s1 st1 where sr: "serve_reap s0 q tid st0 = returns (s1, st1)"
    and rest: "send_status s1 q st1 = returns s2" "r = Some (inb', st1)"
    unfolding one by (auto simp: bindR_returns_iff)
  have d: "deref (infos s1) (entry_info (queue s1 q)) = crash UseAfterFree"
    using serve_reap_frees [OF sr, of i] assms(1,4) by (simp add: s0_def)
  with rest have "s2 = s1" "r = Some (inb', st1)" by (auto simp: send_status_def split: if_splits)
  then have "process_one s q inb st = returns (s1, Some (inb', st1))"
    using \<open>process_one s q inb st = returns (s2, r)\<close> by simp
  then have "process_loop s1 q inb' st1 1 = returns x"
    using ret by (subst (asm) process_loop.simps) simp
  then show False using d by (subst (asm) process_loop.simps) (simp add: process_one_def)
qed

text \<open>A channel with one packet waiting in it, and a task whose requests it holds.\<close>

definition example_channel :: "u8 list \<Rightarrow> comm_t" where
  "example_channel p = \<lparr>total_length = 0x800, data_begin = 56, data_length = 0x7c8, flags = 0, ring_begin = 0,
     ring_end = of_nat (4 + length p), packet_count = 1,
     cbytes = (\<lambda>a. if a = 56 then of_nat (length p)
                  else if 60 \<le> unat a \<and> unat a < 60 + length p then p ! (unat a - 60) else 0)\<rparr>"

lemma example_channel_read:
  assumes "length p \<le> 56"
  shows "\<exists>c n. comm_read (example_channel p) (of_nat IN_PACKET_SIZE) = (c, p, n, 0)"
proof -
  have u: "unat (60 + of_nat i :: u64) = 60 + i" if "i < length p" for i
    using that assms by (simp add: unat_word_ariths unat_of_nat)
  have n: "(4 + of_nat i :: u64) \<noteq> 0" if "i < length p" for i
  proof
    assume "(4 + of_nat i :: u64) = 0"
    then have "unat (4 + of_nat i :: u64) = 0" by simp
    then show False using that assms by (simp add: unat_word_ariths unat_of_nat del: unat_eq_zero)
  qed
  have r: "ring_read (cbytes (example_channel p)) 60 (length p) = p"
    using n by (intro nth_equalityI) (auto simp: ring_read_def example_channel_def u)
  have h: "ring_read (cbytes (example_channel p)) 56 4 = [of_nat (length p), 0, 0, 0]"
    by (simp add: ring_read_def example_channel_def upt_conv_Cons)
  have d: "(ucast (ucast (of_nat (length p) :: u8) :: u32) :: u64) = of_nat (length p)"
    using assms by (simp add: unsigned_of_nat take_bit_nat_eq_self)
  have l: "unat (of_nat (length p) :: u64) = length p" "\<not> 56 < (of_nat (length p) :: u64)"
    "\<not> 1992 \<le> 4 + (of_nat (length p) :: u64)"
    using assms by (simp_all add: unat_of_nat word_le_nat_alt word_less_nat_alt unat_word_ariths)
  show ?thesis
    using h d l r
    by (simp add: comm_read_def comm_peek_def comm_get_data_def example_channel_def COMM_TYPE_MASK_def COMM_SIMPLE_def
        IN_PACKET_SIZE_def Let_def)
qed

definition example_request :: "u8 list \<Rightarrow> sched" where
  "example_request p = example_reap\<lparr>
     infos := [0x200 \<mapsto> (uninit_info example_sched)\<lparr>info_id := 2, info_state := 5, info_root_id := 7,
         info_sin := 0x3000, info_sout := 0x3800, info_gin := 0x4000\<rparr>],
     channels := (channels example_sched)(0x3000 := example_channel p),
     queue := (\<lambda>_. \<lparr>entry_task_id = 2, entry_info = 0x200\<rparr>), queue_size := 1\<rparr>"

theorem reap_never_returns_witness:
  "\<not> (\<exists>x. process (example_request ([11,0,0,0,0,0,0,0, 1,0,0,0,0,0,0,0, 9,0,0,0,0,0,0,0, 0,0,0,0,0,0,0,0])) 0 = returns x)"
proof (intro notI, elim exE)
  fix x
  assume r: "process (example_request ([11,0,0,0,0,0,0,0, 1,0,0,0,0,0,0,0, 9,0,0,0,0,0,0,0, 0,0,0,0,0,0,0,0])) 0 = returns x"
  define p :: "u8 list" where "p = [11,0,0,0,0,0,0,0, 1,0,0,0,0,0,0,0, 9,0,0,0,0,0,0,0, 0,0,0,0,0,0,0,0]"
  obtain c n where c: "comm_read (example_channel p) (of_nat IN_PACKET_SIZE) = (c, p, n, 0)"
    using example_channel_read [of p] by (auto simp: p_def)
  have u: "uninit_in (example_request p) = replicate 56 0"
    by (simp add: example_request_def example_reap_def example_sched_def sched.defs mman.defs)
  have "sched_request (terminate_name (p @ drop (length p) (uninit_in (example_request p)))) = SCHED_REAP 9"
    unfolding u by (simp add: p_def sched_request_def terminate_name_def in_type_def field64_def)
  then have "process (example_request p) 0 \<noteq> returns x"
    unfolding process_def
    by (intro reap_never_returns [where c = c and got = p and n = n and tid = 9 and i = "(uninit_info example_sched)
        \<lparr>info_id := 2, info_state := 5, info_root_id := 7, info_sin := 0x3000, info_sout := 0x3800, info_gin := 0x4000\<rparr>"])
      (simp_all add: example_request_def deref_returns c)
  with r show False unfolding p_def by blast
qed


text \<open>
  a \<^verbatim>\<open>SCHED_FORWARD\<close> packet that carries no data but claims some has the receiver get 24
  bytes the packet did not contain: what an earlier packet, or an earlier user of the
  scheduler's stack, left in the buffer.
\<close>

theorem forward_sends_stale:
  assumes "deref (infos s) (entry_info (queue s q)) = returns i"
    and "comm_read (channels s (info_sin i)) (of_nat IN_PACKET_SIZE) = (c, got, n, 0)"
    and "length got = 32" "in_type got = 0" "24 \<le> field64 got 24" "length inb = 56"
    and "deref (infos s) (sched_get_info s (field64 got 16)) = returns j"
    and "info_gin j \<noteq> info_sin i" "info_gin j \<noteq> info_sout i"
  shows "\<exists>s' x. process_one s q inb st = returns (s', Some x) \<and>
    channels s' (info_gin j) = fst (comm_write (channels s (info_gin j)) (drop 32 inb))"
proof -
  define s0 where "s0 = s\<lparr>channels := (channels s)(info_sin i := c)\<rparr>"
  define p where "p = got @ drop 32 inb"
  have t: "in_type p = 0" "terminate_name p = p" "field64 p 16 = field64 got 16" "field64 p 24 = field64 got 24"
    "field64 p (16 + 8 * 1) = field64 got 24"
    using assms(3,4) by (simp_all add: p_def in_type_def terminate_name_def nth_append field64_def)
  then have rq: "sched_request p = SCHED_FORWARD (field64 got 16) (field64 got 24) (drop 32 inb)"
    using assms(3) by (simp add: sched_request_def p_def)
  have len: "(if field64 got 24 < of_nat IN_PACKET_SIZE - 32 then field64 got 24 else of_nat IN_PACKET_SIZE - 32) = 24"
    using assms(5) by (auto simp: IN_PACKET_SIZE_def)
  have "sched_get_info s (field64 got 16) \<noteq> 0" using assms(7) by (simp add: deref_returns)
  moreover have "take (unat (24 :: u64)) (drop 32 inb) = drop 32 inb" using assms(6) by simp
  ultimately have sf: "serve_forward s0 (field64 got 16) (field64 got 24) (drop 32 inb) st' =
      (let (s, r) = write_channel s0 (info_gin j) (drop 32 inb) in returns (s, set_result st' r))" for st'
    using assms(7) unfolding serve_forward_def Let_def len by (simp add: s0_def sched_get_info_def)
  obtain s1 r where w: "write_channel s0 (info_gin j) (drop 32 inb) = (s1, r)" by fastforce
  have s1: "channels s1 (info_gin j) = fst (comm_write (channels s (info_gin j)) (drop 32 inb))"
    "infos s1 = infos s" "queue s1 = queue s"
    using w assms(8) by (auto simp: write_channel_def s0_def split: prod.splits)
  define st0 where "st0 = set_result (st\<lparr>out_type := in_type p, out_req_id := in_req_id p, out_result := 0\<rparr>) r"
  have one: "process_one s q inb st = bindR (send_status s1 q st0) (\<lambda>s. returns (s, Some (p, st0)))"
    using assms(1-3) t rq by (simp add: process_one_def s0_def [symmetric] p_def [symmetric] serve_def sf w st0_def Let_def)
  obtain s2 where s2: "send_status s1 q st0 = returns s2" "channels s2 (info_gin j) = channels s1 (info_gin j)"
    using assms(1,9) s1(2,3)
    by (cases "out_req_id st0 = 0") (auto simp: send_status_def write_channel_def split: prod.splits)
  then show ?thesis using one s1(1) by auto
qed

text \<open>A task that forwards to itself.\<close>

theorem forward_sends_stale_witness:
  "\<exists>s' x. process_one (example_request [0,0,0,0,0,0,0,0, 0,0,0,0,0,0,0,0, 2,0,0,0,0,0,0,0, 24,0,0,0,0,0,0,0]) 0
      (replicate 32 0 @ replicate 24 0x55) (uninit_status example_sched) = returns (s', Some x) \<and>
    channels s' 0x4000 = fst (comm_write (channels example_sched 0x4000) (replicate 24 0x55))"
proof -
  define p :: "u8 list" where "p = [0,0,0,0,0,0,0,0, 0,0,0,0,0,0,0,0, 2,0,0,0,0,0,0,0, 24,0,0,0,0,0,0,0]"
  define i where "i = (uninit_info example_sched)
        \<lparr>info_id := 2, info_state := 5, info_root_id := 7, info_sin := 0x3000, info_sout := 0x3800, info_gin := 0x4000\<rparr>"
  obtain c n where c: "comm_read (example_channel p) (of_nat IN_PACKET_SIZE) = (c, p, n, 0)"
    using example_channel_read [of p] by (auto simp: p_def)
  have f: "length p = 32" "in_type p = 0" "field64 p 24 = 24" "field64 p 16 = 2"
    by (simp_all add: p_def in_type_def field64_def)
  have "avl_search (task_map (example_request p)) 2 = 0x200"
    using example_reap_info(1) by (simp add: example_request_def)
  moreover have d: "deref (infos (example_request p)) 0x200 = returns i"
    by (simp add: example_request_def i_def)
  ultimately have j: "deref (infos (example_request p)) (sched_get_info (example_request p) (field64 p 16)) = returns i"
    by (simp add: f sched_get_info_def)
  have q: "entry_info (queue (example_request p) 0) = 0x200" "channels (example_request p) (info_sin i) = example_channel p"
    "channels (example_request p) 0x4000 = channels example_sched 0x4000" "info_gin i = 0x4000"
    by (simp_all add: example_request_def i_def)
  show ?thesis
    unfolding p_def [symmetric]
    using forward_sends_stale [where s = "example_request p" and q = 0 and i = i and c = c and got = p and n = n
        and inb = "replicate 32 0 @ replicate 24 0x55" and j = i and st = "uninit_status example_sched"] d c f j q
    by (simp add: i_def)
qed

text \<open>
  a \<^verbatim>\<open>SCHED_SPAWN\<close> under an unknown root creates no task, but still adds an entry to the queue,
  with the id -1 and an info record nobody has written; and the entry after the hundredth, of
  a task or not, is stored outside the queue.
\<close>

theorem spawn_unknown_root:
  assumes "\<not> mman_is_root s root" "malloc_result s (malloc_count s) = info" "info \<noteq> 0"
  shows "if queue_size s < QUEUE_MAX
    then \<exists>s'. serve_spawn s root st = returns (s', st\<lparr>out_root_id := root, out_task_id := -1\<rparr>) \<and>
      queue_size s' = queue_size s + 1 \<and> queue s' (queue_size s) = \<lparr>entry_task_id = -1, entry_info = info\<rparr> \<and>
      infos s' info = Some (uninit_info s) \<and> task_map s' = task_map s
    else serve_spawn s root st = crash OutOfBounds"
  using assms
  by (auto simp: serve_spawn_def heap_alloc_def sched_task_create_def mman_is_root_def queue_push_def Let_def)

theorem spawn_unknown_root_witness:
  "\<exists>s'. serve_spawn example_reap 99 st = returns (s', st\<lparr>out_root_id := 99, out_task_id := -1\<rparr>) \<and>
     queue s' 0 = \<lparr>entry_task_id = -1, entry_info = 0x10000\<rparr>"
proof -
  have "\<not> mman_is_root example_reap 99"
    by (simp add: mman_is_root_def example_reap_def example_sched_def example_mman_def sched.defs mman.defs
        unuse_list_fields avl_insert_def avl_search_def avl_initialize_def avl_ptrcmp_def)
  then show ?thesis
    using spawn_unknown_root [of example_reap 99 "0x10000" st] by (auto simp: example_reap_def QUEUE_MAX_def)
qed

end
