(* ===== verification/Sched_Main.thy ===== *)
theory Sched_Main
  imports Sched_Choose Sched_Listen Klib_Io
begin

text \<open>
  The entry points of \<^verbatim>\<open>kernel/scheduler/scheduler.c\<close>: the two interrupt tasks of the scheduler
  and its start.  An entry point ends in \<^verbatim>\<open>transfer\<close>, which resumes the task it is given; the
  model returns the slot of that task, \<open>None\<close> for the NULL that \<^verbatim>\<open>choose_next\<close> may give.
\<close>

section \<open>Interrupt tasks\<close>

text \<open>The timer's: \<open>l\<close> is the local APIC.\<close>

definition change_task :: "'a lapic_state_scheme \<Rightarrow> task_table \<Rightarrow> u64 \<Rightarrow> nat \<Rightarrow> 'a lapic_state_scheme \<times> nat option" where
  "change_task l t vector ret_task =
     (let target = (if t ret_task STATE AND TASK_STATE_RUNNABLE \<noteq> 0 then choose_next t ret_task else Some ret_task);
          l = lapic_conditional_eoi l (ucast vector)
      in (l, target))"

text \<open>The one for requests, called with the id of the task in its \<open>RAX\<close>.\<close>

definition process_queue :: "sched \<Rightarrow> nat \<Rightarrow> (sched \<times> nat option) run" where
  "process_queue s ret_task =
     bindR (process_for s (tasks s ret_task RAX)) (\<lambda>s.
     returns (s, if tasks s ret_task STATE AND TASK_STATE_BLOCKED \<noteq> 0 then choose_next (tasks s) ret_task else Some ret_task))"

section \<open>Start\<close>

text \<open>
  \<^verbatim>\<open>_start\<close> up to the rounds of \<^verbatim>\<open>listen\<close>.  The heap of typed objects is ready from the start, so
  the two calls that set up the allocator are left out.  \<open>change_entry\<close>, \<open>process_entry\<close> and
  the stack addresses are what the linker gives; the table of interrupt tasks is returned.
\<close>

definition interrupt_task :: "sched \<Rightarrow> u64 \<Rightarrow> u64 \<Rightarrow> (sched \<times> u64) run" where
  "interrupt_task s entry stack_top =
     (case task_create (tasks s) of
        (t, None) \<Rightarrow> crash NullDeref
      | (t, Some ts) \<Rightarrow> returns (s\<lparr>tasks := task_set_local s t ts entry stack_top\<rparr>, TASK_ADDR ts))"

definition sched_start ::
  "sched \<Rightarrow> (nat \<Rightarrow> u64) \<Rightarrow> u64 \<Rightarrow> u64 \<Rightarrow> u64 \<Rightarrow> u64 \<Rightarrow> u64 \<Rightarrow> nat \<Rightarrow> (sched \<times> (nat \<Rightarrow> u64)) run" where
  "sched_start s int_tasks change_entry change_stack process_entry process_stack bootproc_cr3 hw_task =
     (let s = mman_init s bootproc_cr3;
          s = task_init s;
          s = synch_init s
      in
      bindR (interrupt_task s change_entry (change_stack + 1024)) (\<lambda>(s, tick).
      (let int_tasks = int_tasks(0xff := tick) in
      bindR (interrupt_task s process_entry (process_stack + 4096)) (\<lambda>(s, proc).
      (let int_tasks = int_tasks(0xfe := proc);
           s = s\<lparr>tasks := put_word (tasks s) 1 STATE (TASK_STATE_VALID OR TASK_STATE_RUNNABLE)\<rparr>
       in bindR (listen_start s hw_task) (\<lambda>s. returns (s, int_tasks)))))))"

section \<open>Properties\<close>

text \<open>
  C14: what runs after an interrupt.  After the timer a task that is not runnable resumes, and
  after a request a task that is not blocked.  Otherwise it is the first ready task after the
  current one, in slot order and round the table; a task that became blocked while no other is
  ready leaves NULL for \<^verbatim>\<open>transfer\<close>, and a blocked task is never what runs after a request.
\<close>

theorem dispatch_target:
  assumes "process_queue s slot = returns (s', target)" and "0 < slot" "slot < NUM_TASKS"
  shows "process_for s (tasks s slot RAX) = returns s' \<and>
    (if tasks s' slot STATE AND TASK_STATE_BLOCKED = 0 then target = Some slot
     else case target of
         None \<Rightarrow> \<forall>j. \<not> ready (tasks s') j
       | Some j \<Rightarrow> ready (tasks s') j \<and> j \<noteq> slot \<and>
           (\<exists>off. 0 < off \<and> off < NUM_TASKS \<and> j = (slot + off) mod NUM_TASKS \<and>
             (\<forall>k \<in> {0<..<off}. \<not> ready (tasks s') ((slot + k) mod NUM_TASKS)))) \<and>
    snd (change_task l (tasks s') vector slot) =
      (if tasks s' slot STATE AND TASK_STATE_RUNNABLE = 0 then Some slot else choose_next (tasks s') slot)"
proof -
  have p: "process_for s (tasks s slot RAX) = returns s'"
    using assms(1) by (auto simp: process_queue_def bindR_returns_iff)
  have t: "target = (if tasks s' slot STATE AND TASK_STATE_BLOCKED \<noteq> 0 then choose_next (tasks s') slot else Some slot)"
    using assms(1) by (simp add: process_queue_def p)
  have "case target of
         None \<Rightarrow> \<forall>j. \<not> ready (tasks s') j
       | Some j \<Rightarrow> ready (tasks s') j \<and> j \<noteq> slot \<and>
           (\<exists>off. 0 < off \<and> off < NUM_TASKS \<and> j = (slot + off) mod NUM_TASKS \<and>
             (\<forall>k \<in> {0<..<off}. \<not> ready (tasks s') ((slot + k) mod NUM_TASKS)))"
    if b: "tasks s' slot STATE AND TASK_STATE_BLOCKED \<noteq> 0"
  proof (rule choose_next_cases [of "tasks s'" slot])
    fix off
    assume off: "0 < off" "off < NUM_TASKS" "choose_next (tasks s') slot = Some ((slot + off) mod NUM_TASKS)"
      "ready (tasks s') ((slot + off) mod NUM_TASKS)"
      "\<And>k. 0 < k \<Longrightarrow> k < off \<Longrightarrow> \<not> ready (tasks s') ((slot + k) mod NUM_TASKS)"
    moreover have "(slot + off) mod NUM_TASKS \<noteq> slot" using off(4) ready_not_blocked b by metis
    ultimately show ?thesis using t b by auto
  next
    assume c: "choose_next (tasks s') slot = (if tasks s' slot STATE AND TASK_STATE_BLOCKED \<noteq> 0 then None else Some slot)"
    then have "\<not> (\<exists>j. ready (tasks s') j)" using choose_next_null [of slot "tasks s'"] assms(2,3) b by simp
    then show ?thesis using t b c by simp
  qed
  then show ?thesis using p t by (simp add: change_task_def Let_def)
qed

text \<open>A blocked task in slot 7, one that is ready in slot 9, and a request of nobody in the queue.\<close>

definition blocked_caller :: sched where
  "blocked_caller = example_sched\<lparr>tasks := (\<lambda>i w. if w = STATE then (if i = 7 then 0xb else if i = 9 then 3 else 0) else 0)\<rparr>"

theorem dispatch_target_witness:
  "process_queue blocked_caller 7 = returns (blocked_caller, Some 9)"
proof -
  have r: "ready (tasks blocked_caller) j \<longleftrightarrow> j = 9" for j
    by (auto simp: ready_def blocked_caller_def wanted_value_def wanted_mask_def NUM_TASKS_def
        TASK_STATE_VALID_def TASK_STATE_RUNNABLE_def TASK_STATE_BLOCKED_def)
  have "process_for blocked_caller (tasks blocked_caller 7 RAX) = returns blocked_caller"
    by (simp add: process_for_def blocked_caller_def)
  then obtain target where q: "process_queue blocked_caller 7 = returns (blocked_caller, target)"
    by (simp add: process_queue_def)
  have "tasks blocked_caller 7 STATE AND TASK_STATE_BLOCKED \<noteq> 0"
    by (simp add: blocked_caller_def TASK_STATE_BLOCKED_def)
  moreover have n: "0 < (7 :: nat)" "7 < NUM_TASKS" by (simp_all add: NUM_TASKS_def)
  ultimately have "target = Some 9"
    using dispatch_target [OF q n, THEN conjunct2, THEN conjunct1] by (auto simp: r split: option.splits)
  then show ?thesis using q by simp
qed

end
