(* ===== verification/Rlib_Client.thy ===== *)
theory Rlib_Client
  imports Sched_Main Clib_Atomic
begin

text \<open>
  \<^verbatim>\<open>rlib\<close>, the library tasks use: \<^verbatim>\<open>rlib/sequence.c\<close>, \<^verbatim>\<open>comm.c\<close>, \<^verbatim>\<open>global.c\<close>, \<^verbatim>\<open>mman.c\<close>, \<^verbatim>\<open>heap.c\<close>,
  \<^verbatim>\<open>scheduler.c\<close>, \<^verbatim>\<open>sem.c\<close> and \<^verbatim>\<open>synch.c\<close>.  A call builds a packet, writes it to the task's
  channel, enters the scheduler by an interrupt, and reads the answer.

  The interrupt leads to other code: \<open>trap v\<close> is what the state is when \<^verbatim>\<open>int v\<close> returns, and
  \<open>others\<close> what other tasks do between two polls of a loop that only polls.  Both are parameters;
  the last section puts the scheduler's own model in place of the first.
\<close>

section \<open>State\<close>

text \<open>
  What the task reaches through \<^verbatim>\<open>gs\<close> (its id at 0, its channels at 8 and 0x10, the sequence
  counter at 0x400), the library's variables, and what the stack holds where a packet is built:
  \<open>stack_in\<close> and \<open>stack_out\<close>, which may depend on the request.
\<close>

record client =
  own_id :: u64
  schedin :: comm_t
  schedout :: comm_t
  sequence_word :: u64
  last_map_addr :: u64
  g_map_start :: u64
  client_heap_start :: u64
  client_heap_size :: u64
  stack_in :: "u64 \<Rightarrow> u8 list"
  stack_out :: "u64 \<Rightarrow> u8 list"

type_synonym 's trap = "u8 \<Rightarrow> 's \<Rightarrow> 's run"

section \<open>Sequence numbers, channels and set-up\<close>

function rlib_sequence :: "'a client_scheme \<Rightarrow> 'a client_scheme \<times> u64" where
  "rlib_sequence s =
     (let ret = sequence_word s + 1; s = s\<lparr>sequence_word := ret\<rparr>
      in if ret = 0 then rlib_sequence s else (s, ret))"
  by pat_completeness auto

termination by (relation "measure (\<lambda>s. if sequence_word s = -1 then 1 else 0)") (auto simp: eq_neg_iff_add_eq_0)

declare rlib_sequence.simps [simp del]

text \<open>\<^verbatim>\<open>comm_read\<close> of the library loops for ever on a channel that is not simple.\<close>

definition rlib_comm_read :: "comm_t \<Rightarrow> u64 \<Rightarrow> (comm_t \<times> u8 list \<times> u64 \<times> int) option" where
  "rlib_comm_read cc data_size =
     (if flags cc AND COMM_TYPE_MASK = COMM_SIMPLE then Some (comm_peek cc data_size) else None)"

definition rlib_comm_write :: "comm_t \<Rightarrow> u8 list \<Rightarrow> comm_t \<times> int" where
  "rlib_comm_write cc data =
     (if flags cc AND COMM_TYPE_MASK = COMM_SIMPLE then comm_put cc data else (cc, 1))"

definition RLIB_DEFAULT_HEAP :: u64 where "RLIB_DEFAULT_HEAP = 0x600000000000"
definition RLIB_DEFAULT_START :: u64 where "RLIB_DEFAULT_START = 0x700000000000"

definition rlib_setup :: "'a client_scheme \<Rightarrow> u64 \<Rightarrow> u64 \<Rightarrow> 'a client_scheme" where
  "rlib_setup s hstart mstart = s\<lparr>g_map_start := mstart, client_heap_start := hstart\<rparr>"

definition rlib_map_start :: "'a client_scheme \<Rightarrow> u64" where "rlib_map_start s = g_map_start s"

section \<open>Packets\<close>

text \<open>Stores into a packet buffer: byte 0 is the type, the request id is at 8, the union at 16.\<close>

definition put_bytes :: "u8 list \<Rightarrow> nat \<Rightarrow> u8 list \<Rightarrow> u8 list" where
  "put_bytes p off bs = take off p @ bs @ drop (off + length bs) p"

definition put_type :: "u8 list \<Rightarrow> u8 \<Rightarrow> u8 list" where "put_type p t = put_bytes p 0 [t]"
definition put_req_id :: "u8 list \<Rightarrow> u64 \<Rightarrow> u8 list" where "put_req_id p v = put_bytes p 8 (le_bytes 8 v)"
definition put_member :: "u8 list \<Rightarrow> nat \<Rightarrow> u64 \<Rightarrow> u8 list" where "put_member p i v = put_bytes p (16 + 8 * i) (le_bytes 8 v)"

definition OUT_PACKET_SIZE :: nat where "OUT_PACKET_SIZE = 40"
definition reply_req_id :: "u8 list \<Rightarrow> u64" where "reply_req_id p = field64 p 8"
definition reply_task_id :: "u8 list \<Rightarrow> u64" where "reply_task_id p = field64 p 24"
definition reply_root_id :: "u8 list \<Rightarrow> u64" where "reply_root_id p = field64 p 32"

text \<open>The result of \<^verbatim>\<open>comm_write\<close> is not looked at.\<close>

definition send_packet :: "'a client_scheme \<Rightarrow> u8 list \<Rightarrow> 'a client_scheme" where
  "send_packet s p = s\<lparr>schedin := fst (rlib_comm_write (schedin s) p)\<rparr>"

text \<open>
  The loops that wait for an answer, \<open>step\<close> being what happens between two polls.  \<open>len\<close> is the
  size of the buffer; \<open>reset\<close> says whether the body sets it again.
\<close>

partial_function (option) await_reply ::
  "('a client_scheme \<Rightarrow> 'a client_scheme run) \<Rightarrow> bool \<Rightarrow> 'a client_scheme \<Rightarrow> u64 \<Rightarrow> u8 list \<Rightarrow> u64 \<Rightarrow>
   ('a client_scheme \<times> u8 list) run" where
  "await_reply step reset s req out len =
     (case rlib_comm_read (schedout s) len of
        None \<Rightarrow> None
      | Some (c, got, len', r) \<Rightarrow>
         (let s = s\<lparr>schedout := c\<rparr>; out = (if r = 0 then got @ drop (length got) out else out)
          in if r \<noteq> 0 \<or> reply_req_id out \<noteq> req then
               (case step s of
                  None \<Rightarrow> None
                | Some (Fault e) \<Rightarrow> crash e
                | Some (Ok s) \<Rightarrow> await_reply step reset s req out (if reset then of_nat OUT_PACKET_SIZE else len'))
             else returns (s, out)))"

section \<open>Memory\<close>

definition rlib_get_memory_address :: "'a client_scheme \<Rightarrow> u64 \<Rightarrow> 'a client_scheme \<times> u64" where
  "rlib_get_memory_address s sz =
     (let s = (if last_map_addr s = 0 then s\<lparr>last_map_addr := rlib_map_start s\<rparr> else s);
          addr = last_map_addr s;
          s = s\<lparr>last_map_addr := last_map_addr s + sz\<rparr>
      in (s\<lparr>last_map_addr := last_map_addr s + 0x1000\<rparr>, addr))"

definition rlib_current_memory_space :: u64 where "rlib_current_memory_space = 0"

definition anonymous_packet :: "u8 list \<Rightarrow> u64 \<Rightarrow> u64 \<Rightarrow> u64 \<Rightarrow> u8 list" where
  "anonymous_packet p req address sz =
     (let p = put_type p 3; p = put_req_id p req;
          p = put_member p 0 0; p = put_member p 1 address
      in put_member p 2 sz)"

definition rlib_anonymous ::
  "'a client_scheme trap \<Rightarrow> 'a client_scheme \<Rightarrow> u64 \<Rightarrow> u64 \<Rightarrow> ('a client_scheme \<times> u64) run" where
  "rlib_anonymous trap s address sz =
     (let (s, address) = (if address = 0 then rlib_get_memory_address s sz else (s, address));
          (s, req) = rlib_sequence s;
          s = send_packet s (anonymous_packet (stack_in s req) req address sz)
      in
      bindR (trap 0xfe s) (\<lambda>s.
      bindR (await_reply (trap 0xfe) True s req (put_req_id (stack_out s req) 0) (of_nat OUT_PACKET_SIZE)) (\<lambda>(s, out).
      returns (s, address))))"

definition mirror_packet :: "u8 list \<Rightarrow> u64 \<Rightarrow> u64 \<Rightarrow> u64 \<Rightarrow> u64 \<Rightarrow> u64 \<Rightarrow> u8 list" where
  "mirror_packet p req address oroot oaddress sz =
     (let p = put_type p 5; p = put_req_id p req;
          p = put_member p 0 0; p = put_member p 1 address;
          p = put_member p 2 oroot; p = put_member p 3 oaddress
      in put_member p 4 sz)"

text \<open>\<^verbatim>\<open>rlib_copy\<close>: \<open>len\<close> is what the stack holds in \<^verbatim>\<open>length\<close>, which is never set.\<close>

definition rlib_copy ::
  "'a client_scheme trap \<Rightarrow> u64 \<Rightarrow> 'a client_scheme \<Rightarrow> u64 \<Rightarrow> u64 \<Rightarrow> u64 \<Rightarrow> u64 \<Rightarrow> 'a client_scheme run" where
  "rlib_copy trap len s address oroot oaddress sz =
     (let (s, req) = rlib_sequence s;
          s = send_packet s (mirror_packet (stack_in s req) req address oroot oaddress sz)
      in bindR (await_reply (trap 0xfe) False s req (stack_out s req) len) (\<lambda>(s, out). returns s))"

definition heap_rlib_sizer :: "'a client_scheme trap \<Rightarrow> 'a client_scheme \<Rightarrow> u64 \<Rightarrow> ('a client_scheme \<times> u64) run" where
  "heap_rlib_sizer trap s amount =
     (if amount <s 0 then returns (s, client_heap_start s + client_heap_size s)
      else
        (let amount = (amount + 0xfff) AND NOT 0xfff;
             new_size = client_heap_size s + amount;
             prev_end = client_heap_start s + client_heap_size s
         in bindR (rlib_anonymous trap s prev_end amount) (\<lambda>(s, _).
            (let old_size = client_heap_size s; s = s\<lparr>client_heap_size := new_size\<rparr>
             in returns (s, client_heap_start s + old_size)))))"

section \<open>Tasks\<close>

definition rlib_process_queued :: "'a client_scheme trap \<Rightarrow> 'a client_scheme \<Rightarrow> 'a client_scheme run" where
  "rlib_process_queued trap s = trap 0xfe s"

definition rlib_yield :: "'a client_scheme trap \<Rightarrow> 'a client_scheme \<Rightarrow> 'a client_scheme run" where
  "rlib_yield trap s = trap 0xff s"

record rlib_task_t =
  rtask_id :: u64
  rtask_root_id :: u64

definition spawn_packet :: "u8 list \<Rightarrow> u64 \<Rightarrow> u64 \<Rightarrow> u8 list" where
  "spawn_packet p req root = (let p = put_type p 9; p = put_req_id p req in put_member p 0 root)"

text \<open>
  \<^verbatim>\<open>rlib_create_task\<close>: \<open>memspace\<close> is the root id of the space, \<open>None\<close> for \<^verbatim>\<open>RLIB_NEW_MEMSPACE\<close>.  The
  call with a NULL task, which does nothing, is left out.
\<close>

definition rlib_create_task ::
  "'a client_scheme trap \<Rightarrow> ('a client_scheme \<Rightarrow> 'a client_scheme run) \<Rightarrow> 'a client_scheme \<Rightarrow> u64 option \<Rightarrow>
   ('a client_scheme \<times> rlib_task_t) run" where
  "rlib_create_task trap others s memspace =
     (let (s, req) = rlib_sequence s;
          s = send_packet s (spawn_packet (stack_in s req) req (case memspace of None \<Rightarrow> 0 | Some r \<Rightarrow> r))
      in
      bindR (rlib_process_queued trap s) (\<lambda>s.
      bindR (await_reply others True s req (stack_out s req) (of_nat OUT_PACKET_SIZE)) (\<lambda>(s, out).
      returns (s, \<lparr>rtask_id = reply_task_id out, rtask_root_id = reply_root_id out\<rparr>))))"

definition set_state_packet :: "u8 list \<Rightarrow> u64 \<Rightarrow> u64 \<Rightarrow> u64 \<Rightarrow> u64 \<Rightarrow> u8 list" where
  "set_state_packet p req tid index v =
     (let p = put_type p 10; p = put_req_id p req; p = put_member p 0 tid; p = put_member p 1 index
      in put_member p 2 v)"

definition SCHED_STATE_RSI :: u64 where "SCHED_STATE_RSI = 4"
definition SCHED_STATE_RDI :: u64 where "SCHED_STATE_RDI = 5"
definition SCHED_STATE_RSP :: u64 where "SCHED_STATE_RSP = 6"
definition SCHED_STATE_RIP :: u64 where "SCHED_STATE_RIP = 17"
definition SCHED_STATE :: u64 where "SCHED_STATE = 27"

text \<open>One word of a task's state, asked for with the next sequence number, which is returned.\<close>

definition send_state :: "'a client_scheme \<Rightarrow> u64 \<Rightarrow> u64 \<Rightarrow> u64 \<Rightarrow> 'a client_scheme" where
  "send_state s tid index v =
     (let (s, req) = rlib_sequence s in send_packet s (set_state_packet (stack_in s req) req tid index v))"

text \<open>
  \<^verbatim>\<open>rlib_set_local_task\<close>: the number of the last request is taken before the stack is
  mapped, which takes one of its own.  \<open>wrapper\<close> is the address of \<^verbatim>\<open>rlib_local_task_wrapper\<close>.
\<close>

definition rlib_set_local_task ::
  "'a client_scheme trap \<Rightarrow> ('a client_scheme \<Rightarrow> 'a client_scheme run) \<Rightarrow> u64 \<Rightarrow> 'a client_scheme \<Rightarrow> rlib_task_t \<Rightarrow>
   u64 \<Rightarrow> u64 \<Rightarrow> u64 \<Rightarrow> 'a client_scheme run" where
  "rlib_set_local_task trap others wrapper s task entry data stack_size =
     (let s = send_state s (rtask_id task) SCHED_STATE_RDI entry;
          s = send_state s (rtask_id task) SCHED_STATE_RSI data;
          s = send_state s (rtask_id task) SCHED_STATE_RIP wrapper;
          (s, req) = rlib_sequence s;
          stack_size = (stack_size + 0xfff) AND NOT 0xfff
      in
      bindR (rlib_anonymous trap s 0 stack_size) (\<lambda>(s, base).
      (let s = send_packet s (set_state_packet (stack_in s req) req (rtask_id task) SCHED_STATE_RSP (base + stack_size)) in
      bindR (rlib_process_queued trap s) (\<lambda>s.
      bindR (await_reply others True s req (stack_out s req) (of_nat OUT_PACKET_SIZE)) (\<lambda>(s, out). returns s)))))"

definition rlib_ready_task :: "'a client_scheme trap \<Rightarrow> 'a client_scheme \<Rightarrow> rlib_task_t \<Rightarrow> 'a client_scheme run" where
  "rlib_ready_task trap s task =
     rlib_process_queued trap (send_state s (rtask_id task) SCHED_STATE (TASK_STATE_VALID OR TASK_STATE_RUNNABLE))"

definition reap_packet :: "u8 list \<Rightarrow> u64 \<Rightarrow> u64 \<Rightarrow> u8 list" where
  "reap_packet p req tid = (let p = put_type p 11; p = put_req_id p req in put_member p 0 tid)"

text \<open>After the request the task loops for ever, should it still run.\<close>

definition rlib_reap_self :: "'a client_scheme trap \<Rightarrow> 'a client_scheme \<Rightarrow> unit run" where
  "rlib_reap_self trap s =
     (let (s, req) = rlib_sequence s; s = send_packet s (reap_packet (stack_in s req) req 0)
      in bindR (rlib_process_queued trap s) (\<lambda>_. None))"

definition wait_packet :: "u8 list \<Rightarrow> u64 \<Rightarrow> u64 \<Rightarrow> u64 \<Rightarrow> u8 list" where
  "wait_packet p req pointer v =
     (let p = put_type p 1; p = put_req_id p req; p = put_member p 0 pointer in put_member p 1 v)"

definition rlib_wait :: "'a client_scheme trap \<Rightarrow> 'a client_scheme \<Rightarrow> u64 \<Rightarrow> u64 \<Rightarrow> 'a client_scheme run" where
  "rlib_wait trap s pointer v =
     (let (s, req) = rlib_sequence s
      in rlib_process_queued trap (send_packet s (wait_packet (stack_in s req) req pointer v)))"

definition wake_packet :: "u8 list \<Rightarrow> u64 \<Rightarrow> u64 \<Rightarrow> u64 \<Rightarrow> u64 \<Rightarrow> u8 list" where
  "wake_packet p req pointer v count =
     (let p = put_type p 2; p = put_req_id p req; p = put_member p 0 pointer; p = put_member p 1 v
      in put_member p 2 count)"

definition rlib_wake :: "'a client_scheme trap \<Rightarrow> 'a client_scheme \<Rightarrow> u64 \<Rightarrow> u64 \<Rightarrow> u64 \<Rightarrow> 'a client_scheme run" where
  "rlib_wake trap s pointer v count =
     (let (s, req) = rlib_sequence s
      in rlib_process_queued trap (send_packet s (wake_packet (stack_in s req) req pointer v count)))"

section \<open>Semaphores\<close>

text \<open>
  \<^verbatim>\<open>rlib/synch.c\<close> is empty.  A semaphore is a word of memory that other tasks change too:
  \<open>env\<close> is what they do between a load of it and the exchange, or between two loads.
\<close>

definition rlib_synch_wait :: "bytes \<Rightarrow> u64 \<Rightarrow> u64 \<Rightarrow> bytes" where "rlib_synch_wait m address expected = m"
definition rlib_synch_wake :: "bytes \<Rightarrow> u64 \<Rightarrow> u64 \<Rightarrow> bytes" where "rlib_synch_wake m address count = m"

definition sem_init :: "bytes \<Rightarrow> u64 \<Rightarrow> bytes" where "sem_init m sem = store_le 8 m sem (0 :: u64)"

partial_function (option) inc_loop :: "(bytes \<Rightarrow> bytes) \<Rightarrow> bytes \<Rightarrow> u64 \<Rightarrow> u64 \<Rightarrow> (bytes \<times> u64) option" where
  "inc_loop env m sem current =
     (case atomic_swapcompare (env m) sem current (current + 1) of
        (m, r) \<Rightarrow> if r \<noteq> 0 then inc_loop env m sem (load_le 8 m sem) else Some (m, current))"

definition sem_inc :: "(bytes \<Rightarrow> bytes) \<Rightarrow> bytes \<Rightarrow> u64 \<Rightarrow> bytes option" where
  "sem_inc env m sem =
     (case inc_loop env m sem (load_le 8 m sem) of
        None \<Rightarrow> None
      | Some (m, current) \<Rightarrow> Some (if current = 0 then rlib_synch_wake m sem 1 else m))"

partial_function (option) wait_loop :: "(bytes \<Rightarrow> bytes) \<Rightarrow> bytes \<Rightarrow> u64 \<Rightarrow> (bytes \<times> u64) option" where
  "wait_loop env m sem =
     (let current = load_le 8 m sem
      in if current = 0 then wait_loop env (env (rlib_synch_wait m sem 0)) sem else Some (m, current))"

partial_function (option) sem_dec :: "(bytes \<Rightarrow> bytes) \<Rightarrow> bytes \<Rightarrow> u64 \<Rightarrow> bytes option" where
  "sem_dec env m sem =
     (case wait_loop env m sem of
        None \<Rightarrow> None
      | Some (m, current) \<Rightarrow>
         (case atomic_swapcompare (env m) sem current (current - 1) of
            (m, r) \<Rightarrow> if r = 0 then Some m else sem_dec env m sem))"

section \<open>Properties\<close>

lemma length_put_bytes [simp]: "off + length bs \<le> length p \<Longrightarrow> length (put_bytes p off bs) = length p"
  by (simp add: put_bytes_def)

lemma take_put_same: "off + length bs \<le> length p \<Longrightarrow> n = length bs \<Longrightarrow> take n (drop off (put_bytes p off bs)) = bs"
  by (simp add: put_bytes_def)

lemma take_put_other:
  assumes "off + length bs \<le> length p" "a + n \<le> off \<or> off + length bs \<le> a"
  shows "take n (drop a (put_bytes p off bs)) = take n (drop a p)"
proof (intro nth_equalityI)
  fix i
  assume "i < length (take n (drop a (put_bytes p off bs)))"
  then show "take n (drop a (put_bytes p off bs)) ! i = take n (drop a p) ! i"
    using assms by (auto simp: put_bytes_def nth_append)
qed (use assms in simp)

lemma length_le_bytes8 [simp]: "length (le_bytes 8 (v :: u64)) = 8"
  by (simp add: le_bytes_def)

lemma packet_lengths [simp]:
  "length p = 56 \<Longrightarrow> length (put_type p t) = 56" "length p = 56 \<Longrightarrow> length (put_req_id p v) = 56"
  "length p = 56 \<Longrightarrow> i < 5 \<Longrightarrow> length (put_member p i v) = 56"
  by (simp_all add: put_type_def put_req_id_def put_member_def)

lemma field_member:
  assumes "length p = 56" "i < 5" "j < 5"
  shows "field64 (put_member p i v) (16 + 8 * j) = (if i = j then v else field64 p (16 + 8 * j))"
proof (cases "i = j")
  case True
  then show ?thesis using assms by (simp add: field64_def put_member_def take_put_same le_value_bytes)
next
  case False
  then have "16 + 8 * j + 8 \<le> 16 + 8 * i \<or> 16 + 8 * i + length (le_bytes 8 v) \<le> 16 + 8 * j" by (simp, arith)
  then show ?thesis using assms False by (simp only: field64_def put_member_def) (subst take_put_other, simp_all)
qed

lemma packet_fields [simp]:
  assumes "length p = 56"
  shows "in_type (put_type p t) = t" "in_type (put_req_id p v) = in_type p" "in_type (put_member p i v) = in_type p"
    "in_req_id (put_req_id p v) = v" "i < 5 \<Longrightarrow> in_req_id (put_member p i v) = in_req_id p"
  using assms
  by (auto simp: in_type_def in_req_id_def field64_def put_type_def put_req_id_def put_member_def take_put_same
      take_put_other le_value_bytes) (auto simp: put_bytes_def nth_append)

lemma packet_words [simp]:
  assumes "length p = 56" "i < 5"
  shows "field64 (put_member p i v) 16 = (if i = 0 then v else field64 p 16)"
    "field64 (put_member p i v) 24 = (if i = 1 then v else field64 p 24)"
    "field64 (put_member p i v) 32 = (if i = 2 then v else field64 p 32)"
    "field64 (put_member p i v) 40 = (if i = 3 then v else field64 p 40)"
    "field64 (put_member p i v) 48 = (if i = 4 then v else field64 p 48)"
  using field_member [OF assms, of 0 v] field_member [OF assms, of 1 v] field_member [OF assms, of 2 v]
    field_member [OF assms, of 3 v] field_member [OF assms, of 4 v] by simp_all

text \<open>
  C35: what the library builds is what the scheduler reads.  Whatever the stack held, each
  packet of 56 bytes decodes to the request the call stands for, with its sequence number, on
  the space of the caller where a root id is 0.
\<close>

theorem rlib_requests_decode:
  assumes "length p = 56"
  shows "sched_request (anonymous_packet p req a sz) = SCHED_MAP_ANONYMOUS 0 a sz \<and>
    sched_request (mirror_packet p req a oroot oa sz) = SCHED_MAP_MIRROR 0 a oroot oa sz \<and>
    sched_request (spawn_packet p req root) = SCHED_SPAWN root \<and>
    sched_request (set_state_packet p req tid index v) = SCHED_SET_STATE tid index v \<and>
    sched_request (reap_packet p req tid) = SCHED_REAP tid \<and>
    sched_request (wait_packet p req a v) = SCHED_WAIT a v \<and>
    sched_request (wake_packet p req a v count) = SCHED_WAKE a v count \<and>
    (\<forall>q \<in> {anonymous_packet p req a sz, mirror_packet p req a oroot oa sz, spawn_packet p req root,
        set_state_packet p req tid index v, reap_packet p req tid, wait_packet p req a v, wake_packet p req a v count}.
      length q = IN_PACKET_SIZE \<and> in_req_id q = req \<and> terminate_name q = q)"
  using assms
  by (simp add: anonymous_packet_def mirror_packet_def spawn_packet_def set_state_packet_def reap_packet_def
      wait_packet_def wake_packet_def sched_request_def terminate_name_def IN_PACKET_SIZE_def Let_def)

theorem rlib_requests_decode_witness:
  "sched_request (anonymous_packet (replicate 56 0xaa) 7 0x400000 0x2000) = SCHED_MAP_ANONYMOUS 0 0x400000 0x2000"
  using rlib_requests_decode [of "replicate 56 0xaa"] by simp

text \<open>
  semaphores lose what happens at the same time.  \<^verbatim>\<open>sem_inc\<close> adds one only when nobody
  changes the word between its load and its exchange, and otherwise does nothing, and says
  neither.
\<close>

theorem sem_inc_loses:
  "sem_inc env m sem =
     Some (if load_le 8 (env m) sem = (load_le 8 m sem :: u64)
           then store_le 8 (env m) sem (load_le 8 m sem + 1 :: u64) else env m)"
proof -
  obtain m' r where a: "atomic_swapcompare (env m) sem (load_le 8 m sem) (load_le 8 m sem + 1) = (m', r)" by fastforce
  then have r: "r = 0" and m': "m' = (if load_le 8 (env m) sem = (load_le 8 m sem :: u64)
      then store_le 8 (env m) sem (load_le 8 m sem + 1 :: u64) else env m)"
    using atomic_swapcompare_result [of "env m" sem "load_le 8 m sem" "load_le 8 m sem + 1"] by simp_all
  then have "inc_loop env m sem (load_le 8 m sem) = Some (m', load_le 8 m sem)"
    using a by (subst inc_loop.simps) simp
  then show ?thesis by (simp add: sem_inc_def rlib_synch_wake_def m')
qed

end
