(* ===== verification/Rlib_System.thy ===== *)
theory Rlib_System
  imports Rlib_Client
begin

text \<open>
  The library and the scheduler together: a task's requests, served by the scheduler's own code.
\<close>

section \<open>The machine\<close>

text \<open>
  A task and the scheduler.  The two channels of the task are pages the scheduler has mapped at
  \<open>in_addr\<close> and \<open>out_addr\<close>.  \<^verbatim>\<open>int $0xfe\<close> runs \<^verbatim>\<open>process_queue\<close> for the task, which serves its
  requests, and comes back to it; other interrupts do nothing here.  The requests of this theory do not
  block the task, so the choice of another one, which \<^verbatim>\<open>process_queue\<close> makes for a blocked task (in
  \<open>Sched_Main\<close>), does not come up.
\<close>

record machine = client +
  world :: sched
  in_addr :: ptr
  out_addr :: ptr

definition sched_trap :: "machine trap" where
  "sched_trap v s =
     (if v = 0xfe then
        bindR (process_for ((world s)\<lparr>channels := (channels (world s))(in_addr s := schedin s, out_addr s := schedout s)\<rparr>)
          (own_id s)) (\<lambda>w.
        returns (s\<lparr>world := w, schedin := channels w (in_addr s), schedout := channels w (out_addr s)\<rparr>))
      else returns s)"

section \<open>What serving keeps\<close>

lemma comm_get_data_flags [simp]: "flags (fst (comm_get_data cc n)) = flags cc"
  by (simp add: comm_get_data_def Let_def split: prod.split)

lemma comm_put_flags [simp]: "flags (fst (comm_put cc p)) = flags cc"
  by (simp add: comm_put_def Let_def)

lemma comm_skip_data_flags [simp]: "flags (comm_skip_data cc n) = flags cc"
  by (simp add: comm_skip_data_def Let_def)

lemma comm_peek_flags: "flags (fst (comm_peek cc n)) = flags cc"
  by (simp add: comm_peek_def Let_def case_prod_beta)

lemma rest_create: "mman_rest (fst (mman_paging_addr_create s root v l)) = mman_rest s"
proof -
  have l: "mman_rest (fst (create_level increment_page root v x i)) = mman_rest (fst x)" for x i
    by (simp add: create_level_def Let_def kept.obs_clear kept.obs_getpage split: prod.split)
      (metis fst_conv kept.obs_getpage)
  have "mman_rest (fst (foldl (create_level increment_page root v) x is)) = mman_rest (fst x)" for x "is"
    by (induction "is" arbitrary: x) (simp_all add: l)
  from this [of "(s, -1)" "[0..<l + 1]"] show ?thesis
    by (simp add: mman_paging_addr_create_def paging_addr_create_with_def Let_def split: prod.split del: upt_Suc)
      (metis fst_conv)
qed

lemma rest_anonymous_loop: "mman_rest (anonymous_loop s root a n) = mman_rest s"
proof (induction n arbitrary: s a)
  case (Suc n)
  then show ?case
    by (simp add: Let_def split: prod.split) (metis fst_conv rest_create mman_fields_getpage(2))
qed simp

lemma rest_anonymous: "mman_rest (fst (mman_anonymous s root_id a sz)) = mman_rest s"
  by (simp add: mman_anonymous_def Let_def rest_anonymous_loop)

lemma more_anonymous:
  fixes s :: sched
  shows "infos (fst (mman_anonymous s root_id a sz)) = infos s" "queue (fst (mman_anonymous s root_id a sz)) = queue s"
  "channels (fst (mman_anonymous s root_id a sz)) = channels s"
proof -
  have eq: "mman.more s = mman.more t \<Longrightarrow> infos s = infos t \<and> queue s = queue t \<and> channels s = channels t" for s t :: sched
    by (cases s; cases t) simp
  have "mman.more (fst (mman_anonymous s root_id a sz)) = mman.more s"
    using rest_anonymous [of s root_id a sz] by (simp add: mman_rest_def)
  from eq [OF this] show "infos (fst (mman_anonymous s root_id a sz)) = infos s"
    "queue (fst (mman_anonymous s root_id a sz)) = queue s" "channels (fst (mman_anonymous s root_id a sz)) = channels s"
    by simp_all
qed

section \<open>One request served\<close>

text \<open>The task's entry in the queue, its record and its two channels.\<close>

definition client_of :: "sched \<Rightarrow> nat \<Rightarrow> task_info_t \<Rightarrow> bool" where
  "client_of w q i \<longleftrightarrow> deref (infos w) (entry_info (queue w q)) = returns i \<and> info_sin i \<noteq> info_sout i"

definition ready_channel :: "comm_t \<Rightarrow> u8 list list \<Rightarrow> bool" where
  "ready_channel c ps \<longleftrightarrow> flags c AND COMM_TYPE_MASK = COMM_SIMPLE \<and> comm_holds c ps \<and> 128 < ring_len c"

lemma ready_read:
  assumes "ready_channel c (p # ps)" "length p \<le> unat n"
  shows "\<exists>c'. comm_peek c n = (c', p, of_nat (length p), 0) \<and> ready_channel c' ps"
proof -
  obtain c' where c': "comm_peek c n = (c', p, of_nat (length p), 0)" "comm_holds c' ps" "data_length c' = data_length c"
    using peek_holds [of c p ps n] assms by (auto simp: ready_channel_def)
  then have "flags c' = flags c" using comm_peek_flags [of c n] by simp
  then show ?thesis using c' assms(1) by (auto simp: ready_channel_def)
qed

lemma ready_write:
  assumes "ready_channel c []" "length p \<le> 100"
  shows "\<exists>c'. comm_put c p = (c', 0) \<and> ready_channel c' [p]"
proof -
  obtain c' r where c': "comm_put c p = (c', r)" by fastforce
  have "used_by [] + (length p + 4) < ring_len c" using assms by (simp add: ready_channel_def)
  then have "r = 0" "comm_holds c' [p]" "data_length c' = data_length c"
    using put_holds [of c "[]" p] data_length_put [of c p] assms(1) c' by (simp_all add: ready_channel_def)
  moreover have "flags c' = flags c" using comm_put_flags [of c p] c' by simp
  ultimately show ?thesis using c' assms(1) by (auto simp: ready_channel_def)
qed

lemma ready_empty: "ready_channel c [] \<Longrightarrow> comm_peek c n = (c, [], n, 1)"
  by (simp add: ready_channel_def peek_empty)

lemma out_bytes_fields:
  assumes "length (out_padding st) = 7"
  shows "length (out_bytes st) = OUT_PACKET_SIZE" "reply_req_id (out_bytes st) = out_req_id st"
    "field64 (out_bytes st) 16 = out_result st"
  using assms by (simp_all add: out_bytes_def OUT_PACKET_SIZE_def reply_req_id_def field64_def le_value_bytes)

lemma process_one_empty:
  assumes "client_of w q i" "ready_channel (channels w (info_sin i)) []"
  shows "process_one w q inb st = returns (w, None)"
  using assms ready_empty [OF assms(2)]
  by (simp add: process_one_def client_of_def comm_read_def ready_channel_def)

lemma process_one_anonymous:
  assumes "client_of w q i" "ready_channel (channels w (info_sin i)) [p]" "ready_channel (channels w (info_sout i)) []"
    and "length p = IN_PACKET_SIZE" "terminate_name p = p" "in_req_id p \<noteq> 0" "sched_request p = SCHED_MAP_ANONYMOUS 0 a sz"
    and "length (out_padding st) = 7" "length inb = IN_PACKET_SIZE"
  shows "\<exists>c d reply w1 r st'. mman_anonymous (w\<lparr>channels := (channels w)(info_sin i := c)\<rparr>) (info_root_id i) a sz = (w1, r) \<and>
    process_one w q inb st = returns (w1\<lparr>channels := (channels w)(info_sin i := c, info_sout i := d)\<rparr>, Some (p, st')) \<and>
    infos w1 = infos w \<and> queue w1 = queue w \<and>
    ready_channel c [] \<and> ready_channel d [reply] \<and> length reply = OUT_PACKET_SIZE \<and> reply_req_id reply = in_req_id p \<and>
    field64 reply 16 = word_of_int r"
proof -
  obtain c where c: "comm_peek (channels w (info_sin i)) (of_nat IN_PACKET_SIZE) = (c, p, of_nat (length p), 0)" "ready_channel c []"
    using ready_read [OF assms(2), of "of_nat IN_PACKET_SIZE"] assms(4) by (auto simp: IN_PACKET_SIZE_def)
  have r: "comm_read (channels w (info_sin i)) (of_nat IN_PACKET_SIZE) = (c, p, of_nat (length p), 0)"
    using assms(2) c(1) by (simp add: comm_read_def ready_channel_def)
  define w0 where "w0 = w\<lparr>channels := (channels w)(info_sin i := c)\<rparr>"
  obtain w1 r where w1: "mman_anonymous w0 (info_root_id i) a sz = (w1, r)" by fastforce
  have more: "infos w1 = infos w" "queue w1 = queue w" "channels w1 = (channels w)(info_sin i := c)"
    using more_anonymous [of w0 "info_root_id i" a sz] unfolding w1 by (simp_all add: w0_def)
  define st1 where "st1 = set_result (st\<lparr>out_type := in_type p, out_req_id := in_req_id p, out_result := 0\<rparr>) (word_of_int r)"
  have st1: "length (out_bytes st1) = OUT_PACKET_SIZE" "reply_req_id (out_bytes st1) = in_req_id p"
    "field64 (out_bytes st1) 16 = word_of_int r" "out_req_id st1 \<noteq> 0"
    using out_bytes_fields [of st1] assms(6,8) by (simp_all add: st1_def set_result_def)
  obtain d where d: "comm_put (channels w (info_sout i)) (out_bytes st1) = (d, 0)" "ready_channel d [out_bytes st1]"
    using ready_write [OF assms(3), of "out_bytes st1"] st1(1) by (auto simp: OUT_PACKET_SIZE_def)
  have "write_channel w1 (info_sout i) (out_bytes st1) =
      (w1\<lparr>channels := (channels w)(info_sin i := c, info_sout i := d)\<rparr>, 0)"
    using assms(1,3) d(1) by (auto simp: write_channel_def comm_write_def ready_channel_def client_of_def more)
  then have send: "send_status w1 q st1 = returns (w1\<lparr>channels := (channels w)(info_sin i := c, info_sout i := d)\<rparr>)"
    using st1(4) assms(1) by (simp add: send_status_def client_of_def more)
  have "serve w0 q (info_root_id i) (sched_request p) (st\<lparr>out_type := in_type p, out_req_id := in_req_id p, out_result := 0\<rparr>) =
      returns (w1, st1)"
    by (simp add: assms(7) serve_def w1 st1_def Let_def)
  then have "process_one w q inb st =
      returns (w1\<lparr>channels := (channels w)(info_sin i := c, info_sout i := d)\<rparr>, Some (p, st1))"
    using assms(1,4,5,9) send by (simp add: process_one_def client_of_def r w0_def [symmetric] Let_def)
  then show ?thesis using w1 more(1,2) c(2) d(2) st1(1-3) unfolding w0_def by blast
qed

lemma process_anonymous:
  assumes "client_of w q i" "ready_channel (channels w (info_sin i)) [p]" "ready_channel (channels w (info_sout i)) []"
    and "length p = IN_PACKET_SIZE" "terminate_name p = p" "in_req_id p \<noteq> 0" "sched_request p = SCHED_MAP_ANONYMOUS 0 a sz"
    and "length (out_padding (uninit_status w)) = 7" "length (uninit_in w) = IN_PACKET_SIZE"
  shows "\<exists>c d reply w1 r. mman_anonymous (w\<lparr>channels := (channels w)(info_sin i := c)\<rparr>) (info_root_id i) a sz = (w1, r) \<and>
    process w q = returns (w1\<lparr>channels := (channels w)(info_sin i := c, info_sout i := d)\<rparr>, 1) \<and>
    ready_channel c [] \<and> ready_channel d [reply] \<and> length reply = OUT_PACKET_SIZE \<and> reply_req_id reply = in_req_id p \<and>
    field64 reply 16 = word_of_int r"
proof -
  obtain c d reply w1 r st' where one: "mman_anonymous (w\<lparr>channels := (channels w)(info_sin i := c)\<rparr>) (info_root_id i) a sz = (w1, r)"
    "process_one w q (uninit_in w) (uninit_status w) =
      returns (w1\<lparr>channels := (channels w)(info_sin i := c, info_sout i := d)\<rparr>, Some (p, st'))"
    "infos w1 = infos w" "queue w1 = queue w" "ready_channel c []" "ready_channel d [reply]"
    "length reply = OUT_PACKET_SIZE" "reply_req_id reply = in_req_id p" "field64 reply 16 = word_of_int r"
    using process_one_anonymous [OF assms] by blast
  let ?w2 = "w1\<lparr>channels := (channels w)(info_sin i := c, info_sout i := d)\<rparr>"
  have "client_of ?w2 q i" "channels ?w2 (info_sin i) = c"
    using assms(1) one(3,4) by (simp_all add: client_of_def)
  then have "process_one ?w2 q p st' = returns (?w2, None)"
    using process_one_empty [of ?w2 q i] one(5) by simp
  then have "process_loop ?w2 q p st' 1 = returns (?w2, 1)"
    by (subst process_loop.simps) simp
  then have "process w q = returns (?w2, 1)"
    unfolding process_def by (subst process_loop.simps) (simp add: one(2))
  then show ?thesis using one by blast
qed

section \<open>Properties\<close>

lemma rlib_sequence_next:
  "sequence_word s \<noteq> -1 \<Longrightarrow> rlib_sequence s = (s\<lparr>sequence_word := sequence_word s + 1\<rparr>, sequence_word s + 1)"
  by (subst rlib_sequence.simps) (simp add: Let_def eq_neg_iff_add_eq_0)

text \<open>The task's requests are served as entry \<open>q\<close> of the queue, and nothing is waiting in its channels.\<close>

definition attached :: "machine \<Rightarrow> nat \<Rightarrow> task_info_t \<Rightarrow> bool" where
  "attached s q i \<longleftrightarrow> client_of (world s) q i \<and> info_sin i = in_addr s \<and> info_sout i = out_addr s \<and>
     List.find (\<lambda>j. entry_task_id (queue (world s) j) = own_id s) [0..<queue_size (world s)] = Some q \<and>
     ready_channel (schedin s) [] \<and> ready_channel (schedout s) [] \<and>
     length (uninit_in (world s)) = IN_PACKET_SIZE \<and> length (out_padding (uninit_status (world s))) = 7"

text \<open>
  C1: a call of \<^verbatim>\<open>rlib_anonymous\<close> is a call of \<^verbatim>\<open>mman_anonymous\<close> on the caller's own address
  space.  With nothing waiting in its channels the library's packet travels through them and
  \<^verbatim>\<open>process\<close>, the scheduler serves it once, the answer with its sequence number comes back, the
  channels are empty again, and the call returns the address: also when the scheduler refused,
  since the result in the answer is not looked at.
\<close>

theorem rlib_anonymous_served:
  assumes "attached s q i" "sequence_word s \<noteq> -1" "a \<noteq> 0"
    and "length (stack_in s (sequence_word s + 1)) = IN_PACKET_SIZE"
  shows "\<exists>s' ch ch' w1 r. rlib_anonymous sched_trap s a sz = returns (s', a) \<and>
    mman_anonymous ((world s)\<lparr>channels := ch\<rparr>) (info_root_id i) a sz = (w1, r) \<and>
    world s' = w1\<lparr>channels := ch'\<rparr> \<and>
    ready_channel (schedin s') [] \<and> ready_channel (schedout s') [] \<and> sequence_word s' = sequence_word s + 1"
proof -
  define req where "req = sequence_word s + 1"
  have req: "req \<noteq> 0" using assms(2) by (simp add: req_def eq_neg_iff_add_eq_0)
  define p where "p = anonymous_packet (stack_in s req) req a sz"
  have l: "length (stack_in s req) = 56" using assms(4) by (simp add: req_def IN_PACKET_SIZE_def)
  have p: "length p = IN_PACKET_SIZE" "terminate_name p = p" "in_req_id p = req"
    "sched_request p = SCHED_MAP_ANONYMOUS 0 a sz"
    using l by (simp_all add: p_def anonymous_packet_def sched_request_def terminate_name_def IN_PACKET_SIZE_def Let_def)
  note at = assms(1) [unfolded attached_def]
  obtain cin where cin: "comm_put (schedin s) p = (cin, 0)" "ready_channel cin [p]"
    using ready_write [of "schedin s" p] at p(1) by (auto simp: IN_PACKET_SIZE_def)
  define s1 where "s1 = s\<lparr>sequence_word := req, schedin := cin\<rparr>"
  define w where "w = (world s)\<lparr>channels := (channels (world s))(in_addr s := cin, out_addr s := schedout s)\<rparr>"
  have "client_of w q i" "ready_channel (channels w (info_sin i)) [p]" "ready_channel (channels w (info_sout i)) []"
    "length (out_padding (uninit_status w)) = 7" "length (uninit_in w) = IN_PACKET_SIZE"
    using at cin(2) by (auto simp: w_def client_of_def)
  from process_anonymous [OF this(1-3) p(1,2) _ p(4) this(4,5)] req p(3)
  obtain c d reply w1 r where
    m: "mman_anonymous (w\<lparr>channels := (channels w)(info_sin i := c)\<rparr>) (info_root_id i) a sz = (w1, r)"
    and pr: "process w q = returns (w1\<lparr>channels := (channels w)(info_sin i := c, info_sout i := d)\<rparr>, 1)"
    and c: "ready_channel c []" and d: "ready_channel d [reply]"
    and reply: "length reply = OUT_PACKET_SIZE" "reply_req_id reply = req"
    by auto
  define w2 where "w2 = w1\<lparr>channels := (channels w)(info_sin i := c, info_sout i := d)\<rparr>"
  define s2 where "s2 = s1\<lparr>world := w2, schedin := c, schedout := d\<rparr>"
  have "process_for w (own_id s) = returns w2"
    using at pr by (simp add: process_for_def w_def [symmetric] w2_def) (simp add: w_def)
  then have trap: "sched_trap 0xfe s1 = returns s2"
    using at by (auto simp: sched_trap_def s1_def s2_def w_def w2_def client_of_def)
  obtain d' where d': "comm_peek d (of_nat OUT_PACKET_SIZE) = (d', reply, of_nat (length reply), 0)" "ready_channel d' []"
    using ready_read [OF d, of "of_nat OUT_PACKET_SIZE"] reply(1) by (auto simp: OUT_PACKET_SIZE_def)
  have "rlib_comm_read (schedout s2) (of_nat OUT_PACKET_SIZE) = Some (d', reply, of_nat (length reply), 0)"
    using d d'(1) by (simp add: rlib_comm_read_def ready_channel_def s2_def)
  moreover have "reply_req_id (reply @ out) = req" for out
    using reply by (simp add: reply_req_id_def field64_def OUT_PACKET_SIZE_def)
  ultimately have "await_reply (sched_trap 0xfe) True s2 req out (of_nat OUT_PACKET_SIZE) =
      returns (s2\<lparr>schedout := d'\<rparr>, reply @ drop (length reply) out)" for out
    by (subst await_reply.simps) simp
  then have "rlib_anonymous sched_trap s a sz = returns (s2\<lparr>schedout := d'\<rparr>, a)"
    using assms(2,3) at cin(1) trap
    by (simp add: rlib_anonymous_def rlib_sequence_next send_packet_def rlib_comm_write_def ready_channel_def
        req_def [symmetric] p_def [symmetric] s1_def Let_def)
  then show ?thesis
    using m c d'(2) at
    by (intro exI [of _ "s2\<lparr>schedout := d'\<rparr>"] exI [of _ "(channels w)(info_sin i := c)"]
        exI [of _ "(channels w)(info_sin i := c, info_sout i := d)"] exI [of _ w1] exI [of _ r])
      (simp add: s2_def w2_def s1_def req_def w_def)
qed

text \<open>A machine with one task, whose channels are fresh.\<close>

definition fresh_channel :: comm_t where
  "fresh_channel = small_comm\<lparr>total_length := 0x800, data_begin := 56, data_length := 0x7c8\<rparr>"

definition example_machine :: machine where
  "example_machine = \<lparr>own_id = 2, schedin = fresh_channel, schedout = fresh_channel, sequence_word = 41,
     last_map_addr = 0, g_map_start = RLIB_DEFAULT_START, client_heap_start = RLIB_DEFAULT_HEAP, client_heap_size = 0,
     stack_in = (\<lambda>_. replicate 56 0xcc), stack_out = (\<lambda>_. replicate 40 0xcc),
     world = example_request [], in_addr = 0x3000, out_addr = 0x3800\<rparr>"

lemma fresh_channel_ready: "ready_channel fresh_channel []"
proof -
  have "comm_init small_comm 0x800 COMM_SIMPLE = Some (fresh_channel, 0)"
    by (simp add: comm_init_def comm_data_offset_def small_comm_def COMM_SIMPLE_def fresh_channel_def)
  from init_holds [OF _ _ this] have "comm_holds fresh_channel []" by simp
  then show ?thesis
    by (simp add: ready_channel_def fresh_channel_def small_comm_def COMM_SIMPLE_def)
qed

lemma example_machine_attached:
  "\<exists>i. attached example_machine 0 i"
proof -
  have u: "uninit_in example_reap = replicate 56 0" "length (out_padding (uninit_status example_reap)) = 7"
    by (simp_all add: example_reap_def example_sched_def sched.defs mman.defs)
  show ?thesis
    by (rule exI [of _ "(uninit_info example_sched)\<lparr>info_id := 2, info_state := 5, info_root_id := 7,
         info_sin := 0x3000, info_sout := 0x3800, info_gin := 0x4000\<rparr>"])
      (simp add: attached_def client_of_def example_machine_def fresh_channel_ready u IN_PACKET_SIZE_def example_request_def deref_returns)
qed

theorem rlib_anonymous_served_witness:
  "\<exists>s'. rlib_anonymous sched_trap example_machine 0x400000 0x2000 = returns (s', 0x400000) \<and> sequence_word s' = 42"
proof -
  obtain i where "attached example_machine 0 i" using example_machine_attached by blast
  moreover have "sequence_word example_machine = 41" "stack_in example_machine 42 = replicate 56 0xcc"
    by (simp_all add: example_machine_def)
  ultimately show ?thesis
    using rlib_anonymous_served [of example_machine 0 i "0x400000" "0x2000"] by (auto simp: IN_PACKET_SIZE_def)
qed

end
