(* ===== verification/Hw_Apic.thy ===== *)
theory Hw_Apic
  imports Klib_Io
begin

text \<open>
  \<^verbatim>\<open>kernel/hw/ioapic.c\<close> and \<^verbatim>\<open>kernel/hw/apics.c\<close>: the interrupt controllers of the hardware
  task.  The table of the ACPI subsystem that lists them is a parameter: the byte memory and
  the address \<^verbatim>\<open>AcpiGetTable\<close> gives for it, if it finds one.
\<close>

section \<open>The I/O APIC\<close>

record ioapic_state = lapic_state +
  base_address :: u64

definition IOAPIC_ADDR_REG :: "'a ioapic_state_scheme \<Rightarrow> u64" where "IOAPIC_ADDR_REG s = base_address s"
definition IOAPIC_DATA_REG :: "'a ioapic_state_scheme \<Rightarrow> u64" where "IOAPIC_DATA_REG s = base_address s + 0x10"

definition ioapic_read :: "'a ioapic_state_scheme \<Rightarrow> u64 \<Rightarrow> 'a ioapic_state_scheme \<times> u32" where
  "ioapic_read s index =
     (let s = mmio_write32 s (IOAPIC_ADDR_REG s) (ucast index) in mmio_read32 s (IOAPIC_DATA_REG s))"

definition ioapic_write :: "'a ioapic_state_scheme \<Rightarrow> u64 \<Rightarrow> u32 \<Rightarrow> 'a ioapic_state_scheme" where
  "ioapic_write s index v =
     (let s = mmio_write32 s (IOAPIC_ADDR_REG s) (ucast index) in mmio_write32 s (IOAPIC_DATA_REG s) v)"

definition set_high :: "u32 \<Rightarrow> u64 \<Rightarrow> u32" where
  "set_high high apic_id = ucast (ucast (high AND NOT 0xff000000) OR push_bit 24 apic_id)"

definition set_low :: "u32 \<Rightarrow> u8 \<Rightarrow> u32" where
  "set_low low vector =
     (let low = low AND NOT (push_bit 16 1);
          low = low AND NOT (push_bit 11 1);
          low = low AND NOT 0x700;
          low = low AND NOT 0xff
      in low OR ucast vector)"

definition ioapic_set_irq :: "'a ioapic_state_scheme \<Rightarrow> u8 \<Rightarrow> u64 \<Rightarrow> u8 \<Rightarrow> 'a ioapic_state_scheme" where
  "ioapic_set_irq s irq apic_id vector =
     (let low_index = 0x10 + ucast irq * 2; high_index = 0x10 + ucast irq * 2 + 1;
          (s, high) = ioapic_read s high_index;
          s = ioapic_write s high_index (set_high high apic_id);
          (s, low) = ioapic_read s low_index
      in ioapic_write s low_index (set_low low vector))"

definition ioapic_get_linecount :: "'a ioapic_state_scheme \<Rightarrow> 'a ioapic_state_scheme \<times> u64" where
  "ioapic_get_linecount s =
     (let (s, version) = ioapic_read s 0x01 in (s, ucast (drop_bit 16 version AND 0xff) + 1))"

fun irq_loop :: "'a ioapic_state_scheme \<Rightarrow> u64 \<Rightarrow> u64 \<Rightarrow> nat \<Rightarrow> 'a ioapic_state_scheme" where
  "irq_loop s irqbase i 0 = s"
| "irq_loop s irqbase i (Suc n) =
     (let (s, apic_id) = lapic_id s
      in irq_loop (ioapic_set_irq s (ucast i) (ucast apic_id) (ucast (0x80 + irqbase + i))) irqbase (i + 1) n)"

text \<open>The lines are counted before the new base address is stored.\<close>

definition ioapic_init :: "'a ioapic_state_scheme \<Rightarrow> u64 \<Rightarrow> u64 \<Rightarrow> 'a ioapic_state_scheme" where
  "ioapic_init s address irqbase =
     (let (s, irqcount) = ioapic_get_linecount s;
          s = s\<lparr>base_address := address\<rparr>
      in irq_loop s irqbase 0 (unat irqcount))"

section \<open>The table of APICs\<close>

text \<open>
  The layout of the table: a header of 44 bytes with its whole length at offset 4 and its flags
  at offset 40, then entries that start with a type and a length.
\<close>

definition madt_size :: u64 where "madt_size = 44"
definition madt_length :: "bytes \<Rightarrow> ptr \<Rightarrow> u32" where "madt_length m t = load_le 4 m (t + 4)"
definition madt_flags :: "bytes \<Rightarrow> ptr \<Rightarrow> u32" where "madt_flags m t = load_le 4 m (t + 40)"
definition ACPI_MADT_PCAT_COMPAT :: u32 where "ACPI_MADT_PCAT_COMPAT = 1"
definition ACPI_MADT_TYPE_LOCAL_APIC :: u8 where "ACPI_MADT_TYPE_LOCAL_APIC = 0"
definition ACPI_MADT_TYPE_IO_APIC :: u8 where "ACPI_MADT_TYPE_IO_APIC = 1"

definition disable_pic :: "'a io_state_scheme \<Rightarrow> 'a io_state_scheme" where
  "disable_pic s =
     (let s = io_out8 s 0x20 0x11; s = io_out8 s 0xa0 0x11;
          s = io_out8 s 0x21 0xe0; s = io_out8 s 0xa1 0xe8;
          s = io_out8 s 0x21 4; s = io_out8 s 0xa1 2;
          s = io_out8 s 0x21 1; s = io_out8 s 0xa1 1;
          s = io_out8 s 0x21 0xff
      in io_out8 s 0xa1 0xff)"

text \<open>
  One entry.  A second processor that is enabled is only reported; finding out reads the id of
  the local APIC.
\<close>

definition apic_entry :: "bytes \<Rightarrow> ptr \<Rightarrow> 'a ioapic_state_scheme \<Rightarrow> 'a ioapic_state_scheme" where
  "apic_entry m e s =
     (if m e = ACPI_MADT_TYPE_IO_APIC then ioapic_init s (ucast (load_le 4 m (e + 4) :: u32)) (ucast (load_le 4 m (e + 8) :: u32))
      else if m e = ACPI_MADT_TYPE_LOCAL_APIC then
        (if (load_le 4 m (e + 4) :: u32) AND 1 \<noteq> 0 then fst (lapic_id s) else s)
      else s)"

partial_function (option) apic_loop :: "bytes \<Rightarrow> ptr \<Rightarrow> u64 \<Rightarrow> 'a ioapic_state_scheme \<Rightarrow> 'a ioapic_state_scheme option" where
  "apic_loop m t offset s =
     (if offset + madt_size < ucast (madt_length m t) then
        apic_loop m t (offset + ucast (m (t + madt_size + offset + 1))) (apic_entry m (t + madt_size + offset) s)
      else Some s)"

definition apics_init :: "bytes \<Rightarrow> ptr option \<Rightarrow> 'a ioapic_state_scheme \<Rightarrow> 'a ioapic_state_scheme option" where
  "apics_init m table s =
     (let s = lapic_setup s in
      case table of
        None \<Rightarrow> None
      | Some t \<Rightarrow>
         (let s = (if madt_flags m t AND ACPI_MADT_PCAT_COMPAT \<noteq> 0 then disable_pic s else s)
          in apic_loop m t 0 s))"

section \<open>Properties\<close>

text \<open>Everything the I/O APIC code does to the log is to add to it.\<close>

definition extends :: "'a io_state_scheme \<Rightarrow> 'b io_state_scheme \<Rightarrow> bool" where
  "extends s t \<longleftrightarrow> (\<exists>es. io_log t = io_log s @ es)"

lemma base_address_tell [simp]: "base_address (tell s e) = base_address s"
  by (simp add: tell_def)

lemma extends_refl [simp]: "extends s s"
  by (simp add: extends_def)

lemma extends_trans [trans]: "extends s t \<Longrightarrow> extends t u \<Longrightarrow> extends s u"
  by (auto simp: extends_def)

lemma extends_set_irq: "extends s (ioapic_set_irq s irq a v)"
  by (simp add: extends_def ioapic_set_irq_def ioapic_read_def ioapic_write_def mmio_read32_def mmio_write32_def Let_def)

lemma extends_irq_loop: "extends s (irq_loop s b i n)"
proof (induction n arbitrary: s i)
  case (Suc n)
  let ?t = "fst (lapic_id s)"
  let ?u = "ioapic_set_irq ?t (ucast i) (ucast (snd (lapic_id s))) (ucast (0x80 + b + i))"
  have "extends s ?t"
    by (simp add: extends_def lapic_id_def get_reg_def mmio_read32_def)
  also have "extends ?t ?u"
    by (rule extends_set_irq)
  also have "extends ?u (irq_loop ?u b (i + 1) n)"
    by (rule Suc.IH)
  finally show ?case by (simp add: case_prod_beta)
qed simp

lemma bit_set_high: "bit (set_high high apic_id) i = (if i < 24 then bit high i else i < 32 \<and> bit apic_id (i - 24))"
proof -
  have "(0xff000000 :: u32) = push_bit 24 (mask 8)" by (simp add: mask_eq_exp_minus_1 push_bit_eq_mult)
  then show ?thesis unfolding set_high_def by (simp only: bit_simps) auto
qed

lemma bit_set_low:
  "bit (set_low low vector) i = (if i < 8 then bit vector i else if i \<in> {8, 9, 10, 11, 16} then False else bit low i)"
proof -
  have m: "(0x700 :: u32) = push_bit 8 (mask 3)" "(0xff :: u32) = mask 8" by (simp_all add: mask_eq_exp_minus_1 push_bit_eq_mult)
  show ?thesis unfolding set_low_def Let_def m by (simp only: bit_simps) (auto dest: bit_imp_le_length)
qed

text \<open>
  \<^verbatim>\<open>ioapic_set_irq\<close> writes a redirection entry that delivers the vector to the local APIC
  of the given id: in the low word the vector, fixed delivery mode, physical destination mode and
  no mask, in the top byte of the high word the id; every other bit keeps its value.
\<close>

theorem ioapic_redirection_entry:
  "let a = base_address s; d = base_address s + 0x10; lo = 0x10 + ucast irq * 2; hi = 0x10 + ucast irq * 2 + 1;
       read_high = io_log s @ [Mmio_Write a hi, Mmio_Read d];
       high = (ucast (device s read_high) :: u32); high' = set_high high apic_id;
       read_low = read_high @ [Mmio_Write a hi, Mmio_Write d high', Mmio_Write a lo, Mmio_Read d];
       low = (ucast (device s read_low) :: u32); low' = set_low low vector
   in io_log (ioapic_set_irq s irq apic_id vector) = read_low @ [Mmio_Write a lo, Mmio_Write d low'] \<and>
      bit high' i = (if i < 24 then bit high i else i < 32 \<and> bit apic_id (i - 24)) \<and>
      bit low' i = (if i < 8 then bit vector i else if i \<in> {8, 9, 10, 11, 16} then False else bit low i)"
proof -
  have "unat irq < 256" using unsigned_less [of irq] by simp
  then have lo: "(ucast (0x10 + ucast irq * 2 :: u64) :: u32) = 0x10 + ucast irq * 2"
    and hi: "(ucast (17 + ucast irq * 2 :: u64) :: u32) = 17 + ucast irq * 2"
    by (simp_all add: word_eq_unat unat_word_ariths unsigned_ucast_eq take_bit_eq_mod)
  show ?thesis
    by (simp add: Let_def ioapic_set_irq_def ioapic_read_def ioapic_write_def mmio_read32_def mmio_write32_def
        IOAPIC_ADDR_REG_def IOAPIC_DATA_REG_def bit_set_high bit_set_low lo hi)
qed

text \<open>
  \<^verbatim>\<open>ioapic_init\<close> counts the interrupt lines of the I/O APIC at the address it was
  given before, not of the one it is to set up: its first two accesses are at the old base.
\<close>

theorem ioapic_init_counts_old_lines:
  "\<exists>es. io_log (ioapic_init s address irqbase) =
     io_log s @ [Mmio_Write (base_address s) 1, Mmio_Read (base_address s + 0x10)] @ es"
proof -
  let ?t = "fst (ioapic_get_linecount s)\<lparr>base_address := address\<rparr>"
  have "extends ?t (ioapic_init s address irqbase)"
    using extends_irq_loop [of ?t] by (simp add: ioapic_init_def case_prod_beta Let_def)
  then show ?thesis
    by (auto simp: extends_def ioapic_get_linecount_def ioapic_read_def mmio_read32_def mmio_write32_def
        IOAPIC_ADDR_REG_def IOAPIC_DATA_REG_def Let_def)
qed

text \<open>The entries from an offset on, as the lengths they give.\<close>

fun entries_at :: "bytes \<Rightarrow> ptr \<Rightarrow> u64 \<Rightarrow> u8 list \<Rightarrow> bool" where
  "entries_at m t offset [] \<longleftrightarrow> \<not> offset + madt_size < ucast (madt_length m t)"
| "entries_at m t offset (l # ls) \<longleftrightarrow>
     offset + madt_size < ucast (madt_length m t) \<and> m (t + madt_size + offset + 1) = l \<and>
     entries_at m t (offset + ucast l) ls"

fun do_entries :: "bytes \<Rightarrow> ptr \<Rightarrow> u64 \<Rightarrow> u8 list \<Rightarrow> 'a ioapic_state_scheme \<Rightarrow> 'a ioapic_state_scheme" where
  "do_entries m t offset [] s = s"
| "do_entries m t offset (l # ls) s =
     do_entries m t (offset + ucast l) ls (apic_entry m (t + madt_size + offset) s)"

lemma entries_at_unique: "entries_at m t offset ls \<Longrightarrow> entries_at m t offset ls' \<Longrightarrow> ls = ls'"
proof (induction ls arbitrary: offset ls')
  case Nil
  then show ?case by (cases ls') auto
next
  case (Cons l ls)
  then show ?case by (cases ls') auto
qed

lemma apic_loop_entries: "entries_at m t offset ls \<Longrightarrow> apic_loop m t offset s = Some (do_entries m t offset ls s)"
proof (induction ls arbitrary: offset s)
  case Nil
  then show ?case by (subst apic_loop.simps) simp
next
  case (Cons l ls)
  then show ?case by (subst apic_loop.simps) simp
qed

lemma apic_loop_returns: "apic_loop m t offset s = Some s' \<Longrightarrow> \<exists>ls. entries_at m t offset ls"
proof (rule apic_loop.raw_induct [where P = "\<lambda>m t offset s s'. \<exists>ls. entries_at m t offset ls"])
  fix loop m t offset s s'
  assume IH: "\<And>m t offset s s'. loop m t offset s = Some s' \<Longrightarrow> \<exists>ls. entries_at m t offset ls"
    and r: "(if offset + madt_size < ucast (madt_length m t)
       then loop m t (offset + ucast (m (t + madt_size + offset + 1))) (apic_entry m (t + madt_size + offset) s)
       else Some s) = Some s'"
  show "\<exists>ls. entries_at m t offset ls"
  proof (cases "offset + madt_size < ucast (madt_length m t)")
    case True
    with r IH obtain ls where "entries_at m t (offset + ucast (m (t + madt_size + offset + 1))) ls" by fastforce
    with True have "entries_at m t offset (m (t + madt_size + offset + 1) # ls)" by simp
    then show ?thesis by blast
  next
    case False
    then have "entries_at m t offset []" by simp
    then show ?thesis by blast
  qed
qed

lemma zero_length_entry:
  "offset + madt_size < ucast (madt_length m t) \<Longrightarrow> m (t + madt_size + offset + 1) = 0 \<Longrightarrow> \<not> entries_at m t offset ls"
  by (induction ls) auto

lemma apic_loop_zero_length:
  assumes "offset + madt_size < ucast (madt_length m t)" and "m (t + madt_size + offset + 1) = 0"
  shows "apic_loop m t offset s = None"
  using apic_loop_returns [of m t offset s] zero_length_entry [OF assms] by (cases "apic_loop m t offset s") auto

text \<open>
  the walk over the table of APICs returns exactly when following the lengths of the entries
  leads past the end of the table, and then has handled each entry once, in order.  So an entry
  of length zero keeps it there for ever (\<open>apic_loop_zero_length\<close>).
\<close>

theorem apic_loop_walks_entries:
  "apic_loop m t offset s = Some s' \<longleftrightarrow> (\<exists>ls. entries_at m t offset ls \<and> s' = do_entries m t offset ls s)"
  by (metis apic_loop_returns apic_loop_entries option.inject)

end
