(* ===== verification/Hw_Pci.thy ===== *)
theory Hw_Pci
  imports Hw_Apic Klib_Synch Klib_Task
begin

text \<open>
  \<^verbatim>\<open>kernel/hw/pci.c\<close> and \<^verbatim>\<open>kernel/hw/osl.c\<close>: the PCI bus, and the services the hardware task
  provides to the ACPI subsystem.
\<close>

section \<open>Configuration space\<close>

definition pci_address :: "u32 \<Rightarrow> u32 \<Rightarrow> u32 \<Rightarrow> u32 \<Rightarrow> u32" where
  "pci_address bus slot fn off =
     push_bit 31 1 OR push_bit 16 bus OR push_bit 11 slot OR push_bit 8 fn OR (off AND 0xfc)"

definition pci_readconfig :: "'a io_state_scheme \<Rightarrow> u32 \<Rightarrow> u32 \<Rightarrow> u32 \<Rightarrow> u32 \<Rightarrow> 'a io_state_scheme \<times> u32" where
  "pci_readconfig s bus slot fn off = io_in32 (io_out32 s 0xcf8 (pci_address bus slot fn off)) 0xcfc"

definition pci_writeconfig :: "'a io_state_scheme \<Rightarrow> u32 \<Rightarrow> u32 \<Rightarrow> u32 \<Rightarrow> u32 \<Rightarrow> u32 \<Rightarrow> 'a io_state_scheme" where
  "pci_writeconfig s bus slot fn off v = io_out32 (io_out32 s 0xcf8 (pci_address bus slot fn off)) 0xcfc v"

section \<open>Probing\<close>

text \<open>
  \<open>probed\<close> records the functions that \<^verbatim>\<open>probe_function\<close> reports, in order.  A bridge leads to
  another bus, so the probing functions call each other; \<open>down\<close> is the call of \<^verbatim>\<open>probe_bus\<close>,
  and the number in \<open>probe_bus\<close> bounds how deep buses may be nested: \<open>None\<close> when that is
  exceeded, as it is by a bridge that leads to a bus above it.
\<close>

record pci_state = ioapic_state +
  probed :: "(u8 \<times> u8 \<times> u8) list"
  ethernet :: "(u8 \<times> u8 \<times> u8) list"

definition probe_function ::
  "('a pci_state_scheme \<Rightarrow> u8 \<Rightarrow> 'a pci_state_scheme option) \<Rightarrow> 'a pci_state_scheme \<Rightarrow> u8 \<Rightarrow> u8 \<Rightarrow> u8 \<Rightarrow> 'a pci_state_scheme option" where
  "probe_function down s bus dev fn =
     (let (s, cls) = pci_readconfig s (ucast bus) (ucast dev) (ucast fn) 0x08;
          baseclass = ucast (drop_bit 24 cls) :: u8;
          subclass = ucast (drop_bit 16 cls) :: u8;
          s = s\<lparr>probed := probed s @ [(bus, dev, fn)]\<rparr>
      in
      if baseclass = 0x04 \<and> subclass = 0x06 then
        (let (s, secondary_bus) = pci_readconfig s (ucast bus) (ucast dev) (ucast fn) 0x18;
             secondary_bus = drop_bit 8 secondary_bus;
             secondary_bus = secondary_bus AND 0xff
         in down s (ucast secondary_bus))
      else if baseclass = 0x02 \<and> subclass = 0x00 then Some (s\<lparr>ethernet := ethernet s @ [(bus, dev, fn)]\<rparr>)
      else Some s)"

fun probe_functions ::
  "('a pci_state_scheme \<Rightarrow> u8 \<Rightarrow> 'a pci_state_scheme option) \<Rightarrow> 'a pci_state_scheme \<Rightarrow> u8 \<Rightarrow> u8 \<Rightarrow> u8 list \<Rightarrow> 'a pci_state_scheme option" where
  "probe_functions down s bus dev [] = Some s"
| "probe_functions down s bus dev (i # is) =
     (let (s, fid) = pci_readconfig s (ucast bus) (ucast dev) (ucast i) 0x00 in
      if fid = 0xffffffff then probe_functions down s bus dev is
      else Option.bind (probe_function down s bus dev i) (\<lambda>s. probe_functions down s bus dev is))"

definition probe_device ::
  "('a pci_state_scheme \<Rightarrow> u8 \<Rightarrow> 'a pci_state_scheme option) \<Rightarrow> 'a pci_state_scheme \<Rightarrow> u8 \<Rightarrow> u8 \<Rightarrow> 'a pci_state_scheme option" where
  "probe_device down s bus dev =
     (let (s, did) = pci_readconfig s (ucast bus) (ucast dev) 0 0x00 in
      if did = 0xffffffff then Some s
      else
        Option.bind (probe_function down s bus dev 0) (\<lambda>s.
        (let (s, info) = pci_readconfig s (ucast bus) (ucast dev) 0 0x0c;
             header_type = ucast (drop_bit 16 info) :: u8
         in if header_type AND 0x80 \<noteq> 0 then probe_functions down s bus dev [1, 2, 3, 4, 5, 6, 7] else Some s)))"

fun probe_devices ::
  "('a pci_state_scheme \<Rightarrow> u8 \<Rightarrow> 'a pci_state_scheme option) \<Rightarrow> 'a pci_state_scheme \<Rightarrow> u8 \<Rightarrow> u8 list \<Rightarrow> 'a pci_state_scheme option" where
  "probe_devices down s bus [] = Some s"
| "probe_devices down s bus (d # ds) = Option.bind (probe_device down s bus d) (\<lambda>s. probe_devices down s bus ds)"

fun probe_bus :: "nat \<Rightarrow> 'a pci_state_scheme \<Rightarrow> u8 \<Rightarrow> 'a pci_state_scheme option" where
  "probe_bus 0 s bus = None"
| "probe_bus (Suc depth) s bus = probe_devices (probe_bus depth) s bus (map of_nat [0..<32])"

definition pci_probe_all :: "nat \<Rightarrow> 'a pci_state_scheme \<Rightarrow> 'a pci_state_scheme option" where
  "pci_probe_all depth s = probe_bus depth s 0"

section \<open>Services for the ACPI subsystem\<close>

text \<open>
  The services that answer without doing anything are the constants they return.  Statuses are
  words, and 0 is success.
\<close>

type_synonym acpi_status = u32

record acpi_pci_id =
  pci_bus :: u16
  pci_device :: u16
  pci_function :: u16

definition AcpiOsTerminate :: acpi_status where "AcpiOsTerminate = 0"

definition AcpiOsPredefinedOverride :: "acpi_status \<times> u64" where "AcpiOsPredefinedOverride = (0, 0)"
definition AcpiOsTableOverride :: "acpi_status \<times> u64" where "AcpiOsTableOverride = (0, 0)"
definition AcpiOsPhysicalTableOverride :: acpi_status where "AcpiOsPhysicalTableOverride = 1"

definition AcpiOsMapMemory :: "u64 \<Rightarrow> u64" where
  "AcpiOsMapMemory PhysicalAddress = 0xffffc00000000000 + PhysicalAddress"

definition AcpiOsReadPciConfiguration ::
  "'a io_state_scheme \<Rightarrow> acpi_pci_id \<Rightarrow> u32 \<Rightarrow> u64 \<Rightarrow> u32 \<Rightarrow> 'a io_state_scheme \<times> u64 \<times> acpi_status" where
  "AcpiOsReadPciConfiguration s PciId Reg Value Width =
     (let rd = pci_readconfig s (ucast (pci_bus PciId)) (ucast (pci_device PciId)) (ucast (pci_function PciId)) Reg in
      if Width = 8 then
        (let (s, r) = rd in (s, ucast (drop_bit (8 * unat (Reg AND 3)) r AND 0xff), 0))
      else if Width = 16 then
        (let (s, r) = rd in (s, ucast (drop_bit (16 * unat (Reg AND 1)) r AND 0xffff), 0))
      else if Width = 32 then (let (s, r) = rd in (s, ucast r, 0))
      else (s, Value, 0))"

definition AcpiOsReadPort ::
  "'a io_state_scheme \<Rightarrow> u64 \<Rightarrow> u32 \<Rightarrow> u32 \<Rightarrow> 'a io_state_scheme \<times> u32 \<times> acpi_status" where
  "AcpiOsReadPort s Address Value Width =
     (if Width = 8 then (let (s, v) = io_in8 s (ucast Address) in (s, ucast v, 0))
      else if Width = 16 then (let (s, v) = io_in16 s (ucast Address) in (s, ucast v, 0))
      else if Width = 32 then (let (s, v) = io_in32 s (ucast Address) in (s, v, 0))
      else (s, Value, 1))"

definition AcpiOsWritePort ::
  "'a io_state_scheme \<Rightarrow> u64 \<Rightarrow> u32 \<Rightarrow> u32 \<Rightarrow> 'a io_state_scheme \<times> acpi_status" where
  "AcpiOsWritePort s Address Value Width =
     (if Width = 8 then (io_out8 s (ucast Address) (ucast Value), 0)
      else if Width = 16 then (io_out16 s (ucast Address) (ucast Value), 0)
      else if Width = 32 then (io_out32 s (ucast Address) Value, 0)
      else (s, 1))"

text \<open>
  Locks and semaphores live in heap blocks, whose size is what was asked for.  Storing an
  object into a block that is too small for it is a fault.
\<close>

definition sizeof_spinlock :: nat where "sizeof_spinlock = 8"
definition sizeof_semaphore :: nat where "sizeof_semaphore = 16"

definition store_object :: "nat \<Rightarrow> nat \<Rightarrow> 'o \<Rightarrow> 'o res" where
  "store_object block sz ob = (if sz \<le> block then Ok ob else Fault OutOfBounds)"

definition AcpiOsCreateSemaphore :: "semaphore_t \<Rightarrow> u32 \<Rightarrow> semaphore_t res" where
  "AcpiOsCreateSemaphore block InitialUnits =
     store_object sizeof_spinlock sizeof_semaphore (synch_initsemaphore block (ucast InitialUnits))"

definition AcpiOsCreateLock :: "spinlock_t \<Rightarrow> spinlock_t res" where
  "AcpiOsCreateLock block = store_object sizeof_spinlock sizeof_spinlock (synch_initspin block)"

definition AcpiOsWaitSemaphore ::
  "(semaphore_t \<Rightarrow> semaphore_t) \<Rightarrow> spin_cpu \<Rightarrow> semaphore_t \<Rightarrow> u32 \<Rightarrow> (spin_cpu \<times> semaphore_t) option" where
  "AcpiOsWaitSemaphore env c Handle Units = synch_semaphoredec env c Handle (ucast Units)"

definition AcpiOsSignalSemaphore :: "spin_cpu \<Rightarrow> semaphore_t \<Rightarrow> u32 \<Rightarrow> (spin_cpu \<times> semaphore_t \<times> unit) option" where
  "AcpiOsSignalSemaphore c Handle Units = synch_semaphoreinc c Handle (ucast Units)"

definition AcpiOsAcquireLock :: "spin_cpu \<Rightarrow> spinlock_t \<Rightarrow> (spin_cpu \<times> spinlock_t) option" where
  "AcpiOsAcquireLock c Handle = synch_spinlock c Handle"

definition AcpiOsReleaseLock :: "spin_cpu \<Rightarrow> spinlock_t \<Rightarrow> (spin_cpu \<times> spinlock_t) option" where
  "AcpiOsReleaseLock c Handle = synch_spinunlock c Handle"

text \<open>
  A handler becomes a task of its own, with a new stack, whose state is noted in the table of
  interrupt tasks.  \<open>stack\<close> is the new block.
\<close>

definition AcpiOsInstallInterruptHandler ::
  "'a kmem_scheme \<Rightarrow> task_table \<Rightarrow> (nat \<Rightarrow> u64) \<Rightarrow> u64 \<Rightarrow> u32 \<Rightarrow> u64 \<Rightarrow> u64 \<Rightarrow> (task_table \<times> (nat \<Rightarrow> u64) \<times> acpi_status) res" where
  "AcpiOsInstallInterruptHandler s t int_tasks stack InterruptLevel Handler Context =
     (case task_create t of
        (t, None) \<Rightarrow> Fault NullDeref
      | (t, Some ts) \<Rightarrow>
         (let t = task_set_local s t ts Handler (stack + 1024);
              t = put_word t ts RDI Context
          in Ok (t, int_tasks(unat (0x80 + InterruptLevel) := TASK_ADDR ts), 0)))"

section \<open>Properties\<close>

text \<open>
  A machine whose configuration space does not change while it is scanned, and the functions
  there are on a bus: function 0 of each device that is present, and for a multifunction device
  those of its other seven that are.
\<close>

definition static_config :: "(u32 \<Rightarrow> u32) \<Rightarrow> 'a io_state_scheme \<Rightarrow> bool" where
  "static_config cfg s \<longleftrightarrow> (\<forall>es a. device s (es @ [Out32 0xcf8 a, In32 0xcfc]) = ucast (cfg a))"

definition config :: "(u32 \<Rightarrow> u32) \<Rightarrow> u8 \<Rightarrow> u8 \<Rightarrow> u8 \<Rightarrow> u32 \<Rightarrow> u32" where
  "config cfg bus dev fn off = cfg (pci_address (ucast bus) (ucast dev) (ucast fn) off)"

definition present :: "(u32 \<Rightarrow> u32) \<Rightarrow> u8 \<Rightarrow> u8 \<Rightarrow> u8 \<Rightarrow> bool" where
  "present cfg bus dev fn \<longleftrightarrow> config cfg bus dev fn 0 \<noteq> 0xffffffff"

definition functions_of :: "(u32 \<Rightarrow> u32) \<Rightarrow> u8 \<Rightarrow> u8 \<Rightarrow> (u8 \<times> u8) list" where
  "functions_of cfg bus dev =
     (if present cfg bus dev 0 then
        (dev, 0) # (if bit (config cfg bus dev 0 0x0c) 23
                    then map (Pair dev) (filter (present cfg bus dev) [1, 2, 3, 4, 5, 6, 7]) else [])
      else [])"

definition on_bus :: "(u32 \<Rightarrow> u32) \<Rightarrow> u8 \<Rightarrow> (u8 \<times> u8) list" where
  "on_bus cfg bus = concat (map (functions_of cfg bus) (map of_nat [0..<32]))"

text \<open>Concatenation of lists that may be missing.\<close>

definition append_opt :: "'b list option \<Rightarrow> 'b list option \<Rightarrow> 'b list option" where
  "append_opt xs ys = Option.bind xs (\<lambda>xs. map_option (append xs) ys)"

definition concat_opt :: "'b list option list \<Rightarrow> 'b list option" where
  "concat_opt xss = foldr append_opt xss (Some [])"

lemma concat_opt_simps [simp]:
  "concat_opt [] = Some []" "concat_opt (xs # xss) = append_opt xs (concat_opt xss)"
  by (simp_all add: concat_opt_def)

lemma append_opt_assoc: "append_opt (append_opt xs ys) zs = append_opt xs (append_opt ys zs)"
  by (cases xs; cases ys; cases zs) (simp_all add: append_opt_def)

lemma append_opt_Nil [simp]: "append_opt (Some []) xs = xs" "append_opt xs (Some []) = xs"
  by (cases xs; simp add: append_opt_def)+

lemma concat_opt_append: "concat_opt (xss @ yss) = append_opt (concat_opt xss) (concat_opt yss)"
  by (induction xss) (simp_all add: append_opt_assoc)

text \<open>The scan, as a function of the configuration space alone.\<close>

fun scan :: "(u32 \<Rightarrow> u32) \<Rightarrow> nat \<Rightarrow> u8 \<Rightarrow> (u8 \<times> u8 \<times> u8) list option" where
  "scan cfg 0 bus = None"
| "scan cfg (Suc depth) bus =
     concat_opt (map (\<lambda>(dev, fn). append_opt (Some [(bus, dev, fn)])
        (if drop_bit 16 (config cfg bus dev fn 8) = 0x0406
         then scan cfg depth (ucast (drop_bit 8 (config cfg bus dev fn 0x18))) else Some []))
       (on_bus cfg bus))"

text \<open>What one step of the scan does.\<close>

definition reports :: "(u32 \<Rightarrow> u32) \<Rightarrow> 'a pci_state_scheme \<Rightarrow> 'a pci_state_scheme option \<Rightarrow> (u8 \<times> u8 \<times> u8) list option \<Rightarrow> bool" where
  "reports cfg s r ps \<longleftrightarrow>
     (case ps of None \<Rightarrow> r = None | Some l \<Rightarrow> \<exists>s'. r = Some s' \<and> static_config cfg s' \<and> probed s' = probed s @ l)"

lemma reports_bind:
  assumes "reports cfg s r ps" and "\<And>s'. static_config cfg s' \<Longrightarrow> reports cfg s' (k s') qs"
  shows "reports cfg s (Option.bind r k) (append_opt ps qs)"
proof (cases ps)
  case None
  then show ?thesis using assms(1) by (simp add: reports_def append_opt_def)
next
  case (Some l)
  with assms(1) obtain s' where "r = Some s'" "static_config cfg s'" "probed s' = probed s @ l" by (auto simp: reports_def)
  then show ?thesis using assms(2) [of s'] Some by (auto simp: reports_def append_opt_def split: option.splits)
qed

lemma reports_Some: "static_config cfg s \<Longrightarrow> reports cfg s (Some s) (Some [])"
  by (simp add: reports_def)

lemma ucast_up_down [simp]: "(ucast (ucast (x :: u32) :: u64) :: u32) = x"
  by (rule bit_word_eqI) (simp add: bit_simps)

lemma readconfig_static:
  assumes "static_config cfg s"
  shows "snd (pci_readconfig s (ucast bus) (ucast dev) (ucast fn) off) = config cfg bus dev fn off"
    and "static_config cfg (fst (pci_readconfig s (ucast bus) (ucast dev) (ucast fn) off))"
  using assms by (simp_all add: pci_readconfig_def io_in32_def io_out32_def static_config_def config_def)

lemma readconfig_probed: "probed (fst (pci_readconfig s b d f off)) = probed s"
  by (simp add: pci_readconfig_def io_in32_def io_out32_def tell_def)

lemma reports_read [simp]: "reports cfg (fst (pci_readconfig s b d f off)) r ps = reports cfg s r ps"
  by (simp add: reports_def readconfig_probed split: option.split)

lemma reports_ethernet [simp]: "reports cfg (s\<lparr>ethernet := y\<rparr>) r ps = reports cfg s r ps"
  by (simp add: reports_def split: option.split)

lemma reports_probed: "reports cfg (s\<lparr>probed := probed s @ l\<rparr>) r ps \<Longrightarrow> reports cfg s r (append_opt (Some l) ps)"
  by (auto simp: reports_def append_opt_def split: option.splits)

lemma static_config_update [simp]:
  "static_config cfg (s\<lparr>probed := x\<rparr>) = static_config cfg s" "static_config cfg (s\<lparr>ethernet := y\<rparr>) = static_config cfg s"
  by (simp_all add: static_config_def)

lemma class_halves:
  "ucast (drop_bit 24 c) = (0x04 :: u8) \<and> ucast (drop_bit 16 c) = (0x06 :: u8) \<longleftrightarrow> drop_bit 16 (c :: u32) = 0x0406"
proof -
  let ?x = "unat c div 65536"
  have "unat c < 4294967296" using unsigned_less [of c] by simp
  then have "(unat c div 16777216) mod 256 = ?x div 256" by (simp add: div_mult2_eq [symmetric])
  moreover have "ucast (drop_bit 24 c) = (0x04 :: u8) \<longleftrightarrow> (unat c div 16777216) mod 256 = 4"
    by (simp add: word_eq_unat unsigned_ucast_eq take_bit_eq_mod unat_drop_bit_eq drop_bit_eq_div unat_div)
  moreover have "ucast (drop_bit 16 c) = (0x06 :: u8) \<longleftrightarrow> ?x mod 256 = 6"
    by (simp add: word_eq_unat unsigned_ucast_eq take_bit_eq_mod unat_drop_bit_eq drop_bit_eq_div unat_div)
  moreover have "drop_bit 16 c = 0x0406 \<longleftrightarrow> ?x = 1030"
    by (simp add: word_eq_unat unat_drop_bit_eq drop_bit_eq_div unat_div)
  moreover have "x div 256 = 4 \<and> x mod 256 = 6 \<longleftrightarrow> x = 1030" for x :: nat
  proof (rule iffI, elim conjE)
    assume "x div 256 = 4" "x mod 256 = 6"
    with div_mult_mod_eq [of x 256] show "x = 1030" by linarith
  qed simp
  ultimately show ?thesis by simp
qed

text \<open>
  The calls of \<^verbatim>\<open>probe_bus\<close> for a bus below are a parameter of the lemmas on the loops;
  \<open>lower\<close> is what they report.
\<close>

definition follow :: "(u32 \<Rightarrow> u32) \<Rightarrow> (u8 \<Rightarrow> (u8 \<times> u8 \<times> u8) list option) \<Rightarrow> u8 \<Rightarrow> u8 \<times> u8 \<Rightarrow> (u8 \<times> u8 \<times> u8) list option" where
  "follow cfg lower bus = (\<lambda>(dev, fn). append_opt (Some [(bus, dev, fn)])
     (if drop_bit 16 (config cfg bus dev fn 8) = 0x0406 then lower (ucast (drop_bit 8 (config cfg bus dev fn 0x18))) else Some []))"

lemma probe_function_reports:
  assumes "static_config cfg s" and lower: "\<And>s b. static_config cfg s \<Longrightarrow> reports cfg s (down s b) (lower b)"
  shows "reports cfg s (probe_function down s bus dev fn) (follow cfg lower bus (dev, fn))"
proof -
  let ?s1 = "fst (pci_readconfig s (ucast bus) (ucast dev) (ucast fn) 8)"
  let ?s2 = "?s1\<lparr>probed := probed ?s1 @ [(bus, dev, fn)]\<rparr>"
  let ?s3 = "fst (pci_readconfig ?s2 (ucast bus) (ucast dev) (ucast fn) 0x18)"
  let ?cls = "config cfg bus dev fn 8" and ?secondary = "config cfg bus dev fn 0x18"
  have v1: "snd (pci_readconfig s (ucast bus) (ucast dev) (ucast fn) 8) = ?cls" and s2: "static_config cfg ?s2"
    using readconfig_static [OF assms(1)] by simp_all
  have v2: "snd (pci_readconfig ?s2 (ucast bus) (ucast dev) (ucast fn) 0x18) = ?secondary" and s3: "static_config cfg ?s3"
    using readconfig_static [OF s2] by simp_all
  have secondary: "ucast (drop_bit 8 ?secondary AND 0xff) = (ucast (drop_bit 8 ?secondary) :: u8)"
  proof -
    have m: "(0xff :: u32) = mask 8" by (simp add: mask_eq_exp_minus_1)
    show ?thesis unfolding m by (rule bit_word_eqI) (auto simp: bit_simps simp del: mask_numeral)
  qed
  show ?thesis
  proof (cases "drop_bit 16 ?cls = 0x0406")
    case True
    then have "ucast (drop_bit 24 ?cls) = (4 :: u8) \<and> ucast (drop_bit 16 ?cls) = (6 :: u8)"
      using class_halves by blast
    then have "probe_function down s bus dev fn = down ?s3 (ucast (drop_bit 8 ?secondary))"
      by (simp add: probe_function_def case_prod_beta Let_def v1 v2 secondary)
    moreover have "reports cfg ?s2 (down ?s3 (ucast (drop_bit 8 ?secondary))) (lower (ucast (drop_bit 8 ?secondary)))"
      using lower [OF s3] by simp
    ultimately show ?thesis
      using True reports_probed [of cfg ?s1] by (simp add: follow_def)
  next
    case False
    then have "\<not> (ucast (drop_bit 24 ?cls) = (4 :: u8) \<and> ucast (drop_bit 16 ?cls) = (6 :: u8))"
      using class_halves by blast
    then have "probe_function down s bus dev fn \<in> {Some ?s2, Some (?s2\<lparr>ethernet := ethernet ?s2 @ [(bus, dev, fn)]\<rparr>)}"
      by (auto simp: probe_function_def case_prod_beta Let_def v1)
    moreover have "reports cfg ?s2 (Some ?s2) (Some [])"
      "reports cfg ?s2 (Some (?s2\<lparr>ethernet := ethernet ?s2 @ [(bus, dev, fn)]\<rparr>)) (Some [])"
      using s2 by (simp_all add: reports_def)
    ultimately have "reports cfg ?s2 (probe_function down s bus dev fn) (Some [])" by auto
    from reports_probed [OF this] show ?thesis
      using False by (simp add: follow_def)
  qed
qed

lemma probe_functions_reports:
  assumes "static_config cfg s" and lower: "\<And>s b. static_config cfg s \<Longrightarrow> reports cfg s (down s b) (lower b)"
  shows "reports cfg s (probe_functions down s bus dev fns)
     (concat_opt (map (follow cfg lower bus) (map (Pair dev) (filter (present cfg bus dev) fns))))"
  using assms(1)
proof (induction fns arbitrary: s)
  case Nil
  then show ?case by (simp add: reports_Some)
next
  case (Cons fn fns)
  let ?s = "fst (pci_readconfig s (ucast bus) (ucast dev) (ucast fn) 0)"
  have s: "static_config cfg ?s" and v: "snd (pci_readconfig s (ucast bus) (ucast dev) (ucast fn) 0) = config cfg bus dev fn 0"
    using readconfig_static [OF Cons.prems] by simp_all
  show ?case
  proof (cases "present cfg bus dev fn")
    case True
    have "reports cfg ?s (Option.bind (probe_function down ?s bus dev fn) (\<lambda>s. probe_functions down s bus dev fns))
       (append_opt (follow cfg lower bus (dev, fn)) (concat_opt (map (follow cfg lower bus) (map (Pair dev) (filter (present cfg bus dev) fns)))))"
      by (intro reports_bind probe_function_reports s lower Cons.IH)
    then show ?thesis using True by (simp add: case_prod_beta v present_def [of cfg bus dev fn])
  next
    case False
    then show ?thesis using Cons.IH [OF s] by (simp add: case_prod_beta v present_def [of cfg bus dev fn])
  qed
qed

lemma probe_device_reports:
  assumes "static_config cfg s" and lower: "\<And>s b. static_config cfg s \<Longrightarrow> reports cfg s (down s b) (lower b)"
  shows "reports cfg s (probe_device down s bus dev) (concat_opt (map (follow cfg lower bus) (functions_of cfg bus dev)))"
proof -
  let ?s1 = "fst (pci_readconfig s (ucast bus) (ucast dev) 0 0)"
  have s1: "static_config cfg ?s1" and v1: "snd (pci_readconfig s (ucast bus) (ucast dev) 0 0) = config cfg bus dev 0 0"
    using readconfig_static [OF assms(1), where fn = 0] by simp_all
  show ?thesis
  proof (cases "present cfg bus dev 0")
    case False
    then show ?thesis using reports_Some [OF s1]
      by (simp add: probe_device_def case_prod_beta v1 present_def functions_of_def)
  next
    case True
    let ?rest = "if bit (config cfg bus dev 0 0x0c) 23
      then concat_opt (map (follow cfg lower bus) (map (Pair dev) (filter (present cfg bus dev) [1, 2, 3, 4, 5, 6, 7]))) else Some []"
    let ?k = "\<lambda>s. let (s, info) = pci_readconfig s (ucast bus) (ucast dev) 0 0x0c; header_type = ucast (drop_bit 16 info) :: u8
      in if header_type AND 0x80 \<noteq> 0 then probe_functions down s bus dev [1, 2, 3, 4, 5, 6, 7] else Some s"
    have "reports cfg t (?k t) ?rest" if t: "static_config cfg t" for t
    proof -
      let ?t = "fst (pci_readconfig t (ucast bus) (ucast dev) 0 0x0c)"
      have t': "static_config cfg ?t" and v: "snd (pci_readconfig t (ucast bus) (ucast dev) 0 0x0c) = config cfg bus dev 0 0x0c"
        using readconfig_static [OF t, where fn = 0] by simp_all
      have "(ucast (drop_bit 16 c) :: u8) AND 0x80 \<noteq> 0 \<longleftrightarrow> bit (c :: u32) 23" for c
        using and_exp_eq_0_iff_not_bit [of "ucast (drop_bit 16 c) :: u8" 7] by (simp add: bit_simps)
      then show ?thesis
        using probe_functions_reports [where bus = bus and dev = dev and fns = "[1, 2, 3, 4, 5, 6, 7]", OF t' lower] reports_Some [OF t']
        by (simp add: case_prod_beta v del: map_map probe_functions.simps)
    qed
    then have "reports cfg ?s1 (Option.bind (probe_function down ?s1 bus dev 0) ?k) (append_opt (follow cfg lower bus (dev, 0)) ?rest)"
      by (intro reports_bind probe_function_reports s1 lower)
    moreover have "probe_device down s bus dev = Option.bind (probe_function down ?s1 bus dev 0) ?k"
      using True by (simp add: probe_device_def case_prod_beta v1 present_def)
    moreover have "concat_opt (map (follow cfg lower bus) (functions_of cfg bus dev)) = append_opt (follow cfg lower bus (dev, 0)) ?rest"
      using True by (simp add: functions_of_def)
    ultimately show ?thesis by simp
  qed
qed

lemma probe_devices_reports:
  assumes "static_config cfg s" and lower: "\<And>s b. static_config cfg s \<Longrightarrow> reports cfg s (down s b) (lower b)"
  shows "reports cfg s (probe_devices down s bus devs)
     (concat_opt (map (follow cfg lower bus) (concat (map (functions_of cfg bus) devs))))"
  using assms(1)
proof (induction devs arbitrary: s)
  case Nil
  then show ?case by (simp add: reports_Some)
next
  case (Cons dev devs)
  then show ?case by (simp add: concat_opt_append) (intro reports_bind probe_device_reports lower Cons.IH)
qed

lemma probe_bus_reports:
  "static_config cfg s \<Longrightarrow> reports cfg s (probe_bus depth s bus) (scan cfg depth bus)"
proof (induction depth arbitrary: s bus)
  case 0
  then show ?case by (simp add: reports_def)
next
  case (Suc depth)
  have "reports cfg s (probe_devices (probe_bus depth) s bus (map of_nat [0..<32]))
     (concat_opt (map (follow cfg (scan cfg depth) bus) (concat (map (functions_of cfg bus) (map of_nat [0..<32])))))"
    by (intro probe_devices_reports Suc)
  then show ?case by (simp add: follow_def on_bus_def cong: map_cong)
qed

text \<open>
  C16: on a machine whose configuration space stays as it is, probing a bus reports the
  functions that \<open>scan\<close> finds by looking the space up, and in that order, or exceeds the depth
  with it.  A function leads on to another bus only when its class word is 0x0406, not 0x0604 as a
  bridge from PCI to PCI has it: where there is no class 0x0406, what is reported is what is
  on the bus itself, whatever bridges there are.
\<close>

theorem probe_bus_is_scan:
  assumes "static_config cfg s"
  shows "map_option probed (probe_bus depth s bus) = map_option (append (probed s)) (scan cfg depth bus) \<and>
    (0 < depth \<and> (\<forall>dev fn. drop_bit 16 (config cfg bus dev fn 8) \<noteq> 0x0406) \<longrightarrow>
      map_option probed (probe_bus depth s bus) = Some (probed s @ map (Pair bus) (on_bus cfg bus)))"
proof (intro conjI impI)
  show r: "map_option probed (probe_bus depth s bus) = map_option (append (probed s)) (scan cfg depth bus)"
    using probe_bus_reports [OF assms, of depth bus] by (auto simp: reports_def split: option.splits)
  assume d: "0 < depth \<and> (\<forall>dev fn. drop_bit 16 (config cfg bus dev fn 8) \<noteq> 0x0406)"
  then have "follow cfg lower bus = (\<lambda>df. Some [Pair bus df])" for lower
    by (simp add: follow_def fun_eq_iff)
  moreover have "concat_opt (map (\<lambda>x. Some [f x]) xs) = Some (map f xs)" for f :: "u8 \<times> u8 \<Rightarrow> u8 \<times> u8 \<times> u8" and xs
    by (induction xs) (simp_all add: append_opt_def)
  moreover have "scan cfg depth bus = concat_opt (map (follow cfg (scan cfg (depth - 1)) bus) (on_bus cfg bus))"
    using d by (cases depth) (simp_all add: follow_def)
  ultimately show "map_option probed (probe_bus depth s bus) = Some (probed s @ map (Pair bus) (on_bus cfg bus))"
    by (simp add: r)
qed

text \<open>
  A machine with a bridge to bus 1 in its slot 0, of class 0x0604, and a card behind it.
\<close>

definition bridged_machine :: "u32 \<Rightarrow> u32" where
  "bridged_machine a =
     (if a = 0x80000000 \<or> a = 0x80010000 then 0x12341af4
      else if a = 0x80000008 then 0x06040000
      else if a = 0x80010008 then 0x02000000
      else if a = 0x80000018 then 0x00010100
      else if a AND 0xfc = 0 then 0xffffffff else 0)"

theorem probe_bus_is_scan_witness:
  "map_option probed (probe_bus 2 \<lparr>io_log = [], device = (\<lambda>es. case last (In8 0 # butlast es) of Out32 p a \<Rightarrow> ucast (bridged_machine a) | _ \<Rightarrow> 0), lapic_base = 0, base_address = 0, probed = [], ethernet = []\<rparr> 0) =
   Some [(0, 0, 0)]"
proof -
  let ?s = "\<lparr>io_log = [], device = (\<lambda>es. case last (In8 0 # butlast es) of Out32 p a \<Rightarrow> ucast (bridged_machine a) | _ \<Rightarrow> 0), lapic_base = 0, base_address = 0, probed = [], ethernet = []\<rparr>"
  have static: "static_config bridged_machine ?s"
    by (simp add: static_config_def butlast_append)
  have no_0406: "\<forall>dev fn. drop_bit 16 (config bridged_machine 0 dev fn 8) \<noteq> 0x0406"
    by (simp add: config_def bridged_machine_def drop_bit_eq_div)
  have "on_bus bridged_machine 0 = [(0, 0)]"
    by code_simp
  then show ?thesis
    using probe_bus_is_scan [OF static, THEN conjunct2, of 2 0] no_0406 by simp
qed

text \<open>
  Reading 16 bits of the configuration space shifts by the low bit of the register where it
  should use bit 1: the upper half of a word cannot be read.
\<close>

lemma acpi_read_upper_half:
  assumes "static_config cfg s" and "Reg AND 3 = 2"
  shows "fst (snd (AcpiOsReadPciConfiguration s p Reg v 16)) =
    fst (snd (AcpiOsReadPciConfiguration s p (Reg AND NOT 3) v 16))"
proof -
  have "pci_address b d f (Reg AND NOT 3) = pci_address b d f Reg" for b d f
  proof -
    have "(Reg AND NOT 3) AND 0xfc = Reg AND (0xfc :: u32)"
      by (simp add: and.assoc)
    then show ?thesis by (simp add: pci_address_def)
  qed
  moreover have "Reg AND 1 = 0"
  proof -
    have "(Reg AND 3) AND 1 = Reg AND (1 :: u32)" by (simp add: and.assoc)
    then show ?thesis using assms(2) by simp
  qed
  moreover have "(Reg AND NOT 3) AND 1 = (0 :: u32)" by (simp add: and.assoc)
  ultimately show ?thesis
    by (simp add: AcpiOsReadPciConfiguration_def pci_readconfig_def Let_def case_prod_beta)
qed

text \<open>A semaphore is twice the size of the block that is asked for.\<close>

lemma acpi_semaphore_overflows: "AcpiOsCreateSemaphore block n = Fault OutOfBounds"
  by (simp add: AcpiOsCreateSemaphore_def store_object_def sizeof_spinlock_def sizeof_semaphore_def)

end
