(* ===== verification/Hw_Main.thy ===== *)
theory Hw_Main
  imports Hw_Pci Clib_Mem
begin

text \<open>
  \<^verbatim>\<open>kernel/hw/hw.c\<close>, the hardware task.  What the ACPI subsystem answers is a parameter:
  \<open>acpi_answers\<close> has a field for each of its functions that the task calls, and the structures it
  hands out are in the byte memory at the addresses it gives.  What the task prints is the list
  of its reports.
\<close>

section \<open>Answers and reports\<close>

text \<open>An identifier is a length, with the final zero, and the address of the string.\<close>

record acpi_pnp_device_id =
  id_length :: u32
  id_string :: ptr

record acpi_device_info =
  info_valid :: u16
  info_address :: u64
  hardware_id :: acpi_pnp_device_id
  class_code :: acpi_pnp_device_id
  compatible_ids :: "acpi_pnp_device_id list"

definition ACPI_VALID_ADR :: u16 where "ACPI_VALID_ADR = 0x0002"
definition ACPI_VALID_HID :: u16 where "ACPI_VALID_HID = 0x0004"
definition ACPI_VALID_CID :: u16 where "ACPI_VALID_CID = 0x0020"

text \<open>A buffer the subsystem allocates: its address and its length.\<close>

type_synonym acpi_buffer = "ptr \<times> u64"

record acpi_answers =
  AcpiGetName :: "u64 \<Rightarrow> u8 list"
  AcpiGetObjectInfo :: "u64 \<Rightarrow> acpi_device_info option"
  AcpiGetIrqRoutingTable :: "u64 \<Rightarrow> acpi_status \<times> acpi_buffer"
  AcpiGetPossibleResources :: "u64 \<Rightarrow> acpi_buffer"

datatype hw_report =
    Device u64
  | Full_Name "u8 list"
  | No_Info
  | Hardware_Id "u8 list"
  | Compatible_Id "u8 list"
  | Class_Code_Length u32
  | Pci_Root
  | Routing_Size u64
  | Route u64 u32 u32 u64
  | Routing_Failed acpi_status
  | Resource u32
  | Irq_Count u8
  | Irq u32
  | Address u64
  | Pci_Address u64 u64
  | Pci_Type u32
  | Is_Rtl8139

section \<open>Strings\<close>

text \<open>\<open>copy\<close> is the block \<^verbatim>\<open>heap_alloc\<close> gives; printing it stops at the first zero.\<close>

definition clone_string :: "bytes \<Rightarrow> ptr \<Rightarrow> ptr \<Rightarrow> u64 \<Rightarrow> bytes" where
  "clone_string m copy orig len = (mem_copy m copy orig len)(copy + len := 0)"

definition printed :: "bytes \<Rightarrow> ptr \<Rightarrow> nat \<Rightarrow> u8 list" where
  "printed m p n = takeWhile (\<lambda>c. c \<noteq> 0) (map (\<lambda>i. m (p + of_nat i)) [0..<n])"

definition cloned :: "bytes \<Rightarrow> ptr \<Rightarrow> acpi_pnp_device_id \<Rightarrow> u8 list" where
  "cloned m copy i = printed (clone_string m copy (id_string i) (ucast (id_length i))) copy (unat (id_length i) + 1)"

section \<open>Devices\<close>

definition process_pci_device ::
  "acpi_answers \<Rightarrow> 'a pci_state_scheme \<Rightarrow> u64 \<Rightarrow> 'a pci_state_scheme \<times> hw_report list" where
  "process_pci_device answers s ob =
     (case AcpiGetObjectInfo answers ob of
        None \<Rightarrow> (s, [])
      | Some info \<Rightarrow>
         (let fn = info_address info AND 0xffff;
              slot = drop_bit 16 (info_address info);
              (s, type) = pci_readconfig s 0 (ucast slot) (ucast fn) 0;
              vid = ucast (type AND 0xffff) :: u16;
              pid = ucast (drop_bit 16 type) :: u16
          in (s, [Pci_Address slot fn, Pci_Type type] @ (if vid = 0x10ec \<and> pid = 0x8139 then [Is_Rtl8139] else []))))"

text \<open>The entries of the routing table: 24 bytes or more each, length, pin, address and source index.\<close>

definition sizeof_routing :: u64 where "sizeof_routing = 24"

partial_function (option) routing_loop :: "bytes \<Rightarrow> ptr \<Rightarrow> u64 \<Rightarrow> u64 \<Rightarrow> hw_report list \<Rightarrow> hw_report list option" where
  "routing_loop m p len offset out =
     (if offset + sizeof_routing \<le> len then
        (let r = p + offset; rlen = load_le 4 m r :: u32 in
         if rlen = 0 then Some out
         else routing_loop m p len (offset + ucast rlen)
           (out @ [Route (load_le 8 m (r + 8)) (load_le 4 m (r + 16)) (load_le 4 m (r + 4)) offset]))
      else Some out)"

definition ACPI_RESOURCE_TYPE_END_TAG :: u32 where "ACPI_RESOURCE_TYPE_END_TAG = 7"
definition ACPI_RESOURCE_TYPE_EXTENDED_IRQ :: u32 where "ACPI_RESOURCE_TYPE_EXTENDED_IRQ = 15"

text \<open>
  A resource: its type, its length, and from offset 8 its data.  An extended interrupt has the count at
  13 and the interrupts from 32.
\<close>

definition resource_reports :: "bytes \<Rightarrow> ptr \<Rightarrow> hw_report list" where
  "resource_reports m r =
     (let type = load_le 4 m r in
      Resource type #
      (if type = ACPI_RESOURCE_TYPE_EXTENDED_IRQ then
         Irq_Count (m (r + 13)) # map (\<lambda>i. Irq (load_le 4 m (r + 32 + of_nat i * 4))) [0..<unat (m (r + 13))]
       else []))"

partial_function (option) resource_loop :: "bytes \<Rightarrow> ptr \<Rightarrow> u64 \<Rightarrow> u64 \<Rightarrow> hw_report list \<Rightarrow> hw_report list option" where
  "resource_loop m p len offset out =
     (if offset < len then
        (let r = p + offset in
         if load_le 4 m r = ACPI_RESOURCE_TYPE_END_TAG then Some out
         else resource_loop m p len (offset + ucast (load_le 4 m (r + 4) :: u32)) (out @ resource_reports m r))
      else Some out)"

text \<open>
  \<^verbatim>\<open>device_callback\<close>.  \<open>pnp_root\<close> and \<open>pnp_link\<close> are the addresses of the two literals it compares
  the hardware id with, \<open>copy\<close> that of the block the strings are cloned to.
\<close>

definition device_callback ::
  "bytes \<Rightarrow> ptr \<Rightarrow> ptr \<Rightarrow> ptr \<Rightarrow> acpi_answers \<Rightarrow> u64 \<Rightarrow> hw_report list option" where
  "device_callback m copy pnp_root pnp_link answers ob =
     (case AcpiGetObjectInfo answers ob of
        None \<Rightarrow> Some [Device ob, Full_Name (AcpiGetName answers ob), No_Info]
      | Some info \<Rightarrow>
         (let out = [Device ob, Full_Name (AcpiGetName answers ob)];
              out = (if info_valid info AND ACPI_VALID_HID \<noteq> 0 then out @ [Hardware_Id (cloned m copy (hardware_id info))] else out);
              out = (if info_valid info AND ACPI_VALID_CID \<noteq> 0
                     then out @ map (\<lambda>i. Compatible_Id (cloned m copy i)) (compatible_ids info) else out);
              out = out @ [Class_Code_Length (id_length (class_code info))];
              hid = hardware_id info;
              is = (\<lambda>literal. id_length hid \<noteq> 0 \<and> str_ncmp m (id_string hid) literal (unat (id_length hid)) = 0);
              found =
                (if is pnp_root then
                   (case AcpiGetIrqRoutingTable answers ob of
                      (st, p, len) \<Rightarrow>
                        if st = 0 then routing_loop m p len 0 (out @ [Pci_Root, Routing_Size len])
                        else Some (out @ [Pci_Root, Routing_Failed st]))
                 else if is pnp_link then
                   (case AcpiGetPossibleResources answers ob of (p, len) \<Rightarrow> resource_loop m p len 0 out)
                 else Some out)
          in map_option (\<lambda>out. if info_valid info AND ACPI_VALID_ADR \<noteq> 0 then out @ [Address (info_address info)] else out) found))"

section \<open>Start\<close>

text \<open>
  \<^verbatim>\<open>_start\<close> after the ACPI subsystem has been set up: the interrupt controllers, the PCI bus, then
  the devices \<^verbatim>\<open>AcpiGetDevices\<close> calls back for.  \<open>None\<close> is not getting there.
\<close>

definition hw_start ::
  "bytes \<Rightarrow> ptr option \<Rightarrow> nat \<Rightarrow> ptr \<Rightarrow> ptr \<Rightarrow> ptr \<Rightarrow> acpi_answers \<Rightarrow> u64 list \<Rightarrow> 'a pci_state_scheme \<Rightarrow>
   ('a pci_state_scheme \<times> hw_report list list) option" where
  "hw_start m table depth copy pnp_root pnp_link answers devices s =
     Option.bind (apics_init m table s) (\<lambda>s.
     Option.bind (pci_probe_all depth s) (\<lambda>s.
     Option.bind (those (map (device_callback m copy pnp_root pnp_link answers) devices)) (\<lambda>out. Some (s, out))))"

section \<open>Properties\<close>

text \<open>The entries of a routing table of which none has length zero before its end.\<close>

fun routes_from :: "bytes \<Rightarrow> ptr \<Rightarrow> u64 \<Rightarrow> u64 \<Rightarrow> u64 list \<Rightarrow> bool" where
  "routes_from m p len offset [] \<longleftrightarrow> \<not> (offset + sizeof_routing \<le> len \<and> load_le 4 m (p + offset) \<noteq> (0 :: u32))"
| "routes_from m p len offset (e # es) \<longleftrightarrow>
     offset + sizeof_routing \<le> len \<and> load_le 4 m (p + offset) \<noteq> (0 :: u32) \<and> e = offset \<and>
     routes_from m p len (offset + ucast (load_le 4 m (p + offset) :: u32)) es"

definition route :: "bytes \<Rightarrow> ptr \<Rightarrow> u64 \<Rightarrow> hw_report" where
  "route m p offset =
     Route (load_le 8 m (p + offset + 8)) (load_le 4 m (p + offset + 16)) (load_le 4 m (p + offset + 4)) offset"

lemma routes_exist:
  assumes "unat len < 2 ^ 63" "unat offset < 2 ^ 63 + 2 ^ 32"
  shows "\<exists>es. routes_from m p len offset es"
  using assms(2)
proof (induction "unat len - unat offset" arbitrary: offset rule: less_induct)
  case less
  let ?n = "load_le 4 m (p + offset) :: u32"
  show ?case
  proof (cases "offset + sizeof_routing \<le> len \<and> ?n \<noteq> 0")
    case False
    then have "routes_from m p len offset []" by simp
    then show ?thesis by blast
  next
    case True
    have n: "0 < unat ?n" "unat ?n < 2 ^ 32" using True unsigned_less [of ?n] by (simp_all add: unat_gt_0)
    have o: "unat offset + 24 \<le> unat len"
      using True less.prems assms(1) by (simp add: word_le_nat_alt unat_word_ariths sizeof_routing_def)
    have "unat (offset + ucast ?n :: u64) = unat offset + unat ?n"
      using n(2) less.prems by (simp add: unat_word_ariths unsigned_ucast_eq take_bit_nat_eq_self)
    then have "\<exists>es. routes_from m p len (offset + ucast ?n) es"
      using less.hyps [of "offset + ucast ?n"] n o assms(1) by simp
    then obtain es where "routes_from m p len (offset + ucast ?n) es" by blast
    with True have "routes_from m p len offset (offset # es)" by simp
    then show ?thesis by blast
  qed
qed

lemma routing_loop_routes:
  "routes_from m p len offset es \<Longrightarrow> routing_loop m p len offset out = Some (out @ map (route m p) es)"
proof (induction es arbitrary: offset out)
  case Nil
  then show ?case by (subst routing_loop.simps) (simp add: Let_def)
next
  case (Cons e es)
  then show ?case by (subst routing_loop.simps) (simp add: Let_def route_def add.assoc)
qed

text \<open>
  the walk over the routing table of a PCI root returns for every table shorter than
  \<open>2 ^ 63\<close> bytes, whatever is in it: it reports the entries from the start, each where the length
  of the one before leads, up to one of length zero or the end, and reads none that is not whole.
\<close>

theorem routing_walk_ends:
  assumes "unat len < 2 ^ 63"
  shows "\<exists>es. routes_from m p len 0 es \<and> routing_loop m p len 0 out = Some (out @ map (route m p) es)"
  using routes_exist [OF assms, of 0] routing_loop_routes by fastforce

theorem routing_walk_ends_witness:
  "routing_loop (\<lambda>a. if a = 0x1000 then 24 else if a = 0x1004 then 2 else 0) 0x1000 40 0 [Pci_Root] = Some [Pci_Root, Route 0 0 2 0]"
proof -
  let ?m = "\<lambda>a :: u64. if a = 0x1000 then 24 else if a = 0x1004 then 2 else 0 :: u8"
  obtain es where es: "routes_from ?m 0x1000 40 0 es"
    "routing_loop ?m 0x1000 40 0 [Pci_Root] = Some ([Pci_Root] @ map (route ?m 0x1000) es)"
    using routing_walk_ends [of 40 ?m "0x1000" "[Pci_Root]"] by auto
  have "es = [0]"
    using es(1) by (cases es; cases "tl es") (simp_all add: sizeof_routing_def load_le_value upt_conv_Cons)
  then show ?thesis using es(2) by (simp add: route_def load_le_value upt_conv_Cons)
qed

text \<open>
  The walk over the resources of a link has no such check: an entry of length zero that is not
  the end tag is reported for ever.
\<close>

lemma resource_walk_sticks:
  assumes "offset < len" "load_le 4 m (p + offset) \<noteq> ACPI_RESOURCE_TYPE_END_TAG" "load_le 4 m (p + offset + 4) = (0 :: u32)"
  shows "resource_loop m p len offset out = None"
proof -
  have "m' = m \<and> p' = p \<and> len' = len \<longrightarrow> offset' \<noteq> offset" if "resource_loop m' p' len' offset' out = Some r"
    for m' p' len' offset' out r
    using that
  proof (rule resource_loop.raw_induct [where P = "\<lambda>m' p' len' offset' out r. m' = m \<and> p' = p \<and> len' = len \<longrightarrow> offset' \<noteq> offset", rotated])
    fix loop m' p' len' offset' out r
    assume IH: "\<And>m' p' len' offset' out r. loop m' p' len' offset' out = Some r \<Longrightarrow> m' = m \<and> p' = p \<and> len' = len \<longrightarrow> offset' \<noteq> offset"
      and r: "(if offset' < len' then
         let r = p' + offset' in
         if load_le 4 m' r = ACPI_RESOURCE_TYPE_END_TAG then Some out
         else loop m' p' len' (offset' + ucast (load_le 4 m' (r + 4) :: u32)) (out @ resource_reports m' r)
       else Some out) = Some r"
    show "m' = m \<and> p' = p \<and> len' = len \<longrightarrow> offset' \<noteq> offset"
    proof (intro impI notI)
      assume "m' = m \<and> p' = p \<and> len' = len" "offset' = offset"
      then have "loop m p len offset (out @ resource_reports m (p + offset)) = Some r"
        using r assms by (simp add: Let_def)
      then show False using IH by blast
    qed
  qed
  from this [of m p len offset out] show ?thesis by (cases "resource_loop m p len offset out") auto
qed

end
