(* ===== verification/Hw_Osl.thy ===== *)
theory Hw_Osl
  imports Hw_Pci
begin

text \<open>
  The services of \<^verbatim>\<open>kernel/hw/osl.c\<close> that do little: they note where the task finds its channels,
  hand a call on to the allocator or to the debug output, or answer without doing anything (their
  bodies are a message that says so, which is left out).  Those with an effect are in \<open>Hw_Pci\<close>, the
  search for the root pointer is in \<open>Acpi_Root\<close>.
\<close>

section \<open>What the task knows of itself\<close>

record osl_state =
  this_id :: u64
  schedin :: ptr
  schedout :: ptr

text \<open>\<open>gs\<close>: the words at the offsets of the \<^verbatim>\<open>gs\<close> segment.\<close>

definition AcpiOsInitialize :: "(u64 \<Rightarrow> u64) \<Rightarrow> osl_state \<Rightarrow> osl_state \<times> acpi_status" where
  "AcpiOsInitialize gs s = (s\<lparr>this_id := gs 0x00, schedin := gs 0x08, schedout := gs 0x10\<rparr>, 0)"

definition AcpiOsGetThreadId :: "osl_state \<Rightarrow> u64" where "AcpiOsGetThreadId s = this_id s"

section \<open>The allocator\<close>

text \<open>\<open>heap_alloc\<close> and \<open>heap_free\<close> are those of the task, on a heap of type \<open>'h\<close>.\<close>

definition AcpiOsAllocate :: "('h \<Rightarrow> u64 \<Rightarrow> 'h \<times> ptr) \<Rightarrow> 'h \<Rightarrow> u64 \<Rightarrow> 'h \<times> ptr" where
  "AcpiOsAllocate heap_alloc h Size = heap_alloc h Size"

definition AcpiOsFree :: "('h \<Rightarrow> ptr \<Rightarrow> 'h) \<Rightarrow> 'h \<Rightarrow> ptr \<Rightarrow> 'h" where
  "AcpiOsFree heap_free h Memory = heap_free h Memory"

definition AcpiOsDeleteSemaphore :: "('h \<Rightarrow> ptr \<Rightarrow> 'h) \<Rightarrow> 'h \<Rightarrow> ptr \<Rightarrow> 'h \<times> acpi_status" where
  "AcpiOsDeleteSemaphore heap_free h Handle = (heap_free h Handle, 0)"

definition AcpiOsDeleteLock :: "('h \<Rightarrow> ptr \<Rightarrow> 'h) \<Rightarrow> 'h \<Rightarrow> ptr \<Rightarrow> 'h" where
  "AcpiOsDeleteLock heap_free h Handle = heap_free h Handle"

section \<open>Output\<close>

definition AcpiOsVprintf :: "(u64 \<Rightarrow> u8 list) \<Rightarrow> 'a io_state_scheme \<Rightarrow> u8 list \<Rightarrow> u64 list \<Rightarrow> 'a io_state_scheme run" where
  "AcpiOsVprintf str s Format va = d_vprintf str s Format va"

definition AcpiOsPrintf :: "(u64 \<Rightarrow> u8 list) \<Rightarrow> 'a io_state_scheme \<Rightarrow> u8 list \<Rightarrow> u64 list \<Rightarrow> 'a io_state_scheme run" where
  "AcpiOsPrintf str s Format va = d_vprintf str s Format va"

section \<open>Services without an effect\<close>

text \<open>What a caller passes a pointer to for an answer stays what it was.\<close>

definition AcpiOsUnmapMemory :: "'s \<Rightarrow> 's" where "AcpiOsUnmapMemory s = s"
definition AcpiOsGetPhysicalAddress :: "u64 \<Rightarrow> u64 \<times> acpi_status" where
  "AcpiOsGetPhysicalAddress PhysicalAddress = (PhysicalAddress, 0)"
definition AcpiOsWritePciConfiguration :: acpi_status where "AcpiOsWritePciConfiguration = 0"
definition AcpiOsReadable :: u8 where "AcpiOsReadable = 0"
definition AcpiOsWritable :: u8 where "AcpiOsWritable = 0"
definition AcpiOsGetTimer :: u64 where "AcpiOsGetTimer = 0"
definition AcpiOsSignal :: acpi_status where "AcpiOsSignal = 0"
definition AcpiOsExecute :: "'s \<Rightarrow> 's \<times> acpi_status" where "AcpiOsExecute s = (s, 0)"
definition AcpiOsWaitEventsComplete :: "'s \<Rightarrow> 's" where "AcpiOsWaitEventsComplete s = s"
definition AcpiOsSleep :: "'s \<Rightarrow> 's" where "AcpiOsSleep s = s"
definition AcpiOsStall :: "'s \<Rightarrow> 's" where "AcpiOsStall s = s"
definition AcpiOsReadMemory :: "u64 \<Rightarrow> u64 \<times> acpi_status" where "AcpiOsReadMemory Value = (Value, 0)"
definition AcpiOsWriteMemory :: "'s \<Rightarrow> 's \<times> acpi_status" where "AcpiOsWriteMemory s = (s, 0)"
definition AcpiOsRemoveInterruptHandler :: "'s \<Rightarrow> 's \<times> acpi_status" where "AcpiOsRemoveInterruptHandler s = (s, 0)"

end
