(* ===== verification/Acpi_Owner.thy ===== *)
theory Acpi_Owner
  imports Refk_Prelude
begin

text \<open>
  Owner ids of the ACPI subsystem (\<^verbatim>\<open>kernel/hw/acpica/utownerid.c\<close>): one bit for each id in an
  array of eight 32-bit masks, searched round-robin from the last id handed out.  Also the status
  codes the ACPI theories share (\<^verbatim>\<open>acexcep.h\<close>).  What \<^verbatim>\<open>AcpiUtAcquireMutex\<close> answers is an
  argument.
\<close>

section \<open>Status codes\<close>

definition EXCEP_ENV :: "u32 \<Rightarrow> u32" where "EXCEP_ENV code = code OR 0"
definition EXCEP_PGM :: "u32 \<Rightarrow> u32" where "EXCEP_PGM code = code OR 0x1000"
definition EXCEP_TBL :: "u32 \<Rightarrow> u32" where "EXCEP_TBL code = code OR 0x2000"
definition EXCEP_AML :: "u32 \<Rightarrow> u32" where "EXCEP_AML code = code OR 0x3000"

definition AE_OK :: u32 where "AE_OK = 0"
definition AE_NOT_FOUND :: u32 where "AE_NOT_FOUND = EXCEP_ENV 0x5"
definition AE_ALREADY_EXISTS :: u32 where "AE_ALREADY_EXISTS = EXCEP_ENV 0x7"
definition AE_LIMIT :: u32 where "AE_LIMIT = EXCEP_ENV 0x10"
definition AE_OWNER_ID_LIMIT :: u32 where "AE_OWNER_ID_LIMIT = EXCEP_ENV 0x1B"
definition AE_BAD_PARAMETER :: u32 where "AE_BAD_PARAMETER = EXCEP_PGM 0x1"
definition AE_BAD_SIGNATURE :: u32 where "AE_BAD_SIGNATURE = EXCEP_TBL 0x1"
definition AE_BAD_CHECKSUM :: u32 where "AE_BAD_CHECKSUM = EXCEP_TBL 0x3"
definition AE_AML_INVALID_RESOURCE_TYPE :: u32 where "AE_AML_INVALID_RESOURCE_TYPE = EXCEP_AML 0x17"
definition AE_AML_NO_RESOURCE_END_TAG :: u32 where "AE_AML_NO_RESOURCE_END_TAG = EXCEP_AML 0x1C"
definition AE_AML_BAD_RESOURCE_LENGTH :: u32 where "AE_AML_BAD_RESOURCE_LENGTH = EXCEP_AML 0x1F"
definition AE_AML_ILLEGAL_ADDRESS :: u32 where "AE_AML_ILLEGAL_ADDRESS = EXCEP_AML 0x20"

lemmas acpi_status = EXCEP_ENV_def EXCEP_PGM_def EXCEP_TBL_def EXCEP_AML_def AE_OK_def AE_NOT_FOUND_def
  AE_ALREADY_EXISTS_def AE_LIMIT_def AE_OWNER_ID_LIMIT_def AE_BAD_PARAMETER_def AE_BAD_SIGNATURE_def
  AE_BAD_CHECKSUM_def AE_AML_INVALID_RESOURCE_TYPE_def AE_AML_NO_RESOURCE_END_TAG_def
  AE_AML_BAD_RESOURCE_LENGTH_def AE_AML_ILLEGAL_ADDRESS_def

definition ACPI_FAILURE :: "u32 \<Rightarrow> bool" where "ACPI_FAILURE a \<longleftrightarrow> a \<noteq> 0"

section \<open>The masks\<close>

definition ACPI_NUM_OWNERID_MASKS :: nat where "ACPI_NUM_OWNERID_MASKS = 8"

record owner_ids =
  AcpiGbl_OwnerIdMask :: "u32 list"
  AcpiGbl_LastOwnerIdIndex :: u8
  AcpiGbl_NextOwnerIdOffset :: u8

text \<open>The owner-id part of \<^verbatim>\<open>AcpiUtInitGlobals\<close>.\<close>

definition owner_ids_init :: owner_ids where
  "owner_ids_init =
     \<lparr>AcpiGbl_OwnerIdMask = (replicate ACPI_NUM_OWNERID_MASKS 0)[ACPI_NUM_OWNERID_MASKS - 1 := 0x80000000],
      AcpiGbl_LastOwnerIdIndex = 0, AcpiGbl_NextOwnerIdOffset = 0\<rparr>"

definition ACPI_DIV_32 :: "u8 \<Rightarrow> nat" where "ACPI_DIV_32 a = unat (drop_bit 5 a)"
definition ACPI_MOD_32 :: "u8 \<Rightarrow> nat" where "ACPI_MOD_32 a = unat (a AND 31)"

text \<open>
  \<^verbatim>\<open>for (k = AcpiGbl_NextOwnerIdOffset; k < 32; k++)\<close>: the first clear bit of a mask from \<open>k\<close> on.
\<close>

function free_bit :: "u32 \<Rightarrow> nat \<Rightarrow> nat option" where
  "free_bit m k =
     (if k < 32 then
        (if m = 0xFFFFFFFF then None
         else if m AND push_bit k 1 = 0 then Some k
         else free_bit m (k + 1))
      else None)"
  by pat_completeness auto

termination by (relation "measure (\<lambda>(m, k). 32 - k)") auto

declare free_bit.simps [simp del]

text \<open>\<^verbatim>\<open>for (i = 0, j = AcpiGbl_LastOwnerIdIndex; i < ACPI_NUM_OWNERID_MASKS + 1; i++, j++)\<close>; the fuel is what is left of \<open>i\<close>.\<close>

fun mask_loop :: "nat \<Rightarrow> nat \<Rightarrow> owner_ids \<Rightarrow> owner_ids \<times> u8 option" where
  "mask_loop 0 j st = (st, None)"
| "mask_loop (Suc i) j st =
     (let j = (if j \<ge> ACPI_NUM_OWNERID_MASKS then 0 else j);
          m = AcpiGbl_OwnerIdMask st ! j
      in case free_bit m (unat (AcpiGbl_NextOwnerIdOffset st)) of
           Some k \<Rightarrow>
             (st\<lparr>AcpiGbl_OwnerIdMask := (AcpiGbl_OwnerIdMask st)[j := m OR push_bit k 1],
                 AcpiGbl_LastOwnerIdIndex := of_nat j, AcpiGbl_NextOwnerIdOffset := of_nat (k + 1)\<rparr>,
              Some (of_nat ((k + 1) + 32 * j)))
         | None \<Rightarrow> mask_loop i (j + 1) (st\<lparr>AcpiGbl_NextOwnerIdOffset := 0\<rparr>))"

definition AcpiUtAllocateOwnerId :: "owner_ids \<Rightarrow> u32 \<Rightarrow> u8 \<Rightarrow> owner_ids \<times> u8 \<times> u32" where
  "AcpiUtAllocateOwnerId st mutex OwnerId =
     (if OwnerId \<noteq> 0 then (st, OwnerId, AE_ALREADY_EXISTS)
      else if ACPI_FAILURE mutex then (st, OwnerId, mutex)
      else case mask_loop (ACPI_NUM_OWNERID_MASKS + 1) (unat (AcpiGbl_LastOwnerIdIndex st)) st of
             (st, Some new) \<Rightarrow> (st, new, mutex)
           | (st, None) \<Rightarrow> (st, OwnerId, AE_OWNER_ID_LIMIT))"

definition AcpiUtReleaseOwnerId :: "owner_ids \<Rightarrow> u32 \<Rightarrow> u8 \<Rightarrow> owner_ids \<times> u8" where
  "AcpiUtReleaseOwnerId st mutex OwnerId =
     (if OwnerId = 0 then (st, 0)
      else if ACPI_FAILURE mutex then (st, 0)
      else
        (let OwnerId = OwnerId - 1;
             Index = ACPI_DIV_32 OwnerId;
             Bit = push_bit (ACPI_MOD_32 OwnerId) 1;
             m = AcpiGbl_OwnerIdMask st ! Index
         in if m AND Bit \<noteq> 0 then (st\<lparr>AcpiGbl_OwnerIdMask := (AcpiGbl_OwnerIdMask st)[Index := m XOR Bit]\<rparr>, 0)
            else (st, 0)))"

section \<open>The masks are a set of ids\<close>

text \<open>Id \<open>n + 1\<close> is in use when bit \<open>n\<close> of the masks is set; bit 255 is never an id.\<close>

definition mask_bit :: "owner_ids \<Rightarrow> nat \<Rightarrow> bool" where
  "mask_bit st n \<longleftrightarrow> bit (AcpiGbl_OwnerIdMask st ! (n div 32)) (n mod 32)"

definition owners :: "owner_ids \<Rightarrow> nat set" where
  "owners st = {n. 1 \<le> n \<and> n \<le> 255 \<and> mask_bit st (n - 1)}"

definition owner_ids_ok :: "owner_ids \<Rightarrow> bool" where
  "owner_ids_ok st \<longleftrightarrow> length (AcpiGbl_OwnerIdMask st) = 8 \<and> unat (AcpiGbl_LastOwnerIdIndex st) < 8 \<and>
     unat (AcpiGbl_NextOwnerIdOffset st) \<le> 32 \<and> mask_bit st 255"

lemma and_push_bit_0: "m AND push_bit k 1 = 0 \<longleftrightarrow> \<not> bit m k" if "k < 32" for m :: u32
proof
  assume z: "m AND push_bit k 1 = 0"
  have "bit (m AND push_bit k 1) k \<longleftrightarrow> bit m k" using that by (simp add: bit_simps)
  moreover have "\<not> bit (m AND push_bit k 1) k" unfolding z by simp
  ultimately show "\<not> bit m k" by blast
next
  assume "\<not> bit m k"
  then show "m AND push_bit k 1 = 0" by (intro bit_word_eqI) (auto simp: bit_simps)
qed

lemma full_mask: "m = 0xFFFFFFFF \<longleftrightarrow> (\<forall>k < 32. bit m k)" for m :: u32
proof
  have f: "(0xFFFFFFFF :: u32) = - 1" by simp
  show "m = 0xFFFFFFFF \<Longrightarrow> \<forall>k < 32. bit m k" unfolding f by (simp add: bit_simps)
  show "\<forall>k < 32. bit m k \<Longrightarrow> m = 0xFFFFFFFF" unfolding f by (intro bit_word_eqI) (simp add: bit_simps)
qed

lemma free_bit_cases:
  "case free_bit m k of
     Some n \<Rightarrow> k \<le> n \<and> n < 32 \<and> \<not> bit m n
   | None \<Rightarrow> \<forall>n. k \<le> n \<and> n < 32 \<longrightarrow> bit m n"
proof (induction m k rule: free_bit.induct)
  case (1 m k)
  show ?case
  proof (cases "k < 32 \<and> m \<noteq> 0xFFFFFFFF \<and> m AND push_bit k 1 \<noteq> 0")
    case True
    then have IH: "case free_bit m (k + 1) of Some n \<Rightarrow> k + 1 \<le> n \<and> n < 32 \<and> \<not> bit m n
      | None \<Rightarrow> \<forall>n. k + 1 \<le> n \<and> n < 32 \<longrightarrow> bit m n" using 1 by blast
    have e: "free_bit m k = free_bit m (k + 1)" using True by (subst free_bit.simps) simp
    have "bit m k" using True and_push_bit_0 by blast
    then have "bit m n" if "n = k" for n using that by simp
    moreover have "k \<le> n \<longleftrightarrow> n = k \<or> k + 1 \<le> n" for n by auto
    ultimately show ?thesis using IH unfolding e by (auto split: option.splits)
  next
    case False
    then show ?thesis using full_mask [of m] and_push_bit_0 [of k m] by (subst free_bit.simps) auto
  qed
qed

text \<open>Setting and clearing a bit.\<close>

lemma mask_bit_set:
  assumes "length (AcpiGbl_OwnerIdMask st) = 8" "j < 8" "k < 32" "n < 256"
    and "AcpiGbl_OwnerIdMask st' = (AcpiGbl_OwnerIdMask st)[j := AcpiGbl_OwnerIdMask st ! j OR push_bit k 1]"
  shows "mask_bit st' n \<longleftrightarrow> mask_bit st n \<or> n = 32 * j + k"
proof -
  have "n = 32 * j + k \<longleftrightarrow> n div 32 = j \<and> n mod 32 = k" using assms(3) by auto
  then show ?thesis
    using assms by (auto simp: mask_bit_def nth_list_update bit_simps)
qed

lemma mask_bit_flip:
  assumes "length (AcpiGbl_OwnerIdMask st) = 8" "j < 8" "k < 32" "n < 256"
    and "AcpiGbl_OwnerIdMask st' = (AcpiGbl_OwnerIdMask st)[j := AcpiGbl_OwnerIdMask st ! j XOR push_bit k 1]"
  shows "mask_bit st' n \<longleftrightarrow> (if n = 32 * j + k then \<not> mask_bit st n else mask_bit st n)"
proof -
  have "n = 32 * j + k \<longleftrightarrow> n div 32 = j \<and> n mod 32 = k" using assms(3) by auto
  then show ?thesis
    using assms by (auto simp: mask_bit_def nth_list_update bit_simps)
qed

text \<open>
  The search: it finds a clear bit, or every bit it has looked at is set, which is all of them
  once it has gone round.
\<close>

definition allocated :: "owner_ids \<Rightarrow> owner_ids \<Rightarrow> nat \<Rightarrow> nat \<Rightarrow> bool" where
  "allocated st st' j k \<longleftrightarrow> j < 8 \<and> k < 32 \<and> \<not> bit (AcpiGbl_OwnerIdMask st ! j) k \<and>
     st' = \<lparr>AcpiGbl_OwnerIdMask = (AcpiGbl_OwnerIdMask st)[j := AcpiGbl_OwnerIdMask st ! j OR push_bit k 1],
       AcpiGbl_LastOwnerIdIndex = of_nat j, AcpiGbl_NextOwnerIdOffset = of_nat (k + 1)\<rparr>"

lemma mask_loop_spec:
  assumes "j \<le> 8"
  shows "case mask_loop i j st of
      (st', Some n) \<Rightarrow> \<exists>j k. n = of_nat ((k + 1) + 32 * j) \<and> allocated st st' j k
    | (st', None) \<Rightarrow> AcpiGbl_OwnerIdMask st' = AcpiGbl_OwnerIdMask st \<and>
        AcpiGbl_LastOwnerIdIndex st' = AcpiGbl_LastOwnerIdIndex st \<and>
        unat (AcpiGbl_NextOwnerIdOffset st') \<le> unat (AcpiGbl_NextOwnerIdOffset st) \<and>
        (\<forall>d < i. \<forall>k < 32. d \<noteq> 0 \<or> unat (AcpiGbl_NextOwnerIdOffset st) \<le> k \<longrightarrow>
           bit (AcpiGbl_OwnerIdMask st ! ((j + d) mod 8)) k)"
  using assms
proof (induction i arbitrary: j st)
  case (Suc i)
  define j' where "j' = (if 8 \<le> j then 0 else j)"
  let ?j = j' and ?o = "unat (AcpiGbl_NextOwnerIdOffset st)"
  have j: "?j < 8" "?j = j mod 8" using Suc.prems by (auto simp: le_less j'_def)
  let ?st = "st\<lparr>AcpiGbl_NextOwnerIdOffset := 0\<rparr>"
  note F = free_bit_cases [where m = "AcpiGbl_OwnerIdMask st ! ?j" and k = ?o]
  show ?case
  proof (cases "free_bit (AcpiGbl_OwnerIdMask st ! ?j) ?o")
    case (Some k)
    then obtain st' where "mask_loop (Suc i) j st = (st', Some (of_nat ((k + 1) + 32 * ?j)))" "allocated st st' ?j k"
      using F j(1) by (simp add: allocated_def ACPI_NUM_OWNERID_MASKS_def Let_def j'_def)
    moreover from this(2) have "\<exists>j' k'. (of_nat ((k + 1) + 32 * ?j) :: u8) = of_nat ((k' + 1) + 32 * j') \<and> allocated st st' j' k'"
      by blast
    ultimately show ?thesis by (simp only: prod.case option.case)
  next
    case None
    have e: "mask_loop (Suc i) j st = mask_loop i (?j + 1) ?st"
      using None by (simp add: ACPI_NUM_OWNERID_MASKS_def Let_def j'_def)
    have first: "\<forall>k < 32. ?o \<le> k \<longrightarrow> bit (AcpiGbl_OwnerIdMask st ! (j mod 8)) k" using F None j(2) by auto
    have step: "(?j + 1 + d) mod 8 = (j + Suc d) mod 8" for d
      using mod_add_left_eq [of j 8 "1 + d"] unfolding j(2) by (simp add: add.assoc)
    have IH: "case mask_loop i (?j + 1) ?st of
      (st', Some n) \<Rightarrow> \<exists>j k. n = of_nat ((k + 1) + 32 * j) \<and> allocated ?st st' j k
    | (st', None) \<Rightarrow> AcpiGbl_OwnerIdMask st' = AcpiGbl_OwnerIdMask ?st \<and>
        AcpiGbl_LastOwnerIdIndex st' = AcpiGbl_LastOwnerIdIndex ?st \<and>
        unat (AcpiGbl_NextOwnerIdOffset st') \<le> unat (AcpiGbl_NextOwnerIdOffset ?st) \<and>
        (\<forall>d < i. \<forall>k < 32. d \<noteq> 0 \<or> unat (AcpiGbl_NextOwnerIdOffset ?st) \<le> k \<longrightarrow>
           bit (AcpiGbl_OwnerIdMask ?st ! ((?j + 1 + d) mod 8)) k)"
      by (rule Suc.IH) (use j(1) in linarith)
    show ?thesis
    proof (cases "snd (mask_loop i (?j + 1) ?st)")
      case None
      then obtain st' where m: "mask_loop i (?j + 1) ?st = (st', None)" by (metis prod.collapse)
      have "bit (AcpiGbl_OwnerIdMask st ! ((j + d) mod 8)) k" if "d < Suc i" "k < 32" "d \<noteq> 0 \<or> ?o \<le> k" for d k
      proof (cases d)
        case 0
        then show ?thesis using first that by simp
      next
        case (Suc d')
        then show ?thesis using IH that unfolding m step by simp
      qed
      then show ?thesis using IH unfolding e m by simp
    next
      case (Some n)
      then obtain st' where m: "mask_loop i (?j + 1) ?st = (st', Some n)" by (metis prod.collapse)
      show ?thesis using IH unfolding e m by (simp add: allocated_def)
    qed
  qed
qed simp

lemma owners_init: "owners owner_ids_init = {}" "owner_ids_ok owner_ids_init"
proof -
  have b: "bit (0x80000000 :: u32) k \<longleftrightarrow> k = 31" for k
  proof -
    have "(0x80000000 :: u32) = push_bit 31 1" by simp
    then show ?thesis by (simp only: bit_push_bit_iff bit_1_iff) auto
  qed
  have m: "mask_bit owner_ids_init n \<longleftrightarrow> n = 255" if "n < 256" for n
  proof -
    have "n div 32 < 8" using that by simp
    then have "AcpiGbl_OwnerIdMask owner_ids_init ! (n div 32) = (if n div 32 = 7 then 0x80000000 else 0)"
      by (simp add: owner_ids_init_def ACPI_NUM_OWNERID_MASKS_def nth_list_update)
    then have "mask_bit owner_ids_init n \<longleftrightarrow> n div 32 = 7 \<and> n mod 32 = 31" by (simp only: mask_bit_def b split: if_split) simp
    moreover have "n div 32 = 7 \<and> n mod 32 = 31 \<longleftrightarrow> n = 255" by presburger
    ultimately show ?thesis by simp
  qed
  show "owners owner_ids_init = {}" by (auto simp: owners_def m)
  show "owner_ids_ok owner_ids_init" using m [of 255]
    by (simp add: owner_ids_ok_def) (simp add: owner_ids_init_def ACPI_NUM_OWNERID_MASKS_def)
qed

lemma round_trip_index:
  assumes "(j :: nat) < 8" "i < 8"
  shows "\<exists>d. d < 9 \<and> d \<noteq> 0 \<and> (j + d) mod 8 = i"
  using assms by (intro exI [of _ "if j < i then i - j else i + 8 - j"]) auto

lemma allocate_ok:
  assumes ok: "owner_ids_ok st"
  shows "(if owners st = {1..255} then \<exists>st'. AcpiUtAllocateOwnerId st 0 0 = (st', 0, AE_OWNER_ID_LIMIT) \<and>
       owners st' = owners st \<and> owner_ids_ok st'
     else \<exists>st' n. AcpiUtAllocateOwnerId st 0 0 = (st', n, AE_OK) \<and> unat n \<in> {1..255} - owners st \<and>
       owners st' = insert (unat n) (owners st) \<and> owner_ids_ok st')"
proof -
  have O: "length (AcpiGbl_OwnerIdMask st) = 8" "unat (AcpiGbl_LastOwnerIdIndex st) < 8"
    "unat (AcpiGbl_NextOwnerIdOffset st) \<le> 32" "mask_bit st 255" using ok by (auto simp: owner_ids_ok_def)
  let ?j = "unat (AcpiGbl_LastOwnerIdIndex st)"
  let ?r = "mask_loop (ACPI_NUM_OWNERID_MASKS + 1) ?j st"
  note M = mask_loop_spec [where j = ?j and i = 9 and st = st]
  show ?thesis
  proof (cases "snd ?r")
    case None
    then obtain st' where r: "mask_loop 9 ?j st = (st', None)"
      by (cases ?r) (simp add: ACPI_NUM_OWNERID_MASKS_def)
    have N: "AcpiGbl_OwnerIdMask st' = AcpiGbl_OwnerIdMask st" "AcpiGbl_LastOwnerIdIndex st' = AcpiGbl_LastOwnerIdIndex st"
      "unat (AcpiGbl_NextOwnerIdOffset st') \<le> unat (AcpiGbl_NextOwnerIdOffset st)"
      "\<And>d k. d < 9 \<Longrightarrow> k < 32 \<Longrightarrow> d \<noteq> 0 \<Longrightarrow> bit (AcpiGbl_OwnerIdMask st ! ((?j + d) mod 8)) k"
      using M O(2) unfolding r by auto
    have all: "mask_bit st n" if n: "n < 256" for n
    proof -
      have "n div 32 < 8" using n by simp
      then obtain d where d: "d < 9" "d \<noteq> 0" "(?j + d) mod 8 = n div 32"
        using O(2) round_trip_index [of ?j "n div 32"] by blast
      show ?thesis using N(4) [OF d(1) _ d(2), of "n mod 32"] by (simp add: mask_bit_def d(3))
    qed
    then have full: "owners st = {1..255}" by (auto simp: owners_def)
    have "owners st' = owners st" "owner_ids_ok st'"
      using N O by (simp_all add: owners_def owner_ids_ok_def mask_bit_def)
    then show ?thesis
      using full r by (simp add: AcpiUtAllocateOwnerId_def ACPI_FAILURE_def ACPI_NUM_OWNERID_MASKS_def)
  next
    case (Some n)
    then obtain st' where r: "mask_loop 9 ?j st = (st', Some n)"
      by (cases ?r) (simp add: ACPI_NUM_OWNERID_MASKS_def)
    obtain j k where J: "n = of_nat ((k + 1) + 32 * j)" "allocated st st' j k" using M O(2) unfolding r by auto
    then have jk: "j < 8" "k < 32" and clear: "\<not> mask_bit st (32 * j + k)"
      and st': "AcpiGbl_OwnerIdMask st' = (AcpiGbl_OwnerIdMask st)[j := AcpiGbl_OwnerIdMask st ! j OR push_bit k 1]"
      "AcpiGbl_LastOwnerIdIndex st' = of_nat j" "AcpiGbl_NextOwnerIdOffset st' = of_nat (k + 1)"
      by (auto simp: allocated_def mask_bit_def)
    have lt: "32 * j + k < 255"
    proof -
      have "32 * j + k \<noteq> 255" using clear O(4) by auto
      then show ?thesis using jk by linarith
    qed
    have u: "unat n = 32 * j + k + 1" unfolding J(1) unat_of_nat using lt by simp
    have bits: "mask_bit st' m \<longleftrightarrow> mask_bit st m \<or> m = 32 * j + k" if "m < 256" for m
      by (rule mask_bit_set [OF O(1) jk that st'(1)])
    have "owners st' = insert (unat n) (owners st)" using lt bits by (auto simp: owners_def u)
    moreover have "unat n \<in> {1..255} - owners st" using lt clear by (simp add: owners_def u)
    moreover have "unat (of_nat (k + 1) :: u8) \<le> 32" unfolding unat_of_nat using jk by simp
    then have "owner_ids_ok st'" using O jk bits [of 255] by (simp add: owner_ids_ok_def st' unat_of_nat del: of_nat_Suc of_nat_add)
    ultimately show ?thesis
      using r by (auto simp: AcpiUtAllocateOwnerId_def ACPI_FAILURE_def ACPI_NUM_OWNERID_MASKS_def AE_OK_def)
  qed
qed

lemma release_ok:
  assumes ok: "owner_ids_ok st"
  shows "\<exists>st'. AcpiUtReleaseOwnerId st 0 n = (st', 0) \<and> owners st' = owners st - {unat n} \<and> owner_ids_ok st'"
proof (cases "n = 0")
  case True
  then show ?thesis using ok by (simp add: AcpiUtReleaseOwnerId_def owners_def)
next
  case False
  have O: "length (AcpiGbl_OwnerIdMask st) = 8" "unat (AcpiGbl_LastOwnerIdIndex st) < 8"
    "unat (AcpiGbl_NextOwnerIdOffset st) \<le> 32" "mask_bit st 255" using ok by (auto simp: owner_ids_ok_def)
  have pos: "0 < unat n" using False by (simp add: unat_gt_0)
  have u: "unat (n - 1) = unat n - 1" using False by (simp add: unat_minus_one)
  have lt: "unat n < 256" using unsigned_less [of n] by simp
  have k31: "(31 :: u8) = mask 5" by (simp add: mask_eq_exp_minus_1)
  have d: "ACPI_DIV_32 (n - 1) = (unat n - 1) div 32" "ACPI_MOD_32 (n - 1) = (unat n - 1) mod 32"
    unfolding ACPI_DIV_32_def ACPI_MOD_32_def k31 and_mask_unat by (simp_all add: drop_bit_eq_div unat_div u)
  let ?j = "(unat n - 1) div 32" and ?k = "(unat n - 1) mod 32"
  have jk: "?j < 8" "?k < 32" using lt by auto
  have n: "32 * ?j + ?k = unat n - 1" by simp
  let ?m = "AcpiGbl_OwnerIdMask st ! ?j"
  show ?thesis
  proof (cases "bit ?m ?k")
    case True
    let ?st = "st\<lparr>AcpiGbl_OwnerIdMask := (AcpiGbl_OwnerIdMask st)[?j := ?m XOR push_bit ?k 1]\<rparr>"
    have r: "AcpiUtReleaseOwnerId st 0 n = (?st, 0)"
      using False True and_push_bit_0 [OF jk(2), of ?m] by (simp add: AcpiUtReleaseOwnerId_def ACPI_FAILURE_def Let_def d)
    have bits: "mask_bit ?st i \<longleftrightarrow> (if i = unat n - 1 then \<not> mask_bit st i else mask_bit st i)" if "i < 256" for i
      using mask_bit_flip [OF O(1) jk that, of ?st] by (simp only: n) simp
    have b: "mask_bit st (unat n - 1)" using True by (simp add: mask_bit_def)
    have "m \<in> owners ?st \<longleftrightarrow> m \<in> owners st - {unat n}" for m
    proof (cases "1 \<le> m \<and> m \<le> 255")
      case True
      then have "m - 1 = unat n - 1 \<longleftrightarrow> m = unat n" "m - 1 < 256" using pos by auto
      then show ?thesis using True bits [of "m - 1"] b by (auto simp: owners_def)
    qed (auto simp: owners_def)
    then have "owners ?st = owners st - {unat n}" by blast
    moreover have "owner_ids_ok ?st" using O bits [of 255] lt by (simp add: owner_ids_ok_def)
    ultimately show ?thesis using r by blast
  next
    case no: False
    have r: "AcpiUtReleaseOwnerId st 0 n = (st, 0)"
      using False no and_push_bit_0 [OF jk(2), of ?m] by (simp add: AcpiUtReleaseOwnerId_def ACPI_FAILURE_def Let_def d)
    have "\<not> mask_bit st (unat n - 1)" using no by (simp add: mask_bit_def)
    then have "owners st - {unat n} = owners st" by (auto simp: owners_def)
    then show ?thesis using r ok by simp
  qed
qed

section \<open>Properties\<close>

text \<open>What the code that loads and unloads tables and runs methods asks for.\<close>

datatype owner_call = Allocate | Release u8

fun owner_step :: "owner_ids \<Rightarrow> owner_call \<Rightarrow> owner_ids \<times> u8 \<times> u32" where
  "owner_step st Allocate = AcpiUtAllocateOwnerId st 0 0"
| "owner_step st (Release n) = (case AcpiUtReleaseOwnerId st 0 n of (st, p) \<Rightarrow> (st, p, AE_OK))"

text \<open>The specification: a set of ids, an allocation being allowed any that is free.\<close>

inductive owner_trace :: "nat set \<Rightarrow> (owner_call \<times> u8 \<times> u32) list \<Rightarrow> nat set \<Rightarrow> bool" where
  stop: "owner_trace live [] live"
| allocate: "unat n \<in> {1..255} - live \<Longrightarrow> owner_trace (insert (unat n) live) tr live' \<Longrightarrow>
    owner_trace live ((Allocate, n, AE_OK) # tr) live'"
| limit: "live = {1..255} \<Longrightarrow> owner_trace live tr live' \<Longrightarrow>
    owner_trace live ((Allocate, 0, AE_OWNER_ID_LIMIT) # tr) live'"
| release: "owner_trace (live - {unat n}) tr live' \<Longrightarrow> owner_trace live ((Release n, 0, AE_OK) # tr) live'"

fun run_owner :: "owner_ids \<Rightarrow> owner_call list \<Rightarrow> owner_ids \<times> (owner_call \<times> u8 \<times> u32) list" where
  "run_owner st [] = (st, [])"
| "run_owner st (c # cs) =
     (case owner_step st c of (st, r) \<Rightarrow> (case run_owner st cs of (st, tr) \<Rightarrow> (st, (c, r) # tr)))"

lemma run_owner_trace:
  "owner_ids_ok st \<Longrightarrow> case run_owner st cs of (st', tr) \<Rightarrow> owner_trace (owners st) tr (owners st') \<and> owner_ids_ok st'"
proof (induction cs arbitrary: st)
  case Nil
  then show ?case by (simp add: stop)
next
  case (Cons c cs)
  show ?case
  proof (cases c)
    case Allocate
    show ?thesis
    proof (cases "owners st = {1..255}")
      case True
      then obtain st' where S: "AcpiUtAllocateOwnerId st 0 0 = (st', 0, AE_OWNER_ID_LIMIT)" "owners st' = owners st" "owner_ids_ok st'"
        using allocate_ok [OF Cons.prems] by auto
      then show ?thesis using Cons.IH [OF S(3)] Allocate True by (auto split: prod.splits intro: owner_trace.limit)
    next
      case False
      then obtain st' n where S: "AcpiUtAllocateOwnerId st 0 0 = (st', n, AE_OK)" "unat n \<in> {1..255} - owners st"
        "owners st' = insert (unat n) (owners st)" "owner_ids_ok st'"
        using allocate_ok [OF Cons.prems] by auto
      show ?thesis
        using Cons.IH [OF S(4)] Allocate S(1) owner_trace.allocate [OF S(2)] S(3) by (simp split: prod.splits)
    qed
  next
    case (Release n)
    then obtain st' where S: "AcpiUtReleaseOwnerId st 0 n = (st', 0)" "owners st' = owners st - {unat n}" "owner_ids_ok st'"
      using release_ok [OF Cons.prems, of n] by auto
    then show ?thesis using Cons.IH [OF S(3)] Release by (auto split: prod.splits intro: owner_trace.release)
  qed
qed

text \<open>
  C18: the owner ids are a set: from the initial masks, whatever is allocated and released, each
  allocation answers an id from 1 to 255 that nobody holds, and the limit only when all 255 are
  held; an id can be handed out again once it is released, and releasing an id that is not held
  changes nothing.
\<close>

theorem owner_ids_are_set:
  "case run_owner owner_ids_init calls of (st, tr) \<Rightarrow> owner_trace {} tr (owners st)"
  using run_owner_trace [OF owners_init(2), of calls] by (simp add: owners_init(1) split: prod.splits)

end
