(* ===== verification/Acpi_Resource.thy ===== *)
theory Acpi_Resource
  imports Acpi_Owner
begin

text \<open>
  Resource templates (\<^verbatim>\<open>kernel/hw/acpica/utresrc.c\<close>): the bytes in which a device says which
  ports, memory and interrupts it uses.  A descriptor is given by the bytes from its first on;
  the callback of the walk gets them too, and \<open>'c\<close> is its context.  The messages are left out.
\<close>

section \<open>Sizes of the raw descriptors\<close>

text \<open>
  The structures of \<^verbatim>\<open>amlresrc.h\<close> are packed, so a size is the sum over the fields; 1, 2, 4 and 8
  are those of \<^verbatim>\<open>UINT8\<close> to \<^verbatim>\<open>UINT64\<close>.
\<close>

definition sizeof_AML_RESOURCE_SMALL_HEADER :: nat where "sizeof_AML_RESOURCE_SMALL_HEADER = 1"
definition sizeof_AML_RESOURCE_LARGE_HEADER :: nat where "sizeof_AML_RESOURCE_LARGE_HEADER = 1 + 2"
definition AML_RESOURCE_ADDRESS_COMMON :: nat where "AML_RESOURCE_ADDRESS_COMMON = 1 + 1 + 1"
definition AML_RESOURCE_SERIAL_COMMON :: nat where "AML_RESOURCE_SERIAL_COMMON = 1 + 1 + 1 + 1 + 2 + 1 + 2"

abbreviation (input) "small_header \<equiv> sizeof_AML_RESOURCE_SMALL_HEADER"
abbreviation (input) "large_header \<equiv> sizeof_AML_RESOURCE_LARGE_HEADER"

definition sizeof_AML_RESOURCE_IRQ :: nat where "sizeof_AML_RESOURCE_IRQ = small_header + 2 + 1"
definition sizeof_AML_RESOURCE_DMA :: nat where "sizeof_AML_RESOURCE_DMA = small_header + 1 + 1"
definition sizeof_AML_RESOURCE_START_DEPENDENT :: nat where "sizeof_AML_RESOURCE_START_DEPENDENT = small_header + 1"
definition sizeof_AML_RESOURCE_END_DEPENDENT :: nat where "sizeof_AML_RESOURCE_END_DEPENDENT = small_header"
definition sizeof_AML_RESOURCE_IO :: nat where "sizeof_AML_RESOURCE_IO = small_header + 1 + 2 + 2 + 1 + 1"
definition sizeof_AML_RESOURCE_FIXED_IO :: nat where "sizeof_AML_RESOURCE_FIXED_IO = small_header + 2 + 1"
definition sizeof_AML_RESOURCE_VENDOR_SMALL :: nat where "sizeof_AML_RESOURCE_VENDOR_SMALL = small_header"
definition sizeof_AML_RESOURCE_END_TAG :: nat where "sizeof_AML_RESOURCE_END_TAG = small_header + 1"
definition sizeof_AML_RESOURCE_FIXED_DMA :: nat where "sizeof_AML_RESOURCE_FIXED_DMA = small_header + 2 + 2 + 1"
definition sizeof_AML_RESOURCE_MEMORY24 :: nat where "sizeof_AML_RESOURCE_MEMORY24 = large_header + 1 + 2 + 2 + 2 + 2"
definition sizeof_AML_RESOURCE_VENDOR_LARGE :: nat where "sizeof_AML_RESOURCE_VENDOR_LARGE = large_header"
definition sizeof_AML_RESOURCE_MEMORY32 :: nat where "sizeof_AML_RESOURCE_MEMORY32 = large_header + 1 + 4 + 4 + 4 + 4"
definition sizeof_AML_RESOURCE_FIXED_MEMORY32 :: nat where "sizeof_AML_RESOURCE_FIXED_MEMORY32 = large_header + 1 + 4 + 4"
definition sizeof_AML_RESOURCE_EXTENDED_ADDRESS64 :: nat where
  "sizeof_AML_RESOURCE_EXTENDED_ADDRESS64 = large_header + AML_RESOURCE_ADDRESS_COMMON + 1 + 1 + 8 + 8 + 8 + 8 + 8 + 8"
definition sizeof_AML_RESOURCE_ADDRESS64 :: nat where
  "sizeof_AML_RESOURCE_ADDRESS64 = large_header + AML_RESOURCE_ADDRESS_COMMON + 8 + 8 + 8 + 8 + 8"
definition sizeof_AML_RESOURCE_ADDRESS32 :: nat where
  "sizeof_AML_RESOURCE_ADDRESS32 = large_header + AML_RESOURCE_ADDRESS_COMMON + 4 + 4 + 4 + 4 + 4"
definition sizeof_AML_RESOURCE_ADDRESS16 :: nat where
  "sizeof_AML_RESOURCE_ADDRESS16 = large_header + AML_RESOURCE_ADDRESS_COMMON + 2 + 2 + 2 + 2 + 2"
definition sizeof_AML_RESOURCE_EXTENDED_IRQ :: nat where "sizeof_AML_RESOURCE_EXTENDED_IRQ = large_header + 1 + 1 + 4 * 1"
definition sizeof_AML_RESOURCE_GENERIC_REGISTER :: nat where
  "sizeof_AML_RESOURCE_GENERIC_REGISTER = large_header + 1 + 1 + 1 + 1 + 8"
definition sizeof_AML_RESOURCE_GPIO :: nat where
  "sizeof_AML_RESOURCE_GPIO = large_header + 1 + 1 + 2 + 2 + 1 + 2 + 2 + 2 + 1 + 2 + 2 + 2"
definition sizeof_AML_RESOURCE_COMMON_SERIALBUS :: nat where
  "sizeof_AML_RESOURCE_COMMON_SERIALBUS = large_header + AML_RESOURCE_SERIAL_COMMON"

lemmas sizeof_resources = sizeof_AML_RESOURCE_SMALL_HEADER_def sizeof_AML_RESOURCE_LARGE_HEADER_def
  AML_RESOURCE_ADDRESS_COMMON_def AML_RESOURCE_SERIAL_COMMON_def sizeof_AML_RESOURCE_IRQ_def sizeof_AML_RESOURCE_DMA_def
  sizeof_AML_RESOURCE_START_DEPENDENT_def sizeof_AML_RESOURCE_END_DEPENDENT_def sizeof_AML_RESOURCE_IO_def
  sizeof_AML_RESOURCE_FIXED_IO_def sizeof_AML_RESOURCE_VENDOR_SMALL_def sizeof_AML_RESOURCE_END_TAG_def
  sizeof_AML_RESOURCE_FIXED_DMA_def sizeof_AML_RESOURCE_MEMORY24_def sizeof_AML_RESOURCE_VENDOR_LARGE_def
  sizeof_AML_RESOURCE_MEMORY32_def sizeof_AML_RESOURCE_FIXED_MEMORY32_def sizeof_AML_RESOURCE_EXTENDED_ADDRESS64_def
  sizeof_AML_RESOURCE_ADDRESS64_def sizeof_AML_RESOURCE_ADDRESS32_def sizeof_AML_RESOURCE_ADDRESS16_def
  sizeof_AML_RESOURCE_EXTENDED_IRQ_def sizeof_AML_RESOURCE_GENERIC_REGISTER_def sizeof_AML_RESOURCE_GPIO_def
  sizeof_AML_RESOURCE_COMMON_SERIALBUS_def

definition ACPI_AML_SIZE_LARGE :: "nat \<Rightarrow> u8" where
  "ACPI_AML_SIZE_LARGE r = of_nat (r - sizeof_AML_RESOURCE_LARGE_HEADER)"

definition ACPI_AML_SIZE_SMALL :: "nat \<Rightarrow> u8" where
  "ACPI_AML_SIZE_SMALL r = of_nat (r - sizeof_AML_RESOURCE_SMALL_HEADER)"

definition AcpiGbl_ResourceAmlSizes :: "u8 list" where
  "AcpiGbl_ResourceAmlSizes =
     [0, 0, 0, 0,
      ACPI_AML_SIZE_SMALL sizeof_AML_RESOURCE_IRQ,
      ACPI_AML_SIZE_SMALL sizeof_AML_RESOURCE_DMA,
      ACPI_AML_SIZE_SMALL sizeof_AML_RESOURCE_START_DEPENDENT,
      ACPI_AML_SIZE_SMALL sizeof_AML_RESOURCE_END_DEPENDENT,
      ACPI_AML_SIZE_SMALL sizeof_AML_RESOURCE_IO,
      ACPI_AML_SIZE_SMALL sizeof_AML_RESOURCE_FIXED_IO,
      ACPI_AML_SIZE_SMALL sizeof_AML_RESOURCE_FIXED_DMA,
      0, 0, 0,
      ACPI_AML_SIZE_SMALL sizeof_AML_RESOURCE_VENDOR_SMALL,
      ACPI_AML_SIZE_SMALL sizeof_AML_RESOURCE_END_TAG,
      0,
      ACPI_AML_SIZE_LARGE sizeof_AML_RESOURCE_MEMORY24,
      ACPI_AML_SIZE_LARGE sizeof_AML_RESOURCE_GENERIC_REGISTER,
      0,
      ACPI_AML_SIZE_LARGE sizeof_AML_RESOURCE_VENDOR_LARGE,
      ACPI_AML_SIZE_LARGE sizeof_AML_RESOURCE_MEMORY32,
      ACPI_AML_SIZE_LARGE sizeof_AML_RESOURCE_FIXED_MEMORY32,
      ACPI_AML_SIZE_LARGE sizeof_AML_RESOURCE_ADDRESS32,
      ACPI_AML_SIZE_LARGE sizeof_AML_RESOURCE_ADDRESS16,
      ACPI_AML_SIZE_LARGE sizeof_AML_RESOURCE_EXTENDED_IRQ,
      ACPI_AML_SIZE_LARGE sizeof_AML_RESOURCE_ADDRESS64,
      ACPI_AML_SIZE_LARGE sizeof_AML_RESOURCE_EXTENDED_ADDRESS64,
      ACPI_AML_SIZE_LARGE sizeof_AML_RESOURCE_GPIO,
      0,
      ACPI_AML_SIZE_LARGE sizeof_AML_RESOURCE_COMMON_SERIALBUS]"

definition ACPI_FIXED_LENGTH :: u8 where "ACPI_FIXED_LENGTH = 1"
definition ACPI_VARIABLE_LENGTH :: u8 where "ACPI_VARIABLE_LENGTH = 2"
definition ACPI_SMALL_VARIABLE_LENGTH :: u8 where "ACPI_SMALL_VARIABLE_LENGTH = 3"

definition AcpiGbl_ResourceTypes :: "u8 list" where
  "AcpiGbl_ResourceTypes =
     [0, 0, 0, 0,
      ACPI_SMALL_VARIABLE_LENGTH,
      ACPI_FIXED_LENGTH,
      ACPI_SMALL_VARIABLE_LENGTH,
      ACPI_FIXED_LENGTH,
      ACPI_FIXED_LENGTH,
      ACPI_FIXED_LENGTH,
      ACPI_FIXED_LENGTH,
      0, 0, 0,
      ACPI_VARIABLE_LENGTH,
      ACPI_FIXED_LENGTH,
      0,
      ACPI_FIXED_LENGTH,
      ACPI_FIXED_LENGTH,
      0,
      ACPI_VARIABLE_LENGTH,
      ACPI_FIXED_LENGTH,
      ACPI_FIXED_LENGTH,
      ACPI_VARIABLE_LENGTH,
      ACPI_VARIABLE_LENGTH,
      ACPI_VARIABLE_LENGTH,
      ACPI_VARIABLE_LENGTH,
      ACPI_FIXED_LENGTH,
      ACPI_VARIABLE_LENGTH,
      0,
      ACPI_VARIABLE_LENGTH]"

section \<open>One descriptor\<close>

definition ACPI_RESOURCE_NAME_LARGE :: u8 where "ACPI_RESOURCE_NAME_LARGE = 0x80"
definition ACPI_RESOURCE_NAME_LARGE_MAX :: u8 where "ACPI_RESOURCE_NAME_LARGE_MAX = 0x8E"
definition ACPI_RESOURCE_NAME_SMALL_MASK :: u8 where "ACPI_RESOURCE_NAME_SMALL_MASK = 0x78"
definition ACPI_RESOURCE_NAME_SMALL_LENGTH_MASK :: u8 where "ACPI_RESOURCE_NAME_SMALL_LENGTH_MASK = 0x07"
definition ACPI_RESOURCE_NAME_END_TAG :: u8 where "ACPI_RESOURCE_NAME_END_TAG = 0x78"
definition ACPI_RESOURCE_NAME_SERIAL_BUS :: u8 where "ACPI_RESOURCE_NAME_SERIAL_BUS = 0x8E"
definition AML_RESOURCE_MAX_SERIALBUSTYPE :: u8 where "AML_RESOURCE_MAX_SERIALBUSTYPE = 3"

type_synonym descriptor = "nat \<Rightarrow> u8"

definition AcpiUtGetResourceType :: "descriptor \<Rightarrow> u8" where
  "AcpiUtGetResourceType Aml =
     (if Aml 0 AND ACPI_RESOURCE_NAME_LARGE \<noteq> 0 then Aml 0 else Aml 0 AND ACPI_RESOURCE_NAME_SMALL_MASK)"

definition AcpiUtGetResourceLength :: "descriptor \<Rightarrow> u16" where
  "AcpiUtGetResourceLength Aml =
     (if Aml 0 AND ACPI_RESOURCE_NAME_LARGE \<noteq> 0 then ucast (Aml 1) OR push_bit 8 (ucast (Aml 2))
      else ucast (Aml 0 AND ACPI_RESOURCE_NAME_SMALL_LENGTH_MASK))"

definition AcpiUtGetResourceHeaderLength :: "descriptor \<Rightarrow> u8" where
  "AcpiUtGetResourceHeaderLength Aml =
     (if Aml 0 AND ACPI_RESOURCE_NAME_LARGE \<noteq> 0 then of_nat sizeof_AML_RESOURCE_LARGE_HEADER
      else of_nat sizeof_AML_RESOURCE_SMALL_HEADER)"

definition AcpiUtGetDescriptorLength :: "descriptor \<Rightarrow> u32" where
  "AcpiUtGetDescriptorLength Aml =
     ucast (AcpiUtGetResourceLength Aml) + ucast (AcpiUtGetResourceHeaderLength Aml)"

text \<open>\<^verbatim>\<open>AmlResource->CommonSerialBus.Type\<close>, after the header and two more fields.\<close>

definition CommonSerialBus_Type :: "descriptor \<Rightarrow> u8" where
  "CommonSerialBus_Type Aml = Aml (sizeof_AML_RESOURCE_LARGE_HEADER + 1 + 1)"

text \<open>The status of a descriptor that is refused, or its index in the tables.\<close>

definition AcpiUtValidateResource :: "descriptor \<Rightarrow> u32 + u8" where
  "AcpiUtValidateResource Aml =
     (let ResourceType = Aml 0 in
      if ResourceType AND ACPI_RESOURCE_NAME_LARGE \<noteq> 0 \<and> ResourceType > ACPI_RESOURCE_NAME_LARGE_MAX
      then Inl AE_AML_INVALID_RESOURCE_TYPE
      else
        (let ResourceIndex =
               (if ResourceType AND ACPI_RESOURCE_NAME_LARGE \<noteq> 0 then ResourceType - 0x70
                else drop_bit 3 (ResourceType AND ACPI_RESOURCE_NAME_SMALL_MASK));
             kind = AcpiGbl_ResourceTypes ! unat ResourceIndex
         in if kind = 0 then Inl AE_AML_INVALID_RESOURCE_TYPE
            else
              (let ResourceLength = int (unat (AcpiUtGetResourceLength Aml));
                   MinimumResourceLength = int (unat (AcpiGbl_ResourceAmlSizes ! unat ResourceIndex));
                   BadResourceLength =
                     (if kind = ACPI_FIXED_LENGTH then Some (ResourceLength \<noteq> MinimumResourceLength)
                      else if kind = ACPI_VARIABLE_LENGTH then Some (ResourceLength < MinimumResourceLength)
                      else if kind = ACPI_SMALL_VARIABLE_LENGTH then
                        Some (ResourceLength > MinimumResourceLength \<or> ResourceLength < MinimumResourceLength - 1)
                      else None)
               in case BadResourceLength of
                    None \<Rightarrow> Inl AE_AML_INVALID_RESOURCE_TYPE
                  | Some True \<Rightarrow> Inl AE_AML_BAD_RESOURCE_LENGTH
                  | Some False \<Rightarrow>
                      if ResourceType = ACPI_RESOURCE_NAME_SERIAL_BUS \<and>
                        (CommonSerialBus_Type Aml = 0 \<or> CommonSerialBus_Type Aml > AML_RESOURCE_MAX_SERIALBUSTYPE)
                      then Inl AE_AML_INVALID_RESOURCE_TYPE
                      else Inr ResourceIndex)))"

section \<open>The walk\<close>

type_synonym 'c walk_callback = "descriptor \<Rightarrow> u32 \<Rightarrow> u32 \<Rightarrow> u8 \<Rightarrow> 'c \<Rightarrow> u32 \<times> 'c"

text \<open>What the walk returns: its status, the context, and the pointer to the end tag it stores without a callback.\<close>

type_synonym 'c walk_result = "u32 \<times> 'c \<times> ptr option"

definition aml_at :: "bytes \<Rightarrow> ptr \<Rightarrow> descriptor" where
  "aml_at m Aml = (\<lambda>i. m (Aml + of_nat i))"

definition call_user :: "'c walk_callback option \<Rightarrow> descriptor \<Rightarrow> u32 \<Rightarrow> u32 \<Rightarrow> u8 \<Rightarrow> 'c \<Rightarrow> u32 \<times> 'c" where
  "call_user UserFunction Aml Length Offset Index c =
     (case UserFunction of Some f \<Rightarrow> f Aml Length Offset Index c | None \<Rightarrow> (AE_OK, c))"

text \<open>\<^verbatim>\<open>while (Aml < EndAml)\<close>: it returns from within, or gets to the end of the buffer.\<close>

partial_function (option) walk_loop ::
  "bytes \<Rightarrow> 'c walk_callback option \<Rightarrow> ptr \<Rightarrow> ptr \<Rightarrow> u32 \<Rightarrow> 'c \<Rightarrow> ('c walk_result + u32 \<times> 'c) option" where
  "walk_loop m f EndAml Aml Offset c =
     (if Aml < EndAml then
        (case AcpiUtValidateResource (aml_at m Aml) of
           Inl Status \<Rightarrow> Some (Inl (Status, c, None))
         | Inr ResourceIndex \<Rightarrow>
             (let Length = AcpiUtGetDescriptorLength (aml_at m Aml);
                  r = call_user f (aml_at m Aml) Length Offset ResourceIndex c
              in if ACPI_FAILURE (fst r) then Some (Inl (fst r, snd r, None))
                 else if AcpiUtGetResourceType (aml_at m Aml) = ACPI_RESOURCE_NAME_END_TAG then
                   (if Aml + 1 \<ge> EndAml then Some (Inl (AE_AML_NO_RESOURCE_END_TAG, snd r, None))
                    else Some (Inl (AE_OK, snd r, case f of None \<Rightarrow> Some Aml | Some _ \<Rightarrow> None)))
                 else walk_loop m f EndAml (Aml + ucast Length) (Offset + Length) (snd r)))
      else Some (Inr (Offset, c)))"

definition AcpiUtWalkAmlResources ::
  "bytes \<Rightarrow> ptr \<Rightarrow> u64 \<Rightarrow> 'c walk_callback option \<Rightarrow> 'c \<Rightarrow> 'c walk_result option" where
  "AcpiUtWalkAmlResources m Aml AmlLength UserFunction c =
     (if AmlLength < of_nat sizeof_AML_RESOURCE_END_TAG then Some (AE_AML_NO_RESOURCE_END_TAG, c, None)
      else case walk_loop m UserFunction (Aml + AmlLength) Aml 0 c of
             None \<Rightarrow> None
           | Some (Inl r) \<Rightarrow> Some r
           | Some (Inr (Offset, c)) \<Rightarrow>
               (let EndTag = (\<lambda>i. if i = 0 then 0x79 else 0);
                    ResourceIndex = (case AcpiUtValidateResource EndTag of Inr i \<Rightarrow> i | Inl _ \<Rightarrow> 0);
                    r = call_user UserFunction EndTag 2 Offset ResourceIndex c
                in if ACPI_FAILURE (fst r) then Some (fst r, snd r, None)
                   else Some (AE_AML_NO_RESOURCE_END_TAG, snd r, None)))"

definition AcpiUtGetResourceEndTag :: "bytes \<Rightarrow> u32 \<Rightarrow> ptr \<Rightarrow> (u32 \<times> ptr option) option" where
  "AcpiUtGetResourceEndTag m Length Pointer =
     (if Length = 0 then Some (AE_OK, Some Pointer)
      else map_option (\<lambda>(Status, _, EndTag). (Status, EndTag))
        (AcpiUtWalkAmlResources m Pointer (ucast Length) None ()))"

section \<open>Lengths\<close>

text \<open>A descriptor has its header at least, so the walk gets on; and it is no longer than 64K and a header.\<close>

lemma resource_length_bound: "unat (AcpiUtGetResourceLength Aml) < 65536"
  using unsigned_less [of "AcpiUtGetResourceLength Aml"] by simp

lemma header_length:
  "unat (AcpiUtGetResourceHeaderLength Aml) = (if Aml 0 AND ACPI_RESOURCE_NAME_LARGE \<noteq> 0 then 3 else 1)"
  by (simp add: AcpiUtGetResourceHeaderLength_def sizeof_resources)

lemma descriptor_length:
  "unat (AcpiUtGetDescriptorLength Aml) = unat (AcpiUtGetResourceLength Aml) + unat (AcpiUtGetResourceHeaderLength Aml)"
  "0 < unat (AcpiUtGetDescriptorLength Aml)" "unat (AcpiUtGetDescriptorLength Aml) \<le> 65538"
proof -
  have h: "unat (AcpiUtGetResourceHeaderLength Aml) \<in> {1, 3}" by (simp add: header_length)
  have "unat (ucast (AcpiUtGetResourceLength Aml) :: u32) = unat (AcpiUtGetResourceLength Aml)"
    "unat (ucast (AcpiUtGetResourceHeaderLength Aml) :: u32) = unat (AcpiUtGetResourceHeaderLength Aml)"
    using resource_length_bound [of Aml] h by (auto simp: unsigned_ucast_eq take_bit_nat_eq_self)
  then show e: "unat (AcpiUtGetDescriptorLength Aml) = unat (AcpiUtGetResourceLength Aml) + unat (AcpiUtGetResourceHeaderLength Aml)"
    using resource_length_bound [of Aml] h unfolding AcpiUtGetDescriptorLength_def
    by (subst unat_word_ariths) (auto simp: )
  show "0 < unat (AcpiUtGetDescriptorLength Aml)" "unat (AcpiUtGetDescriptorLength Aml) \<le> 65538"
    using resource_length_bound [of Aml] h unfolding e by auto
qed

section \<open>Templates\<close>

text \<open>
  A template as a list of descriptors, each the list of its bytes.  A descriptor is good when the
  code takes it for valid, for as long as it is, and for no end tag.
\<close>

definition view :: "u8 list \<Rightarrow> descriptor" where
  "view bs = (\<lambda>i. if i < length bs then bs ! i else 0)"

definition good_descriptor :: "u8 list \<Rightarrow> bool" where
  "good_descriptor bs \<longleftrightarrow> (\<exists>i. AcpiUtValidateResource (view bs) = Inr i) \<and>
     unat (AcpiUtGetDescriptorLength (view bs)) = length bs \<and>
     AcpiUtGetResourceType (view bs) \<noteq> ACPI_RESOURCE_NAME_END_TAG"

definition resource_index :: "u8 list \<Rightarrow> u8" where
  "resource_index bs = (case AcpiUtValidateResource (view bs) of Inr i \<Rightarrow> i | Inl _ \<Rightarrow> 0)"

text \<open>The code looks at no byte behind the end of a valid descriptor.\<close>

lemma validate_cong:
  assumes V: "AcpiUtValidateResource (view bs) = Inr i" and len: "unat (AcpiUtGetDescriptorLength (view bs)) = length bs"
    and d: "\<And>k. k < length bs \<Longrightarrow> d k = bs ! k"
  shows "AcpiUtValidateResource d = Inr i" "AcpiUtGetDescriptorLength d = AcpiUtGetDescriptorLength (view bs)"
    "AcpiUtGetResourceType d = AcpiUtGetResourceType (view bs)"
proof -
  have same: "d k = view bs k" if "k < length bs" for k using d that by (simp add: view_def)
  have pos: "0 < length bs" using descriptor_length(2) [of "view bs"] len by simp
  have d0: "d 0 = view bs 0" using same pos by blast
  have large: "3 \<le> length bs" if "view bs 0 AND ACPI_RESOURCE_NAME_LARGE \<noteq> 0"
    using descriptor_length(1) [of "view bs"] len that by (simp add: header_length)
  have l: "AcpiUtGetResourceLength d = AcpiUtGetResourceLength (view bs)"
    using same [of 1] same [of 2] large by (auto simp: AcpiUtGetResourceLength_def d0)
  have h: "AcpiUtGetResourceHeaderLength d = AcpiUtGetResourceHeaderLength (view bs)"
    by (simp add: AcpiUtGetResourceHeaderLength_def d0)
  show "AcpiUtGetDescriptorLength d = AcpiUtGetDescriptorLength (view bs)"
    by (simp add: AcpiUtGetDescriptorLength_def l h)
  show "AcpiUtGetResourceType d = AcpiUtGetResourceType (view bs)"
    by (simp add: AcpiUtGetResourceType_def d0)
  show "AcpiUtValidateResource d = Inr i"
  proof (cases "view bs 0 = ACPI_RESOURCE_NAME_SERIAL_BUS")
    case True
    have "\<not> int (unat (AcpiUtGetResourceLength (view bs))) < 9"
      using V unfolding AcpiUtValidateResource_def True
      by (auto simp: ACPI_RESOURCE_NAME_SERIAL_BUS_def ACPI_RESOURCE_NAME_LARGE_def ACPI_RESOURCE_NAME_LARGE_MAX_def
          AcpiGbl_ResourceTypes_def AcpiGbl_ResourceAmlSizes_def ACPI_VARIABLE_LENGTH_def ACPI_FIXED_LENGTH_def
          ACPI_AML_SIZE_LARGE_def sizeof_resources Let_def)
    then have "9 \<le> unat (AcpiUtGetResourceLength (view bs))" by linarith
    then have "6 \<le> length bs" using descriptor_length(1) [of "view bs"] len by simp
    moreover have "CommonSerialBus_Type Aml = Aml 5" for Aml
      by (simp add: CommonSerialBus_Type_def sizeof_resources numeral_eq_Suc)
    ultimately have "CommonSerialBus_Type d = CommonSerialBus_Type (view bs)" using same [of 5] by simp
    then show ?thesis using V by (simp only: AcpiUtValidateResource_def d0 l)
  next
    case False
    then have bus: "view bs 0 = ACPI_RESOURCE_NAME_SERIAL_BUS \<and>
        (CommonSerialBus_Type d = 0 \<or> CommonSerialBus_Type d > AML_RESOURCE_MAX_SERIALBUSTYPE) \<longleftrightarrow>
      view bs 0 = ACPI_RESOURCE_NAME_SERIAL_BUS \<and>
        (CommonSerialBus_Type (view bs) = 0 \<or> CommonSerialBus_Type (view bs) > AML_RESOURCE_MAX_SERIALBUSTYPE)"
      by blast
    show ?thesis using V unfolding AcpiUtValidateResource_def d0 l Let_def bus .
  qed
qed

lemma end_tag_valid:
  assumes "d 0 = 0x79"
  shows "AcpiUtValidateResource d = Inr 15" "AcpiUtGetResourceType d = ACPI_RESOURCE_NAME_END_TAG"
    "AcpiUtGetDescriptorLength d = 2"
  using assms
  by (simp_all add: AcpiUtValidateResource_def AcpiUtGetResourceType_def AcpiUtGetDescriptorLength_def
      AcpiUtGetResourceLength_def AcpiUtGetResourceHeaderLength_def
      ACPI_RESOURCE_NAME_SERIAL_BUS_def ACPI_RESOURCE_NAME_LARGE_def ACPI_RESOURCE_NAME_SMALL_MASK_def
      ACPI_RESOURCE_NAME_SMALL_LENGTH_MASK_def ACPI_RESOURCE_NAME_END_TAG_def
      AcpiGbl_ResourceTypes_def AcpiGbl_ResourceAmlSizes_def ACPI_FIXED_LENGTH_def
      ACPI_AML_SIZE_SMALL_def sizeof_resources Let_def drop_bit_eq_div)

section \<open>Walking a template\<close>

definition holds :: "bytes \<Rightarrow> ptr \<Rightarrow> u8 list \<Rightarrow> bool" where
  "holds m a bs \<longleftrightarrow> (\<forall>i < length bs. m (a + of_nat i) = bs ! i)"

lemma holds_append: "holds m a (xs @ ys) \<longleftrightarrow> holds m a xs \<and> holds m (a + of_nat (length xs)) ys"
proof -
  have "(\<forall>i < length xs + length ys. m (a + of_nat i) = (xs @ ys) ! i) \<longleftrightarrow>
      (\<forall>i < length xs. m (a + of_nat i) = xs ! i) \<and> (\<forall>i < length ys. m (a + of_nat (length xs + i)) = ys ! i)"
  proof (intro iffI conjI allI impI)
    fix i assume A: "\<forall>i < length xs + length ys. m (a + of_nat i) = (xs @ ys) ! i"
    show "i < length xs \<Longrightarrow> m (a + of_nat i) = xs ! i" using A [rule_format, of i] by (simp add: nth_append)
    show "i < length ys \<Longrightarrow> m (a + of_nat (length xs + i)) = ys ! i"
      using A [rule_format, of "length xs + i"] by (simp add: nth_append)
  next
    fix i assume A: "(\<forall>i < length xs. m (a + of_nat i) = xs ! i) \<and> (\<forall>i < length ys. m (a + of_nat (length xs + i)) = ys ! i)"
      "i < length xs + length ys"
    then show "m (a + of_nat i) = (xs @ ys) ! i"
      using A(1) [THEN conjunct2, rule_format, of "i - length xs"] by (cases "i < length xs") (auto simp: nth_append)
  qed
  then show ?thesis by (simp add: holds_def add.assoc)
qed

text \<open>The calls for a list of descriptors, one after the other, until one fails.\<close>

fun call_all :: "bytes \<Rightarrow> 'c walk_callback option \<Rightarrow> ptr \<Rightarrow> u8 list list \<Rightarrow> nat \<Rightarrow> 'c \<Rightarrow> u32 \<times> 'c" where
  "call_all m f a [] off c = (AE_OK, c)"
| "call_all m f a (d # ds) off c =
     (let r = call_user f (aml_at m (a + of_nat off)) (of_nat (length d)) (of_nat off) (resource_index d) c
      in if ACPI_FAILURE (fst r) then r else call_all m f a ds (off + length d) (snd r))"

lemma end_index: "resource_index [0x79, x] = 15"
  using end_tag_valid(1) [of "view [0x79, x]"] by (simp add: resource_index_def view_def)

lemma walk_loop_template:
  assumes "holds m (a + of_nat off) (concat ds @ [0x79, x])" "\<forall>d \<in> set ds. good_descriptor d"
    and "EndAml = a + of_nat (off + length (concat ds) + 2)" "unat a + off + length (concat ds) + 2 < 2 ^ 64"
  shows "walk_loop m f EndAml (a + of_nat off) (of_nat off) c =
    Some (Inl (let r = call_all m f a (ds @ [[0x79, x]]) off c
      in (fst r, snd r, if ACPI_FAILURE (fst r) then None
        else case f of None \<Rightarrow> Some (a + of_nat (off + length (concat ds))) | Some _ \<Rightarrow> None)))"
  using assms
proof (induction ds arbitrary: off c)
  case Nil
  have u: "unat (a + of_nat off) = unat a + off" "unat EndAml = unat a + off + 2"
    using Nil.prems(3,4) by (simp_all add: unat_word_ariths unat_of_nat)
  have lt: "a + of_nat off < EndAml" "\<not> a + of_nat off + 1 \<ge> EndAml"
    using u Nil.prems(4) by (simp_all add: word_less_nat_alt word_le_nat_alt unat_word_ariths)
  have d0: "aml_at m (a + of_nat off) 0 = 0x79" using Nil.prems(1) by (auto simp: holds_def aml_at_def)
  note E = end_tag_valid [where d = "aml_at m (a + of_nat off)", OF d0]
  show ?case
    by (subst walk_loop.simps) (auto simp: lt E Let_def end_index call_user_def split: option.splits)
next
  case (Cons d ds)
  have g: "good_descriptor d" using Cons.prems(2) by simp
  then obtain i where V: "AcpiUtValidateResource (view d) = Inr i" by (auto simp: good_descriptor_def)
  have H: "holds m (a + of_nat off) d" "holds m (a + of_nat (off + length d)) (concat ds @ [0x79, x])"
    using Cons.prems(1) holds_append [of m "a + of_nat off" d] by (simp_all add: add.assoc)
  let ?d = "aml_at m (a + of_nat off)"
  have "?d k = d ! k" if "k < length d" for k using H(1) that by (simp add: holds_def aml_at_def)
  note C = validate_cong [OF V _ this]
  have len: "unat (AcpiUtGetDescriptorLength (view d)) = length d" using g by (simp add: good_descriptor_def)
  then have lw: "AcpiUtGetDescriptorLength (view d) = of_nat (length d)"
    by (metis of_nat_unat ucast_id)
  have lt: "a + of_nat off < EndAml"
  proof -
    have "unat (a + of_nat off) = unat a + off" "unat EndAml = unat a + (off + length (concat (d # ds)) + 2)"
      using Cons.prems(3,4) by (simp_all add: unat_word_ariths unat_of_nat)
    then show ?thesis by (simp add: word_less_nat_alt)
  qed
  have "ucast (of_nat (length d) :: u32) = (of_nat (length d) :: u64)"
    using len descriptor_length(3) [of "view d"] by (simp add: unsigned_of_nat take_bit_nat_eq_self)
  then have nxt: "a + of_nat off + ucast (of_nat (length d) :: u32) = a + of_nat (off + length d)"
    "of_nat off + of_nat (length d) = (of_nat (off + length d) :: u32)" by (simp_all add: add.assoc)
  have idx: "resource_index d = i" by (simp add: resource_index_def V)
  have ne: "AcpiUtGetResourceType (view d) \<noteq> ACPI_RESOURCE_NAME_END_TAG" using g by (simp add: good_descriptor_def)
  let ?r = "call_user f ?d (of_nat (length d)) (of_nat off) i c"
  have step: "walk_loop m f EndAml (a + of_nat off) (of_nat off) c =
      (if ACPI_FAILURE (fst ?r) then Some (Inl (fst ?r, snd ?r, None))
       else walk_loop m f EndAml (a + of_nat (off + length d)) (of_nat (off + length d)) (snd ?r))"
    by (subst walk_loop.simps) (simp only: lt if_True C(1) [OF len] C(2,3) [OF len] lw Let_def sum.case ne if_False nxt)
  have IH: "walk_loop m f EndAml (a + of_nat (off + length d)) (of_nat (off + length d)) (snd ?r) =
    Some (Inl (let r = call_all m f a (ds @ [[0x79, x]]) (off + length d) (snd ?r)
      in (fst r, snd r, if ACPI_FAILURE (fst r) then None
        else case f of None \<Rightarrow> Some (a + of_nat (off + length d + length (concat ds))) | Some _ \<Rightarrow> None)))"
    by (rule Cons.IH [OF H(2)]) (use Cons.prems in \<open>simp_all add: add.assoc\<close>)
  show ?case
    by (cases "ACPI_FAILURE (fst ?r)") (simp_all only: step IH append_Cons call_all.simps idx Let_def if_True if_False
        concat.simps length_append add.assoc fst_conv snd_conv)
qed

text \<open>Every walk returns, if the buffer is not at the very end of the address space.\<close>

lemma walk_loop_returns:
  assumes "unat a + n + 65538 < 2 ^ 64" "EndAml = a + of_nat n" "off \<le> n + 65538" "Aml = a + of_nat off"
  shows "\<exists>r. walk_loop m f EndAml Aml Offset c = Some r \<and> (f = None \<longrightarrow>
    (case r of Inr _ \<Rightarrow> True
     | Inl (status, _, p) \<Rightarrow> (status = AE_OK \<longrightarrow> (\<exists>k. p = Some (a + of_nat k) \<and> off \<le> k \<and> k + 1 < n \<and>
         AcpiUtGetResourceType (aml_at m (a + of_nat k)) = ACPI_RESOURCE_NAME_END_TAG))))"
  using assms(3,4)
proof (induction "n + 65538 - off" arbitrary: off Aml Offset c rule: less_induct)
  case less
  have u: "unat Aml = unat a + off" "unat EndAml = unat a + n"
    using assms(1,2) less.prems by (simp_all add: unat_word_ariths unat_of_nat)
  show ?case
  proof (cases "Aml < EndAml")
    case False
    then show ?thesis by (subst walk_loop.simps) simp
  next
    case lt: True
    then have off: "off < n" using u by (simp add: word_less_nat_alt)
    let ?d = "aml_at m Aml"
    show ?thesis
    proof (cases "AcpiUtValidateResource ?d")
      case (Inl status)
      have "status \<noteq> AE_OK"
        using Inl by (auto simp: AcpiUtValidateResource_def Let_def acpi_status split: if_splits option.splits bool.splits)
      then show ?thesis using lt Inl by (subst walk_loop.simps) simp
    next
      case (Inr i)
      let ?L = "AcpiUtGetDescriptorLength ?d"
      let ?r = "call_user f ?d ?L Offset i c"
      have L: "0 < unat ?L" "unat ?L \<le> 65538" by (rule descriptor_length)+
      have step: "walk_loop m f EndAml Aml Offset c =
          (if ACPI_FAILURE (fst ?r) then Some (Inl (fst ?r, snd ?r, None))
           else if AcpiUtGetResourceType ?d = ACPI_RESOURCE_NAME_END_TAG then
             (if Aml + 1 \<ge> EndAml then Some (Inl (AE_AML_NO_RESOURCE_END_TAG, snd ?r, None))
              else Some (Inl (AE_OK, snd ?r, case f of None \<Rightarrow> Some Aml | Some _ \<Rightarrow> None)))
           else walk_loop m f EndAml (Aml + ucast ?L) (Offset + ?L) (snd ?r))"
        by (subst walk_loop.simps) (simp only: lt if_True Inr sum.case Let_def)
      show ?thesis
      proof (cases "ACPI_FAILURE (fst ?r) \<or> AcpiUtGetResourceType ?d = ACPI_RESOURCE_NAME_END_TAG")
        case True
        have "off + 1 < n" if "\<not> Aml + 1 \<ge> EndAml"
          using that off assms(1) u by (simp add: word_le_nat_alt unat_word_ariths)
        then show ?thesis
          using True less.prems(2) unfolding step
          by (cases f) (auto simp: call_user_def ACPI_FAILURE_def acpi_status intro!: exI [of _ off])
      next
        case False
        have e: "Aml + ucast ?L = a + of_nat (off + unat ?L)"
          using less.prems(2) by (simp add: of_nat_unat add.assoc)
        have "n + 65538 - (off + unat ?L) < n + 65538 - off" "off + unat ?L \<le> n + 65538" using L off by auto
        from less.hyps [OF this(1) this(2) e, of "Offset + ?L" "snd ?r"]
        obtain r where R: "walk_loop m f EndAml (Aml + ucast ?L) (Offset + ?L) (snd ?r) = Some r"
          "f = None \<longrightarrow> (case r of Inr _ \<Rightarrow> True
           | Inl (status, _, p) \<Rightarrow> (status = AE_OK \<longrightarrow> (\<exists>k. p = Some (a + of_nat k) \<and> off + unat ?L \<le> k \<and> k + 1 < n \<and>
               AcpiUtGetResourceType (aml_at m (a + of_nat k)) = ACPI_RESOURCE_NAME_END_TAG)))"
          by blast
        have "walk_loop m f EndAml Aml Offset c = Some r" using R(1) False unfolding step by simp
        moreover have "f = None \<longrightarrow> (case r of Inr _ \<Rightarrow> True
           | Inl (status, _, p) \<Rightarrow> (status = AE_OK \<longrightarrow> (\<exists>k. p = Some (a + of_nat k) \<and> off \<le> k \<and> k + 1 < n \<and>
               AcpiUtGetResourceType (aml_at m (a + of_nat k)) = ACPI_RESOURCE_NAME_END_TAG)))"
          using R(2) by (auto split: sum.splits)
        ultimately show ?thesis by blast
      qed
    qed
  qed
qed

section \<open>Properties\<close>

text \<open>
  C19: the walk reads a resource template back: over a list of valid descriptors and an end tag it
  calls the user function once for each of them and the end tag, in order, each with its length, its
  offset and its index in the tables, and returns what the first call that fails returns; without a
  user function it returns a pointer to the end tag.
\<close>

theorem walk_reads_template:
  assumes "holds m a (concat ds @ [0x79, x])" "\<forall>d \<in> set ds. good_descriptor d"
    and "unat AmlLength = length (concat ds) + 2" "unat a + unat AmlLength < 2 ^ 64"
  shows "AcpiUtWalkAmlResources m a AmlLength f c =
    Some (let r = call_all m f a (ds @ [[0x79, x]]) 0 c
      in (fst r, snd r, if ACPI_FAILURE (fst r) then None
        else case f of None \<Rightarrow> Some (a + of_nat (length (concat ds))) | Some _ \<Rightarrow> None))"
proof -
  have n: "\<not> AmlLength < of_nat sizeof_AML_RESOURCE_END_TAG"
    using assms(3) by (simp add: word_less_nat_alt sizeof_resources)
  have "AmlLength = of_nat (length (concat ds) + 2)" by (metis assms(3) of_nat_unat ucast_id)
  then have e: "a + AmlLength = a + of_nat (0 + length (concat ds) + 2)" by simp
  have w: "walk_loop m f (a + AmlLength) (a + of_nat 0) (of_nat 0) c =
    Some (Inl (let r = call_all m f a (ds @ [[0x79, x]]) 0 c
      in (fst r, snd r, if ACPI_FAILURE (fst r) then None
        else case f of None \<Rightarrow> Some (a + of_nat (0 + length (concat ds))) | Some _ \<Rightarrow> None)))"
    by (rule walk_loop_template [OF _ assms(2) e]) (use assms in simp_all)
  then show ?thesis
    using n unfolding AcpiUtWalkAmlResources_def semiring_1_class.of_nat_0 add_0_left add_0_right by simp
qed

text \<open>A template of an I/O descriptor: 8 bytes, then the end tag.\<close>

definition example_io :: "u8 list" where "example_io = [0x47, 0x01, 0xf8, 0x03, 0xf8, 0x03, 0x01, 0x08]"

definition example_template :: bytes where
  "example_template = (\<lambda>p. if unat p < 10 then (example_io @ [0x79, 0]) ! unat p else 0)"

definition log_resources :: "(u32 \<times> u32 \<times> u8) list walk_callback" where
  "log_resources Aml Length Offset Index c = (AE_OK, c @ [(Length, Offset, Index)])"

lemma example_io_good: "good_descriptor example_io" "resource_index example_io = 8"
proof -
  have v: "view example_io 0 = 0x47" by (simp add: view_def example_io_def)
  have "AcpiUtValidateResource (view example_io) = Inr 8"
    by (simp add: AcpiUtValidateResource_def AcpiUtGetResourceLength_def v Let_def
        ACPI_RESOURCE_NAME_LARGE_def ACPI_RESOURCE_NAME_SMALL_MASK_def ACPI_RESOURCE_NAME_SMALL_LENGTH_MASK_def
        ACPI_RESOURCE_NAME_SERIAL_BUS_def AcpiGbl_ResourceTypes_def AcpiGbl_ResourceAmlSizes_def ACPI_FIXED_LENGTH_def
        ACPI_AML_SIZE_SMALL_def sizeof_resources drop_bit_eq_div)
  moreover have "unat (AcpiUtGetDescriptorLength (view example_io)) = length example_io"
    by (simp add: descriptor_length(1) header_length AcpiUtGetResourceLength_def v ACPI_RESOURCE_NAME_LARGE_def
        ACPI_RESOURCE_NAME_SMALL_LENGTH_MASK_def) (simp add: example_io_def)
  moreover have "AcpiUtGetResourceType (view example_io) \<noteq> ACPI_RESOURCE_NAME_END_TAG"
    by (simp add: AcpiUtGetResourceType_def v ACPI_RESOURCE_NAME_LARGE_def ACPI_RESOURCE_NAME_SMALL_MASK_def
        ACPI_RESOURCE_NAME_END_TAG_def)
  ultimately show "good_descriptor example_io" "resource_index example_io = 8"
    by (simp_all add: good_descriptor_def resource_index_def)
qed

theorem walk_reads_template_witness:
  "AcpiUtWalkAmlResources example_template 0 10 (Some log_resources) [] = Some (AE_OK, [(8, 0, 8), (2, 8, 15)], None)"
proof -
  have h: "holds example_template 0 (concat [example_io] @ [0x79, 0])"
    by (auto simp: holds_def example_template_def unat_of_nat example_io_def)
  have len: "length example_io = 8" by (simp add: example_io_def)
  show ?thesis
    using walk_reads_template [OF h, of 10 "Some log_resources" "[]"] example_io_good
    by (simp add: len call_user_def log_resources_def ACPI_FAILURE_def AE_OK_def end_index Let_def)
qed

text \<open>
  looking for the end tag of a template returns for whatever bytes there are, and when it
  succeeds on a buffer that is not empty it has found an end tag inside it, with the byte of its
  checksum.
\<close>

theorem end_tag_inside:
  assumes "unat a + unat Length + 65538 < 2 ^ 64"
  shows "\<exists>Status EndTag. AcpiUtGetResourceEndTag m Length a = Some (Status, EndTag) \<and>
    (Status = AE_OK \<and> Length \<noteq> 0 \<longrightarrow> (\<exists>k. EndTag = Some (a + of_nat k) \<and> k + 1 < unat Length \<and>
       AcpiUtGetResourceType (aml_at m (a + of_nat k)) = ACPI_RESOURCE_NAME_END_TAG))"
proof -
  have u: "a + ucast Length = a + of_nat (unat Length)" and e: "a = a + of_nat 0" by (simp_all add: of_nat_unat)
  have le: "0 \<le> unat Length + 65538" by simp
  obtain r where R: "walk_loop m None (a + ucast Length) a 0 () = Some r"
    "case r of Inr _ \<Rightarrow> True | Inl (status, _, p) \<Rightarrow> (status = AE_OK \<longrightarrow> (\<exists>k. p = Some (a + of_nat k) \<and> 0 \<le> k \<and> k + 1 < unat Length \<and>
       AcpiUtGetResourceType (aml_at m (a + of_nat k)) = ACPI_RESOURCE_NAME_END_TAG))"
    using walk_loop_returns [OF assms u le e, where f = None and m = m and Offset = 0 and c = "()"] by blast
  show ?thesis
  proof (cases r)
    case (Inl x)
    then show ?thesis using R
      by (cases x) (auto simp: AcpiUtGetResourceEndTag_def AcpiUtWalkAmlResources_def acpi_status)
  next
    case (Inr x)
    then show ?thesis using R
      by (cases x) (auto simp: AcpiUtGetResourceEndTag_def AcpiUtWalkAmlResources_def acpi_status call_user_def ACPI_FAILURE_def)
  qed
qed

theorem end_tag_inside_witness:
  "\<exists>Status EndTag. AcpiUtGetResourceEndTag example_template 10 0 = Some (Status, EndTag)"
  using end_tag_inside [of 0 10 example_template] by auto

text \<open>
  The walk does not compare a descriptor's length with what is left of the buffer: it reads the
  header of a descriptor that begins in the last byte, and hands out one that goes on behind the end.
\<close>

lemma walk_overruns:
  "AcpiUtWalkAmlResources ((\<lambda>_. 0)(0 := 0x84, 2 := 1)) 0 2 (Some log_resources) [] =
     Some (AE_AML_NO_RESOURCE_END_TAG, [(259, 0, 0x14), (2, 259, 15)], None)"
proof -
  let ?m = "(\<lambda>_. 0)(0 := 0x84, 2 := 1) :: bytes"
  have d: "aml_at ?m 0 0 = 0x84" "aml_at ?m 0 1 = 0" "aml_at ?m 0 2 = 1" by (simp_all add: aml_at_def)
  have len: "AcpiUtGetResourceLength (aml_at ?m 0) = 256"
    by (simp add: AcpiUtGetResourceLength_def d d(2) [unfolded One_nat_def] ACPI_RESOURCE_NAME_LARGE_def)
  have L: "AcpiUtGetDescriptorLength (aml_at ?m 0) = 259"
    by (simp add: AcpiUtGetDescriptorLength_def len AcpiUtGetResourceHeaderLength_def d ACPI_RESOURCE_NAME_LARGE_def sizeof_resources)
  have T: "AcpiUtGetResourceType (aml_at ?m 0) = 0x84"
    by (simp add: AcpiUtGetResourceType_def d ACPI_RESOURCE_NAME_LARGE_def)
  have V: "AcpiUtValidateResource (aml_at ?m 0) = Inr 0x14"
    by (simp add: AcpiUtValidateResource_def len d Let_def ACPI_RESOURCE_NAME_LARGE_def ACPI_RESOURCE_NAME_LARGE_MAX_def
        ACPI_RESOURCE_NAME_SERIAL_BUS_def AcpiGbl_ResourceTypes_def AcpiGbl_ResourceAmlSizes_def ACPI_VARIABLE_LENGTH_def
        ACPI_FIXED_LENGTH_def ACPI_AML_SIZE_LARGE_def sizeof_resources)
  have "walk_loop ?m (Some log_resources) 2 259 259 [(259, 0, 0x14)] = Some (Inr (259, [(259, 0, 0x14)]))"
    by (subst walk_loop.simps) simp
  then have "walk_loop ?m (Some log_resources) 2 0 0 [] = Some (Inr (259, [(259, 0, 0x14)]))"
    by (subst walk_loop.simps) (simp add: V L T call_user_def log_resources_def ACPI_FAILURE_def AE_OK_def
        ACPI_RESOURCE_NAME_END_TAG_def Let_def)
  then show ?thesis
    by (simp add: AcpiUtWalkAmlResources_def sizeof_resources call_user_def log_resources_def end_tag_valid
        ACPI_FAILURE_def AE_OK_def Let_def)
qed

end
