(* ===== verification/Acpi_Port.thy ===== *)
theory Acpi_Port
  imports Acpi_Owner Hw_Pci
begin

text \<open>
  Port accesses on behalf of AML code (\<^verbatim>\<open>kernel/hw/acpica/hwvalid.c\<close>): a table of ports that the
  firmware must not touch, the check of a request against it, and reads and writes that fall back
  to single bytes when part of a request is protected.  They sit on the services of \<^verbatim>\<open>osl.c\<close>.
\<close>

section \<open>The table\<close>

record acpi_port_info =
  Name :: string
  Start :: u16
  End :: u16
  OsiDependency :: u8

definition ACPI_ALWAYS_ILLEGAL :: u8 where "ACPI_ALWAYS_ILLEGAL = 0x00"
definition ACPI_OSI_WIN_XP :: u8 where "ACPI_OSI_WIN_XP = 0x02"

definition AcpiProtectedPorts :: "acpi_port_info list" where
  "AcpiProtectedPorts =
    [\<lparr>Name = ''DMA'', Start = 0x0000, End = 0x000F, OsiDependency = ACPI_OSI_WIN_XP\<rparr>,
     \<lparr>Name = ''PIC0'', Start = 0x0020, End = 0x0021, OsiDependency = ACPI_ALWAYS_ILLEGAL\<rparr>,
     \<lparr>Name = ''PIT1'', Start = 0x0040, End = 0x0043, OsiDependency = ACPI_OSI_WIN_XP\<rparr>,
     \<lparr>Name = ''PIT2'', Start = 0x0048, End = 0x004B, OsiDependency = ACPI_OSI_WIN_XP\<rparr>,
     \<lparr>Name = ''RTC'', Start = 0x0070, End = 0x0071, OsiDependency = ACPI_OSI_WIN_XP\<rparr>,
     \<lparr>Name = ''CMOS'', Start = 0x0074, End = 0x0076, OsiDependency = ACPI_OSI_WIN_XP\<rparr>,
     \<lparr>Name = ''DMA1'', Start = 0x0081, End = 0x0083, OsiDependency = ACPI_OSI_WIN_XP\<rparr>,
     \<lparr>Name = ''DMA1L'', Start = 0x0087, End = 0x0087, OsiDependency = ACPI_OSI_WIN_XP\<rparr>,
     \<lparr>Name = ''DMA2'', Start = 0x0089, End = 0x008B, OsiDependency = ACPI_OSI_WIN_XP\<rparr>,
     \<lparr>Name = ''DMA2L'', Start = 0x008F, End = 0x008F, OsiDependency = ACPI_OSI_WIN_XP\<rparr>,
     \<lparr>Name = ''ARBC'', Start = 0x0090, End = 0x0091, OsiDependency = ACPI_OSI_WIN_XP\<rparr>,
     \<lparr>Name = ''SETUP'', Start = 0x0093, End = 0x0094, OsiDependency = ACPI_OSI_WIN_XP\<rparr>,
     \<lparr>Name = ''POS'', Start = 0x0096, End = 0x0097, OsiDependency = ACPI_OSI_WIN_XP\<rparr>,
     \<lparr>Name = ''PIC1'', Start = 0x00A0, End = 0x00A1, OsiDependency = ACPI_ALWAYS_ILLEGAL\<rparr>,
     \<lparr>Name = ''IDMA'', Start = 0x00C0, End = 0x00DF, OsiDependency = ACPI_OSI_WIN_XP\<rparr>,
     \<lparr>Name = ''ELCR'', Start = 0x04D0, End = 0x04D1, OsiDependency = ACPI_ALWAYS_ILLEGAL\<rparr>,
     \<lparr>Name = ''PCI'', Start = 0x0CF8, End = 0x0CFF, OsiDependency = ACPI_OSI_WIN_XP\<rparr>]"

section \<open>The check\<close>

text \<open>The loop over the table: it stops at the first port range that reaches beyond the request.\<close>

fun check_ports :: "u8 \<Rightarrow> u64 \<Rightarrow> u64 \<Rightarrow> acpi_port_info list \<Rightarrow> u32" where
  "check_ports osi Address LastAddress [] = AE_OK"
| "check_ports osi Address LastAddress (PortInfo # ps) =
     (if Address \<le> ucast (End PortInfo) \<and> LastAddress \<ge> ucast (Start PortInfo) \<and> osi \<ge> OsiDependency PortInfo
      then AE_AML_ILLEGAL_ADDRESS
      else if LastAddress \<le> ucast (End PortInfo) then AE_OK
      else check_ports osi Address LastAddress ps)"

definition AcpiHwValidateIoRequest :: "u8 \<Rightarrow> u64 \<Rightarrow> u32 \<Rightarrow> u32" where
  "AcpiHwValidateIoRequest osi Address BitWidth =
     (if BitWidth \<noteq> 8 \<and> BitWidth \<noteq> 16 \<and> BitWidth \<noteq> 32 then AE_BAD_PARAMETER
      else
        (let ByteWidth = BitWidth div 8;
             LastAddress = Address + ucast ByteWidth - 1
         in if LastAddress > 0xFFFF then AE_LIMIT
            else if Address > ucast (End (last AcpiProtectedPorts)) then AE_OK
            else check_ports osi Address LastAddress AcpiProtectedPorts))"

section \<open>Reads and writes\<close>

record acpi_port_state = io_state +
  AcpiGbl_OsiData :: u8
  AcpiGbl_TruncateIoAddresses :: u8

text \<open>
  The loops over the bytes of a request: \<open>n\<close> of them are left, \<open>i\<close> is the shift of the next.
  They end early with the status of a service that fails.
\<close>

fun read_bytes :: "'a acpi_port_state_scheme \<Rightarrow> u64 \<Rightarrow> u32 \<Rightarrow> nat \<Rightarrow> nat \<Rightarrow> 'a acpi_port_state_scheme \<times> u32 \<times> u32" where
  "read_bytes s Address Value i 0 = (s, Value, AE_OK)"
| "read_bytes s Address Value i (Suc n) =
     (if AcpiHwValidateIoRequest (AcpiGbl_OsiData s) Address 8 = AE_OK then
        (let (s, OneByte, Status) = AcpiOsReadPort s Address 0 8 in
         if ACPI_FAILURE Status then (s, Value, Status)
         else read_bytes s (Address + 1) (Value OR push_bit i OneByte) (i + 8) n)
      else read_bytes s (Address + 1) Value (i + 8) n)"

definition truncated :: "'a acpi_port_state_scheme \<Rightarrow> u64 \<Rightarrow> u64" where
  "truncated s Address = (if AcpiGbl_TruncateIoAddresses s \<noteq> 0 then Address AND 0xFFFF else Address)"

definition AcpiHwReadPort ::
  "'a acpi_port_state_scheme \<Rightarrow> u64 \<Rightarrow> u32 \<Rightarrow> u32 \<Rightarrow> 'a acpi_port_state_scheme \<times> u32 \<times> u32" where
  "AcpiHwReadPort s Address Value Width =
     (let Address = truncated s Address;
          Status = AcpiHwValidateIoRequest (AcpiGbl_OsiData s) Address Width
      in if \<not> ACPI_FAILURE Status then AcpiOsReadPort s Address Value Width
         else if Status \<noteq> AE_AML_ILLEGAL_ADDRESS then (s, Value, Status)
         else read_bytes s Address 0 0 ((unat Width + 7) div 8))"

fun write_bytes :: "'a acpi_port_state_scheme \<Rightarrow> u64 \<Rightarrow> u32 \<Rightarrow> nat \<Rightarrow> nat \<Rightarrow> 'a acpi_port_state_scheme \<times> u32" where
  "write_bytes s Address Value i 0 = (s, AE_OK)"
| "write_bytes s Address Value i (Suc n) =
     (if AcpiHwValidateIoRequest (AcpiGbl_OsiData s) Address 8 = AE_OK then
        (let (s, Status) = AcpiOsWritePort s Address (drop_bit i Value AND 0xFF) 8 in
         if ACPI_FAILURE Status then (s, Status)
         else write_bytes s (Address + 1) Value (i + 8) n)
      else write_bytes s (Address + 1) Value (i + 8) n)"

definition AcpiHwWritePort ::
  "'a acpi_port_state_scheme \<Rightarrow> u64 \<Rightarrow> u32 \<Rightarrow> u32 \<Rightarrow> 'a acpi_port_state_scheme \<times> u32" where
  "AcpiHwWritePort s Address Value Width =
     (let Address = truncated s Address;
          Status = AcpiHwValidateIoRequest (AcpiGbl_OsiData s) Address Width
      in if \<not> ACPI_FAILURE Status then AcpiOsWritePort s Address Value Width
         else if Status \<noteq> AE_AML_ILLEGAL_ADDRESS then (s, Status)
         else write_bytes s Address Value 0 ((unat Width + 7) div 8))"

section \<open>What is protected\<close>

text \<open>A port is protected when some range of the table holds it and the firmware has asked for as much.\<close>

definition protected :: "u8 \<Rightarrow> nat \<Rightarrow> bool" where
  "protected osi p \<longleftrightarrow>
     (\<exists>i \<in> set AcpiProtectedPorts. unat (Start i) \<le> p \<and> p \<le> unat (End i) \<and> OsiDependency i \<le> osi)"

definition ports_ordered :: "acpi_port_info list \<Rightarrow> bool" where
  "ports_ordered ps \<longleftrightarrow> sorted_wrt (\<lambda>i j. End i < Start j) ps \<and> (\<forall>i \<in> set ps. Start i \<le> End i)"

lemma protected_ports_ordered: "ports_ordered AcpiProtectedPorts"
  by (simp add: ports_ordered_def AcpiProtectedPorts_def)

lemma last_port: "End (last AcpiProtectedPorts) = 0xCFF"
  by (simp add: AcpiProtectedPorts_def)

lemma port_end_bound: "\<forall>i \<in> set AcpiProtectedPorts. End i \<le> 0xCFF"
  by (simp add: AcpiProtectedPorts_def)

lemma unat_port [simp]: "unat (ucast (p :: u16) :: u64) = unat p"
proof -
  have "unat p < 2 ^ 16" using unsigned_less [of p] by simp
  then show ?thesis by (simp add: unsigned_ucast_eq take_bit_nat_eq_self)
qed

text \<open>The loop may stop early because the table is ordered.\<close>

lemma check_ports_exists:
  assumes "ports_ordered ps"
  shows "check_ports osi a b ps =
    (if \<exists>i \<in> set ps. a \<le> ucast (End i) \<and> ucast (Start i) \<le> b \<and> OsiDependency i \<le> osi
     then AE_AML_ILLEGAL_ADDRESS else AE_OK)"
  using assms
proof (induction ps)
  case (Cons p ps)
  have tail: "ports_ordered ps" using Cons.prems by (simp add: ports_ordered_def)
  have later: "\<not> ucast (Start i) \<le> b" if "i \<in> set ps" "b \<le> ucast (End p)" for i
  proof -
    have "End p < Start i" using Cons.prems that(1) by (simp add: ports_ordered_def)
    then have "unat (End p) < unat (Start i)" by (simp add: word_less_nat_alt)
    moreover have "unat b \<le> unat (End p)" using that(2) by (simp add: word_le_nat_alt)
    ultimately show ?thesis by (simp add: word_le_nat_alt)
  qed
  show ?case using Cons.IH [OF tail] later by auto
qed simp

lemma overlap_ports:
  fixes a b :: u64
  assumes "unat a \<le> unat b"
  shows "(\<exists>i \<in> set AcpiProtectedPorts. a \<le> ucast (End i) \<and> ucast (Start i) \<le> b \<and> OsiDependency i \<le> osi) \<longleftrightarrow>
    (\<exists>p \<in> {unat a..unat b}. protected osi p)"
proof
  assume "\<exists>i \<in> set AcpiProtectedPorts. a \<le> ucast (End i) \<and> ucast (Start i) \<le> b \<and> OsiDependency i \<le> osi"
  then obtain i where i: "i \<in> set AcpiProtectedPorts" "unat a \<le> unat (End i)" "unat (Start i) \<le> unat b" "OsiDependency i \<le> osi"
    by (auto simp: word_le_nat_alt)
  have "unat (Start i) \<le> unat (End i)"
    using protected_ports_ordered i(1) by (auto simp: ports_ordered_def word_le_nat_alt)
  then have "protected osi (max (unat a) (unat (Start i)))"
    unfolding protected_def using i by (intro bexI [OF _ i(1)]) auto
  moreover have "max (unat a) (unat (Start i)) \<in> {unat a..unat b}" using assms i(3) by simp
  ultimately show "\<exists>p \<in> {unat a..unat b}. protected osi p" ..
next
  assume "\<exists>p \<in> {unat a..unat b}. protected osi p"
  then obtain p i where "unat a \<le> p" "p \<le> unat b" "i \<in> set AcpiProtectedPorts" "unat (Start i) \<le> p" "p \<le> unat (End i)"
    "OsiDependency i \<le> osi" by (auto simp: protected_def)
  then show "\<exists>i \<in> set AcpiProtectedPorts. a \<le> ucast (End i) \<and> ucast (Start i) \<le> b \<and> OsiDependency i \<le> osi"
    by (intro bexI [of _ i]) (auto simp: word_le_nat_alt)
qed

lemma beyond_table: "\<not> protected osi p" if "p > 0xCFF"
proof
  assume "protected osi p"
  then obtain i where "i \<in> set AcpiProtectedPorts" "p \<le> unat (End i)" by (auto simp: protected_def)
  then show False using port_end_bound that by (fastforce simp: word_le_nat_alt)
qed

section \<open>The check against its meaning\<close>

definition byte_width :: "u32 \<Rightarrow> nat" where "byte_width w = unat w div 8"

lemma width_cases: "w \<in> {8, 16, 32} \<Longrightarrow> byte_width w \<in> {1, 2, 4} \<and> unat (w div 8) = byte_width w" for w :: u32
  by (auto simp: byte_width_def)

lemma last_address:
  assumes "w \<in> {8, 16, 32}" "unat a + 3 < 2 ^ 64"
  shows "unat (a + ucast (w div 8 :: u32) - 1 :: u64) = unat a + byte_width w - 1"
proof -
  have "a + ucast (w div 8 :: u32) - 1 = a + of_nat (byte_width w - 1)"
    using assms(1) by (auto simp: byte_width_def)
  moreover have "unat (a + of_nat (byte_width w - 1)) = unat a + (byte_width w - 1)"
  proof -
    have "byte_width w - 1 \<le> 3" using width_cases [OF assms(1)] by auto
    then show ?thesis using assms(2) by (simp add: unat_word_ariths unsigned_of_nat take_bit_nat_eq_self)
  qed
  moreover have "byte_width w \<ge> 1" using width_cases [OF assms(1)] by auto
  ultimately show ?thesis by (simp only: Nat.add_diff_assoc)
qed

definition validated :: "u8 \<Rightarrow> nat \<Rightarrow> nat \<Rightarrow> u32" where
  "validated osi a n =
     (if a + n > 0x10000 then AE_LIMIT
      else if \<exists>p \<in> {a..<a + n}. protected osi p then AE_AML_ILLEGAL_ADDRESS else AE_OK)"

lemma validate_request:
  assumes w: "w \<in> {8, 16, 32}" and a: "unat a + 3 < 2 ^ 64"
  shows "AcpiHwValidateIoRequest osi a w = validated osi (unat a) (byte_width w)"
proof -
  define b where "b = a + ucast (w div 8 :: u32) - 1"
  have b: "unat b = unat a + byte_width w - 1" unfolding b_def by (rule last_address [OF w a])
  have n: "byte_width w \<ge> 1" using width_cases [OF w] by auto
  have range: "{unat a..unat b} = {unat a..<unat a + byte_width w}" using b n by auto
  have high: "(b > 0xFFFF) = (unat a + byte_width w > 0x10000)" using b n unfolding word_less_nat_alt by (simp, linarith)
  have far: "(\<exists>p \<in> {unat a..unat b}. protected osi p) = False" if "a > ucast (0xCFF :: u16)"
    using that beyond_table by (auto simp: word_less_nat_alt)
  have loop: "check_ports osi a b AcpiProtectedPorts =
    (if \<exists>p \<in> {unat a..unat b}. protected osi p then AE_AML_ILLEGAL_ADDRESS else AE_OK)"
    using b n by (subst check_ports_exists [OF protected_ports_ordered], subst overlap_ports) auto
  have unfold: "AcpiHwValidateIoRequest osi a w =
    (if b > 0xFFFF then AE_LIMIT else if a > ucast (0xCFF :: u16) then AE_OK else check_ports osi a b AcpiProtectedPorts)"
    using w by (auto simp: AcpiHwValidateIoRequest_def b_def last_port Let_def)
  show ?thesis
    unfolding unfold validated_def high loop using far unfolding range by auto
qed


section \<open>Accesses that keep to the rules\<close>

lemma validate_byte:
  assumes "unat a < 0x10000"
  shows "AcpiHwValidateIoRequest osi a 8 = (if protected osi (unat a) then AE_AML_ILLEGAL_ADDRESS else AE_OK)"
proof -
  have "{unat a..<unat a + 1} = {unat a}" by auto
  then show ?thesis using validate_request [of 8 a osi] assms by (simp add: validated_def byte_width_def)
qed

lemma illegal_status: "AE_AML_ILLEGAL_ADDRESS \<noteq> AE_OK" "ACPI_FAILURE AE_AML_ILLEGAL_ADDRESS" "\<not> ACPI_FAILURE AE_OK"
  "AE_LIMIT \<noteq> AE_AML_ILLEGAL_ADDRESS" "ACPI_FAILURE AE_LIMIT" "AE_LIMIT \<noteq> AE_OK"
  "AE_OK \<noteq> AE_AML_ILLEGAL_ADDRESS"
  by (simp_all add: acpi_status ACPI_FAILURE_def)

text \<open>The indices of the bytes of a request at \<open>a\<close> that may be accessed.\<close>

definition allowed :: "u8 \<Rightarrow> nat \<Rightarrow> nat \<Rightarrow> nat list" where
  "allowed osi a n = filter (\<lambda>j. \<not> protected osi (a + j)) [0..<n]"

lemma allowed_0 [simp]: "allowed osi a 0 = []"
  by (simp add: allowed_def)

lemma allowed_Suc: "allowed osi a (Suc n) = (if protected osi a then [] else [0]) @ map Suc (allowed osi (Suc a) n)"
  unfolding allowed_def upt_conv_Cons [OF zero_less_Suc] map_Suc_upt [symmetric]
  by (simp add: filter_map o_def)

definition byte_writes :: "u8 \<Rightarrow> nat \<Rightarrow> u32 \<Rightarrow> nat \<Rightarrow> nat \<Rightarrow> io_event list" where
  "byte_writes osi a V i n =
     map (\<lambda>j. Out8 (of_nat (a + j)) (ucast (drop_bit (i + 8 * j) V))) (allowed osi a n)"

lemma unat_next: "unat (a + 1 :: u64) = Suc (unat a)" if "unat a < 0x10000"
  using that by (simp add: unat_word_ariths)

lemma port_of: "ucast (a :: u64) = (of_nat (unat a) :: u16)"
  by (simp only: of_nat_unat)

lemma write_bytes_ok:
  assumes "unat a + n \<le> 0x10000"
  shows "write_bytes s a V i n =
    (s\<lparr>io_log := io_log s @ byte_writes (AcpiGbl_OsiData s) (unat a) V i n\<rparr>, AE_OK)"
  using assms
proof (induction n arbitrary: s a i)
  case 0
  then show ?case by (simp add: byte_writes_def)
next
  case (Suc n)
  have a: "unat a < 0x10000" using Suc.prems by simp
  have next_a: "unat (a + 1) + n \<le> 0x10000" using Suc.prems unat_next [OF a] by simp
  have byte: "ucast (drop_bit i V AND 0xFF :: u32) = (ucast (drop_bit i V) :: u8)"
  proof -
    have ff: "0xFF = (mask 8 :: u32)" by (simp add: mask_eq_exp_minus_1)
    show ?thesis unfolding ff by (rule bit_word_eqI) (auto simp: bit_simps simp del: mask_numeral)
  qed
  have IH: "write_bytes s' (1 + a) V j n =
    (s'\<lparr>io_log := io_log s' @ byte_writes (AcpiGbl_OsiData s') (Suc (unat a)) V j n\<rparr>, AE_OK)"
    for s' :: "'a acpi_port_state_scheme" and j
    using Suc.IH [OF next_a, of s' j] unat_next [OF a] by (simp add: add.commute)
  show ?case
    by (simp add: validate_byte [OF a] illegal_status AcpiOsWritePort_def io_out8_def tell_def
        IH byte_writes_def allowed_Suc ACPI_FAILURE_def byte port_of
        o_def algebra_simps del: of_nat_unat)
qed

definition event_ports :: "io_event \<Rightarrow> nat set" where
  "event_ports e = (case e of
     Out8 p _ \<Rightarrow> {unat p} | Out16 p _ \<Rightarrow> {unat p..<unat p + 2} | Out32 p _ \<Rightarrow> {unat p..<unat p + 4}
   | In8 p \<Rightarrow> {unat p} | In16 p \<Rightarrow> {unat p..<unat p + 2} | In32 p \<Rightarrow> {unat p..<unat p + 4} | _ \<Rightarrow> {})"

definition whole_write :: "nat \<Rightarrow> u32 \<Rightarrow> u32 \<Rightarrow> io_event" where
  "whole_write a V w =
     (if w = 8 then Out8 (of_nat a) (ucast V) else if w = 16 then Out16 (of_nat a) (ucast V) else Out32 (of_nat a) V)"

text \<open>What a write of \<open>w\<close> bits at \<open>a\<close> should do to the ports.\<close>

definition port_writes :: "u8 \<Rightarrow> nat \<Rightarrow> u32 \<Rightarrow> u32 \<Rightarrow> io_event list" where
  "port_writes osi a V w =
     (if \<exists>p \<in> {a..<a + byte_width w}. protected osi p then byte_writes osi a V 0 (byte_width w) else [whole_write a V w])"

lemma of_nat_port: "unat (of_nat p :: u16) = p" if "p < 0x10000"
  using that by (simp add: unsigned_of_nat take_bit_nat_eq_self)

lemma byte_writes_ports:
  assumes "a + n \<le> 0x10000" "e \<in> set (byte_writes osi a V i n)" "p \<in> event_ports e"
  shows "\<not> protected osi p \<and> p \<in> {a..<a + n}"
  using assms by (auto simp: byte_writes_def allowed_def event_ports_def of_nat_port simp flip: of_nat_add)

lemma port_writes_ports:
  assumes "w \<in> {8, 16, 32}" "a + byte_width w \<le> 0x10000" "e \<in> set (port_writes osi a V w)" "p \<in> event_ports e"
  shows "\<not> protected osi p \<and> p \<in> {a..<a + byte_width w}"
proof (cases "\<exists>q \<in> {a..<a + byte_width w}. protected osi q")
  case True
  then show ?thesis using assms byte_writes_ports [OF assms(2)] by (simp add: port_writes_def)
next
  case False
  have "a < 0x10000" using assms(1,2) width_cases [OF assms(1)] by auto
  then have "p \<in> {a..<a + byte_width w}"
    using False assms by (auto simp: port_writes_def whole_write_def event_ports_def of_nat_port byte_width_def split: if_splits)
  then show ?thesis using False by blast
qed

lemma byte_count: "w \<in> {8, 16, 32} \<Longrightarrow> (unat w + 7) div 8 = byte_width w" for w :: u32
  by (auto simp: byte_width_def)

lemma AcpiHwWritePort_ok:
  assumes w: "w \<in> {8, 16, 32}" and a: "unat (truncated s Address) + byte_width w \<le> 0x10000"
  shows "AcpiHwWritePort s Address V w =
    (s\<lparr>io_log := io_log s @ port_writes (AcpiGbl_OsiData s) (unat (truncated s Address)) V w\<rparr>, AE_OK)"
proof -
  define A where "A = truncated s Address"
  have A: "unat A + byte_width w \<le> 0x10000" "unat A + 3 < 2 ^ 64" using a by (auto simp: A_def)
  have v: "AcpiHwValidateIoRequest (AcpiGbl_OsiData s) A w = validated (AcpiGbl_OsiData s) (unat A) (byte_width w)"
    by (rule validate_request [OF w A(2)])
  have os: "AcpiOsWritePort s A V w = (s\<lparr>io_log := io_log s @ [whole_write (unat A) V w]\<rparr>, AE_OK)"
    using w by (auto simp: AcpiOsWritePort_def io_out8_def io_out16_def io_out32_def tell_def whole_write_def port_of AE_OK_def
        simp del: of_nat_unat)
  show ?thesis
    unfolding AcpiHwWritePort_def Let_def A_def [symmetric] v
    using A(1) by (simp add: validated_def port_writes_def illegal_status os write_bytes_ok byte_count [OF w])
qed


section \<open>Reads\<close>

text \<open>The log when the byte with index \<open>j\<close> is read, and what the device answers to that.\<close>

definition reads_upto :: "u8 \<Rightarrow> nat \<Rightarrow> nat \<Rightarrow> io_event list" where
  "reads_upto osi a n = map (\<lambda>j. In8 (of_nat (a + j))) (allowed osi a n)"

definition byte_read :: "'a acpi_port_state_scheme \<Rightarrow> nat \<Rightarrow> nat \<Rightarrow> u8" where
  "byte_read s a j =
     (if protected (AcpiGbl_OsiData s) (a + j) then 0
      else ucast (device s (io_log s @ reads_upto (AcpiGbl_OsiData s) a (Suc j))))"

lemma reads_upto_Suc:
  "reads_upto osi a (Suc n) = (if protected osi a then [] else [In8 (of_nat a)]) @ reads_upto osi (Suc a) n"
  by (simp add: reads_upto_def allowed_Suc o_def algebra_simps)

lemma read_bytes_ok:
  assumes "unat a + n \<le> 0x10000" "i + 8 * n \<le> 32"
  shows "\<exists>v. read_bytes s a V i n =
      (s\<lparr>io_log := io_log s @ reads_upto (AcpiGbl_OsiData s) (unat a) n\<rparr>, v, AE_OK) \<and>
    (\<forall>b. bit v b \<longleftrightarrow> bit V b \<or>
       (i \<le> b \<and> b < i + 8 * n \<and> bit (byte_read s (unat a) ((b - i) div 8)) ((b - i) mod 8)))"
  using assms
proof (induction n arbitrary: s a V i)
  case 0
  then show ?case by (auto simp: reads_upto_def)
next
  case (Suc n)
  define osi where "osi = AcpiGbl_OsiData s"
  define s' where "s' = (if protected osi (unat a) then s else tell s (In8 (of_nat (unat a))))"
  define V' where "V' = V OR push_bit i (ucast (byte_read s (unat a) 0))"
  have a: "unat a < 0x10000" using Suc.prems by simp
  have next_a: "unat (a + 1) + n \<le> 0x10000" "i + 8 + 8 * n \<le> 32" using Suc.prems unat_next [OF a] by simp_all
  have step: "read_bytes s a V i (Suc n) = read_bytes s' (a + 1) V' (i + 8) n"
    by (simp add: validate_byte [OF a] illegal_status AcpiOsReadPort_def io_in8_def ask_def s'_def V'_def osi_def
        byte_read_def reads_upto_Suc ACPI_FAILURE_def port_of reads_upto_def allowed_Suc del: of_nat_unat split: prod.split)
  have later: "byte_read s' (Suc (unat a)) j = byte_read s (unat a) (Suc j)" for j
    by (simp add: byte_read_def s'_def osi_def tell_def reads_upto_Suc [of _ "unat a" "Suc j"])
  obtain v where v: "read_bytes s' (a + 1) V' (i + 8) n =
      (s'\<lparr>io_log := io_log s' @ reads_upto (AcpiGbl_OsiData s') (Suc (unat a)) n\<rparr>, v, AE_OK)"
    and bits: "\<And>b. bit v b \<longleftrightarrow> bit V' b \<or>
       (i + 8 \<le> b \<and> b < i + 8 + 8 * n \<and> bit (byte_read s (unat a) (Suc ((b - (i + 8)) div 8))) ((b - (i + 8)) mod 8))"
    using Suc.IH [OF next_a, of s' V'] unfolding unat_next [OF a] later by blast
  have state: "s'\<lparr>io_log := io_log s' @ reads_upto (AcpiGbl_OsiData s') (Suc (unat a)) n\<rparr> =
      s\<lparr>io_log := io_log s @ reads_upto osi (unat a) (Suc n)\<rparr>"
    by (simp add: s'_def osi_def tell_def reads_upto_Suc)
  have "bit v b \<longleftrightarrow> bit V b \<or>
      (i \<le> b \<and> b < i + 8 * Suc n \<and> bit (byte_read s (unat a) ((b - i) div 8)) ((b - i) mod 8))" for b
  proof -
    have first: "bit V' b \<longleftrightarrow> bit V b \<or> (i \<le> b \<and> b < i + 8 \<and> bit (byte_read s (unat a) 0) (b - i))"
      using Suc.prems(2) bit_imp_le_length [of "byte_read s (unat a) 0" "b - i"]
      by (auto simp: V'_def bit_simps)
    show ?thesis
    proof (cases "i + 8 \<le> b")
      case True
      then obtain c where c: "b = i + 8 + c" by (auto simp: le_iff_add)
      then have d: "(b - i) div 8 = Suc ((b - (i + 8)) div 8)" "(b - i) mod 8 = (b - (i + 8)) mod 8" by simp_all
      show ?thesis using True unfolding bits first d by auto
    next
      case False
      then show ?thesis by (auto simp: bits first)
    qed
  qed
  then show ?case unfolding step v state by (auto simp: osi_def)
qed


definition whole_read :: "nat \<Rightarrow> u32 \<Rightarrow> io_event" where
  "whole_read a w = (if w = 8 then In8 (of_nat a) else if w = 16 then In16 (of_nat a) else In32 (of_nat a))"

definition port_reads :: "u8 \<Rightarrow> nat \<Rightarrow> u32 \<Rightarrow> io_event list" where
  "port_reads osi a w =
     (if \<exists>p \<in> {a..<a + byte_width w}. protected osi p then reads_upto osi a (byte_width w) else [whole_read a w])"

text \<open>The value a read of \<open>w\<close> bits should give: what the device answers, with zeros for protected bytes.\<close>

definition value_read :: "'a acpi_port_state_scheme \<Rightarrow> nat \<Rightarrow> u32 \<Rightarrow> nat \<Rightarrow> bool" where
  "value_read s a w b \<longleftrightarrow> b < unat w \<and>
     (if \<exists>p \<in> {a..<a + byte_width w}. protected (AcpiGbl_OsiData s) p then bit (byte_read s a (b div 8)) (b mod 8)
      else bit (device s (io_log s @ [whole_read a w])) b)"

lemma reads_upto_ports:
  assumes "a + n \<le> 0x10000" "e \<in> set (reads_upto osi a n)" "p \<in> event_ports e"
  shows "\<not> protected osi p \<and> p \<in> {a..<a + n}"
  using assms by (auto simp: reads_upto_def allowed_def event_ports_def of_nat_port simp flip: of_nat_add)

lemma port_reads_ports:
  assumes "w \<in> {8, 16, 32}" "a + byte_width w \<le> 0x10000" "e \<in> set (port_reads osi a w)" "p \<in> event_ports e"
  shows "\<not> protected osi p \<and> p \<in> {a..<a + byte_width w}"
proof (cases "\<exists>q \<in> {a..<a + byte_width w}. protected osi q")
  case True
  then show ?thesis using assms reads_upto_ports [OF assms(2)] by (simp add: port_reads_def)
next
  case False
  have "a < 0x10000" using assms(1,2) width_cases [OF assms(1)] by auto
  then have "p \<in> {a..<a + byte_width w}"
    using False assms by (auto simp: port_reads_def whole_read_def event_ports_def of_nat_port byte_width_def split: if_splits)
  then show ?thesis using False by blast
qed

lemma AcpiHwReadPort_ok:
  assumes w: "w \<in> {8, 16, 32}" and a: "unat (truncated s Address) + byte_width w \<le> 0x10000"
  shows "\<exists>v. AcpiHwReadPort s Address V w =
      (s\<lparr>io_log := io_log s @ port_reads (AcpiGbl_OsiData s) (unat (truncated s Address)) w\<rparr>, v, AE_OK) \<and>
    (\<forall>b. bit v b \<longleftrightarrow> value_read s (unat (truncated s Address)) w b)"
proof -
  define A where "A = truncated s Address"
  have A: "unat A + byte_width w \<le> 0x10000" "unat A + 3 < 2 ^ 64" using a by (auto simp: A_def)
  have v: "AcpiHwValidateIoRequest (AcpiGbl_OsiData s) A w = validated (AcpiGbl_OsiData s) (unat A) (byte_width w)"
    by (rule validate_request [OF w A(2)])
  have n: "0 + 8 * byte_width w \<le> 32" "8 * byte_width w = unat w" using w by (auto simp: byte_width_def)
  show ?thesis
  proof (cases "\<exists>p \<in> {unat A..<unat A + byte_width w}. protected (AcpiGbl_OsiData s) p")
    case True
    then have "AcpiHwReadPort s Address V w = read_bytes s A 0 0 (byte_width w)"
      using A(1) by (simp add: AcpiHwReadPort_def A_def [symmetric] v validated_def illegal_status byte_count [OF w])
    then show ?thesis
      using read_bytes_ok [OF A(1) n(1), of s 0] True n(2)
      by (auto simp: A_def [symmetric] port_reads_def value_read_def)
  next
    case False
    then have "AcpiHwReadPort s Address V w = AcpiOsReadPort s A V w"
      using A(1) by (simp add: AcpiHwReadPort_def A_def [symmetric] v validated_def illegal_status)
    moreover have "\<exists>v. AcpiOsReadPort s A V w = (s\<lparr>io_log := io_log s @ [whole_read (unat A) w]\<rparr>, v, AE_OK) \<and>
      (\<forall>b. bit v b \<longleftrightarrow> b < unat w \<and> bit (device s (io_log s @ [whole_read (unat A) w])) b)"
      using w by (auto simp: AcpiOsReadPort_def io_in8_def io_in16_def io_in32_def ask_def tell_def whole_read_def port_of
          AE_OK_def bit_simps simp del: of_nat_unat)
    ultimately show ?thesis
      using False by (auto simp: A_def [symmetric] port_reads_def value_read_def)
  qed
qed

section \<open>Properties\<close>

text \<open>
  The check of a request is what it should be: an unsupported width is a bad parameter, a
  request beyond the 64K ports is over the limit, and otherwise it is illegal exactly when one of
  its ports is in a range of the table that applies; the two early exits of the code lose nothing.
  The last address must not wrap.
\<close>

theorem validate_io_request_exact:
  assumes "unat Address + 3 < 2 ^ 64"
  shows "AcpiHwValidateIoRequest osi Address BitWidth =
    (if BitWidth \<notin> {8, 16, 32} then AE_BAD_PARAMETER
     else if unat Address + byte_width BitWidth > 0x10000 then AE_LIMIT
     else if \<exists>p \<in> {unat Address..<unat Address + byte_width BitWidth}. \<exists>i \<in> set AcpiProtectedPorts.
               unat (Start i) \<le> p \<and> p \<le> unat (End i) \<and> OsiDependency i \<le> osi
     then AE_AML_ILLEGAL_ADDRESS else AE_OK)"
proof (cases "BitWidth \<in> {8, 16, 32}")
  case True
  then show ?thesis unfolding validate_request [OF True assms] validated_def protected_def by simp
next
  case False
  then show ?thesis by (auto simp: AcpiHwValidateIoRequest_def)
qed

theorem validate_io_request_exact_witness:
  "AcpiHwValidateIoRequest 0 0x1f 16 = AE_AML_ILLEGAL_ADDRESS \<and> AcpiHwValidateIoRequest 0 0x3f8 8 = AE_OK"
proof -
  have "\<exists>p \<in> {0x1f..<0x21 :: nat}. \<exists>i \<in> set AcpiProtectedPorts. unat (Start i) \<le> p \<and> p \<le> unat (End i) \<and> OsiDependency i \<le> 0"
    by (rule bexI [of _ "0x20 :: nat"]) (simp_all add: AcpiProtectedPorts_def ACPI_ALWAYS_ILLEGAL_def)
  moreover have "\<not> (\<exists>p \<in> {0x3f8..<0x3f9 :: nat}. \<exists>i \<in> set AcpiProtectedPorts. unat (Start i) \<le> p \<and> p \<le> unat (End i) \<and> OsiDependency i \<le> 0)"
    by (simp add: AcpiProtectedPorts_def ACPI_OSI_WIN_XP_def)
  ultimately show ?thesis
    using validate_io_request_exact [where Address = "0x1f" and osi = "0" and BitWidth = 16]
      validate_io_request_exact [where Address = "0x3f8" and osi = "0" and BitWidth = 8]
    by (auto simp: byte_width_def)
qed

text \<open>
  C20: A write or read of 8, 16 or 32 bits within the 64K ports succeeds and makes one access when no
  port of it is protected, and otherwise one byte access for each port that is not, in order, with
  the byte of the value that belongs there; the protected bytes of a read are zero.  No access ever
  reaches a protected port or one outside of the request.
\<close>

theorem port_access_filtered:
  assumes "Width \<in> {8, 16, 32}" "unat (truncated s Address) + byte_width Width \<le> 0x10000"
  defines "a \<equiv> unat (truncated s Address)"
  shows "AcpiHwWritePort s Address V Width = (s\<lparr>io_log := io_log s @ port_writes (AcpiGbl_OsiData s) a V Width\<rparr>, AE_OK) \<and>
    (\<exists>v. AcpiHwReadPort s Address V Width = (s\<lparr>io_log := io_log s @ port_reads (AcpiGbl_OsiData s) a Width\<rparr>, v, AE_OK) \<and>
      (\<forall>b. bit v b \<longleftrightarrow> value_read s a Width b)) \<and>
    (\<forall>e \<in> set (port_writes (AcpiGbl_OsiData s) a V Width @ port_reads (AcpiGbl_OsiData s) a Width). \<forall>p \<in> event_ports e.
      \<not> protected (AcpiGbl_OsiData s) p \<and> p \<in> {a..<a + byte_width Width})"
  using AcpiHwWritePort_ok [OF assms(1,2)] AcpiHwReadPort_ok [OF assms(1,2)]
    port_writes_ports [OF assms(1,2)] port_reads_ports [OF assms(1,2)]
  unfolding a_def by auto

definition example_ports :: acpi_port_state where
  "example_ports = \<lparr>io_log = [], device = \<lambda>_. 0xAB, AcpiGbl_OsiData = 0, AcpiGbl_TruncateIoAddresses = 0\<rparr>"

theorem port_access_filtered_witness:
  "io_log (fst (AcpiHwWritePort example_ports 0x1f 0x1234 16)) = [Out8 0x1f 0x34]"
proof -
  have protected: "protected 0 0x20" "\<not> protected 0 0x1f"
    by (simp_all add: protected_def AcpiProtectedPorts_def ACPI_ALWAYS_ILLEGAL_def ACPI_OSI_WIN_XP_def)
  have "\<exists>p \<in> {0x1f..<0x21 :: nat}. protected 0 p" using protected(1) by (intro bexI [of _ "0x20 :: nat"]) simp_all
  then have "port_writes 0 0x1f 0x1234 16 = [Out8 0x1f 0x34]"
    using protected by (simp add: port_writes_def byte_width_def byte_writes_def allowed_def upt_rec)
  then show ?thesis
    using port_access_filtered [where Width = 16 and s = example_ports and Address = "0x1f" and V = "0x1234"]
    by (simp add: example_ports_def truncated_def byte_width_def)
qed

text \<open>
  An address whose last byte wraps around is taken for one below 64K: a request at the end of the
  64-bit space is let through, and its port number is the address cut to 16 bits.
\<close>

lemma validate_wraps: "AcpiHwValidateIoRequest osi 0xFFFFFFFFFFFFFFFF 16 = AE_OK"
  by (simp add: AcpiHwValidateIoRequest_def last_port)

end
