(* ===== verification/Acpi_Clib.thy ===== *)
theory Acpi_Clib
  imports Clib_Mem Acpi_Owner "HOL-Library.Sublist"
begin

text \<open>
  The C library functions ACPICA brings along (\<^verbatim>\<open>kernel/hw/acpica/utclib.c\<close>, which the build uses:
  \<^verbatim>\<open>ACPI_USE_SYSTEM_CLIBRARY\<close> is not defined), on the byte memory of the prelude.  A function that
  looks for a terminating zero need not return, and is an option.  Those that return their
  destination are given by the memory they leave.
\<close>

section \<open>Character classes\<close>

definition ACPI_XS :: u8 where "ACPI_XS = 0x40"
definition ACPI_CN :: u8 where "ACPI_CN = 0x20"
definition ACPI_DI :: u8 where "ACPI_DI = 0x04"
definition ACPI_LO :: u8 where "ACPI_LO = 0x02"
definition ACPI_PU :: u8 where "ACPI_PU = 0x10"
definition ACPI_SP :: u8 where "ACPI_SP = 0x08"
definition ACPI_UP :: u8 where "ACPI_UP = 0x01"
definition ACPI_XD :: u8 where "ACPI_XD = 0x80"

lemmas acpi_ctype_flags = ACPI_XS_def ACPI_CN_def ACPI_DI_def ACPI_LO_def ACPI_PU_def ACPI_SP_def ACPI_UP_def ACPI_XD_def

definition AcpiGbl_Ctypes :: "u8 list" where
  "AcpiGbl_Ctypes =
    [ACPI_CN, ACPI_CN, ACPI_CN, ACPI_CN,
     ACPI_CN, ACPI_CN, ACPI_CN, ACPI_CN,
     ACPI_CN, ACPI_CN OR ACPI_SP, ACPI_CN OR ACPI_SP, ACPI_CN OR ACPI_SP,
     ACPI_CN OR ACPI_SP, ACPI_CN OR ACPI_SP, ACPI_CN, ACPI_CN,
     ACPI_CN, ACPI_CN, ACPI_CN, ACPI_CN,
     ACPI_CN, ACPI_CN, ACPI_CN, ACPI_CN,
     ACPI_CN, ACPI_CN, ACPI_CN, ACPI_CN,
     ACPI_CN, ACPI_CN, ACPI_CN, ACPI_CN,
     ACPI_XS OR ACPI_SP, ACPI_PU, ACPI_PU, ACPI_PU,
     ACPI_PU, ACPI_PU, ACPI_PU, ACPI_PU,
     ACPI_PU, ACPI_PU, ACPI_PU, ACPI_PU,
     ACPI_PU, ACPI_PU, ACPI_PU, ACPI_PU,
     ACPI_XD OR ACPI_DI, ACPI_XD OR ACPI_DI, ACPI_XD OR ACPI_DI, ACPI_XD OR ACPI_DI,
     ACPI_XD OR ACPI_DI, ACPI_XD OR ACPI_DI, ACPI_XD OR ACPI_DI, ACPI_XD OR ACPI_DI,
     ACPI_XD OR ACPI_DI, ACPI_XD OR ACPI_DI, ACPI_PU, ACPI_PU,
     ACPI_PU, ACPI_PU, ACPI_PU, ACPI_PU,
     ACPI_PU, ACPI_XD OR ACPI_UP, ACPI_XD OR ACPI_UP, ACPI_XD OR ACPI_UP,
     ACPI_XD OR ACPI_UP, ACPI_XD OR ACPI_UP, ACPI_XD OR ACPI_UP, ACPI_UP,
     ACPI_UP, ACPI_UP, ACPI_UP, ACPI_UP,
     ACPI_UP, ACPI_UP, ACPI_UP, ACPI_UP,
     ACPI_UP, ACPI_UP, ACPI_UP, ACPI_UP,
     ACPI_UP, ACPI_UP, ACPI_UP, ACPI_UP,
     ACPI_UP, ACPI_UP, ACPI_UP, ACPI_PU,
     ACPI_PU, ACPI_PU, ACPI_PU, ACPI_PU,
     ACPI_PU, ACPI_XD OR ACPI_LO, ACPI_XD OR ACPI_LO, ACPI_XD OR ACPI_LO,
     ACPI_XD OR ACPI_LO, ACPI_XD OR ACPI_LO, ACPI_XD OR ACPI_LO, ACPI_LO,
     ACPI_LO, ACPI_LO, ACPI_LO, ACPI_LO,
     ACPI_LO, ACPI_LO, ACPI_LO, ACPI_LO,
     ACPI_LO, ACPI_LO, ACPI_LO, ACPI_LO,
     ACPI_LO, ACPI_LO, ACPI_LO, ACPI_LO,
     ACPI_LO, ACPI_LO, ACPI_LO, ACPI_PU,
     ACPI_PU, ACPI_PU, ACPI_PU, ACPI_CN]
    @ replicate 128 0 @ [0]"

definition isdigit :: "u8 \<Rightarrow> u8" where "isdigit c = AcpiGbl_Ctypes ! unat c AND ACPI_DI"
definition isspace :: "u8 \<Rightarrow> u8" where "isspace c = AcpiGbl_Ctypes ! unat c AND ACPI_SP"
definition isxdigit :: "u8 \<Rightarrow> u8" where "isxdigit c = AcpiGbl_Ctypes ! unat c AND ACPI_XD"
definition isupper :: "u8 \<Rightarrow> u8" where "isupper c = AcpiGbl_Ctypes ! unat c AND ACPI_UP"
definition islower :: "u8 \<Rightarrow> u8" where "islower c = AcpiGbl_Ctypes ! unat c AND ACPI_LO"
definition isprint :: "u8 \<Rightarrow> u8" where
  "isprint c = AcpiGbl_Ctypes ! unat c AND (ACPI_LO OR ACPI_UP OR ACPI_DI OR ACPI_XS OR ACPI_PU)"
definition isalpha :: "u8 \<Rightarrow> u8" where "isalpha c = AcpiGbl_Ctypes ! unat c AND (ACPI_LO OR ACPI_UP)"

text \<open>An \<^verbatim>\<open>int\<close> is a 32-bit word.\<close>

definition toupper :: "u32 \<Rightarrow> u32" where "toupper c = (if islower (ucast c) \<noteq> 0 then c - 0x20 else c)"
definition tolower :: "u32 \<Rightarrow> u32" where "tolower c = (if isupper (ucast c) \<noteq> 0 then c + 0x20 else c)"

section \<open>Blocks\<close>

fun memcmp_loop :: "bytes \<Rightarrow> ptr \<Rightarrow> ptr \<Rightarrow> nat \<Rightarrow> int" where
  "memcmp_loop m Buffer1 Buffer2 0 = 0"
| "memcmp_loop m Buffer1 Buffer2 (Suc Count) =
     (if m Buffer1 = m Buffer2 then memcmp_loop m (Buffer1 + 1) (Buffer2 + 1) Count
      else uint (m Buffer1) - uint (m Buffer2))"

definition memcmp :: "bytes \<Rightarrow> ptr \<Rightarrow> ptr \<Rightarrow> u64 \<Rightarrow> int" where
  "memcmp m Buffer1 Buffer2 Count = memcmp_loop m Buffer1 Buffer2 (unat Count)"

fun memcpy_loop :: "bytes \<Rightarrow> ptr \<Rightarrow> ptr \<Rightarrow> nat \<Rightarrow> bytes" where
  "memcpy_loop m New Old 0 = m"
| "memcpy_loop m New Old (Suc Count) = memcpy_loop (m(New := m Old)) (New + 1) (Old + 1) Count"

definition memcpy :: "bytes \<Rightarrow> ptr \<Rightarrow> ptr \<Rightarrow> u64 \<Rightarrow> bytes" where
  "memcpy m Dest Src Count = memcpy_loop m Dest Src (unat Count)"

fun memset_loop :: "bytes \<Rightarrow> ptr \<Rightarrow> u8 \<Rightarrow> nat \<Rightarrow> bytes" where
  "memset_loop m New v 0 = m"
| "memset_loop m New v (Suc Count) = memset_loop (m(New := v)) (New + 1) v Count"

definition memset :: "bytes \<Rightarrow> ptr \<Rightarrow> u32 \<Rightarrow> u64 \<Rightarrow> bytes" where
  "memset m Dest Value Count = memset_loop m Dest (ucast Value) (unat Count)"

section \<open>Strings\<close>

partial_function (option) strlen_from :: "bytes \<Rightarrow> ptr \<Rightarrow> u32 \<Rightarrow> u32 option" where
  "strlen_from m String Length =
     (if m String \<noteq> 0 then strlen_from m (String + 1) (Length + 1) else Some Length)"

definition strlen :: "bytes \<Rightarrow> ptr \<Rightarrow> u64 option" where
  "strlen m String = map_option ucast (strlen_from m String 0)"

partial_function (option) strcpy :: "bytes \<Rightarrow> ptr \<Rightarrow> ptr \<Rightarrow> bytes option" where
  "strcpy m String SrcString =
     (if m SrcString \<noteq> 0 then strcpy (m(String := m SrcString)) (String + 1) (SrcString + 1)
      else Some (m(String := 0)))"

fun strncpy_copy :: "bytes \<Rightarrow> ptr \<Rightarrow> ptr \<Rightarrow> nat \<Rightarrow> bytes \<times> ptr \<times> nat" where
  "strncpy_copy m String SrcString 0 = (m, String, 0)"
| "strncpy_copy m String SrcString (Suc Count) =
     (let c = m SrcString; m = m(String := c) in
      if c \<noteq> 0 then strncpy_copy m (String + 1) (SrcString + 1) Count else (m, String + 1, Count))"

fun strncpy_pad :: "bytes \<Rightarrow> ptr \<Rightarrow> nat \<Rightarrow> bytes" where
  "strncpy_pad m String 0 = m"
| "strncpy_pad m String (Suc Count) = strncpy_pad (m(String := 0)) (String + 1) Count"

definition strncpy :: "bytes \<Rightarrow> ptr \<Rightarrow> ptr \<Rightarrow> u64 \<Rightarrow> bytes" where
  "strncpy m DstString SrcString Count =
     (case strncpy_copy m DstString SrcString (unat Count) of (m, String, left) \<Rightarrow> strncpy_pad m String left)"

partial_function (option) strcmp :: "bytes \<Rightarrow> ptr \<Rightarrow> ptr \<Rightarrow> int option" where
  "strcmp m String1 String2 =
     (if m String1 = m String2 then (if m String1 = 0 then Some 0 else strcmp m (String1 + 1) (String2 + 1))
      else Some (uint (m String1) - uint (m String2)))"

partial_function (option) strchr :: "bytes \<Rightarrow> ptr \<Rightarrow> u32 \<Rightarrow> ptr option option" where
  "strchr m String ch =
     (if m String \<noteq> 0 then (if m String = ucast ch then Some (Some String) else strchr m (String + 1) ch)
      else Some None)"

fun strncmp_loop :: "bytes \<Rightarrow> ptr \<Rightarrow> ptr \<Rightarrow> nat \<Rightarrow> int" where
  "strncmp_loop m String1 String2 0 = 0"
| "strncmp_loop m String1 String2 (Suc Count) =
     (if m String1 = m String2 then (if m String1 = 0 then 0 else strncmp_loop m (String1 + 1) (String2 + 1) Count)
      else uint (m String1) - uint (m String2))"

definition strncmp :: "bytes \<Rightarrow> ptr \<Rightarrow> ptr \<Rightarrow> u64 \<Rightarrow> int" where
  "strncmp m String1 String2 Count = strncmp_loop m String1 String2 (unat Count)"

text \<open>\<^verbatim>\<open>for (String = DstString; *String++; )\<close> and \<^verbatim>\<open>--String\<close>.\<close>

partial_function (option) find_end :: "bytes \<Rightarrow> ptr \<Rightarrow> ptr option" where
  "find_end m String = (if m String \<noteq> 0 then find_end m (String + 1) else Some String)"

partial_function (option) strcat_copy :: "bytes \<Rightarrow> ptr \<Rightarrow> ptr \<Rightarrow> bytes option" where
  "strcat_copy m String SrcString =
     (let c = m SrcString; m = m(String := c) in
      if c \<noteq> 0 then strcat_copy m (String + 1) (SrcString + 1) else Some m)"

definition strcat :: "bytes \<Rightarrow> ptr \<Rightarrow> ptr \<Rightarrow> bytes option" where
  "strcat m DstString SrcString = Option.bind (find_end m DstString) (\<lambda>String. strcat_copy m String SrcString)"

fun strncat_copy :: "bytes \<Rightarrow> ptr \<Rightarrow> ptr \<Rightarrow> nat \<Rightarrow> bytes" where
  "strncat_copy m String SrcString 0 = m(String := 0)"
| "strncat_copy m String SrcString (Suc Count) =
     (let c = m SrcString; m = m(String := c) in
      if c \<noteq> 0 then strncat_copy m (String + 1) (SrcString + 1) Count else m)"

definition strncat :: "bytes \<Rightarrow> ptr \<Rightarrow> ptr \<Rightarrow> u64 \<Rightarrow> bytes option" where
  "strncat m DstString SrcString Count =
     (if Count = 0 then Some m
      else map_option (\<lambda>String. strncat_copy m String SrcString (unat Count)) (find_end m DstString))"

partial_function (option) strstr_loop :: "bytes \<Rightarrow> ptr \<Rightarrow> ptr \<Rightarrow> u32 \<Rightarrow> ptr option option" where
  "strstr_loop m String1 String2 Length =
     Option.bind (strlen m String1) (\<lambda>n.
       if n \<ge> ucast Length then
         (if memcmp m String1 String2 (ucast Length) = 0 then Some (Some String1)
          else strstr_loop m (String1 + 1) String2 Length)
       else Some None)"

definition strstr :: "bytes \<Rightarrow> ptr \<Rightarrow> ptr \<Rightarrow> ptr option option" where
  "strstr m String1 String2 =
     Option.bind (strlen m String2) (\<lambda>n.
       (let Length = ucast n :: u32 in
        if Length = 0 then Some (Some String1) else strstr_loop m String1 String2 Length))"

section \<open>Numbers\<close>

partial_function (option) skip_space :: "bytes \<Rightarrow> ptr \<Rightarrow> ptr option" where
  "skip_space m String = (if isspace (m String) \<noteq> 0 \<or> m String = 9 then skip_space m (String + 1) else Some String)"

definition tolower_char :: "u8 \<Rightarrow> u32" where "tolower_char c = tolower (scast c)"

text \<open>The base that is told from the string, or from the argument, and where the digits start; \<open>None\<close> for a base that is out of range.\<close>

definition detect_base :: "bytes \<Rightarrow> ptr \<Rightarrow> u32 \<Rightarrow> (ptr \<times> u32) option" where
  "detect_base m String Base =
     (if Base = 0 then
        (if m String = 0x30 then
           (if tolower_char (m (String + 1)) = 0x78 then Some (String + 2, 16) else Some (String + 1, 8))
         else Some (String, 10))
      else if Base < 2 \<or> Base > 36 then None
      else Some (String, Base))"

definition skip_prefix :: "bytes \<Rightarrow> ptr \<Rightarrow> u32 \<Rightarrow> ptr" where
  "skip_prefix m String Base =
     (let String = (if Base = 8 \<and> m String = 0x30 then String + 1 else String) in
      if Base = 16 \<and> m String = 0x30 then
        (if tolower_char (m (String + 1)) = 0x78 then String + 2 else String + 1)
      else String)"

text \<open>The value of the character in the code's sense, if it has one.\<close>

definition char_index :: "u8 \<Rightarrow> u32 option" where
  "char_index c =
     (if isdigit c \<noteq> 0 then Some (ucast c - 0x30)
      else (let index = toupper (scast c) in
            if isupper (ucast index) \<noteq> 0 then Some (index - 0x41 + 10) else None))"

record conversion =
  String :: ptr
  ReturnValue :: u32
  converted :: bool
  failed :: bool

partial_function (option) convert_loop :: "bytes \<Rightarrow> u32 \<Rightarrow> conversion \<Rightarrow> conversion option" where
  "convert_loop m Base r =
     (if m (String r) = 0 then Some r
      else case char_index (m (String r)) of
        None \<Rightarrow> Some r
      | Some index \<Rightarrow>
          if index \<ge> Base then Some r
          else convert_loop m Base
            (if ReturnValue r > (0xFFFFFFFF - index) div Base
             then r\<lparr>failed := True, ReturnValue := 0, String := String r + 1\<rparr>
             else r\<lparr>ReturnValue := ReturnValue r * Base + index, converted := True, String := String r + 1\<rparr>))"

text \<open>What is returned, and what is stored at \<^verbatim>\<open>Terminator\<close>.\<close>

definition finish :: "ptr \<Rightarrow> bool \<Rightarrow> conversion \<Rightarrow> u32 \<times> ptr" where
  "finish StringStart negative r =
     (let v = (if failed r then 0xFFFFFFFF else ReturnValue r) in
      (if negative then (0xFFFFFFFF - v) + 1 else v,
       if \<not> converted r \<and> ReturnValue r = 0 \<and> String r \<noteq> 0 then StringStart else String r))"

definition strtoul :: "bytes \<Rightarrow> ptr \<Rightarrow> u32 \<Rightarrow> (u32 \<times> ptr) option" where
  "strtoul m StringStart Base =
     Option.bind (skip_space m StringStart) (\<lambda>p.
       (let negative = (m p = 0x2D);
            p = (if m p = 0x2D \<or> m p = 0x2B then p + 1 else p)
        in case detect_base m p Base of
             None \<Rightarrow> Some (finish StringStart negative \<lparr>String = p, ReturnValue = 0, converted = False, failed = False\<rparr>)
           | Some (p, Base) \<Rightarrow>
               map_option (finish StringStart negative)
                 (convert_loop m Base
                   \<lparr>String = skip_prefix m p Base, ReturnValue = 0, converted = False, failed = False\<rparr>)))"


section \<open>What the table says\<close>

lemma u8_bound: "unat (c :: u8) < 256"
  using unsigned_less [of c] by simp

lemma ctypes_digit: "list_all (\<lambda>n. (AcpiGbl_Ctypes ! n AND ACPI_DI \<noteq> 0) = (48 \<le> n \<and> n \<le> 57)) [0..<256]"
  by code_simp

lemma ctypes_upper: "list_all (\<lambda>n. (AcpiGbl_Ctypes ! n AND ACPI_UP \<noteq> 0) = (65 \<le> n \<and> n \<le> 90)) [0..<256]"
  by code_simp

lemma ctypes_lower: "list_all (\<lambda>n. (AcpiGbl_Ctypes ! n AND ACPI_LO \<noteq> 0) = (97 \<le> n \<and> n \<le> 122)) [0..<256]"
  by code_simp

lemma ctypes_space: "list_all (\<lambda>n. (AcpiGbl_Ctypes ! n AND ACPI_SP \<noteq> 0) = (9 \<le> n \<and> n \<le> 13 \<or> n = 32)) [0..<256]"
  by code_simp


lemma isdigit_iff: "isdigit c \<noteq> 0 \<longleftrightarrow> 48 \<le> unat c \<and> unat c \<le> 57"
  using ctypes_digit u8_bound [of c] by (simp add: isdigit_def list_all_iff)

lemma isupper_iff: "isupper c \<noteq> 0 \<longleftrightarrow> 65 \<le> unat c \<and> unat c \<le> 90"
  using ctypes_upper u8_bound [of c] by (simp add: isupper_def list_all_iff)

lemma islower_iff: "islower c \<noteq> 0 \<longleftrightarrow> 97 \<le> unat c \<and> unat c \<le> 122"
  using ctypes_lower u8_bound [of c] by (simp add: islower_def list_all_iff)

lemma isspace_iff: "isspace c \<noteq> 0 \<longleftrightarrow> 9 \<le> unat c \<and> unat c \<le> 13 \<or> unat c = 32"
  using ctypes_space u8_bound [of c] by (simp add: isspace_def list_all_iff)

definition char_value :: "nat \<Rightarrow> nat option" where
  "char_value c =
     (if 48 \<le> c \<and> c \<le> 57 then Some (c - 48)
      else if 65 \<le> c \<and> c \<le> 90 then Some (c - 55)
      else if 97 \<le> c \<and> c \<le> 122 then Some (c - 87) else None)"

lemma char_index_table:
  "list_all (\<lambda>n. char_index (of_nat n) = map_option of_nat (char_value n)) [0..<256]"
  by code_simp

lemma char_index_value: "char_index c = map_option of_nat (char_value (unat c))"
proof -
  have "unat c \<in> set [0..<256]" using u8_bound [of c] by simp
  then have "char_index (of_nat (unat c)) = map_option of_nat (char_value (unat c))"
    using char_index_table unfolding list_all_iff by blast
  then show ?thesis by (simp only: of_nat_unat ucast_id)
qed

lemma char_value_bound: "char_value c = Some d \<Longrightarrow> d < 36"
  by (auto simp: char_value_def split: if_splits)

section \<open>Numbers in a string\<close>

text \<open>The characters of a string whose first one is no digit of the base.\<close>

definition digit_of :: "nat \<Rightarrow> u8 \<Rightarrow> bool" where
  "digit_of b c \<longleftrightarrow> (\<exists>d < b. char_value (unat c) = Some d)"

definition stops :: "nat \<Rightarrow> u8 list \<Rightarrow> bool" where
  "stops b cs \<longleftrightarrow> cs = [] \<or> \<not> digit_of b (hd cs)"

definition horner :: "nat \<Rightarrow> nat \<Rightarrow> u8 list \<Rightarrow> nat" where
  "horner b = foldl (\<lambda>a c. a * b + the (char_value (unat c)))"

lemma horner_Cons: "horner b a (c # cs) = horner b (a * b + the (char_value (unat c))) cs"
  by (simp add: horner_def)

lemma horner_ge: "0 < b \<Longrightarrow> a \<le> horner b a cs"
proof (induction cs arbitrary: a)
  case (Cons c cs)
  have "a \<le> a * b + the (char_value (unat c))" using Cons.prems by (cases b) auto
  also have "\<dots> \<le> horner b a (c # cs)" unfolding horner_Cons by (rule Cons.IH [OF Cons.prems])
  finally show ?case .
qed (simp add: horner_def)

lemma cstring_Cons: "cstring m a (x # xs) \<longleftrightarrow> m a = x \<and> x \<noteq> 0 \<and> cstring m (a + 1) xs"
  by simp

lemma cstring_append: "cstring m a (xs @ ys) \<Longrightarrow> cstring m (a + of_nat (length xs)) ys"
proof (induction xs arbitrary: a)
  case (Cons x xs)
  then show ?case using Cons.IH [of "a + 1"] by (simp add: algebra_simps)
qed simp

lemma convert_step:
  assumes b: "2 \<le> b" "b \<le> 36" and c: "m (String r) = c" "c \<noteq> 0" "digit_of b c"
  defines "d \<equiv> the (char_value (unat c))"
  shows "convert_loop m (of_nat b) r = convert_loop m (of_nat b)
    (if unat (ReturnValue r) * b + d \<ge> 2 ^ 32 then r\<lparr>failed := True, ReturnValue := 0, String := String r + 1\<rparr>
     else r\<lparr>ReturnValue := of_nat (unat (ReturnValue r) * b + d), converted := True, String := String r + 1\<rparr>)"
proof -
  have d: "char_value (unat c) = Some d" "d < b" using c(3) by (auto simp: digit_of_def d_def)
  have u: "unat (of_nat d :: u32) = d" "unat (of_nat b :: u32) = b" using d(2) b(2) by (simp_all add: unsigned_of_nat take_bit_nat_eq_self)
  have i: "char_index c = Some (of_nat d)" by (simp add: char_index_value d(1))
  have lt: "\<not> (of_nat d :: u32) \<ge> of_nat b" using u d(2) by (simp add: word_le_nat_alt)
  have sub: "unat (0xFFFFFFFF - of_nat d :: u32) = 2 ^ 32 - 1 - d"
    using d(2) b(2) u(1) by (subst unat_sub) (auto simp: word_le_nat_alt)
  have arith: "2 ^ 32 - 1 - d < p \<longleftrightarrow> 2 ^ 32 \<le> p + d" for p :: nat using d(2) b(2) by auto
  have over: "ReturnValue r > (0xFFFFFFFF - of_nat d) div of_nat b \<longleftrightarrow> unat (ReturnValue r) * b + d \<ge> 2 ^ 32"
    unfolding word_less_nat_alt unat_div u sub div_less_iff_less_mult [OF less_le_trans [OF zero_less_numeral b(1)]]
    by (rule arith)
  have val: "ReturnValue r * of_nat b + of_nat d = of_nat (unat (ReturnValue r) * b + d)" by simp
  show ?thesis
    by (subst convert_loop.simps) (simp only: i c(1) c(2) lt over val option.case if_False HOL.simp_thms)
qed

lemma convert_loop_ok:
  assumes b: "2 \<le> b" "b \<le> 36" and "cstring m (String r) (ds @ rest)" "\<forall>c \<in> set ds. digit_of b c" "stops b rest"
  shows "\<exists>r'. convert_loop m (of_nat b) r = Some r' \<and> String r' = String r + of_nat (length ds) \<and>
    (converted r \<or> ds \<noteq> [] \<and> ReturnValue r = 0 \<longrightarrow> converted r') \<and>
    (failed r' \<longleftrightarrow> failed r \<or> horner b (unat (ReturnValue r)) ds \<ge> 2 ^ 32) \<and>
    (\<not> failed r' \<longrightarrow> unat (ReturnValue r') = horner b (unat (ReturnValue r)) ds)"
  using assms(3-)
proof (induction ds arbitrary: r)
  case Nil
  have "convert_loop m (of_nat b) r = Some r"
  proof (cases rest)
    case Nil
    then show ?thesis using Nil.prems by (subst convert_loop.simps) simp
  next
    case (Cons c cs)
    then have "m (String r) = c" "\<not> digit_of b c" using Nil.prems by (auto simp: stops_def)
    moreover have "unat (of_nat d :: u32) = d" if "char_value (unat c) = Some d" for d
      using char_value_bound [OF that] by (simp add: unsigned_of_nat take_bit_nat_eq_self)
    moreover have "unat (of_nat b :: u32) = b" using b(2) by (simp add: unsigned_of_nat take_bit_nat_eq_self)
    ultimately show ?thesis
      by (subst convert_loop.simps) (auto simp: char_index_value digit_of_def word_le_nat_alt split: option.split)
  qed
  moreover have "horner b (unat (ReturnValue r)) [] < 2 ^ 32"
    using unsigned_less [of "ReturnValue r"] by (simp add: horner_def)
  ultimately show ?case by (auto simp: horner_def)
next
  case (Cons c ds)
  define d where "d = the (char_value (unat c))"
  define v where "v = unat (ReturnValue r) * b + d"
  have c: "m (String r) = c" "c \<noteq> 0" "digit_of b c" using Cons.prems by simp_all
  have d: "d < b" using c(3) by (auto simp: digit_of_def d_def)
  show ?case
  proof (cases "v \<ge> 2 ^ 32")
    case True
    define r1 where "r1 = r\<lparr>failed := True, ReturnValue := 0, String := String r + 1\<rparr>"
    have step: "convert_loop m (of_nat b) r = convert_loop m (of_nat b) r1"
      using convert_step [where m = m and r = r and c = c, OF b c] True by (simp add: r1_def v_def d_def)
    have big: "horner b (unat (ReturnValue r)) (c # ds) \<ge> 2 ^ 32"
      using True horner_ge [of b v ds] b(1) unfolding horner_Cons v_def d_def by linarith
    have zero: "ReturnValue r \<noteq> 0"
    proof
      assume "ReturnValue r = 0"
      then show False using True d b(2) by (simp add: v_def)
    qed
    obtain r' where "convert_loop m (of_nat b) r1 = Some r'" "String r' = String r1 + of_nat (length ds)"
      "converted r1 \<longrightarrow> converted r'" "failed r'"
      using Cons.IH [of r1] Cons.prems by (auto simp: r1_def)
    then show ?thesis unfolding step using big zero by (auto simp: r1_def)
  next
    case False
    define r1 where "r1 = r\<lparr>ReturnValue := of_nat v, converted := True, String := String r + 1\<rparr>"
    have step: "convert_loop m (of_nat b) r = convert_loop m (of_nat b) r1"
      using convert_step [where m = m and r = r and c = c, OF b c] False by (simp add: r1_def v_def d_def)
    have v: "unat (ReturnValue r1) = v" using False by (simp add: r1_def unsigned_of_nat take_bit_nat_eq_self)
    have h: "horner b (unat (ReturnValue r)) (c # ds) = horner b v ds" unfolding horner_Cons v_def d_def ..
    show ?thesis
      unfolding step h using Cons.IH [of r1] Cons.prems unfolding v by (auto simp: r1_def)
  qed
qed

lemma skip_space_ok:
  assumes "cstring m a (ws @ cs)" "\<forall>c \<in> set ws. isspace c \<noteq> 0" "cs = [] \<or> isspace (hd cs) = 0"
  shows "skip_space m a = Some (a + of_nat (length ws))"
  using assms
proof (induction ws arbitrary: a)
  case Nil
  have "isspace (m a) = 0"
  proof (cases cs)
    case Nil
    then show ?thesis using Nil.prems isspace_iff [of 0] by auto
  qed (use Nil.prems in auto)
  moreover have "isspace 9 \<noteq> 0" by (simp add: isspace_iff)
  ultimately show ?case by (subst skip_space.simps) auto
next
  case (Cons w ws)
  then show ?case by (subst skip_space.simps) (simp add: algebra_simps)
qed


text \<open>\<open>bounded\<close>: what a number that may be too large becomes; \<open>negated\<close>: what a sign makes of it.\<close>

definition bounded :: "nat \<Rightarrow> u32" where
  "bounded v = (if v < 2 ^ 32 then of_nat v else 0xFFFFFFFF)"

definition negated :: "u8 list \<Rightarrow> u32 \<Rightarrow> u32" where
  "negated sg v = (if sg = [0x2D] then - v else v)"

lemma digit_no_space:
  assumes "digit_of b c" shows "isspace c = 0" "c \<noteq> 0x2D" "c \<noteq> 0x2B" "c \<noteq> 0"
proof -
  obtain d where "char_value (unat c) = Some d" using assms by (auto simp: digit_of_def)
  then have "unat c \<ge> 48" by (auto simp: char_value_def split: if_splits)
  then show "isspace c = 0" "c \<noteq> 0x2D" "c \<noteq> 0x2B" "c \<noteq> 0" using isspace_iff [of c] by auto
qed

text \<open>
  A number as the function takes it: white space, at most one sign, digits of the base without a
  leading zero, and something that is no digit or the end.
\<close>

definition number_string :: "nat \<Rightarrow> u8 list \<Rightarrow> u8 list \<Rightarrow> u8 list \<Rightarrow> u8 list \<Rightarrow> bool" where
  "number_string b ws sg ds rest \<longleftrightarrow>
     (\<forall>c \<in> set ws. isspace c \<noteq> 0) \<and> sg \<in> {[], [0x2B], [0x2D]} \<and>
     ds \<noteq> [] \<and> hd ds \<noteq> 0x30 \<and> (\<forall>c \<in> set ds. digit_of b c) \<and> stops b rest"

lemma strtoul_number:
  assumes b: "2 \<le> b" "b \<le> 36" "Base = of_nat b \<or> Base = 0 \<and> b = 10"
    and str: "cstring m s (ws @ sg @ ds @ rest)" and num: "number_string b ws sg ds rest"
  shows "strtoul m s Base =
    Some (negated sg (bounded (horner b 0 ds)), s + of_nat (length ws + length sg + length ds))"
proof -
  define q where "q = s + of_nat (length ws)"
  define p where "p = q + of_nat (length sg)"
  obtain d ds' where ds: "ds = d # ds'" "d \<noteq> 0x30" using num by (cases ds) (auto simp: number_string_def)
  have dig: "digit_of b d" using num ds by (simp add: number_string_def)
  have sg: "sg \<in> {[], [0x2B], [0x2D]}" using num by (simp add: number_string_def)
  have "isspace 0x2B = 0" "isspace 0x2D = 0" using isspace_iff [of "0x2B"] isspace_iff [of "0x2D"] by auto
  then have "isspace (hd (sg @ ds @ rest)) = 0" using sg ds digit_no_space [OF dig] by auto
  then have skip: "skip_space m s = Some q"
    unfolding q_def using str num by (intro skip_space_ok) (auto simp: number_string_def)
  have at_q: "cstring m q (sg @ ds @ rest)" unfolding q_def using cstring_append [OF str] .
  have at_p: "cstring m p (ds @ rest)" unfolding p_def using cstring_append [OF at_q] .
  have sign: "m q = 0x2D \<longleftrightarrow> sg = [0x2D]" "(if m q = 0x2D \<or> m q = 0x2B then q + 1 else q) = p"
    using at_q sg ds digit_no_space [OF dig] by (auto simp: p_def)
  have mp: "m p = d" "m p \<noteq> 0x30" using at_p ds by auto
  have "of_nat b \<noteq> (0 :: u32)" "\<not> of_nat b < (2 :: u32)" "\<not> of_nat b > (36 :: u32)"
    using b(1,2) by (auto simp: word_less_nat_alt unsigned_of_nat take_bit_nat_eq_self word_eq_unat)
  then have base: "detect_base m p Base = Some (p, of_nat b)" "skip_prefix m p (of_nat b) = p"
    using b(3) mp(2) by (auto simp: detect_base_def skip_prefix_def)
  define r where "r = \<lparr>String = p, ReturnValue = 0, converted = False, failed = False\<rparr>"
  obtain r' where r': "convert_loop m (of_nat b) r = Some r'" "String r' = p + of_nat (length ds)" "converted r'"
    "failed r' \<longleftrightarrow> horner b 0 ds \<ge> 2 ^ 32" "\<not> failed r' \<longrightarrow> unat (ReturnValue r') = horner b 0 ds"
    using convert_loop_ok [OF b(1,2), of m r ds rest] at_p num ds by (auto simp: r_def number_string_def)
  have neg: "(0xFFFFFFFF - v) + 1 = - v" for v :: u32
  proof -
    have "(0xFFFFFFFF :: u32) = - 1" by simp
    then show ?thesis by (simp only:) simp
  qed
  have val: "(if failed r' then 0xFFFFFFFF else ReturnValue r') = bounded (horner b 0 ds)"
    using r'(4,5) unfolding bounded_def by (metis not_le of_nat_unat ucast_id)
  have "strtoul m s Base = Some (finish s (m q = 0x2D) r')"
    unfolding strtoul_def skip Option.bind.simps Let_def sign(2) base option.case prod.case
      r'(1) [unfolded r_def] option.map ..
  also have "finish s (m q = 0x2D) r' = (negated sg (bounded (horner b 0 ds)), String r')"
    using r'(3) by (simp add: finish_def Let_def val neg negated_def sign(1))
  finally show ?thesis by (simp add: r'(2) p_def q_def algebra_simps)
qed

section \<open>Blocks and strings\<close>

lemma memcpy_copy_up: "memcpy_loop m d s n = copy_up m d s n"
  by (induction m d s n rule: memcpy_loop.induct) (simp_all del: fun_upd_apply)

lemma memset_set: "memset_loop m d v n = set_loop m d v n"
  by (induction m d v n rule: memset_loop.induct) (simp_all del: fun_upd_apply)

lemma copy_up_apart:
  "fits s n \<Longrightarrow> fits d n \<Longrightarrow> unat s + n \<le> unat d \<Longrightarrow> copy_up m d s n = block_copied m d s n"
proof (induction m d s n rule: copy_up.induct)
  case (1 m d s)
  then show ?case by (simp add: block_copied_def)
next
  case (2 m d s n)
  show ?case
  proof (cases n)
    case 0
    then show ?thesis by (auto simp: block_copied_def unat_0_iff)
  next
    case (Suc n')
    have s: "unat (s + 1) = unat s + 1" using fits_offset [OF "2.prems"(1), of 1] Suc by simp
    have d: "unat (d + 1) = unat d + 1" using fits_offset [OF "2.prems"(2), of 1] Suc by simp
    have f: "fits (s + 1) n" "fits (d + 1) n" using "2.prems" s d by (simp_all add: fits_def)
    have IH: "copy_up (m(d := m s)) (d + 1) (s + 1) n = block_copied (m(d := m s)) (d + 1) (s + 1) n"
      using "2.prems" s d f by (intro "2.IH") simp_all
    show ?thesis
    proof (rule ext)
      fix x
      have k: "s + (x - d) \<noteq> d" if "unat (x - d) < Suc n"
      proof
        assume e: "s + (x - d) = d"
        have "s + (x - d) = s + of_nat (unat (x - d))" by simp
        then have "unat d = unat s + unat (x - d)" using fits_offset [OF "2.prems"(1) that] e by simp
        then show False using that "2.prems"(3) by simp
      qed
      have "s + 1 + (x - (d + 1)) = s + (x - d)" by simp
      then show "copy_up m d s (Suc n) x = block_copied m d s (Suc n) x"
        unfolding copy_up.simps IH block_copied_def fun_upd_apply
          in_block_iff [OF "2.prems"(2)] in_block_iff [OF f(2)] d
        using k in_block_iff [OF "2.prems"(2), of x] word_eq_unat [of x d] by (cases "x = d") auto
    qed
  qed
qed

lemma memcpy_block:
  assumes "fits Src (unat n)" "fits Dest (unat n)" "unat Dest < unat Src \<or> unat Src + unat n \<le> unat Dest"
  shows "memcpy m Dest Src n = mem_copy m Dest Src n"
proof -
  have "copy_up m Dest Src (unat n) = block_copied m Dest Src (unat n)"
    using assms copy_up_apart [of Src "unat n" Dest m] copy_up_block [of Dest Src "unat n" m] by blast
  then show ?thesis using mem_copy_block [OF assms(1,2)] by (simp add: memcpy_def memcpy_copy_up)
qed

lemma uint_same: "uint x = uint y \<longleftrightarrow> x = y"
  by (auto dest: unsigned_word_eqI)

lemma memcmp_loop_0: "memcmp_loop m a b n = 0 \<longleftrightarrow> (\<forall>k < n. m (a + of_nat k) = m (b + of_nat k))"
proof (induction n arbitrary: a b)
  case (Suc n)
  have "(\<forall>k < Suc n. m (a + of_nat k) = m (b + of_nat k)) \<longleftrightarrow>
      m a = m b \<and> (\<forall>k < n. m (a + 1 + of_nat k) = m (b + 1 + of_nat k))"
    unfolding All_less_Suc2 by (simp add: algebra_simps)
  then show ?case using Suc.IH [of "a + 1" "b + 1"] by (simp add: uint_same)
qed simp

lemma strlen_from_cstring: "cstring m a xs \<Longrightarrow> strlen_from m a n = Some (n + of_nat (length xs))"
proof (induction xs arbitrary: a n)
  case Nil
  then show ?case by (subst strlen_from.simps) simp
next
  case (Cons x xs)
  then show ?case by (subst strlen_from.simps) (simp add: algebra_simps)
qed

lemma strlen_cstring:
  assumes "cstring m a xs" "length xs < 2 ^ 32"
  shows "strlen m a = Some (of_nat (length xs))"
  using strlen_from_cstring [OF assms(1), of 0] assms(2)
  by (simp add: strlen_def unsigned_ucast_eq word_eq_unat unsigned_of_nat take_bit_nat_eq_self)

lemma strcmp_0:
  assumes "cstring m a xs" "cstring m b ys"
  shows "\<exists>r. strcmp m a b = Some r \<and> (r = 0 \<longleftrightarrow> xs = ys)"
  using assms
proof (induction xs arbitrary: a b ys)
  case Nil
  then show ?case by (subst strcmp.simps, cases ys) (auto simp: unsigned_eq_0_iff)
next
  case (Cons x xs)
  show ?case
  proof (cases ys)
    case Nil
    then show ?thesis using Cons.prems by (subst strcmp.simps) (auto simp: unsigned_eq_0_iff)
  next
    case (Cons y ys')
    then show ?thesis using Cons.IH [of "a + 1" "b + 1" ys'] Cons.prems \<open>cstring m a (x # xs)\<close>
      by (subst strcmp.simps) (auto simp: uint_same)
  qed
qed


text \<open>A prefix of a string is found by comparing its bytes.\<close>

lemma cstring_nth: "cstring m a xs \<Longrightarrow> k < length xs \<Longrightarrow> m (a + of_nat k) = xs ! k"
proof (induction xs arbitrary: a k)
  case (Cons x xs)
  then show ?case using Cons.IH [of "a + 1" "k - 1"] by (cases k) (auto simp: algebra_simps)
qed simp

lemma memcmp_prefix:
  assumes "cstring m a xs" "cstring m b ys" "length ys \<le> length xs" "length xs < 2 ^ 32"
  shows "memcmp m a b (of_nat (length ys)) = 0 \<longleftrightarrow> prefix ys xs"
proof -
  have "unat (of_nat (length ys) :: u64) = length ys"
    using assms(3,4) by (simp add: unsigned_of_nat take_bit_nat_eq_self)
  then have "memcmp m a b (of_nat (length ys)) = 0 \<longleftrightarrow> (\<forall>k < length ys. xs ! k = ys ! k)"
    using assms cstring_nth [OF assms(1)] cstring_nth [OF assms(2)] by (simp add: memcmp_def memcmp_loop_0)
  also have "\<dots> \<longleftrightarrow> take (length ys) xs = ys"
    using assms(3) by (simp add: list_eq_iff_nth_eq)
  also have "\<dots> \<longleftrightarrow> prefix ys xs" by (metis prefix_def append_eq_conv_conj)
  finally show ?thesis .
qed

fun first_at :: "'b list \<Rightarrow> 'b list \<Rightarrow> nat option" where
  "first_at ys [] = (if ys = [] then Some 0 else None)"
| "first_at ys (x # xs) = (if prefix ys (x # xs) then Some 0 else map_option Suc (first_at ys xs))"

lemma first_at_Some: "first_at ys xs = Some i \<longleftrightarrow> prefix ys (drop i xs) \<and> i \<le> length xs \<and> (\<forall>j < i. \<not> prefix ys (drop j xs))"
proof (induction xs arbitrary: i)
  case Nil
  then show ?case by auto
next
  case (Cons x xs)
  show ?case
  proof (cases i)
    case 0
    then show ?thesis by auto
  next
    case (Suc k)
    then show ?thesis by (auto simp: Cons.IH All_less_Suc2)
  qed
qed

lemma first_at_None: "first_at ys xs = None \<longleftrightarrow> \<not> sublist ys xs"
  by (induction xs) (auto simp: sublist_Cons_right)

lemma first_at_short: "length xs < length ys \<Longrightarrow> first_at ys xs = None"
  by (metis first_at_None sublist_length_le not_le)

lemma strstr_loop_ok:
  assumes "cstring m a xs" "cstring m b ys" "ys \<noteq> []" "length xs < 2 ^ 32" "length ys < 2 ^ 32"
  shows "strstr_loop m a b (of_nat (length ys)) = Some (map_option (\<lambda>i. a + of_nat i) (first_at ys xs))"
  using assms
proof (induction xs arbitrary: a)
  case Nil
  have "\<not> (0 :: u64) \<ge> ucast (of_nat (length ys) :: u32)"
    using Nil.prems by (auto simp: word_le_nat_alt unsigned_ucast_eq unsigned_of_nat take_bit_nat_eq_self)
  then show ?case using Nil.prems strlen_cstring [OF Nil.prems(1)] by (subst strstr_loop.simps) simp
next
  case (Cons x xs)
  have n: "ucast (of_nat (length ys) :: u32) = (of_nat (length ys) :: u64)"
    "unat (of_nat (length ys) :: u64) = length ys"
    using Cons.prems by (simp_all add: word_eq_unat unsigned_ucast_eq unsigned_of_nat take_bit_nat_eq_self)
  have l: "strlen m a = Some (of_nat (length (x # xs)))" "unat (of_nat (length (x # xs)) :: u64) = length (x # xs)"
    using strlen_cstring [OF Cons.prems(1)] Cons.prems(4) by (simp_all add: unsigned_of_nat take_bit_nat_eq_self del: of_nat_Suc)
  show ?case
  proof (cases "length ys \<le> length (x # xs)")
    case True
    then have ge: "(of_nat (length ys) :: u64) \<le> of_nat (length (x # xs))" unfolding word_le_nat_alt n l .
    have IH: "strstr_loop m (a + 1) b (of_nat (length ys)) = Some (map_option (\<lambda>i. a + 1 + of_nat i) (first_at ys xs))"
      using Cons.IH [of "a + 1"] Cons.prems by simp
    show ?thesis
      apply (subst strstr_loop.simps)
      unfolding l(1) n(1) Option.bind.simps IH
      using ge memcmp_prefix [OF Cons.prems(1,2) True Cons.prems(4)]
      by (simp add: option.map_comp o_def algebra_simps)
  next
    case False
    then have "\<not> (of_nat (length ys) :: u64) \<le> of_nat (length (x # xs))" unfolding word_le_nat_alt n l .
    then show ?thesis
      apply (subst strstr_loop.simps)
      unfolding l(1) n(1) Option.bind.simps using False first_at_short [of "x # xs" ys] by simp
  qed
qed

lemma strstr_ok:
  assumes "cstring m a xs" "cstring m b ys" "length xs < 2 ^ 32" "length ys < 2 ^ 32"
  shows "strstr m a b = Some (map_option (\<lambda>i. a + of_nat i) (first_at ys xs))"
proof (cases "ys = []")
  case True
  then have "first_at ys xs = Some 0" by (cases xs) simp_all
  then show ?thesis using True strlen_cstring [OF assms(2,4)] by (simp add: strstr_def)
next
  case False
  have "ucast (of_nat (length ys) :: u64) = (of_nat (length ys) :: u32)" "(of_nat (length ys) :: u32) \<noteq> 0"
    using assms(4) False by (simp_all add: word_eq_unat unsigned_ucast_eq unsigned_of_nat take_bit_nat_eq_self)
  then show ?thesis
    using strlen_cstring [OF assms(2,4)] strstr_loop_ok [OF assms(1,2) False assms(3,4)] by (simp add: strstr_def Let_def)
qed

section \<open>Properties\<close>

text \<open>
  The library agrees with \<^verbatim>\<open>clib/\<close> where the two overlap: \<^verbatim>\<open>memcpy\<close> copies as \<^verbatim>\<open>mem_copy\<close> does
  unless the destination begins inside the source, \<^verbatim>\<open>memset\<close> is \<^verbatim>\<open>mem_set\<close>, \<^verbatim>\<open>strlen\<close> counts as
  \<^verbatim>\<open>str_len\<close> does, \<^verbatim>\<open>strcmp\<close> and \<^verbatim>\<open>str_cmp\<close> agree on which strings are equal, and \<^verbatim>\<open>strstr\<close> finds the
  first place where the one string occurs in the other.
\<close>

theorem acpi_clib_agrees:
  assumes "fits Src (unat n)" "fits Dest (unat n)" "unat Dest < unat Src \<or> unat Src + unat n \<le> unat Dest"
    and "cstring m a xs" "cstring m b ys" "length xs < 2 ^ 32 - 1" "length ys < 2 ^ 32 - 1"
  shows "memcpy m Dest Src n = mem_copy m Dest Src n \<and> memset m Dest v n = mem_set m Dest (ucast v) n \<and>
    strlen m a = str_len m a \<and> (strcmp m a b = Some 0 \<longleftrightarrow> str_cmp m a b = 0) \<and>
    strstr m a b = Some (if sublist ys xs then Some (a + of_nat (LEAST i. prefix ys (drop i xs))) else None)"
proof -
  have zero: "cstring m c zs \<Longrightarrow> 0 \<notin> set zs" for c zs by (induction zs arbitrary: c) auto
  obtain r where r: "strcmp m a b = Some r" "r = 0 \<longleftrightarrow> xs = ys" using strcmp_0 [OF assms(4,5)] by blast
  have cmp: "str_cmp m a b = 0 \<longleftrightarrow> xs = ys"
    using str_cmp_cstring [OF assms(4-7)] cmp_bytes_eq_0 [OF zero [OF assms(4)] zero [OF assms(5)]] by simp
  have "strstr m a b = Some (map_option (\<lambda>i. a + of_nat i) (first_at ys xs))"
    using strstr_ok [OF assms(4,5)] assms(6,7) by simp
  also have "map_option (\<lambda>i. a + of_nat i) (first_at ys xs) =
    (if sublist ys xs then Some (a + of_nat (LEAST i. prefix ys (drop i xs))) else None)"
  proof (cases "first_at ys xs")
    case None
    then show ?thesis by (simp add: first_at_None)
  next
    case (Some i)
    then have "(LEAST i. prefix ys (drop i xs)) = i"
      unfolding first_at_Some by (intro Least_equality) (auto simp: not_less [symmetric])
    moreover have "sublist ys xs" using Some by (metis first_at_None option.distinct(1))
    ultimately show ?thesis using Some by simp
  qed
  finally show ?thesis
    using memcpy_block [OF assms(1-3)] strlen_cstring [OF assms(4)] str_len_cstring [OF assms(4)] r cmp assms(6)
    by (simp add: memset_def mem_set_def memset_set)
qed

text \<open>Memory with the strings \<open>abc\<close> at 16 and \<open>bc\<close> at 32.\<close>

definition example_strings :: bytes where
  "example_strings = (\<lambda>_. 0)(16 := 97, 17 := 98, 18 := 99, 32 := 98, 33 := 99)"

theorem acpi_clib_agrees_witness:
  "strstr example_strings 16 32 = Some (Some 17) \<and> strlen example_strings 16 = str_len example_strings 16"
proof -
  have s: "cstring example_strings 16 [97, 98, 99]" "cstring example_strings 32 [98, 99]"
    by (simp_all add: example_strings_def)
  have least: "(LEAST i. prefix [98, 99 :: u8] (drop i [97, 98, 99])) = 1"
    by (rule Least_equality) (auto simp: Suc_le_eq intro: ccontr)
  have sub: "sublist [98, 99 :: u8] [97, 98, 99]" by (simp add: sublist_Cons_right)
  show ?thesis
    using acpi_clib_agrees [of 32 3 64 example_strings 16 "[97, 98, 99]" 32 "[98, 99]" 0] s
    by (simp add: fits_def least sub)
qed

text \<open>
  \<^verbatim>\<open>strtoul\<close> converts what it is given as a number: after any white space and an optional sign it
  takes digits of the base (10 when the base is 0) up to the first character that is none, and
  returns their value, or the largest word when that is too large, negated modulo 2^32 for a minus
  sign; the terminator is where the digits end.
\<close>

theorem strtoul_value:
  assumes "2 \<le> b" "b \<le> 36" "Base = of_nat b \<or> Base = 0 \<and> b = 10"
    and "cstring m s (ws @ sg @ ds @ rest)" "number_string b ws sg ds rest"
  shows "strtoul m s Base =
    Some (let v = foldl (\<lambda>a c. a * b + the (char_value (unat c))) 0 ds;
              w = (if v < 2 ^ 32 then of_nat v else 0xFFFFFFFF)
          in if sg = [0x2D] then - w else w,
          s + of_nat (length ws + length sg + length ds))"
  using strtoul_number [OF assms] by (simp add: negated_def bounded_def horner_def Let_def)

text \<open>Memory with the string \<open> -42x\<close> at 16.\<close>

definition example_number :: bytes where
  "example_number = (\<lambda>_. 0)(16 := 32, 17 := 0x2D, 18 := 0x34, 19 := 0x32, 20 := 0x78)"

theorem strtoul_value_witness: "strtoul example_number 16 0 = Some (- 42, 20)"
proof -
  have "number_string 10 [32] [0x2D] [0x34, 0x32] [0x78]"
    using isspace_iff [of 32] by (simp add: number_string_def stops_def digit_of_def char_value_def)
  then show ?thesis
    using strtoul_value [of 10 0 example_number 16 "[32]" "[0x2D]" "[0x34, 0x32]" "[0x78]"]
    by (simp add: example_number_def char_value_def Let_def)
qed

text \<open>
  A single zero is not taken for a number when the base is found from the string, nor in base 8 or
  16: it is skipped as a prefix, and the terminator is the start.
\<close>

lemma strtoul_zero: "strtoul ((\<lambda>_. 0)(16 := 0x30)) 16 0 = Some (0, 16)"
proof -
  have "skip_space ((\<lambda>_. 0)(16 := 0x30)) 16 = Some 16"
    using isspace_iff [of "0x30"] by (subst skip_space.simps) simp
  moreover have "tolower_char 0 = 0" using isupper_iff [of 0] by (simp add: tolower_char_def tolower_def)
  ultimately show ?thesis
    by (simp add: strtoul_def detect_base_def skip_prefix_def convert_loop.simps finish_def)
qed

text \<open>\<^verbatim>\<open>strchr\<close> does not find the terminating zero.\<close>

lemma strchr_terminator: "cstring m a xs \<Longrightarrow> strchr m a 0 = Some None"
proof (induction xs arbitrary: a)
  case Nil
  then show ?case by (subst strchr.simps) simp
next
  case (Cons x xs)
  then show ?case by (subst strchr.simps) simp
qed

end
