(* ===== verification/Acpi_Root.thy ===== *)
theory Acpi_Root
  imports Acpi_Clib Hw_Pci
begin

text \<open>
  The search for the root pointer of ACPI (\<^verbatim>\<open>kernel/hw/acpica/tbxfroot.c\<close>, the checksum of
  \<^verbatim>\<open>tbprint.c\<close>): the structure is looked for on 16-byte boundaries, first in the extended BIOS data
  area, then below 1M, through the window of physical memory that \<^verbatim>\<open>AcpiOsMapMemory\<close> gives.  The
  string literal with the signature is somewhere in memory; its address is an argument.
\<close>

section \<open>Constants\<close>

definition AE_NO_MEMORY :: u32 where "AE_NO_MEMORY = EXCEP_ENV 0x4"
definition ACPI_EBDA_PTR_LOCATION :: u64 where "ACPI_EBDA_PTR_LOCATION = 0x40E"
definition ACPI_EBDA_WINDOW_SIZE :: u32 where "ACPI_EBDA_WINDOW_SIZE = 1024"
definition ACPI_HI_RSDP_WINDOW_BASE :: u64 where "ACPI_HI_RSDP_WINDOW_BASE = 0xE0000"
definition ACPI_HI_RSDP_WINDOW_SIZE :: u32 where "ACPI_HI_RSDP_WINDOW_SIZE = 0x20000"
definition ACPI_RSDP_SCAN_STEP :: u64 where "ACPI_RSDP_SCAN_STEP = 16"
definition ACPI_RSDP_CHECKSUM_LENGTH :: u32 where "ACPI_RSDP_CHECKSUM_LENGTH = 20"
definition ACPI_RSDP_XCHECKSUM_LENGTH :: u32 where "ACPI_RSDP_XCHECKSUM_LENGTH = 36"

definition ACPI_SIG_RSDP :: "u8 list" where
  "ACPI_SIG_RSDP = [0x52, 0x53, 0x44, 0x20, 0x50, 0x54, 0x52, 0x20]"

lemmas acpi_rsdp = ACPI_EBDA_PTR_LOCATION_def ACPI_EBDA_WINDOW_SIZE_def ACPI_HI_RSDP_WINDOW_BASE_def
  ACPI_HI_RSDP_WINDOW_SIZE_def ACPI_RSDP_SCAN_STEP_def ACPI_RSDP_CHECKSUM_LENGTH_def ACPI_RSDP_XCHECKSUM_LENGTH_def

section \<open>The structure\<close>

definition ACPI_VALIDATE_RSDP_SIG :: "bytes \<Rightarrow> ptr \<Rightarrow> ptr \<Rightarrow> bool" where
  "ACPI_VALIDATE_RSDP_SIG m literal a \<longleftrightarrow> strncmp m a literal 8 = 0"

text \<open>The fields of \<^verbatim>\<open>ACPI_TABLE_RSDP\<close> that are read, at their offsets.\<close>

definition Rsdp_Revision :: "bytes \<Rightarrow> ptr \<Rightarrow> u8" where "Rsdp_Revision m Rsdp = m (Rsdp + 15)"
definition Rsdp_Length :: "bytes \<Rightarrow> ptr \<Rightarrow> u32" where "Rsdp_Length m Rsdp = load_le 4 m (Rsdp + 20)"

function checksum_loop :: "bytes \<Rightarrow> ptr \<Rightarrow> ptr \<Rightarrow> u8 \<Rightarrow> u8" where
  "checksum_loop m Buffer Stop acc =
     (if Buffer < Stop then checksum_loop m (Buffer + 1) Stop (acc + m Buffer) else acc)"
  by pat_completeness auto

termination
proof (relation "measure (\<lambda>(m, Buffer, Stop, acc). unat Stop - unat Buffer)")
  fix m :: bytes and Buffer Stop :: ptr and acc :: u8
  assume "Buffer < Stop"
  then have lt: "unat Buffer < unat Stop" by (simp add: word_less_nat_alt)
  then have "unat (Buffer + 1) = unat Buffer + 1" using unat_lt64 [of Stop] by (simp add: unat_word_ariths)
  then show "((m, Buffer + 1, Stop, acc + m Buffer), m, Buffer, Stop, acc) \<in> measure (\<lambda>(m, Buffer, Stop, acc). unat Stop - unat Buffer)"
    using lt by simp
qed simp

declare checksum_loop.simps [simp del]

definition AcpiTbChecksum :: "bytes \<Rightarrow> ptr \<Rightarrow> u32 \<Rightarrow> u8" where
  "AcpiTbChecksum m Buffer Length = checksum_loop m Buffer (Buffer + ucast Length) 0"

definition AcpiTbGetRsdpLength :: "bytes \<Rightarrow> ptr \<Rightarrow> ptr \<Rightarrow> u32" where
  "AcpiTbGetRsdpLength m literal Rsdp =
     (if \<not> ACPI_VALIDATE_RSDP_SIG m literal Rsdp then 0
      else if Rsdp_Revision m Rsdp \<ge> 2 then Rsdp_Length m Rsdp else ACPI_RSDP_CHECKSUM_LENGTH)"

definition AcpiTbValidateRsdp :: "bytes \<Rightarrow> ptr \<Rightarrow> ptr \<Rightarrow> u32" where
  "AcpiTbValidateRsdp m literal Rsdp =
     (if \<not> ACPI_VALIDATE_RSDP_SIG m literal Rsdp then AE_BAD_SIGNATURE
      else if AcpiTbChecksum m Rsdp ACPI_RSDP_CHECKSUM_LENGTH \<noteq> 0 then AE_BAD_CHECKSUM
      else if Rsdp_Revision m Rsdp \<ge> 2 \<and> AcpiTbChecksum m Rsdp ACPI_RSDP_XCHECKSUM_LENGTH \<noteq> 0 then AE_BAD_CHECKSUM
      else AE_OK)"

section \<open>The search\<close>

partial_function (option) scan_loop :: "bytes \<Rightarrow> ptr \<Rightarrow> ptr \<Rightarrow> ptr \<Rightarrow> ptr option option" where
  "scan_loop m literal EndAddress MemRover =
     (if MemRover < EndAddress then
        (if \<not> ACPI_FAILURE (AcpiTbValidateRsdp m literal MemRover) then Some (Some MemRover)
         else scan_loop m literal EndAddress (MemRover + ACPI_RSDP_SCAN_STEP))
      else Some None)"

definition AcpiTbScanMemoryForRsdp :: "bytes \<Rightarrow> ptr \<Rightarrow> ptr \<Rightarrow> u32 \<Rightarrow> ptr option option" where
  "AcpiTbScanMemoryForRsdp m literal StartAddress Length =
     scan_loop m literal (StartAddress + ucast Length) StartAddress"

text \<open>The second part of the search, and the whole of it; the result is the status and the address that is stored.\<close>

definition find_high :: "bytes \<Rightarrow> ptr \<Rightarrow> (u32 \<times> u64 option) option" where
  "find_high m literal =
     (let TablePtr = AcpiOsMapMemory ACPI_HI_RSDP_WINDOW_BASE in
      if TablePtr = 0 then Some (AE_NO_MEMORY, None)
      else Option.bind (AcpiTbScanMemoryForRsdp m literal TablePtr ACPI_HI_RSDP_WINDOW_SIZE) (\<lambda>MemRover.
        case MemRover of
          Some MemRover \<Rightarrow>
            (let PhysicalAddress = ucast (ACPI_HI_RSDP_WINDOW_BASE + (MemRover - TablePtr)) :: u32
             in Some (AE_OK, Some (ucast PhysicalAddress)))
        | None \<Rightarrow> Some (AE_NOT_FOUND, None)))"

definition AcpiFindRootPointer :: "bytes \<Rightarrow> ptr \<Rightarrow> (u32 \<times> u64 option) option" where
  "AcpiFindRootPointer m literal =
     (let TablePtr = AcpiOsMapMemory ACPI_EBDA_PTR_LOCATION in
      if TablePtr = 0 then Some (AE_NO_MEMORY, None)
      else
        (let PhysicalAddress = push_bit 4 (load_le 2 m TablePtr) :: u32 in
         if PhysicalAddress > 0x400 then
           (let TablePtr = AcpiOsMapMemory (ucast PhysicalAddress) in
            if TablePtr = 0 then Some (AE_NO_MEMORY, None)
            else Option.bind (AcpiTbScanMemoryForRsdp m literal TablePtr ACPI_EBDA_WINDOW_SIZE) (\<lambda>MemRover.
              case MemRover of
                Some MemRover \<Rightarrow>
                  Some (AE_OK, Some (ucast (PhysicalAddress + ucast (MemRover - TablePtr))))
              | None \<Rightarrow> find_high m literal))
         else find_high m literal))"

text \<open>
  \<^verbatim>\<open>AcpiOsGetRootPointer\<close> of \<^verbatim>\<open>osl.c\<close> does not look at the status: without a root pointer it returns
  what its local variable \<^verbatim>\<open>ret\<close> happens to hold.
\<close>

definition AcpiOsGetRootPointer :: "bytes \<Rightarrow> ptr \<Rightarrow> u64 \<Rightarrow> u64 option" where
  "AcpiOsGetRootPointer m literal ret =
     map_option (\<lambda>(_, a). case a of Some a \<Rightarrow> a | None \<Rightarrow> ret) (AcpiFindRootPointer m literal)"

section \<open>What a root pointer is\<close>

lemma strncmp_loop_0:
  "length xs = n \<Longrightarrow> 0 \<notin> set xs \<Longrightarrow> (\<forall>k < n. m (b + of_nat k) = xs ! k) \<Longrightarrow>
   strncmp_loop m a b n = 0 \<longleftrightarrow> (\<forall>k < n. m (a + of_nat k) = xs ! k)"
proof (induction xs arbitrary: a b n)
  case Nil
  then show ?case by simp
next
  case (Cons x xs)
  obtain n' where n: "n = Suc n'" using Cons.prems(1) by (cases n) auto
  have b: "m b = x" "\<forall>k < n'. m (b + 1 + of_nat k) = xs ! k"
    using Cons.prems(3) unfolding n All_less_Suc2 by (simp_all add: algebra_simps)
  have IH: "strncmp_loop m (a + 1) (b + 1) n' = 0 \<longleftrightarrow> (\<forall>k < n'. m (a + 1 + of_nat k) = xs ! k)"
    using Cons.IH [of n' "b + 1" "a + 1"] Cons.prems b n by simp
  have "(\<forall>k < n. m (a + of_nat k) = (x # xs) ! k) \<longleftrightarrow> m a = x \<and> (\<forall>k < n'. m (a + 1 + of_nat k) = xs ! k)"
    unfolding n All_less_Suc2 by (simp add: algebra_simps)
  then show ?case using IH b Cons.prems(2) unfolding n by (auto simp: uint_same)
qed

definition byte_sum :: "bytes \<Rightarrow> ptr \<Rightarrow> nat \<Rightarrow> u8" where
  "byte_sum m a n = (\<Sum>k < n. m (a + of_nat k))"

lemma checksum_loop_sum:
  "fits a n \<Longrightarrow> unat a + n < 2 ^ 64 \<Longrightarrow> checksum_loop m a (a + of_nat n) v = v + byte_sum m a n"
proof (induction n arbitrary: a v)
  case 0
  then show ?case by (subst checksum_loop.simps) (simp add: byte_sum_def)
next
  case (Suc n)
  have u: "unat (a + of_nat (Suc n)) = unat a + Suc n" "unat (a + 1) = unat a + 1"
    using Suc.prems by (simp_all add: unat_word_ariths unat_of_nat del: of_nat_Suc)
  have lt: "a < a + of_nat (Suc n)" unfolding word_less_nat_alt u by simp
  have e: "a + of_nat (Suc n) = (a + 1) + of_nat n" by simp
  have IH: "checksum_loop m (a + 1) ((a + 1) + of_nat n) (v + m a) = v + m a + byte_sum m (a + 1) n"
    using Suc.prems u by (intro Suc.IH) (simp_all add: fits_def)
  have "byte_sum m a (Suc n) = m a + byte_sum m (a + 1) n"
    unfolding byte_sum_def sum.lessThan_Suc_shift by (simp add: algebra_simps)
  moreover have "checksum_loop m a (a + of_nat (Suc n)) v = checksum_loop m (a + 1) ((a + 1) + of_nat n) (v + m a)"
    using lt unfolding e by (subst checksum_loop.simps) (simp only: if_True)
  ultimately show ?case unfolding IH by (simp add: add.assoc)
qed

text \<open>A valid structure at an address: the signature, and the sums of the first 20 and 36 bytes.\<close>

definition root_pointer :: "bytes \<Rightarrow> ptr \<Rightarrow> bool" where
  "root_pointer m a \<longleftrightarrow>
     (\<forall>k < 8. m (a + of_nat k) = ACPI_SIG_RSDP ! k) \<and> byte_sum m a 20 = 0 \<and>
     (m (a + 15) \<ge> 2 \<longrightarrow> byte_sum m a 36 = 0)"

definition holds_literal :: "bytes \<Rightarrow> ptr \<Rightarrow> bool" where
  "holds_literal m literal \<longleftrightarrow> (\<forall>k < 8. m (literal + of_nat k) = ACPI_SIG_RSDP ! k)"

lemma validate_rsdp:
  assumes "holds_literal m literal" "unat a + 36 < 2 ^ 64"
  shows "\<not> ACPI_FAILURE (AcpiTbValidateRsdp m literal a) \<longleftrightarrow> root_pointer m a"
proof -
  have eight: "unat (8 :: u64) = 8" by simp
  have "strncmp m a literal 8 = 0 \<longleftrightarrow> (\<forall>k < 8. m (a + of_nat k) = ACPI_SIG_RSDP ! k)"
    unfolding strncmp_def eight
    by (intro strncmp_loop_0) (use assms(1) in \<open>simp_all add: ACPI_SIG_RSDP_def holds_literal_def\<close>)
  moreover have "AcpiTbChecksum m a 20 = byte_sum m a 20" "AcpiTbChecksum m a 36 = byte_sum m a 36"
    using checksum_loop_sum [of a 20 m 0] checksum_loop_sum [of a 36 m 0] assms(2)
    by (simp_all add: AcpiTbChecksum_def fits_def)
  moreover have "ACPI_FAILURE AE_BAD_SIGNATURE" "ACPI_FAILURE AE_BAD_CHECKSUM" "\<not> ACPI_FAILURE AE_OK"
    by (simp_all add: ACPI_FAILURE_def acpi_status)
  ultimately show ?thesis
    by (simp add: AcpiTbValidateRsdp_def ACPI_VALIDATE_RSDP_SIG_def root_pointer_def Rsdp_Revision_def acpi_rsdp)
qed

lemma scan_loop_find:
  assumes "holds_literal m literal" "unat a + 16 * n + 36 < 2 ^ 64"
  shows "scan_loop m literal (a + of_nat (16 * n)) a = Some (find (root_pointer m) (map (\<lambda>i. a + of_nat (16 * i)) [0..<n]))"
  using assms(2)
proof (induction n arbitrary: a)
  case 0
  then show ?case by (subst scan_loop.simps) simp
next
  case (Suc n)
  have u: "unat (a + of_nat (16 * Suc n)) = unat a + 16 * Suc n" "unat (a + 16) = unat a + 16"
    using Suc.prems fits_offset [of a "16 * Suc n + 17" "16 * Suc n"] fits_offset [of a "16 * Suc n + 17" 16]
    by (simp_all add: fits_def)
  have lt: "a < a + of_nat (16 * Suc n)" unfolding word_less_nat_alt u by simp
  have e: "a + of_nat (16 * Suc n) = (a + 16) + of_nat (16 * n)" by simp
  have IH: "scan_loop m literal (a + 16 + of_nat (16 * n)) (a + 16) =
      Some (find (root_pointer m) (map (\<lambda>i. a + 16 + of_nat (16 * i)) [0..<n]))"
    using Suc.prems u by (intro Suc.IH) simp
  have list: "map (\<lambda>i. a + of_nat (16 * i)) [0..<Suc n] = a # map (\<lambda>i. a + 16 + of_nat (16 * i)) [0..<n]"
    unfolding upt_conv_Cons [OF zero_less_Suc] map_Suc_upt [symmetric] by (simp add: o_def algebra_simps)
  have v: "\<not> ACPI_FAILURE (AcpiTbValidateRsdp m literal a) \<longleftrightarrow> root_pointer m a"
    using assms(1) Suc.prems by (intro validate_rsdp) simp_all
  show ?case
    unfolding list using lt v
    by (subst scan_loop.simps) (simp only: e if_True ACPI_RSDP_SCAN_STEP_def IH find.simps split: if_split, auto)
qed


lemma find_map: "find P (map f xs) = map_option f (find (\<lambda>x. P (f x)) xs)"
  by (induction xs) simp_all

text \<open>The 16-byte boundaries from a physical address on.\<close>

definition boundaries :: "nat \<Rightarrow> nat \<Rightarrow> nat list" where
  "boundaries p n = map (\<lambda>i. p + 16 * i) [0..<n]"

definition root_at :: "bytes \<Rightarrow> nat \<Rightarrow> bool" where
  "root_at m p \<longleftrightarrow> root_pointer m (AcpiOsMapMemory (of_nat p))"

lemma scan_boundaries:
  assumes "holds_literal m literal" "p + 16 * n < 0x200000"
  shows "scan_loop m literal (AcpiOsMapMemory (of_nat p) + of_nat (16 * n)) (AcpiOsMapMemory (of_nat p)) =
    Some (map_option (\<lambda>q. AcpiOsMapMemory (of_nat q)) (find (root_at m) (boundaries p n)))"
proof -
  have "unat (AcpiOsMapMemory (of_nat p)) = 0xffffc00000000000 + p"
    using assms(2) by (simp add: AcpiOsMapMemory_def unat_word_ariths unat_of_nat)
  then have "scan_loop m literal (AcpiOsMapMemory (of_nat p) + of_nat (16 * n)) (AcpiOsMapMemory (of_nat p)) =
      Some (find (root_pointer m) (map (\<lambda>i. AcpiOsMapMemory (of_nat p) + of_nat (16 * i)) [0..<n]))"
    using assms by (intro scan_loop_find) simp_all
  also have "map (\<lambda>i. AcpiOsMapMemory (of_nat p) + of_nat (16 * i)) [0..<n] =
      map (\<lambda>q. AcpiOsMapMemory (of_nat q)) (boundaries p n)"
    by (simp add: boundaries_def AcpiOsMapMemory_def algebra_simps)
  finally show ?thesis by (simp add: find_map root_at_def [abs_def])
qed

lemma find_bound: "find P (boundaries p n) = Some q \<Longrightarrow> p \<le> q \<and> q < p + 16 * n"
  unfolding find_Some_iff by (auto simp: boundaries_def)

lemma find_high_ok:
  assumes "holds_literal m literal"
  shows "find_high m literal =
    Some (case find (root_at m) (boundaries 0xE0000 0x2000) of
      Some p \<Rightarrow> (AE_OK, Some (of_nat p)) | None \<Rightarrow> (AE_NOT_FOUND, None))"
proof -
  have scan: "AcpiTbScanMemoryForRsdp m literal (AcpiOsMapMemory 0xE0000) 0x20000 =
      Some (map_option (\<lambda>q. AcpiOsMapMemory (of_nat q)) (find (root_at m) (boundaries 0xE0000 0x2000)))"
    using scan_boundaries [OF assms, of "0xE0000" "0x2000"] by (simp add: AcpiTbScanMemoryForRsdp_def)
  show ?thesis
  proof (cases "find (root_at m) (boundaries 0xE0000 0x2000)")
    case None
    then show ?thesis using scan by (simp add: find_high_def acpi_rsdp AcpiOsMapMemory_def)
  next
    case (Some q)
    have q: "q < 2 ^ 20" using find_bound [OF Some] by simp
    have "ucast (ucast (of_nat q :: u64) :: u32) = (of_nat q :: u64)"
      using q by (simp add: word_eq_unat unsigned_ucast_eq unsigned_of_nat take_bit_nat_eq_self)
    then show ?thesis using scan Some by (simp add: find_high_def acpi_rsdp AcpiOsMapMemory_def)
  qed
qed

text \<open>Where the root pointer may be: in the extended BIOS data area, if there is one, and below 1M.\<close>

definition bios_area :: "bytes \<Rightarrow> nat" where
  "bios_area m = 16 * unat (load_le 2 m (AcpiOsMapMemory 0x40E) :: u16)"

definition candidates :: "bytes \<Rightarrow> nat list" where
  "candidates m = (if bios_area m > 0x400 then boundaries (bios_area m) 64 else []) @ boundaries 0xE0000 0x2000"

lemma find_append: "find P (xs @ ys) = (case find P xs of Some x \<Rightarrow> Some x | None \<Rightarrow> find P ys)"
  by (induction xs) simp_all

lemma find_root_pointer_ok:
  assumes "holds_literal m literal"
  shows "AcpiFindRootPointer m literal =
    Some (case find (root_at m) (candidates m) of
      Some p \<Rightarrow> (AE_OK, Some (of_nat p)) | None \<Rightarrow> (AE_NOT_FOUND, None))"
proof -
  define w where "w = (load_le 2 m (AcpiOsMapMemory 0x40E) :: u16)"
  define pa where "pa = (push_bit 4 (load_le 2 m (AcpiOsMapMemory 0x40E)) :: u32)"
  have "load_le 2 m (AcpiOsMapMemory 0x40E) = (ucast w :: u32)"
    by (rule bit_word_eqI) (auto simp: w_def bit_load_le bit_simps)
  moreover have w: "unat w < 65536" using unsigned_less [of w] by simp
  ultimately have pa: "unat pa = bios_area m" "bios_area m < 2 ^ 20"
    by (simp_all add: pa_def bios_area_def w_def [symmetric] push_bit_eq_mult unat_word_ariths unsigned_ucast_eq take_bit_nat_eq_self)
  have ucast: "ucast pa = (of_nat (bios_area m) :: u64)" using pa by (metis of_nat_unat)
  have high: "find_high m literal =
    Some (case find (root_at m) (boundaries 0xE0000 0x2000) of
      Some p \<Rightarrow> (AE_OK, Some (of_nat p)) | None \<Rightarrow> (AE_NOT_FOUND, None))" by (rule find_high_ok [OF assms])
  have nn: "AcpiOsMapMemory ACPI_EBDA_PTR_LOCATION \<noteq> 0" "AcpiOsMapMemory (ucast pa) \<noteq> 0"
  proof -
    show "AcpiOsMapMemory ACPI_EBDA_PTR_LOCATION \<noteq> 0" by (simp add: AcpiOsMapMemory_def acpi_rsdp)
    have "unat (AcpiOsMapMemory (ucast pa)) = 0xffffc00000000000 + bios_area m"
      using pa by (simp add: AcpiOsMapMemory_def ucast unat_word_ariths unat_of_nat)
    then show "AcpiOsMapMemory (ucast pa) \<noteq> 0" by auto
  qed
  have above: "(pa > 0x400) = (bios_area m > 0x400)" using pa(1) by (simp add: word_less_nat_alt)
  show ?thesis
  proof (cases "bios_area m > 0x400")
    case False
    then show ?thesis
      unfolding AcpiFindRootPointer_def Let_def
      using nn high above by (simp add: pa_def acpi_rsdp candidates_def root_at_def [abs_def])
  next
    case True
    have scan: "AcpiTbScanMemoryForRsdp m literal (AcpiOsMapMemory (ucast pa)) ACPI_EBDA_WINDOW_SIZE =
        Some (map_option (\<lambda>q. AcpiOsMapMemory (of_nat q)) (find (root_at m) (boundaries (bios_area m) 64)))"
      using scan_boundaries [OF assms, of "bios_area m" 64] pa(2)
      by (simp add: AcpiTbScanMemoryForRsdp_def ucast acpi_rsdp)
    have found: "ucast (pa + ucast (AcpiOsMapMemory (of_nat q) - AcpiOsMapMemory (ucast pa))) = (of_nat q :: u64)"
      if q: "find (root_at m) (boundaries (bios_area m) 64) = Some q" for q
    proof -
      obtain d where d: "q = bios_area m + d" "d < 1024" using find_bound [OF q] by (metis add_less_cancel_left le_Suc_ex less_imp_add_positive mult.commute numeral_times_numeral semiring_norm) 
      have "AcpiOsMapMemory (of_nat q) - AcpiOsMapMemory (ucast pa) = of_nat d"
        by (simp add: AcpiOsMapMemory_def ucast d(1))
      moreover have "ucast (of_nat d :: u64) = (of_nat d :: u32)"
        using d(2) by (simp add: word_eq_unat unsigned_ucast_eq unsigned_of_nat take_bit_nat_eq_self)
      moreover have "unat (pa + of_nat d) = q"
        using pa d by (simp add: unat_word_ariths unat_of_nat)
      ultimately show ?thesis by (metis of_nat_unat)
    qed
    show ?thesis
      unfolding AcpiFindRootPointer_def Let_def pa_def [symmetric] acpi_rsdp(1) [symmetric]
      using nn high above True scan found
      by (auto simp: pa_def [symmetric] acpi_rsdp(1) candidates_def find_append root_at_def [symmetric, abs_def] split: option.split)
  qed
qed

lemma root_pointer_uninitialised:
  assumes "holds_literal m literal" "\<forall>p \<in> set (candidates m). \<not> root_pointer m (AcpiOsMapMemory (of_nat p))"
  shows "AcpiOsGetRootPointer m literal ret = Some ret"
proof -
  have "find (root_at m) (candidates m) = None" unfolding find_None_iff using assms(2) by (auto simp: root_at_def)
  then show ?thesis using find_root_pointer_ok [OF assms(1)] by (simp add: AcpiOsGetRootPointer_def)
qed

section \<open>Properties\<close>

text \<open>
  C21: The search always returns.  It finds the first 16-byte boundary of the extended BIOS data area
  (when the area lies above 0x400), then of the 128K below 1M, with a valid root pointer: the
  signature, a zero sum of its first 20 bytes and, from revision 2 on, of its 36 bytes; the result
  is its physical address, and not-found exactly when there is none.
\<close>

theorem find_root_pointer_first:
  assumes "holds_literal m literal"
  shows "AcpiFindRootPointer m literal =
    Some (case find (\<lambda>p. root_pointer m (AcpiOsMapMemory (of_nat p))) (candidates m) of
      Some p \<Rightarrow> (AE_OK, Some (of_nat p)) | None \<Rightarrow> (AE_NOT_FOUND, None))"
  using find_root_pointer_ok [OF assms] by (simp add: root_at_def [abs_def])

text \<open>Memory with the literal at 0x1000 and a root pointer of revision 0 at the physical address 0xE0010.\<close>

definition example_bios :: bytes where
  "example_bios = (\<lambda>_. 0)(0x1000 := 0x52, 0x1001 := 0x53, 0x1002 := 0x44, 0x1003 := 0x20, 0x1004 := 0x50, 0x1005 := 0x54, 0x1006 := 0x52, 0x1007 := 0x20, 0xffffc000000e0010 := 0x52, 0xffffc000000e0011 := 0x53, 0xffffc000000e0012 := 0x44, 0xffffc000000e0013 := 0x20, 0xffffc000000e0014 := 0x50, 0xffffc000000e0015 := 0x54, 0xffffc000000e0016 := 0x52, 0xffffc000000e0017 := 0x20, 0xffffc000000e0018 := 0xe1)"

lemma all_less_8: "(\<forall>k < 8. P k) \<longleftrightarrow> P 0 \<and> P 1 \<and> P 2 \<and> P 3 \<and> P 4 \<and> P 5 \<and> P 6 \<and> P 7" for P :: "nat \<Rightarrow> bool"
  by (simp add: numeral_eq_Suc All_less_Suc2)

lemma byte_sum_list: "byte_sum m a n = sum_list (map (\<lambda>k. m (a + of_nat k)) [0..<n])"
  by (induction n) (simp_all add: byte_sum_def)

theorem find_root_pointer_first_witness:
  "AcpiFindRootPointer example_bios 0x1000 = Some (AE_OK, Some 0xE0010)"
proof -
  have lit: "holds_literal example_bios 0x1000"
    by (simp add: holds_literal_def ACPI_SIG_RSDP_def example_bios_def all_less_8)
  have no: "\<not> root_pointer example_bios (AcpiOsMapMemory (of_nat 0xE0000))"
    by (simp add: root_pointer_def ACPI_SIG_RSDP_def example_bios_def AcpiOsMapMemory_def all_less_8)
  have yes: "root_pointer example_bios (AcpiOsMapMemory (of_nat 0xE0010))"
    by (simp add: root_pointer_def ACPI_SIG_RSDP_def example_bios_def AcpiOsMapMemory_def byte_sum_list
        all_less_8 upt_rec)
  have "bios_area example_bios = 0"
    unfolding bios_area_def numeral_2_eq_2 by (simp add: AcpiOsMapMemory_def example_bios_def)
  moreover have "[0..<0x2000] = 0 # [Suc 0..<0x2000]" by (rule upt_conv_Cons) simp
  moreover have "[Suc 0..<0x2000] = Suc 0 # [Suc (Suc 0)..<0x2000]" by (rule upt_conv_Cons) simp
  ultimately have "candidates example_bios = 0xE0000 # 0xE0010 # map (\<lambda>i. 0xE0000 + 16 * i) [Suc (Suc 0)..<0x2000]"
    by (simp add: candidates_def boundaries_def del: upt_rec_numeral)
  then show ?thesis
    using find_root_pointer_first [OF lit] no yes by (simp del: upt_rec_numeral)
qed

end
