(* ===== verification/Acpi_Aml.thy ===== *)
theory Acpi_Aml
  imports Acpi_Resource Acpi_Clib
begin

text \<open>
  The arguments of AML opcodes (\<^verbatim>\<open>kernel/hw/acpica/psargs.c\<close>): package lengths, name strings and
  simple arguments, read from the byte stream at the pointer of the parser state.  The state is that
  pointer, which each function returns advanced.
\<close>

section \<open>Package lengths\<close>

text \<open>\<^verbatim>\<open>while (ByteCount)\<close>: the further bytes, from the last one down.\<close>

fun package_loop :: "bytes \<Rightarrow> ptr \<Rightarrow> nat \<Rightarrow> u32 \<Rightarrow> u32" where
  "package_loop m Aml 0 PackageLength = PackageLength"
| "package_loop m Aml (Suc n) PackageLength =
     package_loop m Aml n (PackageLength OR push_bit (8 * Suc n - 4) (ucast (m (Aml + of_nat (Suc n)))))"

definition AcpiPsGetNextPackageLength :: "bytes \<Rightarrow> ptr \<Rightarrow> ptr \<times> u32" where
  "AcpiPsGetNextPackageLength m Aml =
     (let ByteCount = unat (drop_bit 6 (m Aml));
          ByteZeroMask = (if ByteCount = 0 then 0x3F else 0x0F)
      in (Aml + (of_nat ByteCount + 1), package_loop m Aml ByteCount 0 OR ucast (m Aml AND ByteZeroMask)))"

definition AcpiPsGetNextPackageEnd :: "bytes \<Rightarrow> ptr \<Rightarrow> ptr \<times> ptr" where
  "AcpiPsGetNextPackageEnd m Start =
     (case AcpiPsGetNextPackageLength m Start of (Aml, PackageLength) \<Rightarrow> (Aml, Start + ucast PackageLength))"

section \<open>Name strings\<close>

definition ACPI_IS_ROOT_PREFIX :: "u8 \<Rightarrow> bool" where "ACPI_IS_ROOT_PREFIX c \<longleftrightarrow> c = 0x5C"
definition ACPI_IS_PARENT_PREFIX :: "u8 \<Rightarrow> bool" where "ACPI_IS_PARENT_PREFIX c \<longleftrightarrow> c = 0x5E"
definition AML_DUAL_NAME_PREFIX :: u8 where "AML_DUAL_NAME_PREFIX = 0x2E"
definition AML_MULTI_NAME_PREFIX_OP :: u8 where "AML_MULTI_NAME_PREFIX_OP = 0x2F"
definition ACPI_NAME_SIZE :: u64 where "ACPI_NAME_SIZE = 4"

partial_function (option) skip_prefixes :: "bytes \<Rightarrow> ptr \<Rightarrow> ptr option" where
  "skip_prefixes m Stop =
     (if ACPI_IS_ROOT_PREFIX (m Stop) \<or> ACPI_IS_PARENT_PREFIX (m Stop) then skip_prefixes m (Stop + 1) else Some Stop)"

text \<open>The advanced pointer, and the start of the name; \<^verbatim>\<open>NULL\<close> stands for the empty name.\<close>

definition AcpiPsGetNextNamestring :: "bytes \<Rightarrow> ptr \<Rightarrow> (ptr \<times> ptr option) option" where
  "AcpiPsGetNextNamestring m Start =
     map_option (\<lambda>Stop.
       if m Stop = 0 then (Stop + 1, if Stop = Start then None else Some Start)
       else if m Stop = AML_DUAL_NAME_PREFIX then (Stop + (1 + 2 * ACPI_NAME_SIZE), Some Start)
       else if m Stop = AML_MULTI_NAME_PREFIX_OP then
         (Stop + (2 + ucast (m (Stop + 1)) * ACPI_NAME_SIZE), Some Start)
       else (Stop + ACPI_NAME_SIZE, Some Start))
     (skip_prefixes m Start)"

section \<open>Simple arguments\<close>

definition ARGP_BYTEDATA :: u32 where "ARGP_BYTEDATA = 0x01"
definition ARGP_CHARLIST :: u32 where "ARGP_CHARLIST = 0x03"
definition ARGP_DWORDDATA :: u32 where "ARGP_DWORDDATA = 0x06"
definition ARGP_NAME :: u32 where "ARGP_NAME = 0x08"
definition ARGP_NAMESTRING :: u32 where "ARGP_NAMESTRING = 0x09"
definition ARGP_WORDDATA :: u32 where "ARGP_WORDDATA = 0x10"
definition ARGP_QWORDDATA :: u32 where "ARGP_QWORDDATA = 0x11"

definition AML_BYTE_OP :: u16 where "AML_BYTE_OP = 0x0a"
definition AML_WORD_OP :: u16 where "AML_WORD_OP = 0x0b"
definition AML_DWORD_OP :: u16 where "AML_DWORD_OP = 0x0c"
definition AML_STRING_OP :: u16 where "AML_STRING_OP = 0x0d"
definition AML_QWORD_OP :: u16 where "AML_QWORD_OP = 0x0e"
definition AML_INT_NAMEPATH_OP :: u16 where "AML_INT_NAMEPATH_OP = 0x002d"

text \<open>The members of a parse object that are set; \<^verbatim>\<open>Value\<close> is a union.\<close>

datatype parse_value = Integer u64 | String ptr | Name "ptr option"

record parse_object =
  AmlOpcode :: u16
  Value :: parse_value

text \<open>\<^verbatim>\<open>while (Aml[Length])\<close>; \<^verbatim>\<open>Length\<close> is a \<^verbatim>\<open>UINT32\<close>.\<close>

partial_function (option) charlist_length :: "bytes \<Rightarrow> ptr \<Rightarrow> u32 \<Rightarrow> u32 option" where
  "charlist_length m Aml Length =
     (if m (Aml + ucast Length) \<noteq> 0 then charlist_length m Aml (Length + 1) else Some Length)"

definition AcpiPsGetNextSimpleArg :: "bytes \<Rightarrow> ptr \<Rightarrow> u32 \<Rightarrow> parse_object \<Rightarrow> (ptr \<times> parse_object) option" where
  "AcpiPsGetNextSimpleArg m Aml ArgType Arg =
     (if ArgType = ARGP_BYTEDATA then
        Some (Aml + 1, Arg\<lparr>AmlOpcode := AML_BYTE_OP, Value := Integer (ucast (m Aml))\<rparr>)
      else if ArgType = ARGP_WORDDATA then
        Some (Aml + 2, Arg\<lparr>AmlOpcode := AML_WORD_OP, Value := Integer (load_le 2 m Aml)\<rparr>)
      else if ArgType = ARGP_DWORDDATA then
        Some (Aml + 4, Arg\<lparr>AmlOpcode := AML_DWORD_OP, Value := Integer (load_le 4 m Aml)\<rparr>)
      else if ArgType = ARGP_QWORDDATA then
        Some (Aml + 8, Arg\<lparr>AmlOpcode := AML_QWORD_OP, Value := Integer (load_le 8 m Aml)\<rparr>)
      else if ArgType = ARGP_CHARLIST then
        map_option (\<lambda>Length. (Aml + ucast (Length + 1), Arg\<lparr>AmlOpcode := AML_STRING_OP, Value := String Aml\<rparr>))
          (charlist_length m Aml 0)
      else if ArgType = ARGP_NAME \<or> ArgType = ARGP_NAMESTRING then
        map_option (\<lambda>(Aml, n). (Aml, Arg\<lparr>AmlOpcode := AML_INT_NAMEPATH_OP, Value := Name n\<rparr>))
          (AcpiPsGetNextNamestring m Aml)
      else Some (Aml, Arg))"

section \<open>Encodings\<close>

text \<open>The package length encoding of the ACPI specification: one byte, or a nibble and up to three bytes.\<close>

definition encode_length :: "u32 \<Rightarrow> u8 list" where
  "encode_length n =
     (let byte = (\<lambda>k. ucast (drop_bit k n) :: u8); low = ucast n AND 0x0F :: u8 in
      if n < 2 ^ 6 then [ucast n]
      else if n < 2 ^ 12 then [low OR 0x40, byte 4]
      else if n < 2 ^ 20 then [low OR 0x80, byte 4, byte 12]
      else [low OR 0xC0, byte 4, byte 12, byte 20])"

lemma high_bits:
  fixes n :: u32
  assumes "unat n < 2 ^ k" "k \<le> j" shows "\<not> bit n j"
proof -
  have "unat (take_bit k n) = unat n" using assms(1) by (simp add: unsigned_take_bit_eq take_bit_nat_eq_self)
  then have "take_bit k n = n" by (simp add: word_eq_unat)
  then show ?thesis using assms(2) by (metis bit_take_bit_iff not_le)
qed

lemma low_nibble:
  fixes x c :: u8
  assumes "c \<in> {0x40, 0x80, 0xC0}"
  shows "drop_bit 6 (x AND 0x0F OR c) = drop_bit 6 c" "(x AND 0x0F OR c) AND 0x0F = x AND 0x0F"
proof -
  have "drop_bit 6 (x AND 0x0F) = 0" by simp
  then show "drop_bit 6 (x AND 0x0F OR c) = drop_bit 6 c" by simp
  have "c AND 0x0F = 0" using assms by auto
  then show "(x AND 0x0F OR c) AND 0x0F = x AND 0x0F" by (simp add: bit.conj_disj_distrib2 and.assoc)
qed

lemma nibble_bit: "bit (ucast (ucast n AND 0x0F :: u8) :: u32) j \<longleftrightarrow> j < 4 \<and> bit n j" for n :: u32
proof -
  have f: "0x0F = (mask 4 :: u8)" by (simp add: mask_eq_exp_minus_1)
  show ?thesis unfolding f by (auto simp: bit_simps simp del: mask_numeral dest: bit_imp_le_length)
qed

lemma byte_bit: "bit (push_bit k (ucast (ucast (drop_bit k n) :: u8)) :: u32) j \<longleftrightarrow> k \<le> j \<and> j < k + 8 \<and> bit n j" for n :: u32
  by (auto simp: bit_simps dest: bit_imp_le_length)

lemma package_loop_unfold:
  "package_loop m a 1 v = v OR push_bit 4 (ucast (m (a + 1)))"
  "package_loop m a 2 v = v OR push_bit 12 (ucast (m (a + 2))) OR push_bit 4 (ucast (m (a + 1)))"
  "package_loop m a 3 v = v OR push_bit 20 (ucast (m (a + 3))) OR push_bit 12 (ucast (m (a + 2))) OR push_bit 4 (ucast (m (a + 1)))"
  unfolding numeral_3_eq_3 numeral_2_eq_2 One_nat_def by (simp_all add: or.assoc)

lemma package_length_decodes:
  assumes "unat n < 2 ^ 28" "holds m a (encode_length n)"
  shows "AcpiPsGetNextPackageLength m a = (a + of_nat (length (encode_length n)), n)"
proof -
  consider "unat n < 2 ^ 6" | "\<not> unat n < 2 ^ 6" "unat n < 2 ^ 12" | "\<not> unat n < 2 ^ 12" "unat n < 2 ^ 20" | "\<not> unat n < 2 ^ 20"
    by linarith
  then show ?thesis
  proof cases
    case 1
    have n: "unat (ucast n :: u8) = unat n" using 1 by (simp add: unsigned_ucast_eq take_bit_nat_eq_self)
    have enc: "encode_length n = [ucast n]" using 1 by (simp add: encode_length_def word_less_nat_alt)
    then have m: "m a = ucast n" using assms(2) by (simp add: holds_def)
    have "unat (drop_bit 6 (ucast n :: u8)) = 0" using 1 unfolding unsigned_drop_bit_eq n by (simp add: drop_bit_eq_div take_bit_nat_eq_self)
    then have "drop_bit 6 (ucast n :: u8) = 0" by (simp only: unat_0_iff)
    moreover have "(ucast n :: u8) AND 0x3F = ucast n"
    proof -
      have "(ucast n :: u8) AND mask 6 = take_bit 6 (ucast n)" by (simp add: take_bit_eq_mask)
      also have "\<dots> = ucast n" using 1 n by (simp add: word_eq_unat unsigned_take_bit_eq take_bit_nat_eq_self)
      finally show ?thesis by (simp add: mask_eq_exp_minus_1)
    qed
    moreover have "ucast (ucast n :: u8) = n" 
    proof (rule bit_word_eqI)
      fix j
      show "bit (ucast (ucast n :: u8) :: u32) j = bit n j"
        using high_bits [OF 1, of j] by (cases "j < 8") (auto simp: bit_simps dest: bit_imp_le_length)
    qed
    ultimately show ?thesis by (simp add: AcpiPsGetNextPackageLength_def m enc)
  next
    case 2
    have enc: "encode_length n = [ucast n AND 0x0F OR 0x40, ucast (drop_bit 4 n)]"
      using 2 by (simp add: encode_length_def word_less_nat_alt)
    then have m: "m a = ucast n AND 0x0F OR 0x40" "m (a + 1) = ucast (drop_bit 4 n)"
      using assms(2) by (simp_all add: holds_def All_less_Suc2)
    have "push_bit 4 (ucast (ucast (drop_bit 4 n) :: u8)) OR ucast (ucast n AND 0x0F :: u8) = n"
    proof (rule bit_word_eqI)
      fix j
      show "bit (push_bit 4 (ucast (ucast (drop_bit 4 n) :: u8)) OR ucast (ucast n AND 0x0F :: u8) :: u32) j = bit n j"
        using high_bits [OF 2(2), of j] unfolding bit_or_iff byte_bit nibble_bit by (cases "j < 12") auto
    qed
    then show ?thesis by (simp add: AcpiPsGetNextPackageLength_def m enc low_nibble package_loop_unfold or.assoc)
  next
    case 3
    have enc: "encode_length n = [ucast n AND 0x0F OR 0x80, ucast (drop_bit 4 n), ucast (drop_bit 12 n)]"
      using 3 by (simp add: encode_length_def word_less_nat_alt)
    then have m: "m a = ucast n AND 0x0F OR 0x80" "m (a + 1) = ucast (drop_bit 4 n)" "m (a + 2) = ucast (drop_bit 12 n)"
      using assms(2) by (simp_all add: holds_def All_less_Suc2)
    have "push_bit 12 (ucast (ucast (drop_bit 12 n) :: u8)) OR push_bit 4 (ucast (ucast (drop_bit 4 n) :: u8))
        OR ucast (ucast n AND 0x0F :: u8) = n"
      by (rule bit_word_eqI) (use high_bits [OF 3(2)] in \<open>auto simp: byte_bit nibble_bit bit_or_iff not_less\<close>)
    then show ?thesis by (simp add: AcpiPsGetNextPackageLength_def m enc low_nibble package_loop_unfold or.assoc)
  next
    case 4
    have enc: "encode_length n = [ucast n AND 0x0F OR 0xC0, ucast (drop_bit 4 n), ucast (drop_bit 12 n), ucast (drop_bit 20 n)]"
      using 4 by (simp add: encode_length_def word_less_nat_alt)
    then have m: "m a = ucast n AND 0x0F OR 0xC0" "m (a + 1) = ucast (drop_bit 4 n)" "m (a + 2) = ucast (drop_bit 12 n)"
      "m (a + 3) = ucast (drop_bit 20 n)"
      using assms(2) by (simp_all add: holds_def All_less_Suc2)
    have "push_bit 20 (ucast (ucast (drop_bit 20 n) :: u8)) OR push_bit 12 (ucast (ucast (drop_bit 12 n) :: u8))
        OR push_bit 4 (ucast (ucast (drop_bit 4 n) :: u8)) OR ucast (ucast n AND 0x0F :: u8) = n"
      by (rule bit_word_eqI) (use high_bits [OF assms(1)] in \<open>auto simp: byte_bit nibble_bit bit_or_iff not_less\<close>)
    then show ?thesis by (simp add: AcpiPsGetNextPackageLength_def m enc low_nibble package_loop_unfold or.assoc)
  qed
qed


text \<open>The rest of a name after its prefix characters.\<close>

definition segment :: "u8 list \<Rightarrow> bool" where
  "segment s \<longleftrightarrow> length s = 4 \<and> hd s \<notin> {0, 0x2E, 0x2F, 0x5C, 0x5E}"

definition name_path :: "u8 list \<Rightarrow> bool" where
  "name_path p \<longleftrightarrow> p = [0] \<or> segment p \<or> (\<exists>s t. p = 0x2E # s @ t \<and> segment s \<and> segment t) \<or>
     (\<exists>c ss. p = 0x2F # c # concat ss \<and> length ss = unat c \<and> (\<forall>s \<in> set ss. segment s))"

lemma holds_Cons: "holds m a (x # xs) \<longleftrightarrow> m a = x \<and> holds m (a + 1) xs"
  using holds_append [of m a "[x]" xs] by (simp add: holds_def)

lemma holds_Nil: "holds m a []"
  by (simp add: holds_def)

lemma skip_prefixes_ok:
  assumes "holds m a (ps @ p # q)" "set ps \<subseteq> {0x5C, 0x5E}" "p \<notin> {0x5C, 0x5E}"
  shows "skip_prefixes m a = Some (a + of_nat (length ps))"
  using assms
proof (induction ps arbitrary: a)
  case Nil
  then show ?case by (subst skip_prefixes.simps) (simp add: holds_Cons ACPI_IS_ROOT_PREFIX_def ACPI_IS_PARENT_PREFIX_def)
next
  case (Cons x ps)
  then show ?case
    by (subst skip_prefixes.simps)
      (auto simp: holds_Cons ACPI_IS_ROOT_PREFIX_def ACPI_IS_PARENT_PREFIX_def algebra_simps)
qed

lemma concat_segments: "\<forall>s \<in> set ss. segment s \<Longrightarrow> length (concat ss) = 4 * length ss"
  by (induction ss) (auto simp: segment_def)

lemma namestring_ok:
  assumes "holds m a (ps @ path)" "set ps \<subseteq> {0x5C, 0x5E}" "name_path path"
  shows "AcpiPsGetNextNamestring m a =
    Some (a + of_nat (length ps + length path), if ps = [] \<and> path = [0] then None else Some a)"
proof -
  define b where "b = a + of_nat (length ps)"
  obtain p q where path: "path = p # q" "p \<notin> {0x5C, 0x5E}"
    using assms(3) by (cases path) (auto simp: name_path_def segment_def)
  have skip: "skip_prefixes m a = Some b"
    unfolding b_def using skip_prefixes_ok [of m a ps p q] assms path by simp
  have hb: "m b = p" "holds m (b + 1) q" using assms(1) by (simp_all add: holds_append holds_Cons b_def path)
  have e: "a + of_nat (length ps + length path) = b + of_nat (length path)" by (simp add: b_def)
  have same: "b = a \<longleftrightarrow> ps = []" if "path = [0]"
  proof
    assume "b = a"
    show "ps = []"
    proof (cases ps)
      case (Cons x xs)
      then have "m a \<in> {0x5C, 0x5E}" using assms(1,2) by (auto simp: holds_Cons)
      then show ?thesis using hb(1) path(2) \<open>b = a\<close> by simp
    qed simp
  qed (simp add: b_def)
  from assms(3) consider "path = [0]" | "segment path" | s t where "path = 0x2E # s @ t" "segment s" "segment t"
    | c ss where "path = 0x2F # c # concat ss" "length ss = unat c" "\<forall>s \<in> set ss. segment s"
    unfolding name_path_def by blast
  then show ?thesis
  proof cases
    case 1
    then show ?thesis using hb path same unfolding e by (auto simp: AcpiPsGetNextNamestring_def skip)
  next
    case 2
    then have "length path = 4" "p \<notin> {0, 0x2E, 0x2F}" "path \<noteq> [0]" by (auto simp: segment_def path)
    then show ?thesis using hb unfolding e by (auto simp: AcpiPsGetNextNamestring_def skip ACPI_NAME_SIZE_def
        AML_DUAL_NAME_PREFIX_def AML_MULTI_NAME_PREFIX_OP_def)
  next
    case 3
    then have "length path = 9" "p = 0x2E" using path by (auto simp: segment_def)
    then show ?thesis using hb 3 unfolding e by (auto simp: AcpiPsGetNextNamestring_def skip ACPI_NAME_SIZE_def
        AML_DUAL_NAME_PREFIX_def AML_MULTI_NAME_PREFIX_OP_def)
  next
    case 4
    then have l: "length path = 2 + 4 * unat c" "p = 0x2F" "m (b + 1) = c"
      using path hb concat_segments [OF 4(3)] by (auto simp: holds_Cons)
    have "of_nat (length path) = (2 + ucast c * 4 :: u64)" by (simp add: l(1))
    then show ?thesis using hb 4 l unfolding e by (auto simp: AcpiPsGetNextNamestring_def skip ACPI_NAME_SIZE_def
        AML_DUAL_NAME_PREFIX_def AML_MULTI_NAME_PREFIX_OP_def)
  qed
qed

lemma charlist_length_ok:
  assumes "cstring m (a + ucast n) xs" "unat n + length xs < 2 ^ 32"
  shows "charlist_length m a n = Some (n + of_nat (length xs))"
  using assms
proof (induction xs arbitrary: n)
  case Nil
  then show ?case by (subst charlist_length.simps) simp
next
  case (Cons x xs)
  have n: "unat (n + 1) = unat n + 1" using Cons.prems(2) by (simp add: unat_word_ariths)
  then have "ucast (n + 1) = (ucast n + 1 :: u64)"
    using Cons.prems(2) by (simp add: word_eq_unat unsigned_ucast_eq take_bit_nat_eq_self unat_word_ariths)
  then show ?case using Cons.IH [of "n + 1"] Cons.prems n
    by (subst charlist_length.simps) (simp add: algebra_simps)
qed


text \<open>What the stream holds for an argument, and what is read from it.\<close>

definition simple_argument :: "u32 \<Rightarrow> u64 \<Rightarrow> nat \<Rightarrow> u16 \<Rightarrow> bool" where
  "simple_argument ty v n opcode \<longleftrightarrow> unat v < 256 ^ n \<and>
     (ty, n, opcode) \<in> {(ARGP_BYTEDATA, 1, AML_BYTE_OP), (ARGP_WORDDATA, 2, AML_WORD_OP),
       (ARGP_DWORDDATA, 4, AML_DWORD_OP), (ARGP_QWORDDATA, 8, AML_QWORD_OP)}"

lemma load_le_bytes:
  assumes "holds m a (le_bytes n v)" "unat (v :: u64) < 256 ^ n" "n \<le> 8"
  shows "load_le n m a = v"
proof (rule bit_word_eqI)
  fix j assume "j < LENGTH(64)"
  have m: "m (a + of_nat i) = ucast (drop_bit (8 * i) v)" if "i < n" for i
    using assms(1) that by (simp add: holds_def le_bytes_def)
  have big: "\<not> bit v j" if "8 * n \<le> j"
  proof -
    have "unat (take_bit (8 * n) v) = unat v"
      using assms(2) by (simp add: unsigned_take_bit_eq take_bit_nat_eq_self power_mult)
    then have "take_bit (8 * n) v = v" by (simp add: word_eq_unat)
    then show ?thesis using that by (metis bit_take_bit_iff not_le)
  qed
  have "8 * (j div 8) + j mod 8 = j" by simp
  then have low: "bit (m (a + of_nat (j div 8))) (j mod 8) \<longleftrightarrow> bit v j" if "j < 8 * n"
    using m [of "j div 8"] that by (auto simp: bit_simps less_mult_imp_div_less mult.commute)
  show "bit (load_le n m a :: u64) j = bit v j"
    using \<open>j < LENGTH(64)\<close> low big unfolding bit_load_le by (cases "j < 8 * n") auto
qed

lemmas arg_type_defs = ARGP_BYTEDATA_def ARGP_CHARLIST_def ARGP_DWORDDATA_def ARGP_NAME_def ARGP_NAMESTRING_def
  ARGP_WORDDATA_def ARGP_QWORDDATA_def

lemma arg_types: "distinct [ARGP_BYTEDATA, ARGP_CHARLIST, ARGP_DWORDDATA, ARGP_NAME, ARGP_NAMESTRING, ARGP_WORDDATA, ARGP_QWORDDATA]"
  by (simp add: arg_type_defs)

lemma simple_argument_ok:
  assumes "simple_argument ty v n opcode" "holds m a (le_bytes n v)"
  shows "AcpiPsGetNextSimpleArg m a ty arg = Some (a + of_nat n, arg\<lparr>AmlOpcode := opcode, Value := Integer v\<rparr>)"
proof -
  have n: "n \<in> {1, 2, 4, 8}" and v: "unat v < 256 ^ n" using assms(1) by (auto simp: simple_argument_def)
  have load: "load_le n m a = v" using load_le_bytes [OF assms(2) v] n by auto
  moreover have "load_le 1 m a = (ucast (m a) :: u64)" by simp
  ultimately show ?thesis
    using assms(1) arg_types by (auto simp: simple_argument_def AcpiPsGetNextSimpleArg_def)
qed

section \<open>Properties\<close>

text \<open>
  A package length is read as it is written: for every length below 2^28, in the encoding of one
  to four bytes that it needs, the parser returns that length, moves past the encoding, and finds
  the end of the package that many bytes from the start.
\<close>

theorem package_length_roundtrip:
  assumes "unat n < 2 ^ 28" "holds m a (encode_length n)"
  shows "AcpiPsGetNextPackageLength m a = (a + of_nat (length (encode_length n)), n) \<and>
    AcpiPsGetNextPackageEnd m a = (a + of_nat (length (encode_length n)), a + ucast n)"
  using package_length_decodes [OF assms] by (simp add: AcpiPsGetNextPackageEnd_def)

theorem package_length_roundtrip_witness:
  "AcpiPsGetNextPackageLength ((\<lambda>_. 0)(16 := 0x48, 17 := 0x05)) 16 = (18, 0x58)"
proof -
  have e: "encode_length 0x58 = [0x48, 0x05]" by (simp add: encode_length_def Let_def)
  have "holds ((\<lambda>_. 0)(16 := 0x48, 17 := 0x05)) 16 (encode_length 0x58)"
    unfolding e by (simp add: holds_def All_less_Suc2)
  then show ?thesis
    using package_length_roundtrip [of "0x58" "(\<lambda>_. 0)(16 := 0x48, 17 := 0x05)" 16] by (simp add: e)
qed

text \<open>
  Arguments are read as they are laid out: a number of 1, 2, 4 or 8 bytes in little-endian order, a
  string up to its zero byte, a name with its prefixes and segments; the parser moves past exactly
  the bytes of each, and a name is null exactly when it is the empty one without a prefix.
\<close>

theorem simple_arguments_read:
  assumes "simple_argument ty v n opcode" "holds m a (le_bytes n v)"
    and "cstring m b xs" "length xs < 2 ^ 32 - 1"
    and "holds m c (ps @ path)" "set ps \<subseteq> {0x5C, 0x5E}" "name_path path"
  shows "AcpiPsGetNextSimpleArg m a ty arg = Some (a + of_nat n, arg\<lparr>AmlOpcode := opcode, Value := Integer v\<rparr>) \<and>
    AcpiPsGetNextSimpleArg m b ARGP_CHARLIST arg =
      Some (b + of_nat (length xs + 1), arg\<lparr>AmlOpcode := AML_STRING_OP, Value := String b\<rparr>) \<and>
    AcpiPsGetNextSimpleArg m c ARGP_NAMESTRING arg =
      Some (c + of_nat (length ps + length path),
        arg\<lparr>AmlOpcode := AML_INT_NAMEPATH_OP, Value := Name (if ps = [] \<and> path = [0] then None else Some c)\<rparr>)"
proof -
  have "charlist_length m b 0 = Some (of_nat (length xs))"
    using charlist_length_ok [of m b 0 xs] assms(3,4) by simp
  moreover have "ucast (of_nat (length xs) + 1 :: u32) = (of_nat (length xs + 1) :: u64)"
    using assms(4) by (simp add: word_eq_unat unsigned_ucast_eq unat_word_ariths unsigned_of_nat take_bit_nat_eq_self)
  ultimately have s: "AcpiPsGetNextSimpleArg m b ARGP_CHARLIST arg =
      Some (b + of_nat (length xs + 1), arg\<lparr>AmlOpcode := AML_STRING_OP, Value := String b\<rparr>)"
    by (simp add: AcpiPsGetNextSimpleArg_def arg_type_defs del: of_nat_add of_nat_Suc)
  show ?thesis
    using simple_argument_ok [OF assms(1,2)] s namestring_ok [OF assms(5-7)]
    by (simp add: AcpiPsGetNextSimpleArg_def [of m c] arg_type_defs)
qed

text \<open>Memory with the word 0x1234 at 16, the string \<open>a\<close> at 32 and the name of two segments \<open>^AAAABBBB\<close> at 48.\<close>

definition example_aml :: bytes where
  "example_aml = (\<lambda>_. 0)(16 := 0x34, 17 := 0x12, 32 := 97, 48 := 0x5E, 49 := 0x2E, 50 := 65, 51 := 65, 52 := 65, 53 := 65,
     54 := 66, 55 := 66, 56 := 66, 57 := 66)"

definition example_arg :: parse_object where "example_arg = \<lparr>AmlOpcode = 0, Value = Integer 0\<rparr>"

theorem simple_arguments_read_witness:
  "AcpiPsGetNextSimpleArg example_aml 16 ARGP_WORDDATA example_arg =
     Some (18, example_arg\<lparr>AmlOpcode := AML_WORD_OP, Value := Integer 0x1234\<rparr>) \<and>
   map_option fst (AcpiPsGetNextSimpleArg example_aml 48 ARGP_NAMESTRING example_arg) = Some 58"
proof -
  have v: "simple_argument ARGP_WORDDATA 0x1234 2 AML_WORD_OP" by (simp add: simple_argument_def)
  have two: "[0..<2] = [0, Suc 0]" by (simp add: upt_rec)
  have le: "le_bytes 2 (0x1234 :: u64) = [0x34, 0x12]" by (simp add: le_bytes_def two)
  have w: "holds example_aml 16 (le_bytes 2 (0x1234 :: u64))"
    unfolding le by (simp add: holds_Cons holds_Nil example_aml_def)
  have n: "holds example_aml 48 ([0x5E] @ [0x2E, 65, 65, 65, 65, 66, 66, 66, 66])"
    by (simp add: holds_Cons holds_Nil example_aml_def)
  have p: "name_path [0x2E, 65, 65, 65, 65, 66, 66, 66, 66]"
    unfolding name_path_def by (intro disjI2 disjI1 exI [of _ "[65, 65, 65, 65]"] exI [of _ "[66, 66, 66, 66]"]) (simp add: segment_def)
  show ?thesis
    using simple_arguments_read [OF v w, of 32 "[97]" 48 "[0x5E]" "[0x2E, 65, 65, 65, 65, 66, 66, 66, 66]" example_arg] n p
    by (simp add: example_aml_def)
qed

end
