(* ===== verification/Acpi_Number.thy ===== *)
theory Acpi_Number
  imports Acpi_Clib
begin

text \<open>
  Numbers and their strings in ACPICA (\<^verbatim>\<open>kernel/hw/acpica/\<close>): division (\<^verbatim>\<open>utmath.c\<close>, with the native
  64-bit division of this platform), hexadecimal digits (\<^verbatim>\<open>uthex.c\<close>), strings of digits
  (\<^verbatim>\<open>exconvrt.c\<close>, \<^verbatim>\<open>exutils.c\<close>) and the conversion back (\<^verbatim>\<open>utnonansi.c\<close>).
\<close>

section \<open>Division\<close>

definition AE_AML_DIVIDE_BY_ZERO :: u32 where "AE_AML_DIVIDE_BY_ZERO = EXCEP_AML 0xC"
definition AE_BAD_HEX_CONSTANT :: u32 where "AE_BAD_HEX_CONSTANT = EXCEP_PGM 0x5"
definition AE_BAD_DECIMAL_CONSTANT :: u32 where "AE_BAD_DECIMAL_CONSTANT = EXCEP_PGM 0x7"

text \<open>What the two pointers point to is passed in, and returned unchanged when there is nothing to divide by.\<close>

definition AcpiUtShortDivide :: "u64 \<Rightarrow> u32 \<Rightarrow> u64 \<times> u32 \<Rightarrow> u32 \<times> u64 \<times> u32" where
  "AcpiUtShortDivide InDividend Divisor out =
     (if Divisor = 0 then (AE_AML_DIVIDE_BY_ZERO, out)
      else (AE_OK, InDividend div ucast Divisor, ucast (InDividend mod ucast Divisor)))"

definition AcpiUtDivide :: "u64 \<Rightarrow> u64 \<Rightarrow> u64 \<times> u64 \<Rightarrow> u32 \<times> u64 \<times> u64" where
  "AcpiUtDivide InDividend InDivisor out =
     (if InDivisor = 0 then (AE_AML_DIVIDE_BY_ZERO, out)
      else (AE_OK, InDividend div InDivisor, InDividend mod InDivisor))"

section \<open>Hexadecimal digits\<close>

definition AcpiGbl_HexToAscii :: "u8 list" where
  "AcpiGbl_HexToAscii = [0x30, 0x31, 0x32, 0x33, 0x34, 0x35, 0x36, 0x37, 0x38, 0x39, 0x41, 0x42, 0x43, 0x44, 0x45, 0x46]"

definition AcpiUtHexToAsciiChar :: "u64 \<Rightarrow> u32 \<Rightarrow> u8" where
  "AcpiUtHexToAsciiChar Integer Position = AcpiGbl_HexToAscii ! unat (drop_bit (unat Position) Integer AND 0xF)"

definition AcpiUtAsciiCharToHex :: "u32 \<Rightarrow> u8" where
  "AcpiUtAsciiCharToHex HexChar =
     (if sint HexChar \<le> 0x39 then ucast (HexChar - 0x30)
      else if sint HexChar \<le> 0x46 then ucast (HexChar - 0x37)
      else ucast (HexChar - 0x57))"

section \<open>Strings of digits\<close>

definition ACPI_MAX8_DECIMAL_DIGITS :: nat where "ACPI_MAX8_DECIMAL_DIGITS = 3"
definition ACPI_MAX32_DECIMAL_DIGITS :: nat where "ACPI_MAX32_DECIMAL_DIGITS = 10"
definition ACPI_MAX64_DECIMAL_DIGITS :: nat where "ACPI_MAX64_DECIMAL_DIGITS = 20"

text \<open>\<^verbatim>\<open>for (j = 0; j < i; j++)\<close>: divide by ten so many times.\<close>

fun divide_times :: "nat \<Rightarrow> u64 \<times> u32 \<Rightarrow> u64 \<times> u32" where
  "divide_times 0 (Digit, Remainder) = (Digit, Remainder)"
| "divide_times (Suc j) (Digit, Remainder) = divide_times j (snd (AcpiUtShortDivide Digit 10 (Digit, Remainder)))"

fun decimal_loop :: "u64 \<Rightarrow> ptr \<Rightarrow> nat \<Rightarrow> bytes \<Rightarrow> u32 \<Rightarrow> bool \<Rightarrow> u32 \<Rightarrow> bytes \<times> u32" where
  "decimal_loop Integer Str 0 m k SupressZeros Remainder = (m, k)"
| "decimal_loop Integer Str (Suc i) m k SupressZeros Remainder =
     (let Remainder = snd (divide_times (Suc i) (Integer, Remainder));
          SupressZeros = (SupressZeros \<and> Remainder = 0)
      in if \<not> SupressZeros
         then decimal_loop Integer Str i (m(Str + ucast k := ucast (0x30 + Remainder))) (k + 1) SupressZeros Remainder
         else decimal_loop Integer Str i m k SupressZeros Remainder)"

fun hex_loop :: "u64 \<Rightarrow> ptr \<Rightarrow> nat \<Rightarrow> bytes \<Rightarrow> u32 \<Rightarrow> bytes \<times> u32" where
  "hex_loop Integer Str 0 m k = (m, k)"
| "hex_loop Integer Str (Suc j) m k =
     hex_loop Integer Str j (m(Str + ucast k := AcpiUtHexToAsciiChar Integer (of_nat (4 * j)))) (k + 1)"

definition AcpiExConvertToAscii :: "bytes \<Rightarrow> u64 \<Rightarrow> u16 \<Rightarrow> ptr \<Rightarrow> u8 \<Rightarrow> bytes \<times> u32" where
  "AcpiExConvertToAscii m Integer Base Str DataWidth =
     (let finish = (\<lambda>(m, k).
            let (m, k) = (if k = 0 then (m(Str := 0x30), 1) else (m, k)) in (m(Str + ucast k := 0), k))
      in if Base = 10 then
           (let DecimalLength =
                  (if DataWidth = 1 then ACPI_MAX8_DECIMAL_DIGITS
                   else if DataWidth = 4 then ACPI_MAX32_DECIMAL_DIGITS else ACPI_MAX64_DECIMAL_DIGITS)
            in finish (decimal_loop Integer Str DecimalLength m 0 True 0))
         else if Base = 16 then finish (hex_loop Integer Str (2 * unat DataWidth) m 0)
         else (m, 0))"

text \<open>\<^verbatim>\<open>while (CurrentValue)\<close>; for a base below 2 it would not end.\<close>

partial_function (option) digits_loop :: "u32 \<Rightarrow> u64 \<Rightarrow> u32 \<Rightarrow> u32 option" where
  "digits_loop Base CurrentValue NumDigits =
     (if CurrentValue \<noteq> 0
      then digits_loop Base (fst (snd (AcpiUtShortDivide CurrentValue Base (CurrentValue, 0)))) (NumDigits + 1)
      else Some NumDigits)"

definition AcpiExDigitsNeeded :: "u64 \<Rightarrow> u32 \<Rightarrow> u32 option" where
  "AcpiExDigitsNeeded Value Base = (if Value = 0 then Some 1 else digits_loop Base Value 0)"

fun string_loop :: "nat \<Rightarrow> bytes \<Rightarrow> ptr \<Rightarrow> u64 \<Rightarrow> bytes" where
  "string_loop 0 m OutString Value = m"
| "string_loop (Suc Count) m OutString Value =
     (case AcpiUtShortDivide Value 10 (Value, 0) of (_, Value, Remainder) \<Rightarrow>
        string_loop Count (m(OutString + of_nat Count := ucast (0x30 + Remainder))) OutString Value)"

definition AcpiExIntegerToString :: "bytes \<Rightarrow> ptr \<Rightarrow> u64 \<Rightarrow> bytes option" where
  "AcpiExIntegerToString m OutString Value =
     map_option (\<lambda>DigitsNeeded. string_loop (unat DigitsNeeded) (m(OutString + ucast DigitsNeeded := 0)) OutString Value)
       (AcpiExDigitsNeeded Value 10)"

definition AcpiUtDwordByteSwap :: "u32 \<Rightarrow> u32" where
  "AcpiUtDwordByteSwap v =
     le_value (rev (le_bytes 4 v))"

definition AcpiExEisaIdToString :: "bytes \<Rightarrow> ptr \<Rightarrow> u64 \<Rightarrow> bytes" where
  "AcpiExEisaIdToString m OutString CompressedId =
     (let SwappedId = AcpiUtDwordByteSwap (ucast CompressedId) in
      m(OutString := ucast (0x40 + (drop_bit 26 SwappedId AND 0x1F)),
        OutString + 1 := ucast (0x40 + (drop_bit 21 SwappedId AND 0x1F)),
        OutString + 2 := ucast (0x40 + (drop_bit 16 SwappedId AND 0x1F)),
        OutString + 3 := AcpiUtHexToAsciiChar (ucast SwappedId) 12,
        OutString + 4 := AcpiUtHexToAsciiChar (ucast SwappedId) 8,
        OutString + 5 := AcpiUtHexToAsciiChar (ucast SwappedId) 4,
        OutString + 6 := AcpiUtHexToAsciiChar (ucast SwappedId) 0,
        OutString + 7 := 0))"

section \<open>Strings to numbers\<close>

definition ACPI_ANY_BASE :: u32 where "ACPI_ANY_BASE = 0"

text \<open>The value of a character in the given base, in the code's sense.\<close>

definition digit64 :: "u32 \<Rightarrow> u8 \<Rightarrow> u32 option" where
  "digit64 Base c =
     (if isdigit c \<noteq> 0 then Some (ucast (c - 0x30))
      else if Base = 10 then None
      else (let d = ucast (toupper (scast c)) :: u8 in
            if isxdigit d \<noteq> 0 then Some (ucast d - 0x41 + 10) else None))"

text \<open>The loop ends with a value, or leads to the error exit (\<open>None\<close>, inside).\<close>

partial_function (option) strtoul64_loop ::
  "bytes \<Rightarrow> bool \<Rightarrow> bool \<Rightarrow> u32 \<Rightarrow> bool \<Rightarrow> ptr \<Rightarrow> u64 \<Rightarrow> u8 \<Rightarrow> u64 option option" where
  "strtoul64_loop m ToIntegerOp Mode32 Base SignOf0x Str Val ValidDigits =
     (if m Str = 0 then Some (Some Val)
      else case digit64 Base (m Str) of
        None \<Rightarrow> Some (if ToIntegerOp then None else Some Val)
      | Some ThisDigit \<Rightarrow>
          if ValidDigits = 0 \<and> ThisDigit = 0 \<and> \<not> SignOf0x
          then strtoul64_loop m ToIntegerOp Mode32 Base SignOf0x (Str + 1) Val ValidDigits
          else
            (let ValidDigits = ValidDigits + 1 in
             if SignOf0x \<and> (ValidDigits > 16 \<or> ValidDigits > 8 \<and> Mode32) then Some None
             else
               (let Dividend = (if Mode32 then 0xFFFFFFFF else 0xFFFFFFFFFFFFFFFF);
                    Quotient = fst (snd (AcpiUtShortDivide (Dividend - ucast ThisDigit) Base (0, 0)))
                in if Val > Quotient then Some (if ToIntegerOp then None else Some Val)
                   else strtoul64_loop m ToIntegerOp Mode32 Base SignOf0x (Str + 1)
                          (Val * ucast Base + ucast ThisDigit) ValidDigits)))"

text \<open>White space, up to the end of the string.\<close>

partial_function (option) skip_blanks :: "bytes \<Rightarrow> ptr \<Rightarrow> ptr option" where
  "skip_blanks m Str =
     (if m Str \<noteq> 0 \<and> (isspace (m Str) \<noteq> 0 \<or> m Str = 9) then skip_blanks m (Str + 1) else Some Str)"

text \<open>\<open>Mode32\<close> says whether \<^verbatim>\<open>AcpiGbl_IntegerByteWidth\<close> is 4.\<close>

definition AcpiUtStrtoul64 :: "bytes \<Rightarrow> bool \<Rightarrow> ptr \<Rightarrow> u32 \<Rightarrow> u64 \<Rightarrow> (u32 \<times> u64) option" where
  "AcpiUtStrtoul64 m Mode32 Str Base RetInteger =
     (let ToIntegerOp = (Base = ACPI_ANY_BASE) in
      if Base \<noteq> ACPI_ANY_BASE \<and> Base \<noteq> 16 then Some (AE_BAD_PARAMETER, RetInteger)
      else
        (let bad = (\<lambda>Base. (if Base = 10 then AE_BAD_DECIMAL_CONSTANT else AE_BAD_HEX_CONSTANT, RetInteger)) in
         if Str = 0 then Some (bad Base)
         else Option.bind (skip_blanks m Str) (\<lambda>Str.
           (let hex = (ToIntegerOp \<and> m Str = 0x30 \<and> tolower_char (m (Str + 1)) = 0x78);
                Base = (if \<not> ToIntegerOp then Base else if hex then 16 else 10);
                Str = (if hex then Str + 2 else Str)
            in if m Str = 0 \<or> isspace (m Str) \<noteq> 0 \<or> m Str = 9
               then Some (if ToIntegerOp then bad Base else (AE_OK, 0))
               else map_option (\<lambda>r. case r of Some v \<Rightarrow> (AE_OK, v) | None \<Rightarrow> bad Base)
                      (strtoul64_loop m ToIntegerOp Mode32 Base hex Str 0 0)))))"

section \<open>Case\<close>

partial_function (option) AcpiUtStrlwr :: "bytes \<Rightarrow> ptr \<Rightarrow> bytes option" where
  "AcpiUtStrlwr m Str =
     (if m Str \<noteq> 0 then AcpiUtStrlwr (m(Str := ucast (tolower (scast (m Str))))) (Str + 1) else Some m)"

partial_function (option) AcpiUtStrupr :: "bytes \<Rightarrow> ptr \<Rightarrow> bytes option" where
  "AcpiUtStrupr m Str =
     (if m Str \<noteq> 0 then AcpiUtStrupr (m(Str := ucast (toupper (scast (m Str))))) (Str + 1) else Some m)"

partial_function (option) AcpiUtStricmp :: "bytes \<Rightarrow> ptr \<Rightarrow> ptr \<Rightarrow> int option" where
  "AcpiUtStricmp m String1 String2 =
     (let c1 = tolower (scast (m String1)); c2 = tolower (scast (m String2)) in
      if c1 = c2 \<and> c1 \<noteq> 0 then AcpiUtStricmp m (String1 + 1) (String2 + 1) else Some (sint c1 - sint c2))"


section \<open>Digits\<close>

lemma digit64_table10: "list_all (\<lambda>n. digit64 10 (of_nat n) =
    (case char_value n of Some d \<Rightarrow> if d < 10 then Some (of_nat d) else None | None \<Rightarrow> None)) [0..<256]"
  by code_simp

lemma digit64_table16: "list_all (\<lambda>n. digit64 16 (of_nat n) =
    (case char_value n of Some d \<Rightarrow> if d < 16 then Some (of_nat d) else None | None \<Rightarrow> None)) [0..<256]"
  by code_simp

lemma digit64_digit:
  assumes "b \<in> {10, 16}" "digit_of b c"
  shows "digit64 (of_nat b) c = Some (of_nat (the (char_value (unat c))))" "the (char_value (unat c)) < b"
proof -
  obtain d where d: "char_value (unat c) = Some d" "d < b" using assms(2) by (auto simp: digit_of_def)
  have "unat c \<in> set [0..<256]" using u8_bound [of c] by simp
  then have "digit64 10 (of_nat (unat c)) = (case char_value (unat c) of Some d \<Rightarrow> if d < 10 then Some (of_nat d) else None | None \<Rightarrow> None)"
    "digit64 16 (of_nat (unat c)) = (case char_value (unat c) of Some d \<Rightarrow> if d < 16 then Some (of_nat d) else None | None \<Rightarrow> None)"
    using digit64_table10 digit64_table16 unfolding list_all_iff by blast+
  then have "digit64 (of_nat b) c = Some (of_nat d)" using assms(1) d unfolding of_nat_unat ucast_id by auto
  then show "digit64 (of_nat b) c = Some (of_nat (the (char_value (unat c))))" "the (char_value (unat c)) < b"
    using d by simp_all
qed

definition limit64 :: "bool \<Rightarrow> nat" where "limit64 Mode32 = (if Mode32 then 2 ^ 32 else 2 ^ 64)"

text \<open>How many digits have counted: none while the value is zero, and no more than the value allows.\<close>

definition counted :: "u64 \<Rightarrow> u8 \<Rightarrow> bool" where
  "counted v n \<longleftrightarrow> v = 0 \<and> n = 0 \<or> 0 < unat n \<and> 10 ^ (unat n - 1) \<le> unat v"

lemma counted_bound: "counted v n \<Longrightarrow> unat n \<le> 20"
proof (rule ccontr)
  assume c: "counted v n" "\<not> unat n \<le> 20"
  then have "(10 :: nat) ^ 20 \<le> 10 ^ (unat n - 1)" by (intro power_increasing) auto
  then have "10 ^ 20 \<le> unat v" using c by (auto simp: counted_def)
  then show False using unat_lt64 [of v] by simp
qed

lemma quotient_test:
  assumes "d < b" "b \<in> {10, 16}"
  shows "(Val > fst (snd (AcpiUtShortDivide ((if Mode32 then 0xFFFFFFFF else 0xFFFFFFFFFFFFFFFF) - ucast (of_nat d :: u32)) (of_nat b) (0, 0))))
    \<longleftrightarrow> limit64 Mode32 \<le> unat Val * b + d"
proof -
  define M :: u64 where "M = (if Mode32 then 0xFFFFFFFF else 0xFFFFFFFFFFFFFFFF)"
  have M: "unat M = limit64 Mode32 - 1" by (simp add: M_def limit64_def)
  have big: "limit64 Mode32 \<ge> 2 ^ 32" by (simp add: limit64_def)
  have u: "ucast (of_nat d :: u32) = (of_nat d :: u64)" "ucast (of_nat b :: u32) = (of_nat b :: u64)" "unat (of_nat d :: u64) = d" "unat (of_nat b :: u64) = b"
    "(of_nat b :: u32) \<noteq> 0"
    using assms by (auto simp: word_eq_unat unsigned_ucast_eq unsigned_of_nat take_bit_nat_eq_self)
  have "of_nat d \<le> M" using M big assms u(3) by (auto simp: word_le_nat_alt)
  then have s: "unat (M - of_nat d) = limit64 Mode32 - 1 - d" using M u(3) by (simp add: unat_sub)
  have arith: "limit64 Mode32 - 1 - d < p \<longleftrightarrow> limit64 Mode32 \<le> p + d" for p using big assms by auto
  have pos: "0 < b" using assms(2) by auto
  have "(Val > (M - of_nat d) div of_nat b) \<longleftrightarrow> limit64 Mode32 \<le> unat Val * b + d"
    unfolding word_less_nat_alt unat_div u(4) s div_less_iff_less_mult [OF pos] by (rule arith)
  then show ?thesis using u(5) unfolding AcpiUtShortDivide_def M_def [symmetric] u(1,2) by simp
qed

lemma strtoul64_loop_ok:
  assumes "b \<in> {10, 16}" "cstring m p ds" "\<forall>c \<in> set ds. digit_of b c" "counted Val n" "unat Val < limit64 Mode32"
  shows "\<exists>u. strtoul64_loop m op Mode32 (of_nat b) False p Val n =
    Some (if horner b (unat Val) ds < limit64 Mode32 then Some (of_nat (horner b (unat Val) ds)) else if op then None else Some u)"
  using assms(2-)
proof (induction ds arbitrary: p Val n)
  case Nil
  then show ?case by (subst strtoul64_loop.simps) (simp add: horner_def)
next
  case (Cons c ds)
  define d where "d = the (char_value (unat c))"
  have c: "m p = c" "c \<noteq> 0" "digit_of b c" using Cons.prems by simp_all
  have dig: "digit64 (of_nat b) c = Some (of_nat d)" "d < b" using digit64_digit [OF assms(1) c(3)] by (simp_all add: d_def)
  have d0: "(of_nat d :: u32) = 0 \<longleftrightarrow> d = 0"
    using dig(2) assms(1) by (auto simp: word_eq_unat unsigned_of_nat take_bit_nat_eq_self)
  have h: "horner b (unat Val) (c # ds) = horner b (unat Val * b + d) ds" unfolding horner_Cons d_def ..
  have pos: "0 < b" using assms(1) by auto
  note test = quotient_test [OF dig(2) assms(1), where Val = Val and ?Mode32.0 = Mode32]
  show ?case
  proof (cases "n = 0 \<and> d = 0")
    case True
    then have "Val = 0" using Cons.prems(3) by (auto simp: counted_def)
    have "strtoul64_loop m op Mode32 (of_nat b) False p Val n = strtoul64_loop m op Mode32 (of_nat b) False (p + 1) Val n"
      using True d0 c dig(1) by (subst strtoul64_loop.simps) simp
    moreover have "horner b (unat Val) (c # ds) = horner b (unat Val) ds" unfolding h using True \<open>Val = 0\<close> by simp
    ultimately show ?thesis using Cons.IH [of "p + 1" Val n] Cons.prems by (simp only: list.set cstring.simps) blast
  next
    case False
    show ?thesis
    proof (cases "limit64 Mode32 \<le> unat Val * b + d")
      case over: True
      then have "\<not> horner b (unat Val) (c # ds) < limit64 Mode32" using horner_ge [OF pos] unfolding h by (meson le_trans not_le)
      moreover have "strtoul64_loop m op Mode32 (of_nat b) False p Val n = Some (if op then None else Some Val)"
        using over False d0 c dig(1) test by (subst strtoul64_loop.simps) (auto simp: Let_def)
      ultimately show ?thesis by auto
    next
      case fits: False
      define Val' where "Val' = Val * ucast (of_nat b :: u32) + ucast (of_nat d :: u32)"
      have e: "strtoul64_loop m op Mode32 (of_nat b) False p Val n = strtoul64_loop m op Mode32 (of_nat b) False (p + 1) Val' (n + 1)"
        using fits False d0 c dig(1) test unfolding Val'_def by (subst strtoul64_loop.simps) (auto simp: Let_def)
      have "ucast (of_nat d :: u32) = (of_nat d :: u64)" "ucast (of_nat b :: u32) = (of_nat b :: u64)"
        using dig(2) assms(1) by (auto simp: word_eq_unat unsigned_ucast_eq unsigned_of_nat take_bit_nat_eq_self)
      then have "Val' = of_nat (unat Val * b + d)" by (simp add: Val'_def)
      moreover have "unat Val * b + d < 2 ^ 64" using fits by (auto simp: limit64_def split: if_splits)
      ultimately have v: "unat Val' = unat Val * b + d" by (simp add: unsigned_of_nat take_bit_nat_eq_self del: of_nat_add of_nat_mult)
      have n: "unat (n + 1) = unat n + 1" using counted_bound [OF Cons.prems(3)] by (simp add: unat_word_ariths)
      have "counted Val' (n + 1)"
      proof -
        have "10 ^ unat n \<le> unat Val'"
        proof (cases "unat n = 0")
          case True
          then show ?thesis using False v by (auto simp: unat_0_iff)
        next
          case nz: False
          then have "10 ^ (unat n - 1) \<le> unat Val" using Cons.prems(3) by (auto simp: counted_def)
          then have "10 ^ (unat n - 1) * 10 \<le> unat Val * b" using assms(1) by (intro mult_mono) auto
          then show ?thesis using nz v by (simp add: power_eq_if mult.commute)
        qed
        then show ?thesis by (simp add: counted_def n)
      qed
      moreover have "unat Val * b + d < limit64 Mode32" using fits by simp
      ultimately show ?thesis unfolding e h using Cons.IH [of "p + 1" Val' "n + 1"] Cons.prems
        by (simp only: list.set cstring.simps v) blast
    qed
  qed
qed

lemma skip_blanks_ok:
  assumes "cstring m a (ws @ c # cs)" "\<forall>w \<in> set ws. isspace w \<noteq> 0" "isspace c = 0"
  shows "skip_blanks m a = Some (a + of_nat (length ws))"
  using assms
proof (induction ws arbitrary: a)
  case Nil
  have "isspace 9 \<noteq> 0" by (simp add: isspace_iff)
  then show ?case using Nil.prems by (subst skip_blanks.simps) auto
next
  case (Cons w ws)
  then show ?case by (subst skip_blanks.simps) (simp add: algebra_simps)
qed

lemma digit_char: "digit_of 10 c \<longleftrightarrow> 48 \<le> unat c \<and> unat c \<le> 57"
  by (auto simp: digit_of_def char_value_def)

lemma tolower_x_table: "list_all (\<lambda>n. (tolower_char (of_nat n) = 0x78) = (n = 88 \<or> n = 120)) [0..<256]"
  by code_simp

lemma tolower_x: "tolower_char c = 0x78 \<longleftrightarrow> unat c \<in> {88, 120}"
proof -
  have "unat c \<in> set [0..<256]" using u8_bound [of c] by simp
  then have "(tolower_char (of_nat (unat c)) = 0x78) = (unat c = 88 \<or> unat c = 120)"
    using tolower_x_table unfolding list_all_iff by blast
  then show ?thesis unfolding of_nat_unat ucast_id by simp
qed

lemma digit_in_16: "digit_of 10 c \<Longrightarrow> digit_of 16 c"
  by (auto simp: digit_of_def)

lemma strtoul64_start:
  assumes "cstring m s (ws @ ds)" "\<forall>w \<in> set ws. isspace w \<noteq> 0" "ds \<noteq> []" "s \<noteq> 0"
    and "Base = 0 \<and> b = 10 \<or> Base = 16 \<and> b = 16" "\<forall>c \<in> set ds. digit_of b c"
  defines "p \<equiv> s + of_nat (length ws)"
  shows "AcpiUtStrtoul64 m Mode32 s Base r =
    map_option (\<lambda>v. case v of Some v \<Rightarrow> (AE_OK, v)
        | None \<Rightarrow> (if b = 10 then AE_BAD_DECIMAL_CONSTANT else AE_BAD_HEX_CONSTANT, r))
      (strtoul64_loop m (Base = 0) Mode32 (of_nat b) False p 0 0)" "cstring m p ds"
proof -
  obtain d ds' where ds: "ds = d # ds'" using assms(3) by (cases ds) auto
  have dig: "digit_of b d" using assms(6) ds by simp
  note nsp = digit_no_space [OF dig]
  have skip: "skip_blanks m s = Some p"
    unfolding p_def using assms(1,2) nsp(1) unfolding ds by (rule skip_blanks_ok)
  show at_p: "cstring m p ds" unfolding p_def using cstring_append [OF assms(1)] .
  then have mp: "m p = d" "cstring m (p + 1) ds'" by (simp_all add: ds)
  have no_x: "tolower_char (m (p + 1)) \<noteq> 0x78" if "b = 10"
  proof (cases ds')
    case Nil
    then show ?thesis using mp(2) by (simp add: tolower_x)
  next
    case (Cons e es)
    then have "m (p + 1) = e" "digit_of b e" using mp(2) assms(6) ds by simp_all
    then show ?thesis using that by (auto simp: tolower_x digit_char)
  qed
  have nine: "d \<noteq> 9" using nsp(1) isspace_iff [of d] by auto
  show "AcpiUtStrtoul64 m Mode32 s Base r =
    map_option (\<lambda>v. case v of Some v \<Rightarrow> (AE_OK, v)
        | None \<Rightarrow> (if b = 10 then AE_BAD_DECIMAL_CONSTANT else AE_BAD_HEX_CONSTANT, r))
      (strtoul64_loop m (Base = 0) Mode32 (of_nat b) False p 0 0)"
    using assms(4,5) mp(1) no_x nine nsp
    by (auto simp: AcpiUtStrtoul64_def ACPI_ANY_BASE_def skip Let_def)
qed

section \<open>The strings that are written\<close>

fun put :: "bytes \<Rightarrow> ptr \<Rightarrow> u8 list \<Rightarrow> bytes" where
  "put m a [] = m"
| "put m a (c # cs) = put (m(a := c)) (a + 1) cs"

lemma put_append: "put m a (xs @ ys) = put (put m a xs) (a + of_nat (length xs)) ys"
  by (induction xs arbitrary: m a) (simp_all add: algebra_simps del: fun_upd_apply)

lemma unat_diff_eq: "n < 2 ^ 64 \<Longrightarrow> unat (x - a) = n \<longleftrightarrow> x = a + of_nat n" for x a :: u64
  by (metis add.commute diff_add_cancel unat_diff_offset of_nat_unat ucast_id)

lemma put_block: "length cs < 2 ^ 64 \<Longrightarrow> put m a cs x = (if unat (x - a) < length cs then cs ! unat (x - a) else m x)"
proof (induction cs rule: rev_induct)
  case (snoc c cs)
  have "unat (x - a) = length cs \<longleftrightarrow> x = a + of_nat (length cs)" using snoc.prems by (intro unat_diff_eq) simp
  then show ?case using snoc by (auto simp: put_append nth_append less_Suc_eq)
qed simp

lemma put_cstring:
  assumes "0 \<notin> set cs" "length cs + 1 < 2 ^ 64"
  shows "cstring (put m a (cs @ [0])) a cs"
proof -
  have c: "cstring m' a cs" if "\<forall>i < length cs. m' (a + of_nat i) = cs ! i" "m' (a + of_nat (length cs)) = 0" "0 \<notin> set cs" for m' a
    using that
  proof (induction cs arbitrary: a)
    case (Cons c cs)
    have "\<forall>i < length cs. m' (a + 1 + of_nat i) = cs ! i" "m' a = c"
      using Cons.prems(1) unfolding length_Cons All_less_Suc2 by (simp_all add: algebra_simps)
    then show ?case using Cons.IH [of "a + 1"] Cons.prems by (simp add: algebra_simps)
  qed simp
  have at: "put m a (cs @ [0]) (a + of_nat i) = (cs @ [0]) ! i" if "i \<le> length cs" for i
    using that assms(2) unat_diff_offset [of i a] by (subst put_block) simp_all
  show ?thesis by (rule c) (use at assms(1) in \<open>auto simp: nth_append less_imp_le\<close>)
qed

text \<open>The decimal digits from \<open>10 ^ (n - 1)\<close> down, with or without the leading zeros, and the hexadecimal ones.\<close>

fun dec_chars :: "nat \<Rightarrow> nat \<Rightarrow> bool \<Rightarrow> u8 list" where
  "dec_chars v 0 z = []"
| "dec_chars v (Suc i) z =
     (let d = v div 10 ^ i mod 10; z = (z \<and> d = 0)
      in if z then dec_chars v i z else of_nat (48 + d) # dec_chars v i z)"

fun hex_chars :: "nat \<Rightarrow> nat \<Rightarrow> u8 list" where
  "hex_chars v 0 = []"
| "hex_chars v (Suc j) = AcpiGbl_HexToAscii ! (v div 16 ^ j mod 16) # hex_chars v j"

lemma divide_times_digits:
  "divide_times n (d, r) =
    (of_nat (unat d div 10 ^ n), if n = 0 then r else of_nat (unat d div 10 ^ (n - 1) mod 10))"
proof (induction n arbitrary: d r)
  case (Suc n)
  have u: "unat (d div 10) = unat d div 10" by (simp add: unat_div)
  have m: "ucast (d mod 10) = (of_nat (unat d mod 10) :: u32)"
  proof -
    have "unat (d mod 10) = unat d mod 10" by (simp add: unat_mod)
    then show ?thesis by (metis of_nat_unat)
  qed
  have "unat d div 10 div 10 ^ n = unat d div 10 ^ Suc n" by (simp add: div_mult2_eq)
  moreover have "unat d div 10 div 10 ^ (n - 1) = unat d div 10 ^ n" if "n \<noteq> 0"
    using that by (cases n) (simp_all add: div_mult2_eq)
  ultimately show ?case using Suc.IH [of "d div 10" "ucast (d mod 10)"] u m
    by (simp add: AcpiUtShortDivide_def)
qed simp

lemma length_dec_chars: "length (dec_chars v n False) = n"
  by (induction n) (simp_all add: Let_def)

lemma length_dec_chars_le: "length (dec_chars v n z) \<le> n"
  by (induction n arbitrary: z) (auto simp: Let_def le_SucI)

lemma decimal_loop_put:
  assumes "unat k + n < 2 ^ 32"
  shows "decimal_loop v a n m k z r =
    (put m (a + ucast k) (dec_chars (unat v) n z), k + of_nat (length (dec_chars (unat v) n z)))"
  using assms
proof (induction n arbitrary: m k z r)
  case (Suc n)
  define d where "d = unat v div 10 ^ n mod 10"
  have d: "d < 10" by (simp add: d_def)
  have rem: "snd (divide_times (Suc n) (v, r)) = of_nat d" by (simp add: divide_times_digits d_def del: divide_times.simps)
  have d0: "(of_nat d :: u32) = 0 \<longleftrightarrow> d = 0" using d by (auto simp: word_eq_unat unsigned_of_nat take_bit_nat_eq_self)
  have ch: "ucast (0x30 + of_nat d :: u32) = (of_nat (48 + d) :: u8)"
    using d by (simp add: word_eq_unat unsigned_ucast_eq unat_word_ariths unsigned_of_nat take_bit_nat_eq_self)
  have k: "unat (k + 1) = unat k + 1" using Suc.prems by (simp add: unat_word_ariths)
  then have uk: "ucast (k + 1) = (ucast k + 1 :: u64)"
    using Suc.prems by (simp add: word_eq_unat unsigned_ucast_eq take_bit_nat_eq_self unat_word_ariths)
  show ?case
  proof (cases "z \<and> d = 0")
    case True
    then show ?thesis using Suc.IH [of k m True "of_nat d"] Suc.prems
      by (simp add: Let_def rem d0 d_def [symmetric] del: divide_times.simps)
  next
    case False
    note * = decimal_loop.simps(2) [of v a n m k z r, unfolded rem Let_def d0]
    have "decimal_loop v a (Suc n) m k z r = decimal_loop v a n (m(a + ucast k := of_nat (48 + d))) (k + 1) False (of_nat d)"
      unfolding * ch using False by (cases z) simp_all
    moreover have "dec_chars (unat v) (Suc n) z = of_nat (48 + d) # dec_chars (unat v) n False"
      using False by (cases z) (simp_all add: Let_def d_def)
    moreover have "unat (k + 1) + n < 2 ^ 32" using Suc.prems k by simp
    ultimately show ?thesis
      using Suc.IH [of "k + 1" "m(a + ucast k := of_nat (48 + d))" False "of_nat d"] unfolding uk
      by (simp add: add.assoc del: fun_upd_apply decimal_loop.simps dec_chars.simps)
  qed
qed simp

lemma hex_digit:
  assumes "j < 16"
  shows "AcpiUtHexToAsciiChar v (of_nat (4 * j)) = AcpiGbl_HexToAscii ! (unat v div 16 ^ j mod 16)"
proof -
  have "unat (of_nat (4 * j) :: u32) = 4 * j"
    using assms unfolding unsigned_of_nat by (simp add: take_bit_nat_eq_self del: of_nat_mult)
  moreover have "unat (drop_bit (4 * j) v AND 0xF) = unat v div 16 ^ j mod 16"
  proof -
    have "unat (drop_bit (4 * j) v AND mask 4) = unat (drop_bit (4 * j) v) mod 2 ^ 4" by (rule and_mask_unat)
    also have "\<dots> = unat v div 16 ^ j mod 16"
      unfolding unsigned_drop_bit_eq by (simp add: drop_bit_eq_div power_mult take_bit_nat_eq_self [OF unat_lt64])
    finally show ?thesis by (simp add: mask_eq_exp_minus_1)
  qed
  ultimately show ?thesis by (simp only: AcpiUtHexToAsciiChar_def)
qed

lemma length_hex_chars [simp]: "length (hex_chars v n) = n"
  by (induction n) simp_all

lemma hex_loop_put:
  assumes "unat k + n < 2 ^ 32" "n \<le> 16"
  shows "hex_loop v a n m k = (put m (a + ucast k) (hex_chars (unat v) n), k + of_nat n)"
  using assms
proof (induction n arbitrary: m k)
  case (Suc n)
  have k: "unat (k + 1) = unat k + 1" using Suc.prems by (simp add: unat_word_ariths)
  then have uk: "ucast (k + 1) = (ucast k + 1 :: u64)"
    using Suc.prems by (simp add: word_eq_unat unsigned_ucast_eq take_bit_nat_eq_self unat_word_ariths)
  have h: "AcpiUtHexToAsciiChar v (of_nat (4 * n)) = AcpiGbl_HexToAscii ! (unat v div 16 ^ n mod 16)"
    using Suc.prems by (intro hex_digit) simp
  show ?case using Suc.IH [of "k + 1" "m(a + ucast k := AcpiGbl_HexToAscii ! (unat v div 16 ^ n mod 16))"] Suc.prems k
    unfolding hex_loop.simps h uk by (simp add: algebra_simps del: fun_upd_apply)
qed simp

lemma dec_char_table: "list_all (\<lambda>d. char_value (unat (of_nat (48 + d) :: u8)) = Some d \<and> (of_nat (48 + d) :: u8) \<noteq> 0) [0..<10]"
  by code_simp

lemma hex_char_table: "list_all (\<lambda>d. char_value (unat (AcpiGbl_HexToAscii ! d)) = Some d \<and> AcpiGbl_HexToAscii ! d \<noteq> 0) [0..<16]"
  by code_simp

lemma dec_char: "d < 10 \<Longrightarrow> char_value (unat (of_nat (48 + d) :: u8)) = Some d \<and> (of_nat (48 + d) :: u8) \<noteq> 0"
  using dec_char_table unfolding list_all_iff by simp

lemma hex_char: "d < 16 \<Longrightarrow> char_value (unat (AcpiGbl_HexToAscii ! d)) = Some d \<and> AcpiGbl_HexToAscii ! d \<noteq> 0"
  using hex_char_table unfolding list_all_iff by simp

lemma mod_power_Suc: "v mod b ^ Suc i = v div b ^ i mod b * b ^ i + v mod b ^ i" for v :: nat
  by (metis add.commute mod_mult2_eq mult.commute power_Suc)

lemma dec_chars_digits: "c \<in> set (dec_chars v n z) \<Longrightarrow> digit_of 10 c \<and> c \<noteq> 0"
proof (induction n arbitrary: z)
  case (Suc n)
  then show ?case using dec_char [of "v div 10 ^ n mod 10"] by (auto simp: Let_def digit_of_def split: if_splits)
qed simp

lemma hex_chars_digits: "c \<in> set (hex_chars v n) \<Longrightarrow> digit_of 16 c \<and> c \<noteq> 0"
proof (induction n)
  case (Suc n)
  then show ?case using hex_char [of "v div 16 ^ n mod 16"] by (auto simp: digit_of_def)
qed simp

lemma horner_dec_chars: "z \<longrightarrow> a = 0 \<Longrightarrow> horner 10 a (dec_chars v n z) = a * 10 ^ n + v mod 10 ^ n"
proof (induction n arbitrary: a z)
  case (Suc n)
  define d where "d = v div 10 ^ n mod 10"
  have d: "the (char_value (unat (of_nat (48 + d) :: u8))) = d" using dec_char [of d] by (simp add: d_def)
  note * = mod_power_Suc [of v 10 n, folded d_def]
  show ?case
  proof (cases "z \<and> d = 0")
    case True
    then show ?thesis using Suc * by (simp add: Let_def d_def [symmetric])
  next
    case False
    have "horner 10 a (dec_chars v (Suc n) z) = horner 10 (a * 10 + d) (dec_chars v n False)"
      using False by (cases z) (simp_all add: Let_def d_def [symmetric] horner_Cons d del: of_nat_add)
    then show ?thesis using Suc.IH [of False "a * 10 + d"] * by (simp add: algebra_simps)
  qed
qed (simp add: horner_def)

lemma horner_hex_chars: "horner 16 a (hex_chars v n) = a * 16 ^ n + v mod 16 ^ n"
proof (induction n arbitrary: a)
  case (Suc n)
  have "the (char_value (unat (AcpiGbl_HexToAscii ! (v div 16 ^ n mod 16)))) = v div 16 ^ n mod 16"
    using hex_char [of "v div 16 ^ n mod 16"] by simp
  then show ?case using Suc.IH [of "a * 16 + v div 16 ^ n mod 16"] mod_power_Suc [of v 16 n]
    by (simp add: horner_Cons algebra_simps)
qed (simp add: horner_def)

text \<open>The string of a number in base ten.\<close>

definition decimal :: "nat \<Rightarrow> nat \<Rightarrow> u8 list" where
  "decimal n v = (if dec_chars v n True = [] then [0x30] else dec_chars v n True)"

lemma decimal_ok:
  "decimal n v \<noteq> []" "c \<in> set (decimal n v) \<Longrightarrow> digit_of 10 c \<and> c \<noteq> 0" "horner 10 0 (decimal n v) = v mod 10 ^ n"
  "length (decimal n v) \<le> Suc n"
proof -
  have z: "digit_of 10 0x30" by (simp add: digit_char)
  show "decimal n v \<noteq> []" by (simp add: decimal_def)
  show "c \<in> set (decimal n v) \<Longrightarrow> digit_of 10 c \<and> c \<noteq> 0"
    using dec_chars_digits [of c v n True] z by (auto simp: decimal_def split: if_splits)
  show "horner 10 0 (decimal n v) = v mod 10 ^ n"
    using horner_dec_chars [of True 0 v n] by (auto simp: decimal_def horner_def char_value_def)
  show "length (decimal n v) \<le> Suc n"
    using length_dec_chars_le [of v n True] by (simp add: decimal_def)
qed

definition decimal_width :: "u8 \<Rightarrow> nat" where
  "decimal_width w = (if w = 1 then 3 else if w = 4 then 10 else 20)"

lemma ConvertToAscii_10:
  "AcpiExConvertToAscii m v 10 a w =
    (put m a (decimal (decimal_width w) (unat v) @ [0]), of_nat (length (decimal (decimal_width w) (unat v))))"
proof -
  define n where "n = decimal_width w"
  define ds where "ds = dec_chars (unat v) n True"
  have n: "n \<le> 20" by (simp add: n_def decimal_width_def)
  then have len: "length ds \<le> 20" using length_dec_chars_le [of "unat v" n True] by (simp add: ds_def)
  have "decimal_loop v a n m 0 True 0 = (put m a ds, of_nat (length ds))"
    using decimal_loop_put [of 0 n v a m True 0] n by (simp add: ds_def)
  moreover have "(of_nat (length ds) :: u32) = 0 \<longleftrightarrow> ds = []"
    using len by (simp add: word_eq_unat unsigned_of_nat take_bit_nat_eq_self)
  moreover have "ucast (of_nat (length ds) :: u32) = (of_nat (length ds) :: u64)"
    using len by (simp add: word_eq_unat unsigned_ucast_eq unsigned_of_nat take_bit_nat_eq_self)
  moreover have "(if w = 1 then ACPI_MAX8_DECIMAL_DIGITS else if w = 4 then ACPI_MAX32_DECIMAL_DIGITS else ACPI_MAX64_DECIMAL_DIGITS) = n"
    by (simp add: n_def decimal_width_def ACPI_MAX8_DECIMAL_DIGITS_def ACPI_MAX32_DECIMAL_DIGITS_def ACPI_MAX64_DECIMAL_DIGITS_def)
  ultimately show ?thesis
    unfolding AcpiExConvertToAscii_def n_def [symmetric] decimal_def ds_def [symmetric]
    by (simp add: Let_def put_append del: fun_upd_apply)
qed

lemma ConvertToAscii_16:
  assumes "0 < unat w" "unat w \<le> 8"
  shows "AcpiExConvertToAscii m v 16 a w = (put m a (hex_chars (unat v) (2 * unat w) @ [0]), of_nat (2 * unat w))"
proof -
  have "hex_loop v a (2 * unat w) m 0 = (put m a (hex_chars (unat v) (2 * unat w)), of_nat (2 * unat w))"
    using hex_loop_put [of 0 "2 * unat w" v a m] assms by simp
  moreover have "(of_nat (2 * unat w) :: u32) \<noteq> 0" "ucast (of_nat (2 * unat w) :: u32) = (of_nat (2 * unat w) :: u64)"
    using assms by (simp_all add: word_eq_unat unsigned_ucast_eq unsigned_of_nat take_bit_nat_eq_self del: of_nat_mult)
  ultimately show ?thesis
    unfolding AcpiExConvertToAscii_def by (simp add: Let_def put_append del: fun_upd_apply of_nat_mult)
qed

section \<open>Integers of any length\<close>

lemma dec_chars_small: "v < 10 ^ n \<Longrightarrow> n \<le> N \<Longrightarrow> dec_chars v N True = dec_chars v n True"
proof (induction N)
  case (Suc N)
  show ?case
  proof (cases "n = Suc N")
    case False
    then have n: "n \<le> N" using Suc.prems by simp
    then have "(10 :: nat) ^ n \<le> 10 ^ N" by (intro power_increasing) auto
    with Suc.prems(1) have "v < 10 ^ N" by (rule less_le_trans)
    then have "v div 10 ^ N = 0" by simp
    then show ?thesis using Suc.IH [OF Suc.prems(1) n] by (simp add: Let_def)
  qed simp
qed simp

lemma dec_chars_last: "dec_chars v (Suc n) False = dec_chars (v div 10) n False @ [of_nat (48 + v mod 10)]"
proof (induction n)
  case (Suc n)
  have "v div 10 ^ Suc n = v div 10 div 10 ^ n" by (simp add: div_mult2_eq)
  then show ?case using Suc by (simp add: Let_def)
qed (simp add: Let_def)

lemma put_later:
  assumes "length cs < 2 ^ 64"
  shows "put (m(a + of_nat (length cs) := c)) a cs = put m a (cs @ [c])"
proof (rule ext)
  fix x
  have "unat (x - a) = length cs \<longleftrightarrow> x = a + of_nat (length cs)" using assms by (rule unat_diff_eq)
  then show "put (m(a + of_nat (length cs) := c)) a cs x = put m a (cs @ [c]) x"
    using assms by (auto simp: put_append put_block)
qed

lemma string_loop_put: "n < 2 ^ 64 \<Longrightarrow> string_loop n m a v = put m a (dec_chars (unat v) n False)"
proof (induction n arbitrary: m v)
  case (Suc n)
  have ten: "unat (v div 10) = unat v div 10" by (simp add: unat_div)
  have "unat (v mod 10) = unat v mod 10" by (simp add: unat_mod)
  then have "ucast (0x30 + ucast (v mod 10) :: u32) = (of_nat (48 + unat v mod 10) :: u8)"
    by (simp add: word_eq_unat unsigned_ucast_eq unat_word_ariths unsigned_of_nat take_bit_nat_eq_self)
  then have "string_loop (Suc n) m a v = string_loop n (m(a + of_nat n := of_nat (48 + unat v mod 10))) a (v div 10)"
    by (simp add: AcpiUtShortDivide_def)
  also have "\<dots> = put (m(a + of_nat n := of_nat (48 + unat v mod 10))) a (dec_chars (unat v div 10) n False)"
    using Suc ten by simp
  also have "\<dots> = put m a (dec_chars (unat v) (Suc n) False)"
    using put_later [of "dec_chars (unat v div 10) n False" m a] Suc.prems
    unfolding dec_chars_last length_dec_chars by simp
  finally show ?case .
qed simp

lemma digits_loop_ok:
  "v \<noteq> 0 \<Longrightarrow> \<exists>n. digits_loop 10 v k = Some (k + of_nat (Suc n)) \<and> 10 ^ n \<le> unat v \<and> unat v < 10 ^ Suc n"
proof (induction "unat v" arbitrary: v k rule: less_induct)
  case less
  have ten: "unat (v div 10) = unat v div 10" by (simp add: unat_div)
  have step: "digits_loop 10 v k = digits_loop 10 (v div 10) (k + 1)"
    using less.prems by (subst digits_loop.simps) (simp add: AcpiUtShortDivide_def)
  have pos: "0 < unat v" using less.prems by (simp add: word_eq_unat)
  show ?case
  proof (cases "v div 10 = 0")
    case True
    then have "unat v < 10" using ten by simp
    moreover have "digits_loop 10 (v div 10) (k + 1) = Some (k + 1)" using True by (subst digits_loop.simps) simp
    ultimately show ?thesis using step pos by (intro exI [of _ 0]) simp
  next
    case False
    moreover have "unat (v div 10) < unat v" using ten pos by simp
    ultimately obtain n where "digits_loop 10 (v div 10) (k + 1) = Some (k + 1 + of_nat (Suc n))"
      "10 ^ n \<le> unat (v div 10)" "unat (v div 10) < 10 ^ Suc n" using less.hyps [of "v div 10" "k + 1"] by blast
    then show ?thesis using step ten by (intro exI [of _ "Suc n"]) auto
  qed
qed

lemma IntegerToString_ok: "AcpiExIntegerToString m a v = Some (put m a (decimal 20 (unat v) @ [0]))"
proof (cases "v = 0")
  case True
  have "dec_chars 0 20 True = dec_chars 0 0 True" by (rule dec_chars_small) simp_all
  then have "decimal 20 0 = [0x30]" by (simp add: decimal_def)
  moreover have "put (m(a + 1 := 0)) a [0x30] = put m a [0x30, 0]" using put_later [of "[0x30]" m a 0] by simp
  ultimately show ?thesis
    using True string_loop_put [of 1 "m(a + 1 := 0)" a 0] unfolding AcpiExIntegerToString_def AcpiExDigitsNeeded_def by simp
next
  case False
  then obtain n where n: "digits_loop 10 v 0 = Some (of_nat (Suc n))" "10 ^ n \<le> unat v" "unat v < 10 ^ Suc n"
    using digits_loop_ok [of v 0] by auto
  have "n < 20"
  proof (rule ccontr)
    assume "\<not> n < 20"
    then have "(10 :: nat) ^ 20 \<le> 10 ^ n" by (intro power_increasing) auto
    then show False using n(2) unat_lt64 [of v] by simp
  qed
  then have u: "unat (of_nat (Suc n) :: u32) = Suc n" "ucast (of_nat (Suc n) :: u32) = (of_nat (Suc n) :: u64)"
    by (simp_all add: word_eq_unat unsigned_ucast_eq unsigned_of_nat take_bit_nat_eq_self del: of_nat_Suc)
  have "unat v div 10 ^ n mod 10 \<noteq> 0"
  proof -
    have "unat v div 10 ^ n \<noteq> 0" using n(2) by (simp add: div_eq_0_iff)
    moreover have "unat v div 10 ^ n < 10" using n(3) by (simp add: less_mult_imp_div_less mult.commute)
    ultimately show ?thesis by simp
  qed
  then have "dec_chars (unat v) (Suc n) True = dec_chars (unat v) (Suc n) False" by (simp add: Let_def)
  moreover have "dec_chars (unat v) (Suc n) False \<noteq> []" using length_dec_chars [of "unat v" "Suc n"] by force
  ultimately have ds: "decimal 20 (unat v) = dec_chars (unat v) (Suc n) False"
    unfolding decimal_def dec_chars_small [OF n(3), of 20] using \<open>n < 20\<close> by (simp add: dec_chars_small [OF n(3), of 20])
  have "AcpiExIntegerToString m a v = Some (put (m(a + of_nat (Suc n) := 0)) a (dec_chars (unat v) (Suc n) False))"
    using False n(1) u \<open>n < 20\<close> string_loop_put [of "Suc n" _ a v]
    unfolding AcpiExIntegerToString_def AcpiExDigitsNeeded_def by (simp del: of_nat_Suc string_loop.simps dec_chars.simps)
  also have "\<dots> = Some (put m a (decimal 20 (unat v) @ [0]))"
    using put_later [of "dec_chars (unat v) (Suc n) False" m a 0] \<open>n < 20\<close> unfolding ds length_dec_chars by simp
  finally show ?thesis .
qed

section \<open>Properties\<close>

lemma strtoul64_digits:
  assumes "cstring m s (ws @ ds)" "\<forall>w \<in> set ws. isspace w \<noteq> 0" "ds \<noteq> []" "s \<noteq> 0"
    and "Base = 0 \<and> b = 10 \<or> Base = 16 \<and> b = 16" "\<forall>c \<in> set ds. digit_of b c"
  shows "\<exists>u. AcpiUtStrtoul64 m Mode32 s Base r = Some
    (if horner b 0 ds < limit64 Mode32 then (AE_OK, of_nat (horner b 0 ds))
     else if Base = 0 then (AE_BAD_DECIMAL_CONSTANT, r) else (AE_OK, u))"
proof -
  have b: "b \<in> {10, 16}" using assms(5) by auto
  note start = strtoul64_start [OF assms]
  have "counted 0 0" "unat (0 :: u64) < limit64 Mode32" by (simp_all add: counted_def limit64_def)
  from strtoul64_loop_ok [OF b start(2) assms(6) this, of "Base = 0"]
  show ?thesis unfolding start(1) using assms(5) by (auto split: if_splits)
qed

text \<open>
  C39: Numbers written as strings are read back. What \<^verbatim>\<open>AcpiExConvertToAscii\<close> writes in base ten or sixteen for a
  number of one, four or eight bytes, without the leading zeros in base ten and with them in base sixteen, is a
  string that \<^verbatim>\<open>AcpiUtStrtoul64\<close> converts to the number; and \<^verbatim>\<open>AcpiExIntegerToString\<close>, which counts the digits first
  and then writes them from the last to the first, leaves the same memory as the conversion in base ten at full width.
\<close>

theorem number_strings_roundtrip:
  assumes "a \<noteq> 0" "w \<in> {1, 4, 8}" "unat v < 256 ^ unat w"
  shows "AcpiUtStrtoul64 (fst (AcpiExConvertToAscii m v 10 a w)) False a ACPI_ANY_BASE r = Some (AE_OK, v) \<and>
    AcpiUtStrtoul64 (fst (AcpiExConvertToAscii m v 16 a w)) False a 16 r = Some (AE_OK, v) \<and>
    AcpiExIntegerToString m a v = Some (fst (AcpiExConvertToAscii m v 10 a 8))"
proof (intro conjI)
  have lim: "unat v < limit64 False" using unat_lt64 [of v] by (simp add: limit64_def)
  define n where "n = decimal_width w"
  have n: "n \<le> 20" "unat v < 10 ^ n" using assms(2,3) by (auto simp: n_def decimal_width_def)
  define ds where "ds = decimal n (unat v)"
  have "length ds + 1 < 2 ^ 64" using decimal_ok(4) [of n "unat v"] n(1) by (simp add: ds_def)
  then have "cstring (put m a (ds @ [0])) a ([] @ ds)" using put_cstring [of ds m a] decimal_ok(2) by (auto simp: ds_def)
  from strtoul64_digits [OF this _ _ assms(1), of 0 10 False r]
  show "AcpiUtStrtoul64 (fst (AcpiExConvertToAscii m v 10 a w)) False a ACPI_ANY_BASE r = Some (AE_OK, v)"
    using decimal_ok(1-3) [where n = n and v = "unat v"] lim n(2)
    by (simp add: ConvertToAscii_10 n_def [symmetric] ds_def [symmetric] ACPI_ANY_BASE_def)
  define hs where "hs = hex_chars (unat v) (2 * unat w)"
  have w: "0 < unat w" "unat w \<le> 8" using assms(2) by auto
  then have hs: "length hs + 1 < 2 ^ 64" "hs \<noteq> []" "\<forall>c \<in> set hs. digit_of 16 c"
    using hex_chars_digits [where v = "unat v" and n = "2 * unat w"] by (auto simp: hs_def simp flip: length_0_conv)
  have val: "horner 16 0 hs = unat v"
    using assms(3) horner_hex_chars [of 0 "unat v" "2 * unat w"] by (simp add: hs_def power_mult)
  have "0 \<notin> set hs" using hex_chars_digits [where c = 0] unfolding hs_def by blast
  then have "cstring (put m a (hs @ [0])) a ([] @ hs)" using put_cstring [of hs m a] hs by simp
  from strtoul64_digits [OF this _ hs(2) assms(1), of 16 16 False r]
  show "AcpiUtStrtoul64 (fst (AcpiExConvertToAscii m v 16 a w)) False a 16 r = Some (AE_OK, v)"
    using lim hs(3) unfolding ConvertToAscii_16 [OF w] hs_def [symmetric] val by simp
  show "AcpiExIntegerToString m a v = Some (fst (AcpiExConvertToAscii m v 10 a 8))"
    unfolding IntegerToString_ok ConvertToAscii_10 by (simp add: decimal_width_def)
qed

theorem number_strings_roundtrip_witness:
  "AcpiUtStrtoul64 (fst (AcpiExConvertToAscii (\<lambda>_. 0) 205 10 16 1)) False 16 ACPI_ANY_BASE 0 = Some (AE_OK, 205) \<and>
   AcpiUtStrtoul64 (fst (AcpiExConvertToAscii (\<lambda>_. 0) 205 16 16 1)) False 16 16 0 = Some (AE_OK, 205) \<and>
   AcpiExIntegerToString (\<lambda>_. 0) 16 205 = Some (fst (AcpiExConvertToAscii (\<lambda>_. 0) 205 10 16 8))"
  using number_strings_roundtrip [of 16 1 205 "\<lambda>_. 0" 0] by simp

text \<open>
  C40: \<^verbatim>\<open>AcpiUtStrtoul64\<close> is exact on digit strings. After any white space it takes decimal digits, or hexadecimal
  ones when the base is 16, and returns their value if it is below the limit of the integers in use (32 or 64
  bits). A decimal number from the limit on is refused with the error for decimal constants and the result is
  left alone, while a hexadecimal one is cut before its first digit too many and still reported as good.
\<close>

theorem strtoul64_value:
  assumes "s \<noteq> 0" "cstring m s (ws @ ds)" "\<forall>w \<in> set ws. isspace w \<noteq> 0" "ds \<noteq> []"
    and "Base = ACPI_ANY_BASE \<and> b = 10 \<or> Base = 16 \<and> b = 16" "\<forall>c \<in> set ds. digit_of b c"
  shows "\<exists>cut. AcpiUtStrtoul64 m Mode32 s Base r = Some
    (if horner b 0 ds < (if Mode32 then 2 ^ 32 else 2 ^ 64) then (AE_OK, of_nat (horner b 0 ds))
     else if Base = ACPI_ANY_BASE then (AE_BAD_DECIMAL_CONSTANT, r) else (AE_OK, cut))"
  using strtoul64_digits [OF assms(2-4,1) _ assms(6), of Base Mode32 r] assms(5)
  unfolding ACPI_ANY_BASE_def limit64_def by blast

text \<open>The strings \<open> 4294967296\<close> at 16, the first number too large for 32 bits.\<close>

definition example_big :: bytes where
  "example_big = put (\<lambda>_. 0) 16 [32, 0x34, 0x32, 0x39, 0x34, 0x39, 0x36, 0x37, 0x32, 0x39, 0x36]"

theorem strtoul64_value_witness:
  "AcpiUtStrtoul64 example_big True 16 0 7 = Some (AE_BAD_DECIMAL_CONSTANT, 7) \<and>
   AcpiUtStrtoul64 example_big False 16 0 7 = Some (AE_OK, 4294967296)"
proof -
  have sp: "\<forall>w \<in> set [32 :: u8]. isspace w \<noteq> 0" using isspace_iff [of 32] by simp
  have str: "cstring example_big 16 ([32] @ [0x34, 0x32, 0x39, 0x34, 0x39, 0x36, 0x37, 0x32, 0x39, 0x36])"
    by (simp add: example_big_def)
  have "\<forall>c \<in> set [0x34, 0x32, 0x39, 0x34, 0x39, 0x36, 0x37, 0x32, 0x39, 0x36 :: u8]. digit_of 10 c"
    by (simp add: digit_char)
  moreover have "horner 10 0 [0x34, 0x32, 0x39, 0x34, 0x39, 0x36, 0x37, 0x32, 0x39, 0x36] = 4294967296"
    by (simp add: horner_def char_value_def)
  ultimately show ?thesis
    using strtoul64_value [OF _ str sp, of 0 10 True 7] strtoul64_value [OF _ str sp, of 0 10 False 7]
    by (simp add: ACPI_ANY_BASE_def)
qed

section \<open>Strings in lower and upper case\<close>

definition lower :: "u8 \<Rightarrow> u8" where "lower c = ucast (tolower (scast c))"
definition upper :: "u8 \<Rightarrow> u8" where "upper c = ucast (toupper (scast c))"

lemma cstring_upd: "cstring m p xs \<Longrightarrow> \<forall>i \<le> length xs. p + of_nat i \<noteq> a \<Longrightarrow> cstring (m(a := c)) p xs"
proof (induction xs arbitrary: p)
  case Nil
  then show ?case by (auto dest: spec [of _ 0])
next
  case (Cons x xs)
  have "p \<noteq> a" using Cons.prems(2) by (auto dest: spec [of _ 0])
  moreover have "\<forall>i \<le> length xs. p + 1 + of_nat i \<noteq> a"
  proof (intro allI impI)
    fix i assume "i \<le> length xs"
    then show "p + 1 + of_nat i \<noteq> a" using Cons.prems(2) [rule_format, of "Suc i"] by (simp add: algebra_simps)
  qed
  ultimately show ?case using Cons by simp
qed

lemma cstring_upd_before: "cstring m (p + 1) xs \<Longrightarrow> length xs + 1 < 2 ^ 64 \<Longrightarrow> cstring (m(p := c)) (p + 1) xs"
proof (rule cstring_upd)
  assume l: "length xs + 1 < 2 ^ 64"
  show "\<forall>i \<le> length xs. p + 1 + of_nat i \<noteq> p"
  proof (intro allI impI notI)
    fix i assume i: "i \<le> length xs" "p + 1 + of_nat i = p"
    then have "(of_nat (Suc i) :: u64) = 0" by (simp add: algebra_simps)
    moreover have "unat (of_nat (Suc i) :: u64) = Suc i"
      using i l by (simp add: unsigned_of_nat take_bit_nat_eq_self del: of_nat_Suc)
    ultimately show False by simp
  qed
qed

lemma strlwr_ok: "cstring m a xs \<Longrightarrow> length xs < 2 ^ 64 \<Longrightarrow> AcpiUtStrlwr m a = Some (put m a (map lower xs))"
proof (induction xs arbitrary: m a)
  case (Cons x xs)
  then have "cstring (m(a := lower x)) (a + 1) xs" by (intro cstring_upd_before) simp_all
  then show ?case using Cons by (subst AcpiUtStrlwr.simps) (simp add: lower_def [symmetric] del: fun_upd_apply)
qed (subst AcpiUtStrlwr.simps, simp)

lemma strupr_ok: "cstring m a xs \<Longrightarrow> length xs < 2 ^ 64 \<Longrightarrow> AcpiUtStrupr m a = Some (put m a (map upper xs))"
proof (induction xs arbitrary: m a)
  case (Cons x xs)
  then have "cstring (m(a := upper x)) (a + 1) xs" by (intro cstring_upd_before) simp_all
  then show ?case using Cons by (subst AcpiUtStrupr.simps) (simp add: upper_def [symmetric] del: fun_upd_apply)
qed (subst AcpiUtStrupr.simps, simp)

definition folded :: "u8 \<Rightarrow> u32" where "folded c = tolower (scast c)"

lemma folded_zero_table: "list_all (\<lambda>n. (folded (of_nat n) = 0) = (n = 0)) [0..<256]"
  by code_simp

lemma folded_zero [simp]: "folded c = 0 \<longleftrightarrow> c = 0"
proof -
  have "unat c \<in> set [0..<256]" using u8_bound [of c] by simp
  then have "(folded (of_nat (unat c)) = 0) = (unat c = 0)"
    using folded_zero_table unfolding list_all_iff by blast
  then show ?thesis unfolding of_nat_unat ucast_id by (simp add: word_eq_unat)
qed

lemma stricmp_step:
  "AcpiUtStricmp m a b =
     (if folded (m a) = folded (m b) \<and> m a \<noteq> 0 then AcpiUtStricmp m (a + 1) (b + 1)
      else Some (sint (folded (m a)) - sint (folded (m b))))"
  by (subst AcpiUtStricmp.simps) (simp only: Let_def folded_def [symmetric] folded_zero)

text \<open>Zero exactly on strings that are equal but for the case of their letters.\<close>

lemma stricmp_zero:
  "cstring m a xs \<Longrightarrow> cstring m b ys \<Longrightarrow>
    \<exists>n. AcpiUtStricmp m a b = Some n \<and> (n = 0 \<longleftrightarrow> map folded xs = map folded ys)"
proof (induction xs arbitrary: a b ys)
  case Nil
  have "sint (folded 0) \<noteq> sint (folded y)" if "y \<noteq> 0" for y
    using that folded_zero [of y] folded_zero [of 0] by (metis signed_word_eqI)
  then show ?case using Nil by (cases ys) (auto simp: stricmp_step [of m a b])
next
  case (Cons x xs)
  have z: "folded 0 = 0" by (rule folded_zero [THEN iffD2, OF refl])
  have "folded x \<noteq> folded 0" using Cons.prems unfolding z by simp
  then have ne: "folded x \<noteq> folded 0" "sint (folded x) \<noteq> sint (folded 0)" by (blast intro: signed_word_eqI)+
  show ?case
  proof (cases ys)
    case Nil
    then show ?thesis using Cons.prems ne by (simp add: stricmp_step [of m a b])
  next
    case (Cons y ys')
    then have c: "m a = x" "x \<noteq> 0" "m b = y" "cstring m (a + 1) xs" "cstring m (b + 1) ys'" using Cons.prems by simp_all
    moreover have "sint (folded x) = sint (folded y) \<longleftrightarrow> folded x = folded y" by (auto intro: signed_word_eqI)
    ultimately show ?thesis using Cons Cons.IH [OF c(4,5)] by (simp add: stricmp_step [of m a b])
  qed
qed

end
