(* ===== verification/Acpi_Field.thy ===== *)
theory Acpi_Field
  imports Acpi_Clib Acpi_Root
begin

text \<open>
  Bit fields of ACPICA, \<^verbatim>\<open>kernel/hw/acpica/exfldio.c\<close>: a field is a run of bits anywhere in a buffer
  or a region, which is read and written in units (datums) of 1, 2, 4 or 8 bytes.  Modelled are the two
  functions that read and write a whole field, the update rule for the bits around it, and the access to
  one datum of a field in a buffer; the access to regions, through their handlers, is a parameter.
\<close>

section \<open>Fields\<close>

definition AE_BUFFER_OVERFLOW :: u32 where "AE_BUFFER_OVERFLOW = EXCEP_ENV 0xB"
definition AE_AML_OPERAND_VALUE :: u32 where "AE_AML_OPERAND_VALUE = EXCEP_AML 0x4"

definition AML_FIELD_UPDATE_RULE_MASK :: u8 where "AML_FIELD_UPDATE_RULE_MASK = 0x60"
definition AML_FIELD_UPDATE_PRESERVE :: u8 where "AML_FIELD_UPDATE_PRESERVE = 0x00"
definition AML_FIELD_UPDATE_WRITE_AS_ONES :: u8 where "AML_FIELD_UPDATE_WRITE_AS_ONES = 0x20"
definition AML_FIELD_UPDATE_WRITE_AS_ZEROS :: u8 where "AML_FIELD_UPDATE_WRITE_AS_ZEROS = 0x40"

definition ACPI_TYPE_BUFFER_FIELD :: u8 where "ACPI_TYPE_BUFFER_FIELD = 0x0E"
definition AOPOBJ_DATA_VALID :: u8 where "AOPOBJ_DATA_VALID = 0x04"
definition ACPI_INTEGER_BIT_SIZE :: u32 where "ACPI_INTEGER_BIT_SIZE = 64"

definition ACPI_MUL_8 :: "u32 \<Rightarrow> u32" where "ACPI_MUL_8 a = push_bit 3 a"
definition ACPI_DIV_8 :: "u32 \<Rightarrow> u32" where "ACPI_DIV_8 a = drop_bit 3 a"
definition ACPI_ROUND_UP_TO :: "u32 \<Rightarrow> u32 \<Rightarrow> u32" where
  "ACPI_ROUND_UP_TO v boundary = (v + (boundary - 1)) div boundary"
definition ACPI_ROUND_BITS_UP_TO_BYTES :: "u32 \<Rightarrow> u32" where "ACPI_ROUND_BITS_UP_TO_BYTES a = ACPI_DIV_8 (a + 7)"
definition ACPI_MASK_BITS_ABOVE :: "u32 \<Rightarrow> u64" where "ACPI_MASK_BITS_ABOVE position = NOT (push_bit (unat position) (- 1))"
definition ACPI_MASK_BITS_BELOW :: "u32 \<Rightarrow> u64" where "ACPI_MASK_BITS_BELOW position = push_bit (unat position) (- 1)"

text \<open>The parts of the object that this code looks at; \<open>Buffer_Pointer\<close> is that of the buffer the field is in.\<close>

record field_object =
  Common_Type :: u8
  Common_Flags :: u8
  FieldFlags :: u8
  AccessByteWidth :: u8
  BitLength :: u32
  BaseByteOffset :: u32
  StartFieldBitOffset :: u8
  Buffer_Pointer :: ptr

text \<open>The memory, and whatever a region handler has besides.\<close>

record field_state =
  fmem :: bytes

text \<open>One access: \<open>None\<close> reads, \<open>Some v\<close> writes; the answer is the status and what is in \<^verbatim>\<open>*Value\<close>.\<close>

type_synonym 'a datum_io =
  "field_object \<Rightarrow> u32 \<Rightarrow> u64 option \<Rightarrow> 'a field_state_scheme \<Rightarrow> 'a field_state_scheme \<times> u32 \<times> u64"

text \<open>\<open>other\<close> is for the fields of regions, and for buffer fields whose arguments are not evaluated yet.\<close>

definition AcpiExFieldDatumIo :: "'a datum_io \<Rightarrow> 'a datum_io" where
  "AcpiExFieldDatumIo other ObjDesc FieldDatumByteOffset Value s =
     (if Common_Type ObjDesc = ACPI_TYPE_BUFFER_FIELD \<and> Common_Flags ObjDesc AND AOPOBJ_DATA_VALID \<noteq> 0
      then
        (let address = Buffer_Pointer ObjDesc + ucast (BaseByteOffset ObjDesc) + ucast FieldDatumByteOffset;
             n = unat (AccessByteWidth ObjDesc)
         in case Value of
              None \<Rightarrow> (s, AE_OK, load_le n (fmem s) address)
            | Some v \<Rightarrow> (s\<lparr>fmem := store_le n (fmem s) address v\<rparr>, AE_OK, v))
      else other ObjDesc FieldDatumByteOffset Value s)"

definition AcpiExWriteWithUpdateRule ::
  "'a datum_io \<Rightarrow> field_object \<Rightarrow> u64 \<Rightarrow> u64 \<Rightarrow> u32 \<Rightarrow> 'a field_state_scheme \<Rightarrow> 'a field_state_scheme \<times> u32" where
  "AcpiExWriteWithUpdateRule other ObjDesc Mask FieldValue FieldDatumByteOffset s =
     (let io = AcpiExFieldDatumIo other ObjDesc FieldDatumByteOffset;
          rule = FieldFlags ObjDesc AND AML_FIELD_UPDATE_RULE_MASK;
          finish = (\<lambda>MergedValue s. case io (Some MergedValue) s of (s, Status, _) \<Rightarrow> (s, Status))
      in if Mask = 0xFFFFFFFFFFFFFFFF then finish FieldValue s
         else if rule = AML_FIELD_UPDATE_PRESERVE then
           (if push_bit (unat (ACPI_MUL_8 8 - ACPI_MUL_8 (ucast (AccessByteWidth ObjDesc)))) (NOT Mask) \<noteq> 0
            then case io None s of (s, Status, CurrentValue) \<Rightarrow>
                   if ACPI_FAILURE Status then (s, Status) else finish (FieldValue OR (CurrentValue AND NOT Mask)) s
            else finish FieldValue s)
         else if rule = AML_FIELD_UPDATE_WRITE_AS_ONES then finish (FieldValue OR NOT Mask) s
         else if rule = AML_FIELD_UPDATE_WRITE_AS_ZEROS then finish (FieldValue AND Mask) s
         else (s, AE_AML_OPERAND_VALUE))"

text \<open>Whether a value for an index or bank register is too large for it.\<close>

definition AcpiExRegisterOverflow :: "field_object \<Rightarrow> u64 \<Rightarrow> bool" where
  "AcpiExRegisterOverflow ObjDesc v =
     (if BitLength ObjDesc \<ge> ACPI_INTEGER_BIT_SIZE then False else v \<ge> push_bit (unat (BitLength ObjDesc)) 1)"

section \<open>Reading a field\<close>

text \<open>\<^verbatim>\<open>memcpy\<close> of the low bytes of a local datum to the buffer, at most up to its end.\<close>

definition datum_size :: "field_object \<Rightarrow> u32 \<Rightarrow> u32 \<Rightarrow> nat" where
  "datum_size ObjDesc BufferLength BufferOffset =
     (if ucast (AccessByteWidth ObjDesc) < BufferLength - BufferOffset then unat (AccessByteWidth ObjDesc)
      else unat (BufferLength - BufferOffset))"

definition put_datum :: "field_object \<Rightarrow> ptr \<Rightarrow> u32 \<Rightarrow> u32 \<Rightarrow> u64 \<Rightarrow> 'a field_state_scheme \<Rightarrow> 'a field_state_scheme" where
  "put_datum ObjDesc Buffer BufferLength BufferOffset v s =
     s\<lparr>fmem := store_le (datum_size ObjDesc BufferLength BufferOffset) (fmem s) (Buffer + ucast BufferOffset) v\<rparr>"

definition with_access_limit :: "field_object \<Rightarrow> field_object" where
  "with_access_limit ObjDesc = (if AccessByteWidth ObjDesc > 8 then ObjDesc\<lparr>AccessByteWidth := 8\<rparr> else ObjDesc)"

text \<open>The loop, with how often it still runs; it ends with the last datum, merged but not yet written.\<close>

fun extract_loop ::
  "'a datum_io \<Rightarrow> field_object \<Rightarrow> ptr \<Rightarrow> u32 \<Rightarrow> u32 \<Rightarrow> nat \<Rightarrow> u32 \<Rightarrow> u32 \<Rightarrow> u32 \<Rightarrow> u64 \<Rightarrow> 'a field_state_scheme \<Rightarrow>
   'a field_state_scheme \<times> u32 \<times> u32 \<times> u64" where
  "extract_loop other ObjDesc Buffer BufferLength DatumCount 0 i FieldOffset BufferOffset MergedDatum s =
     (s, AE_OK, BufferOffset, MergedDatum)"
| "extract_loop other ObjDesc Buffer BufferLength DatumCount (Suc n) i FieldOffset BufferOffset MergedDatum s =
     (let FieldOffset = FieldOffset + ucast (AccessByteWidth ObjDesc);
          shift = ACPI_MUL_8 (ucast (AccessByteWidth ObjDesc)) - ucast (StartFieldBitOffset ObjDesc)
      in case AcpiExFieldDatumIo other ObjDesc FieldOffset None s of (s, Status, RawDatum) \<Rightarrow>
           if ACPI_FAILURE Status then (s, Status, BufferOffset, MergedDatum)
           else
             (let MergedDatum = (if shift < ACPI_INTEGER_BIT_SIZE then MergedDatum OR push_bit (unat shift) RawDatum else MergedDatum)
              in if i = DatumCount then (s, AE_OK, BufferOffset, MergedDatum)
                 else extract_loop other ObjDesc Buffer BufferLength DatumCount n (i + 1) FieldOffset
                        (BufferOffset + ucast (AccessByteWidth ObjDesc))
                        (drop_bit (unat (StartFieldBitOffset ObjDesc)) RawDatum)
                        (put_datum ObjDesc Buffer BufferLength BufferOffset MergedDatum s)))"

definition AcpiExExtractFromField ::
  "'a datum_io \<Rightarrow> field_object \<Rightarrow> ptr \<Rightarrow> u32 \<Rightarrow> 'a field_state_scheme \<Rightarrow> 'a field_state_scheme \<times> field_object \<times> u32" where
  "AcpiExExtractFromField other ObjDesc Buffer BufferLength s =
     (if BufferLength < ACPI_ROUND_BITS_UP_TO_BYTES (BitLength ObjDesc) then (s, ObjDesc, AE_BUFFER_OVERFLOW)
      else
        (let s = s\<lparr>fmem := memset (fmem s) Buffer 0 (ucast BufferLength)\<rparr>;
             AccessBitWidth = ACPI_MUL_8 (ucast (AccessByteWidth ObjDesc))
         in if StartFieldBitOffset ObjDesc = 0 \<and> BitLength ObjDesc = AccessBitWidth then
              (case AcpiExFieldDatumIo other ObjDesc 0 None s of (s, Status, v) \<Rightarrow>
                 (s\<lparr>fmem := store_le (if BufferLength \<ge> 8 then 8 else unat BufferLength) (fmem s) Buffer v\<rparr>, ObjDesc, Status))
            else
              (let ObjDesc = with_access_limit ObjDesc;
                   AccessBitWidth = ACPI_MUL_8 (ucast (AccessByteWidth ObjDesc));
                   Start = ucast (StartFieldBitOffset ObjDesc);
                   DatumCount = ACPI_ROUND_UP_TO (BitLength ObjDesc) AccessBitWidth;
                   FieldDatumCount = ACPI_ROUND_UP_TO (BitLength ObjDesc + Start) AccessBitWidth
               in case AcpiExFieldDatumIo other ObjDesc 0 None s of (s, Status, RawDatum) \<Rightarrow>
                    if ACPI_FAILURE Status then (s, ObjDesc, Status)
                    else
                      (case extract_loop other ObjDesc Buffer BufferLength DatumCount (unat FieldDatumCount - 1) 1 0 0
                              (drop_bit (unat Start) RawDatum) s of (s, Status, BufferOffset, MergedDatum) \<Rightarrow>
                         if ACPI_FAILURE Status then (s, ObjDesc, Status)
                         else
                           (let BufferTailBits = BitLength ObjDesc mod AccessBitWidth;
                                MergedDatum = (if BufferTailBits \<noteq> 0 then MergedDatum AND ACPI_MASK_BITS_ABOVE BufferTailBits else MergedDatum)
                            in (put_datum ObjDesc Buffer BufferLength BufferOffset MergedDatum s, ObjDesc, AE_OK))))))"

section \<open>Writing a field\<close>

text \<open>\<^verbatim>\<open>memcpy\<close> from the buffer to the low bytes of the local datum; the others stay.\<close>

definition get_datum :: "field_object \<Rightarrow> ptr \<Rightarrow> u32 \<Rightarrow> u32 \<Rightarrow> u64 \<Rightarrow> 'a field_state_scheme \<Rightarrow> u64" where
  "get_datum ObjDesc Buffer BufferLength BufferOffset RawDatum s =
     (let n = datum_size ObjDesc BufferLength BufferOffset in
      load_le n (fmem s) (Buffer + ucast BufferOffset) OR (RawDatum AND NOT (mask (8 * n))))"

fun insert_loop ::
  "'a datum_io \<Rightarrow> field_object \<Rightarrow> ptr \<Rightarrow> u32 \<Rightarrow> u32 \<Rightarrow> u64 \<Rightarrow> nat \<Rightarrow> u32 \<Rightarrow> u32 \<Rightarrow> u32 \<Rightarrow> u64 \<Rightarrow> u64 \<Rightarrow> u64 \<Rightarrow>
   'a field_state_scheme \<Rightarrow> 'a field_state_scheme \<times> u32 \<times> u32 \<times> u64 \<times> u64" where
  "insert_loop other ObjDesc Buffer BufferLength DatumCount WidthMask 0 i FieldOffset BufferOffset RawDatum MergedDatum Mask s =
     (s, AE_OK, FieldOffset, MergedDatum, Mask)"
| "insert_loop other ObjDesc Buffer BufferLength DatumCount WidthMask (Suc n) i FieldOffset BufferOffset RawDatum MergedDatum Mask s =
     (case AcpiExWriteWithUpdateRule other ObjDesc Mask (MergedDatum AND Mask) FieldOffset s of (s, Status) \<Rightarrow>
        if ACPI_FAILURE Status then (s, Status, FieldOffset, MergedDatum, Mask)
        else
          (let FieldOffset = FieldOffset + ucast (AccessByteWidth ObjDesc);
               shift = ACPI_MUL_8 (ucast (AccessByteWidth ObjDesc)) - ucast (StartFieldBitOffset ObjDesc);
               MergedDatum = (if shift < ACPI_INTEGER_BIT_SIZE then drop_bit (unat shift) RawDatum else 0);
               Mask = WidthMask
           in if i = DatumCount then (s, AE_OK, FieldOffset, MergedDatum, Mask)
              else
                (let BufferOffset = BufferOffset + ucast (AccessByteWidth ObjDesc);
                     RawDatum = get_datum ObjDesc Buffer BufferLength BufferOffset RawDatum s;
                     MergedDatum = MergedDatum OR push_bit (unat (StartFieldBitOffset ObjDesc)) RawDatum
                 in insert_loop other ObjDesc Buffer BufferLength DatumCount WidthMask n (i + 1) FieldOffset BufferOffset
                      RawDatum MergedDatum Mask s)))"

text \<open>With a buffer that is long enough: from the cut of the access width to the exit.\<close>

definition insert_bits ::
  "'a datum_io \<Rightarrow> field_object \<Rightarrow> ptr \<Rightarrow> u32 \<Rightarrow> 'a field_state_scheme \<Rightarrow> 'a field_state_scheme \<times> field_object \<times> u32" where
  "insert_bits other ObjDesc Buffer BufferLength s =
     (let ObjDesc = with_access_limit ObjDesc;
          AccessBitWidth = ACPI_MUL_8 (ucast (AccessByteWidth ObjDesc));
          Start = ucast (StartFieldBitOffset ObjDesc);
          WidthMask = (if AccessBitWidth = ACPI_INTEGER_BIT_SIZE then 0xFFFFFFFFFFFFFFFF else ACPI_MASK_BITS_ABOVE AccessBitWidth);
          Mask = WidthMask AND ACPI_MASK_BITS_BELOW Start;
          DatumCount = ACPI_ROUND_UP_TO (BitLength ObjDesc) AccessBitWidth;
          FieldDatumCount = ACPI_ROUND_UP_TO (BitLength ObjDesc + Start) AccessBitWidth;
          RawDatum = get_datum ObjDesc Buffer BufferLength 0 0 s;
          MergedDatum = push_bit (unat Start) RawDatum
      in case insert_loop other ObjDesc Buffer BufferLength DatumCount WidthMask (unat FieldDatumCount - 1) 1 0 0
                RawDatum MergedDatum Mask s of (s, Status, FieldOffset, MergedDatum, Mask) \<Rightarrow>
           if ACPI_FAILURE Status then (s, ObjDesc, Status)
           else
             (let BufferTailBits = (BitLength ObjDesc + Start) mod AccessBitWidth;
                  Mask = (if BufferTailBits \<noteq> 0 then Mask AND ACPI_MASK_BITS_ABOVE BufferTailBits else Mask)
              in case AcpiExWriteWithUpdateRule other ObjDesc Mask (MergedDatum AND Mask) FieldOffset s of
                   (s, Status) \<Rightarrow> (s, ObjDesc, Status)))"

text \<open>\<open>NewBuffer\<close> is what the allocator returns if it is asked.\<close>

definition AcpiExInsertIntoField ::
  "'a datum_io \<Rightarrow> ptr \<Rightarrow> field_object \<Rightarrow> ptr \<Rightarrow> u32 \<Rightarrow> 'a field_state_scheme \<Rightarrow> 'a field_state_scheme \<times> field_object \<times> u32" where
  "AcpiExInsertIntoField other NewBuffer ObjDesc Buffer BufferLength s =
     (let RequiredLength = ACPI_ROUND_BITS_UP_TO_BYTES (BitLength ObjDesc) in
      if BufferLength < RequiredLength then
        (if NewBuffer = 0 then (s, ObjDesc, AE_NO_MEMORY)
         else insert_bits other ObjDesc NewBuffer RequiredLength
                (s\<lparr>fmem := memcpy (memset (fmem s) NewBuffer 0 (ucast RequiredLength)) NewBuffer Buffer (ucast BufferLength)\<rparr>))
      else insert_bits other ObjDesc Buffer BufferLength s)"

section \<open>Memory as bits\<close>

definition bits_at :: "bytes \<Rightarrow> ptr \<Rightarrow> nat \<Rightarrow> bool" where
  "bits_at m p k \<longleftrightarrow> bit (m (p + of_nat (k div 8))) (k mod 8)"

lemma bit_load_bits: "bit (load_le n m (p + of_nat o') :: u64) j \<longleftrightarrow> j < 64 \<and> j < 8 * n \<and> bits_at m p (8 * o' + j)"
proof -
  have "(8 * o' + j) div 8 = o' + j div 8" "(8 * o' + j) mod 8 = j mod 8" by presburger+
  then show ?thesis by (simp add: bit_load_le bits_at_def add.assoc)
qed

lemma store_outside: "(\<And>j. j < n \<Longrightarrow> x \<noteq> a + of_nat j) \<Longrightarrow> store_le n m a v x = m x"
proof -
  assume "\<And>j. j < n \<Longrightarrow> x \<noteq> a + of_nat j"
  then have "\<not> unat (x - a) < n" by (metis add.commute diff_add_cancel of_nat_unat ucast_id)
  then show ?thesis by (simp add: store_le_def)
qed

lemma bits_store_apart:
  "(\<And>j. j < n \<Longrightarrow> p + of_nat (k div 8) \<noteq> a + of_nat j) \<Longrightarrow> bits_at (store_le n m a v) p k = bits_at m p k"
  by (simp add: bits_at_def store_outside)

lemma bits_store:
  fixes v :: u64
  assumes k: "k < 2 ^ 62" and n: "o' + n \<le> 2 ^ 60"
  shows "bits_at (store_le n m (p + of_nat o') v) p k =
    (if 8 * o' \<le> k \<and> k < 8 * (o' + n) then bit v (k - 8 * o') else bits_at m p k)"
proof (cases "o' \<le> k div 8")
  case True
  have d: "p + of_nat (k div 8) - (p + of_nat o') = of_nat (k div 8 - o')" using True by (simp add: of_nat_diff)
  have u: "unat (of_nat (k div 8 - o') :: u64) = k div 8 - o'"
    using k by (simp add: unsigned_of_nat take_bit_nat_eq_self)
  have i: "k div 8 - o' < n \<longleftrightarrow> k < 8 * (o' + n)" "8 * o' \<le> k" using True by (auto simp: less_mult_imp_div_less)
  have "8 * (k div 8 - o') + k mod 8 = k - 8 * o'" using True by (simp add: algebra_simps)
  then have "bit (ucast (drop_bit (8 * (k div 8 - o')) v) :: u8) (k mod 8) = bit v (k - 8 * o')"
    by (simp add: bit_simps)
  then show ?thesis unfolding bits_at_def store_le_def d u using i by simp
next
  case False
  have "p + of_nat (k div 8) \<noteq> p + of_nat o' + of_nat j" if "j < n" for j
  proof
    assume "p + of_nat (k div 8) = p + of_nat o' + of_nat j"
    then have "(of_nat (k div 8) :: u64) = of_nat (o' + j)" by (simp add: add.assoc)
    moreover have "unat (of_nat (k div 8) :: u64) = k div 8" "unat (of_nat (o' + j) :: u64) = o' + j"
      using k n that by (simp_all add: unsigned_of_nat take_bit_nat_eq_self del: of_nat_add)
    ultimately show False using False by (metis le_add1)
  qed
  then show ?thesis using False by (subst bits_store_apart) auto
qed

lemma bits_outside: "(\<And>x. x = p + of_nat (k div 8) \<Longrightarrow> m' x = m x) \<Longrightarrow> bits_at m' p k = bits_at m p k"
  by (simp add: bits_at_def)

section \<open>The numbers of a field\<close>

abbreviation width :: "field_object \<Rightarrow> nat" where "width f \<equiv> unat (AccessByteWidth f)"
abbreviation start :: "field_object \<Rightarrow> nat" where "start f \<equiv> unat (StartFieldBitOffset f)"
abbreviation bits :: "field_object \<Rightarrow> nat" where "bits f \<equiv> unat (BitLength f)"
abbreviation base :: "field_object \<Rightarrow> ptr" where "base f \<equiv> Buffer_Pointer f + ucast (BaseByteOffset f)"

definition datums :: "field_object \<Rightarrow> nat" where "datums f = (bits f + (8 * width f - 1)) div (8 * width f)"
definition field_datums :: "field_object \<Rightarrow> nat" where
  "field_datums f = (bits f + start f + (8 * width f - 1)) div (8 * width f)"

definition buffer_field :: "field_object \<Rightarrow> bool" where
  "buffer_field f \<longleftrightarrow> Common_Type f = ACPI_TYPE_BUFFER_FIELD \<and> Common_Flags f AND AOPOBJ_DATA_VALID \<noteq> 0 \<and>
     width f \<in> {1, 2, 4, 8} \<and> start f < 8 * width f \<and> 0 < bits f \<and> bits f < 2 ^ 31"

lemma buffer_field_limit: "buffer_field f \<Longrightarrow> with_access_limit f = f"
  by (auto simp: buffer_field_def with_access_limit_def word_less_nat_alt)

lemma round_up_bounds:
  fixes L W :: nat
  assumes "0 < W" "0 < L"
  shows "0 < (L + (W - 1)) div W" "L \<le> (L + (W - 1)) div W * W" "((L + (W - 1)) div W - 1) * W < L"
proof -
  define q where "q = (L + (W - 1)) div W"
  have "q * W \<le> L + (W - 1)" "L + (W - 1) < (q + 1) * W"
    using assms dividend_less_times_div [of W "L + (W - 1)"] by (simp_all add: q_def algebra_simps)
  then have b: "L \<le> q * W" "q * W < L + W" using assms by (simp_all add: algebra_simps)
  then have "0 < q" using assms by (cases q) auto
  then have "(q - 1) * W + W = q * W" by (cases q) auto
  then show "0 < (L + (W - 1)) div W" "L \<le> (L + (W - 1)) div W * W" "((L + (W - 1)) div W - 1) * W < L"
    using b \<open>0 < q\<close> unfolding q_def by linarith+
qed

lemma field_numbers:
  assumes "buffer_field f"
  defines "W \<equiv> 8 * width f"
  shows "0 < datums f" "datums f \<le> field_datums f" "field_datums f \<le> Suc (datums f)"
    and "bits f \<le> datums f * W" "(datums f - 1) * W < bits f"
    and "bits f + start f \<le> field_datums f * W" "(field_datums f - 1) * W < bits f + start f"
    and "unat (ACPI_MUL_8 (ucast (AccessByteWidth f))) = W"
    and "unat (ACPI_ROUND_UP_TO (BitLength f) (ACPI_MUL_8 (ucast (AccessByteWidth f)))) = datums f"
    and "unat (ACPI_ROUND_UP_TO (BitLength f + ucast (StartFieldBitOffset f)) (ACPI_MUL_8 (ucast (AccessByteWidth f)))) = field_datums f"
    and "field_datums f * width f < 2 ^ 29"
    and "unat (ACPI_MUL_8 (ucast (AccessByteWidth f)) - ucast (StartFieldBitOffset f)) = W - start f"
proof -
  have w: "width f \<in> {1, 2, 4, 8}" "start f < W" "0 < bits f" "bits f < 2 ^ 31" using assms by (auto simp: buffer_field_def)
  then have W: "0 < W" "W \<le> 64" by (auto simp: W_def)
  note D = round_up_bounds [OF W(1) w(3)] and F = round_up_bounds [OF W(1), of "bits f + start f"]
  show "0 < datums f" and b: "bits f \<le> datums f * W" "(datums f - 1) * W < bits f"
    using D by (simp_all add: datums_def W_def)
  show fb: "bits f + start f \<le> field_datums f * W" "(field_datums f - 1) * W < bits f + start f"
    using F w by (simp_all add: field_datums_def W_def)
  show "datums f \<le> field_datums f"
    unfolding datums_def field_datums_def by (intro div_le_mono) simp
  have "field_datums f \<le> (bits f + (W - 1) + W) div W"
    unfolding field_datums_def W_def [symmetric] using w by (intro div_le_mono) simp
  also have "\<dots> = Suc (datums f)" unfolding datums_def W_def [symmetric] using W(1) by (subst div_add_self2) simp_all
  finally show "field_datums f \<le> Suc (datums f)" .
  show a: "unat (ACPI_MUL_8 (ucast (AccessByteWidth f))) = W"
    using w(1) unfolding ACPI_MUL_8_def W_def push_bit_eq_mult
    by (auto simp: unat_word_ariths unsigned_ucast_eq take_bit_nat_eq_self)
  have one: "unat (ACPI_MUL_8 (ucast (AccessByteWidth f)) - 1) = W - 1"
    using a W by (subst unat_sub) (simp_all add: word_le_nat_alt)
  show "unat (ACPI_ROUND_UP_TO (BitLength f) (ACPI_MUL_8 (ucast (AccessByteWidth f)))) = datums f"
    using w W one a by (simp add: ACPI_ROUND_UP_TO_def unat_div unat_word_ariths datums_def W_def)
  have st: "unat (ucast (StartFieldBitOffset f) :: u32) = start f"
    using w W by (simp add: unsigned_ucast_eq take_bit_nat_eq_self)
  show "unat (ACPI_ROUND_UP_TO (BitLength f + ucast (StartFieldBitOffset f)) (ACPI_MUL_8 (ucast (AccessByteWidth f)))) = field_datums f"
    using w W one a st by (simp add: ACPI_ROUND_UP_TO_def unat_div unat_word_ariths field_datums_def W_def)
  show "unat (ACPI_MUL_8 (ucast (AccessByteWidth f)) - ucast (StartFieldBitOffset f)) = W - start f"
    using a st w by (subst unat_sub) (simp_all add: word_le_nat_alt)
  have "(field_datums f - 1) * W + W < 2 ^ 32" using fb(2) w W by simp
  moreover have "(field_datums f - 1) * W + W \<ge> field_datums f * W" by (cases "field_datums f") simp_all
  ultimately show "field_datums f * width f < 2 ^ 29" by (simp add: W_def)
qed

section \<open>Reading gets the bits of the field\<close>

definition separate :: "ptr \<Rightarrow> nat \<Rightarrow> ptr \<Rightarrow> nat \<Rightarrow> bool" where
  "separate a n b n' \<longleftrightarrow> (\<forall>i < n. \<forall>j < n'. a + of_nat i \<noteq> b + of_nat j)"

lemma ucast_of_nat_32 [simp]: "n < 2 ^ 32 \<Longrightarrow> ucast (of_nat n :: u32) = (of_nat n :: u64)"
  by (simp add: word_eq_unat unsigned_ucast_eq unsigned_of_nat take_bit_nat_eq_self)

lemma datum_read:
  assumes f: "buffer_field f" and d: "d < field_datums f"
  shows "\<exists>raw. AcpiExFieldDatumIo other f (of_nat (d * width f)) None s = (s, AE_OK, raw) \<and>
    (\<forall>j. bit raw j \<longleftrightarrow> j < 8 * width f \<and> bits_at (fmem s) (base f) (8 * width f * d + j))"
proof -
  have "d * width f \<le> field_datums f * width f" using d by (intro mult_le_mono) simp_all
  then have "d * width f < 2 ^ 29" using field_numbers(11) [OF f] by (rule order_le_less_trans)
  then have u: "d * width f < 2 ^ 32" by (rule order_less_le_trans) simp
  let ?raw = "load_le (width f) (fmem s) (base f + of_nat (d * width f)) :: u64"
  have "AcpiExFieldDatumIo other f (of_nat (d * width f)) None s = (s, AE_OK, ?raw)"
    using f u by (simp add: AcpiExFieldDatumIo_def buffer_field_def Let_def del: of_nat_mult)
  moreover have "bit ?raw j \<longleftrightarrow> j < 8 * width f \<and> bits_at (fmem s) (base f) (8 * width f * d + j)" for j
    using f unfolding bit_load_bits by (auto simp: buffer_field_def mult_ac)
  ultimately show ?thesis by blast
qed

lemma datum_size_eq:
  assumes off: "o' \<le> unat BufferLength"
  shows "datum_size f BufferLength (of_nat o') = min (width f) (unat BufferLength - o')"
proof -
  have "unat BufferLength < 2 ^ 32" by (rule order_less_le_trans [OF unsigned_less]) simp
  then have "o' < 2 ^ 32" using off by simp
  then have "unat (BufferLength - of_nat o') = unat BufferLength - o'"
    using off by (subst unat_sub) (simp_all add: word_le_nat_alt unsigned_of_nat take_bit_nat_eq_self)
  moreover have "unat (ucast (AccessByteWidth f) :: u32) = width f"
    using u8_bound [of "AccessByteWidth f"] by (simp add: unsigned_ucast_eq take_bit_nat_eq_self)
  ultimately show ?thesis by (auto simp: datum_size_def word_less_nat_alt)
qed

text \<open>What a store to the buffer does to the buffer, to the field and to the rest.\<close>

lemma put_datum_ok:
  assumes off: "o' \<le> unat BufferLength" and n: "n = min (width f) (unat BufferLength - o')"
    and s': "s' = put_datum f Buffer BufferLength (of_nat o') v s"
  shows "k < 8 * unat BufferLength \<Longrightarrow>
      bits_at (fmem s') Buffer k = (if 8 * o' \<le> k \<and> k < 8 * (o' + n) then bit v (k - 8 * o') else bits_at (fmem s) Buffer k)"
    and "separate a l Buffer (unat BufferLength) \<Longrightarrow> k < 8 * l \<Longrightarrow> bits_at (fmem s') a k = bits_at (fmem s) a k"
    and "(\<And>j. j < unat BufferLength \<Longrightarrow> x \<noteq> Buffer + of_nat j) \<Longrightarrow> fmem s' x = fmem s x"
    and "field_state.more s' = field_state.more s"
proof -
  have bl: "unat BufferLength < 2 ^ 32" by (rule order_less_le_trans [OF unsigned_less]) simp
  then have o32: "o' < 2 ^ 32" using off by simp
  have "datum_size f BufferLength (of_nat o') = n" unfolding n by (rule datum_size_eq [OF off])
  then have m: "fmem s' = store_le n (fmem s) (Buffer + of_nat o') v" and more: "field_state.more s' = field_state.more s"
    using s' o32 by (simp_all add: put_datum_def)
  show "field_state.more s' = field_state.more s" by (rule more)
  have le: "o' + n \<le> unat BufferLength" using n off by simp
  show "k < 8 * unat BufferLength \<Longrightarrow>
      bits_at (fmem s') Buffer k = (if 8 * o' \<le> k \<and> k < 8 * (o' + n) then bit v (k - 8 * o') else bits_at (fmem s) Buffer k)"
    unfolding m using bl le by (intro bits_store) simp_all
  show out: "fmem s' x = fmem s x" if "\<And>j. j < unat BufferLength \<Longrightarrow> x \<noteq> Buffer + of_nat j" for x
    unfolding m
  proof (rule store_outside)
    fix j assume "j < n"
    then show "x \<noteq> Buffer + of_nat o' + of_nat j" using that [of "o' + j"] le by (simp add: add.assoc)
  qed
  show "bits_at (fmem s') a k = bits_at (fmem s) a k" if "separate a l Buffer (unat BufferLength)" "k < 8 * l"
  proof (rule bits_outside)
    fix x assume "x = a + of_nat (k div 8)"
    then show "fmem s' x = fmem s x" using that by (intro out) (auto simp: separate_def less_mult_imp_div_less mult.commute)
  qed
qed

lemma extract_loop_ok:
  assumes f: "buffer_field f" and sep: "separate (base f) (field_datums f * width f) Buffer (unat BufferLength)"
    and len: "bits f \<le> 8 * unat BufferLength" and dc: "unat DatumCount = datums f"
  defines "W \<equiv> 8 * width f"
  assumes "d < datums f" "n = field_datums f - Suc d"
    and "\<forall>k < W * field_datums f. bits_at (fmem s) (base f) k = F k"
    and "\<forall>k < 8 * unat BufferLength. bits_at (fmem s) Buffer k \<longleftrightarrow> k < W * d \<and> F (start f + k)"
    and "\<forall>j. bit Merged j \<longleftrightarrow> j < W - start f \<and> F (W * d + start f + j)"
  shows "\<exists>s' M'. extract_loop other f Buffer BufferLength DatumCount n (of_nat (Suc d)) (of_nat (d * width f)) (of_nat (d * width f)) Merged s =
      (s', AE_OK, of_nat ((datums f - 1) * width f), M') \<and>
    (\<forall>k < 8 * unat BufferLength. bits_at (fmem s') Buffer k \<longleftrightarrow> k < W * (datums f - 1) \<and> F (start f + k)) \<and>
    (\<forall>j < W. j < bits f - W * (datums f - 1) \<longrightarrow> bit M' j = F (W * (datums f - 1) + start f + j)) \<and>
    (\<forall>x. (\<forall>j < unat BufferLength. x \<noteq> Buffer + of_nat j) \<longrightarrow> fmem s' x = fmem s x) \<and> field_state.more s' = field_state.more s"
  using assms(6-)
proof (induction n arbitrary: d s Merged)
  case 0
  note N = field_numbers [OF f, folded W_def]
  have d: "d = datums f - 1" "datums f = field_datums f" using 0 N(1-3) by linarith+
  have "bits f + start f \<le> W * d + W" using N(6) d N(1) by (cases "field_datums f") (simp_all add: algebra_simps)
  then have "j < W - start f" if "j < bits f - W * d" for j using that by linarith
  then have "bit Merged j = F (W * d + start f + j)" if "j < bits f - W * d" for j
    using 0(5) that by simp
  then show ?case using 0 d(1) by (intro exI [of _ s] exI [of _ Merged]) simp
next
  case (Suc n)
  note N = field_numbers [OF f, folded W_def]
  have w: "start f < W" "W \<le> 64" "0 < W" using f by (auto simp: buffer_field_def W_def)
  have d1: "Suc d < field_datums f" using Suc.prems(2) by simp
  obtain raw where raw: "AcpiExFieldDatumIo other f (of_nat (Suc d * width f)) None s = (s, AE_OK, raw)"
    "\<And>j. bit raw j \<longleftrightarrow> j < W \<and> bits_at (fmem s) (base f) (W * Suc d + j)"
    using datum_read [OF f d1, of other s] unfolding W_def by blast
  have rawF: "bit raw j \<longleftrightarrow> j < W \<and> F (W * Suc d + j)" for j
  proof (cases "j < W")
    case True
    then have "W * Suc d + j < W * Suc (Suc d)" by simp
    also have "\<dots> \<le> W * field_datums f" using d1 by (intro mult_le_mono2) simp
    finally show ?thesis using raw(2) Suc.prems(3) by simp
  qed (simp add: raw(2))
  define shift where "shift = ACPI_MUL_8 (ucast (AccessByteWidth f)) - ucast (StartFieldBitOffset f)"
  have shift: "unat shift = W - start f" using N(12) by (simp add: shift_def)
  define M1 where "M1 = (if shift < ACPI_INTEGER_BIT_SIZE then Merged OR push_bit (unat shift) raw else Merged)"
  have M1: "bit M1 j \<longleftrightarrow> F (W * d + start f + j)" if "j < W" for j
  proof (cases "j < W - start f")
    case True
    then show ?thesis using Suc.prems(5) by (auto simp: M1_def bit_simps shift)
  next
    case False
    then have lt: "shift < ACPI_INTEGER_BIT_SIZE" using that w by (simp add: word_less_nat_alt shift ACPI_INTEGER_BIT_SIZE_def)
    have "W * Suc d + (j - (W - start f)) = W * d + start f + j" using False w by simp
    moreover have "\<not> bit Merged j" using Suc.prems(5) False by simp
    moreover have "bit (push_bit (W - start f) raw) j \<longleftrightarrow> bit raw (j - (W - start f))"
      using False that w(2) by (simp add: bit_push_bit_iff)
    moreover have "j - (W - start f) < W" using that by simp
    ultimately show ?thesis using lt rawF [of "j - (W - start f)"] by (simp add: M1_def bit_or_iff shift add_ac)
  qed
  have off: "of_nat (d * width f) + ucast (AccessByteWidth f) = (of_nat (Suc d * width f) :: u32)"
  proof -
    have "ucast (AccessByteWidth f) = (of_nat (width f) :: u32)" by (metis of_nat_unat)
    then show ?thesis by (simp add: add.commute)
  qed
  have i: "of_nat (Suc d) = DatumCount \<longleftrightarrow> Suc d = datums f"
  proof -
    have "unat DatumCount < 2 ^ 32" by (rule order_less_le_trans [OF unsigned_less]) simp
    then have "Suc d < 2 ^ 32" using Suc.prems(1) dc by linarith
    then show ?thesis by (simp add: word_eq_unat dc unsigned_of_nat take_bit_nat_eq_self del: of_nat_Suc)
  qed
  have step: "extract_loop other f Buffer BufferLength DatumCount (Suc n) (of_nat (Suc d)) (of_nat (d * width f)) (of_nat (d * width f)) Merged s =
    (if Suc d = datums f then (s, AE_OK, of_nat (d * width f), M1)
     else extract_loop other f Buffer BufferLength DatumCount n (of_nat (Suc (Suc d))) (of_nat (Suc d * width f)) (of_nat (Suc d * width f))
            (drop_bit (start f) raw) (put_datum f Buffer BufferLength (of_nat (d * width f)) M1 s))"
  proof -
    have "(of_nat (Suc d) + 1 :: u32) = of_nat (Suc (Suc d))" "\<not> ACPI_FAILURE AE_OK" by (simp_all add: ACPI_FAILURE_def AE_OK_def)
    then show ?thesis
      unfolding extract_loop.simps Let_def off raw(1) prod.case i shift_def [symmetric] M1_def [symmetric] by (simp only: if_False)
  qed
  show ?case
  proof (cases "Suc d = datums f")
    case True
    then have "d = datums f - 1" by simp
    then show ?thesis using step True M1 Suc.prems(4) by (intro exI [of _ s] exI [of _ M1]) simp
  next
    case False
    then have d2: "Suc d < datums f" using Suc.prems(1) by simp
    have "W * Suc d \<le> W * (datums f - 1)" using d2 by (intro mult_le_mono2) simp
    then have room: "W * Suc d < 8 * unat BufferLength" using N(5) len by (simp add: mult.commute)
    define s1 where "s1 = put_datum f Buffer BufferLength (of_nat (d * width f)) M1 s"
    have le: "d * width f \<le> unat BufferLength" and full: "width f = min (width f) (unat BufferLength - d * width f)"
      using room by (simp_all add: W_def algebra_simps)
    note P = put_datum_ok [OF le full s1_def]
    have F1: "\<forall>k < W * field_datums f. bits_at (fmem s1) (base f) k = F k"
      using P(2) [OF sep] Suc.prems(3) by (simp add: W_def mult_ac)
    have B1: "\<forall>k < 8 * unat BufferLength. bits_at (fmem s1) Buffer k \<longleftrightarrow> k < W * Suc d \<and> F (start f + k)"
    proof (intro allI impI)
      fix k assume k: "k < 8 * unat BufferLength"
      have e: "8 * (d * width f) = W * d" "8 * (d * width f + width f) = W * Suc d" by (simp_all add: W_def algebra_simps)
      show "bits_at (fmem s1) Buffer k \<longleftrightarrow> k < W * Suc d \<and> F (start f + k)"
      proof (cases "W * d \<le> k \<and> k < W * Suc d")
        case True
        then have "k - W * d < W" "W * d + start f + (k - W * d) = start f + k" by (simp_all add: less_diff_conv2 add.commute)
        then have "bit M1 (k - W * d) = F (start f + k)" using M1 [of "k - W * d"] by simp
        then show ?thesis using P(1) [OF k] True unfolding e by simp
      next
        case False
        have "W * d \<le> W * Suc d" by simp
        then have "k < W * Suc d \<longleftrightarrow> k < W * d" using False by linarith
        then show ?thesis using P(1) [OF k] False Suc.prems(4) k unfolding e by auto
      qed
    qed
    have M2: "\<forall>j. bit (drop_bit (start f) raw) j \<longleftrightarrow> j < W - start f \<and> F (W * Suc d + start f + j)"
      by (auto simp: bit_simps rawF add.assoc)
    obtain s' M' where R: "extract_loop other f Buffer BufferLength DatumCount n (of_nat (Suc (Suc d))) (of_nat (Suc d * width f))
        (of_nat (Suc d * width f)) (drop_bit (start f) raw) s1 = (s', AE_OK, of_nat ((datums f - 1) * width f), M')"
      "\<forall>k < 8 * unat BufferLength. bits_at (fmem s') Buffer k \<longleftrightarrow> k < W * (datums f - 1) \<and> F (start f + k)"
      "\<forall>j < W. j < bits f - W * (datums f - 1) \<longrightarrow> bit M' j = F (W * (datums f - 1) + start f + j)"
      "\<forall>x. (\<forall>j < unat BufferLength. x \<noteq> Buffer + of_nat j) \<longrightarrow> fmem s' x = fmem s1 x" "field_state.more s' = field_state.more s1"
    proof -
      have "n = field_datums f - Suc (Suc d)" using Suc.prems(2) by simp
      from Suc.IH [OF d2 this F1 B1 M2] show ?thesis using that by blast
    qed
    have "field_state.more s' = field_state.more s" using P(4) R(5) by simp
    then show ?thesis using step False R(1-4) P(3) s1_def by (intro exI [of _ s'] exI [of _ M']) simp
  qed
qed

lemma memset_at: "fits a (unat n) \<Longrightarrow> memset m a v n x = (if unat (x - a) < unat n then ucast v else m x)"
  using mem_set_block [of a n m "ucast v" x] by (simp add: memset_def mem_set_def memset_set)

lemma unat_diff_outside: "(\<And>j. j < n \<Longrightarrow> x \<noteq> a + of_nat j) \<Longrightarrow> \<not> unat (x - a) < n" for x a :: u64
  by (metis add.commute diff_add_cancel of_nat_unat ucast_id)

lemma memset_bits:
  assumes "fits Buffer (unat n)"
  shows "k < 8 * unat n \<Longrightarrow> \<not> bits_at (memset m Buffer 0 n) Buffer k"
    and "(\<And>j. j < unat n \<Longrightarrow> x \<noteq> Buffer + of_nat j) \<Longrightarrow> memset m Buffer 0 n x = m x"
    and "separate a l Buffer (unat n) \<Longrightarrow> k < 8 * l \<Longrightarrow> bits_at (memset m Buffer 0 n) a k = bits_at m a k"
proof -
  show "\<not> bits_at (memset m Buffer 0 n) Buffer k" if "k < 8 * unat n"
  proof -
    have "k div 8 < unat n" using that by (simp add: less_mult_imp_div_less mult.commute)
    moreover from this have "unat (of_nat (k div 8) :: u64) = k div 8"
      using unat_lt64 [of n] by (simp add: unsigned_of_nat take_bit_nat_eq_self)
    ultimately show ?thesis by (simp add: bits_at_def memset_at [OF assms])
  qed
  show out: "memset m Buffer 0 n x = m x" if "\<And>j. j < unat n \<Longrightarrow> x \<noteq> Buffer + of_nat j" for x
    using unat_diff_outside [OF that] by (simp add: memset_at [OF assms])
  show "bits_at (memset m Buffer 0 n) a k = bits_at m a k" if "separate a l Buffer (unat n)" "k < 8 * l"
  proof (rule bits_outside)
    fix x assume "x = a + of_nat (k div 8)"
    then show "memset m Buffer 0 n x = m x" using that by (intro out) (auto simp: separate_def less_mult_imp_div_less mult.commute)
  qed
qed

lemma round_bits: "bits f < 2 ^ 31 \<Longrightarrow> unat (ACPI_ROUND_BITS_UP_TO_BYTES (BitLength f)) = (bits f + 7) div 8"
  by (simp add: ACPI_ROUND_BITS_UP_TO_BYTES_def ACPI_DIV_8_def drop_bit_eq_div unat_div unat_word_ariths)

text \<open>The result of reading: the bits of the field, then zeros to the end of the buffer, and nothing else is written.\<close>

definition extracted :: "field_object \<Rightarrow> ptr \<Rightarrow> u32 \<Rightarrow> 'a field_state_scheme \<Rightarrow> 'a field_state_scheme \<Rightarrow> bool" where
  "extracted f Buffer BufferLength s s' \<longleftrightarrow>
     (\<forall>k < 8 * unat BufferLength. bits_at (fmem s') Buffer k \<longleftrightarrow> k < bits f \<and> bits_at (fmem s) (base f) (start f + k)) \<and>
     (\<forall>x. (\<forall>j < unat BufferLength. x \<noteq> Buffer + of_nat j) \<longrightarrow> fmem s' x = fmem s x) \<and> field_state.more s' = field_state.more s"

text \<open>A field that is one whole datum is copied at once.\<close>

lemma extract_whole:
  assumes f: "buffer_field f" and sep: "separate (base f) (width f) Buffer (unat BufferLength)"
    and len: "bits f \<le> 8 * unat BufferLength" and whole: "start f = 0" "bits f = 8 * width f"
    and fit: "fits Buffer (unat BufferLength)"
  shows "\<exists>s'. AcpiExExtractFromField other f Buffer BufferLength s = (s', f, AE_OK) \<and> extracted f Buffer BufferLength s s'"
proof -
  let ?s1 = "s\<lparr>fmem := memset (fmem s) Buffer 0 (ucast BufferLength)\<rparr>"
  have L: "unat (ucast BufferLength :: u64) = unat BufferLength"
    by (simp add: unsigned_ucast_eq take_bit_nat_eq_self order_less_le_trans [OF unsigned_less])
  note Z = memset_bits [of Buffer "ucast BufferLength", unfolded L, OF fit, where m = "fmem s"]
  have "0 < field_datums f" using field_numbers(1,2) [OF f] by linarith
  then obtain raw where raw: "AcpiExFieldDatumIo other f 0 None ?s1 = (?s1, AE_OK, raw)"
    "\<And>j. bit raw j \<longleftrightarrow> j < 8 * width f \<and> bits_at (fmem ?s1) (base f) j"
    using datum_read [OF f, of 0 other ?s1] by auto
  have rawF: "bit raw j \<longleftrightarrow> j < bits f \<and> bits_at (fmem s) (base f) j" for j
    using raw(2) [of j] Z(3) [OF sep] whole by (auto simp: mult.commute)
  define n where "n = (if BufferLength \<ge> 8 then 8 else unat BufferLength)"
  have n: "n \<le> unat BufferLength" "bits f \<le> 8 * n"
    using len whole f by (auto simp: n_def word_le_nat_alt buffer_field_def)
  define s' where "s' = s\<lparr>fmem := store_le n (fmem ?s1) Buffer raw\<rparr>"
  have r: "\<not> BufferLength < ACPI_ROUND_BITS_UP_TO_BYTES (BitLength f)"
    using round_bits [of f] f len by (auto simp: word_less_nat_alt buffer_field_def)
  have "BitLength f = ACPI_MUL_8 (ucast (AccessByteWidth f))" "StartFieldBitOffset f = 0"
    using field_numbers(8) [OF f] whole by (simp_all add: word_eq_unat)
  then have "AcpiExExtractFromField other f Buffer BufferLength s = (s', f, AE_OK)"
    using r raw(1) by (simp add: AcpiExExtractFromField_def s'_def n_def Let_def)
  moreover have "bits_at (fmem s') Buffer k \<longleftrightarrow> k < bits f \<and> bits_at (fmem s) (base f) k" if k: "k < 8 * unat BufferLength" for k
  proof -
    have "unat BufferLength < 2 ^ 32" by (rule order_less_le_trans [OF unsigned_less]) simp
    then have "bits_at (fmem s') Buffer k = (if k < 8 * n then bit raw k else bits_at (fmem ?s1) Buffer k)"
      using bits_store [of k 0 n "fmem ?s1" Buffer raw] k n(1) by (simp add: s'_def)
    then show ?thesis using rawF [of k] Z(1) [OF k] n(2) by auto
  qed
  moreover have "fmem s' x = fmem s x" if x: "\<And>j. j < unat BufferLength \<Longrightarrow> x \<noteq> Buffer + of_nat j" for x
  proof -
    have "fmem s' x = fmem ?s1 x" using x n(1) unfolding s'_def by (simp add: store_outside)
    then show ?thesis using Z(2) [OF x] by simp
  qed
  ultimately show ?thesis using whole(1) by (intro exI [of _ s']) (simp add: extracted_def s'_def)
qed

lemma bit_masks:
  "bit (ACPI_MASK_BITS_ABOVE t) j \<longleftrightarrow> j < 64 \<and> j < unat t"
  "bit (ACPI_MASK_BITS_BELOW t) j \<longleftrightarrow> j < 64 \<and> unat t \<le> j"
  by (auto simp: ACPI_MASK_BITS_ABOVE_def ACPI_MASK_BITS_BELOW_def bit_simps)

lemma tail_bits:
  fixes L W D :: nat
  assumes "(D - 1) * W < L" "L \<le> D * W" "0 < D"
  shows "L - W * (D - 1) \<le> W" "L mod W = (if L = D * W then 0 else L - W * (D - 1))"
proof -
  have e: "D * W = W * (D - 1) + W" using assms(3) by (cases D) simp_all
  then show "L - W * (D - 1) \<le> W" using assms by simp
  show "L mod W = (if L = D * W then 0 else L - W * (D - 1))"
  proof (cases "L = D * W")
    case False
    then have "L - W * (D - 1) < W" "L = W * (D - 1) + (L - W * (D - 1))" using assms e by (simp_all add: mult.commute)
    then have "L mod W = L - W * (D - 1)" by (metis mod_less mod_mult_self4 mult.commute)
    then show ?thesis using False by simp
  qed simp
qed

lemma separate_mono: "separate a n b k \<Longrightarrow> m \<le> n \<Longrightarrow> separate a m b k"
  unfolding separate_def by auto

text \<open>The last datum, with what is beyond the field cut off.\<close>

lemma extract_last:
  assumes f: "buffer_field f" and len: "bits f \<le> 8 * unat BufferLength"
  defines "W \<equiv> 8 * width f" and "o' \<equiv> (datums f - 1) * width f"
  assumes B: "\<forall>k < 8 * unat BufferLength. bits_at (fmem s) Buffer k \<longleftrightarrow> k < W * (datums f - 1) \<and> F k"
    and M: "\<forall>j < W. j < bits f - W * (datums f - 1) \<longrightarrow> bit M j = F (W * (datums f - 1) + j)"
  defines "tail \<equiv> BitLength f mod ACPI_MUL_8 (ucast (AccessByteWidth f))"
  defines "s' \<equiv> put_datum f Buffer BufferLength (of_nat o') (if tail \<noteq> 0 then M AND ACPI_MASK_BITS_ABOVE tail else M) s"
  assumes k: "k < 8 * unat BufferLength"
  shows "bits_at (fmem s') Buffer k \<longleftrightarrow> k < bits f \<and> F k"
proof -
  note N = field_numbers [OF f, folded W_def]
  let ?M = "if tail \<noteq> 0 then M AND ACPI_MASK_BITS_ABOVE tail else M"
  have eo: "8 * o' = W * (datums f - 1)" by (simp add: o'_def W_def)
  have le: "o' \<le> unat BufferLength" using N(5) len eo by (simp add: mult.commute)
  define n where "n = min (width f) (unat BufferLength - o')"
  note P = put_datum_ok(1) [OF le n_def s'_def [THEN meta_eq_to_obj_eq] k]
  have tail: "unat tail = bits f mod W" by (simp add: tail_def unat_mod N(8))
  note T = tail_bits [OF N(5,4,1)]
  have "W \<le> 64" using f by (auto simp: buffer_field_def W_def)
  have MF: "bit ?M j \<longleftrightarrow> j < bits f - W * (datums f - 1) \<and> F (W * (datums f - 1) + j)" if "j < W" for j
  proof (cases "bits f = datums f * W")
    case True
    then have "bits f - W * (datums f - 1) = W" using N(1) by (cases "datums f") simp_all
    moreover have "tail = 0" using True tail T(2) by (simp add: word_eq_unat)
    ultimately show ?thesis using M that by simp
  next
    case False
    then have t: "unat tail = bits f - W * (datums f - 1)" using tail T(2) by simp
    then have "tail \<noteq> 0" using N(5) by (auto simp: word_eq_unat mult.commute)
    then show ?thesis using M that t \<open>W \<le> 64\<close> by (auto simp: bit_and_iff bit_masks)
  qed
  show ?thesis
  proof (cases "8 * o' \<le> k \<and> k < 8 * (o' + n)")
    case True
    then have "k - 8 * o' < 8 * n" by (simp add: less_diff_conv2 algebra_simps)
    moreover have "8 * n \<le> W" by (simp add: n_def W_def)
    ultimately have "k - 8 * o' < W" by (rule order_less_le_trans)
    then show ?thesis using P True MF [of "k - 8 * o'"] eo by auto
  next
    case False
    have "\<not> k < W * (datums f - 1) \<Longrightarrow> bits f \<le> k"
    proof -
      assume "\<not> k < W * (datums f - 1)"
      then have "n = width f" "8 * (o' + n) \<le> k" using False k eo by (auto simp: n_def min_def split: if_splits)
      moreover have "datums f * W = 8 * (o' + width f)" using eo N(1) by (cases "datums f") (simp_all add: W_def algebra_simps)
      ultimately show "bits f \<le> k" using N(4) by simp
    qed
    moreover have "k < W * (datums f - 1) \<Longrightarrow> k < bits f" using N(5) by (simp add: mult.commute)
    ultimately show ?thesis using P False B k by auto
  qed
qed

lemma extract_ok:
  assumes f: "buffer_field f" and sep: "separate (base f) (field_datums f * width f) Buffer (unat BufferLength)"
    and len: "bits f \<le> 8 * unat BufferLength" and fit: "fits Buffer (unat BufferLength)"
  shows "\<exists>s'. AcpiExExtractFromField other f Buffer BufferLength s = (s', f, AE_OK) \<and> extracted f Buffer BufferLength s s'"
proof (cases "start f = 0 \<and> bits f = 8 * width f")
  case True
  have "width f \<le> field_datums f * width f" using field_numbers(1,2) [OF f] by simp
  then show ?thesis using extract_whole [OF f separate_mono [OF sep] len _ _ fit] True by simp
next
  case False
  let ?s1 = "s\<lparr>fmem := memset (fmem s) Buffer 0 (ucast BufferLength)\<rparr>" and ?W = "8 * width f"
  let ?DC = "ACPI_ROUND_UP_TO (BitLength f) (ACPI_MUL_8 (ucast (AccessByteWidth f)))"
  define F where "F = (\<lambda>k. bits_at (fmem s) (base f) k)"
  note N = field_numbers [OF f]
  have L: "unat (ucast BufferLength :: u64) = unat BufferLength"
    by (simp add: unsigned_ucast_eq take_bit_nat_eq_self order_less_le_trans [OF unsigned_less])
  note Z = memset_bits [of Buffer "ucast BufferLength", unfolded L, OF fit, where m = "fmem s"]
  have "0 < field_datums f" using N(1,2) by linarith
  then obtain raw where raw: "AcpiExFieldDatumIo other f 0 None ?s1 = (?s1, AE_OK, raw)"
    "\<And>j. bit raw j \<longleftrightarrow> j < ?W \<and> bits_at (fmem ?s1) (base f) j"
    using datum_read [OF f, of 0 other ?s1] by auto
  have F1: "\<forall>k < ?W * field_datums f. bits_at (fmem ?s1) (base f) k = F k"
    using Z(3) [OF sep] by (simp add: F_def mult_ac)
  have "?W \<le> ?W * field_datums f" using \<open>0 < field_datums f\<close> by simp
  then have M1: "\<forall>j. bit (drop_bit (start f) raw) j \<longleftrightarrow> j < ?W - start f \<and> F (?W * 0 + start f + j)"
  proof -
    have F0: "bits_at (fmem ?s1) (base f) j = F j" if "j < ?W" for j
      using F1 \<open>?W \<le> ?W * field_datums f\<close> that by (meson order_less_le_trans)
    show ?thesis using F0 by (auto simp: bit_drop_bit_eq raw(2) less_diff_conv add.commute)
  qed
  have B1: "\<forall>k < 8 * unat BufferLength. bits_at (fmem ?s1) Buffer k \<longleftrightarrow> k < ?W * 0 \<and> F (start f + k)"
    using Z(1) by simp
  from extract_loop_ok [OF f sep len N(9) N(1) refl F1 B1 M1, of other]
  obtain s2 M where R: "extract_loop other f Buffer BufferLength ?DC (field_datums f - 1) 1 0 0 (drop_bit (start f) raw) ?s1 =
      (s2, AE_OK, of_nat ((datums f - 1) * width f), M)"
    "\<forall>k < 8 * unat BufferLength. bits_at (fmem s2) Buffer k \<longleftrightarrow> k < ?W * (datums f - 1) \<and> F (start f + k)"
    "\<forall>j < ?W. j < bits f - ?W * (datums f - 1) \<longrightarrow> bit M j = F (start f + (?W * (datums f - 1) + j))"
    "\<forall>x. (\<forall>j < unat BufferLength. x \<noteq> Buffer + of_nat j) \<longrightarrow> fmem s2 x = fmem ?s1 x"
    "field_state.more s2 = field_state.more ?s1"
    by (auto simp: add_ac)
  define tail where "tail = BitLength f mod ACPI_MUL_8 (ucast (AccessByteWidth f))"
  define s' where "s' = put_datum f Buffer BufferLength (of_nat ((datums f - 1) * width f))
    (if tail \<noteq> 0 then M AND ACPI_MASK_BITS_ABOVE tail else M) s2"
  have le: "(datums f - 1) * width f \<le> unat BufferLength" using N(5) len by simp
  note P = put_datum_ok [OF le refl s'_def]
  have r: "\<not> BufferLength < ACPI_ROUND_BITS_UP_TO_BYTES (BitLength f)"
    using round_bits [of f] f len by (auto simp: word_less_nat_alt buffer_field_def)
  have ne: "\<not> (StartFieldBitOffset f = 0 \<and> BitLength f = ACPI_MUL_8 (ucast (AccessByteWidth f)))"
    using False N(8) by auto
  have st: "unat (ucast (StartFieldBitOffset f) :: u32) = start f"
    using u8_bound [of "StartFieldBitOffset f"] by (simp add: unsigned_ucast_eq take_bit_nat_eq_self)
  have "AcpiExExtractFromField other f Buffer BufferLength s = (s', f, AE_OK)"
    unfolding AcpiExExtractFromField_def buffer_field_limit [OF f] Let_def raw(1) prod.case st N(10) R(1) if_not_P [OF r] if_not_P [OF ne]
    by (simp add: ACPI_FAILURE_def AE_OK_def s'_def tail_def)
  moreover have "bits_at (fmem s') Buffer k \<longleftrightarrow> k < bits f \<and> F (start f + k)" if "k < 8 * unat BufferLength" for k
    unfolding s'_def tail_def by (rule extract_last [OF f len R(2,3) that])
  moreover have "fmem s' x = fmem s x" if x: "\<forall>j < unat BufferLength. x \<noteq> Buffer + of_nat j" for x
    using P(3) [of x] R(4) Z(2) [of x] x by simp
  moreover have "field_state.more s' = field_state.more s" using P(4) R(5) by simp
  ultimately show ?thesis by (intro exI [of _ s']) (simp add: extracted_def F_def)
qed

section \<open>Writing sets the bits of the field and no others\<close>

definition preserving :: "field_object \<Rightarrow> bool" where
  "preserving f \<longleftrightarrow> FieldFlags f AND AML_FIELD_UPDATE_RULE_MASK = AML_FIELD_UPDATE_PRESERVE"

lemma datum_write:
  assumes f: "buffer_field f" and d: "d < field_datums f"
  shows "AcpiExFieldDatumIo other f (of_nat (d * width f)) (Some v) s =
    (s\<lparr>fmem := store_le (width f) (fmem s) (base f + of_nat (d * width f)) v\<rparr>, AE_OK, v)"
proof -
  have "d * width f \<le> field_datums f * width f" using d by (intro mult_le_mono) simp_all
  then have "d * width f < 2 ^ 29" using field_numbers(11) [OF f] by (rule order_le_less_trans)
  then have "d * width f < 2 ^ 32" by (rule order_less_le_trans) simp
  then show ?thesis using f by (simp add: AcpiExFieldDatumIo_def buffer_field_def Let_def del: of_nat_mult)
qed

text \<open>The value that is written: new bits under the mask, old bits beside it.\<close>

lemma write_rule_value:
  assumes f: "buffer_field f" and p: "preserving f" and d: "d < field_datums f"
  defines "W \<equiv> 8 * width f"
  assumes mv: "\<And>j. bit v j \<Longrightarrow> bit Mask j" "\<And>j. bit Mask j \<Longrightarrow> j < W"
  shows "\<exists>v' :: u64. AcpiExWriteWithUpdateRule other f Mask v (of_nat (d * width f)) s =
      (s\<lparr>fmem := store_le (width f) (fmem s) (base f + of_nat (d * width f)) v'\<rparr>, AE_OK) \<and>
    (\<forall>j < W. bit v' j = (if bit Mask j then bit v j else bits_at (fmem s) (base f) (W * d + j)))"
proof -
  note wr = datum_write [OF f d, where other = other and s = s]
  have W: "W \<le> 64" using f by (auto simp: buffer_field_def W_def)
  have shift: "unat (ACPI_MUL_8 8 - ACPI_MUL_8 (ucast (AccessByteWidth f))) = 64 - W"
    using field_numbers(8) [OF f] W by (subst unat_sub) (simp_all add: ACPI_MUL_8_def word_le_nat_alt W_def)
  show ?thesis
  proof (cases "Mask = 0xFFFFFFFFFFFFFFFF \<or> push_bit (64 - W) (NOT Mask) = 0")
    case True
    have "bit Mask j" if "j < W" for j
      using True
    proof
      assume "Mask = 0xFFFFFFFFFFFFFFFF"
      then have "Mask = - 1" by simp
      then show ?thesis using that W by (simp only: bit_minus_1_iff) simp
    next
      assume "push_bit (64 - W) (NOT Mask) = 0"
      then have "\<not> bit (push_bit (64 - W) (NOT Mask)) (64 - W + j)" by simp
      then show ?thesis using that W by (auto simp: bit_simps)
    qed
    moreover have "AcpiExWriteWithUpdateRule other f Mask v (of_nat (d * width f)) s =
        (s\<lparr>fmem := store_le (width f) (fmem s) (base f + of_nat (d * width f)) v\<rparr>, AE_OK)"
      using True p wr by (auto simp: AcpiExWriteWithUpdateRule_def Let_def shift preserving_def)
    ultimately show ?thesis by (intro exI [of _ v]) simp
  next
    case False
    obtain raw where raw: "AcpiExFieldDatumIo other f (of_nat (d * width f)) None s = (s, AE_OK, raw)"
      "\<And>j. bit raw j \<longleftrightarrow> j < W \<and> bits_at (fmem s) (base f) (W * d + j)"
      using datum_read [OF f d, of other s] unfolding W_def by blast
    have "AcpiExWriteWithUpdateRule other f Mask v (of_nat (d * width f)) s =
        (s\<lparr>fmem := store_le (width f) (fmem s) (base f + of_nat (d * width f)) (v OR (raw AND NOT Mask))\<rparr>, AE_OK)"
      using False p wr raw(1) by (simp add: AcpiExWriteWithUpdateRule_def Let_def shift preserving_def ACPI_FAILURE_def AE_OK_def)
    moreover have "bit (v OR (raw AND NOT Mask)) j = (if bit Mask j then bit v j else bits_at (fmem s) (base f) (W * d + j))"
      if "j < W" for j
      using that W mv(1) [of j] by (auto simp: bit_simps raw(2))
    ultimately show ?thesis by blast
  qed
qed

lemma write_rule_ok:
  assumes f: "buffer_field f" and p: "preserving f" and d: "d < field_datums f"
  defines "W \<equiv> 8 * width f"
  assumes mv: "\<And>j. bit v j \<Longrightarrow> bit Mask j" "\<And>j. bit Mask j \<Longrightarrow> j < W"
  shows "\<exists>s'. AcpiExWriteWithUpdateRule other f Mask v (of_nat (d * width f)) s = (s', AE_OK) \<and>
    (\<forall>k < W * field_datums f. bits_at (fmem s') (base f) k =
       (if W * d \<le> k \<and> bit Mask (k - W * d) then bit v (k - W * d) else bits_at (fmem s) (base f) k)) \<and>
    (\<forall>x. (\<forall>j < field_datums f * width f. x \<noteq> base f + of_nat j) \<longrightarrow> fmem s' x = fmem s x) \<and>
    field_state.more s' = field_state.more s"
proof -
  obtain v' :: u64 where v': "AcpiExWriteWithUpdateRule other f Mask v (of_nat (d * width f)) s =
      (s\<lparr>fmem := store_le (width f) (fmem s) (base f + of_nat (d * width f)) v'\<rparr>, AE_OK)"
    "\<And>j. j < W \<Longrightarrow> bit v' j = (if bit Mask j then bit v j else bits_at (fmem s) (base f) (W * d + j))"
    using write_rule_value [OF f p d, folded W_def, of v Mask other s] mv by blast
  let ?m = "store_le (width f) (fmem s) (base f + of_nat (d * width f)) v'"
  have span: "d * width f + width f \<le> field_datums f * width f"
    using mult_le_mono1 [of "Suc d" "field_datums f" "width f"] d by (simp add: add.commute)
  have lim: "field_datums f * width f < 2 ^ 29" by (rule field_numbers(11) [OF f])
  have b: "bits_at ?m (base f) k = (if W * d \<le> k \<and> bit Mask (k - W * d) then bit v (k - W * d) else bits_at (fmem s) (base f) k)"
    if k: "k < W * field_datums f" for k
  proof -
    have "W * field_datums f = 8 * (field_datums f * width f)" by (simp add: W_def)
    with k have "k < 8 * (field_datums f * width f)" by metis
    also have "\<dots> < 8 * 2 ^ 29" using lim by simp
    finally have k2: "k < 2 ^ 62" by simp
    have "d * width f + width f \<le> 2 ^ 60" using span lim by simp
    note S = bits_store [OF k2 this, where m = "fmem s" and p = "base f" and v = v']
    have e: "8 * (d * width f) = W * d" "8 * (d * width f + width f) = W * d + W" by (simp_all add: W_def)
    show ?thesis
    proof (cases "W * d \<le> k \<and> k < W * d + W")
      case True
      then have "k - W * d < W" by (simp add: less_diff_conv2 add.commute)
      then show ?thesis using S True v'(2) [of "k - W * d"] unfolding e by simp
    next
      case False
      then have nb: "\<not> (W * d \<le> k \<and> bit Mask (k - W * d))" using mv(2) [of "k - W * d"] by (auto simp: less_diff_conv2 add.commute)
      show ?thesis unfolding if_not_P [OF nb] using S False unfolding e by simp
    qed
  qed
  have out: "?m x = fmem s x" if "\<forall>j < field_datums f * width f. x \<noteq> base f + of_nat j" for x
  proof (rule store_outside)
    fix j assume "j < width f"
    then have "d * width f + j < field_datums f * width f" using span by simp
    then have "x \<noteq> base f + of_nat (d * width f + j)" using that by blast
    then show "x \<noteq> base f + of_nat (d * width f) + of_nat j" unfolding of_nat_add add.assoc .
  qed
  have more: "fmem (s\<lparr>fmem := ?m\<rparr>) = ?m" "field_state.more (s\<lparr>fmem := ?m\<rparr>) = field_state.more s" by simp_all
  show ?thesis unfolding v'(1)
    by (intro exI [of _ "s\<lparr>fmem := ?m\<rparr>"] conjI allI impI) (simp_all only: more b out)
qed

text \<open>The bits of the datum read from the buffer.\<close>

lemma get_datum_ok:
  assumes off: "o' \<le> unat BufferLength" and B: "\<forall>k < 8 * unat BufferLength. bits_at (fmem s) Buffer k = D k"
    and raw: "\<forall>j. bit raw j \<longrightarrow> j < 8 * width f" and w: "width f \<le> 8"
  shows "j < 8 * width f \<Longrightarrow> 8 * o' + j < 8 * unat BufferLength \<Longrightarrow>
      bit (get_datum f Buffer BufferLength (of_nat o') raw s) j = D (8 * o' + j)"
    and "bit (get_datum f Buffer BufferLength (of_nat o') raw s) j \<Longrightarrow> j < 8 * width f"
proof -
  have "unat BufferLength < 2 ^ 32" by (rule order_less_le_trans [OF unsigned_less]) simp
  then have o32: "o' < 2 ^ 32" using off by simp
  define n where "n = min (width f) (unat BufferLength - o')"
  have b: "bit (get_datum f Buffer BufferLength (of_nat o') raw s) j \<longleftrightarrow>
      j < 64 \<and> j < 8 * n \<and> bits_at (fmem s) Buffer (8 * o' + j) \<or> bit raw j \<and> 8 * n \<le> j" for j
    using o32 unfolding get_datum_def datum_size_eq [OF off] n_def [symmetric]
    by (auto simp: Let_def bit_or_iff bit_and_iff bit_not_iff bit_mask_iff bit_load_bits dest: bit_imp_le_length)
  have n: "n \<le> width f" by (simp add: n_def)
  show "bit (get_datum f Buffer BufferLength (of_nat o') raw s) j = D (8 * o' + j)"
    if "j < 8 * width f" "8 * o' + j < 8 * unat BufferLength"
  proof -
    have "j < 8 * n" using that by (auto simp: n_def min_def)
    then show ?thesis using b [of j] B that w by simp
  qed
  show "bit (get_datum f Buffer BufferLength (of_nat o') raw s) j \<Longrightarrow> j < 8 * width f"
    using b [of j] n raw by auto
qed

text \<open>
  Before the datum \<open>d\<close> is written: the bits before it are in place, \<open>Raw\<close> is the datum \<open>d\<close> of the buffer
  and \<open>Merged\<close> has the bits for the datum \<open>d\<close> of the field.
\<close>

definition inserting ::
  "field_object \<Rightarrow> ptr \<Rightarrow> u32 \<Rightarrow> (nat \<Rightarrow> bool) \<Rightarrow> (nat \<Rightarrow> bool) \<Rightarrow> nat \<Rightarrow> u64 \<Rightarrow> u64 \<Rightarrow> 'a field_state_scheme \<Rightarrow> bool" where
  "inserting f Buffer BufferLength D F d Merged Mask s \<longleftrightarrow> (let W = 8 * width f in
     (\<forall>k < 8 * unat BufferLength. bits_at (fmem s) Buffer k = D k) \<and>
     (\<forall>k < W * field_datums f. bits_at (fmem s) (base f) k = (if start f \<le> k \<and> k < W * d then D (k - start f) else F k)) \<and>
     (\<forall>j < W. start f \<le> W * d + j \<and> W * d + j < start f + bits f \<longrightarrow> bit Merged j = D (W * d + j - start f)) \<and>
     (\<forall>j. bit Mask j \<longleftrightarrow> j < W \<and> start f \<le> W * d + j))"

definition raw_datum :: "field_object \<Rightarrow> u32 \<Rightarrow> (nat \<Rightarrow> bool) \<Rightarrow> nat \<Rightarrow> u64 \<Rightarrow> bool" where
  "raw_datum f BufferLength D d Raw \<longleftrightarrow> (let W = 8 * width f in
     (\<forall>j < W. W * d + j < 8 * unat BufferLength \<longrightarrow> bit Raw j = D (W * d + j)) \<and> (\<forall>j. bit Raw j \<longrightarrow> j < W))"

text \<open>Writing the datum.\<close>

lemma insert_write:
  assumes f: "buffer_field f" and p: "preserving f" and d: "Suc d < field_datums f"
    and sep: "separate Buffer (unat BufferLength) (base f) (field_datums f * width f)"
    and I: "inserting f Buffer BufferLength D F d Merged Mask s"
  defines "W \<equiv> 8 * width f"
  shows "\<exists>s'. AcpiExWriteWithUpdateRule other f Mask (Merged AND Mask) (of_nat (d * width f)) s = (s', AE_OK) \<and>
    (\<forall>k < 8 * unat BufferLength. bits_at (fmem s') Buffer k = D k) \<and>
    (\<forall>k < W * field_datums f. bits_at (fmem s') (base f) k = (if start f \<le> k \<and> k < W * Suc d then D (k - start f) else F k)) \<and>
    (\<forall>x. (\<forall>j < field_datums f * width f. x \<noteq> base f + of_nat j) \<longrightarrow> fmem s' x = fmem s x) \<and>
    field_state.more s' = field_state.more s"
proof -
  have I': "\<And>k. k < 8 * unat BufferLength \<Longrightarrow> bits_at (fmem s) Buffer k = D k"
    "\<And>k. k < W * field_datums f \<Longrightarrow> bits_at (fmem s) (base f) k = (if start f \<le> k \<and> k < W * d then D (k - start f) else F k)"
    "\<And>j. j < W \<Longrightarrow> start f \<le> W * d + j \<Longrightarrow> W * d + j < start f + bits f \<Longrightarrow> bit Merged j = D (W * d + j - start f)"
    "\<And>j. bit Mask j \<longleftrightarrow> j < W \<and> start f \<le> W * d + j"
    using I by (auto simp: inserting_def W_def Let_def)
  note N = field_numbers [OF f, folded W_def]
  have "d < field_datums f" using d by simp
  from write_rule_ok [OF f p this, folded W_def, of "Merged AND Mask" Mask other s]
  obtain s' where s': "AcpiExWriteWithUpdateRule other f Mask (Merged AND Mask) (of_nat (d * width f)) s = (s', AE_OK)"
    "\<And>k. k < W * field_datums f \<Longrightarrow> bits_at (fmem s') (base f) k =
       (if W * d \<le> k \<and> bit Mask (k - W * d) then bit (Merged AND Mask) (k - W * d) else bits_at (fmem s) (base f) k)"
    "\<And>x. (\<forall>j < field_datums f * width f. x \<noteq> base f + of_nat j) \<Longrightarrow> fmem s' x = fmem s x"
    "field_state.more s' = field_state.more s"
    using I'(4) by (auto simp: bit_and_iff)
  have "W * Suc d \<le> W * (field_datums f - 1)" using d by (intro mult_le_mono2) simp
  also have "\<dots> < bits f + start f" using N(7) by (simp add: mult.commute)
  finally have inside: "W * d + W < bits f + start f" by simp
  have "bits_at (fmem s') (base f) k = (if start f \<le> k \<and> k < W * Suc d then D (k - start f) else F k)"
    if k: "k < W * field_datums f" for k
  proof (cases "W * d \<le> k \<and> bit Mask (k - W * d)")
    case True
    then have j: "k - W * d < W" "start f \<le> W * d + (k - W * d)" "W * d + (k - W * d) = k" using I'(4) [of "k - W * d"] by auto
    then have "k < W * Suc d" by simp
    then have "bit Merged (k - W * d) = D (k - start f)" using I'(3) [OF j(1,2)] j(3) inside by simp
    then show ?thesis using s'(2) [OF k] True j(2,3) \<open>k < W * Suc d\<close> by (simp add: bit_and_iff)
  next
    case False
    have "k < W * d \<or> \<not> (start f \<le> k \<and> k < W * Suc d)"
      using False I'(4) [of "k - W * d"] by (auto simp: less_diff_conv2 add.commute)
    moreover have "k < W * d \<Longrightarrow> k < W * Suc d" by simp
    moreover have "bits_at (fmem s') (base f) k = bits_at (fmem s) (base f) k" using s'(2) [OF k] unfolding if_not_P [OF False] .
    ultimately show ?thesis using I'(2) [OF k] by (simp only:) meson
  qed
  moreover have "bits_at (fmem s') Buffer k = D k" if k: "k < 8 * unat BufferLength" for k
  proof -
    have "bits_at (fmem s') Buffer k = bits_at (fmem s) Buffer k"
    proof (rule bits_outside)
      fix x assume "x = Buffer + of_nat (k div 8)"
      moreover have "k div 8 < unat BufferLength" using k by (simp add: less_mult_imp_div_less mult.commute)
      ultimately show "fmem s' x = fmem s x" using sep by (intro s'(3)) (auto simp: separate_def)
    qed
    then show ?thesis using I'(1) [OF k] by simp
  qed
  ultimately show ?thesis using s'(1,3,4) by blast
qed

text \<open>The bits that a datum leaves for the next one, and the next one's own.\<close>

lemma insert_merge:
  assumes f: "buffer_field f" and len: "bits f \<le> 8 * unat BufferLength" and R: "raw_datum f BufferLength D d Raw"
  defines "W \<equiv> 8 * width f"
  defines "carry \<equiv> (if (of_nat (W - start f) :: u32) < ACPI_INTEGER_BIT_SIZE then drop_bit (W - start f) Raw else 0)"
  shows "j < W \<Longrightarrow> j < start f \<Longrightarrow> W * Suc d + j < start f + bits f \<Longrightarrow> bit carry j = D (W * Suc d + j - start f)"
    and "start f \<le> j \<Longrightarrow> \<not> bit carry j"
    and "raw_datum f BufferLength D (Suc d) Raw' \<Longrightarrow> j < W \<Longrightarrow> W * Suc d + j < start f + bits f \<Longrightarrow>
      bit (carry OR push_bit (start f) Raw') j = D (W * Suc d + j - start f)"
proof -
  have w: "start f < W" "W \<le> 64" "0 < W" using f by (auto simp: buffer_field_def W_def)
  have R': "\<And>j. j < W \<Longrightarrow> W * d + j < 8 * unat BufferLength \<Longrightarrow> bit Raw j = D (W * d + j)" "\<And>j. bit Raw j \<Longrightarrow> j < W"
    using R by (auto simp: raw_datum_def W_def Let_def)
  show hi: "\<not> bit carry j" if "start f \<le> j" for j
    using R'(2) [of "W - start f + j"] that w by (auto simp: carry_def bit_drop_bit_eq)
  show lo: "bit carry j = D (W * Suc d + j - start f)" if j: "j < W" "j < start f" "W * Suc d + j < start f + bits f" for j
  proof -
    have "unat (of_nat (W - start f) :: u32) = W - start f"
      using w by (simp add: unsigned_of_nat take_bit_nat_eq_self del: of_nat_diff)
    then have "(of_nat (W - start f) :: u32) < ACPI_INTEGER_BIT_SIZE"
      using w j by (simp add: word_less_nat_alt ACPI_INTEGER_BIT_SIZE_def)
    then have c: "bit carry j = bit Raw (W - start f + j)" by (simp add: carry_def bit_drop_bit_eq)
    have e: "W * d + (W - start f + j) = W * Suc d + j - start f" using w by simp
    have "W - start f + j < W" "W * d + (W - start f + j) < 8 * unat BufferLength" using j w len by simp_all
    from R'(1) [OF this] show ?thesis unfolding c e .
  qed
  show "bit (carry OR push_bit (start f) Raw') j = D (W * Suc d + j - start f)"
    if R2: "raw_datum f BufferLength D (Suc d) Raw'" and j: "j < W" "W * Suc d + j < start f + bits f"
  proof (cases "j < start f")
    case True
    then show ?thesis using lo [OF j(1) True j(2)] by (simp add: bit_or_iff bit_push_bit_iff)
  next
    case False
    then have e: "W * Suc d + (j - start f) = W * Suc d + j - start f" by simp
    have "j - start f < W" "W * Suc d + (j - start f) < 8 * unat BufferLength" using j False len by simp_all
    then have "bit Raw' (j - start f) = D (W * Suc d + j - start f)"
      using R2 unfolding e [symmetric] by (simp add: raw_datum_def W_def Let_def)
    then show ?thesis using False hi [of j] j w by (simp add: bit_or_iff bit_push_bit_iff)
  qed
qed

text \<open>After the loop all datums but the last one are in place.\<close>

lemma insert_loop_ok:
  assumes f: "buffer_field f" and p: "preserving f" and len: "bits f \<le> 8 * unat BufferLength"
    and sep: "separate Buffer (unat BufferLength) (base f) (field_datums f * width f)"
    and dc: "unat DatumCount = datums f"
  defines "W \<equiv> 8 * width f"
  assumes wm: "\<And>j. bit WidthMask j \<longleftrightarrow> j < W"
    and "d < datums f" "n = field_datums f - Suc d"
    and "inserting f Buffer BufferLength D F d Merged Mask s" "raw_datum f BufferLength D d Raw"
  shows "\<exists>s' M' K'. insert_loop other f Buffer BufferLength DatumCount WidthMask n (of_nat (Suc d)) (of_nat (d * width f))
        (of_nat (d * width f)) Raw Merged Mask s = (s', AE_OK, of_nat ((field_datums f - 1) * width f), M', K') \<and>
    inserting f Buffer BufferLength D F (field_datums f - 1) M' K' s' \<and>
    (\<forall>x. (\<forall>j < field_datums f * width f. x \<noteq> base f + of_nat j) \<longrightarrow> fmem s' x = fmem s x) \<and>
    field_state.more s' = field_state.more s"
  using assms(8-)
proof (induction n arbitrary: d s Raw Merged Mask)
  case 0
  then have "d = field_datums f - 1" using field_numbers(1-3) [OF f] by linarith
  then show ?case using 0 by (intro exI [of _ s] exI [of _ Merged] exI [of _ Mask]) simp
next
  case (Suc n)
  note N = field_numbers [OF f, folded W_def]
  have w: "start f < W" "W \<le> 64" "width f \<le> 8" using f by (auto simp: buffer_field_def W_def)
  have d1: "Suc d < field_datums f" using Suc.prems(2) by simp
  obtain s1 where s1: "AcpiExWriteWithUpdateRule other f Mask (Merged AND Mask) (of_nat (d * width f)) s = (s1, AE_OK)"
    "\<forall>k < 8 * unat BufferLength. bits_at (fmem s1) Buffer k = D k"
    "\<forall>k < W * field_datums f. bits_at (fmem s1) (base f) k = (if start f \<le> k \<and> k < W * Suc d then D (k - start f) else F k)"
    "\<And>x. (\<forall>j < field_datums f * width f. x \<noteq> base f + of_nat j) \<Longrightarrow> fmem s1 x = fmem s x"
    "field_state.more s1 = field_state.more s"
    using insert_write [OF f p d1 sep Suc.prems(3), of other] unfolding W_def by blast
  define shift where "shift = ACPI_MUL_8 (ucast (AccessByteWidth f)) - ucast (StartFieldBitOffset f)"
  have shift: "unat shift = W - start f" using N(12) by (simp add: shift_def)
  then have shift': "shift = of_nat (W - start f)" by (metis of_nat_unat ucast_id)
  define M1 where "M1 = (if shift < ACPI_INTEGER_BIT_SIZE then drop_bit (unat shift) Raw else 0)"
  note C = insert_merge [OF f len Suc.prems(4), folded W_def, folded shift' shift, folded M1_def]
  have off: "of_nat (d * width f) + ucast (AccessByteWidth f) = (of_nat (Suc d * width f) :: u32)"
  proof -
    have "ucast (AccessByteWidth f) = (of_nat (width f) :: u32)" by (metis of_nat_unat)
    then show ?thesis by (simp add: add.commute)
  qed
  have i: "of_nat (Suc d) = DatumCount \<longleftrightarrow> Suc d = datums f"
  proof -
    have "unat DatumCount < 2 ^ 32" by (rule order_less_le_trans [OF unsigned_less]) simp
    then have "Suc d < 2 ^ 32" using Suc.prems(1) dc by linarith
    then show ?thesis by (simp add: word_eq_unat dc unsigned_of_nat take_bit_nat_eq_self del: of_nat_Suc)
  qed
  define Raw1 where "Raw1 = get_datum f Buffer BufferLength (of_nat (Suc d * width f)) Raw s1"
  have step: "insert_loop other f Buffer BufferLength DatumCount WidthMask (Suc n) (of_nat (Suc d)) (of_nat (d * width f))
      (of_nat (d * width f)) Raw Merged Mask s =
    (if Suc d = datums f then (s1, AE_OK, of_nat (Suc d * width f), M1, WidthMask)
     else insert_loop other f Buffer BufferLength DatumCount WidthMask n (of_nat (Suc (Suc d))) (of_nat (Suc d * width f))
       (of_nat (Suc d * width f)) Raw1 (M1 OR push_bit (start f) Raw1) WidthMask s1)"
  proof -
    have "(of_nat (Suc d) + 1 :: u32) = of_nat (Suc (Suc d))" "\<not> ACPI_FAILURE AE_OK" by (simp_all add: ACPI_FAILURE_def AE_OK_def)
    then show ?thesis
      unfolding insert_loop.simps Let_def off s1(1) prod.case i shift_def [symmetric] M1_def [symmetric] Raw1_def [symmetric] by (simp only: if_False)
  qed
  have mask1: "bit WidthMask j \<longleftrightarrow> j < W \<and> start f \<le> W * Suc d + j" for j using wm w by auto
  show ?case
  proof (cases "Suc d = datums f")
    case True
    then have e: "Suc d = field_datums f - 1" using d1 N(3) by linarith
    have "bit M1 j = D (W * Suc d + j - start f)" if "j < W" "W * Suc d + j < start f + bits f" for j
    proof -
      have "W * Suc d \<ge> bits f" using N(4) True by (simp add: mult.commute)
      then show ?thesis using C(1) [OF that(1) _ that(2)] that by linarith
    qed
    then have "inserting f Buffer BufferLength D F (Suc d) M1 WidthMask s1"
      using s1(2,3) mask1 by (simp add: inserting_def Let_def W_def)
    with step [unfolded if_P [OF True]] s1(4,5) show ?thesis unfolding e by blast
  next
    case False
    then have d2: "Suc d < datums f" using Suc.prems(1) by simp
    have "W * Suc d \<le> W * (datums f - 1)" using d2 by (intro mult_le_mono2) simp
    then have room: "W * Suc d < 8 * unat BufferLength" using N(5) len by (simp add: mult.commute)
    then have le: "Suc d * width f \<le> unat BufferLength" by (simp add: W_def algebra_simps)
    have rw: "\<forall>j. bit Raw j \<longrightarrow> j < 8 * width f" using Suc.prems(4) by (simp add: raw_datum_def Let_def)
    note G = get_datum_ok [OF le s1(2) rw w(3), folded Raw1_def]
    have e: "8 * (Suc d * width f) = W * Suc d" by (simp add: W_def)
    have raw1: "raw_datum f BufferLength D (Suc d) Raw1"
      using G unfolding e by (simp add: raw_datum_def Let_def W_def)
    have I1: "inserting f Buffer BufferLength D F (Suc d) (M1 OR push_bit (start f) Raw1) WidthMask s1"
      using s1(2,3) mask1 C(3) [OF raw1] by (simp add: inserting_def Let_def W_def)
    have "n = field_datums f - Suc (Suc d)" using Suc.prems(2) by simp
    from Suc.IH [OF d2 this I1 raw1] step False s1(4,5) show ?thesis by auto
  qed
qed

text \<open>
  The result of writing \<open>D\<close>: these bits in the field, every other bit of the datums the field touches as it
  was, and nothing beside them written.
\<close>

definition inserted :: "field_object \<Rightarrow> (nat \<Rightarrow> bool) \<Rightarrow> 'a field_state_scheme \<Rightarrow> 'a field_state_scheme \<Rightarrow> bool" where
  "inserted f D s s' \<longleftrightarrow>
     (\<forall>k < 8 * width f * field_datums f. bits_at (fmem s') (base f) k =
        (if start f \<le> k \<and> k < start f + bits f then D (k - start f) else bits_at (fmem s) (base f) k)) \<and>
     (\<forall>x. (\<forall>j < field_datums f * width f. x \<noteq> base f + of_nat j) \<longrightarrow> fmem s' x = fmem s x) \<and>
     field_state.more s' = field_state.more s"

text \<open>The last datum, under the mask that is cut at the end of the field.\<close>

lemma insert_last:
  assumes f: "buffer_field f" and p: "preserving f"
    and I: "inserting f Buffer BufferLength D F (field_datums f - 1) Merged Mask s"
  defines "tail \<equiv> (BitLength f + ucast (StartFieldBitOffset f)) mod ACPI_MUL_8 (ucast (AccessByteWidth f))"
  defines "K \<equiv> (if tail \<noteq> 0 then Mask AND ACPI_MASK_BITS_ABOVE tail else Mask)"
  shows "\<exists>s'. AcpiExWriteWithUpdateRule other f K (Merged AND K) (of_nat ((field_datums f - 1) * width f)) s = (s', AE_OK) \<and>
    (\<forall>k < 8 * width f * field_datums f. bits_at (fmem s') (base f) k =
       (if start f \<le> k \<and> k < start f + bits f then D (k - start f) else F k)) \<and>
    (\<forall>x. (\<forall>j < field_datums f * width f. x \<noteq> base f + of_nat j) \<longrightarrow> fmem s' x = fmem s x) \<and>
    field_state.more s' = field_state.more s"
proof -
  define W where "W = 8 * width f"
  define e where "e = field_datums f - 1"
  note N = field_numbers [OF f, folded W_def]
  have W: "W \<le> 64" "0 < W" using f by (auto simp: buffer_field_def W_def)
  have fd: "0 < field_datums f" using N(1,2) by linarith
  then have e: "e < field_datums f" "W * field_datums f = W * e + W" by (cases "field_datums f"; simp add: e_def)+
  have I': "\<And>k. k < W * field_datums f \<Longrightarrow> bits_at (fmem s) (base f) k = (if start f \<le> k \<and> k < W * e then D (k - start f) else F k)"
    "\<And>j. j < W \<Longrightarrow> start f \<le> W * e + j \<Longrightarrow> W * e + j < start f + bits f \<Longrightarrow> bit Merged j = D (W * e + j - start f)"
    "\<And>j. bit Mask j \<longleftrightarrow> j < W \<and> start f \<le> W * e + j"
    using I by (auto simp: inserting_def W_def e_def Let_def)
  have sum: "unat (BitLength f + ucast (StartFieldBitOffset f)) = bits f + start f"
  proof -
    have "unat (ucast (StartFieldBitOffset f) :: u32) = start f" "start f < 256" "bits f < 2 ^ 31"
      using u8_bound [of "StartFieldBitOffset f"] f by (simp_all add: unsigned_ucast_eq take_bit_nat_eq_self buffer_field_def)
    then show ?thesis by (simp add: unat_word_ariths)
  qed
  then have tail: "unat tail = (bits f + start f) mod W" by (simp add: tail_def unat_mod N(8))
  note T = tail_bits [OF N(7,6) fd]
  have K: "bit K j \<longleftrightarrow> j < W \<and> start f \<le> W * e + j \<and> W * e + j < start f + bits f" for j
  proof (cases "bits f + start f = field_datums f * W")
    case True
    then have "tail = 0" using tail T(2) by (simp add: word_eq_unat)
    moreover have "start f + bits f = W * e + W" using True e(2) by (simp add: mult.commute)
    ultimately show ?thesis by (auto simp: K_def I'(3))
  next
    case False
    then have t: "unat tail = bits f + start f - W * e" using tail T(2) by (simp add: e_def)
    moreover have "W * e < bits f + start f" using N(7) by (simp add: e_def mult.commute)
    ultimately have "tail \<noteq> 0" and lt: "j < unat tail \<longleftrightarrow> W * e + j < start f + bits f" by auto
    then have "bit K j \<longleftrightarrow> bit Mask j \<and> j < 64 \<and> j < unat tail" by (simp add: K_def bit_and_iff bit_masks)
    moreover have "j < W \<Longrightarrow> j < 64" using W by linarith
    ultimately show ?thesis unfolding lt I'(3) by blast
  qed
  from write_rule_ok [OF f p e(1), folded W_def, of "Merged AND K" K other s]
  obtain s' where s': "AcpiExWriteWithUpdateRule other f K (Merged AND K) (of_nat (e * width f)) s = (s', AE_OK)"
    "\<And>k. k < W * field_datums f \<Longrightarrow> bits_at (fmem s') (base f) k =
       (if W * e \<le> k \<and> bit K (k - W * e) then bit (Merged AND K) (k - W * e) else bits_at (fmem s) (base f) k)"
    "\<forall>x. (\<forall>j < field_datums f * width f. x \<noteq> base f + of_nat j) \<longrightarrow> fmem s' x = fmem s x"
    "field_state.more s' = field_state.more s"
    using K by (auto simp: bit_and_iff)
  have "bits_at (fmem s') (base f) k = (if start f \<le> k \<and> k < start f + bits f then D (k - start f) else F k)"
    if k: "k < W * field_datums f" for k
  proof (cases "W * e \<le> k \<and> bit K (k - W * e)")
    case True
    then have j: "k - W * e < W" "start f \<le> W * e + (k - W * e)" "W * e + (k - W * e) < start f + bits f" "W * e + (k - W * e) = k"
      using K [of "k - W * e"] by auto
    then show ?thesis using s'(2) [OF k] True I'(2) [OF j(1-3)] by (simp add: bit_and_iff)
  next
    case False
    have old: "bits_at (fmem s') (base f) k = bits_at (fmem s) (base f) k" using s'(2) [OF k] unfolding if_not_P [OF False] .
    have "W * e < bits f + start f" using N(7) by (simp add: e_def mult.commute)
    then have "k < W * e \<Longrightarrow> k < start f + bits f" by simp
    moreover have "\<not> k < W * e \<Longrightarrow> \<not> (start f \<le> k \<and> k < start f + bits f)"
      using False K [of "k - W * e"] k e(2) by (auto simp: less_diff_conv2 add.commute)
    ultimately show ?thesis unfolding old I'(1) [OF k] by meson
  qed
  then show ?thesis using s'(1,3,4) unfolding W_def [symmetric] e_def by blast
qed

lemma ACPI_INTEGER_BIT_SIZE_unat: "unat (64 :: u32) = 64" by simp

lemma insert_bits_ok:
  assumes f: "buffer_field f" and p: "preserving f" and len: "bits f \<le> 8 * unat BufferLength"
    and sep: "separate Buffer (unat BufferLength) (base f) (field_datums f * width f)"
  shows "\<exists>s'. insert_bits other f Buffer BufferLength s = (s', f, AE_OK) \<and> inserted f (bits_at (fmem s) Buffer) s s'"
proof -
  let ?W = "8 * width f" and ?A = "ACPI_MUL_8 (ucast (AccessByteWidth f))"
  let ?D = "bits_at (fmem s) Buffer" and ?F = "bits_at (fmem s) (base f)"
  note N = field_numbers [OF f]
  have w: "width f \<le> 8" "?W \<le> 64" "start f < ?W" using f by (auto simp: buffer_field_def)
  define WM where "WM = (if ?A = ACPI_INTEGER_BIT_SIZE then 0xFFFFFFFFFFFFFFFF else ACPI_MASK_BITS_ABOVE ?A)"
  have wm: "bit WM j \<longleftrightarrow> j < ?W" for j
  proof (cases "?A = ACPI_INTEGER_BIT_SIZE")
    case True
    then have "?W = 64" using N(8) by (metis ACPI_INTEGER_BIT_SIZE_def ACPI_INTEGER_BIT_SIZE_unat)
    moreover have "WM = - 1" using True by (simp add: WM_def)
    ultimately show ?thesis by (simp only: bit_minus_1_iff) simp
  next
    case False
    then show ?thesis using N(8) w by (auto simp: WM_def bit_masks)
  qed
  have st: "unat (ucast (StartFieldBitOffset f) :: u32) = start f"
    using u8_bound [of "StartFieldBitOffset f"] by (simp add: unsigned_ucast_eq take_bit_nat_eq_self)
  define Mask where "Mask = WM AND ACPI_MASK_BITS_BELOW (ucast (StartFieldBitOffset f))"
  have mask: "bit Mask j \<longleftrightarrow> j < ?W \<and> start f \<le> j" for j
  proof -
    have "bit Mask j \<longleftrightarrow> bit WM j \<and> j < 64 \<and> start f \<le> j" by (simp add: Mask_def bit_and_iff bit_masks st)
    moreover have "j < ?W \<Longrightarrow> j < 64" using w(2) by linarith
    ultimately show ?thesis unfolding wm by blast
  qed
  define Raw where "Raw = get_datum f Buffer BufferLength 0 0 s"
  have D: "\<forall>k < 8 * unat BufferLength. ?D k = ?D k" and Z: "\<forall>j. bit (0 :: u64) j \<longrightarrow> j < ?W" by simp_all
  have raw: "raw_datum f BufferLength ?D 0 Raw"
    using get_datum_ok [OF _ D Z w(1), of 0] by (simp add: raw_datum_def Let_def Raw_def)
  define Merged where "Merged = push_bit (start f) Raw"
  have merged: "bit Merged j = ?D (j - start f)" if "j < ?W" "start f \<le> j" "j < start f + bits f" for j
  proof -
    have "j - start f < 8 * unat BufferLength" using that len by linarith
    then have "bit Raw (j - start f) = ?D (j - start f)" using raw that by (simp add: raw_datum_def Let_def)
    then show ?thesis using that w by (simp add: Merged_def bit_push_bit_iff)
  qed
  have I: "inserting f Buffer BufferLength ?D ?F 0 Merged Mask s"
    using merged mask by (simp add: inserting_def Let_def)
  let ?n = "field_datums f - 1"
  have n: "?n = field_datums f - Suc 0" by simp
  from insert_loop_ok [OF f p len sep N(9) wm N(1) n I raw, of other]
  obtain s1 M1 K1 where R: "insert_loop other f Buffer BufferLength (ACPI_ROUND_UP_TO (BitLength f) ?A) WM ?n 1 0 0 Raw Merged Mask s =
      (s1, AE_OK, of_nat (?n * width f), M1, K1)"
    "inserting f Buffer BufferLength ?D ?F ?n M1 K1 s1"
    "\<forall>x. (\<forall>j < field_datums f * width f. x \<noteq> base f + of_nat j) \<longrightarrow> fmem s1 x = fmem s x"
    "field_state.more s1 = field_state.more s"
    by auto
  obtain s' where s': "AcpiExWriteWithUpdateRule other f
      (if (BitLength f + ucast (StartFieldBitOffset f)) mod ?A \<noteq> 0
       then K1 AND ACPI_MASK_BITS_ABOVE ((BitLength f + ucast (StartFieldBitOffset f)) mod ?A) else K1)
      (M1 AND (if (BitLength f + ucast (StartFieldBitOffset f)) mod ?A \<noteq> 0
       then K1 AND ACPI_MASK_BITS_ABOVE ((BitLength f + ucast (StartFieldBitOffset f)) mod ?A) else K1))
      (of_nat (?n * width f)) s1 = (s', AE_OK)"
    "\<forall>k < ?W * field_datums f. bits_at (fmem s') (base f) k = (if start f \<le> k \<and> k < start f + bits f then ?D (k - start f) else ?F k)"
    "\<forall>x. (\<forall>j < field_datums f * width f. x \<noteq> base f + of_nat j) \<longrightarrow> fmem s' x = fmem s1 x"
    "field_state.more s' = field_state.more s1"
    using insert_last [OF f p R(2), of other] by blast
  have nf: "\<not> ACPI_FAILURE AE_OK" by (simp add: ACPI_FAILURE_def AE_OK_def)
  have "insert_bits other f Buffer BufferLength s = (s', f, AE_OK)"
    unfolding insert_bits_def buffer_field_limit [OF f] Let_def WM_def [symmetric] Mask_def [symmetric] Raw_def [symmetric] st
      Merged_def [symmetric] N(10) R(1) prod.case if_not_P [OF nf] s'(1) ..
  then show ?thesis using s'(2-4) R(3,4) by (intro exI [of _ s']) (simp add: inserted_def)
qed

text \<open>A buffer that is too short is first copied to a longer one, with zeros behind it.\<close>

lemma separate_intervals:
  assumes "separate a n b l" "0 < l" "unat a + n \<le> 2 ^ 64"
  shows "unat b < unat a \<or> unat a + n \<le> unat b"
proof (rule ccontr)
  assume "\<not> (unat b < unat a \<or> unat a + n \<le> unat b)"
  then have "unat a \<le> unat b" "unat b - unat a < n" by linarith+
  then have "a + of_nat (unat b - unat a) \<noteq> b + of_nat 0" using assms(1,2) unfolding separate_def by blast
  moreover have "a + of_nat (unat b - unat a) = b" using \<open>unat a \<le> unat b\<close> by (simp add: of_nat_diff)
  ultimately show False by simp
qed

lemma new_buffer:
  fixes m :: bytes
  assumes fits: "fits New (unat R)" "fits Buffer (unat n)" and sep: "separate Buffer (unat n) New (unat R)" and le: "unat n \<le> unat R" "0 < unat R"
  defines "m' \<equiv> memcpy (memset m New 0 R) New Buffer n"
  shows "k < 8 * unat R \<Longrightarrow> bits_at m' New k \<longleftrightarrow> k < 8 * unat n \<and> bits_at m Buffer k"
    and "(\<And>j. j < unat R \<Longrightarrow> x \<noteq> New + of_nat j) \<Longrightarrow> m' x = m x"
proof -
  have fn: "fits New (unat n)" using fits(1) le by (simp add: fits_def)
  have disj: "unat New < unat Buffer \<or> unat Buffer + unat n \<le> unat New"
    using separate_intervals [OF sep le(2)] fits(2) by (simp add: fits_def)
  have m': "m' = block_copied (memset m New 0 R) New Buffer (unat n)"
    unfolding m'_def memcpy_block [OF fits(2) fn disj] mem_copy_block [OF fits(2) fn] ..
  show "m' x = m x" if "\<And>j. j < unat R \<Longrightarrow> x \<noteq> New + of_nat j"
  proof -
    have "\<not> unat (x - New) < unat R" by (rule unat_diff_outside [OF that])
    then show ?thesis using le unfolding m' by (simp add: block_copied_def memset_at [OF fits(1)])
  qed
  show "bits_at m' New k \<longleftrightarrow> k < 8 * unat n \<and> bits_at m Buffer k" if k: "k < 8 * unat R"
  proof -
    have q: "k div 8 < unat R" using k by (simp add: less_mult_imp_div_less mult.commute)
    then have u: "unat (of_nat (k div 8) :: u64) = k div 8"
      using unat_lt64 [of R] by (simp add: unsigned_of_nat take_bit_nat_eq_self)
    have "memset m New 0 R (Buffer + of_nat (k div 8)) = m (Buffer + of_nat (k div 8))" if "k div 8 < unat n"
    proof (rule memset_bits(2) [OF fits(1)])
      fix j assume "j < unat R"
      then show "Buffer + of_nat (k div 8) \<noteq> New + of_nat j" using sep that by (simp add: separate_def)
    qed
    moreover have "k div 8 < unat n \<longleftrightarrow> k < 8 * unat n" by (simp add: less_mult_imp_div_less mult.commute div_less_iff_less_mult)
    ultimately show ?thesis using q u by (auto simp: bits_at_def m' block_copied_def memset_at [OF fits(1)])
  qed
qed

definition new_buffer_ok :: "field_object \<Rightarrow> ptr \<Rightarrow> ptr \<Rightarrow> u32 \<Rightarrow> bool" where
  "new_buffer_ok f New Buffer BufferLength \<longleftrightarrow> (let R = (bits f + 7) div 8 in
     New \<noteq> 0 \<and> fits New R \<and> fits Buffer (unat BufferLength) \<and> separate Buffer (unat BufferLength) New R \<and>
     separate New R (base f) (field_datums f * width f))"

lemma insert_short:
  assumes f: "buffer_field f" and p: "preserving f" and short: "unat BufferLength < (bits f + 7) div 8"
    and new: "new_buffer_ok f New Buffer BufferLength"
  shows "\<exists>s'. AcpiExInsertIntoField other New f Buffer BufferLength s = (s', f, AE_OK) \<and>
    (\<forall>k < 8 * width f * field_datums f. bits_at (fmem s') (base f) k =
       (if start f \<le> k \<and> k < start f + bits f then k - start f < 8 * unat BufferLength \<and> bits_at (fmem s) Buffer (k - start f)
        else bits_at (fmem s) (base f) k))"
proof -
  let ?R = "ACPI_ROUND_BITS_UP_TO_BYTES (BitLength f)"
  let ?m = "memcpy (memset (fmem s) New 0 (ucast ?R)) New Buffer (ucast BufferLength)"
  let ?s = "s\<lparr>fmem := ?m\<rparr>"
  have R: "unat ?R = (bits f + 7) div 8" using round_bits f by (simp add: buffer_field_def)
  have u: "unat (ucast ?R :: u64) = (bits f + 7) div 8" "unat (ucast BufferLength :: u64) = unat BufferLength"
    by (simp_all add: unsigned_ucast_eq take_bit_nat_eq_self order_less_le_trans [OF unsigned_less] R [symmetric])
  have ok: "fits New (unat (ucast ?R :: u64))" "fits Buffer (unat (ucast BufferLength :: u64))"
    "separate Buffer (unat (ucast BufferLength :: u64)) New (unat (ucast ?R :: u64))"
    "unat (ucast BufferLength :: u64) \<le> unat (ucast ?R :: u64)" "0 < unat (ucast ?R :: u64)"
    "New \<noteq> 0" "separate New ((bits f + 7) div 8) (base f) (field_datums f * width f)"
    using new short unfolding u by (simp_all add: new_buffer_ok_def Let_def)
  note B = new_buffer [OF ok(1-5), where m = "fmem s", unfolded u]
  have "bits f \<le> 8 * unat ?R" "separate New (unat ?R) (base f) (field_datums f * width f)" using ok(7) by (simp_all add: R)
  from insert_bits_ok [OF f p this, of other ?s]
  obtain s' where s': "insert_bits other f New ?R ?s = (s', f, AE_OK)" "inserted f (bits_at ?m New) ?s s'" by auto
  have "AcpiExInsertIntoField other New f Buffer BufferLength s = (s', f, AE_OK)"
    using s'(1) short ok(6) R by (simp add: AcpiExInsertIntoField_def Let_def word_less_nat_alt)
  moreover have "bits_at (fmem s') (base f) k =
       (if start f \<le> k \<and> k < start f + bits f then k - start f < 8 * unat BufferLength \<and> bits_at (fmem s) Buffer (k - start f)
        else bits_at (fmem s) (base f) k)" if k: "k < 8 * width f * field_datums f" for k
  proof -
    have "bits_at ?m (base f) k = bits_at (fmem s) (base f) k"
    proof (rule bits_outside)
      fix x assume x: "x = base f + of_nat (k div 8)"
      have "k div 8 < field_datums f * width f" using k by (simp add: less_mult_imp_div_less mult_ac)
      then have "New + of_nat j \<noteq> x" if "j < (bits f + 7) div 8" for j using ok(7) that x by (simp add: separate_def)
      then show "?m x = fmem s x" by (intro B(2)) metis
    qed
    moreover have "bits_at ?m New (k - start f) \<longleftrightarrow> k - start f < 8 * unat BufferLength \<and> bits_at (fmem s) Buffer (k - start f)"
      if "k < start f + bits f" "start f \<le> k"
      using that by (intro B(1)) linarith
    ultimately show ?thesis using s'(2) k by (simp add: inserted_def)
  qed
  ultimately show ?thesis by blast
qed

lemma register_overflow_iff: "AcpiExRegisterOverflow f v \<longleftrightarrow> 2 ^ bits f \<le> unat v"
proof (cases "64 \<le> bits f")
  case True
  then have "(2 :: nat) ^ 64 \<le> 2 ^ bits f" by (intro power_increasing) simp_all
  then show ?thesis using True unat_lt64 [of v] by (simp add: AcpiExRegisterOverflow_def ACPI_INTEGER_BIT_SIZE_def word_le_nat_alt)
next
  case False
  then have "unat (of_nat (2 ^ bits f) :: u64) = 2 ^ bits f" using False by (simp add: unsigned_of_nat take_bit_nat_eq_self del: of_nat_power)
  then have "unat (push_bit (bits f) 1 :: u64) = 2 ^ bits f" by (simp add: push_bit_eq_mult)
  then show ?thesis using False by (simp add: AcpiExRegisterOverflow_def ACPI_INTEGER_BIT_SIZE_def word_le_nat_alt)
qed

section \<open>Properties\<close>

text \<open>
  C23: Reading a field gets its bits. \<^verbatim>\<open>AcpiExExtractFromField\<close>, which goes through the field datum by datum,
  shifts and merges, leaves in the buffer bit for bit the run of bits that the field is, wherever it starts
  and ends in the datums and whatever their width, followed by zeros to the end of the buffer; it writes
  nothing else.
\<close>

theorem field_read_bits:
  assumes "buffer_field f" "separate (base f) (field_datums f * width f) Buffer (unat BufferLength)"
    and "bits f \<le> 8 * unat BufferLength" "fits Buffer (unat BufferLength)"
  shows "\<exists>s'. AcpiExExtractFromField other f Buffer BufferLength s = (s', f, AE_OK) \<and>
    (\<forall>k < 8 * unat BufferLength. bits_at (fmem s') Buffer k \<longleftrightarrow> k < bits f \<and> bits_at (fmem s) (base f) (start f + k)) \<and>
    (\<forall>x. (\<forall>j < unat BufferLength. x \<noteq> Buffer + of_nat j) \<longrightarrow> fmem s' x = fmem s x)"
  using extract_ok [OF assms, of other s] unfolding extracted_def by blast

text \<open>Ten bits from bit 5 on of the buffer at 0x100, in bytes; the memory has 0xE0, 0xFF, 0x01 there.\<close>

definition example_field :: field_object where
  "example_field = \<lparr>Common_Type = 0x0E, Common_Flags = 4, FieldFlags = 0, AccessByteWidth = 1, BitLength = 10,
     BaseByteOffset = 0, StartFieldBitOffset = 5, Buffer_Pointer = 0x100\<rparr>"

definition example_state :: field_state where
  "example_state = \<lparr>fmem = (\<lambda>_. 0)(0x100 := 0xE0, 0x101 := 0xFF, 0x102 := 0x01, 0x200 := 0x55, 0x201 := 0xFE)\<rparr>"

lemma example_field_ok:
  "buffer_field example_field" "preserving example_field" "base example_field = 0x100" "field_datums example_field = 2"
  "width example_field = 1" "bits example_field = 10" "start example_field = 5"
  by (simp_all add: buffer_field_def preserving_def example_field_def field_datums_def ACPI_TYPE_BUFFER_FIELD_def
      AOPOBJ_DATA_VALID_def AML_FIELD_UPDATE_RULE_MASK_def AML_FIELD_UPDATE_PRESERVE_def)

lemma separate_far: "separate 0x100 2 0x200 2" "separate 0x200 2 0x100 2"
  by (auto simp: separate_def less_2_cases_iff)

theorem field_read_bits_witness:
  "\<exists>s'. AcpiExExtractFromField (\<lambda>f off v s. (s, 1, 0)) example_field 0x200 2 example_state = (s', example_field, AE_OK) \<and>
     bits_at (fmem s') 0x200 9 \<and> \<not> bits_at (fmem s') 0x200 10"
proof -
  have two: "unat (2 :: u32) = 2" by simp
  have "fits 0x200 (unat (2 :: u32))" by (simp add: fits_def)
  then obtain s' where s': "AcpiExExtractFromField (\<lambda>f off v s. (s, 1, 0)) example_field 0x200 2 example_state = (s', example_field, AE_OK)"
    "\<And>k. k < 16 \<Longrightarrow> bits_at (fmem s') 0x200 k \<longleftrightarrow> k < 10 \<and> bits_at (fmem example_state) 0x100 (5 + k)"
    using field_read_bits [of example_field "0x200" 2 "\<lambda>f off v s. (s, 1, 0)" example_state] example_field_ok separate_far(1)
    by auto
  have "bits_at (fmem s') 0x200 9" "\<not> bits_at (fmem s') 0x200 10"
    using s'(2) [of 9] s'(2) [of 10] by (simp_all add: bits_at_def example_state_def)
  then show ?thesis using s'(1) by blast
qed

text \<open>
  C22: Writing a field sets its bits and no others. \<^verbatim>\<open>AcpiExInsertIntoField\<close>, under the rule that preserves what
  is around the field, leaves in it the bits of the buffer, with zeros for those a buffer that is too
  short does not have, and leaves every other bit of the datums it writes as it was.
\<close>

theorem field_write_bits:
  assumes "buffer_field f" "preserving f" "separate Buffer (unat BufferLength) (base f) (field_datums f * width f)"
    and "bits f \<le> 8 * unat BufferLength \<or> new_buffer_ok f New Buffer BufferLength"
  shows "\<exists>s'. AcpiExInsertIntoField other New f Buffer BufferLength s = (s', f, AE_OK) \<and>
    (\<forall>k < 8 * width f * field_datums f. bits_at (fmem s') (base f) k =
       (if start f \<le> k \<and> k < start f + bits f then k - start f < 8 * unat BufferLength \<and> bits_at (fmem s) Buffer (k - start f)
        else bits_at (fmem s) (base f) k))"
proof (cases "unat BufferLength < (bits f + 7) div 8")
  case True
  then have "\<not> bits f \<le> 8 * unat BufferLength" by linarith
  then show ?thesis using insert_short [OF assms(1,2) True] assms(4) by blast
next
  case False
  then have len: "bits f \<le> 8 * unat BufferLength" by linarith
  have "\<not> BufferLength < ACPI_ROUND_BITS_UP_TO_BYTES (BitLength f)"
    using False round_bits assms(1) by (simp add: word_less_nat_alt buffer_field_def)
  then have "AcpiExInsertIntoField other New f Buffer BufferLength s = insert_bits other f Buffer BufferLength s"
    by (simp add: AcpiExInsertIntoField_def Let_def)
  moreover have "k - start f < 8 * unat BufferLength" if "k < start f + bits f" "start f \<le> k" for k using that len by linarith
  ultimately show ?thesis
    using insert_bits_ok [OF assms(1,2) len assms(3), of other s] unfolding inserted_def by auto
qed

theorem field_write_bits_witness:
  "\<exists>s'. AcpiExInsertIntoField (\<lambda>f off v s. (s, 1, 0)) 0 example_field 0x200 2 example_state = (s', example_field, AE_OK) \<and>
     \<not> bits_at (fmem s') 0x100 4 \<and> bits_at (fmem s') 0x100 5 \<and> \<not> bits_at (fmem s') 0x100 6 \<and>
     bits_at (fmem s') 0x100 14 \<and> bits_at (fmem s') 0x100 15"
proof -
  obtain s' where s': "AcpiExInsertIntoField (\<lambda>f off v s. (s, 1, 0)) 0 example_field 0x200 2 example_state = (s', example_field, AE_OK)"
    "\<And>k. k < 16 \<Longrightarrow> bits_at (fmem s') 0x100 k =
       (if 5 \<le> k \<and> k < 15 then k - 5 < 16 \<and> bits_at (fmem example_state) 0x200 (k - 5) else bits_at (fmem example_state) 0x100 k)"
    using field_write_bits [of example_field "0x200" 2 0 "\<lambda>f off v s. (s, 1, 0)" example_state] example_field_ok separate_far(2)
    by auto
  have "\<not> bits_at (fmem s') 0x100 4" "bits_at (fmem s') 0x100 5" "\<not> bits_at (fmem s') 0x100 6"
    "bits_at (fmem s') 0x100 14" "bits_at (fmem s') 0x100 15"
    using s'(2) [of 4] s'(2) [of 5] s'(2) [of 6] s'(2) [of 14] s'(2) [of 15] by (simp_all add: bits_at_def example_state_def)
  then show ?thesis using s'(1) by blast
qed

end
