(* ===== verification/Acpi_Name.thy ===== *)
theory Acpi_Name
  imports Acpi_Aml Acpi_Number Acpi_Root
begin

text \<open>
  Name strings in ACPICA (\<^verbatim>\<open>kernel/hw/acpica/nsutils.c\<close>, \<^verbatim>\<open>utstring.c\<close>): from the external form, such as
  \<^verbatim>\<open>\_PR.CPU0\<close>, to the one of the byte code, and back.  The external form has up to four characters
  for a segment and a point between two; the internal form has a count, four characters for each
  segment, and no points.  A \<^verbatim>\<open>char\<close> is a byte: the code compares it with ASCII constants only.
\<close>

section \<open>Characters of a name\<close>

definition AE_BAD_PATHNAME :: u32 where "AE_BAD_PATHNAME = EXCEP_PGM 0x3"
definition AML_ROOT_PREFIX :: u8 where "AML_ROOT_PREFIX = 0x5C"
definition AML_PARENT_PREFIX :: u8 where "AML_PARENT_PREFIX = 0x5E"

definition ACPI_IS_PATH_SEPARATOR :: "u8 \<Rightarrow> bool" where "ACPI_IS_PATH_SEPARATOR c \<longleftrightarrow> c = 0x2E"

definition AcpiUtValidAcpiChar :: "u8 \<Rightarrow> u32 \<Rightarrow> bool" where
  "AcpiUtValidAcpiChar Character Position =
     (if \<not> (Character \<ge> 0x41 \<and> Character \<le> 0x5A \<or> Character \<ge> 0x30 \<and> Character \<le> 0x39 \<or> Character = 0x5F)
      then Character = 0x21 \<and> Position = 3
      else True)"

definition AcpiUtValidAcpiName :: "bytes \<Rightarrow> ptr \<Rightarrow> bool" where
  "AcpiUtValidAcpiName m Nm = (\<forall>i \<in> set [0..<4]. AcpiUtValidAcpiChar (m (Nm + of_nat i)) (of_nat i))"

text \<open>
  The build does without misaligned accesses (\<^verbatim>\<open>ACPI_MISALIGNMENT_NOT_SUPPORTED\<close> in \<^verbatim>\<open>acrefk.h\<close>), so these macros are
  calls of \<^verbatim>\<open>strncpy\<close> and of \<^verbatim>\<open>strncmp\<close>, the second one with a literal, given here by its characters.
\<close>

definition ACPI_MOVE_NAME :: "bytes \<Rightarrow> ptr \<Rightarrow> ptr \<Rightarrow> bytes" where
  "ACPI_MOVE_NAME m dest src = strncpy m dest src ACPI_NAME_SIZE"

fun ACPI_COMPARE_NAME :: "bytes \<Rightarrow> ptr \<Rightarrow> u8 list \<Rightarrow> bool" where
  "ACPI_COMPARE_NAME m a [] = True"
| "ACPI_COMPARE_NAME m a (c # cs) = (m a = c \<and> (c = 0 \<or> ACPI_COMPARE_NAME m (a + 1) cs))"

lemma compare_name_strncmp:
  "holds m b cs \<Longrightarrow> length cs < 2 ^ 64 \<Longrightarrow> ACPI_COMPARE_NAME m a cs \<longleftrightarrow> strncmp m a b (of_nat (length cs)) = 0"
proof -
  have "holds m b cs \<Longrightarrow> ACPI_COMPARE_NAME m a cs \<longleftrightarrow> strncmp_loop m a b (length cs) = 0"
    by (induction cs arbitrary: a b) (auto simp: holds_Cons uint_same)
  then show "holds m b cs \<Longrightarrow> length cs < 2 ^ 64 \<Longrightarrow> ?thesis" by (simp add: strncmp_def unat_of_nat)
qed

definition is_root_name :: "bytes \<Rightarrow> ptr \<Rightarrow> bool" where
  "is_root_name m Nm \<longleftrightarrow> ACPI_COMPARE_NAME m Nm [0x5C, 0x5F, 0x5F, 0x5F]"

fun repair_loop :: "bytes \<Rightarrow> ptr \<Rightarrow> nat \<Rightarrow> nat \<Rightarrow> bytes" where
  "repair_loop m Nm i 0 = m"
| "repair_loop m Nm i (Suc n) =
     (if AcpiUtValidAcpiChar (m (Nm + of_nat i)) (of_nat i) then repair_loop m Nm (Suc i) n
      else repair_loop (m(Nm + of_nat i := 0x2A)) Nm (Suc i) n)"

text \<open>The warning about a repaired name is output only.\<close>

definition AcpiUtRepairName :: "bytes \<Rightarrow> ptr \<Rightarrow> bytes" where
  "AcpiUtRepairName m Nm = (if is_root_name m Nm then m else repair_loop m Nm 0 4)"

section \<open>From the external form\<close>

record namestring_info =
  ExternalName :: ptr
  NextExternalChar :: ptr
  InternalName :: ptr
  NameLength :: u32
  NumSegments :: u32
  NumCarats :: u32
  FullyQualified :: bool

partial_function (option) root_loop :: "bytes \<Rightarrow> ptr \<Rightarrow> ptr option" where
  "root_loop m p = (if ACPI_IS_ROOT_PREFIX (m p) then root_loop m (p + 1) else Some p)"

partial_function (option) carat_loop :: "bytes \<Rightarrow> ptr \<Rightarrow> u32 \<Rightarrow> (ptr \<times> u32) option" where
  "carat_loop m p n = (if ACPI_IS_PARENT_PREFIX (m p) then carat_loop m (p + 1) (n + 1) else Some (p, n))"

partial_function (option) separator_loop :: "bytes \<Rightarrow> ptr \<Rightarrow> u32 \<Rightarrow> u32 \<Rightarrow> u32 option" where
  "separator_loop m p i n =
     (if m (p + ucast i) = 0 then Some n
      else separator_loop m p (i + 1) (if ACPI_IS_PATH_SEPARATOR (m (p + ucast i)) then n + 1 else n))"

definition AcpiNsGetInternalNameLength :: "bytes \<Rightarrow> namestring_info \<Rightarrow> namestring_info option" where
  "AcpiNsGetInternalNameLength m Info =
     Option.bind
       (if ACPI_IS_ROOT_PREFIX (m (ExternalName Info))
        then map_option (\<lambda>p. (True, p, 0)) (root_loop m (ExternalName Info + 1))
        else map_option (\<lambda>(p, n). (False, p, n)) (carat_loop m (ExternalName Info) 0))
     (\<lambda>(qualified, p, carats).
       map_option (\<lambda>segments. Info\<lparr>FullyQualified := qualified, NumCarats := carats, NumSegments := segments,
           NameLength := ucast ACPI_NAME_SIZE * segments + 4 + carats, NextExternalChar := p\<rparr>)
         (if m p \<noteq> 0 then separator_loop m p 0 1 else Some 0))"

text \<open>\<^verbatim>\<open>InternalName[i] = AML_PARENT_PREFIX\<close>.\<close>

fun write_carats :: "nat \<Rightarrow> bytes \<Rightarrow> ptr \<Rightarrow> bytes" where
  "write_carats 0 m p = m"
| "write_carats (Suc n) m p = write_carats n (m(p := AML_PARENT_PREFIX)) (p + 1)"

text \<open>The four characters of one segment: the memory and the advanced \<^verbatim>\<open>ExternalName\<close>.\<close>

fun segment_loop :: "nat \<Rightarrow> bytes \<Rightarrow> ptr \<Rightarrow> ptr \<Rightarrow> bytes \<times> ptr" where
  "segment_loop 0 m External Result = (m, External)"
| "segment_loop (Suc n) m External Result =
     (if ACPI_IS_PATH_SEPARATOR (m External) \<or> m External = 0
      then segment_loop n (m(Result := 0x5F)) External (Result + 1)
      else segment_loop n (m(Result := ucast (toupper (scast (m External))))) (External + 1) (Result + 1))"

text \<open>The pointer behind the last segment, or \<open>None\<close> when a segment is followed by something else than a point.\<close>

fun segments_loop :: "nat \<Rightarrow> bytes \<Rightarrow> ptr \<Rightarrow> ptr \<Rightarrow> bytes \<times> ptr option" where
  "segments_loop 0 m External Result = (m, Some Result)"
| "segments_loop (Suc n) m External Result =
     (case segment_loop (unat ACPI_NAME_SIZE) m External Result of (m, External) \<Rightarrow>
        if \<not> ACPI_IS_PATH_SEPARATOR (m External) \<and> m External \<noteq> 0 then (m, None)
        else segments_loop n m (External + 1) (Result + ACPI_NAME_SIZE))"

definition AcpiNsBuildInternalName :: "bytes \<Rightarrow> namestring_info \<Rightarrow> u32 \<times> bytes" where
  "AcpiNsBuildInternalName m Info =
     (let N = NumSegments Info;
          Nm = InternalName Info;
          (m, i) = (if FullyQualified Info then (m(Nm := AML_ROOT_PREFIX), 1)
                    else (write_carats (unat (NumCarats Info)) m Nm, ucast (NumCarats Info)));
          (m, Result) =
            (if N \<le> 1 then (m, Nm + i)
             else if N = 2 then (m(Nm + i := AML_DUAL_NAME_PREFIX), Nm + (i + 1))
             else (m(Nm + i := AML_MULTI_NAME_PREFIX_OP, Nm + (i + 1) := ucast N), Nm + (i + 2)))
      in case segments_loop (unat N) m (NextExternalChar Info) Result of
           (m, None) \<Rightarrow> (AE_BAD_PATHNAME, m)
         | (m, Some Result) \<Rightarrow> (AE_OK, m(Result := 0)))"

text \<open>
  \<open>Allocation\<close> is what \<^verbatim>\<open>AcpiOsAllocate\<close> answers (\<open>0\<close> for \<^verbatim>\<open>NULL\<close>).
\<close>

definition AcpiOsAllocateZeroed :: "bytes \<Rightarrow> ptr \<Rightarrow> u64 \<Rightarrow> bytes" where
  "AcpiOsAllocateZeroed m Allocation Size = (if Allocation \<noteq> 0 then memset m Allocation 0 Size else m)"

text \<open>The status, the memory, and what is stored at \<open>ConvertedName\<close>, if anything; \<open>Info\<close> is the uninitialised local variable.\<close>

definition AcpiNsInternalizeName ::
  "bytes \<Rightarrow> namestring_info \<Rightarrow> ptr \<Rightarrow> ptr \<Rightarrow> ptr \<Rightarrow> (u32 \<times> bytes \<times> ptr option) option" where
  "AcpiNsInternalizeName m Info Allocation External ConvertedName =
     (if External = 0 \<or> m External = 0 \<or> ConvertedName = 0 then Some (AE_BAD_PARAMETER, m, None)
      else map_option (\<lambda>Info.
          let m = AcpiOsAllocateZeroed m Allocation (ucast (NameLength Info)) in
          if Allocation = 0 then (AE_NO_MEMORY, m, None)
          else (case AcpiNsBuildInternalName m (Info\<lparr>InternalName := Allocation\<rparr>) of (Status, m) \<Rightarrow>
                  if Status \<noteq> AE_OK then (Status, m, None) else (AE_OK, m, Some Allocation)))
        (AcpiNsGetInternalNameLength m (Info\<lparr>ExternalName := External\<rparr>)))"

section \<open>Back to the external form\<close>

fun parent_loop :: "nat \<Rightarrow> bytes \<Rightarrow> ptr \<Rightarrow> u32 \<Rightarrow> u32 \<Rightarrow> u32" where
  "parent_loop 0 m Nm i PrefixLength = i"
| "parent_loop (Suc n) m Nm i PrefixLength =
     (if ACPI_IS_PARENT_PREFIX (m (Nm + ucast i)) then parent_loop n m Nm (i + 1) (i + 1) else PrefixLength)"

definition external_prefix :: "bytes \<Rightarrow> u32 \<Rightarrow> ptr \<Rightarrow> u32" where
  "external_prefix m Len Nm =
     (if m Nm = AML_ROOT_PREFIX then 1
      else if m Nm = AML_PARENT_PREFIX then parent_loop (unat Len) m Nm 0 0
      else 0)"

text \<open>Where the segments begin, and how many there are.\<close>

definition external_segments :: "bytes \<Rightarrow> u32 \<Rightarrow> ptr \<Rightarrow> u32 \<Rightarrow> u32 \<times> u32" where
  "external_segments m Len Nm PrefixLength =
     (if PrefixLength < Len then
        (let c = m (Nm + ucast PrefixLength) in
         if c = AML_MULTI_NAME_PREFIX_OP then (PrefixLength + 2, ucast (m (Nm + (ucast PrefixLength + 1))))
         else if c = AML_DUAL_NAME_PREFIX then (PrefixLength + 1, 2)
         else if c = 0 then (0, 0)
         else (PrefixLength, 1))
      else (0, 0))"

fun prefix_copy :: "nat \<Rightarrow> bytes \<Rightarrow> ptr \<Rightarrow> ptr \<Rightarrow> u32 \<Rightarrow> bytes" where
  "prefix_copy 0 m Converted Nm i = m"
| "prefix_copy (Suc n) m Converted Nm i =
     prefix_copy n (m(Converted + ucast i := m (Nm + ucast i))) Converted Nm (i + 1)"

fun segment_copy :: "nat \<Rightarrow> bytes \<Rightarrow> ptr \<Rightarrow> ptr \<Rightarrow> u32 \<Rightarrow> u32 \<Rightarrow> u32 \<Rightarrow> bytes" where
  "segment_copy 0 m Converted Nm i j NamesIndex = m"
| "segment_copy (Suc n) m Converted Nm i j NamesIndex =
     (let (m, j) = (if i > 0 then (m(Converted + ucast j := 0x2E), j + 1) else (m, j));
          m = ACPI_MOVE_NAME m (Converted + ucast j) (Nm + ucast NamesIndex);
          m = AcpiUtRepairName m (Converted + ucast j)
      in segment_copy n m Converted Nm (i + 1) (j + ucast ACPI_NAME_SIZE) (NamesIndex + ucast ACPI_NAME_SIZE))"

text \<open>
  The status, the memory, and what is stored at \<open>ConvertedName\<close> and \<^verbatim>\<open>ConvertedNameLength\<close> (unless that
  is \<^verbatim>\<open>NULL\<close>).
\<close>

definition AcpiNsExternalizeName ::
  "bytes \<Rightarrow> ptr \<Rightarrow> u32 \<Rightarrow> ptr \<Rightarrow> ptr \<Rightarrow> u32 \<times> bytes \<times> ptr option \<times> u32 option" where
  "AcpiNsExternalizeName m Allocation InternalNameLength Nm ConvertedName =
     (if InternalNameLength = 0 \<or> Nm = 0 \<or> ConvertedName = 0 then (AE_BAD_PARAMETER, m, None, None)
      else
        (let PrefixLength = external_prefix m InternalNameLength Nm;
             (NamesIndex, N) = external_segments m InternalNameLength Nm PrefixLength;
             RequiredLength = PrefixLength + 4 * N + (if N > 0 then N - 1 else 0) + 1
         in if RequiredLength > InternalNameLength then (AE_BAD_PATHNAME, m, None, None)
            else
              (let m = AcpiOsAllocateZeroed m Allocation (ucast RequiredLength) in
               if Allocation = 0 then (AE_NO_MEMORY, m, Some 0, None)
               else
                 (let m = prefix_copy (unat PrefixLength) m Allocation Nm 0;
                      m = segment_copy (unat N) m Allocation Nm 0 PrefixLength NamesIndex
                  in (AE_OK, m, Some Allocation, Some RequiredLength)))))"


section \<open>The forms of a name\<close>

text \<open>
  A name is its prefix, that is the root or a number of parents, and its segments.  \<open>join\<close> and
  \<open>split_dots\<close> put the points between segments and take them out.
\<close>

datatype prefix = Absolute | Parents nat

fun prefix_chars :: "prefix \<Rightarrow> u8 list" where
  "prefix_chars Absolute = [AML_ROOT_PREFIX]"
| "prefix_chars (Parents k) = replicate k AML_PARENT_PREFIX"

fun join :: "u8 list list \<Rightarrow> u8 list" where
  "join [] = []"
| "join [s] = s"
| "join (s # ss) = s @ 0x2E # join ss"

definition canon :: "u8 list \<Rightarrow> u8 list" where
  "canon s = take 4 (map upper s @ replicate 4 0x5F)"

definition count_chars :: "nat \<Rightarrow> u8 list" where
  "count_chars n =
     (if n \<le> 1 then [] else if n = 2 then [AML_DUAL_NAME_PREFIX] else [AML_MULTI_NAME_PREFIX_OP, of_nat n])"

definition internal_name :: "prefix \<Rightarrow> u8 list list \<Rightarrow> u8 list" where
  "internal_name p ss = prefix_chars p @ count_chars (length ss) @ concat (map canon ss) @ [0]"

lemma length_canon [simp]: "length (canon s) = 4"
  by (simp add: canon_def)

lemma length_concat_canon [simp]: "length (concat (map canon ss)) = 4 * length ss"
  by (induction ss) simp_all

lemma length_count_chars: "length (count_chars n) \<le> 2"
  by (simp add: count_chars_def)

lemma join_Cons: "join (s # ss) = s @ (if ss = [] then [] else 0x2E # join ss)"
  by (cases ss) simp_all

lemma count_join: "\<forall>s \<in> set ss. 0x2E \<notin> set s \<Longrightarrow> ss \<noteq> [] \<Longrightarrow> Suc (count_list (join ss) 0x2E) = length ss"
proof (induction ss)
  case (Cons s ss)
  then have "count_list s 0x2E = 0" by (simp add: count_list_0_iff)
  then show ?case using Cons by (cases "ss = []") (simp_all add: join_Cons)
qed simp

section \<open>Memory\<close>

lemma cstring_no_zero: "cstring m a xs \<Longrightarrow> 0 \<notin> set xs"
  by (induction xs arbitrary: a) auto

lemma cstring_put:
  "cstring m a xs \<Longrightarrow> \<forall>i \<le> length xs. \<forall>j < length ys. a + of_nat i \<noteq> r + of_nat j \<Longrightarrow> cstring (put m r ys) a xs"
proof (induction ys arbitrary: m r)
  case (Cons y ys)
  have "\<forall>i \<le> length xs. a + of_nat i \<noteq> r"
    using Cons.prems(2) unfolding length_Cons All_less_Suc2 by simp
  then have "cstring (m(r := y)) a xs" by (rule cstring_upd [OF Cons.prems(1)])
  moreover have "\<forall>i \<le> length xs. \<forall>j < length ys. a + of_nat i \<noteq> r + 1 + of_nat j"
    using Cons.prems(2) unfolding length_Cons All_less_Suc2 by (simp add: algebra_simps)
  ultimately show ?case using Cons.IH by simp
qed simp

text \<open>The text \<open>a .. a + n\<close> does not meet the block of \<open>l\<close> bytes at \<open>r\<close>.\<close>

definition apart :: "ptr \<Rightarrow> nat \<Rightarrow> ptr \<Rightarrow> nat \<Rightarrow> bool" where
  "apart a n r l \<longleftrightarrow> (\<forall>i \<le> n. \<forall>j < l. a + of_nat i \<noteq> r + of_nat j)"

lemma apart_later:
  assumes "apart a n r l" "i + n' \<le> n" "j + l' \<le> l"
  shows "apart (a + of_nat i) n' (r + of_nat j) l'"
  unfolding apart_def
proof (intro allI impI)
  fix i' j' assume "i' \<le> n'" "j' < l'"
  then have "i + i' \<le> n" "j + j' < l" using assms by auto
  then have "a + of_nat (i + i') \<noteq> r + of_nat (j + j')" using assms(1) unfolding apart_def by blast
  then show "a + of_nat i + of_nat i' \<noteq> r + of_nat j + of_nat j'" by (simp add: add.assoc)
qed

lemma cstring_put_apart: "cstring m a xs \<Longrightarrow> apart a (length xs) r (length ys) \<Longrightarrow> cstring (put m r ys) a xs"
  unfolding apart_def by (rule cstring_put)

section \<open>The segments\<close>

text \<open>What stands behind a segment.\<close>

definition segment_end :: "u8 list \<Rightarrow> bool" where
  "segment_end rest \<longleftrightarrow> rest = [] \<or> hd rest = 0x2E"

lemma segment_loop_pad:
  assumes "cstring m a rest" "segment_end rest" "apart a (length rest) r n" 
  shows "segment_loop n m a r = (put m r (replicate n 0x5F), a)"
  using assms
proof (induction n arbitrary: m r)
  case (Suc n)
  have "m a = 0 \<or> ACPI_IS_PATH_SEPARATOR (m a)"
    using Suc.prems(1,2) by (cases rest) (auto simp: segment_end_def ACPI_IS_PATH_SEPARATOR_def)
  moreover have "cstring (m(r := 0x5F)) a rest"
    using cstring_put_apart [OF Suc.prems(1), of r "[0x5F]"] apart_later [OF Suc.prems(3), of 0 "length rest" 0 1] by simp
  moreover have "apart a (length rest) (r + 1) n" using apart_later [OF Suc.prems(3), of 0 "length rest" 1 n] by simp
  ultimately show ?case
    using Suc.IH [of "m(r := 0x5F)" "r + 1"] Suc.prems(2) by (auto simp del: fun_upd_apply)
qed simp

lemma segment_loop_ok:
  assumes "cstring m a (s @ rest)" "0x2E \<notin> set s" "segment_end rest" "apart a (length (s @ rest)) r n"
  shows "segment_loop n m a r = (put m r (take n (map upper s @ replicate n 0x5F)), a + of_nat (min n (length s)))"
  using assms
proof (induction n arbitrary: m a r s)
  case (Suc n)
  show ?case
  proof (cases s)
    case Nil
    then show ?thesis using segment_loop_pad [of m a rest r "Suc n"] Suc.prems by simp
  next
    case (Cons c s')
    have c: "m a = c" "c \<noteq> 0" "c \<noteq> 0x2E" "cstring m (a + 1) (s' @ rest)" using Suc.prems(1,2) Cons by auto
    have "cstring (put m r [upper c]) (a + 1) (s' @ rest)"
      by (rule cstring_put_apart [OF c(4)])
        (use apart_later [OF Suc.prems(4), of 1 "length (s' @ rest)" 0 1] Cons in simp)
    moreover have "apart (a + 1) (length (s' @ rest)) (r + 1) n"
      using apart_later [OF Suc.prems(4), of 1 "length (s' @ rest)" 1 n] Cons by simp
    ultimately have "segment_loop n (m(r := upper c)) (a + 1) (r + 1) =
        (put (m(r := upper c)) (r + 1) (take n (map upper s' @ replicate n 0x5F)), a + 1 + of_nat (min n (length s')))"
      using Suc.IH [of "m(r := upper c)" "a + 1" s' "r + 1"] Suc.prems(2,3) Cons by (simp del: fun_upd_apply)
    moreover have "take n (map upper s' @ replicate (Suc n) 0x5F) = take n (map upper s' @ replicate n 0x5F)"
      by (simp add: min_def del: replicate_Suc)
    ultimately show ?thesis using c Cons
      by (simp add: ACPI_IS_PATH_SEPARATOR_def upper_def [symmetric] del: replicate_Suc fun_upd_apply)
  qed
qed simp

text \<open>All segments, when none is too long; otherwise the writes stay inside the room for them.\<close>

lemma segments_loop_ok:
  assumes "cstring m a (join ss)" "\<forall>s \<in> set ss. 0x2E \<notin> set s" "apart a (length (join ss)) r (4 * length ss)"
  shows "if \<forall>s \<in> set ss. length s \<le> 4
         then segments_loop (length ss) m a r = (put m r (concat (map canon ss)), Some (r + of_nat (4 * length ss)))
         else \<exists>bs. length bs \<le> 4 * length ss \<and> segments_loop (length ss) m a r = (put m r bs, None)"
  using assms
proof (induction ss arbitrary: m a r)
  case (Cons s ss)
  define rest where "rest = (if ss = [] then [] else 0x2E # join ss)"
  have j: "join (s # ss) = s @ rest" unfolding rest_def by (rule join_Cons)
  have e: "segment_end rest" by (simp add: rest_def segment_end_def)
  define m1 where "m1 = put m r (canon s)"
  have loop: "segment_loop 4 m a r = (m1, a + of_nat (min 4 (length s)))"
    using segment_loop_ok [of m a s rest r 4] Cons.prems e apart_later [OF Cons.prems(3), of 0 "length (s @ rest)" 0 4]
    unfolding j by (simp add: m1_def canon_def)
  have str: "cstring m1 a (s @ rest)"
    unfolding m1_def by (rule cstring_put_apart)
      (use Cons.prems(1) apart_later [OF Cons.prems(3), of 0 "length (s @ rest)" 0 4] in \<open>simp_all add: j\<close>)
  show ?case
  proof (cases "length s \<le> 4")
    case False
    then have "m1 (a + 4) = s ! 4" "s ! 4 \<noteq> 0" "s ! 4 \<noteq> 0x2E"
      using cstring_nth [OF str, of 4] Cons.prems(2) cstring_no_zero [OF str] nth_mem [of 4 s]
      by (auto simp: nth_append simp del: nth_mem)
    then have "segments_loop (length (s # ss)) m a r = (m1, None)"
      using False by (simp add: loop ACPI_IS_PATH_SEPARATOR_def ACPI_NAME_SIZE_def)
    then show ?thesis using False unfolding m1_def by (auto intro!: exI [of _ "canon s"])
  next
    case True
    define b where "b = a + of_nat (length s)"
    have b: "cstring m1 b rest" unfolding b_def by (rule cstring_append [OF str])
    then have stop: "m1 b = 0 \<or> ACPI_IS_PATH_SEPARATOR (m1 b)"
      by (cases "ss = []") (simp_all add: rest_def ACPI_IS_PATH_SEPARATOR_def)
    have step: "segments_loop (length (s # ss)) m a r = segments_loop (length ss) m1 (b + 1) (r + 4)"
      using True stop by (auto simp: loop b_def ACPI_NAME_SIZE_def min_absorb2)
    show ?thesis
    proof (cases "ss = []")
      case True
      then show ?thesis using step \<open>length s \<le> 4\<close> by (simp add: m1_def)
    next
      case False
      have "cstring m1 (b + 1) (join ss)" using b False by (simp add: rest_def)
      moreover have "apart (b + 1) (length (join ss)) (r + 4) (4 * length ss)"
        using apart_later [OF Cons.prems(3), of "Suc (length s)" "length (join ss)" 4 "4 * length ss"] False
        by (simp add: j rest_def b_def algebra_simps)
      ultimately have ih: "if \<forall>s \<in> set ss. length s \<le> 4
         then segments_loop (length ss) m1 (b + 1) (r + 4) =
           (put m1 (r + 4) (concat (map canon ss)), Some (r + 4 + of_nat (4 * length ss)))
         else \<exists>bs. length bs \<le> 4 * length ss \<and> segments_loop (length ss) m1 (b + 1) (r + 4) = (put m1 (r + 4) bs, None)"
        using Cons.IH [of m1 "b + 1" "r + 4"] Cons.prems(2) by simp
      have put: "put m1 (r + 4) bs = put m r (canon s @ bs)" for bs by (simp add: m1_def put_append)
      show ?thesis
      proof (cases "\<forall>s \<in> set ss. length s \<le> 4")
        case True
        then show ?thesis using ih \<open>length s \<le> 4\<close> unfolding step put by (simp add: algebra_simps)
      next
        case False
        then obtain bs where "length bs \<le> 4 * length ss" "segments_loop (length ss) m1 (b + 1) (r + 4) = (put m1 (r + 4) bs, None)"
          using ih unfolding if_not_P [OF False] by blast
        then show ?thesis using False unfolding step put by (auto intro!: exI [of _ "canon s @ bs"])
      qed
    qed
  qed
qed simp


section \<open>The length of the internal form\<close>

text \<open>
  \<open>name_text p ss xs\<close>: the text \<open>xs\<close> is the name with the prefix \<open>p\<close> and the segments \<open>ss\<close>.  The code takes
  more than one backslash in front for one, and a prefix character further on for one of a segment.
\<close>

definition begins :: "prefix \<Rightarrow> u8 list \<Rightarrow> u8 list \<Rightarrow> bool" where
  "begins p pre rest \<longleftrightarrow>
     (case p of
        Absolute \<Rightarrow> pre \<noteq> [] \<and> pre = replicate (length pre) 0x5C \<and> (rest = [] \<or> hd rest \<noteq> 0x5C)
      | Parents k \<Rightarrow> pre = replicate k 0x5E \<and> (rest = [] \<or> hd rest \<noteq> 0x5E \<and> (k = 0 \<longrightarrow> hd rest \<noteq> 0x5C)))"

definition name_text :: "prefix \<Rightarrow> u8 list list \<Rightarrow> u8 list \<Rightarrow> bool" where
  "name_text p ss xs \<longleftrightarrow>
     (\<exists>pre. xs = pre @ join ss \<and> begins p pre (join ss)) \<and> (\<forall>s \<in> set ss. 0x2E \<notin> set s) \<and> ss \<noteq> [[]]"

fun carats :: "prefix \<Rightarrow> nat" where
  "carats Absolute = 0"
| "carats (Parents k) = k"

text \<open>Every text is a name.\<close>

lemma join_onto: "\<exists>ss. join ss = xs \<and> (\<forall>s \<in> set ss. 0x2E \<notin> set s) \<and> ss \<noteq> [[]]" for xs :: "u8 list"
proof (induction xs)
  case Nil
  show ?case by (intro exI [of _ "[]"]) simp
next
  case (Cons x xs)
  then obtain ss where ss: "join ss = xs" "\<forall>s \<in> set ss. 0x2E \<notin> set s" "ss \<noteq> [[]]" by blast
  consider "x = 0x2E" "ss = []" | "x = 0x2E" "ss \<noteq> []" | "x \<noteq> 0x2E" "ss = []" | s t where "x \<noteq> 0x2E" "ss = s # t" by (cases ss) auto
  then show ?case
  proof cases
    case 1
    then show ?thesis using ss by (intro exI [of _ "[[], []]"]) simp
  next
    case 2
    then show ?thesis using ss by (intro exI [of _ "[] # ss"]) (simp add: join_Cons)
  next
    case 3
    then show ?thesis using ss by (intro exI [of _ "[[x]]"]) simp
  next
    case 4
    then show ?thesis using ss by (intro exI [of _ "(x # s) # t"]) (simp add: join_Cons)
  qed
qed

lemma leading: "\<exists>n rest. xs = replicate n c @ rest \<and> (rest = [] \<or> hd rest \<noteq> c)"
proof (induction xs)
  case (Cons x xs)
  then obtain n rest where "xs = replicate n c @ rest" "rest = [] \<or> hd rest \<noteq> c" by blast
  then show ?case by (cases "x = c") (auto intro: exI [of _ "Suc n"] exI [of _ 0])
qed simp

lemma every_text_is_name: "\<exists>p ss. name_text p ss xs"
proof (cases "xs \<noteq> [] \<and> hd xs = 0x5C")
  case True
  obtain n rest where r: "xs = replicate n 0x5C @ rest" "rest = [] \<or> hd rest \<noteq> 0x5C" using leading by metis
  obtain ss where "join ss = rest" "\<forall>s \<in> set ss. 0x2E \<notin> set s" "ss \<noteq> [[]]" using join_onto by metis
  moreover have "n \<noteq> 0" using True r by (cases n) auto
  ultimately have "name_text Absolute ss xs" using r unfolding name_text_def begins_def by auto
  then show ?thesis by blast
next
  case False
  obtain n rest where r: "xs = replicate n 0x5E @ rest" "rest = [] \<or> hd rest \<noteq> 0x5E" using leading by metis
  obtain ss where "join ss = rest" "\<forall>s \<in> set ss. 0x2E \<notin> set s" "ss \<noteq> [[]]" using join_onto by metis
  moreover have "n = 0 \<Longrightarrow> rest = [] \<or> hd rest \<noteq> 0x5C" using False r by auto
  ultimately have "name_text (Parents n) ss xs" using r unfolding name_text_def begins_def by auto
  then show ?thesis by blast
qed

lemma root_loop_ok:
  "cstring m a (replicate n 0x5C @ rest) \<Longrightarrow> rest = [] \<or> hd rest \<noteq> 0x5C \<Longrightarrow> root_loop m a = Some (a + of_nat n)"
proof (induction n arbitrary: a)
  case 0
  then have "m a \<noteq> 0x5C" by (cases rest) auto
  then show ?case by (subst root_loop.simps) (simp add: ACPI_IS_ROOT_PREFIX_def)
next
  case (Suc n)
  then show ?case by (subst root_loop.simps) (simp add: ACPI_IS_ROOT_PREFIX_def add.assoc)
qed

lemma carat_loop_ok:
  "cstring m a (replicate n 0x5E @ rest) \<Longrightarrow> rest = [] \<or> hd rest \<noteq> 0x5E \<Longrightarrow>
    carat_loop m a k = Some (a + of_nat n, k + of_nat n)"
proof (induction n arbitrary: a k)
  case 0
  then have "m a \<noteq> 0x5E" by (cases rest) auto
  then show ?case by (subst carat_loop.simps) (simp add: ACPI_IS_PARENT_PREFIX_def)
next
  case (Suc n)
  then show ?case by (subst carat_loop.simps) (simp add: ACPI_IS_PARENT_PREFIX_def add.assoc)
qed

lemma separator_loop_ok:
  "cstring m (a + ucast i) xs \<Longrightarrow> unat i + length xs < 2 ^ 32 \<Longrightarrow>
    separator_loop m a i n = Some (n + of_nat (count_list xs 0x2E))"
proof (induction xs arbitrary: i n)
  case Nil
  then show ?case by (subst separator_loop.simps) simp
next
  case (Cons x xs)
  have i: "ucast (i + 1) = (ucast i + 1 :: u64)" "unat (i + 1) = Suc (unat i)"
    using Cons.prems(2) by (simp_all add: word_eq_unat unat_word_ariths unsigned_ucast_eq take_bit_nat_eq_self)
  then have "cstring m (a + ucast (i + 1)) xs" using Cons.prems(1) by (simp add: add.assoc)
  then have "separator_loop m a (i + 1) n' = Some (n' + of_nat (count_list xs 0x2E))" for n'
    using Cons.IH [of "i + 1"] Cons.prems(2) i(2) by simp
  then show ?case using Cons.prems(1)
    by (subst separator_loop.simps) (auto simp: ACPI_IS_PATH_SEPARATOR_def)
qed

lemma join_empty: "ss \<noteq> [[]] \<Longrightarrow> join ss = [] \<longleftrightarrow> ss = []"
  by (cases ss) (auto simp: join_Cons)

lemma internal_length_ok:
  assumes "cstring m (ExternalName Info) (pre @ join ss)" "begins p pre (join ss)"
    and "\<forall>s \<in> set ss. 0x2E \<notin> set s" "ss \<noteq> [[]]" "length (join ss) < 2 ^ 32"
  shows "AcpiNsGetInternalNameLength m Info =
    Some (Info\<lparr>FullyQualified := (p = Absolute), NumCarats := of_nat (carats p), NumSegments := of_nat (length ss),
      NameLength := of_nat (4 * length ss + 4 + carats p), NextExternalChar := ExternalName Info + of_nat (length pre)\<rparr>)"
proof -
  define E where "E = ExternalName Info"
  define q where "q = E + of_nat (length pre)"
  have q: "cstring m q (join ss)" unfolding q_def E_def by (rule cstring_append [OF assms(1)])
  have seg: "(if m q \<noteq> 0 then separator_loop m q 0 1 else Some 0) = Some (of_nat (length ss))"
  proof (cases "ss = []")
    case True
    then show ?thesis using q by simp
  next
    case False
    then have "join ss \<noteq> []" using assms(4) join_empty by blast
    then have "m q \<noteq> 0" using q by (cases "join ss") auto
    moreover have "separator_loop m q 0 1 = Some (of_nat (Suc (count_list (join ss) 0x2E)))"
      using separator_loop_ok [of m q 0 "join ss" 1] q assms(5) by simp
    ultimately show ?thesis using count_join [OF assms(3) False] by simp
  qed
  have prefix: "(if ACPI_IS_ROOT_PREFIX (m E) then map_option (\<lambda>p. (True, p, 0)) (root_loop m (E + 1))
      else map_option (\<lambda>(p, n). (False, p, n)) (carat_loop m E 0)) = Some (p = Absolute, q, of_nat (carats p))"
  proof (cases p)
    case Absolute
    then obtain n where pre: "pre = replicate (Suc n) 0x5C"
      using assms(2) unfolding begins_def by (cases "length pre") auto
    then have "m E = 0x5C" "cstring m (E + 1) (replicate n 0x5C @ join ss)" using assms(1) by (simp_all add: E_def)
    moreover have "join ss = [] \<or> hd (join ss) \<noteq> 0x5C" using assms(2) Absolute by (simp add: begins_def)
    ultimately show ?thesis using root_loop_ok [of m "E + 1" n "join ss"] Absolute
      by (simp add: ACPI_IS_ROOT_PREFIX_def q_def pre add.assoc)
  next
    case (Parents k)
    then have pre: "pre = replicate k 0x5E" "join ss = [] \<or> hd (join ss) \<noteq> 0x5E" "k = 0 \<Longrightarrow> join ss = [] \<or> hd (join ss) \<noteq> 0x5C"
      using assms(2) by (auto simp: begins_def)
    have "m E \<noteq> 0x5C"
      using assms(1) pre by (cases k; cases "join ss") (auto simp: E_def)
    then show ?thesis using carat_loop_ok [of m E k "join ss" 0] assms(1) pre Parents
      by (simp add: ACPI_IS_ROOT_PREFIX_def q_def E_def)
  qed
  have len: "ucast ACPI_NAME_SIZE * of_nat (length ss) + 4 + of_nat (carats p) = (of_nat (4 * length ss + 4 + carats p) :: u32)"
    by (simp add: ACPI_NAME_SIZE_def)
  show ?thesis
    unfolding AcpiNsGetInternalNameLength_def E_def [symmetric] prefix bind.simps prod.case seg q_def [symmetric]
    by (simp only: option.map len)
qed


section \<open>The internal form\<close>

lemma write_carats_put: "write_carats n m a = put m a (replicate n AML_PARENT_PREFIX)"
  by (induction n arbitrary: m a) simp_all

lemma ucast_count: "(ucast (of_nat n :: u32) :: u8) = of_nat n"
  by (simp add: word_eq_unat unsigned_ucast_eq unsigned_of_nat take_bit_take_bit)

lemma of_nat_u32: "n < 2 ^ 32 \<Longrightarrow> unat (of_nat n :: u32) = n"
  by (simp add: unsigned_of_nat take_bit_nat_eq_self)

lemma of_nat_u32_64: "n < 2 ^ 32 \<Longrightarrow> (ucast (of_nat n :: u32) :: u64) = of_nat n"
  by (simp add: word_eq_unat unsigned_ucast_eq unsigned_of_nat take_bit_nat_eq_self)

definition fits :: "u8 list list \<Rightarrow> bool" where "fits ss \<longleftrightarrow> (\<forall>s \<in> set ss. length s \<le> 4)"

lemma build_internal_ok:
  assumes info: "FullyQualified Info = (p = Absolute)" "NumCarats Info = of_nat (carats p)" "NumSegments Info = of_nat (length ss)"
    and "cstring m (NextExternalChar Info) (join ss)" "\<forall>s \<in> set ss. 0x2E \<notin> set s" "4 * length ss + 4 + carats p < 2 ^ 32"
    and "apart (NextExternalChar Info) (length (join ss)) (InternalName Info) (4 * length ss + 4 + carats p)"
  shows "if fits ss then AcpiNsBuildInternalName m Info = (AE_OK, put m (InternalName Info) (internal_name p ss))
         else \<exists>bs. length bs \<le> 4 * length ss + 4 + carats p \<and>
           AcpiNsBuildInternalName m Info = (AE_BAD_PATHNAME, put m (InternalName Info) bs)"
proof -
  define N where "N = InternalName Info"
  define n where "n = length ss"
  define pre where "pre = prefix_chars p @ count_chars n"
  define m1 where "m1 = put m N pre"
  have small: "n < 2 ^ 32" "carats p < 2 ^ 32" using assms(6) by (simp_all add: n_def)
  have pl: "length pre \<le> 3 + carats p" using length_count_chars [of n] by (cases p) (simp_all add: pre_def)
  have head: "(if FullyQualified Info then (m(N := AML_ROOT_PREFIX), 1)
      else (write_carats (unat (NumCarats Info)) m N, ucast (NumCarats Info))) =
      (put m N (prefix_chars p), of_nat (length (prefix_chars p)) :: u64)"
    using small(2) by (cases p) (simp_all add: info write_carats_put of_nat_u32 of_nat_u32_64)
  have n1: "of_nat n \<le> (1 :: u32) \<longleftrightarrow> n \<le> 1" "of_nat n = (2 :: u32) \<longleftrightarrow> n = 2"
    using small(1) by (simp_all add: word_le_nat_alt word_eq_unat of_nat_u32)
  have count: "(let (m, i) = (put m N (prefix_chars p), of_nat (length (prefix_chars p)));
        x = (if of_nat n \<le> (1 :: u32) then (m, N + i)
          else if of_nat n = (2 :: u32) then (m(N + i := AML_DUAL_NAME_PREFIX), N + (i + 1))
          else (m(N + i := AML_MULTI_NAME_PREFIX_OP, N + (i + 1) := ucast (of_nat n :: u32)), N + (i + 2))) in x) =
      (m1, N + of_nat (length pre))"
    by (auto simp: n1 m1_def pre_def count_chars_def put_append ucast_count add.assoc Let_def simp del: fun_upd_apply)
  have build: "AcpiNsBuildInternalName m Info = (case segments_loop n m1 (NextExternalChar Info) (N + of_nat (length pre)) of
      (m, None) \<Rightarrow> (AE_BAD_PATHNAME, m) | (m, Some Result) \<Rightarrow> (AE_OK, m(Result := 0)))"
    using count small(1) head unfolding AcpiNsBuildInternalName_def N_def [symmetric] info n_def [symmetric]
    by (simp add: Let_def of_nat_u32 split: if_splits)
  have ap: "apart (NextExternalChar Info) (length (join ss)) N (length pre)"
    "apart (NextExternalChar Info) (length (join ss)) (N + of_nat (length pre)) (4 * length ss)"
    using apart_later [OF assms(7), of 0 "length (join ss)" 0 "length pre"]
      apart_later [OF assms(7), of 0 "length (join ss)" "length pre" "4 * length ss"] pl by (simp_all add: N_def)
  have "cstring m1 (NextExternalChar Info) (join ss)"
    unfolding m1_def by (rule cstring_put_apart [OF assms(4) ap(1)])
  from segments_loop_ok [OF this assms(5) ap(2)] show ?thesis
  proof (cases "fits ss")
    case True
    then have "segments_loop n m1 (NextExternalChar Info) (N + of_nat (length pre)) =
        (put m N (pre @ concat (map canon ss)), Some (N + of_nat (length (pre @ concat (map canon ss)))))"
      using segments_loop_ok [OF \<open>cstring m1 _ _\<close> assms(5) ap(2)]
      by (simp add: fits_def n_def m1_def put_append algebra_simps)
    then have "AcpiNsBuildInternalName m Info = (AE_OK, put m N ((pre @ concat (map canon ss)) @ [0]))"
      unfolding build put_append [of m N "pre @ concat (map canon ss)"] by simp
    then show ?thesis using True by (simp add: internal_name_def pre_def n_def N_def)
  next
    case False
    then obtain bs where "length bs \<le> 4 * length ss"
      "segments_loop n m1 (NextExternalChar Info) (N + of_nat (length pre)) = (put m1 (N + of_nat (length pre)) bs, None)"
      using segments_loop_ok [OF \<open>cstring m1 _ _\<close> assms(5) ap(2)] unfolding fits_def n_def by (auto split: if_splits)
    then have "AcpiNsBuildInternalName m Info = (AE_BAD_PATHNAME, put m N (pre @ bs))" "length (pre @ bs) \<le> 4 * length ss + 4 + carats p"
      using pl unfolding build by (simp_all add: m1_def put_append)
    then show ?thesis using False unfolding N_def by (auto intro!: exI [of _ "pre @ bs"])
  qed
qed


lemma memset_put: "memset m d v n = put m d (replicate (unat n) (ucast v))"
proof -
  have "memset_loop m d c k = put m d (replicate k c)" for c k by (induction k arbitrary: m d) simp_all
  then show ?thesis by (simp add: memset_def)
qed

lemma put_outside: "length cs < 2 ^ 64 \<Longrightarrow> length cs \<le> unat (x - a) \<Longrightarrow> put m a cs x = m x"
  by (simp add: put_block)

lemma put_writes: "length cs < 2 ^ 64 \<Longrightarrow> holds (put m a cs) a cs"
  using unat_diff_offset [of _ a] by (simp add: holds_def put_block)

definition internal_room :: "prefix \<Rightarrow> u8 list list \<Rightarrow> nat" where
  "internal_room p ss = 4 * length ss + 4 + carats p"

lemma length_internal_name: "length (internal_name p ss) \<le> internal_room p ss"
  using length_count_chars [of "length ss"] by (cases p) (simp_all add: internal_name_def internal_room_def)

lemma name_text_bound:
  assumes "name_text p ss xs"
  shows "length ss \<le> Suc (length xs)" "carats p \<le> length xs"
proof -
  obtain pre where xs: "xs = pre @ join ss" "begins p pre (join ss)" and dots: "\<forall>s \<in> set ss. 0x2E \<notin> set s"
    using assms unfolding name_text_def by blast
  show "carats p \<le> length xs" using xs by (cases p) (simp_all add: begins_def)
  have "count_list (join ss) 0x2E \<le> length (join ss)" by (rule count_le_length)
  then show "length ss \<le> Suc (length xs)" using count_join [OF dots] xs(1) by (cases "ss = []") auto
qed

lemma internalize_ok:
  assumes "cstring m E xs" "name_text p ss xs" "xs \<noteq> []" "E \<noteq> 0" "ConvertedName \<noteq> 0" "N \<noteq> 0" "length xs < 2 ^ 28"
    and "apart E (length xs) N (internal_room p ss)"
  shows "\<exists>m'. AcpiNsInternalizeName m Info N E ConvertedName =
      Some (if fits ss then (AE_OK, m', Some N) else (AE_BAD_PATHNAME, m', None)) \<and>
    (fits ss \<longrightarrow> holds m' N (internal_name p ss)) \<and> (\<forall>x. internal_room p ss \<le> unat (x - N) \<longrightarrow> m' x = m x)"
proof -
  define L where "L = internal_room p ss"
  obtain pre where xs: "xs = pre @ join ss" "begins p pre (join ss)" and dots: "\<forall>s \<in> set ss. 0x2E \<notin> set s" "ss \<noteq> [[]]"
    using assms(2) unfolding name_text_def by blast
  have L: "L < 2 ^ 32" "L = 4 * length ss + 4 + carats p"
    using name_text_bound [OF assms(2)] assms(7) by (simp_all add: L_def internal_room_def)
  define I where "I = Info\<lparr>ExternalName := E, FullyQualified := (p = Absolute), NumCarats := of_nat (carats p),
      NumSegments := of_nat (length ss), NameLength := of_nat L, NextExternalChar := E + of_nat (length pre), InternalName := N\<rparr>"
  have fields: "FullyQualified I = (p = Absolute)" "NumCarats I = of_nat (carats p)" "NumSegments I = of_nat (length ss)"
    "NextExternalChar I = E + of_nat (length pre)" "InternalName I = N" by (simp_all add: I_def)
  define m0 where "m0 = put m N (replicate L 0)"
  have len: "AcpiNsGetInternalNameLength m (Info\<lparr>ExternalName := E\<rparr>) =
      Some (Info\<lparr>ExternalName := E, FullyQualified := (p = Absolute), NumCarats := of_nat (carats p),
      NumSegments := of_nat (length ss), NameLength := of_nat L, NextExternalChar := E + of_nat (length pre)\<rparr>)"
    using internal_length_ok [of m "Info\<lparr>ExternalName := E\<rparr>" pre ss p] xs dots assms(1,7) by (simp add: L(2))
  have alloc: "AcpiOsAllocateZeroed m N (ucast (of_nat L :: u32)) = m0"
    using assms(6) L(1) by (simp add: AcpiOsAllocateZeroed_def memset_put m0_def of_nat_u32_64 unsigned_of_nat take_bit_nat_eq_self)
  have ap: "apart E (length xs) N L" using assms(8) by (simp add: L_def)
  have "cstring m0 E xs" unfolding m0_def by (rule cstring_put_apart [OF assms(1)]) (simp add: ap)
  then have "cstring m0 (E + of_nat (length pre)) (join ss)" unfolding xs(1) by (rule cstring_append)
  moreover have "apart (E + of_nat (length pre)) (length (join ss)) N L"
    using apart_later [OF ap, of "length pre" "length (join ss)" 0 L] by (simp add: xs(1))
  ultimately have build: "if fits ss then AcpiNsBuildInternalName m0 I = (AE_OK, put m0 N (internal_name p ss))
      else \<exists>bs. length bs \<le> L \<and> AcpiNsBuildInternalName m0 I = (AE_BAD_PATHNAME, put m0 N bs)"
    using build_internal_ok [of I p ss m0] dots(1) L(1) unfolding fields L(2) [symmetric] by blast
  have E: "m E \<noteq> 0" using assms(1,3) by (cases xs) auto
  have start: "AcpiNsInternalizeName m Info N E ConvertedName =
      Some (case AcpiNsBuildInternalName m0 I of (Status, m) \<Rightarrow>
        if Status \<noteq> AE_OK then (Status, m, None) else (AE_OK, m, Some N))"
    using assms(4-6) E unfolding AcpiNsInternalizeName_def len
    by (simp add: alloc Let_def I_def)
  have frame: "put m0 N bs x = m x" if "length bs \<le> L" "L \<le> unat (x - N)" for bs x
    using that L(1) by (simp add: m0_def put_outside)
  have bad: "AE_BAD_PATHNAME \<noteq> AE_OK" by (simp add: AE_BAD_PATHNAME_def acpi_status)
  show ?thesis
  proof (cases "fits ss")
    case True
    have l: "length (internal_name p ss) < 2 ^ 64" "length (internal_name p ss) \<le> L"
      using length_internal_name [of p ss] L(1) by (simp_all add: L_def)
    then show ?thesis using True build start frame put_writes [OF l(1), of m0 N]
      by (auto simp: L_def [symmetric])
  next
    case False
    then obtain bs where "length bs \<le> L" "AcpiNsBuildInternalName m0 I = (AE_BAD_PATHNAME, put m0 N bs)" using build by auto
    then show ?thesis using False start frame bad by (auto simp: L_def [symmetric])
  qed
qed

section \<open>The external form\<close>

definition aml_char :: "u8 \<Rightarrow> bool" where
  "aml_char c \<longleftrightarrow> c \<ge> 0x41 \<and> c \<le> 0x5A \<or> c \<ge> 0x30 \<and> c \<le> 0x39 \<or> c = 0x5F"

definition asl_char :: "u8 \<Rightarrow> bool" where
  "asl_char c \<longleftrightarrow> aml_char c \<or> c \<ge> 0x61 \<and> c \<le> 0x7A"

lemma upper_table: "list_all (\<lambda>n. asl_char (of_nat n) \<longrightarrow> aml_char (upper (of_nat n))) [0..<256]"
  by code_simp

lemma upper_asl: "asl_char c \<Longrightarrow> aml_char (upper c)"
proof -
  have "unat c \<in> set [0..<256]" using u8_bound [of c] by simp
  then have "asl_char (of_nat (unat c)) \<longrightarrow> aml_char (upper (of_nat (unat c)))"
    using upper_table unfolding list_all_iff by blast
  then show "asl_char c \<Longrightarrow> aml_char (upper c)" unfolding of_nat_unat ucast_id by simp
qed

lemma aml_char_valid: "aml_char c \<Longrightarrow> AcpiUtValidAcpiChar c i"
  by (auto simp: aml_char_def AcpiUtValidAcpiChar_def)

lemma aml_char_plain: "aml_char c \<Longrightarrow> c \<notin> {0, 0x2E, 0x2F, 0x5C, 0x5E}"
  by (auto simp: aml_char_def)

definition aml_segment :: "u8 list \<Rightarrow> bool" where
  "aml_segment s \<longleftrightarrow> length s = 4 \<and> (\<forall>c \<in> set s. aml_char c)"

lemma canon_aml: "\<forall>c \<in> set s. asl_char c \<Longrightarrow> aml_segment (canon s)"
proof -
  assume "\<forall>c \<in> set s. asl_char c"
  moreover have "aml_char 0x5F" by (simp add: aml_char_def)
  ultimately show ?thesis by (auto simp: aml_segment_def canon_def upper_asl dest!: in_set_takeD)
qed

lemma repair_loop_valid:
  "\<forall>k < n. AcpiUtValidAcpiChar (m (a + of_nat (i + k))) (of_nat (i + k)) \<Longrightarrow> repair_loop m a i n = m"
proof (induction n arbitrary: i)
  case (Suc n)
  have "AcpiUtValidAcpiChar (m (a + of_nat i)) (of_nat i)" using Suc.prems [rule_format, of 0] by simp
  moreover have "\<forall>k < n. AcpiUtValidAcpiChar (m (a + of_nat (Suc i + k))) (of_nat (Suc i + k))"
    using Suc.prems [rule_format, of "Suc _"] by simp
  ultimately show ?case using Suc.IH [of "Suc i"] by simp
qed simp

lemma repair_valid:
  assumes "holds m a s" "aml_segment s"
  shows "AcpiUtRepairName m a = m"
proof -
  have "\<forall>k < 4. aml_char (m (a + of_nat k))" using assms by (auto simp: holds_def aml_segment_def)
  then have "repair_loop m a 0 4 = m" by (intro repair_loop_valid) (simp add: aml_char_valid)
  then show ?thesis by (simp add: AcpiUtRepairName_def)
qed

lemma holds_put_apart:
  assumes "holds m a xs" "apart a (length xs) r (length ys)" "length ys < 2 ^ 64"
  shows "holds (put m r ys) a xs"
  unfolding holds_def
proof (intro allI impI)
  fix i assume i: "i < length xs"
  have "\<not> unat (a + of_nat i - r) < length ys"
  proof
    assume "unat (a + of_nat i - r) < length ys"
    then have "a + of_nat i \<noteq> r + of_nat (unat (a + of_nat i - r))"
      using assms(2) i unfolding apart_def by (meson less_imp_le)
    then show False by simp
  qed
  then show "put m r ys (a + of_nat i) = xs ! i" using assms(1,3) i by (simp add: put_block holds_def)
qed

lemma strncpy_copy_put:
  assumes "holds m src cs" "0 \<notin> set cs" "apart src (length cs) dest (length cs)" "length cs < 2 ^ 64"
  shows "strncpy_copy m dest src (length cs) = (put m dest cs, dest + of_nat (length cs), 0)"
  using assms
proof (induction cs arbitrary: m src dest)
  case (Cons c cs)
  have c: "m src = c" "c \<noteq> 0" using Cons.prems(1,2) by (simp_all add: holds_Cons)
  have "holds (put m dest [c]) (src + 1) cs"
    by (rule holds_put_apart) (use Cons.prems(1,4) apart_later [OF Cons.prems(3), of 1 "length cs" 0 1] in \<open>simp_all add: holds_Cons\<close>)
  moreover have "apart (src + 1) (length cs) (dest + 1) (length cs)"
    using apart_later [OF Cons.prems(3), of 1 "length cs" 1 "length cs"] by simp
  ultimately have "strncpy_copy (m(dest := c)) (dest + 1) (src + 1) (length cs) =
      (put (m(dest := c)) (dest + 1) cs, dest + 1 + of_nat (length cs), 0)"
    using Cons.IH [of "m(dest := c)" "src + 1" "dest + 1"] Cons.prems(2,4) by (simp del: fun_upd_apply)
  then show ?case using c by (simp add: Let_def add.assoc del: fun_upd_apply)
qed simp

lemma move_name_put:
  assumes "holds m src cs" "length cs = 4" "0 \<notin> set cs" "apart src 4 dest 4"
  shows "ACPI_MOVE_NAME m dest src = put m dest cs"
  using strncpy_copy_put [OF assms(1,3)] assms(2,4) by (simp add: ACPI_MOVE_NAME_def strncpy_def ACPI_NAME_SIZE_def)


text \<open>The segments are copied with the points put in between.\<close>

definition joined :: "nat \<Rightarrow> u8 list list \<Rightarrow> u8 list" where
  "joined i ts = (if i > 0 \<and> ts \<noteq> [] then 0x2E # join ts else join ts)"

lemma joined_Cons: "joined i (t # ts) = (if i > 0 then [0x2E] else []) @ t @ joined (Suc i) ts"
  by (simp add: joined_def join_Cons)

lemma holds_prefix: "holds m a (xs @ ys) \<Longrightarrow> holds m a xs"
  by (simp add: holds_append)

lemma segment_copy_ok:
  assumes "holds m (Nm + of_nat X) (concat ts)" "\<forall>t \<in> set ts. aml_segment t"
    and "X + 4 * length ts < 2 ^ 32" "J + 5 * length ts < 2 ^ 32" "i + length ts < 2 ^ 32"
    and "apart (Nm + of_nat X) (4 * length ts) (A + of_nat J) (length (joined i ts))"
  shows "segment_copy (length ts) m A Nm (of_nat i) (of_nat J) (of_nat X) = put m (A + of_nat J) (joined i ts)"
  using assms
proof (induction ts arbitrary: m i J X)
  case Nil
  then show ?case by (simp add: joined_def)
next
  case (Cons t ts)
  define dot :: "u8 list" where "dot = (if i > 0 then [0x2E] else [])"
  define J' where "J' = J + length dot"
  have d: "length dot \<le> 1" "joined i (t # ts) = dot @ t @ joined (Suc i) ts" by (simp_all add: dot_def joined_Cons)
  have t: "aml_segment t" "length t = 4" using Cons.prems(2) by (simp_all add: aml_segment_def)
  have lc: "length (concat (t # ts)) = 4 * length (t # ts)"
    using Cons.prems(2) by (induction ts) (auto simp: aml_segment_def t(2))
  define m1 where "m1 = put m (A + of_nat J) dot"
  define m2 where "m2 = put m (A + of_nat J) (dot @ t)"
  have small: "i < 2 ^ 32" "J' < 2 ^ 32" "X < 2 ^ 32" using Cons.prems(3-5) d(1) by (simp_all add: J'_def)
  have i0: "(of_nat i :: u32) > 0 \<longleftrightarrow> i > 0"
    using small(1) by (simp add: word_less_nat_alt of_nat_u32)
  have dotw: "(if (of_nat i :: u32) > 0 then (m(A + ucast (of_nat J :: u32) := 0x2E), of_nat J + 1) else (m, of_nat J)) =
      (m1, of_nat J' :: u32)"
    using small Cons.prems(4) unfolding i0 by (simp add: m1_def J'_def dot_def of_nat_u32_64 del: fun_upd_apply)
  have ap: "apart (Nm + of_nat X) (4 * length (t # ts)) (A + of_nat J) (length (dot @ t))"
    using apart_later [OF Cons.prems(6), of 0 "4 * length (t # ts)" 0 "length (dot @ t)"] by (simp add: d(2))
  have h: "holds (put m (A + of_nat J) cs) (Nm + of_nat X) (concat (t # ts))" if "length cs \<le> length (dot @ t)" for cs
    by (rule holds_put_apart [OF Cons.prems(1)])
      (use that d(1) t(2) lc apart_later [OF ap, of 0 "4 * length (t # ts)" 0 "length cs"] in simp_all)
  have "holds m1 (Nm + of_nat X) t" using h [of dot] unfolding m1_def by (auto intro: holds_prefix)
  moreover have "0 \<notin> set t" using t(1) aml_char_plain unfolding aml_segment_def by blast
  moreover have "apart (Nm + of_nat X) 4 (A + of_nat J') 4"
    using apart_later [OF ap, of 0 4 "length dot" 4] t(2) by (simp add: J'_def add.assoc)
  ultimately have move: "ACPI_MOVE_NAME m1 (A + of_nat J') (Nm + of_nat X) = m2"
    using move_name_put [OF _ t(2)] by (simp add: m1_def m2_def put_append J'_def add.assoc)
  have "holds m2 (A + of_nat J') t"
    using put_writes [of t m1 "A + of_nat J'"] t(2) by (simp add: m1_def m2_def put_append J'_def add.assoc)
  then have repair: "AcpiUtRepairName m2 (A + of_nat J') = m2" using t(1) by (rule repair_valid)
  have h2: "holds m2 (Nm + of_nat (X + 4)) (concat ts)"
    using h [of "dot @ t"] t(2) unfolding m2_def by (simp add: holds_append add.assoc)
  have ap2: "apart (Nm + of_nat (X + 4)) (4 * length ts) (A + of_nat (J' + 4)) (length (joined (Suc i) ts))"
    using apart_later [OF Cons.prems(6), of 4 "4 * length ts" "length (dot @ t)" "length (joined (Suc i) ts)"] t(2)
    by (simp add: d(2) J'_def add.assoc)
  have "segment_copy (length ts) m2 A Nm (of_nat (Suc i)) (of_nat (J' + 4)) (of_nat (X + 4)) =
      put m2 (A + of_nat (J' + 4)) (joined (Suc i) ts)"
    by (rule Cons.IH [OF h2 _ _ _ _ ap2]) (use Cons.prems(2-5) d(1) in \<open>simp_all add: J'_def\<close>)
  moreover have "put m2 (A + of_nat (J' + 4)) (joined (Suc i) ts) = put m (A + of_nat J) (joined i (t # ts))"
    using t(2) by (simp add: d(2) m2_def put_append J'_def add.assoc)
  moreover have args: "of_nat i + 1 = (of_nat (Suc i) :: u32)" "of_nat J' + ucast ACPI_NAME_SIZE = (of_nat (J' + 4) :: u32)"
    "of_nat X + ucast ACPI_NAME_SIZE = (of_nat (X + 4) :: u32)"
    by (simp_all add: ACPI_NAME_SIZE_def)
  have "segment_copy (length (t # ts)) m A Nm (of_nat i) (of_nat J) (of_nat X) =
      segment_copy (length ts) m2 A Nm (of_nat (Suc i)) (of_nat (J' + 4)) (of_nat (X + 4))"
    unfolding length_Cons segment_copy.simps dotw Let_def prod.case
      of_nat_u32_64 [OF small(2)] of_nat_u32_64 [OF small(3)] move repair args by (rule refl)
  ultimately show ?case by simp
qed

lemma prefix_copy_ok:
  assumes "holds m (Nm + of_nat i) cs" "i + length cs < 2 ^ 32" "apart (Nm + of_nat i) (length cs) (A + of_nat i) (length cs)"
  shows "prefix_copy (length cs) m A Nm (of_nat i) = put m (A + of_nat i) cs"
  using assms
proof (induction cs arbitrary: m i)
  case (Cons c cs)
  have i: "(ucast (of_nat i :: u32) :: u64) = of_nat i" "of_nat i + 1 = (of_nat (Suc i) :: u32)"
    using Cons.prems(2) by (simp_all add: of_nat_u32_64)
  have c: "m (Nm + of_nat i) = c" using Cons.prems(1) by (simp add: holds_Cons)
  have "holds (put m (A + of_nat i) [c]) (Nm + of_nat (Suc i)) cs"
    by (rule holds_put_apart)
      (use Cons.prems(1) apart_later [OF Cons.prems(3), of 1 "length cs" 0 1] in \<open>simp_all add: holds_Cons algebra_simps\<close>)
  moreover have "apart (Nm + of_nat (Suc i)) (length cs) (A + of_nat (Suc i)) (length cs)"
    using apart_later [OF Cons.prems(3), of 1 "length cs" 1 "length cs"] by (simp add: algebra_simps)
  ultimately have "prefix_copy (length cs) (m(A + of_nat i := c)) A Nm (of_nat (Suc i)) =
      put (m(A + of_nat i := c)) (A + of_nat (Suc i)) cs"
    using Cons.IH [of "m(A + of_nat i := c)" "Suc i"] Cons.prems(2) by (simp del: fun_upd_apply of_nat_Suc)
  then show ?case by (simp add: i c algebra_simps del: fun_upd_apply)
qed simp

lemma parent_loop_ok:
  assumes "holds m (Nm + of_nat i) (replicate k 0x5E @ [c])" "c \<noteq> 0x5E" "k < n" "i + k < 2 ^ 32"
  shows "parent_loop n m Nm (of_nat i) (of_nat i) = of_nat (i + k)"
  using assms
proof (induction k arbitrary: i n)
  case 0
  then show ?case by (cases n) (simp_all add: holds_Cons ACPI_IS_PARENT_PREFIX_def of_nat_u32_64)
next
  case (Suc k)
  then obtain n' where n: "n = Suc n'" by (cases n) auto
  have "parent_loop n' m Nm (of_nat (Suc i)) (of_nat (Suc i)) = of_nat (Suc i + k)"
    by (rule Suc.IH) (use Suc.prems n in \<open>simp_all add: holds_Cons algebra_simps\<close>)
  then show ?case using Suc.prems by (simp add: n holds_Cons ACPI_IS_PARENT_PREFIX_def of_nat_u32_64 algebra_simps)
qed


definition internal_body :: "u8 list list \<Rightarrow> u8 list" where
  "internal_body ts = count_chars (length ts) @ concat ts @ [0]"

definition external_name :: "prefix \<Rightarrow> u8 list list \<Rightarrow> u8 list" where
  "external_name p ss = prefix_chars p @ join (map canon ss)"

lemma unat_lt32: "unat (w :: u32) < 2 ^ 32"
  using unsigned_less [of w] by simp

lemma length_concat_aml: "\<forall>t \<in> set ts. aml_segment t \<Longrightarrow> length (concat ts) = 4 * length ts"
  by (induction ts) (auto simp: aml_segment_def)

lemma length_join_aml: "\<forall>t \<in> set ts. aml_segment t \<Longrightarrow> length (join ts) = 5 * length ts - 1"
proof (induction ts)
  case (Cons t ts)
  then show ?case by (cases ts) (auto simp: join_Cons aml_segment_def)
qed simp

lemma internal_body_hd:
  assumes "\<forall>t \<in> set ts. aml_segment t"
  shows "\<exists>c r. internal_body ts = c # r \<and> c \<noteq> 0x5C \<and> c \<noteq> 0x5E \<and> (ts = [] \<longrightarrow> c = 0) \<and>
    (length ts = 1 \<longrightarrow> c \<notin> {0, 0x2E, 0x2F}) \<and> (length ts = 2 \<longrightarrow> c = 0x2E) \<and>
    (length ts > 2 \<longrightarrow> c = 0x2F \<and> (\<exists>r'. r = of_nat (length ts) # r'))"
proof -
  consider "ts = []" | t where "ts = [t]" | "length ts = 2" | "length ts > 2" by (cases ts rule: remdups_adj.cases) auto
  then show ?thesis
  proof cases
    case 2
    then obtain c r where t: "t = c # r" using assms by (cases t) (auto simp: aml_segment_def)
    then have "c \<notin> {0, 0x2E, 0x2F, 0x5C, 0x5E}" using assms 2 by (intro aml_char_plain) (auto simp: aml_segment_def)
    moreover have "internal_body ts = c # r @ [0]" using 2 t by (simp add: internal_body_def count_chars_def)
    ultimately show ?thesis using 2 by simp
  next
    case 3
    then have "internal_body ts = 0x2E # concat ts @ [0]"
      by (simp add: internal_body_def count_chars_def AML_DUAL_NAME_PREFIX_def)
    then show ?thesis using 3 by auto
  next
    case 4
    then have "internal_body ts = 0x2F # of_nat (length ts) # concat ts @ [0]"
      by (simp add: internal_body_def count_chars_def AML_MULTI_NAME_PREFIX_OP_def)
    then show ?thesis using 4 by auto
  qed (simp add: internal_body_def count_chars_def)
qed

lemma external_prefix_ok:
  assumes "holds m Nm (prefix_chars p @ internal_body ts)" "\<forall>t \<in> set ts. aml_segment t"
    and "length (prefix_chars p) < unat Len" 
  shows "external_prefix m Len Nm = of_nat (length (prefix_chars p))"
proof (cases p)
  case Absolute
  then show ?thesis using assms(1) by (simp add: external_prefix_def holds_Cons)
next
  case (Parents k)
  obtain c r where b: "internal_body ts = c # r" "c \<noteq> 0x5C" "c \<noteq> 0x5E" using internal_body_hd [OF assms(2)] by metis
  then have h: "holds m Nm (replicate k 0x5E @ [c] @ r)" using assms(1) by (simp add: Parents AML_PARENT_PREFIX_def)
  then have "holds m Nm (replicate k 0x5E @ [c])" by (metis append_assoc holds_prefix)
  then have loop: "parent_loop (unat Len) m Nm 0 0 = of_nat k"
    using parent_loop_ok [of m Nm 0 k c "unat Len"] b(3) assms(3) Parents unat_lt32 [of Len] by simp
  show ?thesis
  proof (cases k)
    case 0
    then show ?thesis using h b by (simp add: external_prefix_def holds_Cons Parents AML_ROOT_PREFIX_def AML_PARENT_PREFIX_def)
  next
    case (Suc k')
    then show ?thesis using h loop by (simp add: external_prefix_def holds_Cons Parents AML_ROOT_PREFIX_def AML_PARENT_PREFIX_def)
  qed
qed

lemma external_segments_ok:
  assumes "holds m (Nm + of_nat P) (internal_body ts)" "\<forall>t \<in> set ts. aml_segment t" "length ts \<le> 255"
    and "P < unat Len"
  shows "external_segments m Len Nm (of_nat P) =
    (if ts = [] then 0 else of_nat (P + length (count_chars (length ts))), of_nat (length ts))"
proof -
  have P: "P < 2 ^ 32" using assms(4) unat_lt32 [of Len] by simp
  then have lt: "of_nat P < Len" using assms(4) by (simp add: word_less_nat_alt of_nat_u32)
  obtain c r where b: "internal_body ts = c # r" and c: "ts = [] \<longrightarrow> c = 0" "length ts = 1 \<longrightarrow> c \<notin> {0, 0x2E, 0x2F}"
    "length ts = 2 \<longrightarrow> c = 0x2E" "length ts > 2 \<longrightarrow> c = 0x2F \<and> (\<exists>r'. r = of_nat (length ts) # r')"
    using internal_body_hd [OF assms(2)] by blast
  have m: "m (Nm + of_nat P) = c" "holds m (Nm + of_nat P + 1) r" using assms(1) b by (simp_all add: holds_Cons)
  consider "ts = []" | "length ts = 1" | "length ts = 2" | "length ts > 2" by (cases ts rule: remdups_adj.cases) auto
  then show ?thesis
  proof cases
    case 4
    then obtain r' where r: "r = of_nat (length ts) # r'" using c(4) by blast
    have "ucast (of_nat (length ts) :: u8) = (of_nat (length ts) :: u32)"
      using assms(3) by (simp add: word_eq_unat unsigned_ucast_eq unsigned_of_nat take_bit_nat_eq_self)
    moreover have "m (Nm + (of_nat P + 1)) = of_nat (length ts)" using m(2) r by (simp add: holds_Cons add.assoc)
    ultimately show ?thesis using 4 c(4) m(1) lt P
      by (auto simp: external_segments_def Let_def of_nat_u32_64 AML_MULTI_NAME_PREFIX_OP_def count_chars_def)
  qed (use c m(1) lt P in \<open>auto simp: external_segments_def Let_def of_nat_u32_64 AML_MULTI_NAME_PREFIX_OP_def
        AML_DUAL_NAME_PREFIX_def count_chars_def\<close>)
qed

lemma put_zeros:
  assumes "length cs + 1 < 2 ^ 64"
  shows "put (put m a (replicate (length cs + 1) 0)) a cs = put m a (cs @ [0])"
proof
  fix x
  show "put (put m a (replicate (length cs + 1) 0)) a cs x = put m a (cs @ [0]) x"
    using assms by (simp add: put_block nth_append less_Suc_eq del: replicate_Suc)
qed

lemma externalize_ok:
  fixes p ss
  defines "I \<equiv> internal_name p ss" and "X \<equiv> external_name p ss"
  assumes "holds m Nm I" "\<forall>s \<in> set ss. \<forall>c \<in> set s. asl_char c" "length ss \<le> 255" "carats p < 2 ^ 28"
    and "length I \<le> unat Len" "Nm \<noteq> 0" "A \<noteq> 0" "ConvertedName \<noteq> 0" "apart Nm (length I) A (length X + 1)"
  shows "AcpiNsExternalizeName m A Len Nm ConvertedName =
    (if length X + 1 \<le> unat Len then (AE_OK, put m A (X @ [0]), Some A, Some (of_nat (length X + 1)))
     else (AE_BAD_PATHNAME, m, None, None))" and "0 \<notin> set X"
proof -
  define ts where "ts = map canon ss"
  define n where "n = length ss"
  define P where "P = length (prefix_chars p)"
  define R where "R = length X + 1"
  have ts: "\<forall>t \<in> set ts. aml_segment t" "length ts = n" using assms(4) canon_aml by (auto simp: ts_def n_def)
  have I: "I = prefix_chars p @ internal_body ts" by (simp add: I_def internal_name_def internal_body_def ts_def)
  have X: "X = prefix_chars p @ join ts" by (simp add: X_def external_name_def ts_def)
  have P: "P \<le> 2 ^ 28" using assms(6) by (cases p) (simp_all add: P_def)
  have R: "R = P + 4 * n + (if n > 0 then n - 1 else 0) + 1" "R < 2 ^ 32"
    using length_join_aml [OF ts(1)] P assms(5) by (auto simp: R_def X P_def ts(2) n_def)
  have Iok: "P + length (count_chars n) + 4 * n < length I"
    using length_concat_aml [OF ts(1)] by (simp add: I internal_body_def P_def ts(2))
  have Pl: "P < unat Len" using Iok assms(7) by simp
  have pre: "external_prefix m Len Nm = of_nat P"
    using external_prefix_ok [of m Nm p ts Len] assms(3) ts(1) Pl unfolding I P_def by blast
  define Y where "Y = (if ts = [] then 0 else P + length (count_chars n))"
  have body: "holds m (Nm + of_nat P) (internal_body ts)" using assms(3) by (simp add: I holds_append P_def)
  have seg: "external_segments m Len Nm (of_nat P) = (of_nat Y, of_nat n)"
    using external_segments_ok [OF body ts(1) _ Pl] assms(5) by (simp add: ts(2) n_def Y_def)
  have n0: "(of_nat n :: u32) > 0 \<longleftrightarrow> n > 0" using assms(5) by (simp add: word_less_nat_alt of_nat_u32 n_def)
  have req: "of_nat P + 4 * of_nat n + (if (of_nat n :: u32) > 0 then of_nat n - 1 else 0) + 1 = (of_nat R :: u32)"
    unfolding n0 R(1) by (cases n) simp_all
  have gt: "(of_nat R :: u32) > Len \<longleftrightarrow> \<not> R \<le> unat Len" using R(2) by (simp add: word_less_nat_alt of_nat_u32 not_le)
  define m0 where "m0 = put m A (replicate R 0)"
  have alloc: "AcpiOsAllocateZeroed m A (ucast (of_nat R :: u32)) = m0"
    using assms(9) R(2) by (simp add: AcpiOsAllocateZeroed_def memset_put m0_def of_nat_u32_64 unsigned_of_nat take_bit_nat_eq_self)
  have ap: "apart Nm (length I) A R" using assms(11) by (simp add: R_def)
  have h0: "holds m0 Nm I" unfolding m0_def by (rule holds_put_apart [OF assms(3)]) (use ap R(2) in simp_all)
  define m1 where "m1 = put m0 A (prefix_chars p)"
  have "prefix_copy (unat (of_nat P :: u32)) m0 A Nm 0 = m1"
    using prefix_copy_ok [of m0 Nm 0 "prefix_chars p" A] h0 apart_later [OF ap, of 0 P 0 P] P Iok R(1)
    by (simp add: I holds_append P_def m1_def of_nat_u32)
  moreover have "segment_copy (unat (of_nat n :: u32)) m1 A Nm 0 (of_nat P) (of_nat Y) = put m0 A X"
  proof (cases "ts = []")
    case True
    then show ?thesis using ts(2) by (simp add: X m1_def)
  next
    case False
    have Y: "Y = P + length (count_chars n)" using False by (simp add: Y_def)
    have "holds m1 Nm I" unfolding m1_def
      by (rule holds_put_apart [OF h0]) (use apart_later [OF ap, of 0 "length I" 0 P] R(1) P in \<open>simp_all add: P_def\<close>)
    then have "holds m1 (Nm + of_nat Y) (concat ts)"
      by (simp add: I internal_body_def holds_append Y P_def ts(2) add.assoc)
    moreover have "length (joined 0 ts) = R - 1 - P" by (simp add: joined_def R_def X P_def)
    then have "apart (Nm + of_nat Y) (4 * length ts) (A + of_nat P) (length (joined 0 ts))"
      by (intro apart_later [OF ap]) (use Iok R(1) in \<open>simp_all add: Y ts(2)\<close>)
    ultimately have "segment_copy (length ts) m1 A Nm (of_nat 0) (of_nat P) (of_nat Y) = put m1 (A + of_nat P) (joined 0 ts)"
      using length_count_chars [of n] P assms(5) by (intro segment_copy_ok) (simp_all add: ts n_def Y)
    then show ?thesis using assms(5) by (simp add: ts(2) n_def of_nat_u32 m1_def X put_append P_def joined_def)
  qed
  moreover have "put m0 A X = put m A (X @ [0])"
    unfolding m0_def R_def by (rule put_zeros) (use R(2) in \<open>simp add: R_def\<close>)
  ultimately show "AcpiNsExternalizeName m A Len Nm ConvertedName =
    (if length X + 1 \<le> unat Len then (AE_OK, put m A (X @ [0]), Some A, Some (of_nat (length X + 1)))
     else (AE_BAD_PATHNAME, m, None, None))"
    using Pl assms(8-10) unfolding AcpiNsExternalizeName_def pre seg Let_def prod.case req gt alloc R_def [symmetric]
    by (auto simp: word_eq_unat)
  have "0 \<notin> set (join us)" if "\<forall>t \<in> set us. aml_segment t" for us
    using that
  proof (induction us)
    case (Cons u us)
    then have "0 \<notin> set u" using aml_char_plain by (force simp: aml_segment_def)
    then show ?case using Cons by (simp add: join_Cons)
  qed simp
  then show "0 \<notin> set X" using ts(1) by (cases p) (simp_all add: X AML_ROOT_PREFIX_def AML_PARENT_PREFIX_def)
qed


section \<open>The properties\<close>

lemma apart_above: "unat a + n < unat r \<Longrightarrow> unat r + l \<le> 2 ^ 64 \<Longrightarrow> apart a n r l"
  unfolding apart_def
proof (intro allI impI notI)
  fix i j assume b: "unat a + n < unat r" "unat r + l \<le> 2 ^ 64" "i \<le> n" "j < l" "a + of_nat i = r + of_nat j"
  have "unat (a + of_nat i) = unat a + i" "unat (r + of_nat j) = unat r + j"
    using b(1-4) unat_lt64 [of r] by (simp_all add: unat_word_ariths unsigned_of_nat take_bit_nat_eq_self)
  then have "unat a + i = unat r + j" using b(5) by metis
  then show False using b(1,3) by simp
qed

lemma internal_name_parsed:
  assumes "holds m N (internal_name p ss)" "\<forall>s \<in> set ss. \<forall>c \<in> set s. asl_char c" "length ss \<le> 255"
    and "prefix_chars p \<noteq> [] \<or> ss \<noteq> []"
  shows "AcpiPsGetNextNamestring m N =
    Some (N + of_nat (length (internal_name p ss) - (if ss = [] then 0 else 1)), Some N)"
proof -
  define ts where "ts = map canon ss"
  have ts: "\<forall>t \<in> set ts. aml_segment t" "length ts = length ss" using assms(2) canon_aml by (auto simp: ts_def)
  have seg: "\<forall>t \<in> set ts. segment t"
  proof
    fix t assume "t \<in> set ts"
    then have "length t = 4" "\<forall>c \<in> set t. aml_char c" using ts(1) by (auto simp: aml_segment_def)
    then obtain c r where "t = c # r" "aml_char c" "length t = 4" by (cases t) auto
    then show "segment t" using aml_char_plain [of c] by (simp add: segment_def)
  qed
  define path where "path = (if ss = [] then [0] else count_chars (length ss) @ concat ts)"
  have "ss = [] \<or> (\<exists>s. ss = [s]) \<or> (\<exists>s t. ss = [s, t]) \<or> 2 < length ss"
    by (cases ss; cases "tl ss"; cases "tl (tl ss)") auto
  then have np: "name_path path"
  proof (elim disjE exE)
    assume l: "2 < length ss"
    then have "path = 0x2F # of_nat (length ss) # concat ts \<and> length ts = unat (of_nat (length ss) :: u8)"
      using assms(3) by (auto simp: path_def count_chars_def AML_MULTI_NAME_PREFIX_OP_def ts(2) unsigned_of_nat take_bit_nat_eq_self)
    then show ?thesis using seg unfolding name_path_def by blast
  qed (use seg in \<open>auto simp: path_def name_path_def count_chars_def ts_def AML_DUAL_NAME_PREFIX_def\<close>)
  have i: "internal_name p ss = (prefix_chars p @ path) @ (if ss = [] then [] else [0])"
    by (auto simp: internal_name_def path_def ts_def count_chars_def)
  have "holds m N (prefix_chars p @ path)" using assms(1) unfolding i by (rule holds_prefix)
  moreover have "set (prefix_chars p) \<subseteq> {0x5C, 0x5E}"
    by (cases p) (auto simp: AML_ROOT_PREFIX_def AML_PARENT_PREFIX_def)
  moreover have "\<not> (prefix_chars p = [] \<and> path = [0])"
    using assms(4) np seg by (auto simp: path_def count_chars_def ts_def AML_DUAL_NAME_PREFIX_def AML_MULTI_NAME_PREFIX_OP_def
        dest: arg_cong [of _ _ length] split: if_splits)
  ultimately show ?thesis using namestring_ok [of m N "prefix_chars p" path] np unfolding i by auto
qed

text \<open>
  C31: every text is a name, a prefix and segments.  \<^verbatim>\<open>AcpiNsInternalizeName\<close> refuses it exactly when a
  segment has more than four characters, writes its internal form to the allocated block otherwise,
  and in both cases changes nothing outside of the length it has computed.
\<close>

theorem internalize_name_exact:
  assumes "cstring m E xs" "name_text p ss xs" "xs \<noteq> []" "E \<noteq> 0" "ConvertedName \<noteq> 0" "N \<noteq> 0" "length xs < 2 ^ 28"
    and "apart E (length xs) N (internal_room p ss)"
  shows "\<exists>m'. AcpiNsInternalizeName m Info N E ConvertedName =
      Some (if fits ss then (AE_OK, m', Some N) else (AE_BAD_PATHNAME, m', None)) \<and>
    (fits ss \<longrightarrow> holds m' N (internal_name p ss)) \<and> (\<forall>x. internal_room p ss \<le> unat (x - N) \<longrightarrow> m' x = m x)"
  using assms by (rule internalize_ok)

text \<open>The length that is computed for the internal form of a long name is not enough for the external one.\<close>

lemma own_length_too_small:
  assumes "4 \<le> length ss" "\<forall>s \<in> set ss. \<forall>c \<in> set s. asl_char c"
  shows "internal_room Absolute ss \<le> length (external_name Absolute ss)"
proof -
  have "length (join (map canon ss)) = 5 * length ss - 1"
    using length_join_aml [of "map canon ss"] assms(2) canon_aml by auto
  then show ?thesis using assms(1) by (simp add: internal_room_def external_name_def)
qed

text \<open>
  C30: a name of letters, digits and underscores comes back in its canonical form, in upper case and
  with each segment filled up to four characters: its internal form is parsed as one name, up to its
  end, and \<^verbatim>\<open>AcpiNsExternalizeName\<close> turns it into that form.  But it refuses the name when the
  length it is given is that of the internal form (or any other) below the one of the result.
\<close>

theorem name_strings_roundtrip:
  assumes "cstring m E xs" "name_text p ss xs" "xs \<noteq> []" "E \<noteq> 0" "ConvertedName \<noteq> 0" "N \<noteq> 0" "length xs < 2 ^ 28"
    and "apart E (length xs) N (internal_room p ss)"
    and "fits ss" "\<forall>s \<in> set ss. \<forall>c \<in> set s. asl_char c" "length ss \<le> 255"
    and "A \<noteq> 0" "internal_room p ss \<le> unat Len" "apart N (internal_room p ss) A (length (external_name p ss) + 1)"
  shows "\<exists>m1. AcpiNsInternalizeName m Info N E ConvertedName = Some (AE_OK, m1, Some N) \<and>
    AcpiPsGetNextNamestring m1 N =
      Some (N + of_nat (length (internal_name p ss) - (if ss = [] then 0 else 1)), Some N) \<and>
    (if length (external_name p ss) < unat Len
     then \<exists>m2. AcpiNsExternalizeName m1 A Len N ConvertedName =
         (AE_OK, m2, Some A, Some (of_nat (length (external_name p ss) + 1))) \<and> cstring m2 A (external_name p ss)
     else AcpiNsExternalizeName m1 A Len N ConvertedName = (AE_BAD_PATHNAME, m1, None, None))"
proof -
  obtain m1 where m1: "AcpiNsInternalizeName m Info N E ConvertedName = Some (AE_OK, m1, Some N)" "holds m1 N (internal_name p ss)"
    using internalize_ok [OF assms(1-8), of Info] assms(9) by auto
  have ne: "prefix_chars p \<noteq> [] \<or> ss \<noteq> []"
    using assms(2,3) by (cases p) (auto simp: name_text_def begins_def)
  have ap: "apart N (length (internal_name p ss)) A (length (external_name p ss) + 1)"
    using apart_later [OF assms(14), of 0 "length (internal_name p ss)" 0] length_internal_name [of p ss] by simp
  have c: "carats p < 2 ^ 28" using name_text_bound(2) [OF assms(2)] assms(7) by simp
  have l: "length (internal_name p ss) \<le> unat Len" using length_internal_name [of p ss] assms(13) by simp
  note ext = externalize_ok [OF m1(2) assms(10,11) c l assms(6,12,5) ap]
  have "length (external_name p ss) + 1 < 2 ^ 64" if "length (external_name p ss) < unat Len"
    using that unat_lt32 [of Len] by simp
  then have "cstring (put m1 A (external_name p ss @ [0])) A (external_name p ss)" if "length (external_name p ss) < unat Len"
    using that ext(2) by (intro put_cstring)
  then show ?thesis
    using m1(1) internal_name_parsed [OF m1(2) assms(10,11) ne] ext(1) by (auto simp: Suc_le_eq)
qed

text \<open>A name at 16, to be converted to 64 and back to 128: \<^verbatim>\<open>\_SB.pci0\<close>.\<close>

definition example_name :: bytes where
  "example_name = put (\<lambda>_. 0) 16 [0x5C, 0x5F, 0x53, 0x42, 0x2E, 0x70, 0x63, 0x69, 0x30]"

definition example_info :: namestring_info where
  "example_info = \<lparr>ExternalName = 0, NextExternalChar = 0, InternalName = 0, NameLength = 0, NumSegments = 0, NumCarats = 0,
    FullyQualified = False\<rparr>"

lemma example_name_text:
  "cstring example_name 16 [0x5C, 0x5F, 0x53, 0x42, 0x2E, 0x70, 0x63, 0x69, 0x30]"
  "name_text Absolute [[0x5F, 0x53, 0x42], [0x70, 0x63, 0x69, 0x30]] [0x5C, 0x5F, 0x53, 0x42, 0x2E, 0x70, 0x63, 0x69, 0x30]"
proof -
  show "cstring example_name 16 [0x5C, 0x5F, 0x53, 0x42, 0x2E, 0x70, 0x63, 0x69, 0x30]" by (simp add: example_name_def)
  have "begins Absolute [0x5C] (join [[0x5F, 0x53, 0x42], [0x70, 0x63, 0x69, 0x30]])" by (simp add: begins_def)
  then show "name_text Absolute [[0x5F, 0x53, 0x42], [0x70, 0x63, 0x69, 0x30]] [0x5C, 0x5F, 0x53, 0x42, 0x2E, 0x70, 0x63, 0x69, 0x30]"
    unfolding name_text_def by (auto intro!: exI [of _ "[0x5C]"])
qed

theorem internalize_name_exact_witness:
  "\<exists>m'. AcpiNsInternalizeName example_name example_info 64 16 8 = Some (AE_OK, m', Some 64) \<and>
     holds m' 64 [0x5C, 0x2E, 0x5F, 0x53, 0x42, 0x5F, 0x50, 0x43, 0x49, 0x30, 0]"
proof -
  have i: "internal_name Absolute [[0x5F, 0x53, 0x42], [0x70, 0x63, 0x69, 0x30]] =
      [0x5C, 0x2E, 0x5F, 0x53, 0x42, 0x5F, 0x50, 0x43, 0x49, 0x30, 0]"
    by code_simp
  have ap: "apart 16 (length [0x5C, 0x5F, 0x53, 0x42, 0x2E, 0x70, 0x63, 0x69, 0x30 :: u8]) 64 (internal_room Absolute [[0x5F, 0x53, 0x42], [0x70, 0x63, 0x69, 0x30]])"
    by (rule apart_above) (simp_all add: internal_room_def)
  show ?thesis
    using internalize_name_exact [OF example_name_text, of 8 64 example_info] ap unfolding i by (auto simp: fits_def)
qed

theorem name_strings_roundtrip_witness:
  "\<exists>m1 m2. AcpiNsInternalizeName example_name example_info 64 16 8 = Some (AE_OK, m1, Some 64) \<and>
     AcpiPsGetNextNamestring m1 64 = Some (74, Some 64) \<and>
     AcpiNsExternalizeName m1 128 0xFFFFFFFF 64 8 = (AE_OK, m2, Some 128, Some 11) \<and>
     cstring m2 128 [0x5C, 0x5F, 0x53, 0x42, 0x5F, 0x2E, 0x50, 0x43, 0x49, 0x30]"
proof -
  let ?ss = "[[0x5F, 0x53, 0x42], [0x70, 0x63, 0x69, 0x30]] :: u8 list list"
  have i: "external_name Absolute ?ss = [0x5C, 0x5F, 0x53, 0x42, 0x5F, 0x2E, 0x50, 0x43, 0x49, 0x30]"
    "length (internal_name Absolute ?ss) = 11"
    by code_simp+
  have ap: "apart 16 (length [0x5C, 0x5F, 0x53, 0x42, 0x2E, 0x70, 0x63, 0x69, 0x30 :: u8]) 64 (internal_room Absolute ?ss)"
    "apart 64 (internal_room Absolute ?ss) 128 (length [0x5C, 0x5F, 0x53, 0x42, 0x5F, 0x2E, 0x50, 0x43, 0x49, 0x30 :: u8] + 1)"
    by (rule apart_above; simp add: internal_room_def)+
  have asl: "\<forall>s \<in> set ?ss. \<forall>c \<in> set s. asl_char c" by code_simp
  show ?thesis
    using name_strings_roundtrip [OF example_name_text, of 8 64 128 "0xFFFFFFFF" example_info] ap asl unfolding i
    by (auto simp: fits_def internal_room_def simp del: cstring.simps)
qed

end
