(* ===== verification/Acpi_Namespace.thy ===== *)
theory Acpi_Namespace
  imports Acpi_Name
begin

text \<open>
  The namespace of ACPICA (\<^verbatim>\<open>kernel/hw/acpica/nsalloc.c\<close>, \<^verbatim>\<open>nswalk.c\<close>, \<^verbatim>\<open>nssearch.c\<close>): a tree of nodes, each
  with its parent, its first child and its next peer.  The nodes are objects in a map from
  addresses; using a node that is not there is a fault.  The operand objects attached to nodes are
  not modelled: what detaching one leaves in the fields \<^verbatim>\<open>Object\<close> and \<^verbatim>\<open>Type\<close> of a node is a parameter.
  Debug output is left out.
\<close>

lemma bindR_mono [partial_function_mono]:
  assumes "mono_option B" "\<And>y. mono_option (\<lambda>f. C y f)"
  shows "mono_option (\<lambda>f. bindR (B f) (\<lambda>y. C y f))"
proof -
  have e: "bindR r g = Option.bind r (\<lambda>x. case x of Fault e \<Rightarrow> crash e | Ok y \<Rightarrow> g y)" for r :: "'c run" and g :: "'c \<Rightarrow> 'd run"
    by (simp add: bindR_def split: option.split res.split)
  have "mono_option (\<lambda>f. case x of Fault e \<Rightarrow> crash e | Ok y \<Rightarrow> C y f)" for x
    by (cases x) (simp_all add: assms(2) option.const_mono)
  then show ?thesis unfolding e by (intro bind_mono assms(1))
qed

section \<open>Nodes\<close>

record ns_node =
  Object :: ptr
  DescriptorType :: u8
  NodeType :: u8
  NodeFlags :: u8
  NodeOwner :: u8
  NodeName :: u32
  Parent :: ptr
  Child :: ptr
  Peer :: ptr

type_synonym ns_nodes = "ptr \<Rightarrow> ns_node option"

definition ACPI_DESC_TYPE_NAMED :: u8 where "ACPI_DESC_TYPE_NAMED = 0x0F"
definition ACPI_TYPE_ANY :: u32 where "ACPI_TYPE_ANY = 0x00"
definition ACPI_TYPE_LOCAL_METHOD_ALIAS :: u32 where "ACPI_TYPE_LOCAL_METHOD_ALIAS = 0x16"
definition ACPI_TYPE_LOCAL_MAX :: u32 where "ACPI_TYPE_LOCAL_MAX = 0x1D"
definition ANOBJ_TEMPORARY :: u8 where "ANOBJ_TEMPORARY = 0x02"

definition set_node :: "ns_nodes \<Rightarrow> ptr \<Rightarrow> (ns_node \<Rightarrow> ns_node) \<Rightarrow> ns_nodes run" where
  "set_node ns Node f = bindR (deref ns Node) (\<lambda>n. returns (ns(Node \<mapsto> f n)))"

definition AcpiNsGetNextNode :: "ns_nodes \<Rightarrow> ptr \<Rightarrow> ptr \<Rightarrow> ptr run" where
  "AcpiNsGetNextNode ns ParentNode ChildNode =
     (if ChildNode = 0 then bindR (deref ns ParentNode) (\<lambda>n. returns (Child n))
      else bindR (deref ns ChildNode) (\<lambda>n. returns (Peer n)))"

partial_function (option) typed_loop :: "ns_nodes \<Rightarrow> u32 \<Rightarrow> ptr \<Rightarrow> ptr run" where
  "typed_loop ns Type NextNode =
     (if NextNode = 0 then returns 0
      else bindR (deref ns NextNode) (\<lambda>n.
        if ucast (NodeType n) = Type then returns NextNode else typed_loop ns Type (Peer n)))"

definition AcpiNsGetNextNodeTyped :: "ns_nodes \<Rightarrow> u32 \<Rightarrow> ptr \<Rightarrow> ptr \<Rightarrow> ptr run" where
  "AcpiNsGetNextNodeTyped ns Type ParentNode ChildNode =
     bindR (AcpiNsGetNextNode ns ParentNode ChildNode) (\<lambda>NextNode.
       if Type = ACPI_TYPE_ANY then returns NextNode else typed_loop ns Type NextNode)"

section \<open>Walking\<close>

definition EXCEP_CTL :: "u32 \<Rightarrow> u32" where "EXCEP_CTL code = code OR 0x4000"
definition AE_CTRL_TERMINATE :: u32 where "AE_CTRL_TERMINATE = EXCEP_CTL 0x3"
definition AE_CTRL_DEPTH :: u32 where "AE_CTRL_DEPTH = EXCEP_CTL 0x6"
definition ACPI_NS_WALK_UNLOCK :: u32 where "ACPI_NS_WALK_UNLOCK = 0x01"
definition ACPI_NS_WALK_TEMP_NODES :: u32 where "ACPI_NS_WALK_TEMP_NODES = 0x02"

text \<open>
  The callbacks (\<open>None\<close> for \<^verbatim>\<open>NULL\<close>) and the two mutex functions act on a state \<open>'s\<close> of the caller, in which
  \<^verbatim>\<open>Context\<close> and \<^verbatim>\<open>ReturnValue\<close> are; they leave the nodes alone.
\<close>

type_synonym 's callback = "ptr \<Rightarrow> u32 \<Rightarrow> 's \<Rightarrow> 's \<times> u32"

record 's walker =
  DescendingCallback :: "'s callback option"
  AscendingCallback :: "'s callback option"
  release_mutex :: "'s \<Rightarrow> 's \<times> u32"
  acquire_mutex :: "'s \<Rightarrow> 's \<times> u32"

datatype visited = Go_on u32 | Stop u32

definition call_back :: "'s callback option \<Rightarrow> 's callback" where
  "call_back f Node Level s = (case f of Some f \<Rightarrow> f Node Level s | None \<Rightarrow> (s, AE_OK))"

text \<open>What is done at one node, up to the end of the \<^verbatim>\<open>switch\<close>: go on with a status, or return one.\<close>

definition visit_node ::
  "'s walker \<Rightarrow> u32 \<Rightarrow> u32 \<Rightarrow> ns_node \<Rightarrow> ptr \<Rightarrow> u32 \<Rightarrow> bool \<Rightarrow> 's \<Rightarrow> 's \<times> visited" where
  "visit_node w Type Flags n ChildNode Level NodePreviouslyVisited s =
     (let ChildType = (if Type \<noteq> ACPI_TYPE_ANY then ucast (NodeType n) else ACPI_TYPE_ANY) in
      if NodeFlags n AND ANOBJ_TEMPORARY \<noteq> 0 \<and> Flags AND ACPI_NS_WALK_TEMP_NODES = 0 then (s, Go_on AE_CTRL_DEPTH)
      else if ChildType = Type then
        (let unlock = (Flags AND ACPI_NS_WALK_UNLOCK \<noteq> 0);
             (s, MutexStatus) = (if unlock then release_mutex w s else (s, AE_OK))
         in if MutexStatus \<noteq> AE_OK then (s, Stop MutexStatus)
            else
              (let (s, Status) = call_back (if NodePreviouslyVisited then AscendingCallback w else DescendingCallback w) ChildNode Level s;
                   (s, MutexStatus) = (if unlock then acquire_mutex w s else (s, AE_OK))
               in if MutexStatus \<noteq> AE_OK then (s, Stop MutexStatus)
                  else if Status = AE_OK \<or> Status = AE_CTRL_DEPTH then (s, Go_on Status)
                  else if Status = AE_CTRL_TERMINATE then (s, Stop AE_OK)
                  else (s, Stop Status)))
      else (s, Go_on AE_OK))"

partial_function (option) node_walk_loop ::
  "'s walker \<Rightarrow> ns_nodes \<Rightarrow> u32 \<Rightarrow> u32 \<Rightarrow> u32 \<Rightarrow> u32 \<Rightarrow> ptr \<Rightarrow> ptr \<Rightarrow> bool \<Rightarrow> 's \<Rightarrow> ('s \<times> u32) run" where
  "node_walk_loop w ns Type MaxDepth Flags Level ParentNode ChildNode NodePreviouslyVisited s =
     (if \<not> (Level > 0 \<and> ChildNode \<noteq> 0) then returns (s, AE_OK)
      else bindR (deref ns ChildNode) (\<lambda>n.
        case visit_node w Type Flags n ChildNode Level NodePreviouslyVisited s of
          (s, Stop Status) \<Rightarrow> returns (s, Status)
        | (s, Go_on Status) \<Rightarrow>
            if \<not> NodePreviouslyVisited \<and> Level < MaxDepth \<and> Status \<noteq> AE_CTRL_DEPTH \<and> Child n \<noteq> 0 then
              bindR (AcpiNsGetNextNode ns ChildNode 0) (\<lambda>next.
                node_walk_loop w ns Type MaxDepth Flags (Level + 1) ChildNode next NodePreviouslyVisited s)
            else if \<not> NodePreviouslyVisited then
              node_walk_loop w ns Type MaxDepth Flags Level ParentNode ChildNode True s
            else
              bindR (AcpiNsGetNextNode ns ParentNode ChildNode) (\<lambda>next.
                if next \<noteq> 0 then node_walk_loop w ns Type MaxDepth Flags Level ParentNode next False s
                else bindR (deref ns ParentNode) (\<lambda>p.
                  node_walk_loop w ns Type MaxDepth Flags (Level - 1) (Parent p) ParentNode True s))))"

text \<open>\<^verbatim>\<open>AcpiGbl_RootNode\<close> is an argument; \<^verbatim>\<open>ACPI_ROOT_OBJECT\<close> is the largest address.\<close>

definition ACPI_ROOT_OBJECT :: ptr where "ACPI_ROOT_OBJECT = 0xFFFFFFFFFFFFFFFF"

definition AcpiNsWalkNamespace ::
  "'s walker \<Rightarrow> ns_nodes \<Rightarrow> ptr \<Rightarrow> u32 \<Rightarrow> ptr \<Rightarrow> u32 \<Rightarrow> u32 \<Rightarrow> 's \<Rightarrow> ('s \<times> u32) run" where
  "AcpiNsWalkNamespace w ns RootNode Type StartNode MaxDepth Flags s =
     (let ParentNode = (if StartNode = ACPI_ROOT_OBJECT then RootNode else StartNode) in
      bindR (AcpiNsGetNextNode ns ParentNode 0) (\<lambda>ChildNode.
        node_walk_loop w ns Type MaxDepth Flags 1 ParentNode ChildNode False s))"


section \<open>Deleting\<close>

text \<open>
  The global variables, and what \<^verbatim>\<open>AcpiNsDetachObject\<close> leaves in the fields \<^verbatim>\<open>Object\<close> and \<^verbatim>\<open>Type\<close> of a node.
  Releasing the objects of a node, also the data objects that \<^verbatim>\<open>AcpiNsDeleteNode\<close> goes through after it,
  changes no other node.
\<close>

record ns_env =
  AcpiGbl_RootNode :: ptr
  AcpiGbl_RuntimeNamespaceOverride :: bool
  detached :: "ptr \<Rightarrow> ns_node \<Rightarrow> ptr \<times> u8"

definition detach_object :: "ns_env \<Rightarrow> ns_nodes \<Rightarrow> ptr \<Rightarrow> ns_nodes run" where
  "detach_object g ns Node =
     set_node ns Node (\<lambda>n. n\<lparr>Object := fst (detached g Node n), NodeType := snd (detached g Node n)\<rparr>)"

definition AcpiNsDeleteNode :: "ns_env \<Rightarrow> ns_nodes \<Rightarrow> ptr \<Rightarrow> ns_nodes run" where
  "AcpiNsDeleteNode g ns Node =
     bindR (detach_object g ns Node) (\<lambda>ns. returns (if Node = AcpiGbl_RootNode g then ns else ns(Node := None)))"

partial_function (option) previous_peer :: "ns_nodes \<Rightarrow> ptr \<Rightarrow> ptr \<Rightarrow> ptr \<Rightarrow> ptr run" where
  "previous_peer ns Node PrevNode NextNode =
     (if NextNode \<noteq> Node then bindR (deref ns NextNode) (\<lambda>n. previous_peer ns Node NextNode (Peer n))
      else returns PrevNode)"

definition AcpiNsRemoveNode :: "ns_env \<Rightarrow> ns_nodes \<Rightarrow> ptr \<Rightarrow> ns_nodes run" where
  "AcpiNsRemoveNode g ns Node =
     bindR (deref ns Node) (\<lambda>n.
     bindR (deref ns (Parent n)) (\<lambda>p.
     bindR (previous_peer ns Node 0 (Child p)) (\<lambda>PrevNode.
     bindR (if PrevNode \<noteq> 0 then set_node ns PrevNode (\<lambda>q. q\<lparr>Peer := Peer n\<rparr>)
            else set_node ns (Parent n) (\<lambda>q. q\<lparr>Child := Peer n\<rparr>)) (\<lambda>ns.
     AcpiNsDeleteNode g ns Node))))"

partial_function (option) children_loop :: "ns_env \<Rightarrow> ns_nodes \<Rightarrow> ptr \<Rightarrow> ns_nodes run" where
  "children_loop g ns NextNode =
     (if NextNode = 0 then returns ns
      else bindR (deref ns NextNode) (\<lambda>n.
           bindR (AcpiNsDeleteNode g ns NextNode) (\<lambda>ns. children_loop g ns (Peer n))))"

definition AcpiNsDeleteChildren :: "ns_env \<Rightarrow> ns_nodes \<Rightarrow> ptr \<Rightarrow> ns_nodes run" where
  "AcpiNsDeleteChildren g ns ParentNode =
     (if ParentNode = 0 then returns ns
      else bindR (deref ns ParentNode) (\<lambda>p.
           bindR (children_loop g ns (Child p)) (\<lambda>ns. set_node ns ParentNode (\<lambda>q. q\<lparr>Child := 0\<rparr>))))"

partial_function (option) subtree_loop :: "ns_env \<Rightarrow> ns_nodes \<Rightarrow> u32 \<Rightarrow> ptr \<Rightarrow> ptr \<Rightarrow> ns_nodes run" where
  "subtree_loop g ns Level ParentNode ChildNode =
     (if \<not> Level > 0 then returns ns
      else bindR (AcpiNsGetNextNode ns ParentNode ChildNode) (\<lambda>ChildNode.
        if ChildNode \<noteq> 0 then
          bindR (detach_object g ns ChildNode) (\<lambda>ns.
          bindR (deref ns ChildNode) (\<lambda>n.
            if Child n \<noteq> 0 then subtree_loop g ns (Level + 1) ChildNode 0
            else subtree_loop g ns Level ParentNode ChildNode))
        else
          bindR (AcpiNsDeleteChildren g ns ParentNode) (\<lambda>ns.
          bindR (deref ns ParentNode) (\<lambda>p.
            subtree_loop g ns (Level - 1) (Parent p) ParentNode))))"

text \<open>\<open>Acquired\<close> is the answer of \<^verbatim>\<open>AcpiUtAcquireMutex\<close>.\<close>

definition AcpiNsDeleteNamespaceSubtree :: "ns_env \<Rightarrow> u32 \<Rightarrow> ns_nodes \<Rightarrow> ptr \<Rightarrow> ns_nodes run" where
  "AcpiNsDeleteNamespaceSubtree g Acquired ns ParentNode =
     (if ParentNode = 0 \<or> Acquired \<noteq> AE_OK then returns ns else subtree_loop g ns 1 ParentNode 0)"

section \<open>Trees of nodes\<close>

text \<open>
  A list of peers with the trees below them.  \<open>peers ns p P f\<close>: the nodes from \<open>p\<close> on, children of \<open>P\<close>, are
  those of \<open>f\<close>.
\<close>

datatype forest = Bare | Tree ptr forest forest

fun top :: "forest \<Rightarrow> ptr" where
  "top Bare = 0"
| "top (Tree p cs ps) = p"

fun peers :: "ns_nodes \<Rightarrow> ptr \<Rightarrow> forest \<Rightarrow> bool" where
  "peers ns P Bare \<longleftrightarrow> True"
| "peers ns P (Tree p cs ps) \<longleftrightarrow> p \<noteq> 0 \<and>
     (\<exists>n. ns p = Some n \<and> Parent n = P \<and> Child n = top cs \<and> Peer n = top ps) \<and> peers ns p cs \<and> peers ns P ps"

fun addrs :: "forest \<Rightarrow> ptr list" where
  "addrs Bare = []"
| "addrs (Tree p cs ps) = p # addrs cs @ addrs ps"

fun depth :: "forest \<Rightarrow> nat" where
  "depth Bare = 0"
| "depth (Tree p cs ps) = max (Suc (depth cs)) (depth ps)"

text \<open>A node with the nodes below it.\<close>

definition scope :: "ns_nodes \<Rightarrow> ptr \<Rightarrow> forest \<Rightarrow> bool" where
  "scope ns P f \<longleftrightarrow> P \<noteq> 0 \<and> (\<exists>n. ns P = Some n \<and> Child n = top f) \<and> peers ns P f"

lemma top_zero: "peers ns P f \<Longrightarrow> top f = 0 \<longleftrightarrow> f = Bare"
  by (cases f) auto

lemma scope_child: "peers ns P (Tree p cs ps) \<Longrightarrow> scope ns p cs"
  by (auto simp: scope_def)

section \<open>The order of a walk\<close>

text \<open>
  The specification: what is done at a node comes before and after what is done below it, unless
  the walk is stopped (\<open>Some\<close> status) or told not to go down.
\<close>

fun walk_forest ::
  "(ptr \<Rightarrow> u32 \<Rightarrow> bool \<Rightarrow> 's \<Rightarrow> 's \<times> visited) \<Rightarrow> u32 \<Rightarrow> u32 \<Rightarrow> forest \<Rightarrow> 's \<Rightarrow> 's \<times> u32 option" where
  "walk_forest visit MaxDepth Level Bare s = (s, None)"
| "walk_forest visit MaxDepth Level (Tree p cs ps) s =
     (case visit p Level False s of
        (s, Stop Status) \<Rightarrow> (s, Some Status)
      | (s, Go_on Status) \<Rightarrow>
          (case (if Level < MaxDepth \<and> Status \<noteq> AE_CTRL_DEPTH then walk_forest visit MaxDepth (Level + 1) cs s else (s, None)) of
             (s, Some Status) \<Rightarrow> (s, Some Status)
           | (s, None) \<Rightarrow>
               (case visit p Level True s of
                  (s, Stop Status) \<Rightarrow> (s, Some Status)
                | (s, Go_on _) \<Rightarrow> walk_forest visit MaxDepth Level ps s)))"

definition visit_at :: "'s walker \<Rightarrow> ns_nodes \<Rightarrow> u32 \<Rightarrow> u32 \<Rightarrow> ptr \<Rightarrow> u32 \<Rightarrow> bool \<Rightarrow> 's \<Rightarrow> 's \<times> visited" where
  "visit_at w ns Type Flags p Level prev s = visit_node w Type Flags (the (ns p)) p Level prev s"

lemma level_up: "Level < MaxDepth \<Longrightarrow> Level + 1 > 0 \<and> Level + 1 - 1 = Level" for Level :: u32
  using unat_lt32 [of MaxDepth] by (simp add: word_less_nat_alt unat_word_ariths)

lemma node_walk_forest:
  assumes "peers ns P f" "f \<noteq> Bare" "Level > 0" "P \<noteq> 0" "ns P = Some q"
  shows "node_walk_loop w ns Type MaxDepth Flags Level P (top f) False s =
    (case walk_forest (visit_at w ns Type Flags) MaxDepth Level f s of
       (s, Some Status) \<Rightarrow> returns (s, Status)
     | (s, None) \<Rightarrow> node_walk_loop w ns Type MaxDepth Flags (Level - 1) (Parent q) P True s)"
  using assms
proof (induction f arbitrary: P q Level s)
  case (Tree p cs ps)
  let ?v = "visit_at w ns Type Flags"
  let ?loop = "node_walk_loop w ns Type MaxDepth Flags"
  obtain n where n: "p \<noteq> 0" "ns p = Some n" "Parent n = P" "Child n = top cs" "Peer n = top ps" "peers ns p cs" "peers ns P ps"
    using Tree.prems(1) by auto
  have v: "visit_node w Type Flags n p Level b s = ?v p Level b s" for b s by (simp add: visit_at_def n(2))
  have again: "?loop Level P p True s =
      (case ?v p Level True s of
         (s, Stop Status) \<Rightarrow> returns (s, Status)
       | (s, Go_on _) \<Rightarrow>
           (case walk_forest ?v MaxDepth Level ps s of
              (s, Some Status) \<Rightarrow> returns (s, Status)
            | (s, None) \<Rightarrow> ?loop (Level - 1) (Parent q) P True s))" for s
  proof (cases "ps = Bare")
    case True
    then show ?thesis using n Tree.prems(3-5)
      by (subst node_walk_loop.simps) (simp add: v AcpiNsGetNextNode_def split: prod.split visited.split)
  next
    case False
    then have "top ps \<noteq> 0" using n(7) by (simp add: top_zero)
    then show ?thesis using n Tree.prems(3-5)
      by (subst node_walk_loop.simps)
        (simp add: v AcpiNsGetNextNode_def Tree.IH(2) [OF n(7) False Tree.prems(3-5)] split: prod.split visited.split)
  qed
  show ?case
  proof (cases "?v p Level False s")
    case (Pair s1 r)
    show ?thesis
    proof (cases r)
      case (Stop st)
      then show ?thesis using n Tree.prems(3) Pair
        by (subst node_walk_loop.simps) (simp add: v)
    next
      case (Go_on st)
      show ?thesis
      proof (cases "Level < MaxDepth \<and> st \<noteq> AE_CTRL_DEPTH \<and> cs \<noteq> Bare")
        case True
        then have down: "?loop Level P p False s = ?loop (Level + 1) p (top cs) False s1"
          using n Tree.prems(3) Pair Go_on top_zero [OF n(6)]
          by (subst node_walk_loop.simps) (simp add: v AcpiNsGetNextNode_def)
        have lv: "Level + 1 > 0" "Level + 1 - 1 = Level" using level_up [of Level MaxDepth] True by simp_all
        have cs: "cs \<noteq> Bare" using True by simp
        show ?thesis
          using Tree.IH(1) [OF n(6) cs lv(1) n(1,2), of s1] True Pair Go_on
          unfolding top.simps down lv(2) n(3) again walk_forest.simps
          by (simp split: prod.split option.split visited.split)
      next
        case False
        then have "?loop Level P p False s = ?loop Level P p True s1"
          using n Tree.prems(3) Pair Go_on top_zero [OF n(6)]
          by (subst node_walk_loop.simps) (auto simp: v)
        moreover have "(if Level < MaxDepth \<and> st \<noteq> AE_CTRL_DEPTH then walk_forest ?v MaxDepth (Level + 1) cs s1 else (s1, None)) = (s1, None)"
          using False by auto
        ultimately show ?thesis using Pair Go_on unfolding top.simps again walk_forest.simps
          by (simp split: prod.split option.split visited.split)
      qed
    qed
  qed
qed simp

lemma walk_namespace_ok:
  assumes "scope ns Start f" "Start \<noteq> ACPI_ROOT_OBJECT \<or> RootNode = Start"
  shows "AcpiNsWalkNamespace w ns RootNode Type Start MaxDepth Flags s =
    (case walk_forest (visit_at w ns Type Flags) MaxDepth 1 f s of
       (s, Some Status) \<Rightarrow> returns (s, Status)
     | (s, None) \<Rightarrow> returns (s, AE_OK))"
proof -
  obtain q where q: "Start \<noteq> 0" "ns Start = Some q" "Child q = top f" "peers ns Start f"
    using assms(1) by (auto simp: scope_def)
  have start: "AcpiNsWalkNamespace w ns RootNode Type Start MaxDepth Flags s =
      node_walk_loop w ns Type MaxDepth Flags 1 Start (top f) False s"
    using assms(2) q by (auto simp: AcpiNsWalkNamespace_def AcpiNsGetNextNode_def)
  have over: "node_walk_loop w ns Type MaxDepth Flags 0 P p b s = returns (s, AE_OK)" for P p b s
    by (subst node_walk_loop.simps) simp
  show ?thesis
  proof (cases "f = Bare")
    case True
    then show ?thesis unfolding start by (subst node_walk_loop.simps) simp
  next
    case False
    have one: "(1 :: u32) > 0" by simp
    show ?thesis unfolding start node_walk_forest [OF q(4) False one q(1,2)]
      by (simp add: over split: prod.split option.split)
  qed
qed


section \<open>Deleting a subtree\<close>

definition without :: "ns_nodes \<Rightarrow> ptr set \<Rightarrow> ns_nodes" where
  "without ns A = (\<lambda>x. if x \<in> A then None else ns x)"

fun row :: "forest \<Rightarrow> ptr list" where
  "row Bare = []"
| "row (Tree p cs ps) = p # row ps"

lemma row_addrs: "set (row f) \<subseteq> set (addrs f)"
  by (induction f) auto

lemma distinct_row: "distinct (addrs f) \<Longrightarrow> distinct (row f)"
  using row_addrs by (induction f) fastforce+

text \<open>The peers of a row, whatever is below them.\<close>

fun linked :: "ns_nodes \<Rightarrow> ptr list \<Rightarrow> bool" where
  "linked ns [] \<longleftrightarrow> True"
| "linked ns (p # ps) \<longleftrightarrow> p \<noteq> 0 \<and> (\<exists>n. ns p = Some n \<and> Peer n = (case ps of [] \<Rightarrow> 0 | q # _ \<Rightarrow> q)) \<and> linked ns ps"

lemma linked_cong: "\<forall>x \<in> set ps. ns' x = ns x \<Longrightarrow> linked ns' ps = linked ns ps"
  by (induction ps) auto

lemma children_loop_ok:
  "linked ns ps \<Longrightarrow> distinct ps \<Longrightarrow> AcpiGbl_RootNode g \<notin> set ps \<Longrightarrow>
    children_loop g ns (case ps of [] \<Rightarrow> 0 | q # _ \<Rightarrow> q) = returns (without ns (set ps))"
proof (induction ps arbitrary: ns)
  case Nil
  then show ?case by (subst children_loop.simps) (simp add: without_def)
next
  case (Cons p ps)
  then obtain n where n: "p \<noteq> 0" "ns p = Some n" "Peer n = (case ps of [] \<Rightarrow> 0 | q # _ \<Rightarrow> q)" by auto
  have "linked (ns(p := None)) ps" using Cons.prems by (subst linked_cong [of _ _ ns]) auto
  then have "children_loop g (ns(p := None)) (Peer n) = returns (without (ns(p := None)) (set ps))"
    using Cons.IH [of "ns(p := None)"] Cons.prems unfolding n(3) by (simp del: fun_upd_apply)
  moreover have "without (ns(p := None)) (set ps) = without ns (set (p # ps))" by (auto simp: without_def)
  ultimately show ?case using n Cons.prems(3)
    by (subst children_loop.simps) (auto simp: AcpiNsDeleteNode_def detach_object_def set_node_def simp del: fun_upd_apply)
qed

lemma peers_cong: "\<forall>x \<in> set (addrs f). ns' x = ns x \<Longrightarrow> peers ns' P f = peers ns P f"
  by (induction f arbitrary: P) auto

lemma top_row: "top f = (case row f of [] \<Rightarrow> 0 | q # _ \<Rightarrow> q)"
  by (cases f) simp_all

lemma delete_children_ok:
  assumes "P \<noteq> 0" "ns P = Some n" "Child n = top f" "linked ns (row f)" "distinct (P # row f)" "AcpiGbl_RootNode g \<notin> set (row f)"
  shows "AcpiNsDeleteChildren g ns P = returns ((without ns (set (row f)))(P \<mapsto> n\<lparr>Child := 0\<rparr>))"
  using assms children_loop_ok [OF assms(4) _ assms(6)]
  by (simp add: AcpiNsDeleteChildren_def set_node_def top_row without_def)

text \<open>
  The siblings that are left: below them everything is deleted, they themselves only lose their
  objects and children, and the loop is back at the last of them.
\<close>

definition pruned :: "ns_nodes \<Rightarrow> forest \<Rightarrow> ns_nodes \<Rightarrow> bool" where
  "pruned ns f ns' \<longleftrightarrow> (\<forall>x. x \<notin> set (addrs f) \<longrightarrow> ns' x = ns x) \<and> linked ns' (row f) \<and>
     (\<forall>x \<in> set (addrs f) - set (row f). ns' x = None)"

lemma pruned_without: "pruned ns f ns' \<Longrightarrow> without ns' (set (row f)) = without ns (set (addrs f))"
  using row_addrs [of f] by (auto simp: pruned_def without_def fun_eq_iff)

lemma subtree_loop_ok:
  assumes "peers ns P f" "distinct (P # addrs f)" "AcpiGbl_RootNode g \<notin> set (addrs f)"
    and "AcpiNsGetNextNode ns P prev = returns (top f)" "Level > 0" "unat Level + depth f < 2 ^ 32"
  shows "\<exists>ns' last. subtree_loop g ns Level P prev = subtree_loop g ns' Level P last \<and>
    AcpiNsGetNextNode ns' P last = returns 0 \<and> pruned ns f ns'"
  using assms
proof (induction f arbitrary: ns P prev Level)
  case Bare
  then show ?case by (intro exI [of _ ns] exI [of _ prev]) (simp add: pruned_def)
next
  case (Tree p cs ps)
  obtain n where n: "p \<noteq> 0" "ns p = Some n" "Parent n = P" "Child n = top cs" "Peer n = top ps" "peers ns p cs" "peers ns P ps"
    using Tree.prems(1) by auto
  define n1 where "n1 = n\<lparr>Object := fst (detached g p n), NodeType := snd (detached g p n)\<rparr>"
  define ns1 where "ns1 = ns(p \<mapsto> n1)"
  have n1: "ns1 p = Some n1" "Parent n1 = P" "Child n1 = top cs" "Peer n1 = top ps" by (simp_all add: ns1_def n1_def n)
  have det: "detach_object g ns p = returns ns1"
    using n by (simp add: detach_object_def set_node_def ns1_def n1_def)
  define ns3 where "ns3 = (without ns1 (set (addrs cs)))(p \<mapsto> n1\<lparr>Child := 0\<rparr>)"
  have step: "subtree_loop g ns Level P prev = subtree_loop g ns3 Level P p"
  proof (cases "cs = Bare")
    case True
    then have "ns3 = ns1" using n1 by (auto simp: ns3_def without_def)
    then show ?thesis using Tree.prems(4,5) n(1) n1 True
      by (subst subtree_loop.simps) (simp add: det)
  next
    case False
    have top: "top cs \<noteq> 0" using top_zero [OF n(6)] False by simp
    have down: "subtree_loop g ns Level P prev = subtree_loop g ns1 (Level + 1) p 0"
      using Tree.prems(4,5) n(1) n1 top by (subst subtree_loop.simps) (simp add: det)
    have lv: "unat (Level + 1) = Suc (unat Level)"
      using Tree.prems(6) by (simp add: unat_word_ariths)
    have lv2: "Level + 1 > 0" "unat (Level + 1) + depth cs < 2 ^ 32" "Level + 1 - 1 = Level"
      using Tree.prems(6) lv by (simp_all add: word_less_nat_alt)
    have p1: "peers ns1 p cs" using n(6) Tree.prems(2) by (subst peers_cong [of _ _ ns]) (auto simp: ns1_def)
    have "AcpiNsGetNextNode ns1 p 0 = returns (top cs)" using n(1) n1 by (simp add: AcpiNsGetNextNode_def)
    then obtain ns2 last where ns2: "subtree_loop g ns1 (Level + 1) p 0 = subtree_loop g ns2 (Level + 1) p last"
      "AcpiNsGetNextNode ns2 p last = returns 0" "pruned ns1 cs ns2"
      using Tree.IH(1) [OF p1 _ _ _ lv2(1,2), of 0] Tree.prems(2,3) by auto
    have ns2p: "ns2 p = Some n1" using ns2(3) n1(1) Tree.prems(2) by (simp add: pruned_def)
    have "AcpiNsDeleteChildren g ns2 p = returns ((without ns2 (set (row cs)))(p \<mapsto> n1\<lparr>Child := 0\<rparr>))"
      by (rule delete_children_ok)
        (use n(1) ns2p n1(3) ns2(3) Tree.prems(2,3) row_addrs [of cs] distinct_row [of cs] in \<open>auto simp: pruned_def\<close>)
    moreover have "(without ns2 (set (row cs)))(p \<mapsto> n1\<lparr>Child := 0\<rparr>) = ns3"
      using pruned_without [OF ns2(3)] by (simp add: ns3_def)
    ultimately have "subtree_loop g ns2 (Level + 1) p last = subtree_loop g ns3 Level P p"
      using ns2(2) lv2 n(1) n1(2) by (subst subtree_loop.simps) (simp add: ns3_def)
    then show ?thesis using down ns2(1) by simp
  qed
  have ns3: "ns3 x = ns x" if "x \<notin> set (addrs cs)" "x \<noteq> p" for x using that by (simp add: ns3_def without_def ns1_def)
  have "peers ns3 P ps" using n(7) Tree.prems(2) ns3 by (subst peers_cong [of _ _ ns]) auto
  moreover have "AcpiNsGetNextNode ns3 P p = returns (top ps)" using n(1) n1(4) by (simp add: AcpiNsGetNextNode_def ns3_def)
  moreover have "unat Level + depth ps < 2 ^ 32" using Tree.prems(6) by simp
  ultimately obtain ns' last where ns': "subtree_loop g ns3 Level P p = subtree_loop g ns' Level P last"
    "AcpiNsGetNextNode ns' P last = returns 0" "pruned ns3 ps ns'"
    using Tree.IH(2) [of ns3 P p Level] Tree.prems(2,3,5) by auto
  have "pruned ns (Tree p cs ps) ns'"
  proof -
    have p: "ns' p = Some (n1\<lparr>Child := 0\<rparr>)" using ns'(3) Tree.prems(2) by (simp add: pruned_def ns3_def)
    have "ns' x = None" if "x \<in> set (addrs cs)" for x
      using that ns'(3) Tree.prems(2) by (auto simp: pruned_def ns3_def without_def)
    moreover have "ns' x = ns x" if "x \<notin> set (addrs (Tree p cs ps))" for x
      using that ns'(3) ns3 by (simp add: pruned_def)
    ultimately show ?thesis using p ns'(3) n(1) n1(4) by (auto simp: pruned_def top_row)
  qed
  then show ?case using step ns' by metis
qed

lemma delete_subtree_ok:
  assumes "scope ns P f" "distinct (P # addrs f)" "AcpiGbl_RootNode g \<notin> set (addrs f)" "depth f < 2 ^ 32 - 1"
  shows "AcpiNsDeleteNamespaceSubtree g AE_OK ns P =
    returns ((without ns (set (addrs f)))(P := map_option (\<lambda>n. n\<lparr>Child := 0\<rparr>) (ns P)))"
proof -
  obtain n where n: "P \<noteq> 0" "ns P = Some n" "Child n = top f" "peers ns P f" using assms(1) by (auto simp: scope_def)
  have "AcpiNsGetNextNode ns P 0 = returns (top f)" using n by (simp add: AcpiNsGetNextNode_def)
  then obtain ns' last where ns': "subtree_loop g ns 1 P 0 = subtree_loop g ns' 1 P last"
    "AcpiNsGetNextNode ns' P last = returns 0" "pruned ns f ns'"
    using subtree_loop_ok [OF n(4) assms(2,3), of 0 1] assms(4) by auto
  have "ns' P = Some n" using ns'(3) n(2) assms(2) by (simp add: pruned_def)
  then have del: "AcpiNsDeleteChildren g ns' P = returns ((without ns' (set (row f)))(P \<mapsto> n\<lparr>Child := 0\<rparr>))"
    using n ns'(3) assms(2,3) row_addrs [of f] distinct_row [of f] by (intro delete_children_ok) (auto simp: pruned_def)
  have "(without ns' (set (row f)))(P \<mapsto> n\<lparr>Child := 0\<rparr>) = (without ns (set (addrs f)))(P \<mapsto> n\<lparr>Child := 0\<rparr>)"
    using pruned_without [OF ns'(3)] by simp
  then have "subtree_loop g ns' 1 P last = returns ((without ns (set (addrs f)))(P \<mapsto> n\<lparr>Child := 0\<rparr>))"
    using ns'(2) del n(1)
    by (subst subtree_loop.simps) (simp add: subtree_loop.simps [of _ _ 0])
  then show ?thesis using ns'(1) n by (simp add: AcpiNsDeleteNamespaceSubtree_def)
qed

section \<open>The properties\<close>

text \<open>
  C26: the loop of \<^verbatim>\<open>AcpiNsWalkNamespace\<close>, which keeps no stack, is the recursive walk: each node below
  the start is done before and after the nodes below it, down to the depth asked for, and the walk
  ends with the first status of a callback or a mutex that is not to be passed over.
\<close>

theorem walk_namespace_order:
  assumes "scope ns Start f" "Start \<noteq> ACPI_ROOT_OBJECT \<or> RootNode = Start"
  shows "AcpiNsWalkNamespace w ns RootNode Type Start MaxDepth Flags s =
    (case walk_forest (visit_at w ns Type Flags) MaxDepth 1 f s of
       (s, Some Status) \<Rightarrow> returns (s, Status)
     | (s, None) \<Rightarrow> returns (s, AE_OK))"
  using assms by (rule walk_namespace_ok)

text \<open>A root with two children, the first of which has a child.\<close>

definition example_node :: "u32 \<Rightarrow> ptr \<Rightarrow> ptr \<Rightarrow> ptr \<Rightarrow> ns_node" where
  "example_node name parent child peer = \<lparr>Object = 0, DescriptorType = ACPI_DESC_TYPE_NAMED, NodeType = 6, NodeFlags = 0,
     NodeOwner = 1, NodeName = name, Parent = parent, Child = child, Peer = peer\<rparr>"

definition example_nodes :: ns_nodes where
  "example_nodes = [16 \<mapsto> example_node 0x5F5F5F5C 0 32 0, 32 \<mapsto> example_node 0x41414141 16 48 64,
     48 \<mapsto> example_node 0x42424242 32 0 0, 64 \<mapsto> example_node 0x43434343 16 0 0]"

definition example_forest :: forest where
  "example_forest = Tree 32 (Tree 48 Bare Bare) (Tree 64 Bare Bare)"

lemma example_scope: "scope example_nodes 16 example_forest"
  by (simp add: scope_def example_nodes_def example_forest_def example_node_def)

text \<open>The walker notes each call.\<close>

definition example_walker :: "(ptr \<times> u32 \<times> bool) list walker" where
  "example_walker = \<lparr>DescendingCallback = Some (\<lambda>p l s. (s @ [(p, l, False)], AE_OK)),
     AscendingCallback = Some (\<lambda>p l s. (s @ [(p, l, True)], AE_OK)),
     release_mutex = (\<lambda>s. (s, AE_OK)), acquire_mutex = (\<lambda>s. (s, AE_OK))\<rparr>"

theorem walk_namespace_order_witness:
  "AcpiNsWalkNamespace example_walker example_nodes 16 ACPI_TYPE_ANY ACPI_ROOT_OBJECT 0xFFFFFFFF ACPI_NS_WALK_UNLOCK [] =
     returns ([(32, 1, False), (48, 2, False), (48, 2, True), (32, 1, True), (64, 1, False), (64, 1, True)], AE_OK)
   \<and> scope example_nodes 16 example_forest"
proof -
  have "AcpiNsWalkNamespace example_walker example_nodes 16 ACPI_TYPE_ANY 16 0xFFFFFFFF ACPI_NS_WALK_UNLOCK [] =
     returns ([(32, 1, False), (48, 2, False), (48, 2, True), (32, 1, True), (64, 1, False), (64, 1, True)], AE_OK)"
    using walk_namespace_order [OF example_scope, of 16 example_walker ACPI_TYPE_ANY "0xFFFFFFFF" ACPI_NS_WALK_UNLOCK "[]"]
    by (simp add: example_forest_def visit_at_def visit_node_def example_nodes_def example_node_def example_walker_def
        call_back_def Let_def ACPI_TYPE_ANY_def ANOBJ_TEMPORARY_def ACPI_NS_WALK_UNLOCK_def AE_CTRL_DEPTH_def EXCEP_CTL_def AE_OK_def)
  then show ?thesis using example_scope
    by (simp add: AcpiNsWalkNamespace_def ACPI_ROOT_OBJECT_def)
qed

text \<open>
  C28: \<^verbatim>\<open>AcpiNsDeleteNamespaceSubtree\<close> deletes exactly the nodes below the one it is given, which keeps its
  place with no children; no other node changes.
\<close>

theorem delete_subtree_exact:
  assumes "scope ns P f" "distinct (P # addrs f)" "AcpiGbl_RootNode g \<notin> set (addrs f)" "depth f < 2 ^ 32 - 1"
  shows "AcpiNsDeleteNamespaceSubtree g AE_OK ns P =
    returns ((without ns (set (addrs f)))(P := map_option (\<lambda>n. n\<lparr>Child := 0\<rparr>) (ns P)))"
  using assms by (rule delete_subtree_ok)

definition example_env :: ns_env where
  "example_env = \<lparr>AcpiGbl_RootNode = 16, AcpiGbl_RuntimeNamespaceOverride = True, detached = (\<lambda>_ _. (0, 0))\<rparr>"

theorem delete_subtree_exact_witness:
  "AcpiNsDeleteNamespaceSubtree example_env AE_OK example_nodes 16 = returns [16 \<mapsto> example_node 0x5F5F5F5C 0 0 0]"
proof -
  have "AcpiNsDeleteNamespaceSubtree example_env AE_OK example_nodes 16 =
      returns ((without example_nodes (set (addrs example_forest)))(16 := map_option (\<lambda>n. n\<lparr>Child := 0\<rparr>) (example_nodes 16)))"
    by (rule delete_subtree_exact [OF example_scope]) (simp_all add: example_forest_def example_env_def)
  moreover have "(without example_nodes (set (addrs example_forest)))(16 := map_option (\<lambda>n. n\<lparr>Child := 0\<rparr>) (example_nodes 16)) =
      [16 \<mapsto> example_node 0x5F5F5F5C 0 0 0]"
    by (auto simp: without_def example_nodes_def example_forest_def example_node_def fun_eq_iff)
  ultimately show ?thesis by simp
qed

end
