(* ===== verification/Acpi_Search.thy ===== *)
theory Acpi_Search
  imports Acpi_Namespace
begin

text \<open>
  Finding and entering names in the namespace of ACPICA (\<^verbatim>\<open>kernel/hw/acpica/nssearch.c\<close>, \<^verbatim>\<open>nsalloc.c\<close>,
  \<^verbatim>\<open>nsutils.c\<close>), for one scope.  The children of a node are a map from names to nodes.
\<close>

section \<open>Types\<close>

definition ACPI_NS_NORMAL :: u8 where "ACPI_NS_NORMAL = 0"
definition ACPI_NS_NEWSCOPE :: u8 where "ACPI_NS_NEWSCOPE = 1"
definition ACPI_NS_LOCAL :: u8 where "ACPI_NS_LOCAL = 2"

definition AcpiGbl_NsProperties :: "u8 list" where
  "AcpiGbl_NsProperties =
    [ACPI_NS_NORMAL, ACPI_NS_NORMAL, ACPI_NS_NORMAL, ACPI_NS_NORMAL, ACPI_NS_NORMAL, ACPI_NS_NORMAL,
     ACPI_NS_NEWSCOPE, ACPI_NS_NORMAL, ACPI_NS_NEWSCOPE, ACPI_NS_NORMAL, ACPI_NS_NORMAL,
     ACPI_NS_NEWSCOPE, ACPI_NS_NEWSCOPE, ACPI_NS_NEWSCOPE,
     ACPI_NS_NORMAL, ACPI_NS_NORMAL, ACPI_NS_NORMAL, ACPI_NS_NORMAL, ACPI_NS_NORMAL, ACPI_NS_NORMAL,
     ACPI_NS_NORMAL, ACPI_NS_NORMAL, ACPI_NS_NORMAL, ACPI_NS_NORMAL, ACPI_NS_NORMAL,
     ACPI_NS_NEWSCOPE OR ACPI_NS_LOCAL, ACPI_NS_NEWSCOPE OR ACPI_NS_LOCAL, ACPI_NS_NEWSCOPE,
     ACPI_NS_NORMAL, ACPI_NS_NORMAL, ACPI_NS_NORMAL]"

definition AcpiUtValidObjectType :: "u32 \<Rightarrow> bool" where
  "AcpiUtValidObjectType Type \<longleftrightarrow> \<not> Type > ACPI_TYPE_LOCAL_MAX"

definition AcpiNsLocal :: "u32 \<Rightarrow> u32" where
  "AcpiNsLocal Type =
     (if \<not> AcpiUtValidObjectType Type then ucast ACPI_NS_NORMAL
      else ucast (AcpiGbl_NsProperties ! unat Type AND ACPI_NS_LOCAL))"

definition AcpiNsOpensScope :: "u32 \<Rightarrow> u32" where
  "AcpiNsOpensScope Type =
     (if Type > ACPI_TYPE_LOCAL_MAX then ucast ACPI_NS_NORMAL
      else ucast (AcpiGbl_NsProperties ! unat Type) AND ucast ACPI_NS_NEWSCOPE)"

definition AcpiNsGetType :: "ns_nodes \<Rightarrow> ptr \<Rightarrow> u32 run" where
  "AcpiNsGetType ns Node =
     (if Node = 0 then returns ACPI_TYPE_ANY else bindR (deref ns Node) (\<lambda>n. returns (ucast (NodeType n))))"

section \<open>Entering nodes\<close>

text \<open>
  The parts of a walk state that matter: its owner, the flags of its method descriptor (\<open>None\<close> for
  \<^verbatim>\<open>NULL\<close>) and the node of its method.
\<close>

record walk_state =
  WalkOwner :: u8
  MethodDesc :: "u8 option"
  MethodNode :: ptr

definition ACPI_METHOD_MODIFIED_NAMESPACE :: u8 where "ACPI_METHOD_MODIFIED_NAMESPACE = 0x20"

text \<open>\<open>NewNode\<close> is what \<^verbatim>\<open>AcpiOsAcquireObject\<close> answers, zeroed memory or \<open>0\<close>.\<close>

definition AcpiNsCreateNode :: "ns_nodes \<Rightarrow> ptr \<Rightarrow> u32 \<Rightarrow> ns_nodes \<times> ptr" where
  "AcpiNsCreateNode ns NewNode Nm =
     (if NewNode = 0 then (ns, 0)
      else (ns(NewNode \<mapsto> \<lparr>Object = 0, DescriptorType = ACPI_DESC_TYPE_NAMED, NodeType = 0, NodeFlags = 0, NodeOwner = 0,
              NodeName = Nm, Parent = 0, Child = 0, Peer = 0\<rparr>), NewNode))"

partial_function (option) last_peer :: "ns_nodes \<Rightarrow> ptr \<Rightarrow> ptr run" where
  "last_peer ns ChildNode =
     bindR (deref ns ChildNode) (\<lambda>n. if Peer n \<noteq> 0 then last_peer ns (Peer n) else returns ChildNode)"

definition AcpiNsInstallNode ::
  "ns_nodes \<Rightarrow> walk_state option \<Rightarrow> ptr \<Rightarrow> ptr \<Rightarrow> u32 \<Rightarrow> (ns_nodes \<times> walk_state option) run" where
  "AcpiNsInstallNode ns WalkState ParentNode Node Type =
     (let (OwnerId, WalkState) =
            (case WalkState of
               None \<Rightarrow> (0, None)
             | Some w \<Rightarrow>
                 (WalkOwner w,
                  Some (case MethodDesc w of
                    None \<Rightarrow> w
                  | Some InfoFlags \<Rightarrow>
                      if ParentNode \<noteq> MethodNode w
                      then w\<lparr>MethodDesc := Some (InfoFlags OR ACPI_METHOD_MODIFIED_NAMESPACE)\<rparr> else w)))
      in bindR (set_node ns Node (\<lambda>n. n\<lparr>Peer := 0, Parent := ParentNode\<rparr>)) (\<lambda>ns.
         bindR (deref ns ParentNode) (\<lambda>p.
         bindR (if Child p = 0 then set_node ns ParentNode (\<lambda>q. q\<lparr>Child := Node\<rparr>)
                else bindR (last_peer ns (Child p)) (\<lambda>ChildNode. set_node ns ChildNode (\<lambda>q. q\<lparr>Peer := Node\<rparr>))) (\<lambda>ns.
         bindR (set_node ns Node (\<lambda>n. n\<lparr>NodeOwner := OwnerId, NodeType := ucast Type\<rparr>)) (\<lambda>ns.
         returns (ns, WalkState))))))"

section \<open>Searching\<close>

text \<open>The status, and what is stored at \<^verbatim>\<open>ReturnNode\<close>, if anything.\<close>

partial_function (option) scope_loop :: "ns_nodes \<Rightarrow> u32 \<Rightarrow> ptr \<Rightarrow> (u32 \<times> ptr option) run" where
  "scope_loop ns TargetName Node =
     (if Node = 0 then returns (AE_NOT_FOUND, None)
      else bindR (deref ns Node) (\<lambda>n.
        if NodeName n = TargetName then
          bindR (AcpiNsGetType ns Node) (\<lambda>t.
            returns (AE_OK, Some (if t = ACPI_TYPE_LOCAL_METHOD_ALIAS then Object n else Node)))
        else scope_loop ns TargetName (Peer n)))"

definition AcpiNsSearchOneScope :: "ns_nodes \<Rightarrow> u32 \<Rightarrow> ptr \<Rightarrow> (u32 \<times> ptr option) run" where
  "AcpiNsSearchOneScope ns TargetName ParentNode =
     bindR (deref ns ParentNode) (\<lambda>p. scope_loop ns TargetName (Child p))"

partial_function (option) parents_loop :: "ns_nodes \<Rightarrow> u32 \<Rightarrow> ptr \<Rightarrow> (u32 \<times> ptr option) run" where
  "parents_loop ns TargetName ParentNode =
     (if ParentNode = 0 then returns (AE_NOT_FOUND, None)
      else bindR (AcpiNsSearchOneScope ns TargetName ParentNode) (\<lambda>(Status, r).
        if Status = AE_OK then returns (Status, r)
        else bindR (deref ns ParentNode) (\<lambda>p. parents_loop ns TargetName (Parent p))))"

definition AcpiNsSearchParentTree :: "ns_nodes \<Rightarrow> u32 \<Rightarrow> ptr \<Rightarrow> u32 \<Rightarrow> (u32 \<times> ptr option) run" where
  "AcpiNsSearchParentTree ns TargetName Node Type =
     bindR (deref ns Node) (\<lambda>n.
       if Parent n = 0 \<or> AcpiNsLocal Type \<noteq> 0 then returns (AE_NOT_FOUND, None)
       else parents_loop ns TargetName (Parent n))"

definition ACPI_IMODE_LOAD_PASS1 :: u32 where "ACPI_IMODE_LOAD_PASS1 = 0x01"
definition ACPI_IMODE_LOAD_PASS2 :: u32 where "ACPI_IMODE_LOAD_PASS2 = 0x02"
definition ACPI_IMODE_EXECUTE :: u32 where "ACPI_IMODE_EXECUTE = 0x03"
definition ACPI_NS_SEARCH_PARENT :: u32 where "ACPI_NS_SEARCH_PARENT = 0x01"
definition ACPI_NS_DONT_OPEN_SCOPE :: u32 where "ACPI_NS_DONT_OPEN_SCOPE = 0x02"
definition ACPI_NS_ERROR_IF_FOUND :: u32 where "ACPI_NS_ERROR_IF_FOUND = 0x08"
definition ACPI_NS_PREFIX_IS_SCOPE :: u32 where "ACPI_NS_PREFIX_IS_SCOPE = 0x10"
definition ACPI_NS_TEMPORARY :: u32 where "ACPI_NS_TEMPORARY = 0x40"
definition ACPI_NS_OVERRIDE_IF_FOUND :: u32 where "ACPI_NS_OVERRIDE_IF_FOUND = 0x80"

text \<open>\<^verbatim>\<open>AcpiUtRepairName\<close> on the argument, a local variable.\<close>

definition repair_name :: "u32 \<Rightarrow> u32" where
  "repair_name TargetName = load_le 4 (AcpiUtRepairName (store_le 4 (\<lambda>_. 0) 0 TargetName) 0) 0"

text \<open>The branch for a name that is to be overridden; \<open>Node\<close> is the one that was found.\<close>

definition override_node ::
  "ns_env \<Rightarrow> ns_nodes \<Rightarrow> walk_state option \<Rightarrow> ptr \<Rightarrow> (ns_nodes \<times> ptr) run" where
  "override_node g ns WalkState Node =
     bindR (AcpiNsDeleteChildren g ns Node) (\<lambda>ns.
       if AcpiGbl_RuntimeNamespaceOverride g then
         bindR (set_node ns Node (\<lambda>n. n\<lparr>Object := 0\<rparr>)) (\<lambda>ns.
           case WalkState of
             None \<Rightarrow> crash NullDeref
           | Some w \<Rightarrow> bindR (set_node ns Node (\<lambda>n. n\<lparr>NodeOwner := WalkOwner w\<rparr>)) (\<lambda>ns. returns (ns, Node)))
       else bindR (AcpiNsRemoveNode g ns Node) (\<lambda>ns. returns (ns, 0)))"

text \<open>The status, what \<^verbatim>\<open>*ReturnNode\<close> is at the end (\<open>None\<close>: not written), the nodes and the walk state.\<close>

definition AcpiNsSearchAndEnter ::
  "ns_env \<Rightarrow> ns_nodes \<Rightarrow> u32 \<Rightarrow> walk_state option \<Rightarrow> ptr \<Rightarrow> u32 \<Rightarrow> u32 \<Rightarrow> u32 \<Rightarrow> ptr \<Rightarrow> ptr \<Rightarrow>
    (u32 \<times> ptr option \<times> ns_nodes \<times> walk_state option) run" where
  "AcpiNsSearchAndEnter g ns TargetName WalkState Node InterpreterMode Type Flags NewNode ReturnNode =
     (if Node = 0 \<or> TargetName = 0 \<or> ReturnNode = 0 then returns (AE_BAD_PARAMETER, None, ns, WalkState)
      else
        (let TargetName = repair_name TargetName in
         bindR (AcpiNsSearchOneScope ns TargetName Node) (\<lambda>(Status, r).
           let Found = (case r of None \<Rightarrow> 0 | Some p \<Rightarrow> p) in
           if Status \<noteq> AE_NOT_FOUND then
             if Status = AE_OK then
               if Flags AND ACPI_NS_OVERRIDE_IF_FOUND \<noteq> 0 then
                 bindR (override_node g ns WalkState Found) (\<lambda>(ns, r). returns (Status, Some r, ns, WalkState))
               else if Flags AND ACPI_NS_ERROR_IF_FOUND \<noteq> 0 then returns (AE_ALREADY_EXISTS, Some Found, ns, WalkState)
               else returns (Status, Some Found, ns, WalkState)
             else returns (Status, Some Found, ns, WalkState)
           else
             bindR (if InterpreterMode \<noteq> ACPI_IMODE_LOAD_PASS1 \<and> Flags AND ACPI_NS_SEARCH_PARENT \<noteq> 0
                    then AcpiNsSearchParentTree ns TargetName Node Type else returns (AE_NOT_FOUND, None)) (\<lambda>(Status, r).
               if Status = AE_OK then returns (Status, Some (case r of None \<Rightarrow> Found | Some p \<Rightarrow> p), ns, WalkState)
               else if InterpreterMode = ACPI_IMODE_EXECUTE then returns (AE_NOT_FOUND, Some Found, ns, WalkState)
               else
                 (case AcpiNsCreateNode ns NewNode TargetName of (ns, NewNode) \<Rightarrow>
                    if NewNode = 0 then returns (AE_NO_MEMORY, Some Found, ns, WalkState)
                    else
                      bindR (if Flags AND ACPI_NS_TEMPORARY \<noteq> 0
                             then set_node ns NewNode (\<lambda>n. n\<lparr>NodeFlags := NodeFlags n OR ANOBJ_TEMPORARY\<rparr>) else returns ns) (\<lambda>ns.
                      bindR (AcpiNsInstallNode ns WalkState Node NewNode Type) (\<lambda>(ns, WalkState).
                        returns (AE_OK, Some NewNode, ns, WalkState))))))))"


section \<open>A scope as a map\<close>

definition named :: "ns_nodes \<Rightarrow> u32 \<Rightarrow> ptr \<Rightarrow> bool" where
  "named ns c p \<longleftrightarrow> NodeName (the (ns p)) = c"

text \<open>The child of a name, and the node it stands for if it is an alias of a method.\<close>

definition child_named :: "ns_nodes \<Rightarrow> forest \<Rightarrow> u32 \<Rightarrow> ptr option" where
  "child_named ns f c = find (named ns c) (row f)"

definition target :: "ns_nodes \<Rightarrow> ptr \<Rightarrow> ptr" where
  "target ns p = (if ucast (NodeType (the (ns p))) = ACPI_TYPE_LOCAL_METHOD_ALIAS then Object (the (ns p)) else p)"

lemma scope_loop_ok:
  "peers ns P f \<Longrightarrow> scope_loop ns c (top f) =
    returns (case child_named ns f c of None \<Rightarrow> (AE_NOT_FOUND, None) | Some p \<Rightarrow> (AE_OK, Some (target ns p)))"
proof (induction f)
  case Bare
  then show ?case by (subst scope_loop.simps) (simp add: child_named_def)
next
  case (Tree p cs ps)
  then show ?case
    by (subst scope_loop.simps) (auto simp: child_named_def named_def target_def AcpiNsGetType_def)
qed

lemma search_one_scope_ok:
  "scope ns P f \<Longrightarrow> AcpiNsSearchOneScope ns c P =
    returns (case child_named ns f c of None \<Rightarrow> (AE_NOT_FOUND, None) | Some p \<Rightarrow> (AE_OK, Some (target ns p)))"
  by (auto simp: scope_def AcpiNsSearchOneScope_def scope_loop_ok)

lemma child_named_in_row: "child_named ns f c = Some p \<Longrightarrow> p \<in> set (row f)"
  by (auto simp: child_named_def find_Some_iff)

fun grow :: "forest \<Rightarrow> forest \<Rightarrow> forest" where
  "grow Bare t = t"
| "grow (Tree p cs ps) t = Tree p cs (grow ps t)"

lemma row_grow: "row (grow f t) = row f @ row t"
  by (induction f) simp_all

lemma addrs_grow: "set (addrs (grow f t)) = set (addrs f) \<union> set (addrs t)"
  by (induction f) auto

lemma last_peer_ok: "peers ns P f \<Longrightarrow> f \<noteq> Bare \<Longrightarrow> last_peer ns (top f) = returns (last (row f))"
proof (induction f)
  case (Tree p cs ps)
  then show ?case using top_zero [of ns P ps]
    by (subst last_peer.simps) (cases ps; auto)
qed simp

lemma last_row_in: "f \<noteq> Bare \<Longrightarrow> last (row f) \<in> set (row f)"
  by (cases f) simp_all

lemma peers_grow:
  assumes "peers ns P f" "f \<noteq> Bare" "distinct (addrs f)" "N \<noteq> 0" "N \<notin> set (addrs f)" "ns (last (row f)) = Some l"
    and "ns' = ns(last (row f) \<mapsto> l\<lparr>Peer := N\<rparr>, N \<mapsto> n)" "Parent n = P" "Child n = 0" "Peer n = 0"
  shows "peers ns' P (grow f (Tree N Bare Bare))"
  using assms
proof (induction f)
  case (Tree p cs ps)
  define z where "z = last (row (forest.Tree p cs ps))"
  have ns': "ns' z = Some (l\<lparr>Peer := N\<rparr>)" "ns' N = Some n" "\<forall>x. x \<noteq> z \<and> x \<noteq> N \<longrightarrow> ns' x = ns x"
    using Tree.prems(5,7) last_row_in [of "forest.Tree p cs ps"] row_addrs [of "forest.Tree p cs ps"] by (auto simp: z_def)
  have l: "ns z = Some l" using Tree.prems(6) by (simp add: z_def)
  show ?case
  proof (cases ps)
    case Bare
    then have "z = p" by (simp add: z_def)
    moreover have "peers ns' p cs" using Tree.prems ns' \<open>z = p\<close> by (subst peers_cong [of _ _ ns]) auto
    ultimately show ?thesis using Tree.prems(1,4,8-10) Bare ns' l by auto
  next
    case (Tree q cs' ps')
    have ne: "ps \<noteq> Bare" "z = last (row ps)" using Tree by (simp_all add: z_def)
    have lr: "last (row (forest.Tree p cs ps)) = last (row ps)" using Tree by simp
    have z: "z \<in> set (addrs ps)" unfolding ne(2) using last_row_in [OF ne(1)] row_addrs by blast
    then have away: "z \<noteq> p" "z \<notin> set (addrs cs)" "N \<noteq> p" "N \<notin> set (addrs cs)" using Tree.prems(3,5) by auto
    have "peers ns' p cs" using Tree.prems(1) away ns' by (subst peers_cong [of _ _ ns]) auto
    moreover have "peers ns' P (grow ps (forest.Tree N Bare Bare))"
      by (rule Tree.IH(2)) (use Tree.prems(1,3-6,8-10) ne(1) lr in \<open>simp_all add: Tree.prems(7)\<close>)
    moreover have "top (grow ps (forest.Tree N Bare Bare)) = top ps" using Tree by simp
    moreover have "ns' p = ns p" using ns' away by simp
    ultimately show ?thesis using Tree.prems(1) by auto
  qed
qed simp

text \<open>The nodes after \<open>N\<close> has been put at the end of the children of \<open>P\<close>.\<close>

definition with_child :: "ns_nodes \<Rightarrow> ptr \<Rightarrow> forest \<Rightarrow> ptr \<Rightarrow> ns_node \<Rightarrow> ns_nodes" where
  "with_child ns P f N n =
     (if f = Bare then ns(P \<mapsto> (the (ns P))\<lparr>Child := N\<rparr>, N \<mapsto> n)
      else ns(last (row f) \<mapsto> (the (ns (last (row f))))\<lparr>Peer := N\<rparr>, N \<mapsto> n))"

lemma row_live: "peers ns P f \<Longrightarrow> p \<in> set (row f) \<Longrightarrow> p \<noteq> 0 \<and> (\<exists>n. ns p = Some n \<and> Parent n = P)"
  by (induction f) auto

definition owner_of :: "walk_state option \<Rightarrow> u8" where
  "owner_of w = (case w of None \<Rightarrow> 0 | Some w \<Rightarrow> WalkOwner w)"

lemma install_node_ok:
  assumes "scope ns P f" "distinct (P # addrs f)" "N \<noteq> 0" "N \<notin> set (P # addrs f)" "ns N = Some n" "Child n = 0"
  shows "\<exists>w'. AcpiNsInstallNode ns w P N Type =
      returns (with_child ns P f N (n\<lparr>Peer := 0, Parent := P, NodeOwner := owner_of w, NodeType := ucast Type\<rparr>), w')"
    and "scope (with_child ns P f N (n\<lparr>Peer := 0, Parent := P, NodeOwner := owner_of w, NodeType := ucast Type\<rparr>)) P
      (grow f (Tree N Bare Bare))"
proof -
  define n' where "n' = n\<lparr>Peer := 0, Parent := P, NodeOwner := owner_of w, NodeType := ucast Type\<rparr>"
  obtain q where q: "P \<noteq> 0" "ns P = Some q" "Child q = top f" "peers ns P f" using assms(1) by (auto simp: scope_def)
  define ns1 where "ns1 = ns(N \<mapsto> n\<lparr>Peer := 0, Parent := P\<rparr>)"
  have p1: "peers ns1 P f" using q(4) assms(4) by (subst peers_cong [of _ _ ns]) (auto simp: ns1_def)
  have n': "Parent n' = P" "Child n' = 0" "Peer n' = 0" using assms(6) by (simp_all add: n'_def)
  have link: "bindR (if Child q = 0 then set_node ns1 P (\<lambda>q. q\<lparr>Child := N\<rparr>)
        else bindR (last_peer ns1 (Child q)) (\<lambda>c. set_node ns1 c (\<lambda>q. q\<lparr>Peer := N\<rparr>)))
      (\<lambda>ns. bindR (set_node ns N (\<lambda>n. n\<lparr>NodeOwner := owner_of w, NodeType := ucast Type\<rparr>)) (\<lambda>ns. returns (ns, w'))) =
      returns (with_child ns P f N n', w')" for w'
  proof (cases "f = Bare")
    case True
    then show ?thesis using q assms(3,4)
      by (auto simp: set_node_def with_child_def ns1_def n'_def fun_eq_iff)
  next
    case False
    define z where "z = last (row f)"
    obtain l where l: "z \<noteq> 0" "ns z = Some l" using row_live [OF q(4) last_row_in [OF False]] by (auto simp: z_def)
    have z: "z \<noteq> N" using last_row_in [OF False] row_addrs [of f] assms(4) by (auto simp: z_def)
    have "Child q \<noteq> 0" using q(3) top_zero [OF q(4)] False by simp
    moreover have "last_peer ns1 (Child q) = returns z" unfolding q(3) z_def by (rule last_peer_ok [OF p1 False])
    ultimately show ?thesis using False l z assms(3)
      by (auto simp: set_node_def with_child_def ns1_def n'_def z_def [symmetric] fun_eq_iff)
  qed
  show "\<exists>w'. AcpiNsInstallNode ns w P N Type = returns (with_child ns P f N n', w')"
  proof -
    have s1: "set_node ns N (\<lambda>n. n\<lparr>Peer := 0, Parent := P\<rparr>) = returns ns1" using assms(3,5) by (simp add: set_node_def ns1_def)
    have d: "deref ns1 P = returns q" using q(1,2) assms(4) by (auto simp: ns1_def deref_returns)
    have c: "AcpiNsInstallNode ns w P N Type = (case (case w of None \<Rightarrow> (0, None) | Some w \<Rightarrow>
          (WalkOwner w, Some (case MethodDesc w of None \<Rightarrow> w | Some InfoFlags \<Rightarrow>
             if P \<noteq> MethodNode w then w\<lparr>MethodDesc := Some (InfoFlags OR ACPI_METHOD_MODIFIED_NAMESPACE)\<rparr> else w)))
        of (o', w') \<Rightarrow> bindR (if Child q = 0 then set_node ns1 P (\<lambda>q. q\<lparr>Child := N\<rparr>)
        else bindR (last_peer ns1 (Child q)) (\<lambda>c. set_node ns1 c (\<lambda>q. q\<lparr>Peer := N\<rparr>)))
      (\<lambda>ns. bindR (set_node ns N (\<lambda>n. n\<lparr>NodeOwner := o', NodeType := ucast Type\<rparr>)) (\<lambda>ns. returns (ns, w'))))"
      unfolding AcpiNsInstallNode_def Let_def by (simp add: s1 d split: prod.split)
    show ?thesis
    proof -
      obtain W where W: "(case w of None \<Rightarrow> (0, None) | Some w \<Rightarrow>
          (WalkOwner w, Some (case MethodDesc w of None \<Rightarrow> w | Some InfoFlags \<Rightarrow>
             if P \<noteq> MethodNode w then w\<lparr>MethodDesc := Some (InfoFlags OR ACPI_METHOD_MODIFIED_NAMESPACE)\<rparr> else w))) = (owner_of w, W)"
        by (cases w) (simp_all add: owner_of_def)
      show ?thesis using link [of W] unfolding c W prod.case by blast
    qed
  qed
  show "scope (with_child ns P f N n') P (grow f (Tree N Bare Bare))"
  proof (cases "f = Bare")
    case True
    then show ?thesis using q(1,2) assms(3,4) n' by (auto simp: scope_def with_child_def)
  next
    case False
    have z: "last (row f) \<noteq> P" using last_row_in [OF False] row_addrs [of f] assms(2) by auto
    obtain l where l: "ns (last (row f)) = Some l" using row_live [OF q(4) last_row_in [OF False]] by auto
    have "peers (ns(last (row f) \<mapsto> l\<lparr>Peer := N\<rparr>, N \<mapsto> n')) P (grow f (Tree N Bare Bare))"
      using peers_grow [OF q(4) False _ assms(3) _ l refl n'] assms(2,4) by simp
    moreover have "top (grow f (Tree N Bare Bare)) = top f" using False by (cases f) simp_all
    ultimately show ?thesis using q(1-3) assms(4) z False l by (auto simp: scope_def with_child_def)
  qed
qed


lemma peers_live: "peers ns P f \<Longrightarrow> x \<in> set (addrs f) \<Longrightarrow> ns x \<noteq> None"
  by (induction f arbitrary: P) auto

lemma fresh_child:
  assumes "scope ns P f" "ns N = None"
  shows "N \<notin> set (P # addrs f)"
proof -
  have "peers ns P f" "ns P \<noteq> None" using assms(1) by (auto simp: scope_def)
  then show ?thesis using assms(2) peers_live [of ns P f N] by auto
qed

lemma with_child_other: "x \<notin> {P, N} \<union> set (row f) \<Longrightarrow> with_child ns P f N n x = ns x"
  using last_row_in [of f] by (auto simp: with_child_def)

lemma named_with_child:
  assumes "scope ns P f" "distinct (P # addrs f)" "N \<notin> set (P # addrs f)" "x \<in> set (row f)"
  shows "named (with_child ns P f N n) c x = named ns c x"
proof -
  have "peers ns P f" using assms(1) by (simp add: scope_def)
  then show ?thesis
    using assms row_addrs [of f] row_live [of ns P f x] last_row_in [of f] row_live [of ns P f "last (row f)"]
    by (auto simp: named_def with_child_def)
qed

lemma find_cong_set: "(\<And>x. x \<in> set xs \<Longrightarrow> P x = Q x) \<Longrightarrow> find P xs = find Q xs"
  by (induction xs) auto

lemma child_named_grow:
  assumes "scope ns P f" "distinct (P # addrs f)" "N \<notin> set (P # addrs f)" "child_named ns f (NodeName n) = None"
  shows "child_named (with_child ns P f N n) (grow f (Tree N Bare Bare)) = (child_named ns f)(NodeName n \<mapsto> N)"
proof
  fix c
  have old: "find (named (with_child ns P f N n) c) (row f) = child_named ns f c"
    unfolding child_named_def using named_with_child [OF assms(1-3)] by (intro find_cong_set) blast
  have "named (with_child ns P f N n) c N \<longleftrightarrow> c = NodeName n" by (auto simp: named_def with_child_def)
  then show "child_named (with_child ns P f N n) (grow f (Tree N Bare Bare)) c = ((child_named ns f)(NodeName n \<mapsto> N)) c"
    using assms(4) old unfolding child_named_def row_grow find_append by (auto split: option.split)
qed

definition new_node :: "u32 \<Rightarrow> u32 \<Rightarrow> ns_node" where
  "new_node c Flags = \<lparr>Object = 0, DescriptorType = ACPI_DESC_TYPE_NAMED, NodeType = 0,
     NodeFlags = (if Flags AND ACPI_NS_TEMPORARY \<noteq> 0 then 0 OR ANOBJ_TEMPORARY else 0), NodeOwner = 0,
     NodeName = c, Parent = 0, Child = 0, Peer = 0\<rparr>"

lemma status_different: "AE_OK \<noteq> AE_NOT_FOUND" "AE_NOT_FOUND \<noteq> AE_OK"
  by (simp_all add: acpi_status)

lemma search_found:
  assumes "scope ns P f" "child_named ns f (repair_name TargetName) = Some p" "TargetName \<noteq> 0" "ReturnNode \<noteq> 0"
    and "Flags AND ACPI_NS_OVERRIDE_IF_FOUND = 0"
  shows "AcpiNsSearchAndEnter g ns TargetName w P InterpreterMode Type Flags N ReturnNode =
    returns (if Flags AND ACPI_NS_ERROR_IF_FOUND \<noteq> 0 then AE_ALREADY_EXISTS else AE_OK, Some (target ns p), ns, w)"
proof -
  have "P \<noteq> 0" using assms(1) by (simp add: scope_def)
  then show ?thesis using assms(2-5) status_different search_one_scope_ok [OF assms(1), of "repair_name TargetName"]
    by (simp add: AcpiNsSearchAndEnter_def)
qed

lemma search_and_enter_ok:
  assumes sc: "scope ns P f" "distinct (P # addrs f)"
    and args: "TargetName \<noteq> 0" "ReturnNode \<noteq> 0" "Flags AND ACPI_NS_OVERRIDE_IF_FOUND = 0"
      "InterpreterMode = ACPI_IMODE_LOAD_PASS1 \<or> Flags AND ACPI_NS_SEARCH_PARENT = 0" "ns N = None"
  shows "case child_named ns f (repair_name TargetName) of
      Some p \<Rightarrow> AcpiNsSearchAndEnter g ns TargetName w P InterpreterMode Type Flags N ReturnNode =
        returns (if Flags AND ACPI_NS_ERROR_IF_FOUND \<noteq> 0 then AE_ALREADY_EXISTS else AE_OK, Some (target ns p), ns, w)
    | None \<Rightarrow>
        if InterpreterMode = ACPI_IMODE_EXECUTE then
          AcpiNsSearchAndEnter g ns TargetName w P InterpreterMode Type Flags N ReturnNode = returns (AE_NOT_FOUND, Some 0, ns, w)
        else if N = 0 then
          AcpiNsSearchAndEnter g ns TargetName w P InterpreterMode Type Flags N ReturnNode = returns (AE_NO_MEMORY, Some 0, ns, w)
        else
          \<exists>ns' w'. AcpiNsSearchAndEnter g ns TargetName w P InterpreterMode Type Flags N ReturnNode = returns (AE_OK, Some N, ns', w') \<and>
            scope ns' P (grow f (Tree N Bare Bare)) \<and>
            child_named ns' (grow f (Tree N Bare Bare)) = (child_named ns f)(repair_name TargetName \<mapsto> N) \<and>
            (\<forall>x. x \<notin> {P, N} \<union> set (row f) \<longrightarrow> ns' x = ns x)"
proof -
  define c where "c = repair_name TargetName"
  have P: "P \<noteq> 0" using sc(1) by (simp add: scope_def)
  note srch = search_one_scope_ok [OF sc(1), of c]
  show ?thesis
  proof (cases "child_named ns f c")
    case (Some p)
    then show ?thesis using search_found [OF sc(1)] args(1-3) by (simp add: c_def)
  next
    case None
    have upward: "(if InterpreterMode \<noteq> ACPI_IMODE_LOAD_PASS1 \<and> Flags AND ACPI_NS_SEARCH_PARENT \<noteq> 0
        then AcpiNsSearchParentTree ns c P Type else returns (AE_NOT_FOUND, None)) = returns (AE_NOT_FOUND, None)"
      using args(4) by auto
    show ?thesis
    proof (cases "InterpreterMode = ACPI_IMODE_EXECUTE \<or> N = 0")
      case True
      then show ?thesis using None args(1,2) P status_different upward
        by (auto simp: AcpiNsSearchAndEnter_def c_def [symmetric] srch AcpiNsCreateNode_def)
    next
      case False
      define n where "n = new_node c Flags"
      define ns1 where "ns1 = ns(N \<mapsto> n)"
      have fresh: "N \<notin> set (P # addrs f)" by (rule fresh_child [OF sc(1) args(5)])
      have sc1: "scope ns1 P f"
        using sc(1) fresh peers_cong [of f ns1 ns P] by (auto simp: scope_def ns1_def)
      have n: "ns1 N = Some n" "Child n = 0" "NodeName n = c" by (simp_all add: ns1_def n_def new_node_def)
      have "N \<notin> set (row f)" using fresh row_addrs [of f] by auto
      then have same: "child_named ns1 f = child_named ns f"
        by (auto simp: child_named_def fun_eq_iff named_def ns1_def intro!: find_cong_set)
      define n' where "n' = n\<lparr>Peer := 0, Parent := P, NodeOwner := owner_of w, NodeType := ucast Type\<rparr>"
      obtain w' where inst: "AcpiNsInstallNode ns1 w P N Type = returns (with_child ns1 P f N n', w')"
        using install_node_ok(1) [OF sc1 sc(2) _ fresh n(1,2), where w = w and Type = Type] False unfolding n'_def by blast
      have create: "AcpiNsCreateNode ns N c = (ns(N \<mapsto> new_node c 0), N)"
        using False by (simp add: AcpiNsCreateNode_def new_node_def)
      have flag: "(if Flags AND ACPI_NS_TEMPORARY \<noteq> 0
          then set_node (ns(N \<mapsto> new_node c 0)) N (\<lambda>n. n\<lparr>NodeFlags := NodeFlags n OR ANOBJ_TEMPORARY\<rparr>)
          else returns (ns(N \<mapsto> new_node c 0))) = returns ns1"
        using False by (simp add: set_node_def ns1_def n_def new_node_def)
      have "AcpiNsSearchAndEnter g ns TargetName w P InterpreterMode Type Flags N ReturnNode =
          returns (AE_OK, Some N, with_child ns1 P f N n', w')"
        using None False args(1,2) P status_different upward
        by (simp add: AcpiNsSearchAndEnter_def c_def [symmetric] srch create flag inst Let_def)
      moreover have "scope (with_child ns1 P f N n') P (grow f (Tree N Bare Bare))"
        using install_node_ok(2) [OF sc1 sc(2) _ fresh n(1,2), where w = w and Type = Type] False unfolding n'_def by blast
      moreover have "child_named (with_child ns1 P f N n') (grow f (Tree N Bare Bare)) = (child_named ns f)(c \<mapsto> N)"
        using child_named_grow [OF sc1 sc(2) fresh, of n'] None by (simp add: n'_def n(3) same)
      moreover have "\<forall>x. x \<notin> {P, N} \<union> set (row f) \<longrightarrow> with_child ns1 P f N n' x = ns x"
        by (auto simp: with_child_other ns1_def)
      ultimately show ?thesis using None False unfolding c_def [symmetric] by auto
    qed
  qed
qed

section \<open>Enclosing scopes\<close>

text \<open>The scopes from \<open>p\<close> up to the root.\<close>

fun enclosing :: "ns_nodes \<Rightarrow> ptr \<Rightarrow> (ptr \<times> forest) list \<Rightarrow> bool" where
  "enclosing ns p [] \<longleftrightarrow> p = 0"
| "enclosing ns p ((q, f) # r) \<longleftrightarrow> p = q \<and> scope ns q f \<and> enclosing ns (Parent (the (ns q))) r"

fun nearest :: "ns_nodes \<Rightarrow> (ptr \<times> forest) list \<Rightarrow> u32 \<Rightarrow> ptr option" where
  "nearest ns [] c = None"
| "nearest ns ((q, f) # r) c = (case child_named ns f c of Some p \<Rightarrow> Some p | None \<Rightarrow> nearest ns r c)"

lemma parents_loop_ok:
  "enclosing ns p scopes \<Longrightarrow> parents_loop ns c p =
    returns (case nearest ns scopes c of None \<Rightarrow> (AE_NOT_FOUND, None) | Some p \<Rightarrow> (AE_OK, Some (target ns p)))"
proof (induction scopes arbitrary: p)
  case Nil
  then show ?case by (subst parents_loop.simps) simp
next
  case (Cons qf r)
  obtain q f where qf: "qf = (q, f)" by (cases qf)
  then have sc: "p = q" "scope ns q f" "enclosing ns (Parent (the (ns q))) r" using Cons.prems by auto
  then obtain n where n: "q \<noteq> 0" "ns q = Some n" by (auto simp: scope_def)
  show ?case
    using n sc(1) status_different Cons.IH [OF sc(3)]
    by (subst parents_loop.simps) (simp add: qf search_one_scope_ok [OF sc(2)] split: option.split)
qed

lemma resolve_ok:
  assumes "enclosing ns P ((P, f) # scopes)" "TargetName \<noteq> 0" "ReturnNode \<noteq> 0" "Flags AND ACPI_NS_OVERRIDE_IF_FOUND = 0"
    and "Flags AND ACPI_NS_ERROR_IF_FOUND = 0" "Flags AND ACPI_NS_SEARCH_PARENT \<noteq> 0" "AcpiNsLocal Type = 0"
  shows "AcpiNsSearchAndEnter g ns TargetName w P ACPI_IMODE_EXECUTE Type Flags N ReturnNode =
    returns (case nearest ns ((P, f) # scopes) (repair_name TargetName) of
        None \<Rightarrow> (AE_NOT_FOUND, Some 0, ns, w)
      | Some p \<Rightarrow> (AE_OK, Some (target ns p), ns, w))"
proof -
  define c where "c = repair_name TargetName"
  have sc: "scope ns P f" "enclosing ns (Parent (the (ns P))) scopes" using assms(1) by simp_all
  then obtain n where n: "P \<noteq> 0" "ns P = Some n" by (auto simp: scope_def)
  note srch = search_one_scope_ok [OF sc(1), of c]
  have mode: "ACPI_IMODE_EXECUTE \<noteq> ACPI_IMODE_LOAD_PASS1" by (simp add: ACPI_IMODE_EXECUTE_def ACPI_IMODE_LOAD_PASS1_def)
  have up: "AcpiNsSearchParentTree ns c P Type =
      returns (case nearest ns scopes c of None \<Rightarrow> (AE_NOT_FOUND, None) | Some p \<Rightarrow> (AE_OK, Some (target ns p)))"
  proof (cases "Parent n = 0")
    case True
    then have "scopes = []" using sc(2) n by (cases scopes) (auto simp: scope_def)
    then show ?thesis using n True by (simp add: AcpiNsSearchParentTree_def)
  next
    case False
    then show ?thesis using n assms(7) parents_loop_ok [OF sc(2), of c] by (simp add: AcpiNsSearchParentTree_def)
  qed
  show ?thesis
    using n assms(2-6) status_different mode
    by (simp add: AcpiNsSearchAndEnter_def c_def [symmetric] srch up Let_def split: option.split)
qed

section \<open>The properties\<close>

text \<open>
  C25: the children of a node are a map from names to nodes: \<^verbatim>\<open>AcpiNsSearchAndEnter\<close> finds the node of a
  name that is there, or refuses it as the caller asks; a name that is not there it enters as a new
  last child, so that the map gets it and keeps all others, or refuses it in execution or for want of
  memory.  No node changes but the new one, the parent, and the last of the other children.
\<close>

theorem scope_is_map:
  assumes "scope ns P f" "distinct (P # addrs f)"
    and "TargetName \<noteq> 0" "ReturnNode \<noteq> 0" "Flags AND ACPI_NS_OVERRIDE_IF_FOUND = 0"
      "InterpreterMode = ACPI_IMODE_LOAD_PASS1 \<or> Flags AND ACPI_NS_SEARCH_PARENT = 0" "ns N = None"
  shows "case child_named ns f (repair_name TargetName) of
      Some p \<Rightarrow> AcpiNsSearchAndEnter g ns TargetName w P InterpreterMode Type Flags N ReturnNode =
        returns (if Flags AND ACPI_NS_ERROR_IF_FOUND \<noteq> 0 then AE_ALREADY_EXISTS else AE_OK, Some (target ns p), ns, w)
    | None \<Rightarrow>
        if InterpreterMode = ACPI_IMODE_EXECUTE then
          AcpiNsSearchAndEnter g ns TargetName w P InterpreterMode Type Flags N ReturnNode = returns (AE_NOT_FOUND, Some 0, ns, w)
        else if N = 0 then
          AcpiNsSearchAndEnter g ns TargetName w P InterpreterMode Type Flags N ReturnNode = returns (AE_NO_MEMORY, Some 0, ns, w)
        else
          \<exists>ns' w'. AcpiNsSearchAndEnter g ns TargetName w P InterpreterMode Type Flags N ReturnNode = returns (AE_OK, Some N, ns', w') \<and>
            scope ns' P (grow f (Tree N Bare Bare)) \<and>
            child_named ns' (grow f (Tree N Bare Bare)) = (child_named ns f)(repair_name TargetName \<mapsto> N) \<and>
            (\<forall>x. x \<notin> {P, N} \<union> set (row f) \<longrightarrow> ns' x = ns x)"
  using assms by (rule search_and_enter_ok)

text \<open>The example root gets a third child, \<^verbatim>\<open>DDDD\<close>, and is asked for its second one.\<close>

theorem scope_is_map_witness:
  "(\<exists>ns' w'. AcpiNsSearchAndEnter example_env example_nodes 0x44444444 None 16 ACPI_IMODE_LOAD_PASS1 6 0 80 8 =
       returns (AE_OK, Some 80, ns', w') \<and> scope ns' 16 (Tree 32 (Tree 48 Bare Bare) (Tree 64 Bare (Tree 80 Bare Bare)))) \<and>
   AcpiNsSearchAndEnter example_env example_nodes 0x43434343 None 16 ACPI_IMODE_LOAD_PASS1 6 0 80 8 =
     returns (AE_OK, Some 64, example_nodes, None)"
proof -
  have r: "repair_name 0x44444444 = 0x44444444" "repair_name 0x43434343 = 0x43434343" by code_simp+
  have c: "child_named example_nodes example_forest 0x44444444 = None"
    "child_named example_nodes example_forest 0x43434343 = Some 64" "target example_nodes 64 = 64"
    by (simp_all add: child_named_def named_def target_def example_nodes_def example_forest_def example_node_def
        ACPI_TYPE_LOCAL_METHOD_ALIAS_def)
  have d: "distinct (16 # addrs example_forest)" "example_nodes 80 = None"
    by (simp_all add: example_forest_def example_nodes_def)
  have f: "(0 :: u32) AND ACPI_NS_OVERRIDE_IF_FOUND = 0" "(0 :: u32) AND ACPI_NS_SEARCH_PARENT = 0"
    "(0 :: u32) AND ACPI_NS_ERROR_IF_FOUND = 0" by simp_all
  have m: "ACPI_IMODE_LOAD_PASS1 \<noteq> ACPI_IMODE_EXECUTE" by (simp add: ACPI_IMODE_EXECUTE_def ACPI_IMODE_LOAD_PASS1_def)
  have g: "grow example_forest (Tree 80 Bare Bare) = Tree 32 (Tree 48 Bare Bare) (Tree 64 Bare (Tree 80 Bare Bare))"
    by (simp add: example_forest_def)
  note map = scope_is_map [OF example_scope d(1), where N = 80 and ReturnNode = 8 and InterpreterMode = ACPI_IMODE_LOAD_PASS1
      and Flags = 0 and w = None and Type = 6 and g = example_env]
  show ?thesis
    using map [where TargetName = "0x44444444"] map [where TargetName = "0x43434343"] r c d(2) f m unfolding g by auto
qed

text \<open>
  C27: in execution, with the search of parents asked for, a name is resolved to its node in the
  nearest enclosing scope, up to the root, that has it, and not found exactly when none has it.
\<close>

theorem name_resolved_nearest:
  assumes "enclosing ns P ((P, f) # scopes)" "TargetName \<noteq> 0" "ReturnNode \<noteq> 0" "Flags AND ACPI_NS_OVERRIDE_IF_FOUND = 0"
    and "Flags AND ACPI_NS_ERROR_IF_FOUND = 0" "Flags AND ACPI_NS_SEARCH_PARENT \<noteq> 0" "AcpiNsLocal Type = 0"
  shows "AcpiNsSearchAndEnter g ns TargetName w P ACPI_IMODE_EXECUTE Type Flags N ReturnNode =
    returns (case nearest ns ((P, f) # scopes) (repair_name TargetName) of
        None \<Rightarrow> (AE_NOT_FOUND, Some 0, ns, w)
      | Some p \<Rightarrow> (AE_OK, Some (target ns p), ns, w))"
  using assms by (rule resolve_ok)

text \<open>From the first child, \<^verbatim>\<open>CCCC\<close> is found next to it, below the root.\<close>

theorem name_resolved_nearest_witness:
  "AcpiNsSearchAndEnter example_env example_nodes 0x43434343 None 32 ACPI_IMODE_EXECUTE ACPI_TYPE_ANY ACPI_NS_SEARCH_PARENT 80 8 =
     returns (AE_OK, Some 64, example_nodes, None)"
proof -
  let ?f = "Tree 48 Bare Bare" and ?s = "[(16, example_forest)]"
  have e: "enclosing example_nodes 32 ((32, ?f) # ?s)"
    using example_scope by (simp add: scope_def example_nodes_def example_node_def)
  have r: "repair_name 0x43434343 = 0x43434343" by code_simp
  have n: "nearest example_nodes ((32, ?f) # ?s) 0x43434343 = Some 64" "target example_nodes 64 = 64"
    by (simp_all add: child_named_def named_def target_def example_nodes_def example_forest_def example_node_def
        ACPI_TYPE_LOCAL_METHOD_ALIAS_def)
  have l: "AcpiNsLocal ACPI_TYPE_ANY = 0" by code_simp
  have fl: "ACPI_NS_SEARCH_PARENT AND ACPI_NS_OVERRIDE_IF_FOUND = 0" "ACPI_NS_SEARCH_PARENT AND ACPI_NS_ERROR_IF_FOUND = 0"
    "ACPI_NS_SEARCH_PARENT AND ACPI_NS_SEARCH_PARENT \<noteq> 0"
    by (simp_all add: ACPI_NS_SEARCH_PARENT_def ACPI_NS_OVERRIDE_IF_FOUND_def ACPI_NS_ERROR_IF_FOUND_def)
  have "AcpiNsSearchAndEnter example_env example_nodes 0x43434343 None 32 ACPI_IMODE_EXECUTE ACPI_TYPE_ANY ACPI_NS_SEARCH_PARENT 80 8 =
      returns (case nearest example_nodes ((32, ?f) # ?s) (repair_name 0x43434343) of
        None \<Rightarrow> (AE_NOT_FOUND, Some 0, example_nodes, None) | Some p \<Rightarrow> (AE_OK, Some (target example_nodes p), example_nodes, None))"
    by (rule name_resolved_nearest [OF e _ _ fl l]) simp_all
  then show ?thesis unfolding r n(1) option.case n(2) .
qed

end
