(* ===== verification/Acpi_Path.thy ===== *)
theory Acpi_Path
  imports Acpi_Search
begin

text \<open>
  Paths in the namespace of ACPICA: the path of a node (\<^verbatim>\<open>kernel/hw/acpica/nsnames.c\<close>), and the node of a
  path (\<^verbatim>\<open>nsaccess.c\<close>, \<^verbatim>\<open>nsutils.c\<close>).  A path is in memory, in the external form of \<open>Acpi_Name\<close> where it
  leaves and enters, in the internal one where it is looked up.
\<close>

section \<open>The path of a node\<close>

definition path_put8 :: "bytes \<Rightarrow> ptr \<Rightarrow> u32 \<Rightarrow> u8 \<Rightarrow> u32 \<Rightarrow> bytes \<times> u32" where
  "path_put8 m Path Size Byte Len = (if Len < Size then m(Path + ucast Len := Byte) else m, Len + 1)"

text \<open>\<^verbatim>\<open>Name[4-i-1]\<close>, with \<open>Suc k\<close> bytes left to put.\<close>

definition name_byte :: "u32 \<Rightarrow> nat \<Rightarrow> u8" where "name_byte Nm k = ucast (drop_bit (8 * k) Nm)"

fun name_loop :: "nat \<Rightarrow> u32 \<Rightarrow> bytes \<Rightarrow> ptr \<Rightarrow> u32 \<Rightarrow> bool \<Rightarrow> u32 \<Rightarrow> bytes \<times> u32" where
  "name_loop 0 Nm m Path Size DoNoTrailing Len = (m, Len)"
| "name_loop (Suc k) Nm m Path Size DoNoTrailing Len =
     (let c = name_byte Nm k;
          DoNoTrailing = (if DoNoTrailing \<and> c \<noteq> 0x5F then False else DoNoTrailing);
          (m, Len) = (if \<not> DoNoTrailing then path_put8 m Path Size c Len else (m, Len))
      in name_loop k Nm m Path Size DoNoTrailing Len)"

partial_function (option) path_loop ::
  "ns_nodes \<Rightarrow> ptr \<Rightarrow> ptr \<Rightarrow> ptr \<Rightarrow> u32 \<Rightarrow> bool \<Rightarrow> ptr \<Rightarrow> bytes \<Rightarrow> u32 \<Rightarrow> (bytes \<times> u32) run" where
  "path_loop ns RootNode Node Path Size NoTrailing NextNode m Len =
     (if NextNode = 0 \<or> NextNode = RootNode then returns (m, Len)
      else
        (case (if NextNode \<noteq> Node then path_put8 m Path Size AML_DUAL_NAME_PREFIX Len else (m, Len)) of (m, Len) \<Rightarrow>
         bindR (deref ns NextNode) (\<lambda>n.
           case name_loop 4 (NodeName n) m Path Size NoTrailing Len of (m, Len) \<Rightarrow>
             path_loop ns RootNode Node Path Size NoTrailing (Parent n) m Len)))"

partial_function (option) reverse_loop :: "bytes \<Rightarrow> ptr \<Rightarrow> ptr \<Rightarrow> bytes option" where
  "reverse_loop m Lft Rgt =
     (if Lft < Rgt then reverse_loop (m(Lft := m Rgt, Rgt := m Lft)) (Lft + 1) (Rgt - 1) else Some m)"

definition AcpiNsBuildNormalizedPath ::
  "ns_nodes \<Rightarrow> ptr \<Rightarrow> bytes \<Rightarrow> ptr \<Rightarrow> ptr \<Rightarrow> u32 \<Rightarrow> bool \<Rightarrow> (bytes \<times> u32) run" where
  "AcpiNsBuildNormalizedPath ns RootNode m Node FullPath PathSize NoTrailing =
     (let PathSize = (if FullPath = 0 then 0 else PathSize);
          finish = (\<lambda>m Len. returns (path_put8 m FullPath PathSize 0 Len))
      in if Node = 0 then finish m 0
         else
           bindR (path_loop ns RootNode Node FullPath PathSize NoTrailing Node m 0) (\<lambda>(m, Len).
             case path_put8 m FullPath PathSize AML_ROOT_PREFIX Len of (m, Len) \<Rightarrow>
               if Len \<le> PathSize then
                 (case reverse_loop m FullPath (FullPath + ucast Len - 1) of None \<Rightarrow> None | Some m \<Rightarrow> finish m Len)
               else finish m Len))"

section \<open>Looking up\<close>

definition AE_NO_NAMESPACE :: u32 where "AE_NO_NAMESPACE = EXCEP_ENV 0x3"
definition AE_NOT_EXIST :: u32 where "AE_NOT_EXIST = EXCEP_ENV 0x6"
definition AE_AML_INTERNAL :: u32 where "AE_AML_INTERNAL = EXCEP_AML 0xF"
definition ACPI_TYPE_LOCAL_ALIAS :: u32 where "ACPI_TYPE_LOCAL_ALIAS = 0x15"
definition ACPI_TYPE_LOCAL_SCOPE :: u32 where "ACPI_TYPE_LOCAL_SCOPE = 0x1B"

text \<open>Up to the node that contains the scope.\<close>

partial_function (option) scope_node :: "ns_nodes \<Rightarrow> ptr \<Rightarrow> ptr run" where
  "scope_node ns PrefixNode =
     bindR (deref ns PrefixNode) (\<lambda>n.
       if AcpiNsOpensScope (ucast (NodeType n)) = 0 \<and> ucast (NodeType n) \<noteq> ACPI_TYPE_ANY
       then scope_node ns (Parent n) else returns PrefixNode)"

text \<open>The parent prefixes: the rest of the path, the node (\<open>0\<close> beyond the root), and whether there was one.\<close>

partial_function (option) parent_prefixes :: "ns_nodes \<Rightarrow> bytes \<Rightarrow> ptr \<Rightarrow> ptr \<Rightarrow> bool \<Rightarrow> (ptr \<times> ptr \<times> bool) run" where
  "parent_prefixes ns m Path ThisNode some =
     (if m Path = AML_PARENT_PREFIX then
        bindR (deref ns ThisNode) (\<lambda>n.
          if Parent n = 0 then returns (Path + 1, 0, True) else parent_prefixes ns m (Path + 1) (Parent n) True)
      else returns (Path, ThisNode, some))"

text \<open>
  The loop over the segments, with \<open>Suc N\<close> of them left.  It ends with a status and the value for
  \<^verbatim>\<open>*ReturnNode\<close>, or goes through with the node and the type.  \<open>NewNode N\<close> is what the allocator answers
  for the segment after which \<open>N\<close> are left.
\<close>

type_synonym lookup_result = "(u32 \<times> ptr + ptr \<times> u32) \<times> ns_nodes \<times> walk_state option"

fun lookup_loop ::
  "ns_env \<Rightarrow> bytes \<Rightarrow> (nat \<Rightarrow> ptr) \<Rightarrow> u32 \<Rightarrow> u32 \<Rightarrow> bool \<Rightarrow> u32 \<Rightarrow> nat \<Rightarrow> ptr \<Rightarrow> ptr \<Rightarrow> u32 \<Rightarrow> u32 \<Rightarrow>
    ns_nodes \<Rightarrow> walk_state option \<Rightarrow> lookup_result run" where
  "lookup_loop g m NewNode InterpreterMode Flags SearchParent TypeToCheckFor 0 Path Node LocalFlags Type ns w =
     returns (Inr (Node, Type), ns, w)"
| "lookup_loop g m NewNode InterpreterMode Flags SearchParent TypeToCheckFor (Suc N) Path Node LocalFlags Type ns w =
     (if Node = 0 then returns (Inr (Node, Type), ns, w)
      else
        (let ThisSearchType = (if N = 0 then Type else ACPI_TYPE_ANY);
             LocalFlags =
               (if N = 0 then
                  (LocalFlags OR (if SearchParent \<and> Flags AND ACPI_NS_SEARCH_PARENT \<noteq> 0 then ACPI_NS_SEARCH_PARENT else 0)
                    OR (if Flags AND ACPI_NS_ERROR_IF_FOUND \<noteq> 0 then ACPI_NS_ERROR_IF_FOUND else 0)
                    OR (if Flags AND ACPI_NS_OVERRIDE_IF_FOUND \<noteq> 0 then ACPI_NS_OVERRIDE_IF_FOUND else 0))
                else LocalFlags);
             SimpleName = load_le 4 m Path
         in bindR (AcpiNsSearchAndEnter g ns SimpleName w Node InterpreterMode ThisSearchType LocalFlags (NewNode N) 1)
              (\<lambda>(Status, r, ns, w).
                let ThisNode = (case r of None \<Rightarrow> Node | Some p \<Rightarrow> p) in
                if Status \<noteq> AE_OK then returns (Inl (Status, ThisNode), ns, w)
                else if N > 0 then
                  bindR (deref ns ThisNode) (\<lambda>n.
                    if ucast (NodeType n) = ACPI_TYPE_LOCAL_ALIAS then
                      if Object n = 0 then returns (Inl (AE_NOT_EXIST, 0), ns, w)
                      else bindR (deref ns (Object n)) (\<lambda>a.
                        lookup_loop g m NewNode InterpreterMode Flags SearchParent TypeToCheckFor N (Path + ACPI_NAME_SIZE)
                          (if AcpiNsOpensScope (ucast (NodeType a)) \<noteq> 0 then Object n else ThisNode) LocalFlags Type ns w)
                    else
                      lookup_loop g m NewNode InterpreterMode Flags SearchParent TypeToCheckFor N (Path + ACPI_NAME_SIZE)
                        ThisNode LocalFlags Type ns w)
                else if TypeToCheckFor \<notin> {ACPI_TYPE_ANY, ACPI_TYPE_LOCAL_ALIAS, ACPI_TYPE_LOCAL_METHOD_ALIAS, ACPI_TYPE_LOCAL_SCOPE}
                    \<or> Type = ACPI_TYPE_ANY then
                  bindR (deref ns ThisNode) (\<lambda>n.
                    lookup_loop g m NewNode InterpreterMode Flags SearchParent TypeToCheckFor N (Path + ACPI_NAME_SIZE)
                      ThisNode LocalFlags (if Type = ACPI_TYPE_ANY then ucast (NodeType n) else Type) ns w)
                else
                  lookup_loop g m NewNode InterpreterMode Flags SearchParent TypeToCheckFor N (Path + ACPI_NAME_SIZE)
                    ThisNode LocalFlags Type ns w)))"

text \<open>The segments of a path: how many, where the first is, and whether parents may still be searched.\<close>

definition path_segments :: "bytes \<Rightarrow> ptr \<Rightarrow> bool \<Rightarrow> nat \<times> ptr \<times> bool" where
  "path_segments m Path SearchParent =
     (if m Path = 0 then (0, Path, SearchParent)
      else if m Path = AML_DUAL_NAME_PREFIX then (2, Path + 1, False)
      else if m Path = AML_MULTI_NAME_PREFIX_OP then (unat (m (Path + 1)), Path + 1 + 1, False)
      else (1, Path, SearchParent))"

text \<open>
  \<open>ScopeNode\<close> is \<^verbatim>\<open>ScopeInfo->Scope.Node\<close>, or \<open>0\<close> when there is none.  What the scope stack of the walk state
  answers to a push is a parameter; the counter of lookups is left out.
\<close>

definition AcpiNsLookup ::
  "ns_env \<Rightarrow> bytes \<Rightarrow> (nat \<Rightarrow> ptr) \<Rightarrow> (ptr \<Rightarrow> u32 \<Rightarrow> u32) \<Rightarrow> ns_nodes \<Rightarrow> ptr \<Rightarrow> ptr \<Rightarrow> u32 \<Rightarrow> u32 \<Rightarrow> u32 \<Rightarrow>
    walk_state option \<Rightarrow> ptr \<Rightarrow> (u32 \<times> ptr option \<times> ns_nodes \<times> walk_state option) run" where
  "AcpiNsLookup g m NewNode AcpiDsScopeStackPush ns ScopeNode Pathname Type InterpreterMode Flags WalkState ReturnNode =
     (if ReturnNode = 0 then returns (AE_BAD_PARAMETER, None, ns, WalkState)
      else if AcpiGbl_RootNode g = 0 then returns (AE_NO_NAMESPACE, Some 0, ns, WalkState)
      else
        (let LocalFlags = Flags AND NOT (ACPI_NS_ERROR_IF_FOUND OR ACPI_NS_OVERRIDE_IF_FOUND OR ACPI_NS_SEARCH_PARENT);
             search = (\<lambda>N Path ThisNode SearchParent ThisType.
               bindR (lookup_loop g m NewNode InterpreterMode Flags SearchParent Type N Path ThisNode LocalFlags ThisType ns WalkState)
                 (\<lambda>(r, ns, w). case r of
                    Inl (Status, p) \<Rightarrow> returns (Status, Some p, ns, w)
                  | Inr (ThisNode, Type) \<Rightarrow>
                      let Status = (if Flags AND ACPI_NS_DONT_OPEN_SCOPE = 0 \<and> w \<noteq> None \<and> AcpiNsOpensScope Type \<noteq> 0
                                    then AcpiDsScopeStackPush ThisNode Type else AE_OK)
                      in if Status \<noteq> AE_OK then returns (Status, Some 0, ns, w)
                         else returns (AE_OK, Some ThisNode, ns, w)));
             from_path = (\<lambda>Path ThisNode SearchParent.
               case path_segments m Path SearchParent of (N, Next, SearchParent) \<Rightarrow>
                 if m Path = 0 then bindR (deref ns ThisNode) (\<lambda>n. search N Next ThisNode SearchParent (ucast (NodeType n)))
                 else search N Next ThisNode SearchParent Type);
             with_prefix = (\<lambda>PrefixNode.
               if Pathname = 0 then search 0 0 (AcpiGbl_RootNode g) True Type
               else if m Pathname = AML_ROOT_PREFIX then from_path (Pathname + 1) (AcpiGbl_RootNode g) False
               else bindR (parent_prefixes ns m Pathname PrefixNode False) (\<lambda>(Path, ThisNode, some).
                 if ThisNode = 0 then returns (AE_NOT_FOUND, Some 0, ns, WalkState)
                 else from_path Path ThisNode (\<not> some)))
         in if ScopeNode = 0 then with_prefix (AcpiGbl_RootNode g)
            else bindR (deref ns ScopeNode) (\<lambda>n.
              if DescriptorType n \<noteq> ACPI_DESC_TYPE_NAMED then returns (AE_AML_INTERNAL, Some 0, ns, WalkState)
              else if Flags AND ACPI_NS_PREFIX_IS_SCOPE = 0 then bindR (scope_node ns ScopeNode) with_prefix
              else with_prefix ScopeNode)))"

text \<open>
  \<open>Acquired\<close> is the answer of the mutex, \<open>Allocation\<close> that of the allocator for the internal name.  The
  result is the status, the value of \<^verbatim>\<open>*ReturnNode\<close> (\<open>None\<close>: not written), the memory and the nodes.
\<close>

definition AcpiNsGetNode ::
  "ns_env \<Rightarrow> bytes \<Rightarrow> namestring_info \<Rightarrow> ptr \<Rightarrow> u32 \<Rightarrow> (ptr \<Rightarrow> u32 \<Rightarrow> u32) \<Rightarrow> ns_nodes \<Rightarrow> ptr \<Rightarrow> ptr \<Rightarrow> u32 \<Rightarrow> ptr \<Rightarrow>
    (u32 \<times> ptr option \<times> bytes \<times> ns_nodes) run" where
  "AcpiNsGetNode g m Info Allocation Acquired AcpiDsScopeStackPush ns PrefixNode Pathname Flags ReturnNode =
     (if Pathname = 0 then
        returns (AE_OK, Some (if PrefixNode = 0 then AcpiGbl_RootNode g else PrefixNode), m, ns)
      else if ACPI_IS_ROOT_PREFIX (m Pathname) \<and> m (Pathname + 1) = 0 then returns (AE_OK, Some (AcpiGbl_RootNode g), m, ns)
      else
        (case AcpiNsInternalizeName m Info Allocation Pathname 1 of
           None \<Rightarrow> None
         | Some (Status, m, InternalPath) \<Rightarrow>
             if Status \<noteq> AE_OK then returns (Status, None, m, ns)
             else if Acquired \<noteq> AE_OK then returns (Acquired, None, m, ns)
             else
               bindR (AcpiNsLookup g m (\<lambda>_. 0) AcpiDsScopeStackPush ns PrefixNode (the InternalPath) ACPI_TYPE_ANY ACPI_IMODE_EXECUTE
                        (Flags OR ACPI_NS_DONT_OPEN_SCOPE) None ReturnNode)
                 (\<lambda>(Status, r, ns, w). returns (Status, r, m, ns))))"


section \<open>Writing from the back\<close>

text \<open>What fits of a text, from the position \<open>L\<close> of a buffer of \<open>S\<close> bytes on.\<close>

definition spill :: "bytes \<Rightarrow> ptr \<Rightarrow> nat \<Rightarrow> nat \<Rightarrow> u8 list \<Rightarrow> bytes \<times> u32" where
  "spill m P S L xs = (put m (P + of_nat L) (take (S - L) xs), of_nat (L + length xs))"

lemma spill_append: "spill (fst (spill m P S L xs)) P S (L + length xs) ys = spill m P S L (xs @ ys)"
proof (cases "length xs \<le> S - L")
  case True
  then show ?thesis by (simp add: spill_def put_append algebra_simps)
next
  case False
  then show ?thesis by (simp add: spill_def)
qed

lemma spill_Nil: "spill m P S L [] = (m, of_nat L)"
  by (simp add: spill_def)

lemma put8_spill: "L < 2 ^ 32 \<Longrightarrow> path_put8 m P Size c (of_nat L) = spill m P (unat Size) L [c]"
  by (auto simp: path_put8_def spill_def word_less_nat_alt of_nat_u32 of_nat_u32_64 take_Cons' simp del: fun_upd_apply)

definition segment_text :: "bool \<Rightarrow> u32 \<Rightarrow> u8 list" where
  "segment_text NoTrailing c =
     (if NoTrailing then rev (dropWhile (\<lambda>x. x = 0x5F) (rev (le_bytes 4 c))) else le_bytes 4 c)"

definition path_text :: "bool \<Rightarrow> u32 list \<Rightarrow> u8 list" where
  "path_text NoTrailing cs = AML_ROOT_PREFIX # join (map (segment_text NoTrailing) cs)"

lemma name_loop_spill:
  "L + k < 2 ^ 32 \<Longrightarrow> name_loop k c m P Size D (of_nat L) =
    spill m P (unat Size) L ((if D then dropWhile (\<lambda>x. x = 0x5F) else id) (rev (map (name_byte c) [0..<k])))"
proof (induction k arbitrary: m L D)
  case 0
  then show ?case by (simp add: spill_Nil)
next
  case (Suc k)
  define b where "b = name_byte c k"
  have upt: "rev (map (name_byte c) [0..<Suc k]) = b # rev (map (name_byte c) [0..<k])" by (simp add: b_def)
  show ?case
  proof (cases "D \<and> b = 0x5F")
    case True
    then have "name_loop (Suc k) c m P Size D (of_nat L) = name_loop k c m P Size True (of_nat L)"
      by (simp add: Let_def b_def)
    then show ?thesis using Suc.IH [where L = L and D = True and m = m] Suc.prems True unfolding upt by simp
  next
    case False
    define m1 where "m1 = fst (spill m P (unat Size) L [b])"
    have p: "path_put8 m P Size b (of_nat L) = (m1, of_nat (Suc L))"
      using put8_spill [of L m P Size b] Suc.prems by (simp add: m1_def spill_def)
    have "name_loop (Suc k) c m P Size D (of_nat L) = name_loop k c m1 P Size False (of_nat (Suc L))"
      using False p by (auto simp: Let_def b_def)
    also have "\<dots> = spill m1 P (unat Size) (Suc L) (rev (map (name_byte c) [0..<k]))"
      using Suc.IH [where L = "Suc L" and D = False and m = m1] Suc.prems by simp
    also have "\<dots> = spill m P (unat Size) L (b # rev (map (name_byte c) [0..<k]))"
      using spill_append [of m P "unat Size" L "[b]"] by (simp add: m1_def)
    finally show ?thesis using False unfolding upt by auto
  qed
qed

lemma name_loop_segment:
  assumes "L + 4 < 2 ^ 32"
  shows "name_loop 4 c m P Size D (of_nat L) = spill m P (unat Size) L (rev (segment_text D c))"
proof -
  have "map (name_byte c) [0..<4] = le_bytes 4 c" by (simp add: le_bytes_def name_byte_def)
  then show ?thesis using name_loop_spill [OF assms, of c m P Size D] by (simp add: segment_text_def)
qed

lemma length_segment_text: "length (segment_text D c) \<le> 4"
  using length_dropWhile_le [of "\<lambda>x. x = 0x5F" "rev (le_bytes 4 c)"] by (simp add: segment_text_def)

text \<open>The names from a node up to the one below the root.\<close>

fun upward :: "ns_nodes \<Rightarrow> ptr \<Rightarrow> ptr \<Rightarrow> u32 list \<Rightarrow> bool" where
  "upward ns R p [] \<longleftrightarrow> p = R"
| "upward ns R p (c # cs) \<longleftrightarrow> p \<noteq> 0 \<and> p \<noteq> R \<and> (\<exists>n. ns p = Some n \<and> NodeName n = c \<and> upward ns R (Parent n) cs)"

lemma upward_unique: "upward ns R p cs \<Longrightarrow> upward ns R p cs' \<Longrightarrow> cs = cs'"
proof (induction cs arbitrary: p cs')
  case Nil
  then show ?case by (cases cs') auto
next
  case (Cons c cs)
  then show ?case by (cases cs') auto
qed

definition dotted :: "bool \<Rightarrow> u32 list \<Rightarrow> u8 list" where
  "dotted D cs = concat (map (\<lambda>c. 0x2E # rev (segment_text D c)) cs)"

lemma length_dotted: "length (dotted D cs) \<le> 5 * length cs"
proof (induction cs)
  case (Cons c cs)
  then show ?case using length_segment_text [of D c] by (simp add: dotted_def)
qed (simp add: dotted_def)

lemma path_loop_rest:
  assumes "upward ns R p cs" "upward ns R Node full" "length cs < length full" "L + 5 * length cs + 5 < 2 ^ 32"
  shows "path_loop ns R Node P Size D p m (of_nat L) = returns (spill m P (unat Size) L (dotted D cs))"
  using assms
proof (induction cs arbitrary: p m L)
  case Nil
  then show ?case by (subst path_loop.simps) (simp add: dotted_def spill_Nil)
next
  case (Cons c cs)
  obtain n where n: "p \<noteq> 0" "p \<noteq> R" "ns p = Some n" "NodeName n = c" "upward ns R (Parent n) cs" using Cons.prems(1) by auto
  have ne: "p \<noteq> Node" using upward_unique [of ns R p "c # cs" full] Cons.prems(1-3) by auto
  define m1 where "m1 = fst (spill m P (unat Size) L [0x2E])"
  define s where "s = rev (segment_text D c)"
  have s: "length s \<le> 4" using length_segment_text [of D c] by (simp add: s_def)
  define m2 where "m2 = fst (spill m P (unat Size) L (0x2E # s))"
  have p1: "path_put8 m P Size AML_DUAL_NAME_PREFIX (of_nat L) = (m1, of_nat (Suc L))"
    using put8_spill [of L m P Size AML_DUAL_NAME_PREFIX] Cons.prems(4) by (simp add: m1_def spill_def AML_DUAL_NAME_PREFIX_def)
  have "name_loop 4 c m1 P Size D (of_nat (Suc L)) = spill m1 P (unat Size) (Suc L) s"
    unfolding s_def using Cons.prems(4) by (intro name_loop_segment) simp
  then have p2: "name_loop 4 c m1 P Size D (of_nat (Suc L)) = (m2, of_nat (Suc L + length s))"
    using spill_append [of m P "unat Size" L "[0x2E]" s] by (simp add: m1_def m2_def spill_def)
  have "path_loop ns R Node P Size D p m (of_nat L) =
      path_loop ns R Node P Size D (Parent n) m2 (of_nat (Suc L + length s))"
    using n ne p1 p2 by (subst path_loop.simps) (simp del: of_nat_Suc of_nat_add)
  also have "\<dots> = returns (spill m2 P (unat Size) (Suc L + length s) (dotted D cs))"
    using Cons.prems s by (intro Cons.IH [OF n(5)]) simp_all
  also have "spill m2 P (unat Size) (Suc L + length s) (dotted D cs) = spill m P (unat Size) L (dotted D (c # cs))"
    using spill_append [of m P "unat Size" L "0x2E # s" "dotted D cs"] by (simp add: m2_def s_def dotted_def)
  finally show ?case .
qed

lemma join_snoc: "join (xs @ [x]) = (if xs = [] then x else join xs @ 0x2E # x)"
  by (induction xs) (auto simp: join_Cons)

lemma rev_path: "rev (join (map f (rev (c # cs)))) = rev (f c) @ concat (map (\<lambda>c. 0x2E # rev (f c)) cs)"
proof (induction cs arbitrary: c)
  case (Cons c' cs)
  have "map f (rev (c # c' # cs)) = map f (rev (c' # cs)) @ [f c]" by simp
  then have "join (map f (rev (c # c' # cs))) = join (map f (rev (c' # cs))) @ 0x2E # f c"
    by (simp only: join_snoc) simp
  then show ?case using Cons.IH [of c'] by simp
qed simp

lemma path_loop_ok:
  assumes "upward ns R p cs" "5 * length cs + 10 < 2 ^ 32"
  shows "path_loop ns R p P Size D p m 0 = returns (spill m P (unat Size) 0 (rev (join (map (segment_text D) (rev cs)))))"
proof (cases cs)
  case Nil
  then show ?thesis using assms(1) by (subst path_loop.simps) (simp add: spill_Nil)
next
  case (Cons c cs')
  obtain n where n: "p \<noteq> 0" "p \<noteq> R" "ns p = Some n" "NodeName n = c" "upward ns R (Parent n) cs'" using assms(1) Cons by auto
  define s where "s = rev (segment_text D c)"
  have s: "length s \<le> 4" using length_segment_text [of D c] by (simp add: s_def)
  define m1 where "m1 = fst (spill m P (unat Size) 0 s)"
  have p1: "name_loop 4 c m P Size D 0 = (m1, of_nat (length s))"
    using name_loop_segment [of 0 c m P Size D] by (simp add: m1_def s_def spill_def)
  have "path_loop ns R p P Size D p m 0 = path_loop ns R p P Size D (Parent n) m1 (of_nat (length s))"
    using n p1 by (subst path_loop.simps) simp
  also have "\<dots> = returns (spill m1 P (unat Size) (length s) (dotted D cs'))"
    using assms s Cons by (intro path_loop_rest [OF n(5) assms(1)]) simp_all
  also have "spill m1 P (unat Size) (length s) (dotted D cs') = spill m P (unat Size) 0 (s @ dotted D cs')"
    using spill_append [of m P "unat Size" 0 s "dotted D cs'"] by (simp add: m1_def)
  also have "s @ dotted D cs' = rev (join (map (segment_text D) (rev cs)))"
    unfolding Cons rev_path by (simp add: s_def dotted_def)
  finally show ?thesis .
qed


section \<open>Reversing\<close>

lemma put_upd: "\<forall>i < length cs. a + of_nat i \<noteq> x \<Longrightarrow> put (m(x := c)) a cs = (put m a cs)(x := c)"
proof (induction cs arbitrary: m a)
  case (Cons d cs)
  have ne: "a \<noteq> x" "\<forall>i < length cs. a + 1 + of_nat i \<noteq> x"
    using Cons.prems unfolding length_Cons All_less_Suc2 by (simp_all add: algebra_simps)
  have "put (m(x := c)) a (d # cs) = put (m(a := d, x := c)) (a + 1) cs" using ne(1) by (simp add: fun_upd_twist del: fun_upd_apply)
  also have "\<dots> = (put (m(a := d)) (a + 1) cs)(x := c)" by (rule Cons.IH [OF ne(2)])
  finally show ?case by (simp del: fun_upd_apply)
qed simp

lemma split_ends: "2 \<le> length xs \<Longrightarrow> \<exists>a ys b. xs = a # ys @ [b]"
  by (cases xs; cases "tl xs" rule: rev_cases) auto

lemma reverse_loop_ok:
  "holds m L xs \<Longrightarrow> xs \<noteq> [] \<Longrightarrow> unat L + length xs \<le> 2 ^ 64 \<Longrightarrow>
    reverse_loop m L (L + of_nat (length xs) - 1) = Some (put m L (rev xs))"
proof (induction xs arbitrary: m L rule: measure_induct_rule [of length])
  case (less xs)
  show ?case
  proof (cases "length xs = 1")
    case True
    then obtain a where "xs = [a]" by (cases xs) auto
    then have "m(L := a) = m" using less.prems(1) by (auto simp: holds_Cons)
    then show ?thesis using \<open>xs = [a]\<close> by (subst reverse_loop.simps) simp
  next
    case False
    moreover have "length xs \<noteq> 0" using less.prems(2) by simp
    ultimately have "2 \<le> length xs" by linarith
    then obtain a ys b where xs: "xs = a # ys @ [b]" using split_ends by blast
    define R where "R = L + of_nat (Suc (length ys))"
    have R: "L + of_nat (length xs) - 1 = R" by (simp add: xs R_def)
    have uR: "unat R = unat L + Suc (length ys)"
      using less.prems(3) by (simp add: R_def xs unat_word_ariths unsigned_of_nat take_bit_nat_eq_self del: of_nat_Suc)
    have lt: "L < R" using uR by (simp add: word_less_nat_alt)
    have ends: "m L = a" "m R = b" "holds m (L + 1) ys"
      using less.prems(1) by (simp_all add: xs holds_Cons holds_append R_def add.assoc)
    define m1 where "m1 = m(L := b, R := a)"
    have uL: "unat (L + 1) = Suc (unat L)" using less.prems(3) by (simp add: xs unat_word_ariths)
    have inside: "L + 1 + of_nat i \<noteq> L" "L + 1 + of_nat i \<noteq> R" if "i < length ys" for i
    proof -
      have "unat (L + 1 + of_nat i) = Suc (unat L) + i"
        using less.prems(3) that uL by (simp add: xs unat_word_ariths unsigned_of_nat take_bit_nat_eq_self)
      then have "unat (L + 1 + of_nat i) \<noteq> unat L" "unat (L + 1 + of_nat i) \<noteq> unat R" using uR that by simp_all
      then show "L + 1 + of_nat i \<noteq> L" "L + 1 + of_nat i \<noteq> R" by metis+
    qed
    have m1: "holds m1 (L + 1) ys" using ends(3) inside by (simp add: holds_def m1_def)
    have step: "reverse_loop m L (L + of_nat (length xs) - 1) = reverse_loop m1 (L + 1) (R - 1)"
      unfolding R using lt ends by (subst reverse_loop.simps) (simp add: m1_def)
    have "reverse_loop m1 (L + 1) (R - 1) = Some (put m1 (L + 1) (rev ys))"
    proof (cases "ys = []")
      case True
      have "\<not> L + 1 < R - 1" using True uL by (simp add: R_def word_less_nat_alt)
      then show ?thesis using True by (subst reverse_loop.simps) simp
    next
      case False
      have "R - 1 = L + 1 + of_nat (length ys) - 1" by (simp add: R_def)
      then show ?thesis using less.IH [of ys m1 "L + 1"] m1 False less.prems(3) uL by (simp add: xs)
    qed
    moreover have "put m1 (L + 1) (rev ys) = put m L (rev xs)"
    proof -
      have "put m1 (L + 1) (rev ys) = (put (m(L := b)) (L + 1) (rev ys))(R := a)"
        unfolding m1_def using inside by (intro put_upd) simp
      then show ?thesis by (simp add: xs put_append R_def add.assoc)
    qed
    ultimately show ?thesis using step by simp
  qed
qed

lemma length_join: "length (join ss) = sum_list (map length ss) + (length ss - 1)"
proof (induction ss)
  case (Cons s ss)
  then show ?case by (cases ss) (simp_all add: join_Cons)
qed simp

lemma length_path_text: "length (path_text D cs) \<le> 5 * length cs + 1"
proof -
  have "sum_list (map length (map (segment_text D) cs)) \<le> 4 * length cs"
    by (induction cs) (use length_segment_text [of D] in \<open>auto intro: add_mono\<close>)
  then show ?thesis by (simp add: path_text_def length_join)
qed

text \<open>The length comes out right whatever the buffer; the buffer is never overrun.\<close>

lemma normalized_path_ok:
  fixes cs NoTrailing
  defines "X \<equiv> path_text NoTrailing (rev cs)"
  assumes "upward ns R p cs" "p \<noteq> 0" "5 * length cs + 10 < 2 ^ 32" "S = (if F = 0 then 0 else unat PathSize)" "unat F + S \<le> 2 ^ 64"
  shows "AcpiNsBuildNormalizedPath ns R m p F PathSize NoTrailing =
    returns (if length X \<le> S then put m F (take S (X @ [0])) else put m F (take S (rev X)), of_nat (length X + 1))"
proof -
  define Size where "Size = (if F = 0 then 0 else PathSize)"
  have S: "unat Size = S" by (simp add: Size_def assms(5))
  define J where "J = join (map (segment_text NoTrailing) (rev cs))"
  have X: "X = AML_ROOT_PREFIX # J" by (simp add: X_def path_text_def J_def)
  have lX: "length X + 1 < 2 ^ 32" using length_path_text [of NoTrailing "rev cs"] assms(4) by (simp add: X_def)
  define m1 where "m1 = fst (spill m F S 0 (rev J))"
  define m2 where "m2 = put m F (take S (rev X))"
  have loop: "path_loop ns R p F Size NoTrailing p m 0 = returns (m1, of_nat (length J))"
    using path_loop_ok [OF assms(2,4), of F Size NoTrailing m] unfolding S J_def [symmetric]
    by (simp add: m1_def spill_def)
  have "path_put8 m1 F Size AML_ROOT_PREFIX (of_nat (length J)) = spill m1 F S (length J) [AML_ROOT_PREFIX]"
    using put8_spill [of "length J"] lX by (simp add: S X)
  also have "\<dots> = spill m F S 0 (rev X)"
    using spill_append [of m F S 0 "rev J" "[AML_ROOT_PREFIX]"] by (simp add: m1_def X)
  finally have root: "path_put8 m1 F Size AML_ROOT_PREFIX (of_nat (length J)) = (m2, of_nat (length X))"
    by (simp add: spill_def m2_def)
  have build: "AcpiNsBuildNormalizedPath ns R m p F PathSize NoTrailing =
      (if length X \<le> S
       then (case reverse_loop m2 F (F + of_nat (length X) - 1) of None \<Rightarrow> None | Some m \<Rightarrow> returns (path_put8 m F Size 0 (of_nat (length X))))
       else returns (path_put8 m2 F Size 0 (of_nat (length X))))"
    using assms(3) lX unfolding AcpiNsBuildNormalizedPath_def Size_def [symmetric] Let_def
    by (simp add: loop root word_le_nat_alt of_nat_u32 of_nat_u32_64 S)
  have zero: "path_put8 m' F Size 0 (of_nat (length X)) = spill m' F S (length X) [0]" for m'
    using put8_spill [of "length X"] lX by (simp add: S)
  show ?thesis
  proof (cases "length X \<le> S")
    case True
    have "length X < 2 ^ 64" using lX by simp
    then have "holds m2 F (rev X)" using True put_writes [of "rev X" m F] by (simp add: m2_def)
    moreover have "rev X \<noteq> []" "unat F + length (rev X) \<le> 2 ^ 64" using True assms(6) by (simp_all add: X)
    ultimately have "reverse_loop m2 F (F + of_nat (length X) - 1) = Some (put m2 F X)"
      using reverse_loop_ok [of m2 F "rev X"] by simp
    moreover have "put m2 F X = put m F X"
    proof
      fix x show "put m2 F X x = put m F X x"
        using True \<open>length X < 2 ^ 64\<close> by (simp add: m2_def put_block)
    qed
    ultimately have "AcpiNsBuildNormalizedPath ns R m p F PathSize NoTrailing = returns (spill (put m F X) F S (length X) [0])"
      using True build zero by simp
    moreover have "spill (put m F X) F S (length X) [0] = (put m F (take S (X @ [0])), of_nat (length X + 1))"
      using True spill_append [of m F S 0 X "[0]"] by (simp add: spill_def)
    ultimately show ?thesis using True by simp
  next
    case False
    then show ?thesis using build zero by (simp add: spill_def m2_def)
  qed
qed


section \<open>Down and up the tree\<close>

text \<open>
  The names \<open>cs\<close> lead from \<open>P\<close> to \<open>p\<close>: each is found in its scope, and none of the nodes is an alias.
\<close>

fun leads :: "ns_nodes \<Rightarrow> ptr \<Rightarrow> u32 list \<Rightarrow> ptr \<Rightarrow> bool" where
  "leads ns P [] p \<longleftrightarrow> p = P \<and> p \<noteq> 0 \<and> ns p \<noteq> None"
| "leads ns P (c # cs) p \<longleftrightarrow>
     (\<exists>f q. scope ns P f \<and> child_named ns f c = Some q \<and>
       (ucast (NodeType (the (ns q))) :: u32) \<notin> {ACPI_TYPE_LOCAL_ALIAS, ACPI_TYPE_LOCAL_METHOD_ALIAS} \<and> leads ns q cs p)"

lemma child_named_live:
  assumes "scope ns P f" "child_named ns f c = Some q"
  obtains n where "q \<noteq> 0" "ns q = Some n" "Parent n = P" "NodeName n = c"
proof -
  have "peers ns P f" using assms(1) by (simp add: scope_def)
  moreover have "named ns c q" using assms(2) by (auto simp: child_named_def find_Some_iff)
  ultimately show thesis using row_live [of ns P f q] child_named_in_row [OF assms(2)] that by (auto simp: named_def)
qed

lemma leads_upward:
  assumes "leads ns P cs p" "upward ns R P xs" "ns R = Some r" "Parent r = 0"
  shows "upward ns R p (rev cs @ xs)"
  using assms
proof (induction cs arbitrary: P xs)
  case (Cons c cs)
  then obtain f q where q: "scope ns P f" "child_named ns f c = Some q" "leads ns q cs p" by auto
  obtain n where n: "q \<noteq> 0" "ns q = Some n" "Parent n = P" "NodeName n = c" using child_named_live [OF q(1,2)] .
  have "P \<noteq> 0" using q(1) by (simp add: scope_def)
  then have "q \<noteq> R" using n Cons.prems(3,4) by auto
  then have "upward ns R q (c # xs)" using n Cons.prems(2) by auto
  then show ?case using Cons.IH [OF q(3) _ Cons.prems(3,4)] by simp
qed simp

definition aml_name :: "u32 \<Rightarrow> bool" where
  "aml_name c \<longleftrightarrow> aml_segment (le_bytes 4 c)"

lemma repair_aml: "aml_name c \<Longrightarrow> repair_name c = c"
proof -
  assume a: "aml_name c"
  have "holds (store_le 4 (\<lambda>_. 0) 0 c) 0 (le_bytes 4 c)"
    by (auto simp: holds_def store_le_def le_bytes_def unsigned_of_nat take_bit_nat_eq_self)
  then have "AcpiUtRepairName (store_le 4 (\<lambda>_. 0) 0 c) 0 = store_le 4 (\<lambda>_. 0) 0 c"
    using a unfolding aml_name_def by (rule repair_valid)
  then show ?thesis by (simp add: repair_name_def load_store_same)
qed

lemma aml_name_nonzero: "aml_name c \<Longrightarrow> c \<noteq> 0"
proof
  assume "aml_name c" "c = 0"
  moreover have "le_bytes 4 (0 :: u32) = [0, 0, 0, 0]" by (simp add: le_bytes_def upt_rec)
  ultimately show False by (simp add: aml_name_def aml_segment_def aml_char_def)
qed

lemma load_name: "holds m a (le_bytes 4 c) \<Longrightarrow> load_le 4 m a = (c :: u32)"
proof -
  assume h: "holds m a (le_bytes 4 c)"
  have "map (\<lambda>i. m (a + of_nat i)) [0..<4] = le_bytes 4 c"
    using h by (intro nth_equalityI) (simp_all add: holds_def)
  then show ?thesis using le_value_bytes [of 4 c] by (simp only: load_le_value) simp
qed

lemma lookup_loop_leads:
  assumes "leads ns P cs p" "holds m Path (concat (map (le_bytes 4) cs))" "\<forall>c \<in> set cs. aml_name c"
    and "LocalFlags AND ACPI_NS_OVERRIDE_IF_FOUND = 0" "LocalFlags AND ACPI_NS_ERROR_IF_FOUND = 0"
    and "Flags AND ACPI_NS_OVERRIDE_IF_FOUND = 0" "Flags AND ACPI_NS_ERROR_IF_FOUND = 0"
  shows "\<exists>T. lookup_loop g m NN InterpreterMode Flags False ACPI_TYPE_ANY (length cs) Path P LocalFlags Type ns w =
    returns (Inr (p, T), ns, w)"
  using assms(1-3)
proof (induction cs arbitrary: P Path Type)
  case Nil
  then show ?case by simp
next
  case (Cons c cs)
  then obtain f q where q: "scope ns P f" "child_named ns f c = Some q" "leads ns q cs p"
    "(ucast (NodeType (the (ns q))) :: u32) \<noteq> ACPI_TYPE_LOCAL_ALIAS" "(ucast (NodeType (the (ns q))) :: u32) \<noteq> ACPI_TYPE_LOCAL_METHOD_ALIAS"
    by auto
  obtain n where n: "q \<noteq> 0" "ns q = Some n" using child_named_live [OF q(1,2)] .
  have P: "P \<noteq> 0" using q(1) by (simp add: scope_def)
  have c: "aml_name c" using Cons.prems(3) by simp
  have h: "holds m Path (le_bytes 4 c)" "holds m (Path + ACPI_NAME_SIZE) (concat (map (le_bytes 4) cs))"
    using Cons.prems(2) by (simp_all add: holds_append ACPI_NAME_SIZE_def)
  have srch: "AcpiNsSearchAndEnter g ns c w P InterpreterMode T LocalFlags (NN k) 1 = returns (AE_OK, Some q, ns, w)" for T k
    using search_found [OF q(1), of c q 1 LocalFlags] q(2,5) assms(4,5) c
    by (simp add: repair_aml aml_name_nonzero target_def)
  have ih: "\<exists>T. lookup_loop g m NN InterpreterMode Flags False ACPI_TYPE_ANY (length cs) (Path + ACPI_NAME_SIZE) q LocalFlags Type' ns w =
      returns (Inr (p, T), ns, w)" for Type'
    using Cons.IH [OF q(3) h(2)] Cons.prems(3) by simp
  show ?case
  proof (cases "cs = []")
    case True
    then show ?thesis using P n q(3) srch assms(6,7)
      by (simp add: load_name [OF h(1)] Let_def)
  next
    case False
    then obtain k where k: "length cs = Suc k" by (cases cs) auto
    have "lookup_loop g m NN InterpreterMode Flags False ACPI_TYPE_ANY (length (c # cs)) Path P LocalFlags Type ns w =
        lookup_loop g m NN InterpreterMode Flags False ACPI_TYPE_ANY (length cs) (Path + ACPI_NAME_SIZE) q LocalFlags Type ns w"
      using P n q(4) srch k by (simp add: load_name [OF h(1)] Let_def)
    then show ?thesis using ih by simp
  qed
qed

section \<open>The text of a path\<close>

lemma upper_aml_table: "list_all (\<lambda>n. aml_char (of_nat n) \<longrightarrow> upper (of_nat n) = of_nat n) [0..<256]"
  by code_simp

lemma upper_aml: "aml_char c \<Longrightarrow> upper c = c"
proof -
  have "unat c \<in> set [0..<256]" using u8_bound [of c] by simp
  then have "aml_char (of_nat (unat c)) \<longrightarrow> upper (of_nat (unat c)) = of_nat (unat c)"
    using upper_aml_table unfolding list_all_iff by blast
  then show "aml_char c \<Longrightarrow> upper c = c" unfolding of_nat_unat ucast_id by simp
qed

lemma trailing: "rev (dropWhile (\<lambda>x. x = a) (rev xs)) @ replicate (length (takeWhile (\<lambda>x. x = a) (rev xs))) a = xs"
proof -
  have "takeWhile (\<lambda>x. x = a) (rev xs) = replicate (length (takeWhile (\<lambda>x. x = a) (rev xs))) a"
    by (intro replicate_eqI) (auto dest: set_takeWhileD)
  then have "replicate (length (takeWhile (\<lambda>x. x = a) (rev xs))) a = rev (takeWhile (\<lambda>x. x = a) (rev xs))"
    by (metis rev_replicate)
  then show ?thesis by (metis rev_append rev_rev_ident takeWhile_dropWhile_id)
qed

lemma segment_text_canon:
  assumes "aml_name c"
  shows "canon (segment_text D c) = le_bytes 4 c" "\<forall>b \<in> set (segment_text D c). aml_char b"
proof -
  have aml: "\<forall>b \<in> set (le_bytes 4 c). aml_char b" using assms by (simp add: aml_name_def aml_segment_def)
  show chars: "\<forall>b \<in> set (segment_text D c). aml_char b"
    using aml set_dropWhileD [of _ "\<lambda>x. x = 0x5F" "rev (le_bytes 4 c)"] by (auto simp: segment_text_def)
  obtain k where k: "segment_text D c @ replicate k 0x5F = le_bytes 4 c"
    using trailing [of "0x5F" "le_bytes 4 c"] by (cases D) (auto simp: segment_text_def)
  have len: "length (segment_text D c) + k = 4" using arg_cong [OF k, of length] by simp
  have "map upper (segment_text D c) = segment_text D c" using chars upper_aml by (intro map_idI) simp
  then have "canon (segment_text D c) = segment_text D c @ replicate k 0x5F"
    using len by (simp add: canon_def min_def)
  then show "canon (segment_text D c) = le_bytes 4 c" using k by simp
qed

lemma join_chars: "c \<in> set (join ss) \<Longrightarrow> c = 0x2E \<or> (\<exists>s \<in> set ss. c \<in> set s)"
  by (induction ss) (auto simp: join_Cons split: if_splits)

lemma path_text_name:
  assumes "\<forall>c \<in> set cs. aml_name c" "map (segment_text D) cs \<noteq> [[]]"
  shows "name_text Absolute (map (segment_text D) cs) (path_text D cs)" "0 \<notin> set (path_text D cs)"
    "fits (map (segment_text D) cs)"
proof -
  let ?ss = "map (segment_text D) cs"
  have chars: "\<forall>s \<in> set ?ss. \<forall>c \<in> set s. aml_char c" using assms(1) segment_text_canon(2) by auto
  have plain: "c \<notin> {0, 0x5C}" if "c \<in> set (join ?ss)" for c
    using join_chars [OF that] chars aml_char_plain by fastforce
  then have "begins Absolute [AML_ROOT_PREFIX] (join ?ss)"
    using hd_in_set [of "join ?ss"] by (auto simp: begins_def AML_ROOT_PREFIX_def)
  then show "name_text Absolute ?ss (path_text D cs)"
    using chars aml_char_plain assms(2) unfolding name_text_def path_text_def by fastforce
  show "0 \<notin> set (path_text D cs)" using plain by (auto simp: path_text_def AML_ROOT_PREFIX_def)
  show "fits ?ss" using length_segment_text [of D] by (simp add: fits_def)
qed


section \<open>The properties\<close>

lemma local_flags:
  fixes Flags :: u32
  shows "((Flags OR ACPI_NS_DONT_OPEN_SCOPE) AND NOT (ACPI_NS_ERROR_IF_FOUND OR ACPI_NS_OVERRIDE_IF_FOUND OR ACPI_NS_SEARCH_PARENT))
      AND ACPI_NS_OVERRIDE_IF_FOUND = 0"
    and "((Flags OR ACPI_NS_DONT_OPEN_SCOPE) AND NOT (ACPI_NS_ERROR_IF_FOUND OR ACPI_NS_OVERRIDE_IF_FOUND OR ACPI_NS_SEARCH_PARENT))
      AND ACPI_NS_ERROR_IF_FOUND = 0"
    and "Flags AND ACPI_NS_OVERRIDE_IF_FOUND = 0 \<Longrightarrow> (Flags OR ACPI_NS_DONT_OPEN_SCOPE) AND ACPI_NS_OVERRIDE_IF_FOUND = 0"
    and "Flags AND ACPI_NS_ERROR_IF_FOUND = 0 \<Longrightarrow> (Flags OR ACPI_NS_DONT_OPEN_SCOPE) AND ACPI_NS_ERROR_IF_FOUND = 0"
proof -
  note defs = ACPI_NS_DONT_OPEN_SCOPE_def ACPI_NS_OVERRIDE_IF_FOUND_def ACPI_NS_ERROR_IF_FOUND_def ACPI_NS_SEARCH_PARENT_def
  show "((Flags OR ACPI_NS_DONT_OPEN_SCOPE) AND NOT (ACPI_NS_ERROR_IF_FOUND OR ACPI_NS_OVERRIDE_IF_FOUND OR ACPI_NS_SEARCH_PARENT))
      AND ACPI_NS_OVERRIDE_IF_FOUND = 0"
    "((Flags OR ACPI_NS_DONT_OPEN_SCOPE) AND NOT (ACPI_NS_ERROR_IF_FOUND OR ACPI_NS_OVERRIDE_IF_FOUND OR ACPI_NS_SEARCH_PARENT))
      AND ACPI_NS_ERROR_IF_FOUND = 0"
    by (simp_all add: and.assoc) (simp_all add: defs)
  show "Flags AND ACPI_NS_OVERRIDE_IF_FOUND = 0 \<Longrightarrow> (Flags OR ACPI_NS_DONT_OPEN_SCOPE) AND ACPI_NS_OVERRIDE_IF_FOUND = 0"
    "Flags AND ACPI_NS_ERROR_IF_FOUND = 0 \<Longrightarrow> (Flags OR ACPI_NS_DONT_OPEN_SCOPE) AND ACPI_NS_ERROR_IF_FOUND = 0"
    by (simp_all add: word_ao_dist) (simp_all add: defs)
qed

lemma path_segments_ok:
  assumes "holds m a (internal_body ts)" "\<forall>t \<in> set ts. aml_segment t" "ts \<noteq> []" "length ts \<le> 255"
  shows "path_segments m a False = (length ts, a + of_nat (length (count_chars (length ts))), False)" "m a \<noteq> 0"
proof -
  obtain c r where b: "internal_body ts = c # r" and c: "length ts = 1 \<longrightarrow> c \<notin> {0, 0x2E, 0x2F}"
    "length ts = 2 \<longrightarrow> c = 0x2E" "length ts > 2 \<longrightarrow> c = 0x2F \<and> (\<exists>r'. r = of_nat (length ts) # r')"
    using internal_body_hd [OF assms(2)] by blast
  have m: "m a = c" "holds m (a + 1) r" using assms(1) b by (simp_all add: holds_Cons)
  have "length ts \<noteq> 0" using assms(3) by simp
  then consider "length ts = 1" | "length ts = 2" | "length ts > 2" by linarith
  then have "path_segments m a False = (length ts, a + of_nat (length (count_chars (length ts))), False) \<and> m a \<noteq> 0"
  proof cases
    case 3
    then obtain r' where r: "r = of_nat (length ts) # r'" "c = 0x2F" using c(3) by blast
    then have "m (a + 1) = of_nat (length ts)" using m(2) by (simp add: holds_Cons)
    then show ?thesis using 3 r(2) m(1) assms(4)
      by (simp add: path_segments_def count_chars_def AML_MULTI_NAME_PREFIX_OP_def AML_DUAL_NAME_PREFIX_def
          unsigned_of_nat take_bit_nat_eq_self)
  qed (use c(1,2) m(1) in \<open>auto simp: path_segments_def count_chars_def AML_MULTI_NAME_PREFIX_OP_def AML_DUAL_NAME_PREFIX_def\<close>)
  then show "path_segments m a False = (length ts, a + of_nat (length (count_chars (length ts))), False)" "m a \<noteq> 0" by simp_all
qed

lemma lookup_absolute:
  assumes "holds m N (internal_name Absolute ss)" "map canon ss = map (le_bytes 4) cs" "\<forall>c \<in> set cs. aml_name c"
    and "leads ns (AcpiGbl_RootNode g) cs p" "cs \<noteq> []" "length cs \<le> 255" "N \<noteq> 0" "ReturnNode \<noteq> 0" "AcpiGbl_RootNode g \<noteq> 0"
    and "Flags AND ACPI_NS_OVERRIDE_IF_FOUND = 0" "Flags AND ACPI_NS_ERROR_IF_FOUND = 0"
  shows "AcpiNsLookup g m NN push ns 0 N ACPI_TYPE_ANY ACPI_IMODE_EXECUTE (Flags OR ACPI_NS_DONT_OPEN_SCOPE) None ReturnNode =
    returns (AE_OK, Some p, ns, None)"
proof -
  define ts where "ts = map (le_bytes 4) cs"
  have len: "length ss = length cs" using arg_cong [OF assms(2), of length] by (simp only: length_map)
  have ts: "\<forall>t \<in> set ts. aml_segment t" "ts \<noteq> []" "length ts = length cs" "length ss = length cs"
    using assms(3,5) len by (auto simp: ts_def aml_name_def)
  have int: "internal_name Absolute ss = AML_ROOT_PREFIX # internal_body ts"
    using assms(2) ts(4) by (simp add: internal_name_def internal_body_def ts_def)
  have h: "m N = AML_ROOT_PREFIX" "holds m (N + 1) (internal_body ts)" using assms(1) by (simp_all add: int holds_Cons)
  define b where "b = N + 1 + of_nat (length (count_chars (length ts)))"
  have "holds m b (concat ts)" using h(2) by (simp add: internal_body_def holds_append b_def)
  then obtain T where loop: "lookup_loop g m NN ACPI_IMODE_EXECUTE (Flags OR ACPI_NS_DONT_OPEN_SCOPE) False ACPI_TYPE_ANY (length cs) b
      (AcpiGbl_RootNode g)
      ((Flags OR ACPI_NS_DONT_OPEN_SCOPE) AND NOT (ACPI_NS_ERROR_IF_FOUND OR ACPI_NS_OVERRIDE_IF_FOUND OR ACPI_NS_SEARCH_PARENT))
      ACPI_TYPE_ANY ns None = returns (Inr (p, T), ns, None)"
    using lookup_loop_leads [OF assms(4) _ assms(3) local_flags(1,2) local_flags(3) [OF assms(10)] local_flags(4) [OF assms(11)]]
    unfolding ts_def by blast
  have seg: "path_segments m (N + 1) False = (length cs, b, False)" "m (N + 1) \<noteq> 0"
    using path_segments_ok [OF h(2) ts(1,2)] assms(6) ts(3) by (simp_all add: b_def)
  show ?thesis
    using assms(7-9) h(1) seg loop by (simp add: AcpiNsLookup_def Let_def)
qed

text \<open>
  C29: the path of a node is written as the names from the root down, whole and with its terminator
  when the buffer has room for both; in every case the length that is returned is that of the whole
  path, and the buffer is not overrun.
\<close>

theorem normalized_path_written:
  fixes cs NoTrailing
  assumes "upward ns R p cs" "p \<noteq> 0" "5 * length cs + 10 < 2 ^ 32" "S = (if F = 0 then 0 else unat PathSize)" "unat F + S \<le> 2 ^ 64"
  shows "AcpiNsBuildNormalizedPath ns R m p F PathSize NoTrailing =
    (let X = path_text NoTrailing (rev cs) in
     returns (if length X \<le> S then put m F (take S (X @ [0])) else put m F (take S (rev X)), of_nat (length X + 1)))"
  unfolding Let_def using assms by (rule normalized_path_ok)

text \<open>
  C24: the path of a node leads back to it: what \<^verbatim>\<open>AcpiNsBuildNormalizedPath\<close> writes, with or without the
  trailing underscores, \<^verbatim>\<open>AcpiNsGetNode\<close> turns into an internal name, and looks up as that node.  The
  nodes on the way are no aliases, and each has the first node of its name in its scope; without the
  underscores, the name of a child of the root must have another character.
\<close>

theorem path_leads_back:
  assumes "leads ns R cs p" "AcpiGbl_RootNode g = R" "ns R = Some r" "Parent r = 0" "cs \<noteq> []" "length cs \<le> 255"
    and "\<forall>c \<in> set cs. aml_name c" "map (segment_text NoTrailing) cs \<noteq> [[]]"
    and "F \<noteq> 0" "length (path_text NoTrailing cs) < unat PathSize" "unat F + unat PathSize \<le> 2 ^ 64"
    and "N \<noteq> 0" "apart F (length (path_text NoTrailing cs)) N (4 * length cs + 4)" "ReturnNode \<noteq> 0"
    and "Flags AND ACPI_NS_OVERRIDE_IF_FOUND = 0" "Flags AND ACPI_NS_ERROR_IF_FOUND = 0"
  shows "\<exists>m1 m2. AcpiNsBuildNormalizedPath ns R m p F PathSize NoTrailing =
      returns (m1, of_nat (length (path_text NoTrailing cs) + 1)) \<and>
    cstring m1 F (path_text NoTrailing cs) \<and>
    AcpiNsGetNode g m1 Info N AE_OK push ns 0 F Flags ReturnNode = returns (AE_OK, Some p, m2, ns)"
proof -
  define X where "X = path_text NoTrailing cs"
  define ss where "ss = map (segment_text NoTrailing) cs"
  have R: "R \<noteq> 0" using assms(1,5) by (cases cs) (auto simp: scope_def)
  have up: "upward ns R p (rev cs)" using leads_upward [OF assms(1) _ assms(3,4), of "[]"] by simp
  have p: "p \<noteq> 0" using up assms(5) by (cases "rev cs") auto
  have lX: "length X \<le> 5 * length cs + 1" using length_path_text by (simp add: X_def)
  define m1 where "m1 = put m F (X @ [0])"
  have build: "AcpiNsBuildNormalizedPath ns R m p F PathSize NoTrailing = returns (m1, of_nat (length X + 1))"
    using normalized_path_ok [OF up p, where F = F and PathSize = PathSize and S = "unat PathSize" and NoTrailing = NoTrailing and m = m] assms(6,9,10,11) by (simp add: X_def m1_def)
  have name: "name_text Absolute ss X" "0 \<notin> set X" "fits ss"
    using path_text_name [OF assms(7,8)] by (simp_all add: X_def ss_def)
  have str: "cstring m1 F X" unfolding m1_def by (rule put_cstring [OF name(2)]) (use lX assms(6) in simp)
  have canon: "map canon ss = map (le_bytes 4) cs" using assms(7) segment_text_canon(1) by (simp add: ss_def)
  have ap: "apart F (length X) N (internal_room Absolute ss)"
    using assms(13) by (simp add: internal_room_def ss_def X_def)
  have "X \<noteq> []" by (simp add: X_def path_text_def)
  then obtain m2 where m2: "AcpiNsInternalizeName m1 Info N F 1 = Some (AE_OK, m2, Some N)" "holds m2 N (internal_name Absolute ss)"
    using internalize_ok [OF str name(1) _ assms(9) _ assms(12) _ ap, of 1 Info] name(3) lX assms(6) by auto
  have rest: "X = AML_ROOT_PREFIX # join ss" "join ss \<noteq> []"
    using join_empty [of ss] assms(5,8) by (simp_all add: X_def path_text_def ss_def)
  then have "m1 (F + 1) \<noteq> 0" using str by (cases "join ss") auto
  moreover have "AcpiNsLookup g m2 (\<lambda>_. 0) push ns 0 N ACPI_TYPE_ANY ACPI_IMODE_EXECUTE (Flags OR ACPI_NS_DONT_OPEN_SCOPE) None ReturnNode =
      returns (AE_OK, Some p, ns, None)"
    using lookup_absolute [OF m2(2) canon assms(7) _ assms(5,6,12,14)] assms(1,2,15,16) R by simp
  ultimately have "AcpiNsGetNode g m1 Info N AE_OK push ns 0 F Flags ReturnNode = returns (AE_OK, Some p, m2, ns)"
    using assms(9) m2(1) by (simp add: AcpiNsGetNode_def)
  then show ?thesis using build str unfolding X_def by blast
qed

text \<open>The path of the inner node of the example: \<^verbatim>\<open>\AAAA.BBBB\<close>.\<close>

theorem normalized_path_written_witness:
  "AcpiNsBuildNormalizedPath example_nodes 16 (\<lambda>_. 0) 48 256 64 True =
     returns (put (\<lambda>_. 0) 256 [0x5C, 0x41, 0x41, 0x41, 0x41, 0x2E, 0x42, 0x42, 0x42, 0x42, 0], 11)"
proof -
  have up: "upward example_nodes 16 48 [0x42424242, 0x41414141]"
    by (simp add: example_nodes_def example_node_def)
  have t: "path_text True (rev [0x42424242, 0x41414141]) = [0x5C, 0x41, 0x41, 0x41, 0x41, 0x2E, 0x42, 0x42, 0x42, 0x42]"
    by code_simp
  have "AcpiNsBuildNormalizedPath example_nodes 16 (\<lambda>_. 0) 48 256 64 True =
      (let X = path_text True (rev [0x42424242, 0x41414141]) in
       returns (if length X \<le> 64 then put (\<lambda>_. 0) 256 (take 64 (X @ [0])) else put (\<lambda>_. 0) 256 (take 64 (rev X)), of_nat (length X + 1)))"
    by (rule normalized_path_written [OF up]) simp_all
  then show ?thesis unfolding t Let_def by simp
qed

theorem path_leads_back_witness:
  "\<exists>m1 m2. AcpiNsBuildNormalizedPath example_nodes 16 (\<lambda>_. 0) 48 256 64 True = returns (m1, 11) \<and>
     AcpiNsGetNode example_env m1 example_info 512 AE_OK (\<lambda>_ _. 0) example_nodes 0 256 0 8 =
       returns (AE_OK, Some 48, m2, example_nodes)"
proof -
  let ?cs = "[0x41414141, 0x42424242] :: u32 list"
  have t: "path_text True ?cs = [0x5C, 0x41, 0x41, 0x41, 0x41, 0x2E, 0x42, 0x42, 0x42, 0x42]"
    "map (segment_text True) ?cs \<noteq> [[]]" "\<forall>c \<in> set ?cs. aml_name c"
    by code_simp+
  have "scope example_nodes 32 (Tree 48 Bare Bare)" using example_scope by (simp add: scope_def example_nodes_def example_node_def)
  moreover have "child_named example_nodes example_forest 0x41414141 = Some 32" "child_named example_nodes (Tree 48 Bare Bare) 0x42424242 = Some 48"
    by (simp_all add: child_named_def named_def example_nodes_def example_forest_def example_node_def)
  moreover have "(ucast (NodeType (the (example_nodes 32))) :: u32) \<notin> {ACPI_TYPE_LOCAL_ALIAS, ACPI_TYPE_LOCAL_METHOD_ALIAS}"
    "(ucast (NodeType (the (example_nodes 48))) :: u32) \<notin> {ACPI_TYPE_LOCAL_ALIAS, ACPI_TYPE_LOCAL_METHOD_ALIAS}" "example_nodes 48 \<noteq> None"
    by (simp_all add: example_nodes_def example_node_def ACPI_TYPE_LOCAL_ALIAS_def ACPI_TYPE_LOCAL_METHOD_ALIAS_def)
  moreover have "(48 :: ptr) \<noteq> 0" by simp
  ultimately have l: "leads example_nodes 16 ?cs 48" using example_scope unfolding leads.simps by blast
  have r: "example_nodes 16 = Some (example_node 0x5F5F5F5C 0 32 0)" "Parent (example_node 0x5F5F5F5C 0 32 0) = 0"
    by (simp_all add: example_nodes_def example_node_def)
  have ap: "apart 256 (length (path_text True ?cs)) 512 (4 * length ?cs + 4)" by (rule apart_above) (simp_all add: t(1))
  show ?thesis
    using path_leads_back [OF l _ r _ _ t(3,2), where g = example_env and F = 256 and PathSize = 64 and N = 512 and ReturnNode = 8
        and Flags = 0 and m = "\<lambda>_. 0" and Info = example_info and push = "\<lambda>_ _. 0"] ap
    unfolding t(1) by (auto simp: example_env_def simp del: cstring.simps)
qed

end
