(* ===== verification/Spec2Isabelle.thy ===== *)
theory Spec2Isabelle
  imports Clib_Mem Clib_Avl Clib_Comm Clib_Atomic Klib_Synch Klib_Kmem Klib_Space Klib_Task Klib_Load Klib_Heap Klib_Io
    Kernel_Boot Sched_Mman Sched_Mirror Sched_Root Sched_Main Rlib_System Hw_Main Hw_Osl
    Acpi_Owner Acpi_Resource Acpi_Port Acpi_Clib Acpi_Root Acpi_Aml Acpi_Number Acpi_Field Acpi_Name Acpi_Namespace Acpi_Search
    Acpi_Path
begin

text \<open>
  A model of \<^verbatim>\<open>refk\<close>, a small exokernel for x86-64 written in C: what its code does, and what
  can be relied on.

  \<^bold>\<open>The program.\<close>  The kernel proper (\<^verbatim>\<open>kernel/\<close>) sets up memory, descriptors and two tasks and is
  gone.  The first task is the scheduler (\<^verbatim>\<open>kernel/scheduler/\<close>), which owns the page tables and the task
  table and serves the requests that tasks write into ring-buffer channels; the second is the
  hardware task (\<^verbatim>\<open>kernel/hw/\<close>), which finds the interrupt controllers and the PCI bus with the help of
  ACPICA.  \<^verbatim>\<open>clib/\<close> has the data structures, \<^verbatim>\<open>klib/\<close> what needs kernel privileges, \<^verbatim>\<open>rlib/\<close> what tasks
  call to make requests.

  \<^bold>\<open>The theories.\<close>  One for each part, importing those it calls:

  \<^item> \<open>Refk_Prelude\<close>: words, little-endian memory and byte lists, pages and entries, and the results
    of fallible code: \<open>res\<close> (a value or a fault) and \<open>run\<close> (a result, or \<open>None\<close> for code that never
    returns), with \<open>returns\<close>, \<open>crash\<close> and \<open>bindR\<close>.
  \<^item> \<open>Clib_Mem\<close> (\<^verbatim>\<open>clib/mem.c\<close>, \<^verbatim>\<open>clib/str.c\<close>), \<open>Clib_Avl\<close> (\<^verbatim>\<open>clib/avl.c\<close>: a tree of nodes with a
    comparison function, refined to a map by the locale \<open>key_order\<close>), \<open>Clib_Comm\<close> (\<^verbatim>\<open>clib/comm.c\<close>: the
    channel, refined to a queue by the locale \<open>packet_channel\<close>), \<open>Clib_Atomic\<close> (\<^verbatim>\<open>clib/atomic.c\<close>,
    instruction by instruction).
  \<^item> \<open>Klib_Synch\<close> (\<^verbatim>\<open>klib/synch.c\<close>: the spinlock as a step relation of many processors),
    \<open>Klib_Kmem\<close> (\<^verbatim>\<open>klib/phy.c\<close>, \<^verbatim>\<open>klib/kmem.c\<close>: the free list and the page tables in a physical memory of
    bytes), \<open>Klib_Space\<close> (the memory of an address space as one range of bytes, for \<^verbatim>\<open>kmem_memcpy\<close> and
    \<^verbatim>\<open>kmem_memclr\<close>), \<open>Klib_Task\<close> (\<^verbatim>\<open>klib/task.c\<close>: the task table and the ELF loader), \<open>Klib_Load\<close> (what
    loading a segment leaves in the address space), \<open>Klib_Heap\<close>
    (\<^verbatim>\<open>clib/heap.c\<close>, \<^verbatim>\<open>klib/heap.c\<close>), \<open>Klib_Io\<close> (\<^verbatim>\<open>klib/io.c\<close>, \<^verbatim>\<open>msr.c\<close>, \<^verbatim>\<open>lapic.c\<close>, \<^verbatim>\<open>d.c\<close>: device
    accesses as a log, with the device a function of it).
  \<^item> \<open>Kernel_Boot\<close>: \<^verbatim>\<open>kernel/kmem.c\<close>, \<^verbatim>\<open>kernel/desc.c\<close>, \<^verbatim>\<open>kernel/kmain.c\<close>.
  \<^item> \<open>Sched_Mman\<close> (\<^verbatim>\<open>kernel/scheduler/mman.c\<close>), \<open>Sched_Mirror\<close> (two address spaces beside each other: sharing
    pages, and what leaves the other space alone), \<open>Sched_Root\<close> (what a new root shares with the running
    space), \<open>Sched_State\<close> (the state of the scheduler: the record of the
    memory manager, extended), \<open>Sched_Choose\<close> and \<open>Sched_Main\<close> (\<^verbatim>\<open>scheduler.c\<close>), \<open>Sched_Synch\<close>
    (\<^verbatim>\<open>synch.c\<close>), \<open>Sched_Task\<close> (\<^verbatim>\<open>task.c\<close>), \<open>Sched_Listen\<close> (\<^verbatim>\<open>listen.c\<close>, \<^verbatim>\<open>interface.h\<close>).
  \<^item> \<open>Rlib_Client\<close> (\<^verbatim>\<open>rlib/\<close>) and \<open>Rlib_System\<close>, where the interrupt the library makes runs the
    scheduler's own model.
  \<^item> \<open>Hw_Apic\<close> (\<^verbatim>\<open>kernel/hw/apics.c\<close>, \<^verbatim>\<open>ioapic.c\<close>), \<open>Hw_Pci\<close> and \<open>Hw_Osl\<close>
    (\<^verbatim>\<open>pci.c\<close>, \<^verbatim>\<open>osl.c\<close>), \<open>Hw_Main\<close> (\<^verbatim>\<open>hw.c\<close>).
  \<^item> The parts of ACPICA (\<^verbatim>\<open>kernel/hw/acpica/\<close>) that stand by themselves: \<open>Acpi_Owner\<close> (\<^verbatim>\<open>utownerid.c\<close> and the
    status codes), \<open>Acpi_Resource\<close> (\<^verbatim>\<open>utresrc.c\<close>: resource templates), \<open>Acpi_Port\<close> (\<^verbatim>\<open>hwvalid.c\<close>: protected
    ports, on the services of \<^verbatim>\<open>osl.c\<close>), \<open>Acpi_Clib\<close> (\<^verbatim>\<open>utclib.c\<close>), \<open>Acpi_Root\<close> (\<^verbatim>\<open>tbxfroot.c\<close>: the search for
    the root pointer), \<open>Acpi_Aml\<close> (\<^verbatim>\<open>psargs.c\<close>: lengths, names and simple arguments of AML), \<open>Acpi_Number\<close>
    (\<^verbatim>\<open>utmath.c\<close>, \<^verbatim>\<open>uthex.c\<close>, \<^verbatim>\<open>utnonansi.c\<close> and the conversions of \<^verbatim>\<open>exconvrt.c\<close> and \<^verbatim>\<open>exutils.c\<close>: numbers and
    their strings), \<open>Acpi_Field\<close> (\<^verbatim>\<open>exfldio.c\<close>: bit fields), \<open>Acpi_Name\<close> (\<^verbatim>\<open>nsutils.c\<close>, \<^verbatim>\<open>utstring.c\<close>: name strings),
    \<open>Acpi_Namespace\<close> (\<^verbatim>\<open>nswalk.c\<close>, \<^verbatim>\<open>nsalloc.c\<close>: the tree of named nodes), \<open>Acpi_Search\<close> (\<^verbatim>\<open>nssearch.c\<close>: finding
    and entering a name), \<open>Acpi_Path\<close> (\<^verbatim>\<open>nsnames.c\<close>, \<^verbatim>\<open>nsaccess.c\<close>: the path of a node, and the node of a path).

  \<^bold>\<open>Correspondence.\<close>  A C function is a definition of its name, a structure a record with its
  fields, a global variable a field of the state that is passed on.  Integers are words of their
  width, so wrap-around is as in C.  A pointer is a word into a memory of bytes where the code
  does arithmetic on it; the objects the scheduler allocates are in a map of each type, so that
  using a dead one is a fault.  Of the variants of ACPICA's macros, those of \<^verbatim>\<open>platform/acrefk.h\<close>
  are modelled.  Endless loops of the code are \<open>partial_function\<close>s, and not returning is \<open>None\<close>.  No theorem rests on fuel; the only bound is the depth of buses in
  \<open>probe_bus\<close>, where exceeding it is a value of its own, and the theorem covers it.

  \<^bold>\<open>Interfaces.\<close>  Locales state what one part needs of another: \<open>key_order\<close> (what the AVL tree needs of
  a comparison function), \<open>packet_channel\<close> (what a user of a channel relies on), \<open>table_hook\<close> (what
  creating page tables needs of the code called for a new one), \<open>page_callback\<close> (what the memory
  manager needs of the callback for freed pages), \<open>mman_observer\<close> and \<open>root_observer\<close> (a view that
  unmapping leaves alone).  Each is interpreted on the model's own functions.

  \<^bold>\<open>What the lemmas show.\<close>
  The data structures refine what they stand for: an AVL table is a map, also from the
  strings in memory that \<^verbatim>\<open>str_cmp\<close> compares, a channel a queue, the free list a stack, memory moves go as if through a buffer.
  Page tables: mapping, setting flags, unmapping and counting references change exactly the
  entries of their range, keep the tree well formed and never hand out a page twice; mirroring shares
  pages and counts them, a new root shares the kernel's tables and no others, and what is done to one
  address space leaves another alone;
  writing into an address space changes the bytes of its range and no others, and a loaded segment
  holds its file bytes and then zeros, in pages of its own with the rights it asks for; after
  \<^verbatim>\<open>kmem_init\<close> the free list is exactly the usable pages of the memory map, less those it has used.
  Scheduling is fair, one processor at a time holds a lock, a wait followed by a wake leads back.
  The parts fit: a call of the library becomes, through both channels and the request loop, one call
  of the memory manager; its packets decode to what was meant; a scan of the PCI bus is a
  function of the configuration space.
  Of ACPICA: owner ids are a set, a resource template is walked descriptor by descriptor, no protected
  port is touched, the first valid root pointer is found, numbers, lengths and names are
  decoded as they are encoded, a number written as a string is read back, a bit field is read and written as the
  run of bits it is, a name survives the way to its internal form and back, the namespace is walked depth first and a
  subtree of it deleted whole, each of its scopes is a map that names are looked up in from
  the inside out, the path of a node leads back to it,
  and its C library agrees with \<^verbatim>\<open>clib/\<close>.
  Where the code does not do what it means to, the theorem states what it does: a removal that
  leaves an AVL tree unbalanced, a channel that is full and counts as empty, a reaped task
  that is used again, and others that the manifest lists.

  \<^bold>\<open>Not modelled.\<close>  The rest of ACPICA (\<^verbatim>\<open>kernel/hw/acpica/\<close>: the interpreter, the objects behind names, events,
  tables, the conversion of resources) and \<^verbatim>\<open>dlmalloc\<close> (\<^verbatim>\<open>clib/malloc.c\<close>) are vendored; what the code
  takes from them is a parameter, or, for the allocator, the sequence of its answers.  The
  assembly files (\<^verbatim>\<open>multiboot.s\<close>, \<^verbatim>\<open>intr.s\<close>, \<^verbatim>\<open>transfer.s\<close>) and the images the build makes are parameters.
  Debug output is left out except where it is what a function is for.  The driver
  \<^verbatim>\<open>rtl8139.c\<close>, which only prints, and the calls of \<^verbatim>\<open>hw.c\<close> that set up ACPICA are left
  out.  Concurrency between processors is modelled for the spinlock and the semaphores only:
  the scheduler runs one request at a time.
\<close>

end
